(* ===== verification/Prelude.thy ===== *)
theory Prelude
  imports Main "HOL-Library.List_Lexorder" "HOL-Library.Char_ord"
begin

section \<open>Prelude: what every component shares\<close>

text \<open>
  Go strings are byte strings: here \<open>string\<close>, a list of \<open>char\<close>, one \<open>char\<close> per byte, ordered
  bytewise as Go orders them (\<open>List_Lexorder\<close> over \<open>Char_ord\<close>). This theory models the parts of
  Go's standard library that the components use (\<open>strings\<close>, \<open>strconv\<close>, \<open>unicode/utf8\<close>), with the
  laws the component proofs rest on, and the two interfaces that the stateful components share:
  a machine whose operations keep an invariant, and one where the first writer of a key wins.
\<close>

named_theorems str_simps \<open>laws of the string functions\<close>
named_theorems table_simps \<open>laws of the tables (rows found, rows kept)\<close>

type_synonym time = int
type_synonym duration = int

text \<open>Go's \<open>(value, error)\<close> pair: \<open>Inl\<close> is the error.\<close>

type_synonym ('e, 'a) result = "'e + 'a"

abbreviation byte :: "char \<Rightarrow> nat" where
  "byte c \<equiv> of_char c"

subsection \<open>strings: IndexByte, Cut, CutPrefix, TrimPrefix, Join\<close>

text \<open>\<open>strings.CutPrefix\<close>: the rest after the prefix, \<open>None\<close> when \<open>s\<close> does not start with it.\<close>

fun cut_prefix :: "string \<Rightarrow> string \<Rightarrow> string option" where
  "cut_prefix [] s = Some s"
| "cut_prefix (p # ps) [] = None"
| "cut_prefix (p # ps) (c # cs) = (if p = c then cut_prefix ps cs else None)"

definition has_prefix :: "string \<Rightarrow> string \<Rightarrow> bool" where
  "has_prefix p s = (cut_prefix p s \<noteq> None)"

definition trim_prefix :: "string \<Rightarrow> string \<Rightarrow> string" where
  "trim_prefix p s = (case cut_prefix p s of Some r \<Rightarrow> r | None \<Rightarrow> s)"

text \<open>\<open>strings.Cut\<close> at a one-byte separator: before, after, found.\<close>

definition cut_byte :: "char \<Rightarrow> string \<Rightarrow> string \<times> string \<times> bool" where
  "cut_byte c s = (takeWhile (\<lambda>x. x \<noteq> c) s, drop 1 (dropWhile (\<lambda>x. x \<noteq> c) s), c \<in> set s)"

text \<open>\<open>strings.IndexByte\<close> and \<open>strings.LastIndexByte\<close>: \<open>None\<close> is Go's -1.\<close>

definition index_byte :: "char \<Rightarrow> string \<Rightarrow> nat option" where
  "index_byte c s = (if c \<in> set s then Some (length (takeWhile (\<lambda>x. x \<noteq> c) s)) else None)"

definition last_index_byte :: "char \<Rightarrow> string \<Rightarrow> nat option" where
  "last_index_byte c s =
     (if c \<in> set s then Some (length s - 1 - length (takeWhile (\<lambda>x. x \<noteq> c) (rev s))) else None)"

text \<open>\<open>strings.Index\<close>: the first place where \<open>p\<close> starts.\<close>

fun index_str :: "string \<Rightarrow> string \<Rightarrow> nat option" where
  "index_str p s =
     (if has_prefix p s then Some 0
      else case s of [] \<Rightarrow> None | _ # cs \<Rightarrow> map_option Suc (index_str p cs))"

declare index_str.simps [simp del]

fun join :: "string \<Rightarrow> string list \<Rightarrow> string" where
  "join sep [] = []"
| "join sep [s] = s"
| "join sep (s # t # ts) = s @ sep @ join sep (t # ts)"

text \<open>\<open>cmp.Or\<close> on strings: the first that is not empty.\<close>

definition cmp_or :: "string \<Rightarrow> string \<Rightarrow> string" where
  "cmp_or a b = (if a \<noteq> [] then a else b)"

lemma cut_prefix_append [simp, str_simps]: "cut_prefix p (p @ s) = Some s"
  by (induction p) auto

lemma cut_prefix_Some_iff [str_simps]: "cut_prefix p s = Some r \<longleftrightarrow> s = p @ r"
  by (induction p s rule: cut_prefix.induct) auto

lemma has_prefix_iff [str_simps]: "has_prefix p s \<longleftrightarrow> (\<exists>r. s = p @ r)"
  by (auto simp: has_prefix_def cut_prefix_Some_iff)

lemma has_prefix_append [simp]: "has_prefix p (p @ s)"
  by (auto simp: has_prefix_iff)

lemma takeWhile_neq [simp]: "c \<notin> set a \<Longrightarrow> takeWhile (\<lambda>x. x \<noteq> c) (a @ c # b) = a"
  by (induction a) auto

lemma dropWhile_neq [simp]: "c \<notin> set a \<Longrightarrow> dropWhile (\<lambda>x. x \<noteq> c) (a @ c # b) = c # b"
  by (induction a) auto

lemma takeWhile_neq_all [simp]: "c \<notin> set a \<Longrightarrow> takeWhile (\<lambda>x. x \<noteq> c) a = a"
  by (induction a) auto

lemma dropWhile_neq_all [simp]: "c \<notin> set a \<Longrightarrow> dropWhile (\<lambda>x. x \<noteq> c) a = []"
  by (induction a) auto

lemma cut_byte_append [simp, str_simps]:
  "c \<notin> set a \<Longrightarrow> cut_byte c (a @ c # b) = (a, b, True)"
  by (simp add: cut_byte_def)

lemma cut_byte_none [simp, str_simps]: "c \<notin> set a \<Longrightarrow> cut_byte c a = (a, [], False)"
  by (simp add: cut_byte_def)

lemma cut_byte_found:
  assumes "cut_byte c s = (a, b, True)"
  shows "s = a @ c # b \<and> c \<notin> set a"
proof -
  from assms have a: "a = takeWhile (\<lambda>x. x \<noteq> c) s" and b: "b = drop 1 (dropWhile (\<lambda>x. x \<noteq> c) s)"
    and c: "c \<in> set s"
    by (auto simp: cut_byte_def)
  from c have ne: "dropWhile (\<lambda>x. x \<noteq> c) s \<noteq> []" by (simp add: dropWhile_eq_Nil_conv)
  with hd_dropWhile [OF this] have "dropWhile (\<lambda>x. x \<noteq> c) s = c # b"
    by (cases "dropWhile (\<lambda>x. x \<noteq> c) s") (auto simp: b)
  then have "s = a @ c # b" using takeWhile_dropWhile_id [of "\<lambda>x. x \<noteq> c" s] by (simp add: a)
  moreover have "c \<notin> set a" using set_takeWhileD [of c "\<lambda>x. x \<noteq> c" s] by (auto simp: a)
  ultimately show ?thesis ..
qed

lemma index_byte_append [simp, str_simps]:
  "c \<notin> set a \<Longrightarrow> index_byte c (a @ c # b) = Some (length a)"
  by (simp add: index_byte_def)

lemma last_index_byte_append [simp, str_simps]:
  "c \<notin> set b \<Longrightarrow> last_index_byte c (a @ c # b) = Some (length a)"
  using takeWhile_neq [of c "rev b" "rev a"] by (simp add: last_index_byte_def)

lemma last_index_byte_Some:
  assumes "last_index_byte c s = Some i"
  shows "\<exists>a b. s = a @ c # b \<and> c \<notin> set b \<and> i = length a"
proof -
  from assms have "c \<in> set s" by (auto simp: last_index_byte_def split: if_splits)
  then obtain a b where s: "s = a @ c # b" "c \<notin> set b"
    by (meson split_list_last)
  with assms have "i = length a" by simp
  with s show ?thesis by blast
qed

lemma find_append: "find P (xs @ ys) = (case find P xs of None \<Rightarrow> find P ys | Some x \<Rightarrow> Some x)"
  by (induction xs) auto

subsection \<open>strconv: decimal numbers\<close>

definition digit_char :: "nat \<Rightarrow> char" where
  "digit_char d = ''0123456789'' ! d"

definition digit_val :: "char \<Rightarrow> nat" where
  "digit_val c = byte c - 48"

definition is_digit :: "char \<Rightarrow> bool" where
  "is_digit c = (48 \<le> byte c \<and> byte c \<le> 57)"

text \<open>\<open>fmt\<close>'s \<open>%d\<close> of a natural number, and of an integer.\<close>

fun dec_nat :: "nat \<Rightarrow> string" where
  "dec_nat n = (if n < 10 then [digit_char n] else dec_nat (n div 10) @ [digit_char (n mod 10)])"

declare dec_nat.simps [simp del]

definition dec_int :: "int \<Rightarrow> string" where
  "dec_int i = (if i < 0 then CHR ''-'' # dec_nat (nat (- i)) else dec_nat (nat i))"

text \<open>The value of a string of digits.\<close>

definition digits_value :: "string \<Rightarrow> nat" where
  "digits_value s = foldl (\<lambda>v c. 10 * v + digit_val c) 0 s"

lemma digit_char_cases: "d < 10 \<Longrightarrow> d \<in> {0, 1, 2, 3, 4, 5, 6, 7, 8, 9::nat}"
  by auto

lemma is_digit_digit_char [simp]: "d < 10 \<Longrightarrow> is_digit (digit_char d)"
  using digit_char_cases [of d] by (auto simp: digit_char_def is_digit_def)

lemma digit_val_digit_char [simp]: "d < 10 \<Longrightarrow> digit_val (digit_char d) = d"
  using digit_char_cases [of d] by (auto simp: digit_char_def digit_val_def)

lemma digits_value_snoc: "digits_value (s @ [c]) = 10 * digits_value s + digit_val c"
  by (simp add: digits_value_def)

lemma dec_nat_digits: "\<forall>c \<in> set (dec_nat n). is_digit c"
proof (induction n rule: dec_nat.induct)
  case (1 n)
  then show ?case by (cases "n < 10") (auto simp: dec_nat.simps [of n])
qed

lemma dec_nat_not_Nil [simp]: "dec_nat n \<noteq> []"
  by (subst dec_nat.simps) simp

lemma digits_value_dec_nat [simp]: "digits_value (dec_nat n) = n"
proof (induction n rule: dec_nat.induct)
  case (1 n)
  show ?case
  proof (cases "n < 10")
    case True
    then show ?thesis by (simp add: dec_nat.simps [of n] digits_value_def)
  next
    case False
    with 1 show ?thesis by (simp add: dec_nat.simps [of n] digits_value_snoc)
  qed
qed

lemma dec_nat_inject [simp]: "dec_nat m = dec_nat n \<longleftrightarrow> m = n"
  by (metis digits_value_dec_nat)

lemma not_digit_dec_nat: "\<not> is_digit c \<Longrightarrow> c \<notin> set (dec_nat n)"
  using dec_nat_digits by blast

lemma is_digit_literals [simp]:
  "\<not> is_digit (CHR '':'')" "\<not> is_digit (CHR ''.'')" "\<not> is_digit (CHR ''-'')" "\<not> is_digit (CHR ''e'')"
  "\<not> is_digit (CHR ''s'')" "\<not> is_digit (CHR ''m'')"
  by (simp_all add: is_digit_def)

lemma dec_int_nonneg: "0 \<le> i \<Longrightarrow> dec_int i = dec_nat (nat i)"
  by (simp add: dec_int_def)

lemma dec_int_no_colon [simp]: "CHR '':'' \<notin> set (dec_int i)" "CHR ''.'' \<notin> set (dec_int i)"
  by (auto simp: dec_int_def not_digit_dec_nat)

lemma dec_nat_hd: "dec_nat n = c # cs \<Longrightarrow> is_digit c"
  using dec_nat_digits [of n] by auto

lemma dec_int_inject [simp]: "dec_int i = dec_int j \<longleftrightarrow> i = j"
proof
  assume eq: "dec_int i = dec_int j"
  show "i = j"
  proof (cases "i < 0")
    case True
    with eq show ?thesis
      by (cases "j < 0") (auto simp: dec_int_def dest: dec_nat_hd [OF sym])
  next
    case False
    with eq show ?thesis
      by (cases "j < 0") (auto simp: dec_int_def dest: dec_nat_hd)
  qed
qed simp

subsection \<open>unicode/utf8\<close>

text \<open>\<open>utf8.RuneStart\<close>: not a continuation byte, \<open>b & 0xC0 != 0x80\<close>.\<close>

definition rune_start :: "char \<Rightarrow> bool" where
  "rune_start c = (\<not> (128 \<le> byte c \<and> byte c < 192))"

abbreviation cont_byte :: "char \<Rightarrow> bool" where
  "cont_byte c \<equiv> 128 \<le> byte c \<and> byte c < 192"

text \<open>
  The lead byte of a sequence says how long it is, and the range of its second byte
  (\<open>unicode/utf8\<close>'s \<open>first\<close> and \<open>acceptRanges\<close> tables). \<open>None\<close>: no sequence starts so.
\<close>

definition lead_info :: "char \<Rightarrow> (nat \<times> nat \<times> nat) option" where
  "lead_info c = (let b = byte c in
     if b < 0xC2 then None
     else if b \<le> 0xDF then Some (2, 0x80, 0xBF)
     else if b = 0xE0 then Some (3, 0xA0, 0xBF)
     else if b = 0xED then Some (3, 0x80, 0x9F)
     else if b \<le> 0xEF then Some (3, 0x80, 0xBF)
     else if b = 0xF0 then Some (4, 0x90, 0xBF)
     else if b \<le> 0xF3 then Some (4, 0x80, 0xBF)
     else if b = 0xF4 then Some (4, 0x80, 0x8F)
     else None)"

definition rune_error :: nat where
  "rune_error = 0xFFFD"

text \<open>\<open>utf8.DecodeRuneInString\<close>: the rune and its size; an invalid byte is \<open>RuneError\<close>, one byte.\<close>

definition decode_rune :: "string \<Rightarrow> nat \<times> nat" where
  "decode_rune s = (case s of [] \<Rightarrow> (rune_error, 0)
   | c # cs \<Rightarrow>
       if byte c < 0x80 then (byte c, 1)
       else case lead_info c of None \<Rightarrow> (rune_error, 1)
       | Some (n, lo, hi) \<Rightarrow>
           (case cs of [] \<Rightarrow> (rune_error, 1)
            | c1 # cs1 \<Rightarrow>
                if byte c1 < lo \<or> hi < byte c1 then (rune_error, 1)
                else if n = 2 then ((byte c mod 32) * 64 + byte c1 mod 64, 2)
                else (case cs1 of [] \<Rightarrow> (rune_error, 1)
                 | c2 # cs2 \<Rightarrow>
                     if \<not> cont_byte c2 then (rune_error, 1)
                     else if n = 3 then (((byte c mod 16) * 64 + byte c1 mod 64) * 64 + byte c2 mod 64, 3)
                     else (case cs2 of [] \<Rightarrow> (rune_error, 1)
                      | c3 # _ \<Rightarrow>
                          if \<not> cont_byte c3 then (rune_error, 1)
                          else ((((byte c mod 8) * 64 + byte c1 mod 64) * 64 + byte c2 mod 64) * 64
                                 + byte c3 mod 64, 4)))))"

lemma decode_rune_size_pos: "s \<noteq> [] \<Longrightarrow> 0 < snd (decode_rune s)"
  by (auto simp: decode_rune_def split: list.splits option.splits)

lemma decode_rune_size_le: "snd (decode_rune s) \<le> length s"
  by (auto simp: decode_rune_def split: list.splits option.splits)

lemma decode_rune_pos: "(r, n) = decode_rune s \<Longrightarrow> s \<noteq> [] \<Longrightarrow> 0 < n"
  using decode_rune_size_pos [of s] by (cases "decode_rune s") simp

text \<open>
  What \<open>encoding/json\<close> keeps of a Go string it encodes: each invalid byte becomes U+FFFD. A string
  is valid UTF-8 when there is none.
\<close>

function to_valid :: "string \<Rightarrow> string" where
  "to_valid s =
     (if s = [] then []
      else case decode_rune s of (r, n) \<Rightarrow>
        if r = rune_error \<and> n = 1 then [CHR 0xEF, CHR 0xBF, CHR 0xBD] @ to_valid (drop 1 s)
        else take n s @ to_valid (drop n s))"
  by pat_completeness auto
termination
  by (relation "measure length") (auto dest: decode_rune_pos)

declare to_valid.simps [simp del]

function valid_utf8 :: "string \<Rightarrow> bool" where
  "valid_utf8 s =
     (if s = [] then True
      else case decode_rune s of (r, n) \<Rightarrow>
        if r = rune_error \<and> n = 1 then False else valid_utf8 (drop n s))"
  by pat_completeness auto
termination
  by (relation "measure length") (auto dest: decode_rune_pos)

declare valid_utf8.simps [simp del]

lemma to_valid_Nil [simp]: "to_valid [] = []"
  by (subst to_valid.simps) simp

lemma valid_utf8_Nil [simp]: "valid_utf8 []"
  by (subst valid_utf8.simps) simp

lemma to_valid_valid: "valid_utf8 s \<Longrightarrow> to_valid s = s"
proof (induction s rule: valid_utf8.induct)
  case (1 s)
  obtain r n where rn: "decode_rune s = (r, n)" by fastforce
  show ?case
  proof (cases "s = []")
    case True
    then show ?thesis by simp
  next
    case False
    with 1 rn have "\<not> (r = rune_error \<and> n = 1)" and "to_valid (drop n s) = drop n s"
      by (auto simp: valid_utf8.simps [of s] split: if_splits)
    with False rn show ?thesis by (auto simp: to_valid.simps [of s])
  qed
qed

lemma to_valid_eq_Nil [simp]: "to_valid s = [] \<longleftrightarrow> s = []"
proof (cases "s = []")
  case False
  obtain r n where rn: "decode_rune s = (r, n)" by fastforce
  with False decode_rune_size_pos [of s] show ?thesis by (auto simp: to_valid.simps [of s])
qed simp

lemma decode_rune_ascii: "byte c < 128 \<Longrightarrow> decode_rune (c # cs) = (byte c, 1)"
  by (simp add: decode_rune_def)

lemma valid_utf8_ascii: "list_all (\<lambda>c. byte c < 128) s \<Longrightarrow> valid_utf8 s"
proof (induction s)
  case (Cons c s)
  then show ?case by (simp add: valid_utf8.simps [of "c # s"] decode_rune_ascii rune_error_def)
qed simp

text \<open>\<open>back_up s i\<close> is the loop \<open>for i > 0 && !utf8.RuneStart(s[i]) { i-- }\<close>.\<close>

fun back_up :: "string \<Rightarrow> nat \<Rightarrow> nat" where
  "back_up s 0 = 0"
| "back_up s (Suc i) = (if rune_start (s ! Suc i) then Suc i else back_up s i)"

lemma back_up_le: "back_up s i \<le> i"
  by (induction i) (auto intro: le_SucI)

lemma back_up_stops: "back_up s i = 0 \<or> rune_start (s ! back_up s i)"
  by (induction i) auto

lemma back_up_skips: "back_up s i < j \<Longrightarrow> j \<le> i \<Longrightarrow> \<not> rune_start (s ! j)"
  by (induction i) (auto split: if_splits simp: le_Suc_eq)

lemma decode_rune_size_le4: "snd (decode_rune s) \<le> 4"
  by (auto simp: decode_rune_def split: list.splits option.splits)

lemma lead_info_ranges: "lead_info c = Some (n, lo, hi) \<Longrightarrow> 2 \<le> n \<and> n \<le> 4 \<and> 128 \<le> lo \<and> hi < 192 \<and> 192 \<le> byte c"
  by (auto simp: lead_info_def Let_def split: if_splits)

text \<open>The bytes of a sequence after its first are continuation bytes.\<close>

lemma decode_rune_cont:
  assumes "0 < j" and "j < snd (decode_rune s)"
  shows "cont_byte (s ! j)"
proof -
  from assms obtain c cs where s: "s = c # cs" by (cases s) (auto simp: decode_rune_def)
  have b: "\<not> byte c < 128" using assms s by (auto simp: decode_rune_def)
  with assms s obtain n lo hi where l: "lead_info c = Some (n, lo, hi)"
    by (cases "lead_info c") (auto simp: decode_rune_def)
  note r = lead_info_ranges [OF l]
  obtain c1 cs1 where cs: "cs = c1 # cs1" using assms s b l by (cases cs) (auto simp: decode_rune_def)
  have c1: "lo \<le> byte c1 \<and> byte c1 \<le> hi" using assms s b l cs
    by (auto simp: decode_rune_def split: if_splits)
  show ?thesis
  proof (cases "j = 1")
    case True
    then show ?thesis using s cs c1 r by auto
  next
    case False
    then have j: "j \<ge> 2" using assms(1) by simp
    have n2: "n \<noteq> 2" using assms s b l cs c1 j by (auto simp: decode_rune_def split: if_splits)
    obtain c2 cs2 where cs1: "cs1 = c2 # cs2" using assms s b l cs c1 j n2
      by (cases cs1) (auto simp: decode_rune_def split: if_splits)
    have c2: "cont_byte c2" using assms s b l cs c1 j n2 cs1 by (auto simp: decode_rune_def split: if_splits)
    show ?thesis
    proof (cases "j = 2")
      case True
      then show ?thesis using s cs cs1 c2 by simp
    next
      case False
      then have j3: "j = 3" using j assms decode_rune_size_le4 [of s] by linarith
      have n3: "n \<noteq> 3" using assms s b l cs c1 c2 j3 n2 cs1 by (auto simp: decode_rune_def split: if_splits)
      obtain c3 cs3 where cs2: "cs2 = c3 # cs3" using assms s b l cs c1 c2 j3 n2 n3 cs1
        by (cases cs2) (auto simp: decode_rune_def split: if_splits)
      have "cont_byte c3" using assms s b l cs c1 j3 n2 n3 cs1 cs2 c2 by (auto simp: decode_rune_def split: if_splits)
      then show ?thesis using s cs cs1 cs2 j3 by simp
    qed
  qed
qed

lemma decode_rune_start: "decode_rune s = (r, n) \<Longrightarrow> \<not> (r = rune_error \<and> n = 1) \<Longrightarrow> s \<noteq> [] \<Longrightarrow> rune_start (s ! 0)"
  by (cases s) (auto simp: decode_rune_def rune_start_def dest: lead_info_ranges split: option.splits if_splits)

text \<open>A sequence is decoded from its own bytes.\<close>

lemma decode_rune_take:
  assumes "snd (decode_rune s) \<le> k" and "fst (decode_rune s) \<noteq> rune_error \<or> snd (decode_rune s) \<noteq> 1"
  shows "decode_rune (take k s) = decode_rune s"
proof (cases s)
  case (Cons c cs)
  from assms(1) have k: "0 < k" using decode_rune_size_pos [of s] Cons by simp
  then obtain k1 where k1: "k = Suc k1" by (cases k) auto
  show ?thesis using assms Cons k1
    by (auto simp: decode_rune_def take_Cons' split: list.splits option.splits if_splits)
qed simp

lemma valid_utf8_step:
  "s \<noteq> [] \<Longrightarrow> valid_utf8 s \<Longrightarrow> decode_rune s = (r, n) \<Longrightarrow> \<not> (r = rune_error \<and> n = 1) \<and> valid_utf8 (drop n s)"
  by (subst (asm) valid_utf8.simps) (auto split: if_splits)

lemma valid_utf8_take:
  "valid_utf8 s \<Longrightarrow> k \<le> length s \<Longrightarrow> k = length s \<or> rune_start (s ! k) \<Longrightarrow> valid_utf8 (take k s)"
proof (induction s arbitrary: k rule: valid_utf8.induct)
  case (1 s)
  show ?case
  proof (cases "s = [] \<or> k = 0")
    case False
    obtain r n where rn: "decode_rune s = (r, n)" by fastforce
    from valid_utf8_step [OF _ "1.prems"(1) rn] False have ok: "\<not> (r = rune_error \<and> n = 1)" "valid_utf8 (drop n s)" by auto
    have "\<not> k < n"
    proof
      assume "k < n"
      with False rn decode_rune_cont [of k s] have "cont_byte (s ! k)" by simp
      moreover have "k \<noteq> length s" using \<open>k < n\<close> decode_rune_size_le [of s] rn by simp
      ultimately show False using "1.prems"(3) by (simp add: rune_start_def)
    qed
    then have "n \<le> k" by simp
    have n0: "n \<le> length s" using decode_rune_size_le [of s] rn by simp
    have "valid_utf8 (take (k - n) (drop n s))"
      using "1.IH" [OF _ rn [symmetric], of "k - n"] False ok "1.prems" \<open>n \<le> k\<close> n0 by (auto simp: nth_append)
    moreover have "decode_rune (take k s) = (r, n)" using decode_rune_take [of s k] rn ok \<open>n \<le> k\<close> by auto
    moreover have "drop n (take k s) = take (k - n) (drop n s)" by (simp add: drop_take)
    ultimately show ?thesis using ok False by (subst valid_utf8.simps) simp
  qed auto
qed

lemma decode_rune_append:
  assumes "a \<noteq> []" and "fst (decode_rune a) \<noteq> rune_error \<or> snd (decode_rune a) \<noteq> 1"
  shows "decode_rune (a @ b) = decode_rune a"
proof -
  from assms(1) obtain c cs where a: "a = c # cs" by (cases a) auto
  consider "cs = []" | c1 where "cs = [c1]" | c1 c2 where "cs = [c1, c2]" | c1 c2 c3 ds where "cs = c1 # c2 # c3 # ds"
    by (metis list.exhaust)
  then show ?thesis
  proof cases
    case 1
    then show ?thesis using assms(2) a by (auto simp: decode_rune_def split: option.splits if_splits)
  next
    case 2
    then show ?thesis using assms(2) a by (auto simp: decode_rune_def split: option.splits if_splits)
  next
    case 3
    then show ?thesis using assms(2) a by (auto simp: decode_rune_def split: option.splits if_splits)
  next
    case 4
    then show ?thesis by (simp add: a decode_rune_def split: option.split)
  qed
qed

lemma valid_utf8_drop:
  "valid_utf8 s \<Longrightarrow> k = length s \<or> rune_start (s ! k) \<Longrightarrow> valid_utf8 (drop k s)"
proof (induction s arbitrary: k rule: valid_utf8.induct)
  case (1 s)
  show ?case
  proof (cases "s = [] \<or> k = 0")
    case False
    obtain r n where rn: "decode_rune s = (r, n)" by fastforce
    from valid_utf8_step [OF _ "1.prems"(1) rn] False have ok: "\<not> (r = rune_error \<and> n = 1)" "valid_utf8 (drop n s)" by auto
    have n0: "n \<le> length s" using decode_rune_size_le [of s] rn by simp
    have "n \<le> k"
    proof (rule ccontr)
      assume "\<not> n \<le> k"
      with False rn decode_rune_cont [of k s] have "cont_byte (s ! k)" "k \<noteq> length s" using n0 by auto
      with "1.prems"(2) show False by (simp add: rune_start_def)
    qed
    then have "valid_utf8 (drop (k - n) (drop n s))"
      using "1.IH" [OF _ rn [symmetric], of "k - n"] False ok "1.prems" n0 by auto
    then show ?thesis using \<open>n \<le> k\<close> by simp
  qed (use "1.prems" in auto)
qed

lemma valid_utf8_append: "valid_utf8 a \<Longrightarrow> valid_utf8 b \<Longrightarrow> valid_utf8 (a @ b)"
proof (induction a rule: valid_utf8.induct)
  case (1 a)
  show ?case
  proof (cases "a = []")
    case False
    obtain r n where rn: "decode_rune a = (r, n)" by fastforce
    from valid_utf8_step [OF False "1.prems"(1) rn] have ok: "\<not> (r = rune_error \<and> n = 1)" "valid_utf8 (drop n a)" by auto
    have n0: "n \<le> length a" using decode_rune_size_le [of a] rn by simp
    have "decode_rune (a @ b) = (r, n)" using decode_rune_append [of a] rn ok False by auto
    moreover have "valid_utf8 (drop n a @ b)" using "1.IH" [OF False rn [symmetric]] ok "1.prems" by simp
    ultimately show ?thesis using ok False n0 by (subst valid_utf8.simps) simp
  qed (use "1.prems" in simp)
qed

lemma valid_utf8_near:
  "valid_utf8 s \<Longrightarrow> k < length s \<Longrightarrow> \<exists>j \<le> k. k \<le> j + 3 \<and> rune_start (s ! j)"
proof (induction s arbitrary: k rule: valid_utf8.induct)
  case (1 s)
  obtain r n where rn: "decode_rune s = (r, n)" by fastforce
  have ne: "s \<noteq> []" using "1.prems" by auto
  from valid_utf8_step [OF ne "1.prems"(1) rn] have ok: "\<not> (r = rune_error \<and> n = 1)" "valid_utf8 (drop n s)" by auto
  show ?case
  proof (cases "k < n")
    case True
    then have "k \<le> 0 + 3" using decode_rune_size_le4 [of s] rn by simp
    with decode_rune_start [OF rn ok(1) ne] show ?thesis by blast
  next
    case False
    have "\<exists>j \<le> k - n. k - n \<le> j + 3 \<and> rune_start (drop n s ! j)"
      using "1.IH" [OF ne rn [symmetric] ok(1), of "k - n"] ok(2) "1.prems" False by auto
    then obtain j where j: "j \<le> k - n" "k - n \<le> j + 3" "rune_start (drop n s ! j)" by blast
    have "n + j \<le> k" using j False by simp
    with j False "1.prems" have "rune_start (s ! (n + j))" by simp
    with j \<open>n + j \<le> k\<close> show ?thesis by (intro exI [of _ "n + j"]) auto
  qed
qed

lemma back_up_near:
  assumes "valid_utf8 s" and "k < length s"
  shows "k \<le> back_up s k + 3"
proof -
  from valid_utf8_near [OF assms] obtain j where j: "j \<le> k" "k \<le> j + 3" "rune_start (s ! j)" by blast
  have "\<not> back_up s k < j" using back_up_skips [of s k j] j by blast
  with j show ?thesis by simp
qed

lemma valid_utf8_back_up: "valid_utf8 s \<Longrightarrow> k < length s \<Longrightarrow> valid_utf8 (take (back_up s k) s)"
  using back_up_le [of s k] back_up_stops [of s k] by (cases "back_up s k = 0") (auto intro: valid_utf8_take)

text \<open>The ellipsis the code ends a clipped text with, in UTF-8.\<close>

definition ellipsis :: string where
  "ellipsis = [CHR 0xE2, CHR 0x80, CHR 0xA6]"

subsection \<open>Machines whose operations keep an invariant\<close>

text \<open>
  The stateful components (the tables, the throttle) are a state and operations on it. A client
  that runs any sequence of operations relies on two laws, proved once here: an invariant that
  every operation keeps holds after any run (for \<open>guarded\<close>, every operation its clients call), and where the first writer of a key wins, what it
  wrote is still there after any run.
\<close>

locale guarded =
  fixes step :: "'s \<Rightarrow> 'op \<Rightarrow> 's"
    and inv :: "'s \<Rightarrow> bool"
    and ok :: "'op \<Rightarrow> bool"
  assumes guarded_step: "ok op \<Longrightarrow> inv s \<Longrightarrow> inv (step s op)"
begin

lemma run_guarded: "list_all ok ops \<Longrightarrow> inv s \<Longrightarrow> inv (foldl step s ops)"
  by (induction ops arbitrary: s) (auto intro: guarded_step)

end

locale machine =
  fixes step :: "'s \<Rightarrow> 'op \<Rightarrow> 's"
    and inv :: "'s \<Rightarrow> bool"
  assumes step_inv: "inv s \<Longrightarrow> inv (step s op)"
begin

lemma run_inv: "inv s \<Longrightarrow> inv (foldl step s ops)"
  by (induction ops arbitrary: s) (auto intro: step_inv)

end

sublocale machine \<subseteq> any: guarded step inv "\<lambda>_. True"
  by unfold_locales (rule step_inv)

locale first_writer = machine step inv
  for step :: "'s \<Rightarrow> 'op \<Rightarrow> 's" and inv :: "'s \<Rightarrow> bool" +
  fixes found :: "'s \<Rightarrow> 'k \<Rightarrow> 'v option"
  assumes found_step: "inv s \<Longrightarrow> found s k = Some v \<Longrightarrow> found (step s op) k = Some v"
begin

lemma run_found: "inv s \<Longrightarrow> found s k = Some v \<Longrightarrow> found (foldl step s ops) k = Some v"
proof (induction ops arbitrary: s)
  case Nil
  then show ?case by simp
next
  case (Cons op ops)
  then have "found (step s op) k = Some v" "inv (step s op)"
    by (auto intro: found_step step_inv)
  then show ?case using Cons.IH by simp
qed

lemma run_found_unique:
  assumes "inv s" and "found (foldl step s ops) k = Some v"
    and "found (foldl step s (ops @ ops')) k = Some w"
  shows "v = w"
proof -
  from assms(1) have "inv (foldl step s ops)" by (rule run_inv)
  from run_found [OF this assms(2)] have "found (foldl step (foldl step s ops) ops') k = Some v" .
  with assms(3) show ?thesis by simp
qed

end

end
