(* ===== verification/Keys.thy ===== *)
theory Keys
  imports Prelude
begin

section \<open>Identifiers: message keys, turn keys, workflow IDs\<close>

text \<open>
  \<open>store/message.go\<close>, \<open>store/background_task.go\<close>, \<open>store/report.go\<close> and the workflow IDs of
  \<open>workflow/participant.go\<close> and \<open>workflow/agent.go\<close>. Every message of a session is stored under an
  idempotency key that tells who wrote it; every workflow has an ID that tells its session,
  its participant and its background task. The lemmas are the round trips of these encodings, and
  that keys of different writers are never mistaken for one another.
\<close>

subsection \<open>Turn keys\<close>

text \<open>\<open>digits\<close>: one ASCII digit at least, and nothing else.\<close>

definition digits :: "string \<Rightarrow> bool" where
  "digits s = (list_all is_digit s \<and> s \<noteq> [])"

text \<open>\<open>strconv.ParseInt(s, 10, 64)\<close> of a string of digits: out of range is an error.\<close>

definition parse_int64 :: "string \<Rightarrow> int option" where
  "parse_int64 s = (if digits_value s < 2 ^ 63 then Some (int (digits_value s)) else None)"

definition TurnKey :: "int \<Rightarrow> string \<Rightarrow> string" where
  "TurnKey messageID participant = ''m'' @ dec_int messageID @ ''.'' @ participant"

definition parseTurn :: "string \<Rightarrow> (int \<times> string) option" where
  "parseTurn turn =
     (case cut_prefix ''m'' turn of None \<Rightarrow> None
      | Some rest \<Rightarrow>
          (case cut_byte (CHR ''.'') rest of (digitsOf, participant, dot) \<Rightarrow>
             if \<not> dot \<or> \<not> digits digitsOf then None
             else (case parse_int64 digitsOf of None \<Rightarrow> None
                   | Some anchor \<Rightarrow>
                       if participant = [] \<or> list_ex (\<lambda>c. c = CHR ''.'' \<or> c = CHR '':'') participant
                       then None else Some (anchor, participant))))"

definition TurnAnchor :: "string \<Rightarrow> int option" where
  "TurnAnchor turnKey = map_option fst (parseTurn turnKey)"

definition TurnParticipant :: "string \<Rightarrow> string" where
  "TurnParticipant turnKey = (case parseTurn turnKey of Some (_, p) \<Rightarrow> p | None \<Rightarrow> [])"

definition TurnEndKey :: "string \<Rightarrow> string" where
  "TurnEndKey turnKey = turnKey @ '':'' @ ''end''"

definition TurnMessageKey :: "string \<Rightarrow> int \<Rightarrow> string" where
  "TurnMessageKey turnKey index = turnKey @ '':'' @ dec_int index"

definition TurnOf :: "string \<Rightarrow> string option" where
  "TurnOf msgKey =
     (case last_index_byte (CHR '':'') msgKey of None \<Rightarrow> None
      | Some i \<Rightarrow>
          if i = 0 then None
          else let suffix = drop (Suc i) msgKey; turn = take i msgKey in
            if suffix \<noteq> ''end'' \<and> \<not> digits suffix then None
            else if parseTurn turn = None then None else Some turn)"

definition IsTurnEnd :: "string \<Rightarrow> bool" where
  "IsTurnEnd msgKey = (case TurnOf msgKey of Some turn \<Rightarrow> msgKey = TurnEndKey turn | None \<Rightarrow> False)"

subsection \<open>The keys of the other writers\<close>

definition HumanMessageKey :: "string \<Rightarrow> string" where
  "HumanMessageKey ident = ''msg:'' @ ident"

definition ForkReportKey :: "string \<Rightarrow> int \<Rightarrow> int \<Rightarrow> string" where
  "ForkReportKey forkSessionID fromID upTo =
     ''report:'' @ forkSessionID @ '':'' @ dec_int fromID @ ''-'' @ dec_int upTo"

definition ScheduledMessageKey :: "string \<Rightarrow> int \<Rightarrow> string" where
  "ScheduledMessageKey scheduleID runUnixMilli = ''sched:'' @ scheduleID @ '':'' @ dec_int runUnixMilli"

definition IsScheduledResult :: "string \<Rightarrow> bool" where
  "IsScheduledResult msgKey = has_prefix ''sched:'' msgKey"

definition TaskResultKey :: "string \<Rightarrow> string" where
  "TaskResultKey taskID = ''task:'' @ taskID"

definition ForkSummaryKey :: string where
  "ForkSummaryKey = ''fork-summary:0''"

subsection \<open>Workflow IDs\<close>

definition ParticipantWorkflowID :: "string \<Rightarrow> string \<Rightarrow> string" where
  "ParticipantWorkflowID sessionID agentID = sessionID @ '':p:'' @ agentID"

definition turnWorkflowID :: "string \<Rightarrow> int \<Rightarrow> string" where
  "turnWorkflowID participantID messageID = participantID @ '':m'' @ dec_int messageID"

definition SessionOf :: "string \<Rightarrow> string option" where
  "SessionOf workflowID =
     (case index_byte (CHR '':'') workflowID of None \<Rightarrow> None
      | Some i \<Rightarrow> if i = 0 then None else Some (take i workflowID))"

text \<open>Where \<open>SessionOf\<close> is false, the session is \<open>""\<close> and \<open>ParticipantOf\<close> is false.\<close>

definition ParticipantOf :: "string \<Rightarrow> string option" where
  "ParticipantOf workflowID =
     (case SessionOf workflowID of None \<Rightarrow> None
      | Some session \<Rightarrow>
          (case cut_prefix '':p:'' (drop (length session) workflowID) of None \<Rightarrow> None
           | Some rest \<Rightarrow>
               (let agent = fst (cut_byte (CHR '':'') rest)
                in if agent \<noteq> [] then Some agent else None)))"

definition callKey :: "string \<Rightarrow> nat \<Rightarrow> nat \<Rightarrow> string" where
  "callKey callID iteration index =
     (if callID = [] then dec_nat iteration @ ''-'' @ dec_nat index else callID)"

definition childWorkflowID :: "string \<Rightarrow> string \<Rightarrow> string \<Rightarrow> nat \<Rightarrow> nat \<Rightarrow> string" where
  "childWorkflowID parentID toolName callID iteration index =
     parentID @ '':tool:'' @ toolName @ '':'' @ callKey callID iteration index"

definition BackgroundTaskID :: "string \<Rightarrow> string \<Rightarrow> string" where
  "BackgroundTaskID turnID callID = turnID @ '':bg:'' @ callID"

definition TaskOfWorkflow :: "string \<Rightarrow> string option" where
  "TaskOfWorkflow workflowID =
     (case index_str '':bg:'' workflowID of None \<Rightarrow> None
      | Some i \<Rightarrow>
          if i = 0 then None
          else let call = fst (cut_byte (CHR '':'') (drop (i + 4) workflowID)) in
            if call = [] then None else Some (take (i + 4 + length call) workflowID))"

subsection \<open>Laws of the turn keys\<close>

text \<open>A participant as the code names it: not empty, no dot and no colon.\<close>

definition participant_ok :: "string \<Rightarrow> bool" where
  "participant_ok p = (p \<noteq> [] \<and> CHR ''.'' \<notin> set p \<and> CHR '':'' \<notin> set p)"

lemma digits_dec_nat [simp]: "digits (dec_nat n)"
  using dec_nat_digits [of n] by (simp add: digits_def list_all_iff)

lemma digits_dec_int: "0 \<le> i \<Longrightarrow> digits (dec_int i)"
  by (simp add: dec_int_nonneg)

lemma parse_int64_dec_int: "0 \<le> i \<Longrightarrow> i < 2 ^ 63 \<Longrightarrow> parse_int64 (dec_int i) = Some i"
  by (simp add: parse_int64_def dec_int_nonneg nat_less_iff)

lemma participant_ok_list_ex:
  "participant_ok p \<Longrightarrow> \<not> list_ex (\<lambda>c. c = CHR ''.'' \<or> c = CHR '':'') p"
  by (auto simp: participant_ok_def list_ex_iff)

lemma parseTurn_TurnKey:
  assumes "0 \<le> mid" and "mid < 2 ^ 63" and "participant_ok p"
  shows "parseTurn (TurnKey mid p) = Some (mid, p)"
proof -
  have "cut_byte (CHR ''.'') (dec_int mid @ CHR ''.'' # p) = (dec_int mid, p, True)"
    by simp
  with assms show ?thesis
    by (simp add: parseTurn_def TurnKey_def digits_dec_int parse_int64_dec_int participant_ok_list_ex)
      (simp add: participant_ok_def)
qed

lemma parseTurn_Some:
  assumes "parseTurn t = Some (a, p)"
  shows "\<exists>ds. t = CHR ''m'' # ds @ CHR ''.'' # p \<and> digits ds \<and> 0 \<le> a \<and> a < 2 ^ 63 \<and> participant_ok p"
proof -
  from assms obtain rest ds dot where rest: "cut_prefix ''m'' t = Some rest"
    and cut: "cut_byte (CHR ''.'') rest = (ds, p, dot)" and dot: "dot" and ds: "digits ds"
    and a: "parse_int64 ds = Some a" and p: "p \<noteq> []" "\<not> list_ex (\<lambda>c. c = CHR ''.'' \<or> c = CHR '':'') p"
    by (auto simp: parseTurn_def split: option.splits prod.splits if_splits)
  from rest have "t = CHR ''m'' # rest" by (simp add: cut_prefix_Some_iff)
  moreover from cut dot have "rest = ds @ CHR ''.'' # p" using cut_byte_found by simp
  moreover from p have "participant_ok p" by (auto simp: participant_ok_def list_ex_iff)
  moreover from a have "0 \<le> a \<and> a < 2 ^ 63"
    by (auto simp: parse_int64_def zless_nat_conj split: if_splits)
  ultimately show ?thesis using ds by blast
qed

lemma digits_no_colon: "digits ds \<Longrightarrow> CHR '':'' \<notin> set ds"
  by (auto simp: digits_def list_all_iff is_digit_def)

lemma parseTurn_no_colon: "parseTurn t = Some x \<Longrightarrow> CHR '':'' \<notin> set t"
  by (cases x) (auto dest!: parseTurn_Some simp: participant_ok_def digits_no_colon)

lemma parseTurn_not_Nil: "parseTurn t = Some x \<Longrightarrow> t \<noteq> []"
  by (cases x) (auto dest!: parseTurn_Some)

lemma TurnOf_suffix:
  assumes "parseTurn t = Some x" and "suf = ''end'' \<or> digits suf"
  shows "TurnOf (t @ CHR '':'' # suf) = Some t"
proof -
  have "CHR '':'' \<notin> set suf" using assms(2) by (auto dest: digits_no_colon)
  moreover have "t \<noteq> []" using assms(1) by (rule parseTurn_not_Nil)
  ultimately show ?thesis using assms by (auto simp: TurnOf_def Let_def)
qed

lemma TurnOf_TurnEndKey: "parseTurn t = Some x \<Longrightarrow> TurnOf (TurnEndKey t) = Some t"
  using TurnOf_suffix by (simp add: TurnEndKey_def)

lemma TurnOf_TurnMessageKey:
  "parseTurn t = Some x \<Longrightarrow> 0 \<le> i \<Longrightarrow> TurnOf (TurnMessageKey t i) = Some t"
  using TurnOf_suffix digits_dec_int by (simp add: TurnMessageKey_def)

lemma TurnOf_Some:
  assumes "TurnOf k = Some t"
  shows "\<exists>suf x. k = t @ CHR '':'' # suf \<and> (suf = ''end'' \<or> digits suf) \<and> parseTurn t = Some x"
proof -
  from assms obtain i where i: "last_index_byte (CHR '':'') k = Some i" and t: "t = take i k"
    and suf: "drop (Suc i) k = ''end'' \<or> digits (drop (Suc i) k)" and p: "parseTurn t \<noteq> None"
    by (auto simp: TurnOf_def Let_def split: option.splits if_splits)
  from last_index_byte_Some [OF i] obtain a b where "k = a @ CHR '':'' # b" "i = length a" by blast
  with t suf p show ?thesis by auto
qed

lemma digits_not_end: "\<not> digits ''end''"
  by (simp add: digits_def is_digit_def)

lemma IsTurnEnd_TurnEndKey: "parseTurn t = Some x \<Longrightarrow> IsTurnEnd (TurnEndKey t)"
  by (simp add: IsTurnEnd_def TurnOf_TurnEndKey)

lemma not_IsTurnEnd_TurnMessageKey:
  assumes "parseTurn t = Some x" and "0 \<le> i"
  shows "\<not> IsTurnEnd (TurnMessageKey t i)"
proof -
  from assms have "TurnOf (TurnMessageKey t i) = Some t" by (rule TurnOf_TurnMessageKey)
  moreover have "TurnMessageKey t i \<noteq> TurnEndKey t"
    using digits_dec_int [OF assms(2)] digits_not_end by (auto simp: TurnMessageKey_def TurnEndKey_def)
  ultimately show ?thesis by (simp add: IsTurnEnd_def)
qed

lemma TurnOf_needs_digit:
  assumes "TurnOf k = Some t"
  shows "\<exists>d r. k = CHR ''m'' # d # r \<and> is_digit d"
proof -
  from TurnOf_Some [OF assms] obtain suf a p where k: "k = t @ CHR '':'' # suf"
    and t: "parseTurn t = Some (a, p)" by (metis surj_pair)
  from parseTurn_Some [OF t] obtain ds where "t = CHR ''m'' # ds @ CHR ''.'' # p" "digits ds" by blast
  with k show ?thesis by (cases ds) (auto simp: digits_def)
qed

lemmas foreign_key_defs =
  HumanMessageKey_def ScheduledMessageKey_def ForkReportKey_def TaskResultKey_def ForkSummaryKey_def

lemma TurnOf_foreign [simp]:
  "TurnOf (HumanMessageKey ident) = None"
  "TurnOf (ScheduledMessageKey sid ms) = None"
  "TurnOf (ForkReportKey fid a b) = None"
  "TurnOf (TaskResultKey tid) = None"
  "TurnOf ForkSummaryKey = None"
proof -
  have *: "TurnOf k = None" if "\<And>d r. k = CHR ''m'' # d # r \<Longrightarrow> \<not> is_digit d" for k
    using that TurnOf_needs_digit by (cases "TurnOf k") blast+
  show "TurnOf (HumanMessageKey ident) = None" "TurnOf (ScheduledMessageKey sid ms) = None"
    "TurnOf (ForkReportKey fid a b) = None" "TurnOf (TaskResultKey tid) = None"
    "TurnOf ForkSummaryKey = None"
    by (rule *, simp add: foreign_key_defs)+
qed

subsection \<open>Laws of the workflow IDs\<close>

lemma SessionOf_append:
  "CHR '':'' \<notin> set s \<Longrightarrow> s \<noteq> [] \<Longrightarrow> SessionOf (s @ CHR '':'' # r) = Some s"
  by (simp add: SessionOf_def)

lemma ParticipantOf_append:
  assumes "CHR '':'' \<notin> set s" "s \<noteq> []" "CHR '':'' \<notin> set a" "a \<noteq> []" and "r = [] \<or> hd r = CHR '':''"
  shows "ParticipantOf (s @ '':p:'' @ a @ r) = Some a"
proof -
  have cut: "fst (cut_byte (CHR '':'') (a @ r)) = a"
    using assms(3,5) by (cases r) auto
  have "SessionOf (s @ '':p:'' @ a @ r) = Some s"
    using assms SessionOf_append [of s "''p:'' @ a @ r"] by simp
  then show ?thesis using assms(4) cut by (simp add: ParticipantOf_def Let_def)
qed

text \<open>
  Where \<open>strings.Index(id, ":bg:")\<close> looks: a colon that does not start the mark is passed over.
\<close>

lemma index_str_hit: "has_prefix p s \<Longrightarrow> index_str p s = Some 0"
  by (subst index_str.simps) simp

lemma index_bg_at:
  "CHR '':'' \<notin> set x \<Longrightarrow>
   index_str '':bg:'' (x @ CHR '':'' # y) =
     map_option (\<lambda>i. i + length x) (index_str '':bg:'' (CHR '':'' # y))"
proof (induction x)
  case Nil
  then show ?case by (simp add: option.map_ident)
next
  case (Cons c x)
  then have "\<not> has_prefix '':bg:'' ((c # x) @ CHR '':'' # y)" by (auto simp: has_prefix_iff)
  then have "index_str '':bg:'' ((c # x) @ CHR '':'' # y)
    = map_option Suc (index_str '':bg:'' (x @ CHR '':'' # y))"
    by (subst index_str.simps) simp
  also have "\<dots> = map_option (\<lambda>i. i + length (c # x)) (index_str '':bg:'' (CHR '':'' # y))"
    using Cons by (simp add: option.map_comp comp_def)
  finally show ?case .
qed

lemma index_bg_skip:
  assumes "CHR '':'' \<notin> set x" and "\<not> has_prefix '':bg:'' (CHR '':'' # y)"
  shows "index_str '':bg:'' (x @ CHR '':'' # y)
    = map_option (\<lambda>i. i + length x + 1) (index_str '':bg:'' y)"
proof -
  have "index_str '':bg:'' (CHR '':'' # y) = map_option Suc (index_str '':bg:'' y)"
    using assms(2) by (subst index_str.simps) simp
  with index_bg_at [OF assms(1), of y] show ?thesis by (simp add: option.map_comp comp_def)
qed

lemma index_bg_none: "CHR '':'' \<notin> set x \<Longrightarrow> index_str '':bg:'' x = None"
proof (induction x)
  case (Cons c x)
  then show ?case by (subst index_str.simps) (auto simp: has_prefix_iff)
qed (simp add: index_str.simps has_prefix_iff)

lemma has_prefix_bg_colon:
  "CHR '':'' \<notin> set a \<Longrightarrow> has_prefix '':bg:'' (CHR '':'' # a @ CHR '':'' # y) \<longleftrightarrow> a = ''bg''"
  by (auto simp: has_prefix_iff append_eq_Cons_conv)

text \<open>The ID of a turn of the participant \<open>a\<close> in the session \<open>s\<close>, on the message \<open>mid\<close>.\<close>

abbreviation turn_id :: "string \<Rightarrow> string \<Rightarrow> int \<Rightarrow> string" where
  "turn_id s a mid \<equiv> turnWorkflowID (ParticipantWorkflowID s a) mid"

lemma index_bg_turn:
  assumes "CHR '':'' \<notin> set s" "CHR '':'' \<notin> set a" "a \<noteq> ''bg''"
  shows "index_str '':bg:'' (turn_id s a mid @ r)
    = map_option (\<lambda>i. i + length s + length a + 4) (index_str '':bg:'' (CHR ''m'' # dec_int mid @ r))"
proof -
  let ?t3 = "CHR ''m'' # dec_int mid @ r"
  let ?t2 = "a @ CHR '':'' # ?t3"
  let ?t1 = "''p'' @ CHR '':'' # ?t2"
  have "index_str '':bg:'' (turn_id s a mid @ r) = index_str '':bg:'' (s @ CHR '':'' # ?t1)"
    by (simp add: turnWorkflowID_def ParticipantWorkflowID_def)
  also have "\<dots> = map_option (\<lambda>i. i + length s + 1) (index_str '':bg:'' ?t1)"
    using assms by (intro index_bg_skip) (auto simp: has_prefix_iff)
  also have "index_str '':bg:'' ?t1 = map_option (\<lambda>i. i + length ''p'' + 1) (index_str '':bg:'' ?t2)"
    using assms by (intro index_bg_skip) (auto simp: has_prefix_bg_colon)
  also have "index_str '':bg:'' ?t2 = map_option (\<lambda>i. i + length a + 1) (index_str '':bg:'' ?t3)"
    using assms by (intro index_bg_skip) (auto simp: has_prefix_iff)
  finally show ?thesis by (simp add: option.map_comp comp_def eval_nat_numeral add.commute add.left_commute)
qed

lemma length_turn_id:
  "length (turn_id s a mid) = length s + length a + length (dec_int mid) + 5"
  by (simp add: turnWorkflowID_def ParticipantWorkflowID_def)

lemma index_bg_task:
  assumes "CHR '':'' \<notin> set s" "CHR '':'' \<notin> set a" "a \<noteq> ''bg''"
  shows "index_str '':bg:'' (turn_id s a mid @ '':bg:'' @ r) = Some (length (turn_id s a mid))"
proof -
  let ?x = "CHR ''m'' # dec_int mid"
  have "index_str '':bg:'' (?x @ CHR '':'' # ''bg:'' @ r)
    = map_option (\<lambda>i. i + length ?x) (index_str '':bg:'' (CHR '':'' # ''bg:'' @ r))"
    by (rule index_bg_at) simp
  moreover have "index_str '':bg:'' (CHR '':'' # ''bg:'' @ r) = Some 0"
    by (rule index_str_hit) (simp add: has_prefix_iff)
  ultimately show ?thesis using index_bg_turn [OF assms, of mid "'':bg:'' @ r"]
    by (simp add: length_turn_id)
qed

lemma fst_cut_colon: "CHR '':'' \<notin> set a \<Longrightarrow> r = [] \<or> hd r = CHR '':'' \<Longrightarrow> fst (cut_byte (CHR '':'') (a @ r)) = a"
  by (cases r) auto

lemma TaskOfWorkflow_task:
  assumes "CHR '':'' \<notin> set s" "CHR '':'' \<notin> set a" "a \<noteq> ''bg''" "CHR '':'' \<notin> set call" "call \<noteq> []"
    and "r = [] \<or> hd r = CHR '':''"
  shows "TaskOfWorkflow (BackgroundTaskID (turn_id s a mid) call @ r)
    = Some (BackgroundTaskID (turn_id s a mid) call)"
proof -
  let ?t = "turn_id s a mid"
  let ?w = "?t @ '':bg:'' @ call @ r"
  have idx: "index_str '':bg:'' ?w = Some (length ?t)" using assms by (intro index_bg_task)
  have "fst (cut_byte (CHR '':'') (drop (length ?t + 4) ?w)) = call"
    using assms(4,6) by (simp add: fst_cut_colon)
  moreover have "length ?t \<noteq> 0" by (simp add: length_turn_id)
  moreover have "take (length ?t + 4 + length call) ?w = ?t @ '':bg:'' @ call" by (simp add: eval_nat_numeral)
  ultimately have "TaskOfWorkflow ?w = Some (?t @ '':bg:'' @ call)"
    using idx assms(5) by (simp add: TaskOfWorkflow_def Let_def)
  then show ?thesis by (simp add: BackgroundTaskID_def)
qed

lemma TaskOfWorkflow_none: "index_str '':bg:'' w = None \<Longrightarrow> TaskOfWorkflow w = None"
  by (simp add: TaskOfWorkflow_def)

lemma TaskOfWorkflow_turn:
  assumes "CHR '':'' \<notin> set s" "CHR '':'' \<notin> set a" "a \<noteq> ''bg''"
  shows "TaskOfWorkflow (turn_id s a mid) = None"
  using index_bg_turn [OF assms, of mid "[]"] index_bg_none [of "CHR ''m'' # dec_int mid"]
  by (intro TaskOfWorkflow_none) simp

lemma TaskOfWorkflow_tool:
  assumes "CHR '':'' \<notin> set s" "CHR '':'' \<notin> set a" "a \<noteq> ''bg''"
    and "CHR '':'' \<notin> set tool" "tool \<noteq> ''bg''" "CHR '':'' \<notin> set (callKey call i j)"
  shows "TaskOfWorkflow (childWorkflowID (turn_id s a mid) tool call i j) = None"
proof -
  let ?k = "callKey call i j"
  let ?r = "'':tool:'' @ tool @ '':'' @ ?k"
  have 1: "index_str '':bg:'' (''tool'' @ CHR '':'' # tool @ CHR '':'' # ?k)
    = map_option (\<lambda>i. i + length ''tool'' + 1) (index_str '':bg:'' (tool @ CHR '':'' # ?k))"
    using assms by (intro index_bg_skip) (auto simp: has_prefix_bg_colon)
  have 2: "index_str '':bg:'' (tool @ CHR '':'' # ?k) = map_option (\<lambda>i. i + length tool + 1) (index_str '':bg:'' ?k)"
    using assms by (intro index_bg_skip) (auto simp: has_prefix_iff)
  have 3: "index_str '':bg:'' ((CHR ''m'' # dec_int mid) @ CHR '':'' # ''tool:'' @ tool @ '':'' @ ?k)
    = map_option (\<lambda>i. i + length (CHR ''m'' # dec_int mid) + 1) (index_str '':bg:'' (''tool:'' @ tool @ '':'' @ ?k))"
    using assms by (intro index_bg_skip) (auto simp: has_prefix_iff)
  have "index_str '':bg:'' (CHR ''m'' # dec_int mid @ ?r) = None"
    using 1 2 3 index_bg_none [OF assms(6)] by simp
  then show ?thesis using index_bg_turn [OF assms(1-3), of mid ?r]
    by (intro TaskOfWorkflow_none) (simp add: childWorkflowID_def)
qed

lemmas id_defs = ParticipantWorkflowID_def turnWorkflowID_def BackgroundTaskID_def childWorkflowID_def

lemma ParticipantOf_ids:
  assumes "CHR '':'' \<notin> set s" "s \<noteq> []" "CHR '':'' \<notin> set a" "a \<noteq> []"
  shows "ParticipantOf (ParticipantWorkflowID s a) = Some a"
    and "ParticipantOf (turn_id s a mid @ r) = Some a"
  using assms ParticipantOf_append [of s a "[]"] ParticipantOf_append [of s a "'':m'' @ dec_int mid @ r"]
  by (simp_all add: id_defs)

lemma SessionOf_ids:
  assumes "CHR '':'' \<notin> set s" "s \<noteq> []"
  shows "SessionOf (ParticipantWorkflowID s a) = Some s" and "SessionOf (turn_id s a mid @ r) = Some s"
  using assms SessionOf_append [of s "''p:'' @ a"] SessionOf_append [of s "''p:'' @ a @ '':m'' @ dec_int mid @ r"]
  by (simp_all add: id_defs)

subsection \<open>Properties\<close>

text \<open>C26: a turn key gives back the message it answers and its participant; the keys of the
  messages a turn wrote and of its end give back the turn, and only the end is read as an end.\<close>

theorem turn_key_roundtrip:
  assumes "0 \<le> mid" and "mid < 2 ^ 63" and "participant_ok p"
  shows "TurnAnchor (TurnKey mid p) = Some mid \<and> TurnParticipant (TurnKey mid p) = p
    \<and> TurnOf (TurnEndKey (TurnKey mid p)) = Some (TurnKey mid p)
    \<and> IsTurnEnd (TurnEndKey (TurnKey mid p))
    \<and> (\<forall>i\<ge>0. TurnOf (TurnMessageKey (TurnKey mid p) i) = Some (TurnKey mid p)
             \<and> \<not> IsTurnEnd (TurnMessageKey (TurnKey mid p) i))"
  using parseTurn_TurnKey [OF assms]
  by (auto simp: TurnAnchor_def TurnParticipant_def TurnOf_TurnEndKey IsTurnEnd_TurnEndKey
      TurnOf_TurnMessageKey dest: not_IsTurnEnd_TurnMessageKey)

theorem turn_key_roundtrip_witness:
  "TurnAnchor (TurnKey 12 ''jarvis'') = Some 12
    \<and> TurnOf (TurnMessageKey (TurnKey 12 ''jarvis'') 3) = Some (TurnKey 12 ''jarvis'')"
  using turn_key_roundtrip [of 12 "''jarvis''"] by (simp add: participant_ok_def)

text \<open>two messages of turns have the same key only when they are the same message of the same
  turn; an end's key is no message's key; and the key of a message no turn wrote (a person's, a
  scheduled task's, a fork's report or summary, a background task's end) is never a turn's.\<close>

theorem message_keys_separate:
  assumes "parseTurn t = Some x" and "parseTurn t' = Some x'" and "0 \<le> i" and "0 \<le> j"
  shows "(TurnMessageKey t i = TurnMessageKey t' j \<longleftrightarrow> t = t' \<and> i = j)
    \<and> (TurnEndKey t = TurnEndKey t' \<longleftrightarrow> t = t')
    \<and> TurnMessageKey t i \<noteq> TurnEndKey t'
    \<and> (\<forall>k \<in> {HumanMessageKey h, ScheduledMessageKey s ms, ForkReportKey f a b, TaskResultKey tk, ForkSummaryKey}.
          k \<noteq> TurnMessageKey t i \<and> k \<noteq> TurnEndKey t)"
proof -
  note of_msg = TurnOf_TurnMessageKey [OF assms(1,3)] TurnOf_TurnMessageKey [OF assms(2,4)]
  note of_end = TurnOf_TurnEndKey [OF assms(1)] TurnOf_TurnEndKey [OF assms(2)]
  have "TurnMessageKey t i = TurnMessageKey t' j \<longleftrightarrow> t = t' \<and> i = j"
    using of_msg by (auto simp: TurnMessageKey_def)
  moreover have "TurnEndKey t = TurnEndKey t' \<longleftrightarrow> t = t'" by (simp add: TurnEndKey_def)
  moreover have "TurnMessageKey t i \<noteq> TurnEndKey t'"
    using IsTurnEnd_TurnEndKey [OF assms(2)] not_IsTurnEnd_TurnMessageKey [OF assms(1,3)] by auto
  moreover have "k \<noteq> TurnMessageKey t i \<and> k \<noteq> TurnEndKey t" if "TurnOf k = None" for k
    using that of_msg of_end by auto
  ultimately show ?thesis by auto
qed

theorem message_keys_separate_witness:
  "TurnMessageKey ''m1.a'' 0 \<noteq> TurnEndKey ''m1.a'' \<and> HumanMessageKey ''x'' \<noteq> TurnEndKey ''m1.a''"
proof -
  have "parseTurn ''m1.a'' = Some (1, ''a'')"
    by (simp add: parseTurn_def cut_byte_def digits_def is_digit_def parse_int64_def digits_value_def digit_val_def)
  from message_keys_separate [OF this this, of 0 0 "''x''"] show ?thesis by simp
qed

text \<open>the session and the participant of everything a turn starts are read back from its
  workflow ID, and so is the background task of a task's own workflow and of its tool; a turn, and a
  tool it waits for, belong to no background task. The agent is any but \<open>bg\<close>.\<close>

theorem workflow_id_roundtrip:
  assumes "s \<noteq> []" "CHR '':'' \<notin> set s" "participant_ok a" "a \<noteq> ''bg''"
    and "CHR '':'' \<notin> set call" "call \<noteq> []" "CHR '':'' \<notin> set tool" "tool \<noteq> ''bg''"
  shows "let turn = turnWorkflowID (ParticipantWorkflowID s a) mid;
             task = BackgroundTaskID turn call
         in SessionOf (childWorkflowID task tool call i j) = Some s
          \<and> ParticipantOf (childWorkflowID task tool call i j) = Some a
          \<and> ParticipantOf (childWorkflowID turn tool call i j) = Some a
          \<and> TaskOfWorkflow task = Some task
          \<and> TaskOfWorkflow (childWorkflowID task tool call i j) = Some task
          \<and> TaskOfWorkflow turn = None
          \<and> TaskOfWorkflow (childWorkflowID turn tool call i j) = None"
proof -
  let ?turn = "turn_id s a mid"
  let ?task = "BackgroundTaskID ?turn call"
  from assms(3) have a: "CHR '':'' \<notin> set a" "a \<noteq> []" by (auto simp: participant_ok_def)
  have child: "childWorkflowID ?task tool call i j = ?turn @ '':bg:'' @ call @ '':tool:'' @ tool @ '':'' @ call"
    using assms(6) by (simp add: childWorkflowID_def BackgroundTaskID_def callKey_def)
  have "TaskOfWorkflow ?task = Some ?task"
    using TaskOfWorkflow_task [OF assms(2) a(1) assms(4,5,6), of "[]"] by simp
  moreover have "TaskOfWorkflow (childWorkflowID ?task tool call i j) = Some ?task"
    using TaskOfWorkflow_task [OF assms(2) a(1) assms(4,5,6), of "'':tool:'' @ tool @ '':'' @ call"] child
    by (simp add: BackgroundTaskID_def)
  moreover have "TaskOfWorkflow (childWorkflowID ?turn tool call i j) = None"
    using assms a by (intro TaskOfWorkflow_tool) (auto simp: callKey_def)
  moreover have "ParticipantOf (childWorkflowID ?turn tool call i j) = Some a"
    using ParticipantOf_ids(2) [OF assms(2,1) a] by (simp add: childWorkflowID_def)
  ultimately show ?thesis
    using TaskOfWorkflow_turn [OF assms(2) a(1) assms(4)] SessionOf_ids(2) [OF assms(2,1)]
      ParticipantOf_ids(2) [OF assms(2,1) a] child
    by (simp add: Let_def)
qed

theorem workflow_id_roundtrip_witness:
  "TaskOfWorkflow (BackgroundTaskID (turnWorkflowID (ParticipantWorkflowID ''s1'' ''jarvis'') 7) ''c1'')
     = Some (BackgroundTaskID (turnWorkflowID (ParticipantWorkflowID ''s1'' ''jarvis'') 7) ''c1'')"
  using workflow_id_roundtrip [of "''s1''" "''jarvis''" "''c1''" "''analyze_repo''" 7]
  by (simp add: participant_ok_def Let_def)

text \<open>the exception is real: the turns of an agent whose ID is \<open>bg\<close>, which the pattern of the
  agents' IDs allows, are read as background tasks, the turn itself as the task.\<close>

theorem agent_bg_turn_read_as_task:
  assumes "s \<noteq> []" "CHR '':'' \<notin> set s"
  shows "TaskOfWorkflow (turnWorkflowID (ParticipantWorkflowID s ''bg'') mid)
    = Some (turnWorkflowID (ParticipantWorkflowID s ''bg'') mid)"
proof -
  let ?m = "CHR ''m'' # dec_int mid"
  have w: "turn_id s ''bg'' mid = s @ CHR '':'' # ''p'' @ CHR '':'' # ''bg:'' @ ?m"
    by (simp add: id_defs)
  have "index_str '':bg:'' (turn_id s ''bg'' mid)
    = map_option (\<lambda>i. i + length s + 1) (index_str '':bg:'' (''p'' @ CHR '':'' # ''bg:'' @ ?m))"
    unfolding w using assms by (intro index_bg_skip) (auto simp: has_prefix_iff)
  also have "index_str '':bg:'' (''p'' @ CHR '':'' # ''bg:'' @ ?m)
    = map_option (\<lambda>i. i + length ''p'') (index_str '':bg:'' (CHR '':'' # ''bg:'' @ ?m))"
    by (rule index_bg_at) simp
  also have "index_str '':bg:'' (CHR '':'' # ''bg:'' @ ?m) = Some 0"
    by (rule index_str_hit) (simp add: has_prefix_iff)
  finally have "index_str '':bg:'' (turn_id s ''bg'' mid) = Some (length s + 2)" by simp
  moreover have "drop (length s + 2 + 4) (turn_id s ''bg'' mid) = ?m" by (simp add: w)
  moreover have "fst (cut_byte (CHR '':'') ?m) = ?m" by (subst cut_byte_none) auto
  ultimately show ?thesis by (simp add: TaskOfWorkflow_def Let_def w)
qed

theorem agent_bg_turn_read_as_task_witness:
  "TaskOfWorkflow (turnWorkflowID (ParticipantWorkflowID ''s1'' ''bg'') 7)
    = Some (turnWorkflowID (ParticipantWorkflowID ''s1'' ''bg'') 7)"
  by (rule agent_bg_turn_read_as_task) simp_all

end
