(* ===== verification/Messages.thy ===== *)
theory Messages
  imports Keys
begin

section \<open>Messages and their table\<close>

text \<open>
  \<open>store/message.go\<close> (the message and what a turn reads of a session) and the message operations of
  \<open>store/postgres.go\<close>. A row's \<open>data\<close> column is the message; the JSON text inside a message's content
  is modelled by what decoding it gives (\<open>json\<close> below). The table is the rows in the order of their
  IDs and the sequence that numbers them: PostgreSQL takes a number from the sequence for each row it
  tries to insert, a row refused by \<open>ON CONFLICT\<close> included. \<open>created_at\<close> is not modelled: no modelled
  code reads it.
\<close>

subsection \<open>Message\<close>

datatype role = RoleUser | RoleAssistant | RoleTool

datatype kind = KindNone | KindForkSummary | KindTurnEnd | KindForkReport | KindTaskResult

text \<open>
  A JSON text as \<open>json.Unmarshal\<close> reads it into a string: nothing at all, \<open>null\<close>, a string, or any
  other value (kept as its text).
\<close>

datatype json = JAbsent | JNull | JStr string | JOther string

text \<open>\<open>json.Unmarshal(content, &text)\<close>: \<open>None\<close> is its error; \<open>null\<close> leaves the string empty.\<close>

fun json_text :: "json \<Rightarrow> string option" where
  "json_text JAbsent = None"
| "json_text JNull = Some []"
| "json_text (JStr s) = Some s"
| "json_text (JOther _) = None"

definition json_marshal :: "string \<Rightarrow> json" where
  "json_marshal s = JStr (to_valid s)"

record tool_call =
  tc_id :: string
  tc_name :: string
  tc_input :: string

record tool_result =
  tr_call :: string
  tr_content :: string
  tr_error :: bool

record fork_ref =
  fr_session :: string
  fr_title :: string
  fr_upto :: int

record follow_up =
  fu_text :: string
  fu_user :: string
  fu_user_name :: string
  fu_at :: time

record task_file =
  tf_id :: string
  tf_name :: string
  tf_size :: int

datatype bg_state = BackgroundRunning | BackgroundDone | BackgroundFailed | BackgroundCancelled

record task_ref =
  ref_id :: string
  ref_tool :: string
  ref_summary :: string
  ref_turn :: string
  ref_call :: string
  ref_state :: bg_state
  ref_requested_by :: string
  ref_started :: "time option"
  ref_ended :: "time option"
  ref_cancelled_by :: string
  ref_follow_ups :: "follow_up list"
  ref_file :: "task_file option"

text \<open>How an agent is called in a conversation (\<open>conversation.AgentLabel\<close>).\<close>

definition AgentLabel :: "string \<Rightarrow> string \<Rightarrow> string" where
  "AgentLabel name mention =
     (if mention = [] then ''agent '' @ name else ''agent '' @ name @ '' (@'' @ mention @ '')'')"

record usage =
  us_input :: int
  us_output :: int
  us_cache_creation :: int
  us_cache_read :: int

record message =
  m_role :: role
  m_content :: json
  m_user :: string
  m_agent :: string
  m_author :: string
  m_kind :: kind
  m_calls :: "tool_call list"
  m_result :: "tool_result option"
  m_fork :: "fork_ref option"
  m_task :: "task_ref option"
  m_model :: string
  m_usage :: "usage option"
  m_machine_id :: string
  m_machine :: string

definition empty_message :: "role \<Rightarrow> message" where
  "empty_message r = \<lparr>m_role = r, m_content = JAbsent, m_user = [], m_agent = [], m_author = [],
     m_kind = KindNone, m_calls = [], m_result = None, m_fork = None, m_task = None, m_model = [],
     m_usage = None, m_machine_id = [], m_machine = []\<rparr>"

subsection \<open>A turn's end\<close>

definition maxTurnErrorBytes :: nat where
  "maxTurnErrorBytes = 2000"

definition TurnEnd :: "string \<Rightarrow> string \<Rightarrow> message" where
  "TurnEnd agentID reason =
     (let m = (empty_message RoleAssistant)\<lparr>m_kind := KindTurnEnd, m_agent := agentID\<rparr> in
      if reason \<noteq> [] then
        let r = (if maxTurnErrorBytes < length reason
                 then take (back_up reason maxTurnErrorBytes) reason @ ellipsis else reason)
        in m\<lparr>m_content := json_marshal r\<rparr>
      else m)"

definition TurnEndError :: "message \<Rightarrow> string" where
  "TurnEndError m =
     (if m_kind m \<noteq> KindTurnEnd then []
      else case json_text (m_content m) of None \<Rightarrow> [] | Some reason \<Rightarrow> reason)"

subsection \<open>The table\<close>

record msg_row =
  r_session :: string
  r_id :: int
  r_key :: string
  r_data :: message

record msg_table =
  rows :: "msg_row list"
  next_id :: int

definition find_row :: "msg_table \<Rightarrow> string \<times> string \<Rightarrow> msg_row option" where
  "find_row T k = find (\<lambda>r. r_session r = fst k \<and> r_key r = snd k) (rows T)"

text \<open>\<open>INSERT ... ON CONFLICT (session_id, msg_key) DO NOTHING\<close>.\<close>

definition insert_row :: "msg_table \<Rightarrow> string \<Rightarrow> string \<Rightarrow> message \<Rightarrow> msg_table" where
  "insert_row T sid key msg =
     (case find_row T (sid, key) of
        Some _ \<Rightarrow> T\<lparr>next_id := next_id T + 1\<rparr>
      | None \<Rightarrow> T\<lparr>rows := rows T @ [\<lparr>r_session = sid, r_id = next_id T, r_key = key, r_data = msg\<rparr>],
                  next_id := next_id T + 1\<rparr>)"

text \<open>
  The \<open>i\<close>-th message of \<open>messages\<close> goes under \<open>TurnMessageKey(turnKey, startIndex+i)\<close>, all in one
  transaction.
\<close>

fun AppendMessages :: "msg_table \<Rightarrow> string \<Rightarrow> string \<Rightarrow> int \<Rightarrow> message list \<Rightarrow> msg_table" where
  "AppendMessages T sid turnKey startIndex [] = T"
| "AppendMessages T sid turnKey startIndex (m # ms) =
     AppendMessages (insert_row T sid (TurnMessageKey turnKey startIndex) m) sid turnKey (startIndex + 1) ms"

text \<open>\<open>AppendMessage\<close> returns the ID of the new row, or of the one stored under the key already.\<close>

definition AppendMessage :: "msg_table \<Rightarrow> string \<Rightarrow> string \<Rightarrow> message \<Rightarrow> msg_table \<times> int" where
  "AppendMessage T sid key msg =
     (insert_row T sid key msg,
      case find_row T (sid, key) of Some r \<Rightarrow> r_id r | None \<Rightarrow> next_id T)"

definition AppendTurnEnd :: "msg_table \<Rightarrow> string \<Rightarrow> string \<Rightarrow> message \<Rightarrow> msg_table \<times> int" where
  "AppendTurnEnd T sid turnKey msg = AppendMessage T sid (TurnEndKey turnKey) msg"

definition HasTurnEnd :: "msg_table \<Rightarrow> string \<Rightarrow> string \<Rightarrow> bool" where
  "HasTurnEnd T sid turnKey = (find_row T (sid, TurnEndKey turnKey) \<noteq> None)"

definition DeleteMessage :: "msg_table \<Rightarrow> string \<Rightarrow> int \<Rightarrow> msg_table" where
  "DeleteMessage T sid mid = T\<lparr>rows := filter (\<lambda>r. \<not> (r_session r = sid \<and> r_id r = mid)) (rows T)\<rparr>"

definition DeleteMessagesBySession :: "msg_table \<Rightarrow> string \<Rightarrow> msg_table" where
  "DeleteMessagesBySession T sid = T\<lparr>rows := filter (\<lambda>r. r_session r \<noteq> sid) (rows T)\<rparr>"

text \<open>The rows are kept in the order of their IDs, so \<open>ORDER BY id\<close> reads them as they are.\<close>

definition LoadMessagesUpTo :: "msg_table \<Rightarrow> string \<Rightarrow> int \<Rightarrow> msg_row list" where
  "LoadMessagesUpTo T sid lastID =
     filter (\<lambda>r. r_session r = sid \<and> (lastID = 0 \<or> r_id r \<le> lastID)) (rows T)"

definition LoadMessages :: "msg_table \<Rightarrow> string \<Rightarrow> message list" where
  "LoadMessages T sid = map r_data (filter (\<lambda>r. r_session r = sid) (rows T))"

subsection \<open>What a turn reads\<close>

record turn_scope =
  sc_upto :: int
  sc_participant :: string
  sc_turns :: "string list"

definition ScopeOf :: "string \<Rightarrow> string list \<Rightarrow> turn_scope" where
  "ScopeOf turnKey earlier =
     \<lparr>sc_upto = (case parseTurn turnKey of Some (a, _) \<Rightarrow> a | None \<Rightarrow> 0),
      sc_participant = TurnParticipant turnKey,
      sc_turns = earlier @ [turnKey]\<rparr>"

definition TurnReads :: "int \<Rightarrow> string \<Rightarrow> turn_scope \<Rightarrow> (string \<rightharpoonup> int) \<Rightarrow> bool" where
  "TurnReads mid key scope ends =
     (case TurnOf key of
        None \<Rightarrow> mid \<le> sc_upto scope
      | Some turn \<Rightarrow>
          if IsTurnEnd key then False
          else if turn \<in> set (sc_turns scope) then True
          else (case parseTurn turn of None \<Rightarrow> False
                | Some (anchor, participant) \<Rightarrow>
                    if sc_upto scope < anchor then False
                    else if participant = sc_participant scope then True
                    else (case ends turn of None \<Rightarrow> False | Some e \<Rightarrow> e \<le> sc_upto scope)))"

text \<open>The ID of each turn's end, the last one seen when a turn has several.\<close>

fun TurnEndIDs :: "msg_row list \<Rightarrow> (string \<rightharpoonup> int)" where
  "TurnEndIDs [] = Map.empty"
| "TurnEndIDs (r # rs) =
     (if IsTurnEnd (r_key r)
      then (case TurnOf (r_key r) of
              Some turn \<Rightarrow> (\<lambda>t. case TurnEndIDs rs t of Some e \<Rightarrow> Some e | None \<Rightarrow> if t = turn then Some (r_id r) else None)
            | None \<Rightarrow> TurnEndIDs rs)
      else TurnEndIDs rs)"

definition LoadConversation :: "msg_table \<Rightarrow> string \<Rightarrow> turn_scope \<Rightarrow> msg_row list" where
  "LoadConversation T sid scope =
     (let all = filter (\<lambda>r. r_session r = sid) (rows T); ends = TurnEndIDs all
      in filter (\<lambda>r. TurnReads (r_id r) (r_key r) scope ends) all)"

subsection \<open>The table's invariant\<close>

text \<open>IDs grow, stay below the sequence, and a session holds one row per key.\<close>

definition table_ok :: "msg_table \<Rightarrow> bool" where
  "table_ok T \<longleftrightarrow>
     sorted_wrt (\<lambda>r r'. r_id r < r_id r') (rows T)
     \<and> (\<forall>r \<in> set (rows T). r_id r < next_id T)
     \<and> distinct (map (\<lambda>r. (r_session r, r_key r)) (rows T))"

definition empty_table :: msg_table where
  "empty_table = \<lparr>rows = [], next_id = 1\<rparr>"

lemma table_ok_empty: "table_ok empty_table"
  by (simp add: table_ok_def empty_table_def)

lemma find_row_None: "find_row T k = None \<longleftrightarrow> k \<notin> (\<lambda>r. (r_session r, r_key r)) ` set (rows T)"
  by (cases k) (auto simp: find_row_def find_None_iff)

lemma find_row_Some: "find_row T k = Some r \<Longrightarrow> r \<in> set (rows T) \<and> (r_session r, r_key r) = k"
  by (cases k) (auto simp: find_row_def find_Some_iff)

lemma find_row_unique:
  assumes "table_ok T" and "r \<in> set (rows T)" and "r_session r = sid" and "r_key r = key"
  shows "find_row T (sid, key) = Some r"
proof -
  from assms have "(sid, key) \<in> (\<lambda>r. (r_session r, r_key r)) ` set (rows T)" by force
  then obtain r' where r': "find_row T (sid, key) = Some r'" using find_row_None by blast
  from find_row_Some [OF this] have "r' \<in> set (rows T)" "r_session r' = sid" "r_key r' = key" by auto
  moreover from assms(1) have "inj_on (\<lambda>r. (r_session r, r_key r)) (set (rows T))"
    by (simp add: table_ok_def distinct_map)
  ultimately have "r' = r" using assms by (auto dest: inj_onD)
  with r' show ?thesis by simp
qed

lemma find_row_insert [table_simps]:
  "find_row (insert_row T sid key m) k =
     (if find_row T k = None \<and> k = (sid, key)
      then Some \<lparr>r_session = sid, r_id = next_id T, r_key = key, r_data = m\<rparr> else find_row T k)"
  by (auto simp: insert_row_def find_row_def find_append split: option.splits)

lemma insert_row_found:
  "\<exists>r. find_row (insert_row T sid key m) (sid, key) = Some r
     \<and> r_data r = (case find_row T (sid, key) of Some r \<Rightarrow> r_data r | None \<Rightarrow> m)
     \<and> r_id r = (case find_row T (sid, key) of Some r \<Rightarrow> r_id r | None \<Rightarrow> next_id T)"
  by (cases "find_row T (sid, key)") (auto simp: find_row_insert)

lemma HasTurnEnd_AppendTurnEnd:
  "HasTurnEnd (fst (AppendTurnEnd T sid k m)) sid k" "HasTurnEnd T sid k' \<Longrightarrow> HasTurnEnd (fst (AppendTurnEnd T sid k m)) sid k'"
  by (auto simp: HasTurnEnd_def AppendTurnEnd_def AppendMessage_def find_row_insert)

lemma insert_row_present [table_simps]:
  "find_row T (sid, key) = Some r \<Longrightarrow> rows (insert_row T sid key m) = rows T"
  by (simp add: insert_row_def)

lemma find_row_cong: "rows T = rows T' \<Longrightarrow> find_row T = find_row T'"
  by (simp add: find_row_def fun_eq_iff)

lemma table_ok_insert [intro]: "table_ok T \<Longrightarrow> table_ok (insert_row T sid key m)"
proof (cases "find_row T (sid, key)")
  case None
  assume "table_ok T"
  with None find_row_None [of T "(sid, key)"] show ?thesis
    by (auto simp: table_ok_def insert_row_def sorted_wrt_append)
qed (auto simp: table_ok_def insert_row_def)

lemma table_ok_AppendMessages [intro]: "table_ok T \<Longrightarrow> table_ok (AppendMessages T sid t i ms)"
  by (induction T sid t i ms rule: AppendMessages.induct) auto

lemma table_ok_filter: "table_ok T \<Longrightarrow> table_ok (T\<lparr>rows := filter P (rows T)\<rparr>)"
  by (auto simp: table_ok_def sorted_wrt_filter distinct_map_filter)

lemma find_row_AppendMessages_keep:
  "find_row T k = Some r \<Longrightarrow> find_row (AppendMessages T sid t i ms) k = Some r"
  by (induction T sid t i ms rule: AppendMessages.induct) (auto simp: table_simps)

lemma find_row_AppendMessages_other:
  "(\<And>n. n < length ms \<Longrightarrow> k \<noteq> (sid, TurnMessageKey t (i + int n))) \<Longrightarrow>
   find_row (AppendMessages T sid t i ms) k = find_row T k"
proof (induction T sid t i ms rule: AppendMessages.induct)
  case (2 T sid t i m ms)
  have "k \<noteq> (sid, TurnMessageKey t (i + 1 + int n))" if "n < length ms" for n
    using "2.prems" [of "Suc n"] that by (simp add: algebra_simps)
  with "2.IH" have "find_row (AppendMessages T sid t i (m # ms)) k
    = find_row (insert_row T sid (TurnMessageKey t i) m) k" by simp
  also have "\<dots> = find_row T k" using "2.prems" [of 0] by (simp add: table_simps)
  finally show ?case .
qed simp

lemma TurnMessageKey_inject [simp]: "TurnMessageKey t i = TurnMessageKey t j \<longleftrightarrow> i = j"
  by (simp add: TurnMessageKey_def)

lemma find_row_AppendMessages:
  "n < length ms \<Longrightarrow>
   map_option r_data (find_row (AppendMessages T sid t i ms) (sid, TurnMessageKey t (i + int n)))
     = Some (case find_row T (sid, TurnMessageKey t (i + int n)) of Some r \<Rightarrow> r_data r | None \<Rightarrow> ms ! n)"
proof (induction ms arbitrary: T i n)
  case (Cons m ms)
  let ?T' = "insert_row T sid (TurnMessageKey t i) m"
  show ?case
  proof (cases n)
    case 0
    obtain r where r: "find_row ?T' (sid, TurnMessageKey t i) = Some r"
      and d: "r_data r = (case find_row T (sid, TurnMessageKey t i) of Some r \<Rightarrow> r_data r | None \<Rightarrow> m)"
      using insert_row_found [of T sid "TurnMessageKey t i" m] by blast
    from find_row_AppendMessages_keep [OF r] d 0 show ?thesis by (simp cong: option.case_cong)
  next
    case (Suc n')
    with Cons.prems Cons.IH [of n' ?T' "i + 1"] show ?thesis
      by (simp add: table_simps algebra_simps split: option.splits)
  qed
qed simp

lemma AppendMessages_append:
  "AppendMessages T sid t i (a @ b) = AppendMessages (AppendMessages T sid t i a) sid t (i + int (length a)) b"
  by (induction T sid t i a rule: AppendMessages.induct) (simp_all add: algebra_simps)

lemma AppendMessages_present:
  "(\<And>n. n < length ms \<Longrightarrow> find_row T (sid, TurnMessageKey t (i + int n)) \<noteq> None) \<Longrightarrow>
   rows (AppendMessages T sid t i ms) = rows T"
proof (induction ms arbitrary: T i)
  case (Cons m ms)
  obtain r where r: "find_row T (sid, TurnMessageKey t i) = Some r" using Cons.prems [of 0] by auto
  let ?T' = "insert_row T sid (TurnMessageKey t i) m"
  have same: "rows ?T' = rows T" using r by (simp add: table_simps)
  have "rows (AppendMessages ?T' sid t (i + 1) ms) = rows ?T'"
  proof (rule Cons.IH)
    fix n assume "n < length ms"
    then show "find_row ?T' (sid, TurnMessageKey t (i + 1 + int n)) \<noteq> None"
      using Cons.prems [of "Suc n"] find_row_cong [OF same] by (simp add: algebra_simps)
  qed
  with same show ?case by simp
qed simp

subsection \<open>The table as a machine\<close>

datatype msg_write =
    WMessage string string message
  | WMessages string string int "message list"
  | WTurnEnd string string message

fun write_step :: "msg_table \<Rightarrow> msg_write \<Rightarrow> msg_table" where
  "write_step T (WMessage sid key m) = fst (AppendMessage T sid key m)"
| "write_step T (WMessages sid turnKey i ms) = AppendMessages T sid turnKey i ms"
| "write_step T (WTurnEnd sid turnKey m) = fst (AppendTurnEnd T sid turnKey m)"

lemma write_step_ok: "table_ok T \<Longrightarrow> table_ok (write_step T w)"
  by (cases w) (auto simp: AppendMessage_def AppendTurnEnd_def)

lemma write_step_keeps: "find_row T k = Some r \<Longrightarrow> find_row (write_step T w) k = Some r"
  by (cases w) (auto simp: AppendMessage_def AppendTurnEnd_def table_simps find_row_AppendMessages_keep)

interpretation msgs: first_writer write_step table_ok find_row
  by unfold_locales (auto intro: write_step_ok write_step_keeps)

datatype msg_op = Write msg_write | Delete string int | DeleteAll string

fun msg_step :: "msg_table \<Rightarrow> msg_op \<Rightarrow> msg_table" where
  "msg_step T (Write w) = write_step T w"
| "msg_step T (Delete sid mid) = DeleteMessage T sid mid"
| "msg_step T (DeleteAll sid) = DeleteMessagesBySession T sid"

interpretation msg_ops: machine msg_step table_ok
proof unfold_locales
  fix T op assume "table_ok T"
  then show "table_ok (msg_step T op)"
    by (cases op) (auto intro: write_step_ok table_ok_filter
        simp: DeleteMessage_def DeleteMessagesBySession_def)
qed

subsection \<open>What a turn reads: laws\<close>

lemma TurnReads_plain: "TurnOf key = None \<Longrightarrow> TurnReads mid key scope ends \<longleftrightarrow> mid \<le> sc_upto scope"
  by (simp add: TurnReads_def)

lemma TurnReads_end: "IsTurnEnd key \<Longrightarrow> \<not> TurnReads mid key scope ends"
  by (auto simp: TurnReads_def IsTurnEnd_def split: option.splits)

lemma TurnReads_turn:
  assumes "TurnOf key = Some t" and "\<not> IsTurnEnd key" and "parseTurn t = Some (anchor, p)"
  shows "TurnReads mid key scope ends \<longleftrightarrow>
     t \<in> set (sc_turns scope)
     \<or> (anchor \<le> sc_upto scope
        \<and> (p = sc_participant scope \<or> (\<exists>e. ends t = Some e \<and> e \<le> sc_upto scope)))"
  using assms by (auto simp: TurnReads_def split: option.splits)

lemma TurnReads_same_turn:
  assumes "TurnOf k = Some t" "TurnOf k' = Some t" "\<not> IsTurnEnd k" "\<not> IsTurnEnd k'"
  shows "TurnReads a k scope ends = TurnReads b k' scope ends"
  using assms by (simp add: TurnReads_def)

lemma TurnEndIDs_Some:
  "TurnEndIDs rs t = Some e \<Longrightarrow> \<exists>r \<in> set rs. r_key r = TurnEndKey t \<and> r_id r = e \<and> TurnOf (r_key r) = Some t"
  by (induction rs) (auto simp: IsTurnEnd_def split: if_splits option.splits)

lemma TurnEndIDs_None:
  "TurnEndIDs rs t = None \<Longrightarrow> r \<in> set rs \<Longrightarrow> TurnOf (r_key r) = Some t \<Longrightarrow> r_key r \<noteq> TurnEndKey t"
  by (induction rs) (auto simp: IsTurnEnd_def split: if_splits option.splits)

lemma set_LoadConversation:
  "r \<in> set (LoadConversation T sid scope) \<longleftrightarrow>
     r \<in> set (rows T) \<and> r_session r = sid
     \<and> TurnReads (r_id r) (r_key r) scope (TurnEndIDs (filter (\<lambda>r. r_session r = sid) (rows T)))"
  by (auto simp: LoadConversation_def Let_def)

subsection \<open>Properties\<close>

text \<open>a turn's messages written in pieces as it goes, then written again whole (the participant's
  rewrite), leave the table as one write of them would: each message once, and a second write of the
  whole turn changes no row.\<close>

theorem turn_rewrite_changes_nothing:
  "rows (AppendMessages (AppendMessages (AppendMessages T sid t 0 a) sid t (int (length a)) b) sid t 0 (a @ b))
     = rows (AppendMessages T sid t 0 (a @ b))"
proof -
  let ?W = "AppendMessages T sid t 0 (a @ b)"
  have W: "AppendMessages (AppendMessages T sid t 0 a) sid t (int (length a)) b = ?W"
    by (simp add: AppendMessages_append)
  have "rows (AppendMessages ?W sid t 0 (a @ b)) = rows ?W"
  proof (rule AppendMessages_present)
    fix n assume "n < length (a @ b)"
    then show "find_row ?W (sid, TurnMessageKey t (0 + int n)) \<noteq> None"
      using find_row_AppendMessages [of n "a @ b" T sid t 0] by auto
  qed
  with W show ?thesis by simp
qed

text \<open>a turn's write completes what an earlier write of it left out: every message is stored
  under its key, as first written where it was stored already, and no other row changes.\<close>

theorem append_messages_completes:
  assumes "n < length ms"
  shows "map_option r_data (find_row (AppendMessages T sid t i ms) (sid, TurnMessageKey t (i + int n)))
       = Some (case find_row T (sid, TurnMessageKey t (i + int n)) of Some r \<Rightarrow> r_data r | None \<Rightarrow> ms ! n)
     \<and> (\<forall>k r. find_row T k = Some r \<longrightarrow> find_row (AppendMessages T sid t i ms) k = Some r)"
  using find_row_AppendMessages [OF assms] find_row_AppendMessages_keep by blast

theorem append_messages_completes_witness:
  "map_option r_data (find_row (AppendMessages empty_table ''s'' ''m1.a'' 0 [empty_message RoleAssistant])
      (''s'', TurnMessageKey ''m1.a'' (0 + int 0))) = Some (empty_message RoleAssistant)"
  using append_messages_completes [of 0 "[empty_message RoleAssistant]" empty_table "''s''" "''m1.a''" 0]
  by (simp add: find_row_def empty_table_def)

text \<open>whatever is written and deleted, in any order, the IDs of the stored messages grow in the
  order they were stored, and a session holds one message per key.\<close>

theorem message_table_invariant:
  "table_ok (foldl msg_step empty_table ops)"
  by (rule msg_ops.run_inv) (rule table_ok_empty)



text \<open>the conversation a turn loads holds every other turn whole or not at all, no turn's end,
  and of the messages no turn wrote exactly those up to the one it answers.\<close>

theorem conversation_turns_whole:
  assumes "r \<in> set (rows T)" and "r' \<in> set (rows T)" and "r_session r = sid" and "r_session r' = sid"
    and "TurnOf (r_key r) = Some t" and "TurnOf (r_key r') = Some t"
    and "\<not> IsTurnEnd (r_key r)" and "\<not> IsTurnEnd (r_key r')"
  shows "(r \<in> set (LoadConversation T sid scope) \<longleftrightarrow> r' \<in> set (LoadConversation T sid scope))
    \<and> (\<forall>q \<in> set (LoadConversation T sid scope). \<not> IsTurnEnd (r_key q))
    \<and> (\<forall>q \<in> set (rows T). r_session q = sid \<and> TurnOf (r_key q) = None \<longrightarrow>
          (q \<in> set (LoadConversation T sid scope) \<longleftrightarrow> r_id q \<le> sc_upto scope))"
  using assms TurnReads_same_turn [OF assms(5,6,7,8)]
  by (auto simp: set_LoadConversation TurnReads_plain dest: TurnReads_end)

theorem conversation_turns_whole_witness:
  "let T = AppendMessages empty_table ''s'' ''m1.a'' 0 [empty_message RoleAssistant, empty_message RoleTool]
   in (rows T ! 0 \<in> set (LoadConversation T ''s'' (ScopeOf ''m9.b'' [])) \<longleftrightarrow>
       rows T ! 1 \<in> set (LoadConversation T ''s'' (ScopeOf ''m9.b'' [])))"
proof -
  define T where "T = AppendMessages empty_table ''s'' ''m1.a'' 0 [empty_message RoleAssistant, empty_message RoleTool]"
  have p: "parseTurn ''m1.a'' = Some (1, ''a'')"
    by (simp add: parseTurn_def cut_byte_def digits_def is_digit_def parse_int64_def digits_value_def digit_val_def)
  have ne: "TurnMessageKey ''m1.a'' 0 \<noteq> TurnMessageKey ''m1.a'' 1" by simp
  have rows: "rows T =
    [\<lparr>r_session = ''s'', r_id = 1, r_key = TurnMessageKey ''m1.a'' 0, r_data = empty_message RoleAssistant\<rparr>,
     \<lparr>r_session = ''s'', r_id = 2, r_key = TurnMessageKey ''m1.a'' 1, r_data = empty_message RoleTool\<rparr>]"
    using ne by (simp add: T_def insert_row_def find_row_def empty_table_def)
  show ?thesis
    unfolding Let_def T_def [symmetric]
    by (rule conversation_turns_whole [where t = "''m1.a''", THEN conjunct1])
      (simp_all add: rows TurnOf_TurnMessageKey [OF p] not_IsTurnEnd_TurnMessageKey [OF p])
qed

text \<open>another participant's turn is read only once it has ended: its end is stored in the
  session, its ID not above the message the reading turn answers; and its anchor is not above it.\<close>

theorem other_turn_read_only_ended:
  assumes "r \<in> set (LoadConversation T sid (ScopeOf own earlier))"
    and "TurnOf (r_key r) = Some t" and "t \<notin> set (own # earlier)"
    and "TurnParticipant t \<noteq> TurnParticipant own" and "TurnAnchor own = Some upTo"
  shows "(\<exists>e \<in> set (rows T). r_session e = sid \<and> r_key e = TurnEndKey t \<and> r_id e \<le> upTo)
    \<and> (\<exists>a. TurnAnchor t = Some a \<and> a \<le> upTo)"
proof -
  from assms(5) have upto: "sc_upto (ScopeOf own earlier) = upTo"
    by (auto simp: ScopeOf_def TurnAnchor_def)
  from TurnOf_Some [OF assms(2)] obtain a p where ap: "parseTurn t = Some (a, p)" by (metis surj_pair)
  with assms(4) have p: "p \<noteq> sc_participant (ScopeOf own earlier)" by (simp add: TurnParticipant_def ScopeOf_def)
  let ?ends = "TurnEndIDs (filter (\<lambda>r. r_session r = sid) (rows T))"
  from assms(1) have reads: "TurnReads (r_id r) (r_key r) (ScopeOf own earlier) ?ends"
    by (simp add: set_LoadConversation)
  then have "\<not> IsTurnEnd (r_key r)" using TurnReads_end by blast
  from TurnReads_turn [OF assms(2) this ap] reads assms(3) p obtain e where
    e: "?ends t = Some e" "e \<le> upTo" and a: "a \<le> upTo"
    by (auto simp: upto) (auto simp: ScopeOf_def)
  from TurnEndIDs_Some [OF e(1)] e(2) a ap show ?thesis by (auto simp: TurnAnchor_def)
qed

theorem other_turn_read_only_ended_witness:
  "let T = fst (AppendTurnEnd (AppendMessages empty_table ''s'' ''m1.a'' 0 [empty_message RoleAssistant])
             ''s'' ''m1.a'' (TurnEnd ''a'' []))
   in \<exists>e \<in> set (rows T). r_session e = ''s'' \<and> r_key e = TurnEndKey ''m1.a'' \<and> r_id e \<le> 9"
proof -
  define T where "T = fst (AppendTurnEnd (AppendMessages empty_table ''s'' ''m1.a'' 0 [empty_message RoleAssistant])
             ''s'' ''m1.a'' (TurnEnd ''a'' []))"
  note eval = parseTurn_def cut_byte_def digits_def is_digit_def parse_int64_def digits_value_def digit_val_def
  have p: "parseTurn ''m1.a'' = Some (1, ''a'')" "parseTurn ''m9.b'' = Some (9, ''b'')"
    by (simp_all add: eval)
  have ne: "TurnMessageKey ''m1.a'' 0 \<noteq> TurnEndKey ''m1.a''"
    using IsTurnEnd_TurnEndKey [OF p(1)] not_IsTurnEnd_TurnMessageKey [OF p(1), of 0] by auto
  let ?r = "\<lparr>r_session = ''s'', r_id = 1, r_key = TurnMessageKey ''m1.a'' 0, r_data = empty_message RoleAssistant\<rparr>"
  have rows: "rows T = [?r, \<lparr>r_session = ''s'', r_id = 2, r_key = TurnEndKey ''m1.a'', r_data = TurnEnd ''a'' []\<rparr>]"
    using ne by (simp add: T_def insert_row_def find_row_def empty_table_def AppendTurnEnd_def AppendMessage_def)
  note keys = TurnOf_TurnMessageKey [OF p(1), of 0] not_IsTurnEnd_TurnMessageKey [OF p(1), of 0]
    IsTurnEnd_TurnEndKey [OF p(1)] TurnOf_TurnEndKey [OF p(1)]
  have "?r \<in> set (LoadConversation T ''s'' (ScopeOf ''m9.b'' []))"
    by (simp add: set_LoadConversation rows keys TurnReads_def ScopeOf_def p TurnParticipant_def)
  from other_turn_read_only_ended [OF this, of "''m1.a''" 9] show ?thesis
    unfolding Let_def T_def [symmetric]
    by (simp add: keys p TurnParticipant_def TurnAnchor_def)
qed

end
