(* ===== verification/ConvOrder.thy ===== *)
theory ConvOrder
  imports Messages "HOL-Library.Multiset" "HOL-Library.Product_Lexorder"
begin

section \<open>The order of a conversation\<close>

text \<open>
  \<open>conversation/order.go\<close>: \<open>Order\<close> places each turn, as one block, right after the message it answers.
  The model follows the code: one pass collects the blocks (in the order their turns are first met)
  and the messages no turn wrote, both are sorted stably, and the blocks are merged between the
  messages. The lemmas show what the interface promises: nothing is lost or duplicated, a turn stays
  whole and in the order it was written, and it comes after the messages up to its anchor and before
  those above it.
\<close>

record block =
  b_turn :: string
  b_anchor :: int
  b_first :: int
  b_msgs :: "msg_row list"

definition new_block :: "string \<Rightarrow> msg_row \<Rightarrow> block" where
  "new_block turn m =
     \<lparr>b_turn = turn, b_anchor = (case TurnAnchor turn of Some a \<Rightarrow> a | None \<Rightarrow> 0),
      b_first = r_id m, b_msgs = [m]\<rparr>"

text \<open>The block of \<open>turn\<close>, made at its first message, gets \<open>m\<close>.\<close>

fun add_to_block :: "string \<Rightarrow> msg_row \<Rightarrow> block list \<Rightarrow> block list" where
  "add_to_block turn m [] = [new_block turn m]"
| "add_to_block turn m (b # bs) =
     (if b_turn b = turn
      then b\<lparr>b_first := min (b_first b) (r_id m), b_msgs := b_msgs b @ [m]\<rparr> # bs
      else b # add_to_block turn m bs)"

fun collect_step :: "block list \<times> msg_row list \<Rightarrow> msg_row \<Rightarrow> block list \<times> msg_row list" where
  "collect_step (bs, plain) m =
     (case TurnOf (r_key m) of
        None \<Rightarrow> (bs, plain @ [m])
      | Some turn \<Rightarrow> (add_to_block turn m bs, plain))"

definition collect_blocks :: "msg_row list \<Rightarrow> block list \<times> msg_row list" where
  "collect_blocks ms = foldl collect_step ([], []) ms"

definition sortedBlock :: "block \<Rightarrow> msg_row list" where
  "sortedBlock b = sort_key r_id (b_msgs b)"

text \<open>The last loop: the blocks anchored before \<open>p\<close> follow the message before it.\<close>

fun place :: "block list \<Rightarrow> msg_row list \<Rightarrow> msg_row list" where
  "place bs [] = concat (map sortedBlock bs)"
| "place bs (p # ps) =
     concat (map sortedBlock (takeWhile (\<lambda>b. b_anchor b < r_id p) bs))
       @ p # place (dropWhile (\<lambda>b. b_anchor b < r_id p) bs) ps"

definition Order :: "msg_row list \<Rightarrow> msg_row list" where
  "Order ms =
     (case collect_blocks ms of (bs, plain) \<Rightarrow>
        place (sort_key (\<lambda>b. (b_anchor b, b_first b)) bs) (sort_key r_id plain))"

subsection \<open>What the pass collects\<close>

abbreviation of_turn :: "string \<Rightarrow> msg_row \<Rightarrow> bool" where
  "of_turn t m \<equiv> TurnOf (r_key m) = Some t"

abbreviation is_plain :: "msg_row \<Rightarrow> bool" where
  "is_plain m \<equiv> TurnOf (r_key m) = None"

definition anchor_of :: "string \<Rightarrow> int" where
  "anchor_of t = (case TurnAnchor t of Some a \<Rightarrow> a | None \<Rightarrow> 0)"

definition msg_anchor :: "msg_row \<Rightarrow> int option" where
  "msg_anchor m = map_option anchor_of (TurnOf (r_key m))"

text \<open>What is known of the blocks once \<open>seen\<close> is read.\<close>

definition blocks_ok :: "msg_row list \<Rightarrow> block list \<Rightarrow> bool" where
  "blocks_ok seen bs \<longleftrightarrow>
     distinct (map b_turn bs)
     \<and> (\<forall>b \<in> set bs. b_msgs b = filter (of_turn (b_turn b)) seen \<and> filter (of_turn (b_turn b)) seen \<noteq> []
          \<and> b_anchor b = anchor_of (b_turn b)
          \<and> b_first b = Min (r_id ` set (filter (of_turn (b_turn b)) seen)))
     \<and> (\<forall>m \<in> set seen. \<forall>t. of_turn t m \<longrightarrow> t \<in> b_turn ` set bs)"

lemma b_turn_add: "b_turn ` set (add_to_block t m bs) = insert t (b_turn ` set bs)"
  by (induction bs) (auto simp: new_block_def)

lemma map_turn_add:
  "map b_turn (add_to_block t m bs) = (if t \<in> b_turn ` set bs then map b_turn bs else map b_turn bs @ [t])"
  by (induction bs) (auto simp: new_block_def)

lemma in_add_to_block:
  "b \<in> set (add_to_block t m bs) \<Longrightarrow> distinct (map b_turn bs) \<Longrightarrow>
     (b \<in> set bs \<and> b_turn b \<noteq> t)
     \<or> (\<exists>c \<in> set bs. b_turn c = t \<and> b = c\<lparr>b_first := min (b_first c) (r_id m), b_msgs := b_msgs c @ [m]\<rparr>)
     \<or> (t \<notin> b_turn ` set bs \<and> b = new_block t m)"
proof (induction bs)
  case (Cons c bs)
  then show ?case by (cases "b_turn c = t") (auto simp: image_iff)
qed simp

lemma blocks_ok_add:
  assumes "blocks_ok seen bs" and "of_turn t m"
  shows "blocks_ok (seen @ [m]) (add_to_block t m bs)"
proof -
  have old: "filter (of_turn t') (seen @ [m]) = filter (of_turn t') seen" if "t' \<noteq> t" for t'
    using assms(2) that by simp
  have new: "filter (of_turn t) seen = []" if "t \<notin> b_turn ` set bs"
    using assms(1) that by (auto simp: blocks_ok_def filter_empty_conv)
  have "b_msgs b = filter (of_turn (b_turn b)) (seen @ [m]) \<and> filter (of_turn (b_turn b)) (seen @ [m]) \<noteq> []
          \<and> b_anchor b = anchor_of (b_turn b)
          \<and> b_first b = Min (r_id ` set (filter (of_turn (b_turn b)) (seen @ [m])))"
    if "b \<in> set (add_to_block t m bs)" for b
  proof -
    from assms(1) have d: "distinct (map b_turn bs)" by (simp add: blocks_ok_def)
    from in_add_to_block [OF that d] consider
        (keep) "b \<in> set bs" "b_turn b \<noteq> t"
      | (grow) c where "c \<in> set bs" "b_turn c = t"
          "b = c\<lparr>b_first := min (b_first c) (r_id m), b_msgs := b_msgs c @ [m]\<rparr>"
      | (fresh) "t \<notin> b_turn ` set bs" "b = new_block t m" by blast
    then show ?thesis
    proof cases
      case keep
      with assms(1) old [OF keep(2)] show ?thesis unfolding blocks_ok_def by metis
    next
      case grow
      let ?f = "filter (of_turn t) seen"
      from grow(1,2) assms(1) have c: "b_msgs c = ?f" "?f \<noteq> []" "b_first c = Min (r_id ` set ?f)"
        "b_anchor c = anchor_of t"
        unfolding blocks_ok_def by blast+
      have "Min (insert (r_id m) (r_id ` set ?f)) = min (r_id m) (Min (r_id ` set ?f))"
        using c(2) by (intro Min_insert) (simp_all del: set_filter)
      with grow c assms(2) show ?thesis by (simp add: min.commute del: set_filter)
    next
      case fresh
      with new assms(2) show ?thesis by (simp add: new_block_def anchor_of_def)
    qed
  qed
  moreover have "distinct (map b_turn (add_to_block t m bs))"
    using assms(1) by (auto simp: blocks_ok_def map_turn_add)
  moreover have "\<forall>m' \<in> set (seen @ [m]). \<forall>t'. of_turn t' m' \<longrightarrow> t' \<in> b_turn ` set (add_to_block t m bs)"
    using assms by (auto simp: blocks_ok_def b_turn_add)
  ultimately show ?thesis by (simp add: blocks_ok_def)
qed

lemma collect_blocks_snoc: "collect_blocks (ms @ [m]) = collect_step (collect_blocks ms) m"
  by (simp add: collect_blocks_def)

lemma collect_blocks_ok:
  "blocks_ok ms (fst (collect_blocks ms)) \<and> snd (collect_blocks ms) = filter is_plain ms"
proof (induction ms rule: rev_induct)
  case Nil
  then show ?case by (simp add: collect_blocks_def blocks_ok_def)
next
  case (snoc m ms)
  obtain bs plain where c: "collect_blocks ms = (bs, plain)" by fastforce
  show ?case
  proof (cases "TurnOf (r_key m)")
    case None
    then have f: "filter (of_turn t) (ms @ [m]) = filter (of_turn t) ms" for t by simp
    have "blocks_ok (ms @ [m]) bs"
      using None snoc c unfolding blocks_ok_def f by auto
    with None snoc c show ?thesis by (simp add: collect_blocks_snoc)
  next
    case (Some t)
    with snoc c blocks_ok_add [of ms bs m t] show ?thesis by (simp add: collect_blocks_snoc)
  qed
qed

lemma mset_add_to_block:
  "mset (concat (map b_msgs (add_to_block t m bs))) = add_mset m (mset (concat (map b_msgs bs)))"
  by (induction bs) (auto simp: new_block_def)

lemma mset_collect_blocks:
  "mset (concat (map b_msgs (fst (collect_blocks ms)))) + mset (snd (collect_blocks ms)) = mset ms"
proof (induction ms rule: rev_induct)
  case Nil
  then show ?case by (simp add: collect_blocks_def)
next
  case (snoc m ms)
  obtain bs plain where "collect_blocks ms = (bs, plain)" by fastforce
  with snoc show ?case
    by (cases "TurnOf (r_key m)") (auto simp: collect_blocks_snoc mset_add_to_block)
qed

subsection \<open>What the merge gives\<close>

lemma mset_concat_map: "mset (concat (map f xs)) = (\<Sum>x\<in>#mset xs. mset (f x))"
  by (induction xs) auto

lemma mset_sorted_blocks: "mset (concat (map sortedBlock bs)) = mset (concat (map b_msgs bs))"
  by (induction bs) (auto simp: sortedBlock_def)

lemma mset_place: "mset (place bs ps) = mset (concat (map b_msgs bs)) + mset ps"
proof (induction bs ps rule: place.induct)
  case (2 bs p ps)
  have "mset (concat (map b_msgs bs)) =
      mset (concat (map b_msgs (takeWhile (\<lambda>b. b_anchor b < r_id p) bs)))
    + mset (concat (map b_msgs (dropWhile (\<lambda>b. b_anchor b < r_id p) bs)))"
    by (metis concat_append map_append mset_append takeWhile_dropWhile_id)
  with 2 show ?case by (simp add: mset_sorted_blocks)
qed (simp add: mset_sorted_blocks)

lemma mset_concat_sort: "mset (concat (map f (sort_key k xs))) = mset (concat (map f xs))"
  by (simp add: mset_concat_map)

lemma mset_Order [simp]: "mset (Order ms) = mset ms"
  using mset_collect_blocks [of ms]
  by (cases "collect_blocks ms") (simp add: Order_def mset_place mset_concat_sort)

lemma set_Order [simp]: "set (Order ms) = set ms"
  by (metis mset_Order set_mset_mset)

lemma place_split:
  "b \<in> set bs \<Longrightarrow> \<exists>pre post. place bs ps = pre @ sortedBlock b @ post"
proof (induction bs ps rule: place.induct)
  case (1 bs)
  then obtain xs ys where "bs = xs @ b # ys" by (meson split_list)
  then show ?case by auto
next
  case (2 bs p ps)
  let ?take = "takeWhile (\<lambda>b. b_anchor b < r_id p) bs" and ?drop = "dropWhile (\<lambda>b. b_anchor b < r_id p) bs"
  have "b \<in> set ?take \<or> b \<in> set ?drop"
    using "2.prems" by (metis Un_iff set_append takeWhile_dropWhile_id)
  then show ?case
  proof
    assume "b \<in> set ?take"
    then obtain xs ys where "?take = xs @ b # ys" by (meson split_list)
    then have "place bs (p # ps) = concat (map sortedBlock xs) @ sortedBlock b
      @ (concat (map sortedBlock ys) @ p # place ?drop ps)" by simp
    then show ?thesis by blast
  next
    assume "b \<in> set ?drop"
    from "2.IH" [OF this] obtain pre post where "place ?drop ps = pre @ sortedBlock b @ post" by blast
    then have "place bs (p # ps) = (concat (map sortedBlock ?take) @ p # pre) @ sortedBlock b @ post" by simp
    then show ?thesis by blast
  qed
qed

subsection \<open>Where a turn stands among the messages no turn wrote\<close>

definition placed_ok :: "msg_row \<Rightarrow> msg_row list \<Rightarrow> msg_row list \<Rightarrow> bool" where
  "placed_ok p xs ys \<longleftrightarrow>
     (\<forall>m \<in> set xs. \<forall>a. msg_anchor m = Some a \<longrightarrow> a < r_id p)
     \<and> (\<forall>m \<in> set ys. \<forall>a. msg_anchor m = Some a \<longrightarrow> r_id p \<le> a)"

definition block_msgs_ok :: "block \<Rightarrow> bool" where
  "block_msgs_ok b \<longleftrightarrow> (\<forall>m \<in> set (b_msgs b). msg_anchor m = Some (b_anchor b))"

lemma sortedBlock_anchor:
  "block_msgs_ok b \<Longrightarrow> m \<in> set (sortedBlock b) \<Longrightarrow> msg_anchor m = Some (b_anchor b)"
  by (simp add: block_msgs_ok_def sortedBlock_def)

lemma sorted_dropWhile_ge:
  assumes "sorted (map f xs)" and "x \<in> set (dropWhile (\<lambda>x. f x < k) xs)"
  shows "k \<le> (f x :: 'a :: linorder)"
  using assms by (induction xs) (auto split: if_splits)

lemma set_place: "set (place bs ps) = (\<Union>b \<in> set bs. set (b_msgs b)) \<union> set ps"
  by (metis mset_place set_mset_union set_mset_mset set_concat set_map image_image)

lemma sorted_map_dropWhile: "sorted (map f xs) \<Longrightarrow> sorted (map f (dropWhile P xs))"
  by (induction xs) auto

lemma split_after:
  assumes "xs @ p # ys = A @ q # R" and "p \<notin> set A"
  obtains "xs = A" and "p = q" and "ys = R"
    | xs' where "xs = A @ q # xs'" and "R = xs' @ p # ys"
proof -
  from assms(1) consider us where "xs = A @ us" "us @ p # ys = q # R" | us where "xs @ us = A" "p # ys = us @ q # R"
    by (auto simp: append_eq_append_conv2)
  then show thesis
  proof cases
    case 1
    then show thesis by (cases us) (auto intro: that)
  next
    case 2
    with assms(2) show thesis by (cases us) (auto intro: that)
  qed
qed

lemma place_placed:
  assumes "place bs ps = xs @ p # ys" and "msg_anchor p = None"
    and "sorted (map b_anchor bs)" and "sorted (map r_id ps)"
    and "\<forall>b \<in> set bs. block_msgs_ok b" and "\<forall>q \<in> set ps. msg_anchor q = None"
  shows "placed_ok p xs ys \<and> p \<in> set ps"
  using assms
proof (induction bs ps arbitrary: xs rule: place.induct)
  case (1 bs)
  then have "p \<in> set (concat (map sortedBlock bs))" by simp
  then obtain b where b: "b \<in> set bs" "p \<in> set (sortedBlock b)" by auto
  with "1.prems"(5) have "block_msgs_ok b" by blast
  from sortedBlock_anchor [OF this b(2)] "1.prems"(2) show ?case by simp
next
  case (2 bs q ps)
  let ?A = "concat (map sortedBlock (takeWhile (\<lambda>b. b_anchor b < r_id q) bs))"
  let ?drop = "dropWhile (\<lambda>b. b_anchor b < r_id q) bs"
  let ?R = "place ?drop ps"
  have A: "\<exists>a. msg_anchor m = Some a \<and> a < r_id q" if "m \<in> set ?A" for m
    using that "2.prems"(5) by (fastforce dest: set_takeWhileD sortedBlock_anchor)
  have q: "msg_anchor q = None" using "2.prems"(6) by simp
  have drop_ge: "r_id q \<le> b_anchor b" if "b \<in> set ?drop" for b
    using sorted_dropWhile_ge [OF "2.prems"(3) that] .
  have R: "r_id q \<le> a" if "m \<in> set ?R" "msg_anchor m = Some a" for m a
  proof -
    from that have "m \<in> (\<Union>b \<in> set ?drop. set (b_msgs b))"
      using "2.prems"(6) by (auto simp: set_place)
    then obtain b where b: "b \<in> set ?drop" "m \<in> set (b_msgs b)" by blast
    then have "block_msgs_ok b" using "2.prems"(5) by (meson set_dropWhileD)
    with b that(2) have "a = b_anchor b" by (auto simp: block_msgs_ok_def)
    with drop_ge [OF b(1)] show ?thesis by simp
  qed
  have eq: "xs @ p # ys = ?A @ q # ?R" using "2.prems"(1) by simp
  have "p \<notin> set ?A" using A "2.prems"(2) by fastforce
  with eq consider (here) "xs = ?A" "p = q" "ys = ?R" | (later) xs' where "xs = ?A @ q # xs'" "?R = xs' @ p # ys"
    by (elim split_after [where xs = xs]) blast+
  then show ?case
  proof cases
    case here
    with A R show ?thesis by (fastforce simp: placed_ok_def)
  next
    case later
    have IH: "placed_ok p xs' ys \<and> p \<in> set ps"
    proof (rule "2.IH")
      show "sorted (map b_anchor ?drop)" using "2.prems"(3) by (rule sorted_map_dropWhile)
      show "\<forall>b \<in> set ?drop. block_msgs_ok b" using "2.prems"(5) by (meson set_dropWhileD)
    qed (use later "2.prems" in simp_all)
    then have "r_id q \<le> r_id p" using "2.prems"(4) by auto
    with A q later IH show ?thesis by (fastforce simp: placed_ok_def)
  qed
qed

lemma block_msgs_ok_collected:
  assumes "blocks_ok ms bs" and "b \<in> set bs"
  shows "block_msgs_ok b"
  using assms by (auto simp: blocks_ok_def block_msgs_ok_def msg_anchor_def)

lemma sorted_fst: "sorted (map (\<lambda>x. (f x, g x)) xs) \<Longrightarrow> sorted (map f xs)"
  by (induction xs) (auto simp: less_eq_prod_def intro: less_imp_le)

lemma Order_placed:
  assumes "Order ms = xs @ p # ys" and "is_plain p"
  shows "placed_ok p xs ys"
proof -
  obtain bs plain where c: "collect_blocks ms = (bs, plain)" by fastforce
  have ok: "blocks_ok ms bs" "plain = filter is_plain ms" using collect_blocks_ok [of ms] c by auto
  let ?bs = "sort_key (\<lambda>b. (b_anchor b, b_first b)) bs"
  have "sorted (map b_anchor ?bs)" using sorted_fst [of b_anchor b_first ?bs] by simp
  then show ?thesis
    using assms c ok block_msgs_ok_collected [OF ok(1)]
    by (intro conjunct1 [OF place_placed [of ?bs "sort_key r_id plain"]])
      (auto simp: Order_def msg_anchor_def)
qed

lemma Order_block:
  assumes "m \<in> set ms" and "of_turn t m"
  shows "\<exists>pre post. Order ms = pre @ sort_key r_id (filter (of_turn t) ms) @ post"
proof -
  obtain bs plain where c: "collect_blocks ms = (bs, plain)" by fastforce
  have ok: "blocks_ok ms bs" using collect_blocks_ok [of ms] c by auto
  have "t \<in> b_turn ` set bs" using ok assms unfolding blocks_ok_def by blast
  then obtain b where b: "b \<in> set bs" "b_turn b = t" by blast
  with ok have "b_msgs b = filter (of_turn t) ms" unfolding blocks_ok_def by blast
  then have "sortedBlock b = sort_key r_id (filter (of_turn t) ms)" by (simp add: sortedBlock_def)
  with place_split [of b "sort_key (\<lambda>b. (b_anchor b, b_first b)) bs" "sort_key r_id plain"] b c
  show ?thesis by (simp add: Order_def)
qed

lemma filter_outside_block:
  assumes "mset (pre @ blk @ post) = mset ms" and "mset blk = mset (filter P ms)"
  shows "filter P pre = [] \<and> filter P post = []"
proof -
  have "mset (filter P pre) + mset (filter P blk) + mset (filter P post) = mset (filter P ms)"
    using assms(1) by (metis filter_append mset_append mset_filter append.assoc)
  moreover have "mset (filter P blk) = mset (filter P ms)"
    using assms(2) by (simp add: filter_filter_mset)
  ultimately show ?thesis by simp
qed

lemma filter_plain_place:
  assumes "\<forall>b \<in> set bs. block_msgs_ok b" and "\<forall>q \<in> set ps. msg_anchor q = None"
  shows "filter is_plain (place bs ps) = ps"
proof -
  have none: "filter is_plain (concat (map sortedBlock cs)) = []" if "\<forall>b \<in> set cs. block_msgs_ok b" for cs
    using that by (fastforce simp: filter_empty_conv msg_anchor_def dest: sortedBlock_anchor)
  show ?thesis
    using assms
  proof (induction bs ps rule: place.induct)
    case (2 bs p ps)
    have "\<forall>b \<in> set (takeWhile (\<lambda>b. b_anchor b < r_id p) bs). block_msgs_ok b"
      and "\<forall>b \<in> set (dropWhile (\<lambda>b. b_anchor b < r_id p) bs). block_msgs_ok b"
      using "2.prems"(1) by (meson set_takeWhileD set_dropWhileD)+
    with 2 none show ?case by (simp add: msg_anchor_def)
  qed (simp add: none)
qed

lemma Order_plain: "filter is_plain (Order ms) = sort_key r_id (filter is_plain ms)"
proof -
  obtain bs plain where c: "collect_blocks ms = (bs, plain)" by fastforce
  have ok: "blocks_ok ms bs" "plain = filter is_plain ms" using collect_blocks_ok [of ms] c by auto
  with c block_msgs_ok_collected [OF ok(1)] show ?thesis
    by (simp add: Order_def filter_plain_place msg_anchor_def)
qed

subsection \<open>The turn that comes last\<close>

lemma place_last:
  "\<forall>p \<in> set ps. r_id p \<le> b_anchor b \<Longrightarrow> \<exists>pre. place (bs @ [b]) ps = pre @ sortedBlock b"
proof (induction ps arbitrary: bs)
  case (Cons p ps)
  have "\<not> b_anchor b < r_id p" using Cons.prems by auto
  then have "dropWhile (\<lambda>b. b_anchor b < r_id p) (bs @ [b]) = dropWhile (\<lambda>b. b_anchor b < r_id p) bs @ [b]"
    by (induction bs) auto
  moreover obtain pre where "place (dropWhile (\<lambda>b. b_anchor b < r_id p) bs @ [b]) ps = pre @ sortedBlock b"
    using Cons by fastforce
  ultimately show ?case by auto
qed simp

lemma sort_key_last:
  fixes k :: "'a \<Rightarrow> 'b :: linorder"
  assumes "b \<in> set xs" and "distinct xs" and "\<And>c. c \<in> set xs \<Longrightarrow> c \<noteq> b \<Longrightarrow> k c < k b"
  shows "\<exists>ys. sort_key k xs = ys @ [b]"
proof -
  from assms(1) obtain us vs where s: "sort_key k xs = us @ b # vs"
    by (metis set_sort split_list)
  have "distinct (us @ b # vs)" using assms(2) by (metis s distinct_sort)
  have "v \<notin> set vs" for v
  proof
    assume v: "v \<in> set vs"
    have "sorted (map k (us @ b # vs))" by (metis s sorted_sort_key)
    then have "k b \<le> k v" using v by (simp add: sorted_append)
    moreover have "v \<in> set xs" "v \<noteq> b"
      using v \<open>distinct (us @ b # vs)\<close> by (auto simp flip: set_sort [of k xs] simp: s)
    ultimately show False using assms(3) by fastforce
  qed
  then have "vs = []" by (cases vs) auto
  with s show ?thesis by blast
qed

lemma Order_last:
  assumes "m \<in> set ms" and "of_turn t m"
    and plain: "\<And>p. p \<in> set ms \<Longrightarrow> is_plain p \<Longrightarrow> r_id p \<le> anchor_of t"
    and turns: "\<And>c u. c \<in> set ms \<Longrightarrow> of_turn u c \<Longrightarrow> u \<noteq> t \<Longrightarrow>
       anchor_of u < anchor_of t
       \<or> (anchor_of u = anchor_of t \<and> (\<forall>d \<in> set ms. of_turn t d \<longrightarrow> r_id c < r_id d))"
  shows "\<exists>pre. Order ms = pre @ sort_key r_id (filter (of_turn t) ms)"
proof -
  obtain bs ps where c: "collect_blocks ms = (bs, ps)" by fastforce
  have ok: "blocks_ok ms bs" "ps = filter is_plain ms" using collect_blocks_ok [of ms] c by auto
  have "t \<in> b_turn ` set bs" using ok(1) assms(1,2) unfolding blocks_ok_def by blast
  then obtain b where b: "b \<in> set bs" "b_turn b = t" by blast
  let ?k = "\<lambda>b. (b_anchor b, b_first b)"
  have facts: "b_msgs x = filter (of_turn (b_turn x)) ms" "filter (of_turn (b_turn x)) ms \<noteq> []"
    "b_anchor x = anchor_of (b_turn x)" "b_first x = Min (r_id ` set (filter (of_turn (b_turn x)) ms))"
    if "x \<in> set bs" for x
    using ok(1) that unfolding blocks_ok_def by blast+
  have first: "\<exists>y \<in> set ms. of_turn (b_turn x) y \<and> r_id y = b_first x" if "x \<in> set bs" for x
  proof -
    have "Min (r_id ` set (filter (of_turn (b_turn x)) ms)) \<in> r_id ` set (filter (of_turn (b_turn x)) ms)"
      using facts(2) [OF that] by (intro Min_in) (auto simp del: set_filter)
    with facts(4) [OF that] show ?thesis by auto
  qed
  have lt: "?k x < ?k b" if x: "x \<in> set bs" "x \<noteq> b" for x
  proof -
    have ne: "b_turn x \<noteq> t"
      using ok(1) x b by (auto simp: blocks_ok_def distinct_map inj_on_def)
    obtain y where y: "y \<in> set ms" "of_turn (b_turn x) y" "r_id y = b_first x" using first [OF x(1)] by blast
    obtain d where d: "d \<in> set ms" "of_turn t d" "r_id d = b_first b" using first [OF b(1)] b(2) by blast
    from turns [OF y(1,2) ne] d y(3) facts(3) [OF x(1)] facts(3) [OF b(1)] b(2)
    show ?thesis by (auto simp: less_prod_def)
  qed
  have "distinct bs" using ok(1) by (simp add: blocks_ok_def distinct_map)
  from sort_key_last [where k = ?k, OF b(1) this lt] obtain ys where ys: "sort_key ?k bs = ys @ [b]" by blast
  have "\<forall>p \<in> set (sort_key r_id ps). r_id p \<le> b_anchor b"
    using plain ok(2) facts(3) [OF b(1)] b(2) by auto
  from place_last [OF this, of ys] ys c facts(1) [OF b(1)] b(2) show ?thesis
    by (auto simp: Order_def sortedBlock_def)
qed

subsection \<open>Properties\<close>

text \<open>\<open>Order\<close> loses no message and adds none, and each turn of the conversation is one block of it:
  all its messages, in the order of their IDs, next to one another, and none elsewhere.\<close>

theorem order_keeps_turns_whole:
  "mset (Order ms) = mset ms
   \<and> (\<forall>m \<in> set ms. \<forall>t. TurnOf (r_key m) = Some t \<longrightarrow>
        (\<exists>pre post. Order ms = pre @ sort_key r_id (filter (\<lambda>m. TurnOf (r_key m) = Some t) ms) @ post
           \<and> (\<forall>q \<in> set pre \<union> set post. TurnOf (r_key q) \<noteq> Some t)))"
proof (intro conjI ballI allI impI)
  fix m t assume m: "m \<in> set ms" and t: "of_turn t m"
  from Order_block [OF m t] obtain pre post
    where o: "Order ms = pre @ sort_key r_id (filter (of_turn t) ms) @ post" by blast
  have "filter (of_turn t) pre = [] \<and> filter (of_turn t) post = []"
    by (rule filter_outside_block [of _ "sort_key r_id (filter (of_turn t) ms)" _ ms]) (simp_all flip: o)
  with o show "\<exists>pre post. Order ms = pre @ sort_key r_id (filter (of_turn t) ms) @ post
           \<and> (\<forall>q \<in> set pre \<union> set post. TurnOf (r_key q) \<noteq> Some t)"
    by (auto simp: filter_empty_conv)
qed simp

text \<open>Jarvis answers message 10 while Smith answers message 12.\<close>

definition parallel_rows :: "msg_row list" where
  "parallel_rows = map (\<lambda>(i, key). \<lparr>r_session = ''s'', r_id = i, r_key = key, r_data = empty_message RoleUser\<rparr>)
     [(10, ''msg:a''), (11, ''m10.jarvis:0''), (12, ''msg:b''), (13, ''m12.smith:0''), (14, ''m10.jarvis:1'')]"

lemmas turn_eval = TurnOf_def last_index_byte_def parseTurn_def cut_byte_def digits_def is_digit_def
  parse_int64_def digits_value_def digit_val_def

lemma parallel_keys:
  "TurnOf ''msg:a'' = None" "TurnOf ''msg:b'' = None" "TurnOf ''m10.jarvis:0'' = Some ''m10.jarvis''"
  "TurnOf ''m10.jarvis:1'' = Some ''m10.jarvis''" "TurnOf ''m12.smith:0'' = Some ''m12.smith''"
  "parseTurn ''m10.jarvis'' = Some (10, ''jarvis'')" "parseTurn ''m12.smith'' = Some (12, ''smith'')"
  by (simp_all add: turn_eval Let_def)

theorem order_keeps_turns_whole_witness:
  "\<exists>pre post. Order parallel_rows =
     pre @ sort_key r_id (filter (\<lambda>m. TurnOf (r_key m) = Some ''m10.jarvis'') parallel_rows) @ post
     \<and> (\<forall>q \<in> set pre \<union> set post. TurnOf (r_key q) \<noteq> Some ''m10.jarvis'')"
proof -
  have "parallel_rows ! 1 \<in> set parallel_rows" "TurnOf (r_key (parallel_rows ! 1)) = Some ''m10.jarvis''"
    by (simp_all add: parallel_rows_def parallel_keys)
  then show ?thesis using order_keeps_turns_whole [of parallel_rows] by blast
qed

text \<open>the messages no turn wrote keep the order of their IDs, and around each of them the turns
  stand by their anchor: a turn's message before it has an anchor below it, and one after it an anchor
  that is not (a turn follows the message it answers).\<close>

theorem order_places_turns_by_anchor:
  "filter (\<lambda>m. TurnOf (r_key m) = None) (Order ms) = sort_key r_id (filter (\<lambda>m. TurnOf (r_key m) = None) ms)
   \<and> (\<forall>xs p ys. Order ms = xs @ p # ys \<and> TurnOf (r_key p) = None \<longrightarrow>
        (\<forall>m \<in> set xs. \<forall>t a. TurnOf (r_key m) = Some t \<and> TurnAnchor t = Some a \<longrightarrow> a < r_id p)
        \<and> (\<forall>m \<in> set ys. \<forall>t a. TurnOf (r_key m) = Some t \<and> TurnAnchor t = Some a \<longrightarrow> r_id p \<le> a))"
proof (intro conjI allI impI)
  fix xs p ys assume a: "Order ms = xs @ p # ys \<and> is_plain p"
  then have p: "placed_ok p xs ys" using Order_placed by blast
  have anchor: "msg_anchor m = Some a" if "of_turn t m \<and> TurnAnchor t = Some a" for m t a
    using that by (simp add: msg_anchor_def anchor_of_def)
  show "\<forall>m \<in> set xs. \<forall>t a. of_turn t m \<and> TurnAnchor t = Some a \<longrightarrow> a < r_id p"
    and "\<forall>m \<in> set ys. \<forall>t a. of_turn t m \<and> TurnAnchor t = Some a \<longrightarrow> r_id p \<le> a"
    using p anchor unfolding placed_ok_def by blast+
qed (rule Order_plain)

lemma Order_parallel: "map r_id (Order parallel_rows) = [10, 11, 14, 12, 13]"
  by (simp add: Order_def parallel_rows_def collect_blocks_def parallel_keys new_block_def TurnAnchor_def
      sortedBlock_def sort_key_def)

theorem order_places_turns_by_anchor_witness:
  "\<exists>xs p ys. Order parallel_rows = xs @ p # ys \<and> r_id p = 12
     \<and> (\<forall>m \<in> set xs. \<forall>t a. TurnOf (r_key m) = Some t \<and> TurnAnchor t = Some a \<longrightarrow> a < 12)"
proof -
  let ?p = "parallel_rows ! 2"
  have p: "TurnOf (r_key ?p) = None" "r_id ?p = 12" "?p \<in> set (Order parallel_rows)"
    by (simp_all add: parallel_rows_def parallel_keys)
  from p(3) obtain xs ys where "Order parallel_rows = xs @ ?p # ys" by (meson split_list)
  with order_places_turns_by_anchor [of parallel_rows] p show ?thesis by metis
qed

lemma reading_turn_last:
  assumes own: "own = TurnKey upTo participant" and "0 \<le> upTo" and "upTo < 2 ^ 63"
    and "participant_ok participant"
    and canonical: "\<forall>r \<in> set (rows T). \<forall>t. r_session r = sid \<and> TurnOf (r_key r) = Some t \<longrightarrow>
        (\<exists>a p. parseTurn t = Some (a, p) \<and> t = TurnKey a p)"
    and ends: "\<forall>r \<in> set (rows T). \<forall>t a. r_session r = sid \<and> r_key r = TurnEndKey t \<and> TurnAnchor t = Some a
        \<longrightarrow> a < r_id r"
    and earlier: "\<forall>e \<in> set earlier. TurnAnchor e = Some upTo"
    and before: "\<forall>r \<in> set (rows T). \<forall>r' \<in> set (rows T). r_session r = sid \<and> r_session r' = sid
        \<and> (\<exists>e \<in> set earlier. TurnOf (r_key r) = Some e) \<and> TurnOf (r_key r') = Some own \<longrightarrow> r_id r < r_id r'"
    and m: "m \<in> set (LoadConversation T sid (ScopeOf own earlier))" "TurnOf (r_key m) = Some own"
  shows "\<exists>pre. Order (LoadConversation T sid (ScopeOf own earlier))
       = pre @ sort_key r_id (filter (\<lambda>r. TurnOf (r_key r) = Some own)
                                (LoadConversation T sid (ScopeOf own earlier)))"
proof (rule Order_last [OF m])
  let ?ms = "LoadConversation T sid (ScopeOf own earlier)"
  let ?ends = "TurnEndIDs (filter (\<lambda>r. r_session r = sid) (rows T))"
  have parse: "parseTurn own = Some (upTo, participant)"
    using assms(1-4) by (simp add: parseTurn_TurnKey)
  have scope: "sc_upto (ScopeOf own earlier) = upTo" "sc_participant (ScopeOf own earlier) = participant"
    "set (sc_turns (ScopeOf own earlier)) = insert own (set earlier)"
    by (auto simp: ScopeOf_def parse TurnParticipant_def)
  have anchor: "anchor_of own = upTo" by (simp add: anchor_of_def TurnAnchor_def parse)
  show "r_id p \<le> anchor_of own" if "p \<in> set ?ms" "is_plain p" for p
    using that by (simp add: set_LoadConversation TurnReads_plain scope anchor)
  show "anchor_of u < anchor_of own
       \<or> (anchor_of u = anchor_of own \<and> (\<forall>d \<in> set ?ms. of_turn own d \<longrightarrow> r_id c < r_id d))"
    if c: "c \<in> set ?ms" "of_turn u c" "u \<noteq> own" for c u
  proof (cases "u \<in> set earlier")
    case True
    with earlier have "anchor_of u = upTo" by (simp add: anchor_of_def)
    moreover have "r_id c < r_id d" if "d \<in> set ?ms" "of_turn own d" for d
      using True c before that unfolding set_LoadConversation by blast
    ultimately show ?thesis by (simp add: anchor)
  next
    case False
    from c(1) have row: "c \<in> set (rows T)" "r_session c = sid"
      and reads: "TurnReads (r_id c) (r_key c) (ScopeOf own earlier) ?ends"
      by (auto simp: set_LoadConversation)
    from canonical row c(2) obtain a p where ap: "parseTurn u = Some (a, p)" "u = TurnKey a p" by blast
    have "\<not> IsTurnEnd (r_key c)" using reads TurnReads_end by blast
    from TurnReads_turn [OF c(2) this ap(1)] reads False c(3) scope
    have le: "a \<le> upTo" and "p = participant \<or> (\<exists>e. ?ends u = Some e \<and> e \<le> upTo)" by auto
    then have "a \<noteq> upTo"
    proof (elim disjE exE conjE)
      assume "p = participant"
      with ap(2) own c(3) show ?thesis by auto
    next
      fix e assume e: "?ends u = Some e" "e \<le> upTo"
      from TurnEndIDs_Some [OF e(1)] ends ap(1) have "a < e" by (auto simp: TurnAnchor_def)
      with e(2) show ?thesis by simp
    qed
    with le ap(1) show ?thesis by (simp add: anchor_of_def TurnAnchor_def parse)
  qed
qed

text \<open>C25: the reading turn comes last: of a session whose turn ends are stored after the message their
  turn answers, and whose turn keys are written by \<open>TurnKey\<close>, the conversation of a turn, ordered, ends
  on the turn's own messages, after those of the turns that answered the message before it.\<close>

theorem reading_turn_comes_last:
  assumes own: "own = TurnKey upTo participant" and "0 \<le> upTo" and "upTo < 2 ^ 63"
    and "participant_ok participant"
    and canonical: "\<forall>r \<in> set (rows T). \<forall>t. r_session r = sid \<and> TurnOf (r_key r) = Some t \<longrightarrow>
        (\<exists>a p. parseTurn t = Some (a, p) \<and> t = TurnKey a p)"
    and ends: "\<forall>r \<in> set (rows T). \<forall>t a. r_session r = sid \<and> r_key r = TurnEndKey t \<and> TurnAnchor t = Some a
        \<longrightarrow> a < r_id r"
    and earlier: "\<forall>e \<in> set earlier. TurnAnchor e = Some upTo"
    and before: "\<forall>r \<in> set (rows T). \<forall>r' \<in> set (rows T). r_session r = sid \<and> r_session r' = sid
        \<and> (\<exists>e \<in> set earlier. TurnOf (r_key r) = Some e) \<and> TurnOf (r_key r') = Some own \<longrightarrow> r_id r < r_id r'"
    and m: "m \<in> set (LoadConversation T sid (ScopeOf own earlier))" "TurnOf (r_key m) = Some own"
  shows "\<exists>pre. Order (LoadConversation T sid (ScopeOf own earlier))
       = pre @ sort_key r_id (filter (\<lambda>r. TurnOf (r_key r) = Some own)
                                (LoadConversation T sid (ScopeOf own earlier)))"
  by (rule reading_turn_last [OF assms])

lemma parallel_turn_keys: "TurnKey 10 ''jarvis'' = ''m10.jarvis''" "TurnKey 12 ''smith'' = ''m12.smith''"
  by (simp_all add: TurnKey_def dec_int_def dec_nat.simps [of 10] dec_nat.simps [of 12]
      dec_nat.simps [of "Suc 0"] digit_char_def)

theorem reading_turn_comes_last_witness:
  "\<exists>pre. Order (LoadConversation \<lparr>rows = parallel_rows, next_id = 15\<rparr> ''s'' (ScopeOf ''m10.jarvis'' []))
       = pre @ sort_key r_id (filter (\<lambda>r. TurnOf (r_key r) = Some ''m10.jarvis'')
             (LoadConversation \<lparr>rows = parallel_rows, next_id = 15\<rparr> ''s'' (ScopeOf ''m10.jarvis'' [])))"
proof (rule reading_turn_comes_last [where upTo = 10 and participant = "''jarvis''" and m = "parallel_rows ! 1"])
  let ?T = "\<lparr>rows = parallel_rows, next_id = 15\<rparr>"
  show "\<forall>r \<in> set (rows ?T). \<forall>t. r_session r = ''s'' \<and> TurnOf (r_key r) = Some t \<longrightarrow>
        (\<exists>a p. parseTurn t = Some (a, p) \<and> t = TurnKey a p)"
    by (simp add: parallel_rows_def parallel_keys parallel_turn_keys)
  show "parallel_rows ! 1 \<in> set (LoadConversation ?T ''s'' (ScopeOf ''m10.jarvis'' []))"
    by (simp add: set_LoadConversation parallel_rows_def TurnReads_def parallel_keys ScopeOf_def
        IsTurnEnd_def TurnEndKey_def)
qed (auto simp: parallel_turn_keys parallel_keys participant_ok_def parallel_rows_def TurnEndKey_def)

end
