(* ===== verification/Glob.thy ===== *)
theory Glob
  imports Prelude
begin

section \<open>Globs: Go's path.Match\<close>

text \<open>
  The rules and the agents' tool lists match names with \<open>path.Match\<close> of Go's standard library, modelled
  here function by function (\<open>scanChunk\<close>, \<open>matchChunk\<close>, \<open>getEsc\<close>) as the library writes them: a chunk
  that no longer matches is still read to its end, so that a malformed pattern is an error. A rune is a
  \<open>nat\<close>; \<open>None\<close> is \<open>ErrBadPattern\<close>. The lemmas are what the callers rely on: the error depends on the
  pattern alone, a name without wildcards matches itself only, and \<open>prefix*\<close> the names it starts
  (without a slash).
\<close>

text \<open>A possibly escaped character of a class, and the rest, which is not empty.\<close>

definition getEsc :: "string \<Rightarrow> (nat \<times> string) option" where
  "getEsc chunk =
     (if chunk = [] \<or> hd chunk = CHR ''-'' \<or> hd chunk = CHR '']'' then None
      else let chunk = (if hd chunk = CHR 0x5C then tl chunk else chunk) in
        if chunk = [] then None
        else case decode_rune chunk of (r, n) \<Rightarrow>
          if r = rune_error \<and> n = 1 then None
          else if drop n chunk = [] then None else Some (r, drop n chunk))"

lemma tl_shorter: "xs \<noteq> [] \<Longrightarrow> length (tl xs) < length xs"
  by (cases xs) auto

lemma getEsc_shorter: "getEsc chunk = Some (r, rest) \<Longrightarrow> length rest < length chunk \<and> rest \<noteq> []"
  using decode_rune_size_pos [of chunk] decode_rune_size_pos [of "tl chunk"]
  by (cases chunk) (auto simp: getEsc_def Let_def split: if_splits prod.splits)

text \<open>The ranges of a class up to its closing bracket: whether one holds \<open>r\<close>, and what follows.\<close>

function class_loop :: "nat \<Rightarrow> string \<Rightarrow> nat \<Rightarrow> bool \<Rightarrow> (bool \<times> string) option" where
  "class_loop r chunk nrange match =
     (if chunk \<noteq> [] \<and> hd chunk = CHR '']'' \<and> 0 < nrange then Some (match, tl chunk)
      else case getEsc chunk of None \<Rightarrow> None
      | Some (lo, chunk1) \<Rightarrow>
          if hd chunk1 = CHR ''-''
          then (case getEsc (tl chunk1) of None \<Rightarrow> None
                | Some (hi, chunk2) \<Rightarrow> class_loop r chunk2 (nrange + 1) (match \<or> lo \<le> r \<and> r \<le> hi))
          else class_loop r chunk1 (nrange + 1) (match \<or> lo \<le> r \<and> r \<le> lo))"
  by pat_completeness auto
termination
  by (relation "measure (\<lambda>(r, chunk, n, m). length chunk)") (auto dest!: getEsc_shorter)

declare class_loop.simps [simp del]

lemma class_loop_shorter:
  "class_loop r chunk n m = Some (m', rest) \<Longrightarrow> length rest < length chunk"
proof (induction r chunk n m rule: class_loop.induct)
  case (1 r chunk nrange match)
  show ?case
  proof (cases "chunk \<noteq> [] \<and> hd chunk = CHR '']'' \<and> 0 < nrange")
    case True
    with "1.prems" show ?thesis by (auto simp: class_loop.simps [of r chunk] tl_shorter)
  next
    case False
    with "1.prems" obtain lo c1 where e: "getEsc chunk = Some (lo, c1)"
      by (auto simp: class_loop.simps [of r chunk] split: option.splits)
    show ?thesis
    proof (cases "hd c1 = CHR ''-''")
      case True
      with "1.prems" False e obtain hi c2 where e2: "getEsc (tl c1) = Some (hi, c2)"
        by (auto simp: class_loop.simps [of r chunk] split: option.splits)
      with "1.prems" False e True have "class_loop r c2 (nrange + 1) (match \<or> lo \<le> r \<and> r \<le> hi) = Some (m', rest)"
        by (simp add: class_loop.simps [of r chunk])
      from "1.IH"(1) [OF False e refl True e2 refl this] getEsc_shorter [OF e] getEsc_shorter [OF e2]
      show ?thesis by auto
    next
      case False': False
      with "1.prems" False e have "class_loop r c1 (nrange + 1) (match \<or> lo \<le> r \<and> r \<le> lo) = Some (m', rest)"
        by (simp add: class_loop.simps [of r chunk])
      from "1.IH"(2) [OF False e refl False' this] getEsc_shorter [OF e]
      show ?thesis by simp
    qed
  qed
qed

text \<open>
  \<open>matchChunk\<close>: \<open>None\<close> is the error, \<open>Some None\<close> no match, \<open>Some (Some rest)\<close> what the chunk leaves of
  the name. \<open>failed\<close> is the loop's variable: once set, the name is no longer read.
\<close>

function matchChunk_loop :: "string \<Rightarrow> string \<Rightarrow> bool \<Rightarrow> string option option" where
  "matchChunk_loop chunk s failed0 =
     (if chunk = [] then Some (if failed0 then None else Some s)
      else let failed = (failed0 \<or> s = []) in
        if hd chunk = CHR ''['' then
          (let (r, s1) = (if failed then (0, s) else (fst (decode_rune s), drop (snd (decode_rune s)) s));
               negated = (tl chunk \<noteq> [] \<and> hd (tl chunk) = CHR ''^'');
               ranges = (if negated then tl (tl chunk) else tl chunk)
           in case class_loop r ranges 0 False of None \<Rightarrow> None
              | Some (match, rest) \<Rightarrow> matchChunk_loop rest s1 (failed \<or> match = negated))
        else if hd chunk = CHR ''?'' then
          (if failed then matchChunk_loop (tl chunk) s True
           else matchChunk_loop (tl chunk) (drop (snd (decode_rune s)) s) (hd s = CHR 0x2F))
        else
          (let chunk1 = (if hd chunk = CHR 0x5C then tl chunk else chunk)
           in if chunk1 = [] then None
              else if failed then matchChunk_loop (tl chunk1) s True
              else matchChunk_loop (tl chunk1) (tl s) (hd chunk1 \<noteq> hd s)))"
  by pat_completeness auto
termination
  by (relation "measure (\<lambda>(chunk, s, f). length chunk)")
    (auto dest!: class_loop_shorter split: if_splits simp: tl_shorter)

declare matchChunk_loop.simps [simp del]

definition matchChunk :: "string \<Rightarrow> string \<Rightarrow> string option option" where
  "matchChunk chunk s = matchChunk_loop chunk s False"

text \<open>\<open>scanChunk\<close>: the chunk up to the next star outside a class, and the rest.\<close>

fun scan :: "bool \<Rightarrow> string \<Rightarrow> string \<times> string" where
  "scan inrange [] = ([], [])"
| "scan inrange (c # cs) =
     (if c = CHR 0x5C
      then (case cs of [] \<Rightarrow> ([c], []) | d # ds \<Rightarrow> apfst (\<lambda>x. c # d # x) (scan inrange ds))
      else if c = CHR ''['' then apfst ((#) c) (scan True cs)
      else if c = CHR '']'' then apfst ((#) c) (scan False cs)
      else if c = CHR ''*'' \<and> \<not> inrange then ([], c # cs)
      else apfst ((#) c) (scan inrange cs))"

definition scanChunk :: "string \<Rightarrow> bool \<times> string \<times> string" where
  "scanChunk pattern =
     (let p = dropWhile (\<lambda>c. c = CHR ''*'') pattern in (pattern \<noteq> [] \<and> hd pattern = CHR ''*'', scan False p))"

lemma scan_append: "fst (scan r p) @ snd (scan r p) = p"
  by (induction r p rule: scan.induct) (auto split: list.splits)

lemma scan_empty: "fst (scan False p) = [] \<Longrightarrow> p = [] \<or> hd p = CHR ''*''"
  by (cases p) (auto split: list.splits if_splits)

lemma scanChunk_shorter:
  assumes "scanChunk pattern = (star, chunk, rest)" and "pattern \<noteq> []"
  shows "length rest < length pattern"
proof -
  let ?p = "dropWhile (\<lambda>c. c = CHR ''*'') pattern"
  have len: "length chunk + length rest = length ?p"
    using assms(1) scan_append [of False ?p] by (metis Pair_inject fst_conv length_append scanChunk_def snd_conv prod.collapse)
  show ?thesis
  proof (cases "hd pattern = CHR ''*''")
    case True
    then have "length ?p < length pattern"
      using assms(2) by (cases pattern) (auto simp: le_imp_less_Suc length_dropWhile_le)
    with len show ?thesis by simp
  next
    case False
    then have p: "?p = pattern" using assms(2) by (cases pattern) auto
    with assms False scan_empty [of pattern] have "chunk \<noteq> []" by (auto simp: scanChunk_def Let_def)
    with len p show ?thesis by (cases chunk) auto
  qed
qed

text \<open>The loop that skips up to a match of the chunk: \<open>final\<close> is whether it is the pattern's last one.\<close>

fun skip_loop :: "bool \<Rightarrow> string \<Rightarrow> string \<Rightarrow> string option option" where
  "skip_loop final chunk [] = Some None"
| "skip_loop final chunk (c # name) =
     (if c = CHR 0x2F then Some None
      else case matchChunk chunk name of None \<Rightarrow> None
      | Some None \<Rightarrow> skip_loop final chunk name
      | Some (Some t) \<Rightarrow> if final \<and> t \<noteq> [] then skip_loop final chunk name else Some (Some t))"

text \<open>Before false is returned, the rest of the pattern is checked.\<close>

function check_rest :: "string \<Rightarrow> bool option" where
  "check_rest pattern =
     (if pattern = [] then Some False
      else case scanChunk pattern of (_, chunk, rest) \<Rightarrow>
        if matchChunk chunk [] = None then None else check_rest rest)"
  by pat_completeness auto
termination
  by (relation "measure length") (auto dest: scanChunk_shorter [OF sym])

declare check_rest.simps [simp del]

function path_Match :: "string \<Rightarrow> string \<Rightarrow> bool option" where
  "path_Match pattern name =
     (if pattern = [] then Some (name = [])
      else case scanChunk pattern of (star, chunk, rest) \<Rightarrow>
        if star \<and> chunk = [] then Some (CHR 0x2F \<notin> set name)
        else case matchChunk chunk name of None \<Rightarrow> None
        | Some m \<Rightarrow>
            (case (case m of Some t \<Rightarrow> if t = [] \<or> rest \<noteq> [] then Some t else None | None \<Rightarrow> None) of
               Some t \<Rightarrow> path_Match rest t
             | None \<Rightarrow>
                 (case (if star then skip_loop (rest = []) chunk name else Some None) of
                    None \<Rightarrow> None
                  | Some (Some t) \<Rightarrow> path_Match rest t
                  | Some None \<Rightarrow> check_rest rest)))"
  by pat_completeness auto
termination
  by (relation "measure (\<lambda>(p, n). length p)") (auto dest: scanChunk_shorter [OF sym])

declare path_Match.simps [simp del]

subsection \<open>The error is the pattern's\<close>

lemma class_loop_rest:
  "map_option snd (class_loop r chunk n m) = map_option snd (class_loop r' chunk n m')"
proof (induction r chunk n m arbitrary: m' rule: class_loop.induct)
  case (1 r chunk n m)
  show ?case
  proof (cases "chunk \<noteq> [] \<and> hd chunk = CHR '']'' \<and> 0 < n")
    case True
    then show ?thesis by (simp add: class_loop.simps [of r chunk] class_loop.simps [of r' chunk])
  next
    case False
    show ?thesis
    proof (cases "getEsc chunk")
      case None
      with False show ?thesis by (simp add: class_loop.simps [of r chunk] class_loop.simps [of r' chunk])
    next
      case (Some e)
      obtain lo c1 where e: "e = (lo, c1)" by fastforce
      note IH1 = "1.IH"(1) [OF False Some e [symmetric]] and IH2 = "1.IH"(2) [OF False Some e [symmetric]]
      show ?thesis
        using False Some e IH1 IH2
        by (simp only: class_loop.simps [of r chunk n m] class_loop.simps [of r' chunk n m'])
          (simp split: option.splits)
    qed
  qed
qed

lemma class_loop_None: "class_loop r chunk n m = None \<longleftrightarrow> class_loop r' chunk n m' = None"
  by (metis class_loop_rest option.map_disc_iff)

lemma class_loop_Some:
  assumes "class_loop r chunk n m = Some (x, rest)"
  shows "\<exists>y. class_loop r' chunk n m' = Some (y, rest)"
proof -
  obtain z where z: "class_loop r' chunk n m' = Some z"
    using assms class_loop_None [of r chunk n m r' m'] by (cases "class_loop r' chunk n m'") simp_all
  with assms class_loop_rest [of r chunk n m r' m'] have "snd z = rest" by simp
  with z show ?thesis by (metis prod.collapse)
qed

lemma matchChunk_loop_error: "matchChunk_loop chunk s f = None \<longleftrightarrow> matchChunk_loop chunk s' f' = None"
proof (induction "length chunk" arbitrary: chunk s f s' f' rule: less_induct)
  case less
  consider (nil) "chunk = []" | (cls) "chunk \<noteq> []" "hd chunk = CHR ''[''"
    | (any) "chunk \<noteq> []" "hd chunk = CHR ''?''"
    | (lit) "chunk \<noteq> []" "hd chunk \<noteq> CHR ''[''" "hd chunk \<noteq> CHR ''?''" by blast
  then show ?case
  proof cases
    case nil
    then show ?thesis by (simp add: matchChunk_loop.simps [of "[]"])
  next
    case any
    then have "matchChunk_loop (tl chunk) t g = None \<longleftrightarrow> matchChunk_loop (tl chunk) t' g' = None" for t g t' g'
      by (intro less) (auto simp: tl_shorter)
    with any show ?thesis
      by (simp only: matchChunk_loop.simps [of chunk s] matchChunk_loop.simps [of chunk s']) (auto simp: Let_def)
  next
    case lit
    define chunk1 where "chunk1 = (if hd chunk = CHR 0x5C then tl chunk else chunk)"
    have "matchChunk_loop (tl chunk1) t g = None \<longleftrightarrow> matchChunk_loop (tl chunk1) t' g' = None" for t g t' g'
      using lit(1) by (intro less) (cases chunk, auto simp: chunk1_def)
    with lit show ?thesis
      by (simp only: matchChunk_loop.simps [of chunk s] matchChunk_loop.simps [of chunk s']
          chunk1_def [symmetric] Let_def) auto
  next
    case cls
    define ranges where "ranges = (if tl chunk \<noteq> [] \<and> hd (tl chunk) = CHR ''^'' then tl (tl chunk) else tl chunk)"
    have len: "length ranges < length chunk" using cls(1) by (cases chunk) (auto simp: ranges_def)
    have unf: "\<exists>r t g. matchChunk_loop chunk s f =
        (case class_loop r ranges 0 False of None \<Rightarrow> None | Some (match, rest) \<Rightarrow> matchChunk_loop rest t (g match))" for s f
      using cls by (simp add: matchChunk_loop.simps [of chunk s f] Let_def ranges_def [symmetric]) metis
    obtain r t g where 1: "matchChunk_loop chunk s f =
        (case class_loop r ranges 0 False of None \<Rightarrow> None | Some (match, rest) \<Rightarrow> matchChunk_loop rest t (g match))"
      using unf by blast
    obtain r' t' g' where 2: "matchChunk_loop chunk s' f' =
        (case class_loop r' ranges 0 False of None \<Rightarrow> None | Some (match, rest) \<Rightarrow> matchChunk_loop rest t' (g' match))"
      using unf by blast
    show ?thesis
    proof (cases "class_loop r ranges 0 False")
      case None
      then have "class_loop r' ranges 0 False = None" using class_loop_None by blast
      with None 1 2 show ?thesis by simp
    next
      case (Some x)
      then obtain m rest where x: "class_loop r ranges 0 False = Some (m, rest)" by (cases x) auto
      from class_loop_Some [OF x] obtain y where y: "class_loop r' ranges 0 False = Some (y, rest)" by blast
      have "length rest < length chunk" using class_loop_shorter [OF x] len by simp
      from less [OF this] x y 1 2 show ?thesis by simp
    qed
  qed
qed

lemma matchChunk_error: "matchChunk chunk s = None \<longleftrightarrow> matchChunk chunk s' = None"
  unfolding matchChunk_def by (rule matchChunk_loop_error)

lemma skip_loop_error: "skip_loop final chunk name = None \<Longrightarrow> matchChunk chunk s = None"
  by (induction name) (auto split: if_splits option.splits dest: matchChunk_error [THEN iffD1])

text \<open>A pattern is malformed when one of its chunks is.\<close>

function malformed :: "string \<Rightarrow> bool" where
  "malformed pattern =
     (if pattern = [] then False
      else case scanChunk pattern of (_, chunk, rest) \<Rightarrow>
        if matchChunk chunk [] = None then True else malformed rest)"
  by pat_completeness auto
termination
  by (relation "measure length") (auto dest: scanChunk_shorter [OF sym])

declare malformed.simps [simp del]

lemma check_rest_malformed: "check_rest p = (if malformed p then None else Some False)"
proof (induction p rule: check_rest.induct)
  case (1 p)
  obtain star chunk rest where s: "scanChunk p = (star, chunk, rest)" by (metis prod_cases3)
  show ?case
  proof (cases "p = []")
    case True
    then show ?thesis by (simp add: check_rest.simps [of "[]"] malformed.simps [of "[]"])
  next
    case False
    with 1 [OF False s [symmetric] refl] s show ?thesis
      by (simp add: check_rest.simps [of p] malformed.simps [of p])
  qed
qed

lemma scanChunk_last: "scanChunk p = (star, [], rest) \<Longrightarrow> rest = []"
proof -
  let ?q = "dropWhile (\<lambda>c. c = CHR ''*'') p"
  assume "scanChunk p = (star, [], rest)"
  then have q: "scan False ?q = ([], rest)" by (simp add: scanChunk_def Let_def)
  then have "?q = [] \<or> hd ?q = CHR ''*''" using scan_empty [of ?q] by simp
  moreover have "?q \<noteq> [] \<Longrightarrow> hd ?q \<noteq> CHR ''*''" by (rule hd_dropWhile)
  ultimately have "?q = []" by blast
  with q show "rest = []" by simp
qed

lemma path_Match_malformed: "path_Match p name = None \<longleftrightarrow> malformed p"
proof (induction p name rule: path_Match.induct)
  case (1 p name)
  obtain star chunk rest where s: "scanChunk p = (star, chunk, rest)" by (metis prod_cases3)
  consider (nil) "p = []" | (stop) "p \<noteq> []" "star" "chunk = []"
    | (err) "p \<noteq> []" "\<not> (star \<and> chunk = [])" "matchChunk chunk name = None"
    | (hit) t where "p \<noteq> []" "\<not> (star \<and> chunk = [])" "matchChunk chunk name = Some (Some t)" "t = [] \<or> rest \<noteq> []"
    | (miss) m where "p \<noteq> []" "\<not> (star \<and> chunk = [])" "matchChunk chunk name = Some m"
        "\<not> (\<exists>t. m = Some t \<and> (t = [] \<or> rest \<noteq> []))"
    by fastforce
  then show ?case
  proof cases
    case nil
    then show ?thesis by (simp add: path_Match.simps [of "[]"] malformed.simps [of "[]"])
  next
    case stop
    then have "rest = []" using s scanChunk_last by blast
    moreover have "matchChunk [] [] \<noteq> None" by (simp add: matchChunk_def matchChunk_loop.simps [of "[]"])
    ultimately show ?thesis using stop s
      by (simp add: path_Match.simps [of p] malformed.simps [of p] malformed.simps [of "[]"])
  next
    case err
    then have "matchChunk chunk [] = None" using matchChunk_error by blast
    with err s show ?thesis by (simp add: path_Match.simps [of p] malformed.simps [of p])
  next
    case hit
    then have c: "matchChunk chunk [] \<noteq> None" using matchChunk_error [of chunk name "[]"] by simp
    have "path_Match p name = path_Match rest t" using hit s by (auto simp: path_Match.simps [of p])
    moreover have "path_Match rest t = None \<longleftrightarrow> malformed rest"
      by (rule 1(2) [OF hit(1) s [symmetric] refl hit(2,3)]) (use hit(4) in simp)
    ultimately show ?thesis using hit(1) s c by (auto simp: malformed.simps [of p])
  next
    case miss
    then have c: "matchChunk chunk [] \<noteq> None" using matchChunk_error [of chunk name "[]"] by simp
    then have sk: "skip_loop (rest = []) chunk name \<noteq> None" using skip_loop_error [of "rest = []" chunk name "[]"] by metis
    have m: "(case m of None \<Rightarrow> None | Some t \<Rightarrow> if t = [] \<or> rest \<noteq> [] then Some t else None) = None"
      using miss(4) by (auto split: option.splits)
    have "path_Match p name = (case (if star then skip_loop (rest = []) chunk name else Some None) of
            None \<Rightarrow> None | Some (Some t) \<Rightarrow> path_Match rest t | Some None \<Rightarrow> check_rest rest)"
      using miss s m by (auto simp: path_Match.simps [of p])
    moreover have "path_Match rest t = None \<longleftrightarrow> malformed rest"
      if "star" "skip_loop (rest = []) chunk name = Some (Some t)" for t
      using 1(1) [OF miss(1) s [symmetric] refl miss(2,3) m _ refl] that by simp
    ultimately show ?thesis using miss(1) s c sk
      by (auto simp: malformed.simps [of p] check_rest_malformed split: option.splits)
  qed
qed

subsection \<open>Patterns without a wildcard, and prefixes\<close>

definition plain_char :: "char \<Rightarrow> bool" where
  "plain_char c = (c \<notin> set ''*?['' \<and> c \<noteq> CHR 0x5C)"

lemma scan_plain: "list_all plain_char p \<Longrightarrow> scan r p = (p, [])"
  by (induction p arbitrary: r) (auto simp: plain_char_def)

lemma scan_plain_star: "list_all plain_char p \<Longrightarrow> scan False (p @ CHR ''*'' # q) = (p, CHR ''*'' # q)"
  by (induction p) (auto simp: plain_char_def)

lemma dropWhile_plain: "list_all plain_char (c # p) \<Longrightarrow> dropWhile (\<lambda>c. c = CHR ''*'') (c # p @ q) = c # p @ q"
  by (auto simp: plain_char_def)

lemma matchChunk_failed: "list_all plain_char p \<Longrightarrow> matchChunk_loop p s True = Some None"
proof (induction p arbitrary: s)
  case Nil
  then show ?case by (simp add: matchChunk_loop.simps [of "[]"])
next
  case (Cons c p)
  then show ?case by (auto simp: matchChunk_loop.simps [of "c # p"] plain_char_def)
qed

lemma matchChunk_loop_plain: "list_all plain_char p \<Longrightarrow> matchChunk_loop p s False = Some (cut_prefix p s)"
proof (induction p s rule: cut_prefix.induct)
  case (1 s)
  then show ?case by (simp add: matchChunk_loop.simps [of "[]"])
next
  case (2 c p)
  then have "plain_char c" "matchChunk_loop p [] True = Some None" by (simp_all add: matchChunk_failed)
  then show ?case by (simp add: matchChunk_loop.simps [of "c # p"] plain_char_def)
next
  case (3 c p d s)
  then have "plain_char c" "matchChunk_loop p s True = Some None" by (simp_all add: matchChunk_failed)
  with 3 show ?case by (simp add: matchChunk_loop.simps [of "c # p"] plain_char_def)
qed

lemma matchChunk_plain: "list_all plain_char p \<Longrightarrow> matchChunk p s = Some (cut_prefix p s)"
  by (simp add: matchChunk_def matchChunk_loop_plain)

lemma path_Match_Nil: "path_Match [] name = Some (name = [])"
  by (subst path_Match.simps) simp

lemma check_rest_Nil: "check_rest [] = Some False"
  by (subst check_rest.simps) simp

lemma path_Match_plain:
  assumes "list_all plain_char p"
  shows "path_Match p name = Some (name = p)"
proof (cases p)
  case Nil
  then show ?thesis by (simp add: path_Match_Nil)
next
  case (Cons c q)
  have scan: "scanChunk p = (False, p, [])"
    using assms Cons dropWhile_plain [of c q "[]"] scan_plain [OF assms, of False]
    by (auto simp: scanChunk_def plain_char_def)
  show ?thesis
  proof (cases "cut_prefix p name")
    case None
    then have "name \<noteq> p" by (metis append_Nil2 cut_prefix_append option.distinct(1))
    moreover have "p \<noteq> []" using Cons by simp
    ultimately show ?thesis using None scan
      by (simp add: path_Match.simps [of p] matchChunk_plain [OF assms] check_rest_Nil)
  next
    case (Some t)
    then have "name = p @ t" by (simp add: cut_prefix_Some_iff)
    moreover have "p \<noteq> []" using Cons by simp
    ultimately show ?thesis using Some scan
      by (simp add: path_Match.simps [of p] matchChunk_plain [OF assms] check_rest_Nil path_Match_Nil)
  qed
qed

lemma path_Match_star: "path_Match ''*'' name = Some (CHR 0x2F \<notin> set name)"
  by (subst path_Match.simps) (simp add: scanChunk_def)

lemma check_rest_star: "check_rest ''*'' = Some False"
  by (subst check_rest.simps) (simp add: scanChunk_def matchChunk_plain check_rest_Nil)

lemma path_Match_prefix:
  assumes "list_all plain_char p"
  shows "path_Match (p @ ''*'') name = Some (\<exists>r. name = p @ r \<and> CHR 0x2F \<notin> set r)"
proof (cases p)
  case Nil
  then show ?thesis by (simp add: path_Match_star)
next
  case (Cons c q)
  have scan: "scanChunk (p @ ''*'') = (False, p, ''*'')"
    using assms Cons dropWhile_plain [of c q "''*''"] scan_plain_star [OF assms, of "[]"]
    by (auto simp: scanChunk_def plain_char_def)
  show ?thesis
  proof (cases "cut_prefix p name")
    case None
    then have "\<nexists>r. name = p @ r" by (metis cut_prefix_append option.distinct(1))
    with None scan show ?thesis
      by (simp add: path_Match.simps [of "p @ ''*''"] matchChunk_plain [OF assms] check_rest_star)
  next
    case (Some t)
    then have "name = p @ t" by (simp add: cut_prefix_Some_iff)
    with Some scan show ?thesis
      by (simp add: path_Match.simps [of "p @ ''*''"] matchChunk_plain [OF assms] path_Match_star)
  qed
qed

end
