(* ===== verification/Access.thy ===== *)
theory Access
  imports Glob
begin

section \<open>Access rules\<close>

text \<open>
  \<open>access/access.go\<close>: who may use which tool. Everything is open; a rule closes the tools it targets to
  everyone but its holders. The package is pure, and so is the model: a rule's kind is its string, a
  pattern is matched by \<open>path_Match\<close> (its error ignored, as the code ignores it), \<open>None\<close> is a nil user.
\<close>

definition KindMCPServer :: string where "KindMCPServer = ''mcp_server''"

definition KindPattern :: string where "KindPattern = ''pattern''"

definition ValidKind :: "string \<Rightarrow> bool" where
  "ValidKind kind = (kind = KindMCPServer \<or> kind = KindPattern)"

record rule =
  ru_id :: int
  ru_kind :: string
  ru_target :: string
  ru_groups :: "string list"
  ru_users :: "string list"

record user =
  u_id :: string
  u_admin :: bool
  u_disabled :: bool
  u_groups :: "string list"

datatype source_kind = SourceBuiltIn | SourceAgent | SourceMCP

record source =
  s_kind :: source_kind
  s_server :: string

record tool =
  t_name :: string
  t_source :: source

definition MCPServer :: "source \<Rightarrow> string \<times> bool" where
  "MCPServer s = (s_server s, s_kind s = SourceMCP)"

definition AgentToolPrefix :: string where "AgentToolPrefix = ''agent_''"

definition BuiltIn :: "string \<Rightarrow> tool" where
  "BuiltIn name = \<lparr>t_name = name, t_source = \<lparr>s_kind = SourceBuiltIn, s_server = []\<rparr>\<rparr>"

definition Agent :: "string \<Rightarrow> tool" where
  "Agent agentID = \<lparr>t_name = AgentToolPrefix @ agentID, t_source = \<lparr>s_kind = SourceAgent, s_server = []\<rparr>\<rparr>"

definition FromMCP :: "string \<Rightarrow> string \<Rightarrow> tool" where
  "FromMCP server name = \<lparr>t_name = name, t_source = \<lparr>s_kind = SourceMCP, s_server = server\<rparr>\<rparr>"

definition validGlob :: "string \<Rightarrow> bool" where
  "validGlob glob = (path_Match glob [] \<noteq> None)"

definition ValidTarget :: "string \<Rightarrow> string \<Rightarrow> bool" where
  "ValidTarget kind target =
     (if target = [] then False else if kind = KindPattern then validGlob target else True)"

definition Matches :: "rule \<Rightarrow> tool \<Rightarrow> bool" where
  "Matches r t =
     (if ru_kind r = KindMCPServer
      then (case MCPServer (t_source t) of (server, ok) \<Rightarrow> ok \<and> server = ru_target r)
      else if ru_kind r = KindPattern then path_Match (ru_target r) (t_name t) = Some True
      else False)"

definition Holds :: "rule \<Rightarrow> user \<Rightarrow> bool" where
  "Holds r u =
     (if u_id u \<in> set (ru_users r) then True else list_ex (\<lambda>g. g \<in> set (ru_groups r)) (u_groups u))"

definition HasHolder :: "rule \<Rightarrow> bool" where
  "HasHolder r = (0 < length (ru_groups r) \<or> 0 < length (ru_users r))"

definition Matching :: "tool \<Rightarrow> rule list \<Rightarrow> rule list" where
  "Matching t rules = filter (\<lambda>r. Matches r t) rules"

definition Targets :: "rule \<Rightarrow> tool list \<Rightarrow> tool list" where
  "Targets r tools = filter (Matches r) tools"

fun rules_keep :: "user \<Rightarrow> tool \<Rightarrow> rule list \<Rightarrow> bool" where
  "rules_keep u t [] = True"
| "rules_keep u t (r # rules) = (if Matches r t \<and> \<not> Holds r u then False else rules_keep u t rules)"

definition Allowed :: "user option \<Rightarrow> tool \<Rightarrow> rule list \<Rightarrow> bool" where
  "Allowed u t rules =
     (case u of None \<Rightarrow> length (Matching t rules) = 0
      | Some u \<Rightarrow> if u_disabled u then False else if u_admin u then True else rules_keep u t rules)"

record snapshot =
  sn_rules :: "rule list"
  sn_users :: "string \<rightharpoonup> user"

definition SnapshotUser :: "snapshot \<Rightarrow> string \<Rightarrow> user option" where
  "SnapshotUser s userID =
     (if userID = [] then None
      else case sn_users s userID of Some u \<Rightarrow> Some u
      | None \<Rightarrow> Some \<lparr>u_id = userID, u_admin = False, u_disabled = False, u_groups = []\<rparr>)"

definition SnapshotAllowed :: "snapshot \<Rightarrow> string \<Rightarrow> tool \<Rightarrow> bool" where
  "SnapshotAllowed s userID t = Allowed (SnapshotUser s userID) t (sn_rules s)"

definition Removes :: "rule \<Rightarrow> rule list \<Rightarrow> user list \<Rightarrow> tool list \<Rightarrow> user list" where
  "Removes r others users agents =
     filter (\<lambda>u. list_ex (\<lambda>a. Allowed (Some u) a others) agents
               \<and> \<not> list_ex (\<lambda>a. Allowed (Some u) a (others @ [r])) agents) users"

subsection \<open>Laws\<close>

lemma rules_keep_iff: "rules_keep u t rules \<longleftrightarrow> (\<forall>r \<in> set rules. Matches r t \<longrightarrow> Holds r u)"
  by (induction rules) auto

lemma Holds_iff: "Holds r u \<longleftrightarrow> u_id u \<in> set (ru_users r) \<or> set (u_groups u) \<inter> set (ru_groups r) \<noteq> {}"
  by (auto simp: Holds_def list_ex_iff)

lemma Allowed_None: "Allowed None t rules \<longleftrightarrow> (\<forall>r \<in> set rules. \<not> Matches r t)"
  by (simp add: Allowed_def Matching_def filter_empty_conv)

lemma Allowed_Some:
  "Allowed (Some u) t rules \<longleftrightarrow>
     \<not> u_disabled u \<and> (u_admin u \<or> (\<forall>r \<in> set rules. Matches r t \<longrightarrow> Holds r u))"
  by (simp add: Allowed_def rules_keep_iff)

lemmas Allowed_iff = Allowed_None Allowed_Some

lemma Allowed_mono: "set rules \<subseteq> set rules' \<Longrightarrow> Allowed u t rules' \<Longrightarrow> Allowed u t rules"
  by (cases u) (auto simp: Allowed_iff)

lemma Allowed_nobody: "Allowed None t rules \<Longrightarrow> \<not> u_disabled u \<Longrightarrow> Allowed (Some u) t rules"
  by (auto simp: Allowed_iff)

lemma Matches_server: "ru_kind r = KindMCPServer \<Longrightarrow> Matches r t \<longleftrightarrow> s_kind (t_source t) = SourceMCP \<and> s_server (t_source t) = ru_target r"
  by (simp add: Matches_def MCPServer_def)

lemma Matches_pattern: "ru_kind r = KindPattern \<Longrightarrow> Matches r t \<longleftrightarrow> path_Match (ru_target r) (t_name t) = Some True"
  by (simp add: Matches_def KindMCPServer_def KindPattern_def)

subsection \<open>Properties\<close>

text \<open>C27: adding a rule never opens anything: whoever may use a tool under a list of rules may use it
  under the same rules with one taken out, wherever it stood; and the order of the rules and a rule
  written twice change nothing.\<close>

theorem adding_a_rule_never_opens:
  "(Allowed u t (before @ r # after) \<longrightarrow> Allowed u t (before @ after))
   \<and> (set rules = set rules' \<longrightarrow> Allowed u t rules = Allowed u t rules')"
proof -
  have "set (before @ after) \<subseteq> set (before @ r # after)" by auto
  then show ?thesis using Allowed_mono by blast
qed

definition crm_rule :: rule where
  "crm_rule = \<lparr>ru_id = 1, ru_kind = KindPattern, ru_target = ''crm_*'', ru_groups = [''sales''], ru_users = []\<rparr>"

definition alice :: user where
  "alice = \<lparr>u_id = ''alice'', u_admin = False, u_disabled = False, u_groups = [''sales'']\<rparr>"

lemma crm_targets: "Matches crm_rule (BuiltIn name) \<longleftrightarrow> (\<exists>r. name = ''crm_'' @ r \<and> CHR 0x2F \<notin> set r)"
  using path_Match_prefix [of "''crm_''" name]
  by (simp add: Matches_pattern crm_rule_def BuiltIn_def plain_char_def)

theorem adding_a_rule_never_opens_witness:
  "Allowed (Some alice) (BuiltIn ''crm_list'') ([] @ crm_rule # []) \<and> Allowed (Some alice) (BuiltIn ''crm_list'') ([] @ [])"
proof -
  have "Allowed (Some alice) (BuiltIn ''crm_list'') ([] @ crm_rule # [])"
    by (simp add: Allowed_iff Holds_iff alice_def crm_rule_def)
  with adding_a_rule_never_opens [of "Some alice" "BuiltIn ''crm_list''" "[]" crm_rule "[]"] show ?thesis by blast
qed

text \<open>who may use a tool: without a user, a tool no rule targets; a disabled user nothing, an admin
  included; an admin everything; anyone else a tool of which every rule that targets it names them or one of
  their groups.\<close>

theorem allowed_decides:
  "Allowed None t rules = (Matching t rules = [])
   \<and> Allowed (Some u) t rules =
      (\<not> u_disabled u \<and> (u_admin u \<or>
         (\<forall>r \<in> set (Matching t rules).
            u_id u \<in> set (ru_users r) \<or> set (u_groups u) \<inter> set (ru_groups r) \<noteq> {})))"
  by (auto simp: Allowed_iff Matching_def Holds_iff filter_empty_conv)

theorem allowed_decides_witness:
  "\<not> Allowed None (BuiltIn ''crm_list'') [crm_rule] \<and> Allowed (Some alice) (BuiltIn ''crm_list'') [crm_rule]"
proof -
  have "Matching (BuiltIn ''crm_list'') [crm_rule] = [crm_rule]"
    using crm_targets [of "''crm_list''"] by (simp add: Matching_def)
  with allowed_decides [of "BuiltIn ''crm_list''" "[crm_rule]" alice] show ?thesis
    by (simp add: alice_def crm_rule_def)
qed

text \<open>the users a rule would leave without any agent are told exactly: \<open>Removes\<close> gives, in their
  order, the users who may use an agent under the other rules and none once the rule is among them; never an
  admin, and never one the rule holds.\<close>

theorem removes_exactly:
  "u \<in> set (Removes r others users agents) \<longleftrightarrow>
     u \<in> set users
     \<and> (\<exists>a \<in> set agents. Allowed (Some u) a others)
     \<and> (\<forall>a \<in> set agents. Allowed (Some u) a others \<longrightarrow> Matches r a)
     \<and> \<not> u_admin u \<and> \<not> Holds r u"
proof -
  have add: "Allowed (Some u) a (others @ [r]) \<longleftrightarrow>
      Allowed (Some u) a others \<and> (u_admin u \<or> \<not> Matches r a \<or> Holds r u)" for a
    by (auto simp: Allowed_iff)
  show ?thesis by (auto simp: Removes_def list_ex_iff add)
qed

theorem removes_exactly_witness:
  "alice \<in> set (Removes (crm_rule\<lparr>ru_target := ''agent_*'', ru_groups := []\<rparr>) [] [alice] [Agent ''jarvis''])"
proof -
  have "path_Match ''agent_*'' ''agent_jarvis'' = Some True"
    using path_Match_prefix [of "''agent_''" "''agent_jarvis''"] by (simp add: plain_char_def)
  then show ?thesis
    using removes_exactly [of alice "crm_rule\<lparr>ru_target := ''agent_*'', ru_groups := []\<rparr>" "[]" "[alice]" "[Agent ''jarvis'']"]
    by (simp add: Matches_pattern crm_rule_def Agent_def AgentToolPrefix_def alice_def Holds_iff Allowed_iff)
qed

text \<open>a target an admin typed and the platform accepted is one no name makes malformed: matching it
  against any tool's name is not an error, so a pattern rule that was accepted closes what it says.\<close>

theorem valid_target_never_malformed:
  assumes "ValidTarget KindPattern target"
  shows "path_Match target name \<noteq> None \<and> target \<noteq> []"
  using assms path_Match_malformed by (auto simp: ValidTarget_def validGlob_def split: if_splits)

theorem valid_target_never_malformed_witness:
  "ValidTarget KindPattern ''crm_*'' \<and> path_Match ''crm_*'' ''crm_list'' \<noteq> None"
proof -
  have "ValidTarget KindPattern ''crm_*''"
    using path_Match_prefix [of "''crm_''" "[]"] by (simp add: ValidTarget_def validGlob_def plain_char_def)
  with valid_target_never_malformed [OF this, of "''crm_list''"] show ?thesis by blast
qed

end
