(* ===== verification/Json.thy ===== *)
theory Json
  imports Prelude
begin

section \<open>JSON values\<close>

text \<open>
  What \<open>encoding/json\<close> gives of a text: a value, its strings decoded, the members of an object in the
  order they are written (a name may be repeated), a number kept as its text. A \<open>json.RawMessage\<close> is
  \<open>None\<close> when it holds no valid JSON. Decoding an object into a Go map keeps the last of the members of a
  name; encoding a map writes its members in the order of their names.
\<close>

datatype jval =
    JVNull
  | JVBool bool
  | JVNum string
  | JVStr string
  | JVArr "jval list"
  | JVObj "(string \<times> jval) list"

type_synonym raw_json = "jval option"

text \<open>\<open>map[string]json.RawMessage\<close>: the members, one per name, in the order of the names.\<close>

definition to_map :: "(string \<times> 'v) list \<Rightarrow> (string \<times> 'v) list" where
  "to_map ms = map (\<lambda>k. (k, the (map_of (rev ms) k))) (sort (remdups (map fst ms)))"

definition map_set :: "string \<Rightarrow> 'v \<Rightarrow> (string \<times> 'v) list \<Rightarrow> (string \<times> 'v) list" where
  "map_set k v m = to_map (m @ [(k, v)])"

text \<open>
  The members of an object that a struct's field \<open>name\<close> takes: \<open>encoding/json\<close> compares names up to
  case, the long s and the Kelvin sign included (\<open>foldName\<close>). \<open>name\<close> is in lower case.
\<close>

definition upper :: "char \<Rightarrow> char" where
  "upper c = (if 97 \<le> byte c \<and> byte c \<le> 122 then char_of (byte c - 32) else c)"

fun folds_to :: "string \<Rightarrow> string \<Rightarrow> bool" where
  "folds_to [] s = (s = [])"
| "folds_to (c # cs) s =
     (case s of [] \<Rightarrow> False
      | d # ds \<Rightarrow>
          if d = c \<or> d = upper c then folds_to cs ds
          else if c = CHR ''s'' \<and> take 2 s = [CHR 0xC5, CHR 0xBF] then folds_to cs (drop 2 s)
          else if c = CHR ''k'' \<and> take 3 s = [CHR 0xE2, CHR 0x84, CHR 0xAA] then folds_to cs (drop 3 s)
          else False)"

subsection \<open>Laws\<close>

lemma map_of_map_key: "map_of (map (\<lambda>k. (k, f k)) ks) k = (if k \<in> set ks then Some (f k) else None)"
  by (induction ks) auto

lemma map_of_to_map [simp]: "map_of (to_map ms) = map_of (rev ms)"
proof
  fix k
  show "map_of (to_map ms) k = map_of (rev ms) k"
  proof (cases "k \<in> fst ` set ms")
    case True
    then have "map_of (rev ms) k \<noteq> None" by (simp add: map_of_eq_None_iff)
    with True show ?thesis by (auto simp: to_map_def map_of_map_key)
  next
    case False
    then have "map_of (rev ms) k = None" by (simp add: map_of_eq_None_iff)
    with False show ?thesis by (simp add: to_map_def map_of_map_key)
  qed
qed

lemma fst_to_map: "map fst (to_map ms) = sort (remdups (map fst ms))"
  by (simp add: to_map_def comp_def)

lemma set_fst_to_map: "fst ` set (to_map ms) = fst ` set ms"
  by (simp add: to_map_def image_image)

lemma distinct_to_map: "distinct (map fst (to_map ms))"
  by (simp add: fst_to_map)

lemma sorted_to_map: "sorted (map fst (to_map ms))"
  by (simp add: fst_to_map)

lemma map_of_rev_distinct: "distinct (map fst xs) \<Longrightarrow> map_of (rev xs) = map_of xs"
  by (subst map_of_inject_set) (simp_all flip: rev_map)

lemma map_of_rev_to_map [simp]: "map_of (rev (to_map ms)) = map_of (rev ms)"
  by (simp add: map_of_rev_distinct distinct_to_map)

lemma map_of_map_set [simp]: "map_of (map_set k v (to_map ms)) = (map_of (rev ms))(k \<mapsto> v)"
  by (simp add: map_set_def)

lemma folds_to_self: "folds_to s s"
  by (induction s) auto

end
