(* ===== verification/Catalog.thy ===== *)
theory Catalog
  imports Access Json "HOL-Library.Multiset"
begin

section \<open>The worker's catalog\<close>

text \<open>
  \<open>activity/catalog.go\<close>, with \<open>tool.MatchAny\<close> (\<open>tool/registry.go\<close>), \<open>ToolRecord.AccessTool\<close>
  (\<open>store/store.go\<close>) and the background field of a tool's schema (\<open>activity/background.go\<close>): which
  tools a turn of an agent for a user is offered, and how it dispatches them. The mutex is not modelled:
  each operation holds it throughout. \<open>sort.Slice\<close> and \<open>slices.SortFunc\<close> are not stable, the sort of the
  model is: the names they compare are distinct where the theorems speak of the order. The description of
  an agent's tool is what it is made of, the text it is formatted into is not modelled.
\<close>

definition MatchAny :: "string list \<Rightarrow> string \<Rightarrow> bool" where
  "MatchAny globs name = list_ex (\<lambda>g. path_Match g name = Some True) globs"

subsection \<open>The records\<close>

record tool_record =
  to_name :: string
  to_task_queue :: string
  to_description :: string
  to_schema :: raw_json
  to_kind :: string
  to_workflow :: string
  to_sensitive :: bool
  to_private :: bool
  to_needs_context :: bool
  to_timeout :: duration
  to_mcp_server :: string
  to_schema_hash :: string
  to_updated_at :: time

definition AccessTool :: "tool_record \<Rightarrow> tool" where
  "AccessTool t = (if to_mcp_server t = [] then BuiltIn (to_name t) else FromMCP (to_mcp_server t) (to_name t))"

record agent_entry =
  a_id :: string
  a_name :: string
  a_mention :: string
  a_description :: string
  a_skills :: "string list"
  a_tools :: "string list"
  a_llm_on_machine :: string

text \<open>What a tool's description is made of: the text it is published with, or the name and the role of
  the agent it delegates to.\<close>

datatype description = PublishedText string | DelegateTo string string

record tool_definition =
  td_name :: string
  td_description :: description
  td_schema :: raw_json

record resolution =
  rs_kind :: string
  rs_workflow :: string
  rs_task_queue :: string
  rs_background :: bool
  rs_agent :: string
  rs_private :: bool
  rs_needs_context :: bool
  rs_timeout :: duration

record list_tools_output =
  lt_tools :: "tool_definition list"
  lt_resolutions :: "string \<rightharpoonup> resolution"
  lt_refused :: string
  lt_closed :: "string list"

record label =
  lb_name :: string
  lb_mention :: string

record catalog =
  c_agents :: "agent_entry list"
  c_tools :: "tool_record list"
  c_access :: snapshot
  c_access_loaded :: bool
  c_agents_loaded :: bool

subsection \<open>The background field\<close>

definition BackgroundField :: string where "BackgroundField = ''background''"

definition ToolKindWorkflow :: string where "ToolKindWorkflow = ''workflow''"

text \<open>The struct's map: each member named \<open>properties\<close> adds its members to it, \<open>null\<close> empties it, and
  anything else is an error (\<open>None\<close>).\<close>

fun read_properties :: "(string \<times> jval) list \<Rightarrow> string list \<Rightarrow> string list option" where
  "read_properties [] ps = Some ps"
| "read_properties ((k, v) # ms) ps =
     (if folds_to ''properties'' k
      then (case v of JVObj qs \<Rightarrow> read_properties ms (ps @ map fst qs)
            | JVNull \<Rightarrow> read_properties ms []
            | _ \<Rightarrow> None)
      else read_properties ms ps)"

definition hasProperty :: "raw_json \<Rightarrow> string \<Rightarrow> bool" where
  "hasProperty schema name =
     (case schema of Some (JVObj ms) \<Rightarrow>
        (case read_properties ms [] of None \<Rightarrow> False | Some ps \<Rightarrow> name \<in> set ps)
      | _ \<Rightarrow> False)"

definition Backgroundable :: "string \<Rightarrow> bool \<Rightarrow> raw_json \<Rightarrow> bool" where
  "Backgroundable kind private schema =
     (kind = ToolKindWorkflow \<and> \<not> private \<and> \<not> hasProperty schema BackgroundField)"

definition background_field :: jval where
  "background_field = JVObj
     [(''description'', JVStr (''Run this call in the background: it starts, you get its task ID at once and your turn goes on, ''
         @ ''and when it ends a message brings you its result in a new turn. Use it for long work when the user may have something ''
         @ ''else to ask you meanwhile, or when they ask for it. Leave it out to wait for the result, the default.'')),
      (''type'', JVStr ''boolean'')]"

definition WithBackgroundField :: "raw_json \<Rightarrow> raw_json" where
  "WithBackgroundField schema =
     (case schema of Some (JVObj ms) \<Rightarrow>
        (case (case map_of (to_map ms) ''properties'' of
                 Some (JVObj ps) \<Rightarrow> Some (to_map ps)
               | Some _ \<Rightarrow> None
               | None \<Rightarrow> Some []) of
           None \<Rightarrow> schema
         | Some props \<Rightarrow>
             Some (JVObj (map_set ''properties'' (JVObj (map_set BackgroundField background_field props)) (to_map ms))))
      | _ \<Rightarrow> schema)"

subsection \<open>Reading and replacing the catalog\<close>

definition NewCatalog :: catalog where
  "NewCatalog = \<lparr>c_agents = [], c_tools = [], c_access = \<lparr>sn_rules = [], sn_users = Map.empty\<rparr>,
     c_access_loaded = False, c_agents_loaded = False\<rparr>"

definition SetAgents :: "catalog \<Rightarrow> agent_entry list \<Rightarrow> catalog" where
  "SetAgents c agents = c\<lparr>c_agents := agents, c_agents_loaded := True\<rparr>"

definition SetTools :: "catalog \<Rightarrow> tool_record list \<Rightarrow> catalog" where
  "SetTools c tools = c\<lparr>c_tools := sort_key to_name tools\<rparr>"

definition SetAccess :: "catalog \<Rightarrow> snapshot \<Rightarrow> catalog" where
  "SetAccess c s = c\<lparr>c_access := s, c_access_loaded := True\<rparr>"

definition Ready :: "catalog \<Rightarrow> bool" where
  "Ready c = (c_agents_loaded c \<and> c_access_loaded c)"

datatype catalog_error = CatalogNotReady | UnknownAgent string

definition CheckAgent :: "catalog \<Rightarrow> string \<Rightarrow> catalog_error option" where
  "CheckAgent c agentID =
     (if \<not> Ready c then Some CatalogNotReady
      else if list_ex (\<lambda>a. a_id a = agentID) (c_agents c) then None
      else Some (UnknownAgent agentID))"

subsection \<open>The tools of an agent\<close>

definition AgentToolName :: "string \<Rightarrow> string" where
  "AgentToolName agentID = AgentToolPrefix @ agentID"

definition AgentToolSchema :: raw_json where
  "AgentToolSchema = Some (JVObj [(''type'', JVStr ''object''),
     (''properties'', JVObj
        [(''task'', JVObj [(''type'', JVStr ''string''),
            (''description'', JVStr ''The task for the agent, with all the context it needs: it does not see this conversation.'')]),
         (''model'', JVObj [(''type'', JVStr ''string''),
            (''description'', JVStr ''Optional model override for the agent. Defaults to yours.'')])]),
     (''required'', JVArr [JVStr ''task''])])"

definition publishedDefinition :: "tool_record \<Rightarrow> tool_definition" where
  "publishedDefinition t =
     \<lparr>td_name = to_name t, td_description = PublishedText (to_description t), td_schema = to_schema t\<rparr>"

definition agentDefinition :: "agent_entry \<Rightarrow> tool_definition" where
  "agentDefinition a =
     \<lparr>td_name = AgentToolName (a_id a), td_description = DelegateTo (a_name a) (a_description a),
      td_schema = AgentToolSchema\<rparr>"

definition tool_resolution :: "tool_record \<Rightarrow> resolution" where
  "tool_resolution t =
     \<lparr>rs_kind = to_kind t, rs_workflow = to_workflow t, rs_task_queue = to_task_queue t,
      rs_background = Backgroundable (to_kind t) (to_private t) (to_schema t), rs_agent = [],
      rs_private = to_private t, rs_needs_context = to_needs_context t, rs_timeout = to_timeout t\<rparr>"

definition agent_resolution :: "string \<Rightarrow> resolution" where
  "agent_resolution agentID =
     \<lparr>rs_kind = ToolKindWorkflow, rs_workflow = [], rs_task_queue = [], rs_background = True, rs_agent = agentID,
      rs_private = False, rs_needs_context = False, rs_timeout = 0\<rparr>"

text \<open>The state of the two loops of \<open>allowedTools\<close>: the definitions, the resolutions and the references.\<close>

type_synonym listing = "tool_definition list \<times> (string \<rightharpoonup> resolution) \<times> (string \<rightharpoonup> tool)"

fun list_published :: "string list \<Rightarrow> tool_record list \<Rightarrow> listing \<Rightarrow> listing" where
  "list_published allowlist [] st = st"
| "list_published allowlist (t # ts) (defs, rs, refs) =
     (if has_prefix AgentToolPrefix (to_name t) then list_published allowlist ts (defs, rs, refs)
      else if \<not> MatchAny allowlist (to_name t) then list_published allowlist ts (defs, rs, refs)
      else list_published allowlist ts
             (defs @ [publishedDefinition t], rs(to_name t \<mapsto> tool_resolution t), refs(to_name t \<mapsto> AccessTool t)))"

fun list_agents :: "string \<Rightarrow> string list \<Rightarrow> agent_entry list \<Rightarrow> listing \<Rightarrow> listing" where
  "list_agents agentID allowlist [] st = st"
| "list_agents agentID allowlist (a # as) (defs, rs, refs) =
     (let name = AgentToolName (a_id a) in
      if a_id a = agentID \<or> \<not> MatchAny allowlist name then list_agents agentID allowlist as (defs, rs, refs)
      else list_agents agentID allowlist as
             (defs @ [agentDefinition a], rs(name \<mapsto> agent_resolution (a_id a)), refs(name \<mapsto> Agent (a_id a))))"

definition allowlist_of :: "catalog \<Rightarrow> string \<Rightarrow> string list" where
  "allowlist_of c agentID = (case find (\<lambda>a. a_id a = agentID) (c_agents c) of Some a \<Rightarrow> a_tools a | None \<Rightarrow> [])"

definition allowedTools :: "catalog \<Rightarrow> string \<Rightarrow> list_tools_output \<times> (string \<rightharpoonup> tool)" where
  "allowedTools c agentID =
     (let allowlist = allowlist_of c agentID in
      case list_agents agentID allowlist (c_agents c)
             (list_published allowlist (c_tools c) ([], Map.empty, Map.empty)) of
        (defs, rs, refs) \<Rightarrow>
          (\<lparr>lt_tools = sort_key td_name defs, lt_resolutions = rs, lt_refused = [], lt_closed = []\<rparr>, refs))"

definition AllowedTools :: "catalog \<Rightarrow> string \<Rightarrow> list_tools_output" where
  "AllowedTools c agentID = fst (allowedTools c agentID)"

text \<open>A name with no reference reads the zero tool, as Go's map does.\<close>

definition ref_of :: "(string \<rightharpoonup> tool) \<Rightarrow> string \<Rightarrow> tool" where
  "ref_of refs name = (case refs name of Some t \<Rightarrow> t | None \<Rightarrow> BuiltIn [])"

fun keep_open :: "(string \<Rightarrow> bool) \<Rightarrow> tool_definition list \<Rightarrow> (string \<rightharpoonup> resolution)
    \<Rightarrow> tool_definition list \<times> (string \<rightharpoonup> resolution) \<times> string list" where
  "keep_open ok [] rs = ([], rs, [])"
| "keep_open ok (t # ts) rs =
     (if ok (td_name t) then (case keep_open ok ts rs of (kept, rs', closed) \<Rightarrow> (t # kept, rs', closed))
      else (case keep_open ok ts (rs(td_name t := None)) of (kept, rs', closed) \<Rightarrow> (kept, rs', td_name t # closed)))"

definition AllowedToolsFor :: "catalog \<Rightarrow> string \<Rightarrow> string \<Rightarrow> list_tools_output" where
  "AllowedToolsFor c agentID userID =
     (case allowedTools c agentID of (out, refs) \<Rightarrow>
        if \<not> SnapshotAllowed (c_access c) userID (Agent agentID)
        then \<lparr>lt_tools = [], lt_resolutions = Map.empty,
               lt_refused = ''agent '' @ agentID @ '' not open to '' @ (if userID = [] then ''a run without a user'' else userID),
               lt_closed = []\<rparr>
        else (case keep_open (\<lambda>name. SnapshotAllowed (c_access c) userID (ref_of refs name))
                     (lt_tools out) (lt_resolutions out) of
                (kept, rs, closed) \<Rightarrow> out\<lparr>lt_tools := kept, lt_resolutions := rs, lt_closed := closed\<rparr>))"

definition ListTools :: "catalog \<Rightarrow> string \<Rightarrow> string \<Rightarrow> (catalog_error, list_tools_output) result" where
  "ListTools c agentID userID =
     (case CheckAgent c agentID of Some e \<Rightarrow> Inl e | None \<Rightarrow> Inr (AllowedToolsFor c agentID userID))"

subsection \<open>Lookups\<close>

text \<open>\<open>sort.Search\<close>: the smallest index in \<open>[i, j)\<close> where \<open>f\<close> holds, \<open>j\<close> when there is none.\<close>

function search :: "nat \<Rightarrow> nat \<Rightarrow> (nat \<Rightarrow> bool) \<Rightarrow> nat" where
  "search i j f =
     (if i < j then let h = (i + j) div 2 in if f h then search i h f else search (h + 1) j f else i)"
  by pat_completeness auto
termination
  by (relation "measure (\<lambda>(i, j, f). j - i)") auto

declare search.simps [simp del]

definition find_tool :: "catalog \<Rightarrow> string \<Rightarrow> tool_record option" where
  "find_tool c name =
     (let i = search 0 (length (c_tools c)) (\<lambda>i. name \<le> to_name (c_tools c ! i)) in
      if i < length (c_tools c) \<and> to_name (c_tools c ! i) = name then Some (c_tools c ! i) else None)"

definition definition_of :: "catalog \<Rightarrow> string \<Rightarrow> (tool_definition \<times> bool) option" where
  "definition_of c name =
     (case cut_prefix AgentToolPrefix name of
        Some ident \<Rightarrow> map_option (\<lambda>a. (agentDefinition a, True)) (find (\<lambda>a. a_id a = ident) (c_agents c))
      | None \<Rightarrow>
          map_option (\<lambda>t. (publishedDefinition t, Backgroundable (to_kind t) (to_private t) (to_schema t)))
            (find_tool c name))"

fun ToolDefinitions :: "catalog \<Rightarrow> string list \<Rightarrow> bool \<Rightarrow> tool_definition list \<times> string list \<times> bool" where
  "ToolDefinitions c [] background = ([], [], False)"
| "ToolDefinitions c (name # names) background =
     (case ToolDefinitions c names background of (defs, missing, backgrounds) \<Rightarrow>
        (case definition_of c name of
           None \<Rightarrow> (defs, name # missing, backgrounds)
         | Some (def, eligible) \<Rightarrow>
             if background \<and> eligible
             then (def\<lparr>td_schema := WithBackgroundField (td_schema def)\<rparr> # defs, missing, True)
             else (def # defs, missing, backgrounds)))"

definition AgentLabels :: "catalog \<Rightarrow> (string \<rightharpoonup> label)" where
  "AgentLabels c = foldl (\<lambda>m a. m(a_id a \<mapsto> \<lparr>lb_name = cmp_or (a_name a) (a_id a), lb_mention = a_mention a\<rparr>))
     Map.empty (c_agents c)"

definition PrivateInput :: "catalog \<Rightarrow> string \<Rightarrow> bool" where
  "PrivateInput c name = (case find_tool c name of Some t \<Rightarrow> to_private t | None \<Rightarrow> False)"

subsection \<open>What the listing holds\<close>

text \<open>One entry per tool of the agent's list, in the order the loops make them.\<close>

type_synonym entry = "tool_definition \<times> resolution \<times> tool"

definition published_entry :: "tool_record \<Rightarrow> entry" where
  "published_entry t = (publishedDefinition t, tool_resolution t, AccessTool t)"

definition agent_entry_of :: "agent_entry \<Rightarrow> entry" where
  "agent_entry_of a = (agentDefinition a, agent_resolution (a_id a), Agent (a_id a))"

definition entries :: "catalog \<Rightarrow> string \<Rightarrow> entry list" where
  "entries c agentID = (let allowlist = allowlist_of c agentID in
     map published_entry
       (filter (\<lambda>t. \<not> has_prefix AgentToolPrefix (to_name t) \<and> MatchAny allowlist (to_name t)) (c_tools c))
     @ map agent_entry_of
       (filter (\<lambda>a. a_id a \<noteq> agentID \<and> MatchAny allowlist (AgentToolName (a_id a))) (c_agents c)))"

abbreviation entry_name :: "entry \<Rightarrow> string" where "entry_name e \<equiv> td_name (fst e)"
abbreviation entry_res :: "entry \<Rightarrow> resolution" where "entry_res e \<equiv> fst (snd e)"
abbreviation entry_ref :: "entry \<Rightarrow> tool" where "entry_ref e \<equiv> snd (snd e)"

definition add_entries :: "entry list \<Rightarrow> listing \<Rightarrow> listing" where
  "add_entries es st = (case st of (defs, rs, refs) \<Rightarrow>
     (defs @ map fst es,
      rs ++ map_of (rev (map (\<lambda>e. (entry_name e, entry_res e)) es)),
      refs ++ map_of (rev (map (\<lambda>e. (entry_name e, entry_ref e)) es))))"

lemma add_entries_Nil [simp]: "add_entries [] st = st"
  by (cases st) (simp add: add_entries_def)

lemma add_entries_Cons:
  "add_entries (e # es) (defs, rs, refs) =
     add_entries es (defs @ [fst e], rs(entry_name e \<mapsto> entry_res e), refs(entry_name e \<mapsto> entry_ref e))"
  by (simp add: add_entries_def map_add_def)
    (auto simp: fun_eq_iff split: option.splits)

lemma add_entries_append: "add_entries (xs @ ys) st = add_entries ys (add_entries xs st)"
  by (induction xs arbitrary: st) (auto simp: add_entries_Cons split: prod.splits)

lemma list_published_entries:
  "list_published al ts st =
     add_entries (map published_entry
       (filter (\<lambda>t. \<not> has_prefix AgentToolPrefix (to_name t) \<and> MatchAny al (to_name t)) ts)) st"
  by (induction al ts st rule: list_published.induct)
    (auto simp: add_entries_Cons published_entry_def publishedDefinition_def)

lemma list_agents_entries:
  "list_agents ag al as st =
     add_entries (map agent_entry_of
       (filter (\<lambda>a. a_id a \<noteq> ag \<and> MatchAny al (AgentToolName (a_id a))) as)) st"
  by (induction ag al as st rule: list_agents.induct)
    (auto simp: add_entries_Cons agent_entry_of_def agentDefinition_def Let_def)

lemma allowedTools_entries:
  "allowedTools c ag =
     (\<lparr>lt_tools = sort_key td_name (map fst (entries c ag)),
       lt_resolutions = map_of (rev (map (\<lambda>e. (entry_name e, entry_res e)) (entries c ag))),
       lt_refused = [], lt_closed = []\<rparr>,
      map_of (rev (map (\<lambda>e. (entry_name e, entry_ref e)) (entries c ag))))"
  by (simp add: allowedTools_def list_published_entries list_agents_entries entries_def Let_def
      flip: add_entries_append) (simp add: add_entries_def)

lemma entry_ref_name: "e \<in> set (entries c ag) \<Longrightarrow> t_name (entry_ref e) = entry_name e"
  by (auto simp: entries_def Let_def published_entry_def agent_entry_of_def AccessTool_def BuiltIn_def
      FromMCP_def Agent_def AgentToolName_def publishedDefinition_def agentDefinition_def)

definition names_distinct :: "catalog \<Rightarrow> bool" where
  "names_distinct c = (distinct (map to_name (c_tools c)) \<and> distinct (map a_id (c_agents c)))"

lemma distinct_entries:
  assumes "names_distinct c"
  shows "distinct (map entry_name (entries c ag))"
proof -
  let ?P = "filter (\<lambda>t. \<not> has_prefix AgentToolPrefix (to_name t) \<and> MatchAny (allowlist_of c ag) (to_name t)) (c_tools c)"
  let ?A = "filter (\<lambda>a. a_id a \<noteq> ag \<and> MatchAny (allowlist_of c ag) (AgentToolName (a_id a))) (c_agents c)"
  have names: "map entry_name (entries c ag) = map to_name ?P @ map (\<lambda>a. AgentToolName (a_id a)) ?A"
    by (simp add: entries_def Let_def published_entry_def agent_entry_of_def publishedDefinition_def agentDefinition_def)
  have "distinct (map to_name ?P)" using assms by (simp add: names_distinct_def distinct_map_filter)
  moreover have "distinct (map (\<lambda>a. AgentToolName (a_id a)) ?A)"
    using assms by (auto simp: names_distinct_def distinct_map inj_on_def AgentToolName_def)
  moreover have "set (map to_name ?P) \<inter> set (map (\<lambda>a. AgentToolName (a_id a)) ?A) = {}"
    by (auto simp: AgentToolName_def)
  ultimately show ?thesis unfolding names by simp
qed

lemma map_of_entries:
  assumes "names_distinct c" and "e \<in> set (entries c ag)"
  shows "map_of (rev (map (\<lambda>e. (entry_name e, f e)) (entries c ag))) (entry_name e) = Some (f e)"
proof -
  have "distinct (map fst (map (\<lambda>e. (entry_name e, f e)) (entries c ag)))"
    using distinct_entries [OF assms(1)] by (simp add: comp_def)
  then show ?thesis using assms(2) by (subst map_of_rev_distinct) (auto intro: map_of_is_SomeI)
qed

lemma keep_open_spec:
  "keep_open ok ts rs =
     (filter (\<lambda>t. ok (td_name t)) ts,
      (\<lambda>n. if n \<in> td_name ` set (filter (\<lambda>t. \<not> ok (td_name t)) ts) then None else rs n),
      map td_name (filter (\<lambda>t. \<not> ok (td_name t)) ts))"
proof (induction ts arbitrary: rs)
  case (Cons t ts)
  show ?case by (cases "ok (td_name t)") (auto simp: Cons.IH intro!: ext)
qed simp

lemma map_sort_key: "map f (sort_key f xs) = sort (map f xs)"
  by (rule properties_for_sort [symmetric]) simp_all

lemma entry_name_inj:
  "names_distinct c \<Longrightarrow> e \<in> set (entries c ag) \<Longrightarrow> e' \<in> set (entries c ag) \<Longrightarrow> entry_name e = entry_name e' \<Longrightarrow> e = e'"
  using distinct_entries [of c ag] by (auto simp: distinct_map inj_on_def)

lemma AllowedToolsFor_open:
  assumes "SnapshotAllowed (c_access c) u (Agent ag)" and "names_distinct c"
  defines "ok \<equiv> \<lambda>e. SnapshotAllowed (c_access c) u (entry_ref e)"
  shows "lt_tools (AllowedToolsFor c ag u) = sort_key td_name (map fst (filter ok (entries c ag)))"
    and "lt_closed (AllowedToolsFor c ag u) = sort (map entry_name (filter (\<lambda>e. \<not> ok e) (entries c ag)))"
    and "lt_resolutions (AllowedToolsFor c ag u) =
       map_of (map (\<lambda>e. (entry_name e, entry_res e)) (filter ok (entries c ag)))"
    and "lt_refused (AllowedToolsFor c ag u) = []"
proof -
  let ?E = "entries c ag"
  let ?refs = "map_of (rev (map (\<lambda>e. (entry_name e, entry_ref e)) ?E))"
  let ?ok = "\<lambda>n. SnapshotAllowed (c_access c) u (ref_of ?refs n)"
  have okE: "?ok (entry_name e) = ok e" if "e \<in> set ?E" for e
    using map_of_entries [OF assms(2) that, of entry_ref] by (simp add: ref_of_def ok_def)
  have kept: "filter (\<lambda>t. ?ok (td_name t)) (map fst ?E) = map fst (filter ok ?E)"
    using okE by (simp add: filter_map comp_def cong: filter_cong)
  have shut: "filter (\<lambda>t. \<not> ?ok (td_name t)) (map fst ?E) = map fst (filter (\<lambda>e. \<not> ok e) ?E)"
    using okE by (simp add: filter_map comp_def cong: filter_cong)
  note unf = AllowedToolsFor_def allowedTools_entries assms(1) keep_open_spec
  show "lt_tools (AllowedToolsFor c ag u) = sort_key td_name (map fst (filter ok ?E))"
    by (simp add: unf filter_sort kept)
  show "lt_closed (AllowedToolsFor c ag u) = sort (map entry_name (filter (\<lambda>e. \<not> ok e) ?E))"
    by (simp add: unf filter_sort shut map_sort_key) (simp add: comp_def)
  show "lt_refused (AllowedToolsFor c ag u) = []" by (simp add: unf)
  show "lt_resolutions (AllowedToolsFor c ag u) =
       map_of (map (\<lambda>e. (entry_name e, entry_res e)) (filter ok ?E))" (is "_ = map_of ?M")
  proof
    fix n
    have res: "lt_resolutions (AllowedToolsFor c ag u) n =
        (if n \<in> entry_name ` set (filter (\<lambda>e. \<not> ok e) ?E) then None
         else map_of (rev (map (\<lambda>e. (entry_name e, entry_res e)) ?E)) n)"
      by (simp add: unf filter_sort shut image_image del: set_filter)
    have dist: "distinct (map fst ?M)"
      using distinct_entries [OF assms(2), of ag] by (simp add: comp_def distinct_map_filter)
    show "lt_resolutions (AllowedToolsFor c ag u) n = map_of ?M n"
    proof (cases "n \<in> entry_name ` set ?E")
      case True
      then obtain e where e: "e \<in> set ?E" "n = entry_name e" by blast
      have sel: "n \<in> entry_name ` set (filter P ?E) \<longleftrightarrow> P e" for P
      proof
        assume "n \<in> entry_name ` set (filter P ?E)"
        then obtain e' where "e' \<in> set ?E" "P e'" "entry_name e = entry_name e'" using e(2) by auto
        with entry_name_inj [OF assms(2) e(1), of e'] show "P e" by blast
      qed (use e in auto)
      have shut_iff: "n \<in> entry_name ` set (filter (\<lambda>e. \<not> ok e) ?E) \<longleftrightarrow> \<not> ok e" by (rule sel)
      have open_iff: "n \<in> fst ` set ?M \<longleftrightarrow> ok e" using sel [of ok] by (simp add: image_image)
      show ?thesis
      proof (cases "ok e")
        case True
        with e dist have "map_of ?M n = Some (entry_res e)" by (intro map_of_is_SomeI) auto
        moreover have "map_of (rev (map (\<lambda>e. (entry_name e, entry_res e)) ?E)) n = Some (entry_res e)"
          using map_of_entries [OF assms(2) e(1)] e(2) by simp
        ultimately show ?thesis using True shut_iff unfolding res by presburger
      next
        case False
        then have "map_of ?M n = None" using open_iff by (simp only: map_of_eq_None_iff) simp
        with False show ?thesis unfolding res shut_iff by simp
      qed
    next
      case False
      then have "map_of ?M n = None" "map_of (rev (map (\<lambda>e. (entry_name e, entry_res e)) ?E)) n = None"
        by (auto simp: map_of_eq_None_iff image_image)
      then show ?thesis unfolding res by simp
    qed
  qed
qed

subsection \<open>The binary search\<close>

lemma search_spec:
  assumes "\<forall>a b. a \<le> b \<and> b < n \<and> f a \<longrightarrow> f b" and "i \<le> j" and "j \<le> n"
  shows "i \<le> search i j f \<and> search i j f \<le> j
     \<and> (\<forall>m. i \<le> m \<and> m < search i j f \<longrightarrow> \<not> f m) \<and> (\<forall>m. search i j f \<le> m \<and> m < j \<longrightarrow> f m)"
  using assms
proof (induction i j f rule: search.induct)
  case (1 i j f)
  let ?h = "(i + j) div 2"
  consider (stop) "\<not> i < j" | (low) "i < j" "f ?h" | (high) "i < j" "\<not> f ?h" by blast
  then show ?case
  proof cases
    case stop
    then have "search i j f = i" by (simp add: search.simps [of i j])
    with stop "1.prems"(2) show ?thesis by auto
  next
    case low
    have eq: "search i j f = search i ?h f" using low by (simp add: search.simps [of i j] Let_def)
    have mono: "f m" if "?h \<le> m" "m < j" for m using "1.prems"(1,3) low that by (meson order.strict_trans2)
    have "i \<le> ?h" "?h \<le> n" using low "1.prems" by auto
    from 1(1) [OF low(1) refl low(2) "1.prems"(1) this] have
      IH: "i \<le> search i ?h f" "search i ?h f \<le> ?h" "\<And>m. i \<le> m \<Longrightarrow> m < search i ?h f \<Longrightarrow> \<not> f m"
      "\<And>m. search i ?h f \<le> m \<Longrightarrow> m < ?h \<Longrightarrow> f m" by blast+
    have "f m" if "search i ?h f \<le> m" "m < j" for m
      using IH(4) [of m] mono [of m] that by (cases "m < ?h") auto
    with IH low show ?thesis unfolding eq by auto
  next
    case high
    have eq: "search i j f = search (?h + 1) j f" using high by (simp add: search.simps [of i j] Let_def)
    have mono: "\<not> f m" if "m \<le> ?h" for m 
    proof
      have "?h < n" using high(1) "1.prems"(3) by linarith
      moreover assume "f m"
      ultimately have "f ?h" using "1.prems"(1) that by blast
      with high(2) show False ..
    qed
    have "?h + 1 \<le> j" using high by auto
    from 1(2) [OF high(1) refl high(2) "1.prems"(1) this "1.prems"(3)] have
      IH: "?h + 1 \<le> search (?h + 1) j f" "search (?h + 1) j f \<le> j"
      "\<And>m. ?h + 1 \<le> m \<Longrightarrow> m < search (?h + 1) j f \<Longrightarrow> \<not> f m"
      "\<And>m. search (?h + 1) j f \<le> m \<Longrightarrow> m < j \<Longrightarrow> f m" by blast+
    have "\<not> f m" if "m < search (?h + 1) j f" for m
      using IH(3) [of m] mono [of m] that by (cases "m \<le> ?h") auto
    moreover have "i \<le> search (?h + 1) j f" using IH(1) high(1) by linarith
    ultimately show ?thesis using IH(2,4) unfolding eq by blast
  qed
qed

lemma find_tool_linear:
  assumes "sorted (map to_name (c_tools c))" and "distinct (map to_name (c_tools c))"
  shows "find_tool c name = find (\<lambda>t. to_name t = name) (c_tools c)"
proof -
  let ?ts = "c_tools c" and ?f = "\<lambda>i. name \<le> to_name (c_tools c ! i)"
  define k where "k = search 0 (length ?ts) ?f"
  have mono: "\<forall>a b. a \<le> b \<and> b < length ?ts \<and> ?f a \<longrightarrow> ?f b"
  proof (intro allI impI)
    fix a b assume a: "a \<le> b \<and> b < length ?ts \<and> ?f a"
    then have "to_name (?ts ! a) \<le> to_name (?ts ! b)" using sorted_nth_mono [OF assms(1), of a b] by simp
    with a show "?f b" using order.trans by blast
  qed
  have k: "k \<le> length ?ts" "\<And>m. m < k \<Longrightarrow> \<not> ?f m" "\<And>m. k \<le> m \<Longrightarrow> m < length ?ts \<Longrightarrow> ?f m"
    using search_spec [OF mono, of 0 "length ?ts"] unfolding k_def by blast+
  show ?thesis
  proof (cases "find (\<lambda>t. to_name t = name) ?ts")
    case None
    then have "\<not> (k < length ?ts \<and> to_name (?ts ! k) = name)" by (auto simp: find_None_iff)
    with None show ?thesis by (auto simp: find_tool_def k_def [symmetric])
  next
    case (Some t)
    then obtain i where i: "i < length ?ts" "to_name (?ts ! i) = name" "t = ?ts ! i"
      by (auto simp: find_Some_iff)
    have "k \<le> i" using k(2) [of i] i(2) by (cases "i < k") auto
    moreover have "\<not> k < i"
    proof
      assume "k < i"
      then have "to_name (?ts ! k) \<le> name"
        using sorted_nth_mono [OF assms(1), of k i] i by simp
      moreover have "name \<le> to_name (?ts ! k)" using k(3) [of k] \<open>k < i\<close> i(1) by simp
      ultimately have "map to_name ?ts ! k = map to_name ?ts ! i" using \<open>k < i\<close> i by simp
      with nth_eq_iff_index_eq [OF assms(2), of k i] \<open>k < i\<close> i(1) show False by simp
    qed
    ultimately have "k = i" by simp
    with i Some show ?thesis by (simp add: find_tool_def k_def [symmetric])
  qed
qed

lemma find_unique:
  "distinct (map f xs) \<Longrightarrow> x \<in> set xs \<Longrightarrow> find (\<lambda>y. f y = f x) xs = Some x"
  by (induction xs) auto

lemma definition_of_entry:
  assumes "names_distinct c" and "sorted (map to_name (c_tools c))" and "e \<in> set (entries c ag)"
  shows "\<exists>b :: bool. definition_of c (entry_name e) = Some (fst e, b)"
proof -
  from assms(3) consider
      (pub) t where "t \<in> set (c_tools c)" "\<not> has_prefix AgentToolPrefix (to_name t)" "e = published_entry t"
    | (ag) a where "a \<in> set (c_agents c)" "e = agent_entry_of a"
    by (auto simp: entries_def Let_def)
  then show ?thesis
  proof cases
    case pub
    then have "find_tool c (to_name t) = Some t" "cut_prefix AgentToolPrefix (to_name t) = None"
      using assms(1,2) find_unique [of to_name "c_tools c" t]
      by (simp_all add: find_tool_linear names_distinct_def has_prefix_def)
    with pub show ?thesis by (simp add: definition_of_def published_entry_def publishedDefinition_def)
  next
    case ag
    then have "find (\<lambda>y. a_id y = a_id a) (c_agents c) = Some a"
      using assms(1) find_unique [of a_id "c_agents c" a] by (simp add: names_distinct_def)
    then have "definition_of c (AgentToolName (a_id a)) = Some (agentDefinition a, True)"
      by (simp add: definition_of_def AgentToolName_def)
    with ag show ?thesis by (auto simp: agent_entry_of_def agentDefinition_def)
  qed
qed

lemma ToolDefinitions_known:
  assumes "\<forall>d \<in> set ds. \<exists>b. definition_of c (td_name d) = Some (d, b)"
  shows "fst (ToolDefinitions c (map td_name ds) False) = ds \<and> fst (snd (ToolDefinitions c (map td_name ds) False)) = []"
  using assms by (induction ds) (auto split: prod.splits)

subsection \<open>Properties\<close>

text \<open>what a turn of an agent is offered for a user, in a catalog whose names are distinct. When the
  agent is open to the user: of the tools its allowlist matches (the published ones, the prefix of the agents
  excepted, and the agents, itself excepted), exactly those the rules leave to the user, in the order of their
  names, each with a resolution and none for any other; those the rules close are named apart. When it is
  not: nothing, and a reason.\<close>

theorem tools_offered_exactly:
  assumes "names_distinct c"
  shows "(if SnapshotAllowed (c_access c) u (Agent ag)
    then lt_refused (AllowedToolsFor c ag u) = []
      \<and> td_name ` set (lt_tools (AllowedToolsFor c ag u)) =
          t_name ` {t \<in> entry_ref ` set (entries c ag). SnapshotAllowed (c_access c) u t}
      \<and> set (lt_closed (AllowedToolsFor c ag u)) =
          t_name ` {t \<in> entry_ref ` set (entries c ag). \<not> SnapshotAllowed (c_access c) u t}
      \<and> dom (lt_resolutions (AllowedToolsFor c ag u)) = td_name ` set (lt_tools (AllowedToolsFor c ag u))
      \<and> sorted (map td_name (lt_tools (AllowedToolsFor c ag u)))
      \<and> distinct (map td_name (lt_tools (AllowedToolsFor c ag u)))
    else lt_tools (AllowedToolsFor c ag u) = [] \<and> lt_resolutions (AllowedToolsFor c ag u) = Map.empty
      \<and> lt_refused (AllowedToolsFor c ag u) \<noteq> [])"
proof (cases "SnapshotAllowed (c_access c) u (Agent ag)")
  case True
  note out = AllowedToolsFor_open [OF True assms]
  have names: "entry_name ` {e \<in> set (entries c ag). P (entry_ref e)} = t_name ` {t \<in> entry_ref ` set (entries c ag). P t}" for P
  proof -
    have "{t \<in> entry_ref ` set (entries c ag). P t} = entry_ref ` {e \<in> set (entries c ag). P (entry_ref e)}" by auto
    moreover have "t_name ` entry_ref ` {e \<in> set (entries c ag). P (entry_ref e)} =
        entry_name ` {e \<in> set (entries c ag). P (entry_ref e)}"
      unfolding image_image by (rule image_cong [OF refl]) (metis (mono_tags) entry_ref_name mem_Collect_eq)
    ultimately show ?thesis by simp
  qed
  have "distinct (map entry_name (filter (\<lambda>e. SnapshotAllowed (c_access c) u (entry_ref e)) (entries c ag)))"
    using distinct_entries [OF assms] by (simp add: distinct_map_filter)
  then have "distinct (map td_name (lt_tools (AllowedToolsFor c ag u)))"
    by (simp add: out map_sort_key comp_def)
  with True names [of "SnapshotAllowed (c_access c) u"] names [of "\<lambda>t. \<not> SnapshotAllowed (c_access c) u t"]
  show ?thesis by (simp add: out dom_map_of_conv_image_fst image_image)
next
  case False
  then show ?thesis by (simp add: AllowedToolsFor_def allowedTools_entries)
qed

definition small_catalog :: catalog where
  "small_catalog = SetAccess (SetTools (SetAgents NewCatalog
       [\<lparr>a_id = ''jarvis'', a_name = ''Jarvis'', a_mention = ''jarvis'', a_description = [], a_skills = [],
         a_tools = [''crm_*''], a_llm_on_machine = []\<rparr>])
       [\<lparr>to_name = ''crm_list'', to_task_queue = ''q'', to_description = [], to_schema = None, to_kind = ''activity'',
         to_workflow = [], to_sensitive = False, to_private = False, to_needs_context = False, to_timeout = 0,
         to_mcp_server = [], to_schema_hash = [], to_updated_at = 0\<rparr>])
       \<lparr>sn_rules = [crm_rule], sn_users = [''alice'' \<mapsto> alice]\<rparr>"

lemmas small_catalog_defs = small_catalog_def SetAccess_def SetTools_def SetAgents_def NewCatalog_def

lemma small_catalog_names: "names_distinct small_catalog"
  by (simp add: small_catalog_defs names_distinct_def)

lemma jarvis_open: "SnapshotAllowed (c_access small_catalog) u (Agent ''jarvis'')"
proof -
  have "\<not> Matches crm_rule (Agent ''jarvis'')"
    using path_Match_prefix [of "''crm_''" "''agent_jarvis''"]
    by (simp add: Matches_pattern crm_rule_def Agent_def AgentToolPrefix_def plain_char_def)
  then show ?thesis
    by (auto simp: small_catalog_defs SnapshotAllowed_def SnapshotUser_def Allowed_iff alice_def)
qed

lemma jarvis_entries: "map entry_ref (entries small_catalog ''jarvis'') = [BuiltIn ''crm_list'']"
proof -
  have "MatchAny [''crm_*''] ''crm_list''"
    using path_Match_prefix [of "''crm_''" "''crm_list''"] by (simp add: MatchAny_def plain_char_def)
  then show ?thesis
    by (simp add: entries_def small_catalog_defs allowlist_of_def has_prefix_def AgentToolPrefix_def
        published_entry_def AccessTool_def)
qed

theorem tools_offered_exactly_witness:
  "td_name ` set (lt_tools (AllowedToolsFor small_catalog ''jarvis'' ''alice'')) = {''crm_list''}
   \<and> set (lt_closed (AllowedToolsFor small_catalog ''jarvis'' [])) = {''crm_list''}"
proof -
  have refs: "entry_ref ` set (entries small_catalog ''jarvis'') = {BuiltIn ''crm_list''}"
    using arg_cong [OF jarvis_entries, of set] by simp
  have open_alice: "SnapshotAllowed (c_access small_catalog) ''alice'' (BuiltIn ''crm_list'')"
    by (simp add: small_catalog_defs SnapshotAllowed_def SnapshotUser_def Allowed_iff alice_def Holds_iff crm_rule_def)
  have shut_nobody: "\<not> SnapshotAllowed (c_access small_catalog) [] (BuiltIn ''crm_list'')"
    using crm_targets [of "''crm_list''"]
    by (simp add: small_catalog_defs SnapshotAllowed_def SnapshotUser_def Allowed_iff)
  have sel: "{t. t = BuiltIn ''crm_list'' \<and> P t} = (if P (BuiltIn ''crm_list'') then {BuiltIn ''crm_list''} else {})" for P
    by auto
  show ?thesis
    using tools_offered_exactly [OF small_catalog_names, of "''alice''" "''jarvis''"]
      tools_offered_exactly [OF small_catalog_names, of "[]" "''jarvis''"]
    by (simp add: jarvis_open refs open_alice shut_nobody sel) (simp add: BuiltIn_def)
qed

text \<open>the model is offered exactly what the turn may dispatch: the tools listed for a turn, looked up
  again by their names in the catalog (the binary search for the published ones), are all found, as they were
  listed.\<close>

theorem definitions_found_again:
  assumes "names_distinct c" and "sorted (map to_name (c_tools c))"
  shows "fst (ToolDefinitions c (map td_name (lt_tools (AllowedToolsFor c ag u))) False)
       = lt_tools (AllowedToolsFor c ag u)
    \<and> fst (snd (ToolDefinitions c (map td_name (lt_tools (AllowedToolsFor c ag u))) False)) = []"
proof (rule ToolDefinitions_known)
  show "\<forall>d \<in> set (lt_tools (AllowedToolsFor c ag u)). \<exists>b. definition_of c (td_name d) = Some (d, b)"
  proof (cases "SnapshotAllowed (c_access c) u (Agent ag)")
    case True
    then show ?thesis using definition_of_entry [OF assms] by (auto simp: AllowedToolsFor_open assms(1))
  next
    case False
    then show ?thesis by (simp add: AllowedToolsFor_def allowedTools_entries)
  qed
qed

theorem definitions_found_again_witness:
  "fst (snd (ToolDefinitions small_catalog (map td_name (lt_tools (AllowedToolsFor small_catalog ''jarvis'' ''alice''))) False)) = []"
  using definitions_found_again [OF small_catalog_names, of "''jarvis''" "''alice''"]
  by (simp add: small_catalog_defs)

text \<open>the lookup by name is exact: after \<open>SetTools\<close>, whatever the order the tools were read in, the
  binary search finds the tool of a name when there is one, and none otherwise.\<close>

theorem lookup_finds_published:
  assumes "distinct (map to_name tools)"
  shows "find_tool (SetTools c tools) name = find (\<lambda>t. to_name t = name) tools
    \<and> PrivateInput (SetTools c tools) name = (\<exists>t \<in> set tools. to_name t = name \<and> to_private t)"
proof -
  have sorted: "sorted (map to_name (c_tools (SetTools c tools)))" "distinct (map to_name (c_tools (SetTools c tools)))"
    using assms by (simp_all add: SetTools_def map_sort_key)
  have "find (\<lambda>t. to_name t = name) (sort_key to_name tools) = find (\<lambda>t. to_name t = name) tools"
  proof (cases "find (\<lambda>t. to_name t = name) tools")
    case None
    then have "find (\<lambda>t. to_name t = name) (sort_key to_name tools) = None" by (simp add: find_None_iff)
    with None show ?thesis by simp
  next
    case (Some t)
    then have t: "t \<in> set tools" "to_name t = name" by (auto simp: find_Some_iff)
    then have "find (\<lambda>y. to_name y = to_name t) (sort_key to_name tools) = Some t"
      using assms by (intro find_unique) (simp_all add: map_sort_key)
    with t Some show ?thesis by simp
  qed
  then have eq: "find_tool (SetTools c tools) name = find (\<lambda>t. to_name t = name) tools"
    using find_tool_linear [OF sorted] by (simp add: SetTools_def)
  moreover have "(case find (\<lambda>t. to_name t = name) tools of Some t \<Rightarrow> to_private t | None \<Rightarrow> False)
      = (\<exists>t \<in> set tools. to_name t = name \<and> to_private t)"
    using assms by (induction tools) (auto split: option.splits simp: find_None_iff image_iff)
  ultimately show ?thesis by (simp add: PrivateInput_def)
qed

theorem lookup_finds_published_witness:
  "find_tool (SetTools NewCatalog (c_tools small_catalog)) ''crm_list'' \<noteq> None"
  using lookup_finds_published [of "c_tools small_catalog" NewCatalog "''crm_list''"]
  by (simp add: small_catalog_defs)

end
