(* ===== verification/Throttle.thy ===== *)
theory Throttle
  imports Prelude
begin

section \<open>Login limits\<close>

text \<open>
  \<open>auth/throttle.go\<close>: failures counted per key in a window, the limits of a login, and the address a
  request comes from. The clock is an argument: an operation holds the lock and reads one instant. The
  account's key is an argument \<open>account_key\<close> (\<open>strings.ToLower\<close> of \<open>strings.TrimSpace\<close>: Unicode
  tables), as are the parsing of an address (\<open>netip.ParseAddr\<close>, \<open>Unmap\<close>), the test that a prefix
  contains it and \<open>strings.TrimSpace\<close>: the theorems hold whatever they are. \<open>None\<close> is a nil throttle.
\<close>

record failure_count =
  f_n :: int
  f_since :: time

record throttle =
  th_limit :: int
  th_window :: duration
  th_failures :: "string \<rightharpoonup> failure_count"

definition maxTrackedKeys :: nat where "maxTrackedKeys = 10000"

definition NewThrottle :: "int \<Rightarrow> duration \<Rightarrow> throttle" where
  "NewThrottle limit window = \<lparr>th_limit = limit, th_window = window, th_failures = Map.empty\<rparr>"

text \<open>\<open>current\<close>: the key's open window, a closed one dropped.\<close>

definition window_closed :: "throttle \<Rightarrow> time \<Rightarrow> failure_count \<Rightarrow> bool" where
  "window_closed t now f = (th_window t \<le> now - f_since f)"

definition current :: "throttle \<Rightarrow> time \<Rightarrow> string \<Rightarrow> throttle \<times> failure_count option" where
  "current t now key =
     (case th_failures t key of None \<Rightarrow> (t, None)
      | Some f \<Rightarrow> if window_closed t now f then (t\<lparr>th_failures := (th_failures t)(key := None)\<rparr>, None) else (t, Some f))"

definition BlockedThrottle :: "throttle \<Rightarrow> time \<Rightarrow> string \<Rightarrow> throttle \<times> bool" where
  "BlockedThrottle t now key =
     (case current t now key of (t', f) \<Rightarrow> (t', case f of None \<Rightarrow> False | Some f \<Rightarrow> th_limit t \<le> f_n f))"

text \<open>The sweep calls \<open>current\<close> on every key: the closed windows go.\<close>

definition sweep :: "throttle \<Rightarrow> time \<Rightarrow> throttle" where
  "sweep t now = t\<lparr>th_failures := (\<lambda>k. case th_failures t k of None \<Rightarrow> None
                                       | Some f \<Rightarrow> if window_closed t now f then None else Some f)\<rparr>"

definition FailThrottle :: "throttle \<Rightarrow> time \<Rightarrow> string \<Rightarrow> throttle" where
  "FailThrottle t now key =
     (let t1 = (if maxTrackedKeys \<le> card (dom (th_failures t)) then sweep t now else t) in
      case current t1 now key of (t2, f) \<Rightarrow>
        let f = (case f of None \<Rightarrow> \<lparr>f_n = 0, f_since = now\<rparr> | Some f \<Rightarrow> f) in
        t2\<lparr>th_failures := (th_failures t2)(key \<mapsto> f\<lparr>f_n := f_n f + 1\<rparr>)\<rparr>)"

definition ResetThrottle :: "throttle \<Rightarrow> string \<Rightarrow> throttle" where
  "ResetThrottle t key = t\<lparr>th_failures := (th_failures t)(key := None)\<rparr>"

subsection \<open>LoginLimits\<close>

record login_limits =
  l_per_client :: "throttle option"
  l_per_account :: "throttle option"

definition minute :: duration where "minute = 60 * 1000000000"

definition DefaultLoginLimits :: "bool \<Rightarrow> login_limits" where
  "DefaultLoginLimits known =
     \<lparr>l_per_client = (if known then Some (NewThrottle 20 (15 * minute)) else None),
      l_per_account = Some (NewThrottle 10 (15 * minute))\<rparr>"

definition nil_Blocked :: "throttle option \<Rightarrow> time \<Rightarrow> string \<Rightarrow> throttle option \<times> bool" where
  "nil_Blocked t now key =
     (case t of None \<Rightarrow> (None, False) | Some t \<Rightarrow> (case BlockedThrottle t now key of (t', b) \<Rightarrow> (Some t', b)))"

text \<open>The account is not looked at once the address is refused (\<open>||\<close>).\<close>

definition LimitsBlocked :: "(string \<Rightarrow> string) \<Rightarrow> login_limits \<Rightarrow> time \<Rightarrow> string \<Rightarrow> string \<Rightarrow> login_limits \<times> bool" where
  "LimitsBlocked account_key l now client email =
     (case (if client \<noteq> [] then nil_Blocked (l_per_client l) now client else (l_per_client l, False)) of
        (pc, True) \<Rightarrow> (l\<lparr>l_per_client := pc\<rparr>, True)
      | (pc, False) \<Rightarrow>
          (case nil_Blocked (l_per_account l) now (account_key email) of (pa, b) \<Rightarrow>
             (l\<lparr>l_per_client := pc, l_per_account := pa\<rparr>, b)))"

definition LimitsFail :: "(string \<Rightarrow> string) \<Rightarrow> login_limits \<Rightarrow> time \<Rightarrow> string \<Rightarrow> string \<Rightarrow> login_limits" where
  "LimitsFail account_key l now client email =
     \<lparr>l_per_client = (if client \<noteq> [] then map_option (\<lambda>t. FailThrottle t now client) (l_per_client l) else l_per_client l),
      l_per_account = map_option (\<lambda>t. FailThrottle t now (account_key email)) (l_per_account l)\<rparr>"

definition LimitsSucceed :: "(string \<Rightarrow> string) \<Rightarrow> login_limits \<Rightarrow> string \<Rightarrow> login_limits" where
  "LimitsSucceed account_key l email =
     l\<lparr>l_per_account := map_option (\<lambda>t. ResetThrottle t (account_key email)) (l_per_account l)\<rparr>"

subsection \<open>ClientAddrs\<close>

record 'prefix client_addrs =
  ca_direct :: bool
  ca_proxies :: "'prefix list"

definition Known :: "'prefix client_addrs \<Rightarrow> bool" where
  "Known c = (ca_direct c \<or> 0 < length (ca_proxies c))"

definition trusted :: "(string \<Rightarrow> 'addr option) \<Rightarrow> ('prefix \<Rightarrow> 'addr \<Rightarrow> bool) \<Rightarrow> 'prefix client_addrs \<Rightarrow> string \<Rightarrow> bool" where
  "trusted parse_addr contains c addr =
     (case parse_addr addr of None \<Rightarrow> False | Some a \<Rightarrow> list_ex (\<lambda>p. contains p a) (ca_proxies c))"

text \<open>\<open>strings.Split\<close> at a comma.\<close>

fun split_comma :: "string \<Rightarrow> string list" where
  "split_comma [] = [[]]"
| "split_comma (c # cs) =
     (if c = CHR '','' then [] # split_comma cs
      else case split_comma cs of [] \<Rightarrow> [[c]] | s # ss \<Rightarrow> (c # s) # ss)"

text \<open>The loop from the last hop to the first: the first that is no trusted proxy.\<close>

definition AddrOf :: "(string \<Rightarrow> string) \<Rightarrow> (string \<Rightarrow> 'addr option) \<Rightarrow> ('prefix \<Rightarrow> 'addr \<Rightarrow> bool)
    \<Rightarrow> 'prefix client_addrs \<Rightarrow> string \<Rightarrow> string list \<Rightarrow> string" where
  "AddrOf trim parse_addr contains c peer forwarded =
     (if \<not> trusted parse_addr contains c peer then peer
      else let hops = concat (map split_comma forwarded) in
        case find (\<lambda>hop. hop \<noteq> [] \<and> \<not> trusted parse_addr contains c hop) (map trim (rev hops)) of
          Some hop \<Rightarrow> hop | None \<Rightarrow> [])"

subsection \<open>A throttle's life\<close>

datatype th_op = DoFail string | DoReset string | DoBlocked string

fun throttle_step :: "throttle \<Rightarrow> time \<times> th_op \<Rightarrow> throttle" where
  "throttle_step t (now, DoFail k) = FailThrottle t now k"
| "throttle_step t (now, DoReset k) = ResetThrottle t k"
| "throttle_step t (now, DoBlocked k) = fst (BlockedThrottle t now k)"

lemmas throttle_defs = FailThrottle_def ResetThrottle_def BlockedThrottle_def current_def sweep_def Let_def

lemma throttle_config [simp]:
  "th_limit (throttle_step t e) = th_limit t" "th_window (throttle_step t e) = th_window t"
  by (cases "(t, e)" rule: throttle_step.cases; auto simp: throttle_defs split: option.splits)+

lemma window_closed_step [simp]: "window_closed (throttle_step t e) = window_closed t"
  by (simp add: fun_eq_iff window_closed_def)

text \<open>An open window stays, and counts its failures.\<close>

lemma open_window_step:
  assumes "th_failures t k = Some f" and "now - f_since f < th_window t" and "op \<noteq> DoReset k"
  shows "th_failures (throttle_step t (now, op)) k =
     Some (f\<lparr>f_n := f_n f + (if op = DoFail k then 1 else 0)\<rparr>)"
proof -
  have "\<not> window_closed t now f" using assms(2) by (simp add: window_closed_def)
  with assms(1,3) show ?thesis
    by (cases op) (auto simp: throttle_defs window_closed_def split: option.splits)
qed

lemma open_window_run:
  assumes "th_failures t k = Some f"
    and "\<forall>(now, op) \<in> set ops. now - f_since f < th_window t \<and> op \<noteq> DoReset k"
  shows "th_failures (foldl throttle_step t ops) k =
     Some (f\<lparr>f_n := f_n f + int (length (filter (\<lambda>(now, op). op = DoFail k) ops))\<rparr>)"
  using assms
proof (induction ops arbitrary: t f)
  case (Cons e ops)
  obtain now op where e: "e = (now, op)" by fastforce
  let ?f = "f\<lparr>f_n := f_n f + (if op = DoFail k then 1 else 0)\<rparr>"
  have "th_failures (throttle_step t e) k = Some ?f"
    unfolding e using Cons.prems e by (intro open_window_step) auto
  moreover have "\<forall>(now, op) \<in> set ops. now - f_since ?f < th_window (throttle_step t e) \<and> op \<noteq> DoReset k"
    using Cons.prems by auto
  ultimately show ?case using Cons.IH [of "throttle_step t e" ?f] e by simp
qed simp

lemma config_run [simp]:
  "th_limit (foldl throttle_step t ops) = th_limit t" "th_window (foldl throttle_step t ops) = th_window t"
  by (induction ops arbitrary: t) auto

lemma Fail_opens:
  assumes "case th_failures t k of None \<Rightarrow> True | Some f \<Rightarrow> th_window t \<le> now - f_since f"
  shows "th_failures (FailThrottle t now k) k = Some \<lparr>f_n = 1, f_since = now\<rparr>"
  using assms by (auto simp: throttle_defs window_closed_def split: option.splits)

lemma Fail_config [simp]: "th_limit (FailThrottle t now k) = th_limit t" "th_window (FailThrottle t now k) = th_window t"
  using throttle_config [of t "(now, DoFail k)"] by simp_all

text \<open>The invariant: finitely many keys are tracked, each with a failure at least.\<close>

definition throttle_ok :: "throttle \<Rightarrow> bool" where
  "throttle_ok t \<longleftrightarrow> finite (dom (th_failures t)) \<and> (\<forall>k f. th_failures t k = Some f \<longrightarrow> 1 \<le> f_n f)"

definition drops :: "throttle \<Rightarrow> throttle \<Rightarrow> bool" where
  "drops t t' \<longleftrightarrow> (\<forall>k. th_failures t' k = None \<or> th_failures t' k = th_failures t k)"

lemma drops_ok: "drops t t' \<Longrightarrow> throttle_ok t \<Longrightarrow> throttle_ok t'"
proof -
  assume d: "drops t t'" and ok: "throttle_ok t"
  from d have "dom (th_failures t') \<subseteq> dom (th_failures t)"
    by (metis (mono_tags) domIff drops_def subsetI)
  with ok have "finite (dom (th_failures t'))" by (auto simp: throttle_ok_def intro: finite_subset)
  with d ok show ?thesis unfolding throttle_ok_def drops_def by (metis option.distinct(1))
qed

lemma drops_current: "drops t (fst (current t now k))"
  by (auto simp: drops_def current_def split: option.splits)

lemma drops_sweep: "drops t (sweep t now)"
  by (auto simp: drops_def sweep_def split: option.splits)

lemma current_open: "throttle_ok t \<Longrightarrow> snd (current t now k) = Some f \<Longrightarrow> 1 \<le> f_n f"
  by (auto simp: throttle_ok_def current_def split: option.splits if_splits)

lemma Fail_ok:
  assumes "throttle_ok t"
  shows "throttle_ok (FailThrottle t now k)"
proof -
  let ?t1 = "if maxTrackedKeys \<le> card (dom (th_failures t)) then sweep t now else t"
  have t1: "throttle_ok ?t1" using assms drops_ok [OF drops_sweep] by simp
  obtain t2 f where c: "current ?t1 now k = (t2, f)" by fastforce
  have t2: "throttle_ok t2" using drops_ok [OF drops_current t1, of now k] c by simp
  have "case f of None \<Rightarrow> True | Some f \<Rightarrow> 1 \<le> f_n f" using current_open [OF t1, of now k] c by (simp split: option.splits)
  then have "1 \<le> f_n (case f of None \<Rightarrow> \<lparr>f_n = 0, f_since = now\<rparr> | Some f \<Rightarrow> f) + 1" by (simp split: option.splits)
  with t2 c show ?thesis by (simp add: FailThrottle_def Let_def throttle_ok_def)
qed

interpretation th_ops: machine throttle_step throttle_ok
proof unfold_locales
  fix t :: throttle and e :: "time \<times> th_op"
  assume ok: "throttle_ok t"
  obtain now op where e: "e = (now, op)" by fastforce
  show "throttle_ok (throttle_step t e)"
  proof (cases op)
    case (DoFail k)
    with ok e Fail_ok show ?thesis by simp
  next
    case (DoReset k)
    have "drops t (ResetThrottle t k)" by (auto simp: drops_def ResetThrottle_def)
    with DoReset e drops_ok ok show ?thesis by simp
  next
    case (DoBlocked k)
    with e drops_ok [OF drops_current ok, of now k] show ?thesis
      by (cases "current t now k") (simp add: BlockedThrottle_def)
  qed
qed

lemma other_keys_step:
  assumes "op \<noteq> DoFail k"
  shows "th_failures (throttle_step t (now, op)) k = None
     \<or> th_failures (throttle_step t (now, op)) k = th_failures t k"
  using assms by (cases op) (auto simp: throttle_defs split: option.splits)

lemma other_keys_run:
  assumes "\<forall>(now, op) \<in> set ops. op \<noteq> DoFail k"
  shows "th_failures (foldl throttle_step t ops) k = None
     \<or> th_failures (foldl throttle_step t ops) k = th_failures t k"
  using assms
proof (induction ops arbitrary: t)
  case (Cons e ops)
  obtain now op where e: "e = (now, op)" by fastforce
  have "op \<noteq> DoFail k" using Cons.prems e by simp
  from other_keys_step [OF this, of t now] Cons.IH [of "throttle_step t e"] Cons.prems e show ?case by auto
qed simp

subsection \<open>Properties\<close>

text \<open>a key's failures are counted in a window of its own. From a first failure at \<open>t0\<close> (no window of
  the key open), through any operations on any keys before the window closes, sweeps included, as long as the
  key is not reset: the key is refused exactly when its failures, the first included, reach the limit; and it is
  no longer refused once the window is over, whatever was counted.\<close>

theorem throttle_counts_failures:
  assumes "case th_failures t k of None \<Rightarrow> True | Some f \<Rightarrow> th_window t \<le> t0 - f_since f"
    and "\<forall>(now, op) \<in> set ops. t0 \<le> now \<and> now < t0 + th_window t \<and> op \<noteq> DoReset k"
  shows "(now < t0 + th_window t \<longrightarrow>
           snd (BlockedThrottle (foldl throttle_step (FailThrottle t t0 k) ops) now k)
             = (th_limit t \<le> 1 + int (length (filter (\<lambda>(now, op). op = DoFail k) ops))))
    \<and> (t0 + th_window t \<le> now \<longrightarrow>
         \<not> snd (BlockedThrottle (foldl throttle_step (FailThrottle t t0 k) ops) now k))"
proof -
  let ?t = "foldl throttle_step (FailThrottle t t0 k) ops"
  have "th_failures ?t k = Some \<lparr>f_n = 1 + int (length (filter (\<lambda>(now, op). op = DoFail k) ops)), f_since = t0\<rparr>"
    using open_window_run [OF Fail_opens [OF assms(1)], of ops] assms(2) by fastforce
  then show ?thesis by (simp add: BlockedThrottle_def current_def window_closed_def)
qed

theorem throttle_counts_failures_witness:
  "snd (BlockedThrottle (foldl throttle_step (FailThrottle (NewThrottle 2 100) 5 ''a'') [(6, DoFail ''a''), (7, DoFail ''b'')]) 50 ''a'')
   \<and> \<not> snd (BlockedThrottle (foldl throttle_step (FailThrottle (NewThrottle 2 100) 5 ''a'') [(6, DoFail ''a''), (7, DoFail ''b'')]) 105 ''a'')"
  using throttle_counts_failures [where t = "NewThrottle 2 100" and k = "''a''" and ?t0.0 = 5
      and ops = "[(6, DoFail ''a''), (7, DoFail ''b'')]" and now = 50]
    throttle_counts_failures [where t = "NewThrottle 2 100" and k = "''a''" and ?t0.0 = 5
      and ops = "[(6, DoFail ''a''), (7, DoFail ''b'')]" and now = 105]
  by (simp add: NewThrottle_def)

text \<open>one key's failures lock no other: from any state, whatever the other keys do, sweeps included,
  a key that has failed less than the limit is not refused; and after any life of the throttle, a key that is
  refused has failed at least once.\<close>

theorem throttle_keys_independent:
  assumes "\<forall>f. th_failures t k = Some f \<longrightarrow> f_n f < th_limit t"
    and "\<forall>(now, op) \<in> set ops. op \<noteq> DoFail k"
  shows "\<not> snd (BlockedThrottle (foldl throttle_step t ops) now k)
    \<and> throttle_ok (foldl throttle_step (NewThrottle limit window) ops)"
proof -
  have "throttle_ok (NewThrottle limit window)" by (simp add: throttle_ok_def NewThrottle_def)
  then have "throttle_ok (foldl throttle_step (NewThrottle limit window) ops)" by (rule th_ops.run_inv)
  with other_keys_run [OF assms(2), of t] assms(1) show ?thesis
    by (auto simp: BlockedThrottle_def current_def split: option.splits)
qed

theorem throttle_keys_independent_witness:
  "\<not> snd (BlockedThrottle (foldl throttle_step (NewThrottle 1 100) [(1, DoFail ''b''), (2, DoFail ''b'')]) 3 ''a'')"
  using throttle_keys_independent [where t = "NewThrottle 1 100" and k = "''a''"
      and ops = "[(1, DoFail ''b''), (2, DoFail ''b'')]" and now = 3]
  by (simp add: NewThrottle_def)

text \<open>C28: the address of a request cannot be chosen by its client. From a peer that is no trusted proxy it
  is the peer, whatever \<open>X-Forwarded-For\<close> says; from a trusted proxy it is the rightmost entry that is no
  trusted proxy, whatever the client wrote before it; and when every entry is one, no address at all.\<close>

theorem forwarded_for_not_spoofed:
  assumes "concat (map split_comma forwarded) = spoofed @ [hop] @ proxies"
    and "trim hop \<noteq> []" and "\<not> trusted parse_addr contains c (trim hop)"
    and "\<forall>p \<in> set proxies. trim p = [] \<or> trusted parse_addr contains c (trim p)"
  shows "AddrOf trim parse_addr contains c peer forwarded =
      (if trusted parse_addr contains c peer then trim hop else peer)"
proof -
  have "find (\<lambda>hop. hop \<noteq> [] \<and> \<not> trusted parse_addr contains c hop) (map trim (rev proxies)) = None"
    using assms(4) by (auto simp: find_None_iff)
  with assms(1-3) show ?thesis by (simp add: AddrOf_def find_append)
qed

theorem forwarded_for_not_spoofed_witness:
  "AddrOf (\<lambda>s. s) Some (=) \<lparr>ca_direct = False, ca_proxies = [''proxy'']\<rparr> ''proxy'' [''fake,real,proxy''] = ''real''"
  using forwarded_for_not_spoofed [where forwarded = "[''fake,real,proxy'']" and spoofed = "[''fake'']" and hop = "''real''"
      and proxies = "[''proxy'']" and trim = "\<lambda>s. s" and parse_addr = Some and contains = "(=)"
      and c = "\<lparr>ca_direct = False, ca_proxies = [''proxy'']\<rparr>" and peer = "''proxy''"]
  by (simp add: trusted_def)

end
