(* ===== verification/Protocol.thy ===== *)
theory Protocol
  imports Json
begin

section \<open>The machines' protocol: \<open>machine/protocol.go\<close>, \<open>machine/llm.go\<close>, \<open>machine/token.go\<close>\<close>

text \<open>
  What the gateway and the machines say to each other, and what the gateway takes of it: a message
  from a machine is checked and cut (\<open>CheckFromMachine\<close>), an answer of its model is refused unless a
  turn can carry it (\<open>CheckLLMOutput\<close>), a user code is read as its owner types it. A
  \<open>json.RawMessage\<close> the machine sends is modelled by its size and by what \<open>encoding/json\<close> gives of it
  for each type it is decoded into. The words of an error are left out, its cause is kept.
\<close>

subsection \<open>Messages\<close>

record wire_call =
  wc_id :: string
  wc_name :: string
  wc_input :: raw_json

record usage4 =
  u_in :: int
  u_out :: int
  u_cache_new :: int
  u_cache_read :: int

record llm_answer =
  an_content :: string
  an_calls :: "wire_call list"
  an_stop :: string
  an_model :: string
  an_usage :: "usage4 option"

record llm_failure =
  lf_type :: string
  lf_retry_ms :: int

text \<open>
  A result's output: its bytes, whether they are JSON (\<open>json.Valid\<close>), and what \<open>json.Unmarshal\<close> gives of
  them as a \<open>provider.ChatResponse\<close> and as an \<open>LLMFailure\<close> (\<open>None\<close> is its error).
\<close>

record raw_output =
  ro_len :: nat
  ro_valid :: bool
  ro_answer :: "llm_answer option"
  ro_failure :: "llm_failure option"

definition empty_output :: raw_output where
  "empty_output = \<lparr>ro_len = 0, ro_valid = False, ro_answer = None, ro_failure = None\<rparr>"

record wire =
  w_type :: string
  w_protocol :: int
  w_agent_version :: string
  w_os :: string
  w_caps :: "string list"
  w_max :: int
  w_running :: "string list"
  w_finished :: "string list"
  w_claude_code :: string
  w_max_llm :: int
  w_llm_provider :: string
  w_llm_model :: string
  w_llm :: string
  w_id :: string
  w_text :: string
  w_status :: string
  w_output :: raw_output
  w_error :: string
  w_code :: string

definition TypeHello :: string where "TypeHello = ''hello''"
definition TypeRotated :: string where "TypeRotated = ''rotated''"
definition TypeProgress :: string where "TypeProgress = ''progress''"
definition TypeResult :: string where "TypeResult = ''result''"
definition TypeCapabilities :: string where "TypeCapabilities = ''capabilities''"

definition StatusOK :: string where "StatusOK = ''ok''"
definition StatusError :: string where "StatusError = ''error''"
definition StatusCanceled :: string where "StatusCanceled = ''canceled''"
definition StatusStopping :: string where "StatusStopping = ''machine_stopping''"
definition StatusRefused :: string where "StatusRefused = ''refused''"

definition LLMStateOK :: string where "LLMStateOK = ''ok''"
definition LLMStateRefused :: string where "LLMStateRefused = ''refused''"

definition Protocol_version :: int where "Protocol_version = 5"
definition MinProtocol :: int where "MinProtocol = 5"

definition MaxMessageBytes :: nat where "MaxMessageBytes = 256 * 1024"
definition MaxReadBytes :: nat where "MaxReadBytes = 4 * 1024 * 1024"
definition MaxProgressBytes :: nat where "MaxProgressBytes = 1024"
definition MaxListedIDs :: nat where "MaxListedIDs = 64"
definition MaxCapabilities :: nat where "MaxCapabilities = 16"
definition MaxDirectives :: int where "MaxDirectives = 16"
definition MaxErrorBytes :: nat where "MaxErrorBytes = 4096"
definition MaxLLM :: int where "MaxLLM = 16"
definition MaxLLMOutputBytes :: nat where "MaxLLMOutputBytes = 1536 * 1024"
definition MaxLLMContentBytes :: nat where "MaxLLMContentBytes = 256 * 1024"
definition MaxLLMToolCalls :: nat where "MaxLLMToolCalls = 64"
definition MaxLLMModelBytes :: nat where "MaxLLMModelBytes = 128"

lemmas type_defs = TypeHello_def TypeRotated_def TypeProgress_def TypeResult_def TypeCapabilities_def
lemmas status_defs = StatusOK_def StatusError_def StatusCanceled_def StatusStopping_def StatusRefused_def
lemmas limit_defs = MaxMessageBytes_def MaxReadBytes_def MaxProgressBytes_def MaxListedIDs_def MaxCapabilities_def
  MaxDirectives_def MaxErrorBytes_def MaxLLM_def MaxLLMOutputBytes_def MaxLLMContentBytes_def MaxLLMToolCalls_def MaxLLMModelBytes_def

subsection \<open>Checking what a machine says\<close>

text \<open>\<open>Cut\<close>: every call gives it a limit that holds the mark.\<close>

definition Cut :: "string \<Rightarrow> nat \<Rightarrow> string" where
  "Cut s n = (if length s \<le> n then s else take (back_up s (n - length ellipsis)) s @ ellipsis)"

definition lower_or_digit :: "char \<Rightarrow> bool" where
  "lower_or_digit c = ((97 \<le> byte c \<and> byte c \<le> 122) \<or> is_digit c \<or> c = CHR ''-'')"

definition capabilityPattern :: "string \<Rightarrow> bool" where
  "capabilityPattern s = (1 \<le> length s \<and> length s \<le> 32 \<and> list_all lower_or_digit s)"

definition idPattern :: "string \<Rightarrow> bool" where
  "idPattern s = (1 \<le> length s \<and> length s \<le> 64 \<and> list_all (\<lambda>c. lower_or_digit c \<or> (65 \<le> byte c \<and> byte c \<le> 90)) s)"

datatype bad_message =
    NoProtocolVersion | BadMaxDirectives int | BadMaxLLM int | TooManyListed nat | BadDirectiveID string
  | TooManyCapabilities nat | BadCapability string | BadClaudeCode string | BadLLMState string
  | BadResultStatus string | OutputNotJSON | BadType string

definition checkStatus :: "wire \<Rightarrow> bad_message option" where
  "checkStatus m =
     (if MaxCapabilities < length (w_caps m) then Some (TooManyCapabilities (length (w_caps m)))
      else case find (\<lambda>c. \<not> capabilityPattern c) (w_caps m) of
        Some c \<Rightarrow> Some (BadCapability c)
      | None \<Rightarrow>
          if w_claude_code m \<notin> {'''', ''ok'', ''logged_out'', ''absent''} then Some (BadClaudeCode (w_claude_code m))
          else if w_llm m \<notin> {'''', LLMStateOK, LLMStateRefused} then Some (BadLLMState (w_llm m))
          else None)"

definition CheckFromMachine :: "wire \<Rightarrow> (bad_message, wire) result" where
  "CheckFromMachine m =
     (if w_type m = TypeHello then
        if w_protocol m \<le> 0 then Inl NoProtocolVersion
        else if w_max m < 1 \<or> MaxDirectives < w_max m then Inl (BadMaxDirectives (w_max m))
        else if w_max_llm m < 0 \<or> MaxLLM < w_max_llm m then Inl (BadMaxLLM (w_max_llm m))
        else if MaxListedIDs < length (w_running m) + length (w_finished m)
          then Inl (TooManyListed (length (w_running m) + length (w_finished m)))
        else case find (\<lambda>i. \<not> idPattern i) (w_running m @ w_finished m) of
            Some i \<Rightarrow> Inl (BadDirectiveID i)
          | None \<Rightarrow>
              let m' = m\<lparr>w_os := Cut (w_os m) 64, w_agent_version := Cut (w_agent_version m) 64,
                         w_llm_provider := Cut (w_llm_provider m) 64, w_llm_model := Cut (w_llm_model m) MaxLLMModelBytes\<rparr>
              in case checkStatus m' of Some e \<Rightarrow> Inl e | None \<Rightarrow> Inr m'
      else if w_type m = TypeCapabilities then
        case checkStatus m of Some e \<Rightarrow> Inl e | None \<Rightarrow> Inr m
      else if w_type m = TypeRotated then Inr m
      else if w_type m = TypeProgress then
        if \<not> idPattern (w_id m) then Inl (BadDirectiveID (w_id m))
        else Inr (m\<lparr>w_text := Cut (w_text m) MaxProgressBytes\<rparr>)
      else if w_type m = TypeResult then
        if \<not> idPattern (w_id m) then Inl (BadDirectiveID (w_id m))
        else if w_status m \<notin> {StatusOK, StatusError, StatusCanceled, StatusStopping, StatusRefused} then Inl (BadResultStatus (w_status m))
        else if 0 < ro_len (w_output m) \<and> \<not> ro_valid (w_output m) then Inl OutputNotJSON
        else Inr (m\<lparr>w_error := Cut (w_error m) MaxErrorBytes, w_text := Cut (w_text m) MaxProgressBytes\<rparr>)
      else Inl (BadType (w_type m)))"

text \<open>\<open>readLimitFor\<close> (\<open>gateway/llm.go\<close>) and \<open>messageLimit\<close> (\<open>gateway/conn.go\<close>): what a message may weigh, and how many may come.\<close>

definition readLimitFor :: "wire \<Rightarrow> nat" where
  "readLimitFor m = (if w_type m = TypeResult then MaxReadBytes else MaxMessageBytes)"

definition messageLimit :: "int \<Rightarrow> int \<Rightarrow> int \<times> int" where
  "messageLimit maxDirectives maxLLM =
     (let perSecond = 4 * maxDirectives + maxLLM + 10 in (perSecond, 4 * perSecond))"

subsection \<open>Checking an answer of the model\<close>

definition StopReasons :: "string list" where
  "StopReasons = [''end_turn'', ''max_tokens'', ''stop_sequence'', ''tool_use'', ''pause_turn'', ''refusal'', ''model_context_window_exceeded'']"

definition jsonObject :: "raw_json \<Rightarrow> bool" where
  "jsonObject raw = (case raw of Some (JVObj _) \<Rightarrow> True | _ \<Rightarrow> False)"

datatype bad_answer =
    AnswerTooLarge nat | AnswerUnreadable | TextTooLarge nat | TooManyCalls nat | CallNoID nat | CallIDTwice string
  | CallNoName nat | CallInputNoObject nat | BadStopReason string | ModelTooLong nat

fun checkCalls :: "nat \<Rightarrow> string list \<Rightarrow> wire_call list \<Rightarrow> bad_answer option" where
  "checkCalls i ids [] = None"
| "checkCalls i ids (tc # tcs) =
     (if wc_id tc = [] then Some (CallNoID i)
      else if wc_id tc \<in> set ids then Some (CallIDTwice (Cut (wc_id tc) 64))
      else if wc_name tc = [] then Some (CallNoName i)
      else if \<not> jsonObject (wc_input tc) then Some (CallInputNoObject i)
      else checkCalls (Suc i) (wc_id tc # ids) tcs)"

definition CheckLLMOutput :: "raw_output \<Rightarrow> (bad_answer, llm_answer) result" where
  "CheckLLMOutput raw =
     (if MaxLLMOutputBytes < ro_len raw then Inl (AnswerTooLarge (ro_len raw))
      else case ro_answer raw of None \<Rightarrow> Inl AnswerUnreadable
      | Some resp \<Rightarrow>
          if MaxLLMContentBytes < length (an_content resp) then Inl (TextTooLarge (length (an_content resp)))
          else if MaxLLMToolCalls < length (an_calls resp) then Inl (TooManyCalls (length (an_calls resp)))
          else case checkCalls 0 [] (an_calls resp) of Some e \<Rightarrow> Inl e
          | None \<Rightarrow>
              if an_stop resp \<notin> set StopReasons then Inl (BadStopReason (Cut (an_stop resp) 64))
              else if MaxLLMModelBytes < length (an_model resp) then Inl (ModelTooLong (length (an_model resp)))
              else Inr resp)"

subsection \<open>User codes\<close>

definition userCodeAlphabet :: string where
  "userCodeAlphabet = ''ABCDEFGHJKMNPQRSTUVWXYZ23456789''"

definition UserCodeLength :: nat where "UserCodeLength = 6"

text \<open>
  \<open>NewUserCode\<close>: \<open>read_rand\<close> is what \<open>crypto/rand\<close> reads, six bytes at a time; one past the last multiple of the
  alphabet's length is drawn again. \<open>None\<close> when the reads given do not suffice.
\<close>

fun take_codes :: "string \<Rightarrow> nat list \<Rightarrow> string" where
  "take_codes out [] = out"
| "take_codes out (c # cs) =
     (if c < 256 - 256 mod length userCodeAlphabet \<and> length out < UserCodeLength
      then take_codes (out @ [userCodeAlphabet ! (c mod length userCodeAlphabet)]) cs
      else take_codes out cs)"

fun draw_code :: "string \<Rightarrow> nat list list \<Rightarrow> string option" where
  "draw_code out [] = (if length out < UserCodeLength then None else Some out)"
| "draw_code out (b # bs) = (if length out < UserCodeLength then draw_code (take_codes out b) bs else Some out)"

definition NewUserCode :: "nat list list \<Rightarrow> string option" where
  "NewUserCode read_rand = draw_code [] read_rand"

definition FormatUserCode :: "string \<Rightarrow> string" where
  "FormatUserCode code = (if length code \<noteq> UserCodeLength then code else take 3 code @ ''-'' @ drop 3 code)"

text \<open>
  \<open>NormalizeUserCode\<close>. \<open>strings.ToUpper\<close> is bytewise on ASCII (\<open>upper\<close>); past it, the long s is the one rune whose
  upper case is in the alphabet, and any other refuses the code.
\<close>

fun normalize :: "string \<Rightarrow> string \<Rightarrow> string option" where
  "normalize b [] = Some b"
| "normalize b (r # rs) =
     (if upper r = CHR ''-'' \<or> upper r = CHR '' '' \<or> upper r = CHR 0x09 then normalize b rs
      else if upper r \<in> set userCodeAlphabet then normalize (b @ [upper r]) rs
      else if r = CHR 0xC5 \<and> take 1 rs = [CHR 0xBF] then normalize (b @ ''S'') (drop 1 rs)
      else None)"

definition NormalizeUserCode :: "string \<Rightarrow> string" where
  "NormalizeUserCode input =
     (case normalize [] input of None \<Rightarrow> [] | Some b \<Rightarrow> if length b \<noteq> UserCodeLength then [] else b)"

subsection \<open>What is let in\<close>

lemma length_ellipsis [simp]: "length ellipsis = 3"
  by (simp add: ellipsis_def)

lemma length_Cut: "3 \<le> n \<Longrightarrow> length (Cut s n) \<le> n"
  using back_up_le [of s "n - 3"] by (auto simp: Cut_def)

lemma Cut_short [simp]: "length s \<le> n \<Longrightarrow> Cut s n = s"
  by (simp add: Cut_def)

text \<open>What a machine may announce of itself.\<close>

definition announced_ok :: "wire \<Rightarrow> bool" where
  "announced_ok m \<longleftrightarrow> length (w_caps m) \<le> MaxCapabilities \<and> list_all capabilityPattern (w_caps m)
     \<and> w_claude_code m \<in> {[], ''ok'', ''logged_out'', ''absent''} \<and> w_llm m \<in> {[], LLMStateOK, LLMStateRefused}"

text \<open>The protocol's type: the messages of a machine, each with its fields in bounds.\<close>

definition wire_ok :: "wire \<Rightarrow> bool" where
  "wire_ok m \<longleftrightarrow>
     (w_type m = TypeHello \<and> 0 < w_protocol m \<and> 1 \<le> w_max m \<and> w_max m \<le> MaxDirectives \<and> 0 \<le> w_max_llm m \<and> w_max_llm m \<le> MaxLLM
        \<and> length (w_running m) + length (w_finished m) \<le> MaxListedIDs \<and> list_all idPattern (w_running m @ w_finished m)
        \<and> length (w_os m) \<le> 64 \<and> length (w_agent_version m) \<le> 64 \<and> length (w_llm_provider m) \<le> 64
        \<and> length (w_llm_model m) \<le> MaxLLMModelBytes \<and> announced_ok m)
     \<or> (w_type m = TypeCapabilities \<and> announced_ok m)
     \<or> w_type m = TypeRotated
     \<or> (w_type m = TypeProgress \<and> idPattern (w_id m) \<and> length (w_text m) \<le> MaxProgressBytes)
     \<or> (w_type m = TypeResult \<and> idPattern (w_id m) \<and> w_status m \<in> {StatusOK, StatusError, StatusCanceled, StatusStopping, StatusRefused}
        \<and> (ro_len (w_output m) = 0 \<or> ro_valid (w_output m)) \<and> length (w_error m) \<le> MaxErrorBytes \<and> length (w_text m) \<le> MaxProgressBytes)"

lemma find_bad: "find (\<lambda>x. \<not> P x) xs = None \<longleftrightarrow> list_all P xs"
  by (auto simp: find_None_iff list_all_iff)

lemma checkStatus_ok: "checkStatus m = None \<longleftrightarrow> announced_ok m"
  using find_bad [of capabilityPattern "w_caps m"]
  by (cases "find (\<lambda>c. \<not> capabilityPattern c) (w_caps m)") (auto simp: checkStatus_def announced_ok_def not_less)

lemma type_distinct:
  "TypeHello \<noteq> TypeCapabilities" "TypeHello \<noteq> TypeRotated" "TypeHello \<noteq> TypeProgress" "TypeHello \<noteq> TypeResult"
  "TypeCapabilities \<noteq> TypeRotated" "TypeCapabilities \<noteq> TypeProgress" "TypeCapabilities \<noteq> TypeResult"
  "TypeRotated \<noteq> TypeProgress" "TypeRotated \<noteq> TypeResult" "TypeProgress \<noteq> TypeResult"
  by (simp_all add: type_defs)

lemma checked_ok:
  assumes "CheckFromMachine m = Inr m'"
  shows "wire_ok m'"
proof -
  consider "w_type m = TypeHello" | "w_type m = TypeCapabilities" | "w_type m = TypeRotated" | "w_type m = TypeProgress" | "w_type m = TypeResult"
    using assms by (auto simp: CheckFromMachine_def split: if_splits)
  then show ?thesis
  proof cases
    case 1
    let ?m = "m\<lparr>w_os := Cut (w_os m) 64, w_agent_version := Cut (w_agent_version m) 64,
       w_llm_provider := Cut (w_llm_provider m) 64, w_llm_model := Cut (w_llm_model m) MaxLLMModelBytes\<rparr>"
    from 1 assms have g: "\<not> w_protocol m \<le> 0" "\<not> (w_max m < 1 \<or> MaxDirectives < w_max m)" "\<not> (w_max_llm m < 0 \<or> MaxLLM < w_max_llm m)"
      "\<not> MaxListedIDs < length (w_running m) + length (w_finished m)"
      by (auto simp: CheckFromMachine_def split: if_splits)
    with 1 assms have "find (\<lambda>i. \<not> idPattern i) (w_running m @ w_finished m) = None" "m' = ?m" "checkStatus ?m = None"
      by (auto simp: CheckFromMachine_def Let_def split: option.splits)
    then show ?thesis using 1 g length_Cut [of 64] length_Cut [of 128]
      by (simp add: wire_ok_def find_bad checkStatus_ok MaxLLMModelBytes_def not_less not_le)
  next
    case 2
    with type_distinct have "CheckFromMachine m = (case checkStatus m of Some e \<Rightarrow> Inl e | None \<Rightarrow> Inr m)"
      by (simp add: CheckFromMachine_def)
    with assms have "announced_ok m" "m' = m" by (simp_all add: checkStatus_ok [symmetric] split: option.splits)
    then show ?thesis using 2 by (simp add: wire_ok_def)
  next
    case 3
    with type_distinct assms have "m' = m" by (simp add: CheckFromMachine_def)
    then show ?thesis using 3 by (simp add: wire_ok_def)
  next
    case 4
    with type_distinct have "CheckFromMachine m = (if \<not> idPattern (w_id m) then Inl (BadDirectiveID (w_id m))
        else Inr (m\<lparr>w_text := Cut (w_text m) MaxProgressBytes\<rparr>))"
      by (simp add: CheckFromMachine_def)
    with assms have "idPattern (w_id m)" "m' = m\<lparr>w_text := Cut (w_text m) MaxProgressBytes\<rparr>" by (simp_all split: if_splits)
    then show ?thesis using 4 length_Cut [of 1024 "w_text m"] by (simp add: wire_ok_def MaxProgressBytes_def)
  next
    case 5
    with type_distinct have "CheckFromMachine m =
       (if \<not> idPattern (w_id m) then Inl (BadDirectiveID (w_id m))
        else if w_status m \<notin> {StatusOK, StatusError, StatusCanceled, StatusStopping, StatusRefused} then Inl (BadResultStatus (w_status m))
        else if 0 < ro_len (w_output m) \<and> \<not> ro_valid (w_output m) then Inl OutputNotJSON
        else Inr (m\<lparr>w_error := Cut (w_error m) MaxErrorBytes, w_text := Cut (w_text m) MaxProgressBytes\<rparr>))"
      by (simp add: CheckFromMachine_def)
    with assms have "idPattern (w_id m)" "w_status m \<in> {StatusOK, StatusError, StatusCanceled, StatusStopping, StatusRefused}"
      "ro_len (w_output m) = 0 \<or> ro_valid (w_output m)"
      "m' = m\<lparr>w_error := Cut (w_error m) MaxErrorBytes, w_text := Cut (w_text m) MaxProgressBytes\<rparr>"
      by (simp_all split: if_splits)
    then show ?thesis using 5 length_Cut [of 1024 "w_text m"] length_Cut [of 4096 "w_error m"]
      by (simp add: wire_ok_def MaxProgressBytes_def MaxErrorBytes_def)
  qed
qed

lemma wire_ok_checked: "wire_ok m \<Longrightarrow> CheckFromMachine m = Inr m"
  using type_distinct unfolding wire_ok_def
  by (elim disjE) (auto simp: CheckFromMachine_def Let_def checkStatus_ok find_bad not_less split: option.split)

text \<open>C23: the gateway lets in exactly the messages of the protocol: what the check returns has the protocol's type, every
  field of its kind in bounds and every name in its shape; nothing but the texts and names a machine may write freely is
  changed; and a message is returned as it came exactly when it has that type already (so checking again changes nothing).
\<close>

theorem message_let_in_has_protocol_type:
  assumes "CheckFromMachine m = Inr m'"
  shows "wire_ok m' \<and> w_type m' = w_type m \<and> w_id m' = w_id m \<and> w_status m' = w_status m \<and> w_output m' = w_output m
    \<and> w_running m' = w_running m \<and> w_finished m' = w_finished m \<and> w_caps m' = w_caps m
    \<and> CheckFromMachine m' = Inr m' \<and> (wire_ok m \<longleftrightarrow> m' = m)"
proof -
  have same: "w_type m' = w_type m \<and> w_id m' = w_id m \<and> w_status m' = w_status m \<and> w_output m' = w_output m
    \<and> w_running m' = w_running m \<and> w_finished m' = w_finished m \<and> w_caps m' = w_caps m"
    using assms by (auto simp: CheckFromMachine_def Let_def split: if_splits option.splits)
  have ok: "wire_ok m'" by (rule checked_ok [OF assms])
  have "wire_ok m \<longleftrightarrow> m' = m" using ok wire_ok_checked [of m] assms by auto
  with same ok wire_ok_checked [OF ok] show ?thesis by simp
qed

definition long_progress :: wire where
  "long_progress = \<lparr>w_type = ''progress'', w_protocol = 0, w_agent_version = [], w_os = [], w_caps = [], w_max = 0, w_running = [],
     w_finished = [], w_claude_code = [], w_max_llm = 0, w_llm_provider = [], w_llm_model = [], w_llm = [], w_id = ''d-1'',
     w_text = replicate 1025 CHR ''a'', w_status = [], w_output = empty_output, w_error = [], w_code = []\<rparr>"

theorem message_let_in_has_protocol_type_witness:
  "wire_ok (long_progress\<lparr>w_text := Cut (replicate 1025 CHR ''a'') 1024\<rparr>) \<and> \<not> wire_ok long_progress"
proof -
  have c: "CheckFromMachine long_progress = Inr (long_progress\<lparr>w_text := Cut (replicate 1025 CHR ''a'') 1024\<rparr>)"
    by (simp add: CheckFromMachine_def long_progress_def type_defs idPattern_def lower_or_digit_def is_digit_def MaxProgressBytes_def)
  have "\<not> wire_ok long_progress" by (simp add: wire_ok_def long_progress_def type_defs MaxProgressBytes_def)
  with message_let_in_has_protocol_type [OF c] show ?thesis by simp
qed

subsection \<open>Answers a turn can carry\<close>

definition answer_ok :: "llm_answer \<Rightarrow> bool" where
  "answer_ok a \<longleftrightarrow> length (an_content a) \<le> MaxLLMContentBytes \<and> length (an_calls a) \<le> MaxLLMToolCalls
     \<and> list_all (\<lambda>tc. wc_id tc \<noteq> [] \<and> wc_name tc \<noteq> [] \<and> jsonObject (wc_input tc)) (an_calls a) \<and> distinct (map wc_id (an_calls a))
     \<and> an_stop a \<in> set StopReasons \<and> length (an_model a) \<le> MaxLLMModelBytes"

lemma checkCalls_None:
  "checkCalls i ids tcs = None \<longleftrightarrow> list_all (\<lambda>tc. wc_id tc \<noteq> [] \<and> wc_name tc \<noteq> [] \<and> jsonObject (wc_input tc)) tcs
     \<and> distinct (map wc_id tcs) \<and> set ids \<inter> set (map wc_id tcs) = {}"
  by (induction i ids tcs rule: checkCalls.induct) auto

lemma CheckLLMOutput_iff:
  "CheckLLMOutput raw = Inr a \<longleftrightarrow> ro_len raw \<le> MaxLLMOutputBytes \<and> ro_answer raw = Some a \<and> answer_ok a"
proof (cases "ro_answer raw")
  case (Some r)
  show ?thesis
  proof (cases "checkCalls 0 [] (an_calls r)")
    case None
    then show ?thesis using Some checkCalls_None [of 0 "[]" "an_calls r"]
      by (auto simp: CheckLLMOutput_def answer_ok_def not_less)
  next
    case (Some e)
    then show ?thesis using \<open>ro_answer raw = Some r\<close> checkCalls_None [of 0 "[]" "an_calls r"]
      by (auto simp: CheckLLMOutput_def answer_ok_def)
  qed
qed (simp add: CheckLLMOutput_def)

subsection \<open>User codes\<close>

lemma upper_code: "c \<in> set userCodeAlphabet \<Longrightarrow> upper c = c \<and> c \<noteq> CHR ''-'' \<and> c \<noteq> CHR '' '' \<and> c \<noteq> CHR 0x09"
  by (auto simp: userCodeAlphabet_def upper_def)

lemma normalize_code: "set s \<subseteq> set userCodeAlphabet \<Longrightarrow> normalize b (s @ t) = normalize (b @ s) t"
proof (induction s arbitrary: b)
  case (Cons c s)
  then show ?case using upper_code [of c] by simp
qed simp

lemma take_codes_ok:
  "length out \<le> UserCodeLength \<Longrightarrow> set out \<subseteq> set userCodeAlphabet \<Longrightarrow>
     length (take_codes out bs) \<le> UserCodeLength \<and> set (take_codes out bs) \<subseteq> set userCodeAlphabet"
proof (induction out bs rule: take_codes.induct)
  case (2 out c cs)
  have "userCodeAlphabet ! (c mod length userCodeAlphabet) \<in> set userCodeAlphabet"
    by (rule nth_mem) (simp add: userCodeAlphabet_def)
  with 2 show ?case by simp
qed simp

lemma draw_code_ok:
  "draw_code out bs = Some code \<Longrightarrow> length out \<le> UserCodeLength \<Longrightarrow> set out \<subseteq> set userCodeAlphabet \<Longrightarrow>
     length code = UserCodeLength \<and> set code \<subseteq> set userCodeAlphabet"
proof (induction out bs rule: draw_code.induct)
  case (2 out b bs)
  then show ?case using take_codes_ok [of out b] by (auto split: if_splits)
qed (auto split: if_splits)

text \<open>A code drawn is read back from the form it is shown in.\<close>

theorem user_code_roundtrip:
  assumes "NewUserCode reads = Some code"
  shows "NormalizeUserCode (FormatUserCode code) = code \<and> length code = UserCodeLength"
proof -
  from draw_code_ok [of "[]" reads code] assms have c: "length code = UserCodeLength" "set code \<subseteq> set userCodeAlphabet"
    by (auto simp: NewUserCode_def)
  have s: "set (take 3 code) \<subseteq> set userCodeAlphabet" "set (drop 3 code) \<subseteq> set userCodeAlphabet"
    using c(2) set_take_subset [of 3 code] set_drop_subset [of 3 code] by auto
  have "normalize [] (FormatUserCode code) = normalize (take 3 code) (''-'' @ drop 3 code)"
    using c(1) normalize_code [OF s(1), of "[]"] by (simp add: FormatUserCode_def)
  also have "\<dots> = normalize (take 3 code) (drop 3 code)" by (simp add: upper_def)
  also have "\<dots> = Some code" using normalize_code [OF s(2), of "take 3 code" "[]"] by simp
  finally show ?thesis using c(1) by (simp add: NormalizeUserCode_def)
qed

end
