(* ===== verification/Machines.thy ===== *)
theory Machines
  imports Protocol
begin

section \<open>Machines: enrollment, tokens, connections\<close>

text \<open>
  The first half of \<open>store/machine.go\<close>: a user's machines, how one is enrolled, how its token rotates, what
  its gateway records of it, and how it is revoked. The tables are lists of rows; a NULL is \<open>None\<close>; \<open>NOW()\<close>
  is the argument \<open>now\<close>. An operation is one transaction (\<open>inTx\<close>, or one statement): it returns an error and
  leaves the tables as they were, or the new tables. PostgreSQL's locks (\<open>FOR UPDATE\<close>) make the
  transactions on a machine's row follow one another, which is what a sequence of operations models. The
  unique and foreign keys of the schema are modelled as errors; other failures of the database are not.
\<close>

subsection \<open>The tables\<close>

record machine_row =
  m_id :: string
  m_user :: string
  m_name :: string
  m_os :: string
  m_caps :: "string list"
  m_max :: int
  m_priority :: int
  m_paused :: bool
  m_version :: string
  m_token :: "string option"
  m_prev :: "string option"
  m_connected_to :: string
  m_last_addr :: string
  m_created :: time
  m_seen :: "time option"
  m_revoked :: "time option"
  m_reason :: string
  m_claude :: string
  m_max_llm :: int
  m_llm_provider :: string
  m_llm_model :: string
  m_llm_state :: string
  m_connected_at :: "time option"
  m_aside :: "time option"

record machine_info =
  i_name :: string
  i_os :: string
  i_caps :: "string list"
  i_max :: int
  i_version :: string
  i_claude :: string
  i_max_llm :: int
  i_llm_provider :: string
  i_llm_model :: string
  i_llm_state :: string

datatype enrollment_kind = EnrollmentDevice | EnrollmentToken

record enrollment =
  e_id :: string
  e_kind :: enrollment_kind
  e_secret :: string
  e_user_code :: "string option"
  e_info :: machine_info
  e_client_addr :: string
  e_created :: time
  e_expires :: time
  e_approved_by :: "string option"
  e_machine :: string

text \<open>Directive states: open while reserved or running.\<close>

datatype directive_state =
    DirectiveReserved | DirectiveRunning | DirectiveCompleted | DirectiveFailed | DirectiveCanceled
  | DirectiveStopping | DirectiveRefused | DirectiveLost | DirectiveRevoked | DirectiveOrphaned
  | DirectiveExpired | DirectiveGone

text \<open>The column \<open>result\<close> is the JSON of a machine's message, as decoding it gives it.\<close>

datatype kept_result = Kept wire | Unreadable

record directive =
  d_id :: string
  d_machine :: string
  d_user :: string
  d_kind :: string
  d_input :: string
  d_workflow :: string
  d_run :: string
  d_activity :: string
  d_call_key :: string
  d_token :: "string option"
  d_state :: directive_state
  d_handoff_by :: time
  d_deadline :: time
  d_sent_conn :: string
  d_result :: "kept_result option"
  d_error :: string
  d_created :: time
  d_started :: "time option"
  d_closed :: "time option"
  d_session :: string
  d_participant :: string
  d_agent :: string
  d_turn_key :: string
  d_call_id :: string
  d_agent_id :: string

definition is_open :: "directive \<Rightarrow> bool" where
  "is_open d = (d_state d = DirectiveReserved \<or> d_state d = DirectiveRunning)"

record mdb =
  users :: "string list"
  machines :: "machine_row list"
  retired :: "(string \<times> string) list"
  directives :: "directive list"
  enrollments :: "enrollment list"

datatype db_error =
    ErrUserCodeTaken | ErrEnrollmentUnknown | ErrEnrollmentExpired | ErrEnrollmentPending
  | ErrMachineNotFound | ErrTokenRefused | ErrNoMachine | MachineLacksError string "string list"
  | ErrDirectiveClosed | ErrDirectiveNotFound | ErrMachineUnavailable string | ErrMachineBusy int
  | UniqueViolation | ForeignKeyViolation | NoRows

definition update_machines :: "(machine_row \<Rightarrow> bool) \<Rightarrow> (machine_row \<Rightarrow> machine_row) \<Rightarrow> mdb \<Rightarrow> mdb" where
  "update_machines P f db = db\<lparr>machines := map (\<lambda>m. if P m then f m else m) (machines db)\<rparr>"

text \<open>An update that matched no row is the error \<open>e\<close> (\<open>affectedOne\<close>).\<close>

definition affectedOne :: "db_error \<Rightarrow> (machine_row \<Rightarrow> bool) \<Rightarrow> (machine_row \<Rightarrow> machine_row) \<Rightarrow> mdb \<Rightarrow> (db_error, mdb) result" where
  "affectedOne e P f db = (if list_ex P (machines db) then Inr (update_machines P f db) else Inl e)"

definition nullif :: "string \<Rightarrow> string option" where
  "nullif s = (if s = [] then None else Some s)"

definition coalesce :: "string option \<Rightarrow> string" where
  "coalesce s = (case s of None \<Rightarrow> [] | Some s \<Rightarrow> s)"

subsection \<open>What a machine can do\<close>

definition Online :: "machine_row \<Rightarrow> time \<Rightarrow> bool" where
  "Online m since = (m_connected_to m \<noteq> [] \<and> m_revoked m = None
     \<and> (case m_seen m of None \<Rightarrow> False | Some t \<Rightarrow> since < t))"

definition AsideForLLM :: "machine_row \<Rightarrow> time \<Rightarrow> bool" where
  "AsideForLLM m since =
     (case m_aside m of None \<Rightarrow> False
      | Some a \<Rightarrow> since < a \<and> (case m_connected_at m of None \<Rightarrow> True | Some c \<Rightarrow> \<not> a < c))"

definition Can :: "machine_row \<Rightarrow> string \<Rightarrow> bool" where
  "Can m capability = (capability \<in> set (m_caps m))"

definition CanAll :: "machine_row \<Rightarrow> string list \<Rightarrow> bool" where
  "CanAll m capabilities = list_all (Can m) capabilities"

subsection \<open>Enrollment\<close>

text \<open>What the table keeps of a machine's description.\<close>

definition stored_info :: "machine_info \<Rightarrow> machine_info" where
  "stored_info i = \<lparr>i_name = i_name i, i_os = i_os i, i_caps = i_caps i, i_max = max (i_max i) 1, i_version = i_version i,
     i_claude = [], i_max_llm = 0, i_llm_provider = [], i_llm_model = [], i_llm_state = []\<rparr>"

definition CreateMachineEnrollment :: "mdb \<Rightarrow> enrollment \<Rightarrow> time \<Rightarrow> (db_error, mdb) result" where
  "CreateMachineEnrollment db e now =
     (if list_ex (\<lambda>x. e_id x = e_id e \<or> e_secret x = e_secret e
                    \<or> (e_user_code e \<noteq> None \<and> e_user_code x = e_user_code e)) (enrollments db)
      then Inl (if e_user_code e \<noteq> None then ErrUserCodeTaken else UniqueViolation)
      else if (case e_approved_by e of None \<Rightarrow> False | Some u \<Rightarrow> u \<notin> set (users db)) then Inl ForeignKeyViolation
      else Inr (db\<lparr>enrollments := enrollments db
             @ [e\<lparr>e_info := stored_info (e_info e), e_created := now, e_machine := []\<rparr>]\<rparr>))"

definition CountPendingDeviceRequests :: "mdb \<Rightarrow> time \<Rightarrow> nat" where
  "CountPendingDeviceRequests db now =
     length (filter (\<lambda>e. e_kind e = EnrollmentDevice \<and> now < e_expires e \<and> e_machine e = []) (enrollments db))"

definition FindDeviceRequest :: "mdb \<Rightarrow> string \<Rightarrow> time \<Rightarrow> enrollment option" where
  "FindDeviceRequest db userCode now =
     find (\<lambda>e. e_kind e = EnrollmentDevice \<and> e_user_code e = Some userCode \<and> now < e_expires e \<and> e_approved_by e = None)
       (enrollments db)"

definition ApproveDeviceRequest :: "mdb \<Rightarrow> string \<Rightarrow> string \<Rightarrow> string \<Rightarrow> time \<Rightarrow> (db_error, mdb) result" where
  "ApproveDeviceRequest db ident userCode userID now =
     (let P = (\<lambda>e. e_id e = ident \<and> e_kind e = EnrollmentDevice \<and> e_user_code e = Some userCode \<and> now < e_expires e
                 \<and> e_approved_by e = None) in
      if \<not> list_ex P (enrollments db) then Inl ErrEnrollmentUnknown
      else if userID \<notin> set (users db) then Inl ForeignKeyViolation
      else Inr (db\<lparr>enrollments := map (\<lambda>e. if P e then e\<lparr>e_approved_by := Some userID\<rparr> else e) (enrollments db)\<rparr>))"

definition new_machine :: "string \<Rightarrow> string \<Rightarrow> machine_info \<Rightarrow> string \<Rightarrow> time \<Rightarrow> machine_row" where
  "new_machine mid userID info tokenHash now =
     \<lparr>m_id = mid, m_user = userID, m_name = i_name info, m_os = i_os info, m_caps = i_caps info,
      m_max = max (i_max info) 1, m_priority = 0, m_paused = False, m_version = i_version info,
      m_token = Some tokenHash, m_prev = None, m_connected_to = [], m_last_addr = [], m_created = now,
      m_seen = None, m_revoked = None, m_reason = [], m_claude = [], m_max_llm = 0, m_llm_provider = [],
      m_llm_model = [], m_llm_state = [], m_connected_at = None, m_aside = None\<rparr>"

definition RedeemMachineEnrollment ::
  "mdb \<Rightarrow> enrollment_kind \<Rightarrow> string \<Rightarrow> machine_info \<Rightarrow> string \<Rightarrow> string \<Rightarrow> time \<Rightarrow> (db_error, mdb \<times> machine_row) result" where
  "RedeemMachineEnrollment db kind secretHash info mid tokenHash now =
     (case find (\<lambda>e. e_kind e = kind \<and> e_secret e = secretHash) (enrollments db) of
        None \<Rightarrow> Inl ErrEnrollmentUnknown
      | Some e \<Rightarrow>
          if e_machine e \<noteq> [] then Inl ErrEnrollmentUnknown
          else if \<not> now < e_expires e then Inl ErrEnrollmentExpired
          else case e_approved_by e of None \<Rightarrow> Inl ErrEnrollmentPending
          | Some userID \<Rightarrow>
              let info = (if kind = EnrollmentDevice then e_info e else info);
                  m = new_machine mid userID info tokenHash now in
              if list_ex (\<lambda>x. m_id x = mid \<or> m_token x = Some tokenHash) (machines db) then Inl UniqueViolation
              else if userID \<notin> set (users db) then Inl ForeignKeyViolation
              else Inr (db\<lparr>machines := machines db @ [m],
                          enrollments := map (\<lambda>x. if e_id x = e_id e then x\<lparr>e_machine := mid\<rparr> else x) (enrollments db)\<rparr>, m))"

definition DeleteExpiredEnrollments :: "mdb \<Rightarrow> time \<Rightarrow> mdb" where
  "DeleteExpiredEnrollments db now = db\<lparr>enrollments := filter (\<lambda>e. \<not> e_expires e \<le> now) (enrollments db)\<rparr>"

subsection \<open>Tokens\<close>

datatype token_use = TokenUnknown | TokenCurrent | TokenPending | TokenRetired

definition GetMachine :: "mdb \<Rightarrow> string \<Rightarrow> machine_row option" where
  "GetMachine db mid = find (\<lambda>m. m_id m = mid) (machines db)"

definition MachineByToken :: "mdb \<Rightarrow> string \<Rightarrow> machine_row option \<times> token_use" where
  "MachineByToken db tokenHash =
     (case find (\<lambda>m. m_token m = Some tokenHash \<or> m_prev m = Some tokenHash) (machines db) of
        Some m \<Rightarrow> (Some m, if coalesce (m_token m) = tokenHash then TokenCurrent else TokenPending)
      | None \<Rightarrow>
          (case find (\<lambda>m. \<exists>r \<in> set (retired db). snd r = m_id m \<and> fst r = tokenHash) (machines db) of
             Some m \<Rightarrow> (Some m, TokenRetired)
           | None \<Rightarrow> (None, TokenUnknown)))"

text \<open>\<open>None\<close>: the presented token is neither of the machine's.\<close>

definition rotateTokens :: "string \<Rightarrow> string \<Rightarrow> string \<Rightarrow> string \<Rightarrow> (string \<times> string \<times> string list) option" where
  "rotateTokens current prev presented nextHash =
     (if presented = [] then None
      else if presented = current \<and> prev = [] then Some (nextHash, current, [])
      else if presented = current then Some (nextHash, current, [prev])
      else if presented = prev then Some (nextHash, prev, [current])
      else None)"

definition confirmToken :: "string \<Rightarrow> string \<Rightarrow> string \<Rightarrow> (string \<times> string list) option" where
  "confirmToken current prev presented =
     (if presented = [] \<or> presented \<noteq> current then None
      else if prev = [] then Some ([], []) else Some ([], [prev]))"

text \<open>\<open>retireTokens\<close>: \<open>ON CONFLICT DO NOTHING\<close>.\<close>

definition retireTokens :: "mdb \<Rightarrow> string \<Rightarrow> string list \<Rightarrow> mdb" where
  "retireTokens db mid hashes =
     db\<lparr>retired := foldl (\<lambda>rs h. if h = [] \<or> h \<in> fst ` set rs then rs else rs @ [(h, mid)]) (retired db) hashes\<rparr>"

definition find_live :: "mdb \<Rightarrow> string \<Rightarrow> machine_row option" where
  "find_live db mid = find (\<lambda>m. m_id m = mid \<and> m_revoked m = None) (machines db)"

definition RotateMachineToken :: "mdb \<Rightarrow> string \<Rightarrow> string \<Rightarrow> string \<Rightarrow> (db_error, mdb) result" where
  "RotateMachineToken db mid presentedHash nextHash =
     (case find_live db mid of None \<Rightarrow> Inl ErrTokenRefused
      | Some m \<Rightarrow>
          (case rotateTokens (coalesce (m_token m)) (coalesce (m_prev m)) presentedHash nextHash of
             None \<Rightarrow> Inl ErrTokenRefused
           | Some (newCurrent, newPrev, retire) \<Rightarrow>
               if list_ex (\<lambda>x. m_id x \<noteq> mid \<and> (m_token x = Some newCurrent \<or> (newPrev \<noteq> [] \<and> m_prev x = Some newPrev))) (machines db)
               then Inl UniqueViolation
               else Inr (update_machines (\<lambda>x. m_id x = mid) (\<lambda>x. x\<lparr>m_token := Some newCurrent, m_prev := nullif newPrev\<rparr>)
                      (retireTokens db mid retire))))"

definition ConfirmMachineToken :: "mdb \<Rightarrow> string \<Rightarrow> string \<Rightarrow> (db_error, mdb) result" where
  "ConfirmMachineToken db mid currentHash =
     (case find_live db mid of None \<Rightarrow> Inl ErrTokenRefused
      | Some m \<Rightarrow>
          (case confirmToken (coalesce (m_token m)) (coalesce (m_prev m)) currentHash of
             None \<Rightarrow> Inl ErrTokenRefused
           | Some (newPrev, retire) \<Rightarrow>
               Inr (update_machines (\<lambda>x. m_id x = mid) (\<lambda>x. x\<lparr>m_prev := nullif newPrev\<rparr>) (retireTokens db mid retire))))"

subsection \<open>What the gateway and the owner record\<close>

definition MachineConnected :: "mdb \<Rightarrow> string \<Rightarrow> string \<Rightarrow> string \<Rightarrow> machine_info \<Rightarrow> time \<Rightarrow> (db_error, mdb \<times> string) result" where
  "MachineConnected db mid gateway addr hello now =
     (case find_live db mid of None \<Rightarrow> Inl ErrMachineNotFound
      | Some old \<Rightarrow>
          Inr (update_machines (\<lambda>m. m_id m = mid \<and> m_revoked m = None)
            (\<lambda>m. m\<lparr>m_connected_to := gateway, m_seen := Some now, m_connected_at := Some now, m_os := i_os hello,
                   m_caps := i_caps hello, m_max := max (i_max hello) 1, m_version := i_version hello,
                   m_last_addr := (if addr = [] then m_last_addr m else addr), m_claude := i_claude hello,
                   m_max_llm := max (i_max_llm hello) 0, m_llm_provider := i_llm_provider hello,
                   m_llm_model := i_llm_model hello, m_llm_state := i_llm_state hello\<rparr>) db, m_last_addr old))"

definition UpdateMachineStatus :: "mdb \<Rightarrow> string \<Rightarrow> string list \<Rightarrow> string \<Rightarrow> string \<Rightarrow> (db_error, mdb) result" where
  "UpdateMachineStatus db mid capabilities claudeCode llmState =
     affectedOne ErrMachineNotFound (\<lambda>m. m_id m = mid \<and> m_revoked m = None)
       (\<lambda>m. m\<lparr>m_caps := capabilities, m_claude := claudeCode, m_llm_state := llmState\<rparr>) db"

definition SetMachineAside :: "mdb \<Rightarrow> string \<Rightarrow> time \<Rightarrow> mdb" where
  "SetMachineAside db mid now = update_machines (\<lambda>m. m_id m = mid) (\<lambda>m. m\<lparr>m_aside := Some now\<rparr>) db"

definition ClearMachineAside :: "mdb \<Rightarrow> string \<Rightarrow> mdb" where
  "ClearMachineAside db mid = update_machines (\<lambda>m. m_id m = mid \<and> m_aside m \<noteq> None) (\<lambda>m. m\<lparr>m_aside := None\<rparr>) db"

definition SetMachinePaused :: "mdb \<Rightarrow> string \<Rightarrow> string \<Rightarrow> bool \<Rightarrow> (db_error, mdb) result" where
  "SetMachinePaused db userID mid paused =
     affectedOne ErrMachineNotFound (\<lambda>m. m_id m = mid \<and> m_user m = userID \<and> m_revoked m = None)
       (\<lambda>m. m\<lparr>m_paused := paused\<rparr>) db"

definition SetMachinePriority :: "mdb \<Rightarrow> string \<Rightarrow> string \<Rightarrow> int \<Rightarrow> (db_error, mdb) result" where
  "SetMachinePriority db userID mid priority =
     affectedOne ErrMachineNotFound (\<lambda>m. m_id m = mid \<and> m_user m = userID \<and> m_revoked m = None)
       (\<lambda>m. m\<lparr>m_priority := priority\<rparr>) db"

definition MachineDisconnected :: "mdb \<Rightarrow> string \<Rightarrow> string \<Rightarrow> mdb" where
  "MachineDisconnected db mid gateway =
     update_machines (\<lambda>m. m_id m = mid \<and> m_connected_to m = gateway) (\<lambda>m. m\<lparr>m_connected_to := []\<rparr>) db"

definition TouchMachines :: "mdb \<Rightarrow> string list \<Rightarrow> time \<Rightarrow> mdb" where
  "TouchMachines db ids now =
     (if length ids = 0 then db else update_machines (\<lambda>m. m_id m \<in> set ids) (\<lambda>m. m\<lparr>m_seen := Some now\<rparr>) db)"

definition ResetMachineConnections :: "mdb \<Rightarrow> mdb" where
  "ResetMachineConnections db = update_machines (\<lambda>m. m_connected_to m \<noteq> []) (\<lambda>m. m\<lparr>m_connected_to := []\<rparr>) db"

definition RevokeMachine :: "mdb \<Rightarrow> string \<Rightarrow> string \<Rightarrow> time \<Rightarrow> (db_error, mdb \<times> directive list) result" where
  "RevokeMachine db mid reason now =
     (case GetMachine db mid of None \<Rightarrow> Inl ErrMachineNotFound
      | Some m \<Rightarrow>
          if m_revoked m \<noteq> None then Inr (db, [])
          else
            (let db1 = retireTokens db mid [coalesce (m_token m), coalesce (m_prev m)];
                 db2 = update_machines (\<lambda>x. m_id x = mid)
                    (\<lambda>x. x\<lparr>m_revoked := Some now, m_reason := reason, m_token := None, m_prev := None, m_connected_to := []\<rparr>) db1;
                 hit = (\<lambda>d. d_machine d = mid \<and> is_open d);
                 f = (\<lambda>d. d\<lparr>d_state := DirectiveRevoked, d_closed := Some now, d_error := reason\<rparr>)
             in Inr (db2\<lparr>directives := map (\<lambda>d. if hit d then f d else d) (directives db2)\<rparr>,
                  map f (filter hit (directives db2)))))"

subsection \<open>The invariant of the tokens\<close>

definition live :: "machine_row \<Rightarrow> string set" where
  "live m = set_option (m_token m) \<union> set_option (m_prev m)"

abbreviation retired_hashes :: "mdb \<Rightarrow> string set" where
  "retired_hashes db \<equiv> fst ` set (retired db)"

definition tokens_ok :: "mdb \<Rightarrow> bool" where
  "tokens_ok db \<longleftrightarrow>
     distinct (map m_id (machines db))
     \<and> (\<forall>m \<in> set (machines db). \<forall>m' \<in> set (machines db). live m \<inter> live m' \<noteq> {} \<longrightarrow> m_id m = m_id m')
     \<and> (\<forall>m \<in> set (machines db). m_token m \<noteq> None \<longrightarrow> m_token m \<noteq> m_prev m)
     \<and> (\<forall>m \<in> set (machines db). live m \<inter> insert [] (retired_hashes db) = {})
     \<and> (\<forall>m \<in> set (machines db). m_revoked m \<noteq> None \<longrightarrow> live m = {})
     \<and> distinct (map fst (retired db)) \<and> snd ` set (retired db) \<subseteq> m_id ` set (machines db)"

text \<open>A hash drawn for a new token: never seen before.\<close>

definition fresh_token :: "mdb \<Rightarrow> string \<Rightarrow> bool" where
  "fresh_token db h \<longleftrightarrow> h \<noteq> [] \<and> h \<notin> retired_hashes db \<and> (\<forall>m \<in> set (machines db). h \<notin> live m)"

lemmas tokens_okD =
  tokens_ok_def [THEN iffD1, THEN conjunct1]
  tokens_ok_def [THEN iffD1, THEN conjunct2, THEN conjunct1]
  tokens_ok_def [THEN iffD1, THEN conjunct2, THEN conjunct2, THEN conjunct1]
  tokens_ok_def [THEN iffD1, THEN conjunct2, THEN conjunct2, THEN conjunct2, THEN conjunct1]
  tokens_ok_def [THEN iffD1, THEN conjunct2, THEN conjunct2, THEN conjunct2, THEN conjunct2, THEN conjunct1]
  tokens_ok_def [THEN iffD1, THEN conjunct2, THEN conjunct2, THEN conjunct2, THEN conjunct2, THEN conjunct2, THEN conjunct1]
  tokens_ok_def [THEN iffD1, THEN conjunct2, THEN conjunct2, THEN conjunct2, THEN conjunct2, THEN conjunct2, THEN conjunct2]

lemma tokens_okI:
  assumes "distinct (map m_id (machines db))"
    and "\<And>m m'. m \<in> set (machines db) \<Longrightarrow> m' \<in> set (machines db) \<Longrightarrow> live m \<inter> live m' \<noteq> {} \<Longrightarrow> m_id m = m_id m'"
    and "\<And>m. m \<in> set (machines db) \<Longrightarrow> m_token m \<noteq> None \<longrightarrow> m_token m \<noteq> m_prev m"
    and "\<And>m. m \<in> set (machines db) \<Longrightarrow> live m \<inter> insert [] (retired_hashes db) = {}"
    and "\<And>m. m \<in> set (machines db) \<Longrightarrow> m_revoked m \<noteq> None \<longrightarrow> live m = {}"
    and "distinct (map fst (retired db))" and "snd ` set (retired db) \<subseteq> m_id ` set (machines db)"
  shows "tokens_ok db"
  unfolding tokens_ok_def by (intro conjI ballI impI) (use assms in blast)+

lemma machine_unique:
  assumes "tokens_ok db" and "m \<in> set (machines db)" and "m' \<in> set (machines db)" and "m_id m = m_id m'"
  shows "m = m'"
proof -
  have "inj_on m_id (set (machines db))" using tokens_okD(1) [OF assms(1)] by (simp add: distinct_map)
  from inj_onD [OF this assms(4,2,3)] show ?thesis .
qed

lemma live_unique:
  assumes "tokens_ok db" and "m \<in> set (machines db)" and "m' \<in> set (machines db)" and "h \<in> live m" and "h \<in> live m'"
  shows "m = m'"
proof (rule machine_unique [OF assms(1-3)])
  have "live m \<inter> live m' \<noteq> {}" using assms(4,5) by blast
  with tokens_okD(2) [OF assms(1)] assms(2,3) show "m_id m = m_id m'" by blast
qed

lemma live_not_retired:
  "tokens_ok db \<Longrightarrow> m \<in> set (machines db) \<Longrightarrow> h \<in> live m \<Longrightarrow> h \<noteq> [] \<and> h \<notin> retired_hashes db"
  using tokens_okD(4) [of db] by blast

lemma live_iff: "h \<in> live m \<longleftrightarrow> m_token m = Some h \<or> m_prev m = Some h"
  by (auto simp: live_def)

lemma coalesce_simps [simp]: "coalesce None = []" "coalesce (Some h) = h"
  by (simp_all add: coalesce_def)

lemma nullif_simps [simp]: "nullif [] = None" "h \<noteq> [] \<Longrightarrow> nullif h = Some h"
  by (simp_all add: nullif_def)

lemma find_if_unique:
  assumes "x \<in> set xs" and "P x" and "\<And>y. y \<in> set xs \<Longrightarrow> P y \<Longrightarrow> y = x"
  shows "find P xs = Some x"
proof -
  from assms(1,2) have "find P xs \<noteq> None" by (auto simp: find_None_iff)
  then obtain y where y: "find P xs = Some y" by blast
  then have "y \<in> set xs" "P y" by (auto simp: find_Some_iff)
  with assms(3) y show ?thesis by simp
qed

lemma find_Some_in: "find P xs = Some x \<Longrightarrow> x \<in> set xs \<and> P x"
  by (auto simp: find_Some_iff)

lemma MachineByToken_live:
  assumes "tokens_ok db" and "m \<in> set (machines db)" and "h \<in> live m"
  shows "MachineByToken db h = (Some m, if m_token m = Some h then TokenCurrent else TokenPending)"
proof -
  have "find (\<lambda>m. m_token m = Some h \<or> m_prev m = Some h) (machines db) = Some m"
    using assms live_unique [OF assms(1,2)] by (intro find_if_unique) (auto simp: live_iff)
  moreover have "coalesce (m_token m) = h \<longleftrightarrow> m_token m = Some h"
    using live_not_retired [OF assms] by (cases "m_token m") auto
  ultimately show ?thesis by (simp add: MachineByToken_def)
qed

lemma MachineByToken_retired:
  assumes "tokens_ok db" and "(h, mid) \<in> set (retired db)"
  shows "\<exists>m \<in> set (machines db). m_id m = mid \<and> MachineByToken db h = (Some m, TokenRetired)"
proof -
  have none: "find (\<lambda>m. m_token m = Some h \<or> m_prev m = Some h) (machines db) = None"
    using live_not_retired [OF assms(1)] assms(2) by (force simp: find_None_iff live_iff)
  have "mid \<in> snd ` set (retired db)" using assms(2) by force
  then have "mid \<in> m_id ` set (machines db)" using tokens_okD(7) [OF assms(1)] by blast
  then obtain m where m: "m \<in> set (machines db)" "m_id m = mid" by blast
  have owner: "mid' = mid" if "(h, mid') \<in> set (retired db)" for mid'
    using eq_key_imp_eq_value [OF tokens_okD(6) [OF assms(1)] that assms(2)] .
  have "find (\<lambda>m. \<exists>r \<in> set (retired db). snd r = m_id m \<and> fst r = h) (machines db) = Some m"
  proof (rule find_if_unique)
    show "\<exists>r \<in> set (retired db). snd r = m_id m \<and> fst r = h" using assms(2) m(2) by force
    fix y assume y: "y \<in> set (machines db)" "\<exists>r \<in> set (retired db). snd r = m_id y \<and> fst r = h"
    then have "m_id y = mid" using owner by force
    with machine_unique [OF assms(1) y(1) m(1)] m(2) show "y = m" by simp
  qed (rule m(1))
  with none m show ?thesis by (auto simp: MachineByToken_def)
qed

lemma retire_fold:
  fixes rs :: "(string \<times> string) list"
  defines "step \<equiv> \<lambda>mid. \<lambda>rs h. if h = [] \<or> h \<in> fst ` set rs then rs else rs @ [(h, mid)]"
  shows "fst ` set (foldl (step mid) rs hs) = fst ` set rs \<union> (set hs - {[]})"
    and "set rs \<subseteq> set (foldl (step mid) rs hs)"
    and "set (foldl (step mid) rs hs) \<subseteq> set rs \<union> {(h, mid) |h. h \<in> set hs}"
    and "distinct (map fst rs) \<Longrightarrow> distinct (map fst (foldl (step mid) rs hs))"
proof (induction hs arbitrary: rs)
  case (Cons h hs)
  {
    case 1
    show ?case using Cons(1) [of "step mid rs h"] by (auto simp: step_def image_iff)
  next
    case 2
    show ?case using Cons(2) [of "step mid rs h"] by (auto simp: step_def split: if_splits)
  next
    case 3
    show ?case using Cons(3) [of "step mid rs h"] by (fastforce simp: step_def split: if_splits)
  next
    case 4
    then show ?case using Cons(4) [of "step mid rs h"] by (auto simp: step_def split: if_splits)
  }
qed auto

lemma retireTokens_simps [simp]:
  "machines (retireTokens db mid hs) = machines db" "enrollments (retireTokens db mid hs) = enrollments db"
  "directives (retireTokens db mid hs) = directives db" "users (retireTokens db mid hs) = users db"
  by (simp_all add: retireTokens_def)

lemma retired_retireTokens:
  "retired_hashes (retireTokens db mid hs) = retired_hashes db \<union> (set hs - {[]})"
  "set (retired db) \<subseteq> set (retired (retireTokens db mid hs))"
  "set (retired (retireTokens db mid hs)) \<subseteq> set (retired db) \<union> {(h, mid) |h. h \<in> set hs}"
  "distinct (map fst (retired db)) \<Longrightarrow> distinct (map fst (retired (retireTokens db mid hs)))"
  using retire_fold [where mid = mid and rs = "retired db" and hs = hs] by (simp_all add: retireTokens_def)

lemma retireTokens_new:
  assumes "h \<in> set hs" and "h \<noteq> []" and "h \<notin> retired_hashes db"
  shows "(h, mid) \<in> set (retired (retireTokens db mid hs))"
proof -
  have "h \<in> retired_hashes (retireTokens db mid hs)" using assms by (simp add: retired_retireTokens)
  then obtain x where "(h, x) \<in> set (retired (retireTokens db mid hs))" by auto
  moreover from this assms(3) have "x = mid" using retired_retireTokens(3) [of db mid hs] by force
  ultimately show ?thesis by simp
qed

lemma update_machines_simps [simp]:
  "retired (update_machines P f db) = retired db" "enrollments (update_machines P f db) = enrollments db"
  "directives (update_machines P f db) = directives db" "users (update_machines P f db) = users db"
  "machines (update_machines P f db) = map (\<lambda>m. if P m then f m else m) (machines db)"
  by (simp_all add: update_machines_def)

text \<open>
  The one way tokens change: the machine \<open>mid\<close> gets tokens among its own and fresh ones, and those it no
  longer has are retired.
\<close>

lemma tokens_ok_replace:
  assumes ok: "tokens_ok db" and m: "m \<in> set (machines db)" "m_id m = mid"
    and f: "m_id (f m) = mid" "m_token (f m) \<noteq> None \<longrightarrow> m_token (f m) \<noteq> m_prev (f m)"
      "m_revoked (f m) \<noteq> None \<longrightarrow> live (f m) = {}"
    and new: "\<forall>h \<in> live (f m). h \<in> live m \<or> fresh_token db h"
    and gone: "set hs - {[]} \<subseteq> live m - live (f m)"
  shows "tokens_ok (update_machines (\<lambda>x. m_id x = mid) f (retireTokens db mid hs))" (is "tokens_ok ?db")
proof -
  have ms: "machines ?db = map (\<lambda>x. if x = m then f m else x) (machines db)"
  proof -
    have "m_id x = mid \<longleftrightarrow> x = m" if "x \<in> set (machines db)" for x
      using machine_unique [OF ok that m(1)] m(2) by metis
    then show ?thesis by (simp cong: map_cong)
  qed
  have R: "retired_hashes ?db = retired_hashes db \<union> (set hs - {[]})" by (simp add: retired_retireTokens)
  have inm: "y = f m \<or> (y \<in> set (machines db) \<and> y \<noteq> m)" if "y \<in> set (machines ?db)" for y
    using that unfolding ms by auto
  have clash: "m_id x = m_id y" if "x \<in> set (machines db)" "y \<in> set (machines db)" "h \<in> live x" "h \<in> live y" for x y h
    using live_unique [OF ok that(1,2)] that by blast
  have other: "h \<notin> live y" if "y \<in> set (machines db)" "y \<noteq> m" "h \<in> live (f m)" for y h
    using that new live_unique [OF ok that(1) m(1)] by (auto simp: fresh_token_def)
  have ids: "map m_id (machines ?db) = map m_id (machines db)"
    unfolding ms using f(1) m(2) by auto
  then have ids_set: "m_id ` set (machines ?db) = m_id ` set (machines db)" by (simp only: set_map [symmetric])
  show ?thesis
  proof (rule tokens_okI)
    show "distinct (map m_id (machines ?db))" unfolding ids by (rule tokens_okD(1) [OF ok])
    show "distinct (map fst (retired ?db))"
      using tokens_okD(6) [OF ok] retired_retireTokens(4) [of db] by simp
    have "set (retired ?db) \<subseteq> set (retired db) \<union> {(h, mid) |h. h \<in> set hs}"
      using retired_retireTokens(3) by simp
    then have "snd ` set (retired ?db) \<subseteq> insert mid (snd ` set (retired db))" by force
    moreover have "mid \<in> m_id ` set (machines db)" using m by blast
    ultimately show "snd ` set (retired ?db) \<subseteq> m_id ` set (machines ?db)"
      unfolding ids_set using tokens_okD(7) [OF ok] by blast
  next
    fix x y assume "x \<in> set (machines ?db)" "y \<in> set (machines ?db)" "live x \<inter> live y \<noteq> {}"
    with inm [of x] inm [of y] other clash show "m_id x = m_id y" by blast
  next
    fix x assume "x \<in> set (machines ?db)"
    with inm [of x] f(2) tokens_okD(3) [OF ok] show "m_token x \<noteq> None \<longrightarrow> m_token x \<noteq> m_prev x" by blast
  next
    fix x assume "x \<in> set (machines ?db)"
    with inm [of x] f(3) tokens_okD(5) [OF ok] show "m_revoked x \<noteq> None \<longrightarrow> live x = {}" by blast
  next
    fix x assume x: "x \<in> set (machines ?db)"
    have "h \<noteq> [] \<and> h \<notin> retired_hashes ?db" if h: "h \<in> live x" for h
    proof (cases "x = f m")
      case True
      with new h have "h \<in> live m \<or> fresh_token db h" by blast
      then have "h \<noteq> [] \<and> h \<notin> retired_hashes db"
        using live_not_retired [OF ok m(1)] by (auto simp: fresh_token_def)
      with h gone True show ?thesis unfolding R by blast
    next
      case False
      with inm [OF x] have y: "x \<in> set (machines db)" "x \<noteq> m" by blast+
      then have "h \<notin> live m" using live_unique [OF ok y(1) m(1) h] by blast
      with gone live_not_retired [OF ok y(1) h] show ?thesis unfolding R by blast
    qed
    then show "live x \<inter> insert [] (retired_hashes ?db) = {}" by blast
  qed
qed

text \<open>An update that keeps every token, and the ID and the revocation of every machine.\<close>

definition keeps_tokens :: "(machine_row \<Rightarrow> machine_row) \<Rightarrow> bool" where
  "keeps_tokens f \<longleftrightarrow> (\<forall>m. m_id (f m) = m_id m \<and> m_token (f m) = m_token m \<and> m_prev (f m) = m_prev m
      \<and> m_revoked (f m) = m_revoked m)"

lemma tokens_ok_update:
  assumes "tokens_ok db" and "keeps_tokens f"
  shows "tokens_ok (update_machines P f db)"
proof -
  let ?g = "\<lambda>m. if P m then f m else m"
  have g: "m_id (?g m) = m_id m" "m_token (?g m) = m_token m" "m_prev (?g m) = m_prev m"
    "m_revoked (?g m) = m_revoked m" for m
    using assms(2) by (auto simp: keeps_tokens_def)
  then have l: "live (?g m) = live m" for m by (simp only: live_def)
  show ?thesis
    using tokens_okD [OF assms(1)] unfolding tokens_ok_def
    by (simp only: update_machines_simps set_map ball_simps map_map comp_def image_image g l)
qed

lemma keeps_tokens_updates [intro]:
  "keeps_tokens (\<lambda>m. m\<lparr>m_caps := a, m_claude := b, m_llm_state := c\<rparr>)"
  "keeps_tokens (m_aside_update f1)" "keeps_tokens (m_paused_update f2)" "keeps_tokens (m_priority_update f3)"
  "keeps_tokens (m_connected_to_update f4)" "keeps_tokens (m_seen_update f5)"
  by (simp_all add: keeps_tokens_def)

lemma tokens_ok_directives [simp]: "tokens_ok (directives_update f db) = tokens_ok db"
  "tokens_ok (enrollments_update g db) = tokens_ok db"
  by (simp_all add: tokens_ok_def)

lemma find_live_Some: "find_live db mid = Some m \<Longrightarrow> m \<in> set (machines db) \<and> m_id m = mid \<and> m_revoked m = None"
  by (auto simp: find_live_def dest: find_Some_in)

subsection \<open>What the token operations do\<close>

abbreviation of_machine :: "string \<Rightarrow> machine_row \<Rightarrow> bool" where
  "of_machine mid \<equiv> \<lambda>x. m_id x = mid"

lemma rotate_form:
  assumes "RotateMachineToken db mid p n = Inr db'" and ok: "tokens_ok db"
  obtains m hs where "find_live db mid = Some m" and "p \<in> live m" and "set hs - {[]} = live m - {p}"
    and "db' = update_machines (of_machine mid) (\<lambda>x. x\<lparr>m_token := Some n, m_prev := Some p\<rparr>) (retireTokens db mid hs)"
proof -
  from assms(1) obtain m where m: "find_live db mid = Some m"
    by (auto simp: RotateMachineToken_def split: option.splits)
  then have mem: "m \<in> set (machines db)" using find_live_Some by blast
  have ne: "h \<noteq> []" if "h \<in> live m" for h using live_not_retired [OF ok mem that] by blast
  have tp: "m_token m = Some h \<Longrightarrow> m_prev m \<noteq> Some h" for h using tokens_okD(3) [OF ok] mem by auto
  from assms(1) m obtain c q hs where r: "rotateTokens (coalesce (m_token m)) (coalesce (m_prev m)) p n = Some (c, q, hs)"
    and db': "db' = update_machines (of_machine mid) (\<lambda>x. x\<lparr>m_token := Some c, m_prev := nullif q\<rparr>) (retireTokens db mid hs)"
    by (auto simp: RotateMachineToken_def split: option.splits prod.splits if_splits)
  from r have "p \<in> live m \<and> c = n \<and> q = p \<and> p \<noteq> [] \<and> set hs - {[]} = live m - {p}"
    using ne tp by (cases "m_token m"; cases "m_prev m") (auto simp: rotateTokens_def live_iff live_def split: if_splits)
  with that [OF m, of hs] db' show thesis by simp
qed

lemma confirm_form:
  assumes "ConfirmMachineToken db mid c = Inr db'" and ok: "tokens_ok db"
  obtains m hs where "find_live db mid = Some m" and "m_token m = Some c" and "set hs - {[]} = live m - {c}"
    and "db' = update_machines (of_machine mid) (\<lambda>x. x\<lparr>m_prev := None\<rparr>) (retireTokens db mid hs)"
proof -
  from assms(1) obtain m where m: "find_live db mid = Some m"
    by (auto simp: ConfirmMachineToken_def split: option.splits)
  then have mem: "m \<in> set (machines db)" using find_live_Some by blast
  have tp: "m_token m = Some h \<Longrightarrow> m_prev m \<noteq> Some h" for h using tokens_okD(3) [OF ok] mem by auto
  have ne: "h \<noteq> []" if "h \<in> live m" for h using live_not_retired [OF ok mem that] by blast
  from assms(1) m obtain q hs where r: "confirmToken (coalesce (m_token m)) (coalesce (m_prev m)) c = Some (q, hs)"
    and db': "db' = update_machines (of_machine mid) (\<lambda>x. x\<lparr>m_prev := nullif q\<rparr>) (retireTokens db mid hs)"
    by (auto simp: ConfirmMachineToken_def split: option.splits prod.splits if_splits)
  from r have "m_token m = Some c \<and> q = [] \<and> set hs - {[]} = live m - {c}"
    using tp ne by (cases "m_token m"; cases "m_prev m") (auto simp: confirmToken_def live_iff live_def split: if_splits)
  with that [OF m, of hs] db' show thesis by simp
qed

lemma revoke_form:
  assumes "RevokeMachine db mid reason now = Inr (db', ds)"
  obtains m where "m \<in> set (machines db)" and "m_id m = mid" and "m_revoked m \<noteq> None" and "db' = db" and "ds = []"
    | m hs f where "m \<in> set (machines db)" and "m_id m = mid" and "m_revoked m = None" and "set hs - {[]} \<subseteq> live m" and "live m \<subseteq> set hs"
      and "db' = directives_update f (update_machines (of_machine mid)
        (\<lambda>x. x\<lparr>m_revoked := Some now, m_reason := reason, m_token := None, m_prev := None, m_connected_to := []\<rparr>) (retireTokens db mid hs))"
proof -
  from assms obtain m where g: "GetMachine db mid = Some m" by (auto simp: RevokeMachine_def split: option.splits)
  then have m: "m \<in> set (machines db)" "m_id m = mid" by (auto simp: GetMachine_def dest: find_Some_in)
  let ?hs = "[coalesce (m_token m), coalesce (m_prev m)]"
  show thesis
  proof (cases "m_revoked m")
    case None
    have hs: "set ?hs - {[]} \<subseteq> live m" "live m \<subseteq> set ?hs"
      by (cases "m_token m"; cases "m_prev m"; auto simp: live_def)+
    from assms g None show thesis
      by (intro that(2) [OF m None hs,
            of "\<lambda>_. map (\<lambda>d. if d_machine d = mid \<and> is_open d
                 then d\<lparr>d_state := DirectiveRevoked, d_closed := Some now, d_error := reason\<rparr> else d) (directives db)"])
        (auto simp: RevokeMachine_def Let_def)
  next
    case (Some t)
    with assms g that(1) [OF m] show thesis by (simp add: RevokeMachine_def)
  qed
qed

lemma rotate_ok:
  assumes "tokens_ok db" and "RotateMachineToken db mid p n = Inr db'" and "fresh_token db n"
  shows "tokens_ok db'"
  using assms(2,1)
proof (rule rotate_form)
  fix m hs assume m: "find_live db mid = Some m" and p: "p \<in> live m" and hs: "set hs - {[]} = live m - {p}"
    and db': "db' = update_machines (of_machine mid) (\<lambda>x. x\<lparr>m_token := Some n, m_prev := Some p\<rparr>) (retireTokens db mid hs)"
  have mem: "m \<in> set (machines db)" "m_id m = mid" "m_revoked m = None" using find_live_Some [OF m] by auto
  have "n \<notin> live m" using assms(3) mem(1) by (auto simp: fresh_token_def)
  with p have np: "n \<noteq> p" by blast
  show "tokens_ok db'" unfolding db'
  proof (rule tokens_ok_replace [OF assms(1) mem(1,2)])
    show "set hs - {[]} \<subseteq> live m - live (m\<lparr>m_token := Some n, m_prev := Some p\<rparr>)"
      using hs \<open>n \<notin> live m\<close> by (auto simp: live_def)
    show "\<forall>h \<in> live (m\<lparr>m_token := Some n, m_prev := Some p\<rparr>). h \<in> live m \<or> fresh_token db h"
      using assms(3) p by (auto simp: live_def)
  qed (use mem np in simp_all)
qed

lemma confirm_ok:
  assumes "tokens_ok db" and "ConfirmMachineToken db mid c = Inr db'"
  shows "tokens_ok db'"
  using assms(2,1)
proof (rule confirm_form)
  fix m hs assume m: "find_live db mid = Some m" and c: "m_token m = Some c" and hs: "set hs - {[]} = live m - {c}"
    and db': "db' = update_machines (of_machine mid) (\<lambda>x. x\<lparr>m_prev := None\<rparr>) (retireTokens db mid hs)"
  have mem: "m \<in> set (machines db)" "m_id m = mid" "m_revoked m = None" using find_live_Some [OF m] by auto
  show "tokens_ok db'" unfolding db'
  proof (rule tokens_ok_replace [OF assms(1) mem(1,2)])
    show "set hs - {[]} \<subseteq> live m - live (m\<lparr>m_prev := None\<rparr>)" using hs c by (auto simp: live_def)
    show "\<forall>h \<in> live (m\<lparr>m_prev := None\<rparr>). h \<in> live m \<or> fresh_token db h" by (auto simp: live_def)
  qed (use mem in \<open>simp_all add: c\<close>)
qed

lemma revoke_ok:
  assumes "tokens_ok db" and "RevokeMachine db mid reason now = Inr (db', ds)"
  shows "tokens_ok db'"
  using assms(2)
proof (rule revoke_form)
  fix m hs and f :: "directive list \<Rightarrow> directive list"
  let ?f = "\<lambda>x. x\<lparr>m_revoked := Some now, m_reason := reason, m_token := None, m_prev := None, m_connected_to := []\<rparr>"
  assume m: "m \<in> set (machines db)" "m_id m = mid" "m_revoked m = None" and hs: "set hs - {[]} \<subseteq> live m"
    and db': "db' = directives_update f (update_machines (of_machine mid) ?f (retireTokens db mid hs))"
  have "tokens_ok (update_machines (of_machine mid) ?f (retireTokens db mid hs))"
    by (rule tokens_ok_replace [OF assms(1) m(1,2)]) (use m hs in \<open>auto simp: live_def\<close>)
  then show "tokens_ok db'" unfolding db' by simp
qed (use assms(1) in simp)

lemma redeem_form:
  assumes "RedeemMachineEnrollment db kind secret info mid h now = Inr (db', m)"
  obtains e u where "find (\<lambda>e. e_kind e = kind \<and> e_secret e = secret) (enrollments db) = Some e"
    and "e_machine e = []" and "now < e_expires e" and "e_approved_by e = Some u"
    and "m = new_machine mid u (if kind = EnrollmentDevice then e_info e else info) h now"
    and "mid \<notin> m_id ` set (machines db)"
    and "db' = db\<lparr>machines := machines db @ [m],
           enrollments := map (\<lambda>x. if e_id x = e_id e then x\<lparr>e_machine := mid\<rparr> else x) (enrollments db)\<rparr>"
proof -
  from assms obtain e where e: "find (\<lambda>e. e_kind e = kind \<and> e_secret e = secret) (enrollments db) = Some e"
    by (auto simp: RedeemMachineEnrollment_def split: option.splits)
  from assms e have m: "e_machine e = []" and x: "now < e_expires e"
    by (auto simp: RedeemMachineEnrollment_def split: if_splits)
  from assms e m x obtain u where u: "e_approved_by e = Some u"
    by (auto simp: RedeemMachineEnrollment_def split: option.splits)
  let ?m = "new_machine mid u (if kind = EnrollmentDevice then e_info e else info) h now"
  from assms e m x u have free: "\<not> list_ex (\<lambda>x. m_id x = mid \<or> m_token x = Some h) (machines db)"
    by (auto simp: RedeemMachineEnrollment_def Let_def split: if_splits)
  then have "mid \<notin> m_id ` set (machines db)" by (auto simp: list_ex_iff)
  moreover from assms e m x u free have "m = ?m \<and> db' = db\<lparr>machines := machines db @ [?m],
           enrollments := map (\<lambda>x. if e_id x = e_id e then x\<lparr>e_machine := mid\<rparr> else x) (enrollments db)\<rparr>"
    by (auto simp: RedeemMachineEnrollment_def Let_def split: if_splits)
  ultimately show thesis using that [OF e m x u] by simp
qed

lemma redeem_ok:
  assumes ok: "tokens_ok db" and "RedeemMachineEnrollment db kind secret info mid h now = Inr (db', m)" and "fresh_token db h"
  shows "tokens_ok db'"
proof -
  obtain u i es where m: "m = new_machine mid u i h now" "mid \<notin> m_id ` set (machines db)"
    and db': "db' = enrollments_update (\<lambda>_. es) (db\<lparr>machines := machines db @ [m]\<rparr>)"
    using assms(2) by (rule redeem_form) (rule that, simp_all)
  have new: "m_id m = mid" "live m = {h}" "m_revoked m = None" "m_prev m = None" using m(1) by (auto simp: new_machine_def live_def)
  have f: "h \<noteq> []" "h \<notin> retired_hashes db" "\<And>x. x \<in> set (machines db) \<Longrightarrow> h \<notin> live x"
    using assms(3) by (auto simp: fresh_token_def)
  have "tokens_ok (db\<lparr>machines := machines db @ [m]\<rparr>)"
  proof (rule tokens_okI)
    show "distinct (map m_id (machines (db\<lparr>machines := machines db @ [m]\<rparr>)))"
      using tokens_okD(1) [OF ok] m(2) new(1) by simp
    show "distinct (map fst (retired (db\<lparr>machines := machines db @ [m]\<rparr>)))" using tokens_okD(6) [OF ok] by simp
    show "snd ` set (retired (db\<lparr>machines := machines db @ [m]\<rparr>)) \<subseteq> m_id ` set (machines (db\<lparr>machines := machines db @ [m]\<rparr>))"
      using tokens_okD(7) [OF ok] by auto
  next
    fix x y assume "x \<in> set (machines (db\<lparr>machines := machines db @ [m]\<rparr>))" "y \<in> set (machines (db\<lparr>machines := machines db @ [m]\<rparr>))"
      "live x \<inter> live y \<noteq> {}"
    then have "(x = m \<or> x \<in> set (machines db)) \<and> (y = m \<or> y \<in> set (machines db)) \<and> live x \<inter> live y \<noteq> {}" by simp
    moreover have "live z \<inter> live m = {}" "live m \<inter> live z = {}" if "z \<in> set (machines db)" for z
      using f(3) [OF that] new(2) by auto
    ultimately consider "x = m" "y = m" | "x \<in> set (machines db)" "y \<in> set (machines db)" "live x \<inter> live y \<noteq> {}" by metis
    then show "m_id x = m_id y"
    proof cases
      case 2
      with tokens_okD(2) [OF ok] show ?thesis by blast
    qed simp
  next
    fix x assume "x \<in> set (machines (db\<lparr>machines := machines db @ [m]\<rparr>))"
    then have x: "x = m \<or> x \<in> set (machines db)" by simp
    with new(4) tokens_okD(3) [OF ok] show "m_token x \<noteq> None \<longrightarrow> m_token x \<noteq> m_prev x" by auto
    have "live x \<inter> insert [] (retired_hashes db) = {}" using x
    proof
      assume "x = m"
      with new(2) f(1,2) show ?thesis by simp
    next
      assume "x \<in> set (machines db)"
      with tokens_okD(4) [OF ok] show ?thesis by (rule bspec)
    qed
    then show "live x \<inter> insert [] (retired_hashes (db\<lparr>machines := machines db @ [m]\<rparr>)) = {}" by simp
    from x new(3) tokens_okD(5) [OF ok] show "m_revoked x \<noteq> None \<longrightarrow> live x = {}" by auto
  qed
  then show ?thesis unfolding db' by simp
qed

subsection \<open>The life of the tables\<close>

datatype machine_op =
    OpRedeem enrollment_kind string machine_info string string time
  | OpRotate string string string
  | OpConfirm string string
  | OpRevoke string string time
  | OpConnected string string string machine_info time
  | OpStatus string "string list" string string
  | OpAside string time
  | OpClearAside string
  | OpPaused string string bool
  | OpPriority string string int
  | OpDisconnected string string
  | OpTouch "string list" time
  | OpResetConnections
  | OpCreateEnrollment enrollment time
  | OpApprove string string string time
  | OpDeleteExpired time

text \<open>An operation that fails leaves the tables as they were.\<close>

definition or_same :: "mdb \<Rightarrow> (db_error, mdb) result \<Rightarrow> mdb" where
  "or_same db r = (case r of Inl _ \<Rightarrow> db | Inr db' \<Rightarrow> db')"

fun machine_step :: "mdb \<Rightarrow> machine_op \<Rightarrow> mdb" where
  "machine_step db (OpRedeem kind secret info mid h now) =
     (case RedeemMachineEnrollment db kind secret info mid h now of Inl _ \<Rightarrow> db | Inr (db', _) \<Rightarrow> db')"
| "machine_step db (OpRotate mid presented nextHash) = or_same db (RotateMachineToken db mid presented nextHash)"
| "machine_step db (OpConfirm mid current) = or_same db (ConfirmMachineToken db mid current)"
| "machine_step db (OpRevoke mid reason now) = (case RevokeMachine db mid reason now of Inl _ \<Rightarrow> db | Inr (db', _) \<Rightarrow> db')"
| "machine_step db (OpConnected mid gateway addr hello now) =
     (case MachineConnected db mid gateway addr hello now of Inl _ \<Rightarrow> db | Inr (db', _) \<Rightarrow> db')"
| "machine_step db (OpStatus mid caps claude llm) = or_same db (UpdateMachineStatus db mid caps claude llm)"
| "machine_step db (OpAside mid now) = SetMachineAside db mid now"
| "machine_step db (OpClearAside mid) = ClearMachineAside db mid"
| "machine_step db (OpPaused u mid b) = or_same db (SetMachinePaused db u mid b)"
| "machine_step db (OpPriority u mid n) = or_same db (SetMachinePriority db u mid n)"
| "machine_step db (OpDisconnected mid gateway) = MachineDisconnected db mid gateway"
| "machine_step db (OpTouch ids now) = TouchMachines db ids now"
| "machine_step db OpResetConnections = ResetMachineConnections db"
| "machine_step db (OpCreateEnrollment e now) = or_same db (CreateMachineEnrollment db e now)"
| "machine_step db (OpApprove ident code u now) = or_same db (ApproveDeviceRequest db ident code u now)"
| "machine_step db (OpDeleteExpired now) = DeleteExpiredEnrollments db now"

text \<open>The tokens are drawn at random: a new one is fresh.\<close>

fun fresh_op :: "mdb \<Rightarrow> machine_op \<Rightarrow> bool" where
  "fresh_op db (OpRedeem kind secret info mid h now) = fresh_token db h"
| "fresh_op db (OpRotate mid presented nextHash) = fresh_token db nextHash"
| "fresh_op db _ = True"

inductive machine_reach :: "mdb \<Rightarrow> mdb \<Rightarrow> bool" for db where
  start: "machine_reach db db"
| step: "machine_reach db db' \<Longrightarrow> fresh_op db' op \<Longrightarrow> machine_reach db (machine_step db' op)"

lemmas cosmetic_defs = MachineConnected_def UpdateMachineStatus_def SetMachineAside_def ClearMachineAside_def
  SetMachinePaused_def SetMachinePriority_def MachineDisconnected_def TouchMachines_def ResetMachineConnections_def
  affectedOne_def or_same_def

lemma keeps_tokens_connected:
  "keeps_tokens (\<lambda>m. m\<lparr>m_connected_to := a, m_seen := b, m_connected_at := c, m_os := d, m_caps := e, m_max := f,
     m_version := g, m_last_addr := h m, m_claude := i, m_max_llm := j, m_llm_provider := k, m_llm_model := l, m_llm_state := n\<rparr>)"
  by (simp add: keeps_tokens_def)

text \<open>What one operation does to the tables: tokens that stay right, retired tokens that stay.\<close>

lemma machine_step_ok:
  assumes ok: "tokens_ok db" and fresh: "fresh_op db op"
  shows "tokens_ok (machine_step db op) \<and> set (retired db) \<subseteq> set (retired (machine_step db op))"
proof -
  have cosmetic: ?thesis if "\<exists>P f. keeps_tokens f \<and> machine_step db op = update_machines P f db \<or> machine_step db op = db"
    using that ok tokens_ok_update by auto
  show ?thesis
  proof (cases op)
    case (OpRedeem kind secret info mid h now)
    have "tokens_ok db' \<and> retired db' = retired db"
      if "RedeemMachineEnrollment db kind secret info mid h now = Inr (db', m)" for db' m
      using redeem_ok [OF ok that] fresh OpRedeem that by (auto elim!: redeem_form)
    with OpRedeem ok show ?thesis by (auto split: sum.splits)
  next
    case (OpRotate mid p n)
    have "tokens_ok db' \<and> set (retired db) \<subseteq> set (retired db')" if r: "RotateMachineToken db mid p n = Inr db'" for db'
      using rotate_ok [OF ok r] fresh OpRotate rotate_form [OF r ok] retired_retireTokens(2) by (metis fresh_op.simps(2) update_machines_simps(1))
    with OpRotate ok show ?thesis by (auto simp: or_same_def split: sum.splits)
  next
    case (OpConfirm mid c)
    have "tokens_ok db' \<and> set (retired db) \<subseteq> set (retired db')" if r: "ConfirmMachineToken db mid c = Inr db'" for db'
      using confirm_ok [OF ok r] confirm_form [OF r ok] retired_retireTokens(2) by (metis update_machines_simps(1))
    with OpConfirm ok show ?thesis by (auto simp: or_same_def split: sum.splits)
  next
    case (OpRevoke mid reason now)
    have "tokens_ok db' \<and> set (retired db) \<subseteq> set (retired db')" if r: "RevokeMachine db mid reason now = Inr (db', ds)" for db' ds
    proof
      show "tokens_ok db'" using revoke_ok [OF ok r] .
      show "set (retired db) \<subseteq> set (retired db')" using r
      proof (rule revoke_form)
        fix m hs and f :: "directive list \<Rightarrow> directive list"
        assume "db' = directives_update f (update_machines (of_machine mid)
          (\<lambda>x. x\<lparr>m_revoked := Some now, m_reason := reason, m_token := None, m_prev := None, m_connected_to := []\<rparr>) (retireTokens db mid hs))"
        then show "set (retired db) \<subseteq> set (retired db')" using retired_retireTokens(2) by simp
      qed simp
    qed
    with OpRevoke ok show ?thesis by (auto split: sum.splits)
  next
    case (OpCreateEnrollment e now)
    then show ?thesis using ok by (auto simp: CreateMachineEnrollment_def or_same_def)
  next
    case (OpApprove i c u now)
    then show ?thesis using ok by (auto simp: ApproveDeviceRequest_def or_same_def Let_def)
  next
    case (OpDeleteExpired now)
    then show ?thesis using ok by (simp add: DeleteExpiredEnrollments_def)
  next
    case (OpConnected mid gateway addr hello now)
    then show ?thesis
      by (intro cosmetic) (auto simp: cosmetic_defs split: option.splits intro!: exI conjI keeps_tokens_connected)
  qed (intro cosmetic; auto simp: cosmetic_defs)+
qed

lemma machine_reach_ok:
  "machine_reach db db' \<Longrightarrow> tokens_ok db \<Longrightarrow> tokens_ok db' \<and> set (retired db) \<subseteq> set (retired db')"
  by (induction rule: machine_reach.induct) (use machine_step_ok in blast)+

lemma GetMachine_id:
  assumes "tokens_ok db" and "m \<in> set (machines db)"
  shows "GetMachine db (m_id m) = Some m"
  unfolding GetMachine_def
proof (rule find_if_unique)
  fix y assume "y \<in> set (machines db)" "m_id y = m_id m"
  with machine_unique [OF assms(1) _ assms(2)] show "y = m" by blast
qed (use assms in simp_all)

lemma find_live_id:
  assumes "tokens_ok db" and "m \<in> set (machines db)" and "m_revoked m = None"
  shows "find_live db (m_id m) = Some m"
  unfolding find_live_def
proof (rule find_if_unique)
  fix y assume "y \<in> set (machines db)" "m_id y = m_id m \<and> m_revoked y = None"
  with machine_unique [OF assms(1) _ assms(2)] show "y = m" by blast
qed (use assms in simp_all)

lemma rotate_succeeds:
  assumes ok: "tokens_ok db" and m: "find_live db mid = Some m" and p: "p \<in> live m" and n: "fresh_token db n"
  shows "\<exists>db'. RotateMachineToken db mid p n = Inr db'"
proof -
  have mem: "m \<in> set (machines db)" "m_id m = mid" using find_live_Some [OF m] by auto
  have "p \<noteq> []" using live_not_retired [OF ok mem(1) p] by blast
  then have "\<exists>hs. rotateTokens (coalesce (m_token m)) (coalesce (m_prev m)) p n = Some (n, p, hs)"
    using p by (cases "m_token m"; cases "m_prev m") (auto simp: rotateTokens_def live_def)
  then obtain hs where r: "rotateTokens (coalesce (m_token m)) (coalesce (m_prev m)) p n = Some (n, p, hs)" by blast
  have "\<not> (m_token x = Some n \<or> m_prev x = Some p)" if x: "x \<in> set (machines db)" "m_id x \<noteq> mid" for x
  proof -
    have "p \<notin> live x" using live_unique [OF ok x(1) mem(1) _ p] x(2) mem(2) by blast
    with n x(1) show ?thesis by (auto simp: fresh_token_def live_iff)
  qed
  then have "\<not> list_ex (\<lambda>x. m_id x \<noteq> mid \<and> (m_token x = Some n \<or> (p \<noteq> [] \<and> m_prev x = Some p))) (machines db)"
    by (auto simp: list_ex_iff)
  with m r show ?thesis by (simp add: RotateMachineToken_def)
qed

lemma map_if_keeps: "x \<in> set xs \<Longrightarrow> \<not> P x \<Longrightarrow> x \<in> set (map (\<lambda>x. if P x then f x else x) xs)"
  by (induction xs) auto

lemma in_updated: "m \<in> set (machines db) \<Longrightarrow> P m \<Longrightarrow> f m \<in> set (machines (update_machines P f db))"
  by force

subsection \<open>Properties\<close>

text \<open>C29: a token's rotation never locks a machine out. On a connection that presented one of the machine's
  tokens it succeeds: the new token is current, and the one presented still opens the machine until the new one
  is confirmed; confirming it succeeds, and the old one is then known as retired.\<close>

theorem rotation_never_locks_out:
  assumes ok: "tokens_ok db" and m: "find_live db mid = Some m" and p: "p \<in> live m" and n: "fresh_token db n"
  shows "\<exists>db1 db2 m1 m2 m3. RotateMachineToken db mid p n = Inr db1
    \<and> MachineByToken db1 n = (Some m1, TokenCurrent) \<and> m_id m1 = mid
    \<and> MachineByToken db1 p = (Some m1, TokenPending)
    \<and> ConfirmMachineToken db1 mid n = Inr db2
    \<and> MachineByToken db2 n = (Some m2, TokenCurrent) \<and> m_id m2 = mid
    \<and> MachineByToken db2 p = (Some m3, TokenRetired) \<and> m_id m3 = mid"
proof -
  have mem: "m \<in> set (machines db)" "m_id m = mid" "m_revoked m = None" using find_live_Some [OF m] by auto
  obtain db1 where r: "RotateMachineToken db mid p n = Inr db1" using rotate_succeeds [OF assms] by blast
  have ok1: "tokens_ok db1" using rotate_ok [OF ok r n] .
  define m1 where "m1 = m\<lparr>m_token := Some n, m_prev := Some p\<rparr>"
  have m1: "m1 \<in> set (machines db1)"
    using r ok by (rule rotate_form) (use m mem in \<open>auto simp: m1_def\<close>)
  have np: "n \<noteq> p" using n p mem(1) by (auto simp: fresh_token_def)
  have ids1: "find_live db1 mid = Some m1"
    using find_live_id [OF ok1 m1] mem by (simp add: m1_def)
  have cur: "MachineByToken db1 n = (Some m1, TokenCurrent)"
    using MachineByToken_live [OF ok1 m1, of n] by (simp add: m1_def live_def)
  have pend: "MachineByToken db1 p = (Some m1, TokenPending)"
    using MachineByToken_live [OF ok1 m1, of p] np by (simp add: m1_def live_def)
  have "n \<noteq> []" using n by (simp add: fresh_token_def)
  moreover have "p \<noteq> []" using live_not_retired [OF ok mem(1) p] by blast
  ultimately have c: "ConfirmMachineToken db1 mid n =
      Inr (update_machines (of_machine mid) (\<lambda>x. x\<lparr>m_prev := None\<rparr>) (retireTokens db1 mid [p]))"
    by (simp add: ConfirmMachineToken_def ids1 confirmToken_def m1_def)
  define db2 where "db2 = update_machines (of_machine mid) (\<lambda>x. x\<lparr>m_prev := None\<rparr>) (retireTokens db1 mid [p])"
  have ok2: "tokens_ok db2" using confirm_ok [OF ok1 c] by (simp add: db2_def)
  have "m1\<lparr>m_prev := None\<rparr> \<in> set (machines db2)"
    unfolding db2_def using m1 mem(2) by (intro in_updated) (auto simp: m1_def)
  from MachineByToken_live [OF ok2 this, of n] have cur2: "MachineByToken db2 n = (Some (m1\<lparr>m_prev := None\<rparr>), TokenCurrent)"
    by (simp add: m1_def live_def)
  have "p \<notin> retired_hashes db1" using live_not_retired [OF ok1 m1, of p] by (simp add: m1_def live_def)
  then have "(p, mid) \<in> set (retired db2)"
    using retireTokens_new [of p "[p]" db1 mid] \<open>p \<noteq> []\<close> by (simp add: db2_def)
  from MachineByToken_retired [OF ok2 this] obtain m3 where "m_id m3 = mid" "MachineByToken db2 p = (Some m3, TokenRetired)" by blast
  with r cur pend c cur2 mem(2) show ?thesis by (auto simp: db2_def m1_def)
qed

definition laptop_info :: machine_info where
  "laptop_info = \<lparr>i_name = ''laptop'', i_os = [], i_caps = [], i_max = 1, i_version = [], i_claude = [],
     i_max_llm = 0, i_llm_provider = [], i_llm_model = [], i_llm_state = []\<rparr>"

definition laptop :: machine_row where
  "laptop = new_machine ''m1'' ''alice'' laptop_info ''h0'' 0"

definition laptop_db :: mdb where
  "laptop_db = \<lparr>users = [''alice''], machines = [laptop], retired = [], directives = [], enrollments = []\<rparr>"

lemma laptop_ok: "tokens_ok laptop_db"
  by (rule tokens_okI) (auto simp: laptop_db_def laptop_def new_machine_def live_def)

lemma laptop_live: "find_live laptop_db ''m1'' = Some laptop" "''h0'' \<in> live laptop"
  by (simp_all add: find_live_def laptop_db_def laptop_def new_machine_def live_def)

lemma laptop_fresh: "fresh_token laptop_db ''h1''"
  by (simp add: fresh_token_def laptop_db_def laptop_def new_machine_def live_def)

theorem rotation_never_locks_out_witness:
  "\<exists>db1 m1. RotateMachineToken laptop_db ''m1'' ''h0'' ''h1'' = Inr db1 \<and> MachineByToken db1 ''h0'' = (Some m1, TokenPending)"
  using rotation_never_locks_out [OF laptop_ok laptop_live laptop_fresh] by blast

text \<open>a token replaced for good is recognised as such for ever. Whatever the tables go through, enrollments,
  rotations, confirmations, revocations, connections, in any order and with new tokens drawn fresh: a retired
  token presented again is never taken for a machine's, and names the machine a copy of it was stolen from.\<close>

theorem retired_token_recognised_for_ever:
  assumes "tokens_ok db" and "(h, mid) \<in> set (retired db)" and "machine_reach db db'"
  shows "\<exists>m. m_id m = mid \<and> MachineByToken db' h = (Some m, TokenRetired)"
proof -
  have "tokens_ok db'" "(h, mid) \<in> set (retired db')" using machine_reach_ok [OF assms(3,1)] assms(2) by auto
  then show ?thesis using MachineByToken_retired by blast
qed

theorem retired_token_recognised_for_ever_witness:
  "\<exists>m. m_id m = ''m1'' \<and> MachineByToken (machine_step (laptop_db\<lparr>retired := [(''old'', ''m1'')]\<rparr>) (OpRotate ''m1'' ''h0'' ''h1'')) ''old''
       = (Some m, TokenRetired)"
proof -
  let ?db = "laptop_db\<lparr>retired := [(''old'', ''m1'')]\<rparr>"
  have "tokens_ok ?db" by (rule tokens_okI) (auto simp: laptop_db_def laptop_def new_machine_def live_def)
  moreover have "fresh_op ?db (OpRotate ''m1'' ''h0'' ''h1'')"
    by (simp add: fresh_token_def laptop_db_def laptop_def new_machine_def live_def)
  with machine_reach.step [OF machine_reach.start] have "machine_reach ?db (machine_step ?db (OpRotate ''m1'' ''h0'' ''h1''))" .
  ultimately show ?thesis by (intro retired_token_recognised_for_ever [of ?db]) (simp_all add: laptop_db_def)
qed

text \<open>a revocation is final. The machine's tokens no longer open it and are recognised as retired, its
  gateway no longer holds it, its open directives are closed and handed back, the others untouched; revoking it
  again does nothing.\<close>

theorem revocation_is_final:
  assumes ok: "tokens_ok db" and m: "find_live db mid = Some m"
  shows "\<exists>db' ds. RevokeMachine db mid reason now = Inr (db', ds)
    \<and> (\<forall>h \<in> live m. \<exists>m'. m_id m' = mid \<and> MachineByToken db' h = (Some m', TokenRetired))
    \<and> find_live db' mid = None
    \<and> \<not> (\<exists>d \<in> set (directives db'). d_machine d = mid \<and> is_open d)
    \<and> map d_id ds = map d_id (filter (\<lambda>d. d_machine d = mid \<and> is_open d) (directives db))
    \<and> (\<forall>d \<in> set (directives db). \<not> (d_machine d = mid \<and> is_open d) \<longrightarrow> d \<in> set (directives db'))
    \<and> RevokeMachine db' mid reason' now' = Inr (db', [])"
proof -
  have mem: "m \<in> set (machines db)" "m_id m = mid" "m_revoked m = None" using find_live_Some [OF m] by auto
  have get: "GetMachine db mid = Some m"
    using GetMachine_id [OF ok mem(1)] mem(2) by simp
  let ?f = "\<lambda>x. x\<lparr>m_revoked := Some now, m_reason := reason, m_token := None, m_prev := None, m_connected_to := []\<rparr>"
  let ?g = "\<lambda>d. d\<lparr>d_state := DirectiveRevoked, d_closed := Some now, d_error := reason\<rparr>"
  let ?hit = "\<lambda>d. d_machine d = mid \<and> is_open d"
  let ?hs = "[coalesce (m_token m), coalesce (m_prev m)]"
  define db' where "db' = (update_machines (of_machine mid) ?f (retireTokens db mid ?hs))
      \<lparr>directives := map (\<lambda>d. if ?hit d then ?g d else d) (directives db)\<rparr>"
  have r: "RevokeMachine db mid reason now = Inr (db', map ?g (filter ?hit (directives db)))"
    by (simp add: RevokeMachine_def get mem(3) Let_def db'_def)
  have ok': "tokens_ok db'" using revoke_ok [OF ok r] .
  have a: "\<exists>m'. m_id m' = mid \<and> MachineByToken db' h = (Some m', TokenRetired)" if h: "h \<in> live m" for h
  proof -
    have "h \<noteq> []" "h \<notin> retired_hashes db" using live_not_retired [OF ok mem(1) h] by auto
    moreover have "h \<in> set ?hs" using h by (auto simp: live_def)
    ultimately have "(h, mid) \<in> set (retired db')" using retireTokens_new by (simp add: db'_def)
    from MachineByToken_retired [OF ok' this] show ?thesis by blast
  qed
  have "m_revoked x \<noteq> None" if x: "x \<in> set (machines db')" "m_id x = mid" for x
  proof -
    have "?f m \<in> set (machines db')" using mem by (force simp: db'_def)
    from machine_unique [OF ok' x(1) this] x(2) mem(2) have "x = ?f m" by simp
    then show ?thesis by simp
  qed
  then have b: "find_live db' mid = None" unfolding find_live_def find_None_iff by metis
  have "\<forall>d \<in> set (directives db'). \<not> ?hit d"
  proof -
    have "\<not> is_open (?g d)" for d by (simp add: is_open_def)
    then have "\<not> ?hit (if ?hit d then ?g d else d)" for d by simp
    moreover have "directives db' = map (\<lambda>d. if ?hit d then ?g d else d) (directives db)" by (simp add: db'_def)
    ultimately show ?thesis by (simp only: set_map ball_simps) blast
  qed
  then have c: "\<not> (\<exists>d \<in> set (directives db'). ?hit d)" by blast
  have f: "RevokeMachine db' mid reason' now' = Inr (db', [])"
  proof -
    have in': "?f m \<in> set (machines db')" using mem by (force simp: db'_def)
    have "GetMachine db' mid = Some (?f m)" using GetMachine_id [OF ok' in'] mem(2) by simp
    then show ?thesis by (simp add: RevokeMachine_def)
  qed
  have e: "d \<in> set (directives db')" if "d \<in> set (directives db)" "\<not> ?hit d" for d
    using map_if_keeps [where P = ?hit, OF that] by (simp add: db'_def del: set_map)
  have d: "map d_id (map ?g (filter ?hit (directives db))) = map d_id (filter ?hit (directives db))" by simp
  show ?thesis
    by (rule exI, rule exI, intro conjI ballI impI, rule r, erule a, rule b, rule c, rule d, erule (1) e, rule f)
qed

theorem revocation_is_final_witness:
  "\<exists>db' ds m'. RevokeMachine laptop_db ''m1'' ''reused'' 5 = Inr (db', ds) \<and> MachineByToken db' ''h0'' = (Some m', TokenRetired)"
  using revocation_is_final [OF laptop_ok laptop_live(1), of "''reused''" 5] laptop_live(2) by blast

text \<open>an enrollment gives one machine at most, to who approved it. When it gives one: it was approved, not
  expired and not used; the machine is its approver's, described for a device request as it was when the request was
  made; and the same secret presented again, whatever the machine says then, is an unknown enrollment.\<close>

theorem enrollment_gives_one_machine:
  assumes "RedeemMachineEnrollment db kind secret info mid h now = Inr (db', m)"
    and "mid \<noteq> []" and "distinct (map e_id (enrollments db))"
  shows "(\<exists>e \<in> set (enrollments db). e_kind e = kind \<and> e_secret e = secret \<and> e_approved_by e = Some (m_user m) \<and> now < e_expires e
      \<and> (kind = EnrollmentDevice \<longrightarrow> m_name m = i_name (e_info e) \<and> m_caps m = i_caps (e_info e)))
    \<and> m \<in> set (machines db') \<and> m_token m = Some h
    \<and> RedeemMachineEnrollment db' kind secret info' mid' h' now' = Inl ErrEnrollmentUnknown"
  using assms(1)
proof (rule redeem_form)
  fix e u assume e: "find (\<lambda>e. e_kind e = kind \<and> e_secret e = secret) (enrollments db) = Some e"
    and facts: "e_machine e = []" "now < e_expires e" "e_approved_by e = Some u"
      "m = new_machine mid u (if kind = EnrollmentDevice then e_info e else info) h now"
    and db': "db' = db\<lparr>machines := machines db @ [m],
           enrollments := map (\<lambda>x. if e_id x = e_id e then x\<lparr>e_machine := mid\<rparr> else x) (enrollments db)\<rparr>"
  have mem: "e \<in> set (enrollments db)" "e_kind e = kind" "e_secret e = secret" using find_Some_in [OF e] by auto
  let ?P = "\<lambda>e. e_kind e = kind \<and> e_secret e = secret" and ?g = "\<lambda>x. if e_id x = e_id e then x\<lparr>e_machine := mid\<rparr> else x"
  have "find ?P (map ?g es) = Some (e\<lparr>e_machine := mid\<rparr>)" if "find ?P es = Some e" for es
    using that by (induction es) (auto split: if_splits)
  from this [OF e] have "find ?P (enrollments db') = Some (e\<lparr>e_machine := mid\<rparr>)" by (simp add: db')
  then have "RedeemMachineEnrollment db' kind secret info' mid' h' now' = Inl ErrEnrollmentUnknown"
    using assms(2) by (simp add: RedeemMachineEnrollment_def)
  moreover have "m_user m = u" "m_token m = Some h" "kind = EnrollmentDevice \<longrightarrow> m_name m = i_name (e_info e) \<and> m_caps m = i_caps (e_info e)"
    by (simp_all add: facts(4) new_machine_def)
  ultimately show ?thesis using mem facts db' by auto
qed

theorem enrollment_gives_one_machine_witness:
  "let db = laptop_db\<lparr>enrollments := [\<lparr>e_id = ''e'', e_kind = EnrollmentToken, e_secret = ''s'', e_user_code = None,
        e_info = laptop_info, e_client_addr = [], e_created = 0, e_expires = 10, e_approved_by = Some ''alice'', e_machine = []\<rparr>]\<rparr>
   in \<exists>db' m. RedeemMachineEnrollment db EnrollmentToken ''s'' laptop_info ''m2'' ''h2'' 5 = Inr (db', m)
      \<and> RedeemMachineEnrollment db' EnrollmentToken ''s'' laptop_info ''m3'' ''h3'' 6 = Inl ErrEnrollmentUnknown"
proof -
  define db where "db = laptop_db\<lparr>enrollments := [\<lparr>e_id = ''e'', e_kind = EnrollmentToken, e_secret = ''s'', e_user_code = None,
        e_info = laptop_info, e_client_addr = [], e_created = 0, e_expires = 10, e_approved_by = Some ''alice'', e_machine = []\<rparr>]\<rparr>"
  obtain db' m where r: "RedeemMachineEnrollment db EnrollmentToken ''s'' laptop_info ''m2'' ''h2'' 5 = Inr (db', m)"
    by (simp add: RedeemMachineEnrollment_def db_def laptop_db_def laptop_def new_machine_def Let_def)
  from enrollment_gives_one_machine [OF this] r show ?thesis
    unfolding Let_def db_def [symmetric] by (auto simp: db_def)
qed

end
