(* ===== verification/Directives.thy ===== *)
theory Directives
  imports Machines "HOL-Library.Product_Lexorder"
begin

section \<open>Directives: a task for a machine\<close>

text \<open>
  The second half of \<open>store/machine.go\<close> and \<open>store/machine_llm.go\<close>: choosing one of a user's machines,
  reserving a directive on it, handing it over, ending it, sweeping those nobody will end, and the calls to
  the model, under a cap of their own. Reservation and directive are one row; a machine's load is its open
  rows. \<open>ORDER BY m.id\<close> is the order of the bytes here: the choice does not depend on it (the theorem on
  \<open>chooseMachine\<close> gives the machine whatever the order).
\<close>

definition llmKind :: string where "llmKind = ''llm''"

definition llmCapability :: string where "llmCapability = ''llm''"

definition user_machines :: "mdb \<Rightarrow> string \<Rightarrow> machine_row list" where
  "user_machines db userID = sort_key m_id (filter (\<lambda>m. m_user m = userID \<and> m_revoked m = None) (machines db))"

text \<open>The coding runs a machine holds, and its calls to the model.\<close>

definition openRuns :: "mdb \<Rightarrow> string \<Rightarrow> nat" where
  "openRuns db mid = length (filter (\<lambda>d. d_machine d = mid \<and> is_open d \<and> d_kind d \<noteq> llmKind) (directives db))"

definition openLLMCalls :: "mdb \<Rightarrow> string \<Rightarrow> nat" where
  "openLLMCalls db mid = length (filter (\<lambda>d. d_machine d = mid \<and> is_open d \<and> d_kind d = llmKind) (directives db))"

subsection \<open>Choosing a machine\<close>

record machine_choice =
  c_id :: string
  c_priority :: int
  c_max :: int
  c_open :: int
  c_online :: bool
  c_paused :: bool
  c_can :: bool

definition better :: "machine_choice \<Rightarrow> machine_choice \<Rightarrow> bool" where
  "better c b = (c_priority c > c_priority b
     \<or> (c_priority c = c_priority b \<and> (c_open c < c_open b \<or> (c_open c = c_open b \<and> c_id c < c_id b))))"

definition eligible :: "machine_choice \<Rightarrow> bool" where
  "eligible c = (\<not> (\<not> c_online c \<or> c_paused c \<or> \<not> c_can c \<or> c_max c \<le> c_open c))"

fun choose_loop :: "machine_choice option \<Rightarrow> machine_choice list \<Rightarrow> machine_choice option" where
  "choose_loop best [] = best"
| "choose_loop best (c # cs) =
     (if \<not> eligible c then choose_loop best cs
      else case best of None \<Rightarrow> choose_loop (Some c) cs
      | Some b \<Rightarrow> if better c b then choose_loop (Some c) cs else choose_loop (Some b) cs)"

definition chooseMachine :: "machine_choice list \<Rightarrow> string" where
  "chooseMachine choices = (case choose_loop None choices of None \<Rightarrow> [] | Some c \<Rightarrow> c_id c)"

definition missingOf :: "machine_row \<Rightarrow> string list \<Rightarrow> string list" where
  "missingOf m capabilities = filter (\<lambda>c. \<not> Can m c) capabilities"

subsection \<open>Reserving a directive\<close>

record pick_request =
  p_directive :: string
  p_user :: string
  p_caps :: "string list"
  p_extra :: "string list"
  p_kind :: string
  p_input :: string
  p_workflow :: string
  p_run :: string
  p_call_key :: string
  p_handoff_by :: time
  p_deadline :: time
  p_seen_after :: time
  p_session :: string
  p_participant :: string
  p_agent :: string
  p_turn_key :: string
  p_call_id :: string
  p_agent_id :: string

definition find_call :: "mdb \<Rightarrow> string \<Rightarrow> string \<Rightarrow> directive option" where
  "find_call db run key = find (\<lambda>d. d_run d = run \<and> d_call_key d = key) (directives db)"

definition choices_of :: "mdb \<Rightarrow> pick_request \<Rightarrow> string list \<Rightarrow> machine_choice list" where
  "choices_of db req caps =
     map (\<lambda>m. \<lparr>c_id = m_id m, c_priority = m_priority m, c_max = m_max m, c_open = int (openRuns db (m_id m)),
               c_online = Online m (p_seen_after req), c_paused = m_paused m, c_can = CanAll m caps\<rparr>)
       (user_machines db (p_user req))"

definition reserved_directive :: "pick_request \<Rightarrow> string \<Rightarrow> time \<Rightarrow> directive" where
  "reserved_directive req mid now =
     \<lparr>d_id = p_directive req, d_machine = mid, d_user = p_user req, d_kind = p_kind req, d_input = p_input req,
      d_workflow = p_workflow req, d_run = p_run req, d_activity = [], d_call_key = p_call_key req, d_token = None,
      d_state = DirectiveReserved, d_handoff_by = p_handoff_by req, d_deadline = p_deadline req, d_sent_conn = [],
      d_result = None, d_error = [], d_created = now, d_started = None, d_closed = None, d_session = p_session req,
      d_participant = p_participant req, d_agent = p_agent req, d_turn_key = p_turn_key req, d_call_id = p_call_id req,
      d_agent_id = p_agent_id req\<rparr>"

definition insert_directive :: "mdb \<Rightarrow> directive \<Rightarrow> (db_error, mdb) result" where
  "insert_directive db d =
     (if list_ex (\<lambda>x. d_id x = d_id d \<or> (d_run x = d_run d \<and> d_call_key x = d_call_key d)) (directives db)
      then Inl UniqueViolation else Inr (db\<lparr>directives := directives db @ [d]\<rparr>))"

definition PickMachine :: "mdb \<Rightarrow> pick_request \<Rightarrow> time \<Rightarrow> (db_error, mdb \<times> directive \<times> machine_row) result" where
  "PickMachine db req now =
     (case find_call db (p_run req) (p_call_key req) of
        Some d \<Rightarrow> (case GetMachine db (d_machine d) of None \<Rightarrow> Inl NoRows | Some m \<Rightarrow> Inr (db, d, m))
      | None \<Rightarrow>
          let ms = user_machines db (p_user req);
              chosen = chooseMachine (choices_of db req (p_caps req @ p_extra req));
              lacking = (if chosen = [] \<and> 0 < length (p_extra req)
                         then chooseMachine (choices_of db req (p_caps req)) else [])
          in case (if lacking = [] then None else find (\<lambda>m. m_id m = lacking) ms) of
               Some m \<Rightarrow> Inl (MachineLacksError (m_name m) (missingOf m (p_extra req)))
             | None \<Rightarrow>
                 if chosen = [] then Inl ErrNoMachine
                 else case find (\<lambda>m. m_id m = chosen) (rev ms) of
                   None \<Rightarrow> Inl NoRows
                 | Some m \<Rightarrow>
                     (case insert_directive db (reserved_directive req chosen now) of
                        Inl e \<Rightarrow> Inl e
                      | Inr db' \<Rightarrow> Inr (db', reserved_directive req chosen now, m)))"

definition DirectiveOfCall :: "mdb \<Rightarrow> string \<Rightarrow> string \<Rightarrow> (db_error, directive \<times> machine_row) result" where
  "DirectiveOfCall db runID callKey =
     (case find_call db runID callKey of None \<Rightarrow> Inl ErrDirectiveNotFound
      | Some d \<Rightarrow> (case GetMachine db (d_machine d) of None \<Rightarrow> Inl NoRows | Some m \<Rightarrow> Inr (d, m)))"

subsection \<open>A directive's life\<close>

definition update_directives :: "(directive \<Rightarrow> bool) \<Rightarrow> (directive \<Rightarrow> directive) \<Rightarrow> mdb \<Rightarrow> mdb" where
  "update_directives P f db = db\<lparr>directives := map (\<lambda>d. if P d then f d else d) (directives db)\<rparr>"

definition GetDirective :: "mdb \<Rightarrow> string \<Rightarrow> directive option" where
  "GetDirective db did = find (\<lambda>d. d_id d = did) (directives db)"

text \<open>The directive comes with the error \<open>ErrDirectiveClosed\<close> too.\<close>

definition StartDirective ::
  "mdb \<Rightarrow> string \<Rightarrow> string \<Rightarrow> string \<Rightarrow> time \<Rightarrow> time \<Rightarrow> mdb \<times> directive option \<times> db_error option" where
  "StartDirective db did token activityID deadline now =
     (let P = (\<lambda>d. d_id d = did \<and> d_state d = DirectiveReserved);
          f = (\<lambda>d. d\<lparr>d_token := Some token, d_activity := activityID, d_deadline := deadline,
                     d_state := DirectiveRunning, d_started := Some now\<rparr>)
      in case find P (directives db) of
           Some d \<Rightarrow> (update_directives P f db, Some (f d), None)
         | None \<Rightarrow>
             (case GetDirective db did of
                None \<Rightarrow> (db, None, Some ErrDirectiveNotFound)
              | Some got \<Rightarrow>
                  if d_state got = DirectiveRunning \<and> coalesce (d_token got) = token then (db, Some got, None)
                  else (db, Some got, Some ErrDirectiveClosed)))"

definition MarkDirectiveSent :: "mdb \<Rightarrow> string \<Rightarrow> string \<Rightarrow> mdb \<times> bool" where
  "MarkDirectiveSent db did conn =
     (let P = (\<lambda>d. d_id d = did \<and> d_sent_conn d = [] \<and> d_state d = DirectiveRunning)
      in (update_directives P (\<lambda>d. d\<lparr>d_sent_conn := conn\<rparr>) db, length (filter P (directives db)) = 1))"

definition OpenDirectives :: "mdb \<Rightarrow> string \<Rightarrow> directive list" where
  "OpenDirectives db mid =
     sort_key d_created (sort_key d_id (filter (\<lambda>d. d_machine d = mid \<and> is_open d) (directives db)))"

definition SaveDirectiveResult :: "mdb \<Rightarrow> string \<Rightarrow> kept_result \<Rightarrow> (db_error, mdb) result" where
  "SaveDirectiveResult db did res =
     (let P = (\<lambda>d. d_id d = did \<and> is_open d)
      in if list_ex P (directives db) then Inr (update_directives P (\<lambda>d. d\<lparr>d_result := Some res\<rparr>) db)
         else Inl ErrDirectiveClosed)"

definition CloseDirective :: "mdb \<Rightarrow> string \<Rightarrow> directive_state \<Rightarrow> string \<Rightarrow> time \<Rightarrow> mdb \<times> bool" where
  "CloseDirective db did state errText now =
     (let P = (\<lambda>d. d_id d = did \<and> is_open d)
      in (update_directives P (\<lambda>d. d\<lparr>d_state := state, d_error := errText, d_closed := Some now\<rparr>) db,
          length (filter P (directives db)) = 1))"

definition swept :: "time \<Rightarrow> directive \<Rightarrow> bool" where
  "swept at d = ((d_state d = DirectiveReserved \<and> d_handoff_by d \<le> at) \<or> (d_state d = DirectiveRunning \<and> d_deadline d \<le> at))"

definition sweep_one :: "time \<Rightarrow> directive \<Rightarrow> directive" where
  "sweep_one now d =
     d\<lparr>d_state := (if d_state d = DirectiveReserved then DirectiveOrphaned else DirectiveExpired),
       d_closed := Some now,
       d_error := (if d_state d = DirectiveReserved then ''never handed to its machine'' else ''past its deadline'')\<rparr>"

text \<open>\<open>at\<close> is the time given to the sweep, \<open>now\<close> the database's.\<close>

definition SweepDirectives :: "mdb \<Rightarrow> time \<Rightarrow> time \<Rightarrow> mdb \<times> directive list" where
  "SweepDirectives db at now =
     (update_directives (swept at) (sweep_one now) db, map (sweep_one now) (filter (swept at) (directives db)))"

definition PendingDirectiveResults :: "mdb \<Rightarrow> directive list" where
  "PendingDirectiveResults db = sort_key d_created (sort_key d_id
     (filter (\<lambda>d. d_state d = DirectiveRunning \<and> d_result d \<noteq> None \<and> d_token d \<noteq> None) (directives db)))"

text \<open>\<open>ListMachines\<close>: revoked ones last, the newest first; with the kinds of their open directives.\<close>

definition ListMachines :: "mdb \<Rightarrow> string \<Rightarrow> (machine_row \<times> string list) list" where
  "ListMachines db userID =
     map (\<lambda>m. (m, map d_kind (sort_key d_created (filter (\<lambda>d. d_machine d = m_id m \<and> is_open d) (directives db)))))
       (sort_key (\<lambda>m. m_revoked m \<noteq> None) (sort_key (\<lambda>m. - m_created m) (sort_key m_id
          (filter (\<lambda>m. m_user m = userID) (machines db)))))"

subsection \<open>The calls to the model\<close>

definition llmUnavailable :: "machine_row \<Rightarrow> time \<Rightarrow> string" where
  "llmUnavailable m seenAfter =
     (if \<not> Online m seenAfter then ''offline''
      else if m_paused m then ''paused''
      else if \<not> Can m llmCapability then ''its model is not offered''
      else if AsideForLLM m seenAfter then ''set aside since a call to its model was lost''
      else [])"

definition llm_choice :: "mdb \<Rightarrow> machine_row \<Rightarrow> machine_choice" where
  "llm_choice db m =
     \<lparr>c_id = m_id m, c_priority = m_priority m, c_max = m_max_llm m, c_open = int (openLLMCalls db (m_id m)),
      c_online = True, c_paused = False, c_can = True\<rparr>"

definition ChooseLLMMachine :: "mdb \<Rightarrow> string \<Rightarrow> string list \<Rightarrow> time \<Rightarrow> (db_error, machine_row) result" where
  "ChooseLLMMachine db userID excluded seenAfter =
     (let ms = user_machines db userID;
          free = map (llm_choice db) (filter (\<lambda>m. \<not> (m_id m \<in> set excluded \<or> llmUnavailable m seenAfter \<noteq> [])) ms);
          full = map (\<lambda>c. c\<lparr>c_max := c_open c + 1\<rparr>) (filter (\<lambda>c. 0 < c_max c) free);
          chosen = (if chooseMachine free = [] then chooseMachine full else chooseMachine free)
      in case find (\<lambda>m. chosen \<noteq> [] \<and> m_id m = chosen) ms of Some m \<Rightarrow> Inr m | None \<Rightarrow> Inl ErrNoMachine)"

record llm_request =
  l_directive :: string
  l_machine :: string
  l_user :: string
  l_input :: string
  l_workflow :: string
  l_run :: string
  l_activity :: string
  l_call_key :: string
  l_token :: string
  l_deadline :: time
  l_seen_after :: time
  l_session :: string
  l_turn_key :: string
  l_agent_id :: string

definition llm_directive :: "llm_request \<Rightarrow> string \<Rightarrow> time \<Rightarrow> directive" where
  "llm_directive req mid now =
     \<lparr>d_id = l_directive req, d_machine = mid, d_user = l_user req, d_kind = llmKind, d_input = l_input req,
      d_workflow = l_workflow req, d_run = l_run req, d_activity = l_activity req, d_call_key = l_call_key req,
      d_token = Some (l_token req), d_state = DirectiveRunning, d_handoff_by = now, d_deadline = l_deadline req,
      d_sent_conn = [], d_result = None, d_error = [], d_created = now, d_started = Some now, d_closed = None,
      d_session = l_session req, d_participant = [], d_agent = [], d_turn_key = l_turn_key req, d_call_id = [],
      d_agent_id = l_agent_id req\<rparr>"

definition CreateLLMDirective :: "mdb \<Rightarrow> llm_request \<Rightarrow> time \<Rightarrow> (db_error, mdb \<times> directive \<times> machine_row) result" where
  "CreateLLMDirective db req now =
     (case find (\<lambda>m. m_id m = l_machine req \<and> m_user m = l_user req \<and> m_revoked m = None) (machines db) of
        None \<Rightarrow> Inl (ErrMachineUnavailable ''no such machine of the user's (revoked?)'')
      | Some m \<Rightarrow>
          if find_call db (l_run req) (l_call_key req) \<noteq> None then Inl ErrDirectiveClosed
          else if llmUnavailable m (l_seen_after req) \<noteq> [] then Inl (ErrMachineUnavailable (llmUnavailable m (l_seen_after req)))
          else if m_max_llm m \<le> int (openLLMCalls db (m_id m)) then Inl (ErrMachineBusy (m_max_llm m))
          else case insert_directive db (llm_directive req (m_id m) now) of
            Inl _ \<Rightarrow> Inl ErrDirectiveClosed
          | Inr db' \<Rightarrow> Inr (db', llm_directive req (m_id m) now, m))"

subsection \<open>The choice is the best\<close>

definition choice_key :: "machine_choice \<Rightarrow> int \<times> int \<times> string" where
  "choice_key c = (- c_priority c, c_open c, c_id c)"

lemma better_key: "better c b \<longleftrightarrow> choice_key c < choice_key b"
  by (auto simp: better_def choice_key_def less_prod_def)

lemma choose_loop_spec:
  "case choose_loop best cs of
     None \<Rightarrow> best = None \<and> (\<forall>c \<in> set cs. \<not> eligible c)
   | Some c \<Rightarrow> (best = Some c \<or> (c \<in> set cs \<and> eligible c))
       \<and> (\<forall>b. best = Some b \<longrightarrow> choice_key c \<le> choice_key b)
       \<and> (\<forall>x \<in> set cs. eligible x \<longrightarrow> choice_key c \<le> choice_key x)"
proof (induction best cs rule: choose_loop.induct)
  case (2 best c cs)
  show ?case
  proof (cases "eligible c")
    case False
    with 2 show ?thesis by (auto split: option.splits)
  next
    case True
    show ?thesis
    proof (cases best)
      case None
      with 2(2) True show ?thesis by (fastforce split: option.splits)
    next
      case (Some b)
      show ?thesis
      proof (cases "better c b")
        case True': True
        then have "choice_key c \<le> choice_key b" by (simp add: better_key)
        with 2(3) [OF _ Some True'] True Some True' show ?thesis
          by (fastforce split: option.splits intro: order.trans)
      next
        case False
        then have "choice_key b \<le> choice_key c" by (simp add: better_key)
        with 2(4) [OF _ Some False] True Some False show ?thesis
          by (fastforce split: option.splits intro: order.trans)
      qed
    qed
  qed
qed (auto split: option.splits)

lemma chooseMachine_cases:
  assumes "\<forall>c \<in> set cs. c_id c \<noteq> []"
  shows "(chooseMachine cs = [] \<longleftrightarrow> (\<forall>c \<in> set cs. \<not> eligible c))
    \<and> (chooseMachine cs \<noteq> [] \<longrightarrow> (\<exists>c \<in> set cs. c_id c = chooseMachine cs \<and> eligible c
          \<and> (\<forall>x \<in> set cs. eligible x \<longrightarrow> choice_key c \<le> choice_key x)))"
  using choose_loop_spec [of None cs] assms
  by (auto simp: chooseMachine_def split: option.splits)

subsection \<open>The invariant of the directives\<close>

definition caps_ok :: "mdb \<Rightarrow> bool" where
  "caps_ok db \<longleftrightarrow> (\<forall>m \<in> set (machines db). int (openRuns db (m_id m)) \<le> m_max m \<and> int (openLLMCalls db (m_id m)) \<le> m_max_llm m)"

definition dirs_ok :: "mdb \<Rightarrow> bool" where
  "dirs_ok db \<longleftrightarrow> distinct (map m_id (machines db)) \<and> distinct (map d_id (directives db))
     \<and> distinct (map (\<lambda>d. (d_run d, d_call_key d)) (directives db)) \<and> caps_ok db"

datatype directive_op =
    DPick pick_request time
  | DCreateLLM llm_request time
  | DStart string string string time time
  | DSent string string
  | DResult string kept_result
  | DClose string directive_state string time
  | DSweep time time

fun directive_step :: "mdb \<Rightarrow> directive_op \<Rightarrow> mdb" where
  "directive_step db (DPick req now) = (case PickMachine db req now of Inl _ \<Rightarrow> db | Inr (db', _) \<Rightarrow> db')"
| "directive_step db (DCreateLLM req now) = (case CreateLLMDirective db req now of Inl _ \<Rightarrow> db | Inr (db', _) \<Rightarrow> db')"
| "directive_step db (DStart did token act deadline now) = fst (StartDirective db did token act deadline now)"
| "directive_step db (DSent did conn) = fst (MarkDirectiveSent db did conn)"
| "directive_step db (DResult did res) = (case SaveDirectiveResult db did res of Inl _ \<Rightarrow> db | Inr db' \<Rightarrow> db')"
| "directive_step db (DClose did state err now) = fst (CloseDirective db did state err now)"
| "directive_step db (DSweep at now) = fst (SweepDirectives db at now)"

text \<open>The runs are reserved under another kind than the calls to the model (\<open>machine.KindLLM\<close>).\<close>

fun runs_only :: "directive_op \<Rightarrow> bool" where
  "runs_only (DPick req now) = (p_kind req \<noteq> llmKind)"
| "runs_only _ = True"

text \<open>An update of a row keeps what names it, and opens no directive that is over.\<close>

definition row_update :: "(directive \<Rightarrow> bool) \<Rightarrow> (directive \<Rightarrow> directive) \<Rightarrow> bool" where
  "row_update P f \<longleftrightarrow> (\<forall>d. P d \<longrightarrow> is_open d \<and> d_id (f d) = d_id d \<and> d_run (f d) = d_run d \<and> d_call_key (f d) = d_call_key d
      \<and> d_machine (f d) = d_machine d \<and> d_kind (f d) = d_kind d)"

lemma filter_map_length_le:
  "(\<And>x. x \<in> set xs \<Longrightarrow> P (f x) \<Longrightarrow> P x) \<Longrightarrow> length (filter P (map f xs)) \<le> length (filter P xs)"
  by (induction xs) (auto simp: le_SucI)

lemma update_directives_simps [simp]:
  "machines (update_directives P f db) = machines db"
  "directives (update_directives P f db) = map (\<lambda>d. if P d then f d else d) (directives db)"
  by (simp_all add: update_directives_def)

lemma row_update_keeps:
  assumes "row_update P f"
  shows "d_id (if P d then f d else d) = d_id d" "d_run (if P d then f d else d) = d_run d"
    "d_call_key (if P d then f d else d) = d_call_key d" "d_machine (if P d then f d else d) = d_machine d"
    "d_kind (if P d then f d else d) = d_kind d" "is_open (if P d then f d else d) \<Longrightarrow> is_open d"
  using assms unfolding row_update_def by (simp_all split: if_split_asm)

lemma caps_ok_less:
  assumes "caps_ok db" and "machines db' = machines db"
    and "\<And>mid. openRuns db' mid \<le> openRuns db mid" and "\<And>mid. openLLMCalls db' mid \<le> openLLMCalls db mid"
  shows "caps_ok db'"
proof -
  have "int (openRuns db' (m_id m)) \<le> m_max m \<and> int (openLLMCalls db' (m_id m)) \<le> m_max_llm m" if "m \<in> set (machines db)" for m
    using assms(1) that assms(3,4) [of "m_id m"] unfolding caps_ok_def by (meson of_nat_mono order.trans)
  then show ?thesis by (simp add: caps_ok_def assms(2))
qed

lemma dirs_ok_update:
  assumes "dirs_ok db" and "row_update P f"
  shows "dirs_ok (update_directives P f db)"
proof -
  note k = row_update_keeps [OF assms(2)]
  have le: "length (filter (\<lambda>d. d_machine d = mid \<and> is_open d \<and> Q (d_kind d)) (map (\<lambda>d. if P d then f d else d) ds))
      \<le> length (filter (\<lambda>d. d_machine d = mid \<and> is_open d \<and> Q (d_kind d)) ds)" for mid Q ds
  proof (rule filter_map_length_le)
    fix d assume "d_machine (if P d then f d else d) = mid \<and> is_open (if P d then f d else d) \<and> Q (d_kind (if P d then f d else d))"
    then show "d_machine d = mid \<and> is_open d \<and> Q (d_kind d)" using k(6) [of d] unfolding k(4) k(5) by blast
  qed
  have "openRuns (update_directives P f db) mid \<le> openRuns db mid" for mid
    unfolding openRuns_def update_directives_simps by (rule le [where Q = "\<lambda>k. k \<noteq> llmKind"])
  moreover have "openLLMCalls (update_directives P f db) mid \<le> openLLMCalls db mid" for mid
    unfolding openLLMCalls_def update_directives_simps by (rule le [where Q = "\<lambda>k. k = llmKind"])
  ultimately have "caps_ok (update_directives P f db)"
    using assms(1) caps_ok_less [of db "update_directives P f db"] by (simp add: dirs_ok_def)
  then show ?thesis using assms(1) by (simp add: dirs_ok_def comp_def k(1-3))
qed

lemma dirs_ok_insert:
  assumes "dirs_ok db" and "insert_directive db d = Inr db'" and "m \<in> set (machines db)" and "d_machine d = m_id m"
    and "d_kind d \<noteq> llmKind \<Longrightarrow> int (openRuns db (m_id m)) < m_max m"
    and "d_kind d = llmKind \<Longrightarrow> int (openLLMCalls db (m_id m)) < m_max_llm m"
  shows "dirs_ok db'"
proof -
  from assms(2) have db': "db' = db\<lparr>directives := directives db @ [d]\<rparr>"
    and new: "\<forall>x \<in> set (directives db). d_id x \<noteq> d_id d \<and> \<not> (d_run x = d_run d \<and> d_call_key x = d_call_key d)"
    by (auto simp: insert_directive_def list_ex_iff split: if_splits)
  have "int (openRuns db' (m_id x)) \<le> m_max x \<and> int (openLLMCalls db' (m_id x)) \<le> m_max_llm x" if x: "x \<in> set (machines db)" for x
  proof (cases "m_id x = m_id m")
    case True
    have "inj_on m_id (set (machines db))" using assms(1) by (simp add: dirs_ok_def distinct_map)
    from inj_onD [OF this True x assms(3)] have "x = m" .
    with assms(1,3-6) show ?thesis
      by (auto simp: db' dirs_ok_def caps_ok_def openRuns_def openLLMCalls_def)
  next
    case False
    with assms(1,4) x show ?thesis
      by (auto simp: db' dirs_ok_def caps_ok_def openRuns_def openLLMCalls_def)
  qed
  then have "caps_ok db'" by (simp add: caps_ok_def db')
  moreover have "distinct (map d_id (directives db'))" "distinct (map (\<lambda>d. (d_run d, d_call_key d)) (directives db'))"
    using assms(1) new by (auto simp: db' dirs_ok_def)
  ultimately show ?thesis using assms(1) by (simp add: dirs_ok_def db')
qed

lemma chooseMachine_Some:
  "chooseMachine cs = x \<Longrightarrow> x \<noteq> [] \<Longrightarrow>
     \<exists>c \<in> set cs. c_id c = x \<and> eligible c \<and> (\<forall>y \<in> set cs. eligible y \<longrightarrow> choice_key c \<le> choice_key y)"
  using choose_loop_spec [of None cs] by (auto simp: chooseMachine_def split: option.splits)

lemma set_user_machines: "set (user_machines db u) = {m \<in> set (machines db). m_user m = u \<and> m_revoked m = None}"
  by (auto simp: user_machines_def)

lemma pick_form:
  assumes "PickMachine db req now = Inr (db', d, m)"
  obtains (again) "find_call db (p_run req) (p_call_key req) = Some d" and "db' = db" and "GetMachine db (d_machine d) = Some m"
    | (new) "find_call db (p_run req) (p_call_key req) = None" and "m \<in> set (user_machines db (p_user req))"
      and "m_id m \<noteq> []" and "chooseMachine (choices_of db req (p_caps req @ p_extra req)) = m_id m"
      and "d = reserved_directive req (m_id m) now" and "insert_directive db d = Inr db'"
proof (cases "find_call db (p_run req) (p_call_key req)")
  case (Some x)
  with assms again show thesis by (auto simp: PickMachine_def split: option.splits)
next
  case None
  let ?chosen = "chooseMachine (choices_of db req (p_caps req @ p_extra req))"
  from assms None have ne: "?chosen \<noteq> []"
    by (auto simp: PickMachine_def Let_def split: option.splits if_splits)
  with assms None obtain x where x: "find (\<lambda>m. m_id m = ?chosen) (rev (user_machines db (p_user req))) = Some x"
    by (auto simp: PickMachine_def Let_def split: option.splits if_splits)
  with assms None ne have d: "x = m" "d = reserved_directive req ?chosen now" "insert_directive db d = Inr db'"
    by (auto simp: PickMachine_def Let_def split: option.splits if_splits sum.splits)
  have m: "m \<in> set (user_machines db (p_user req))" "m_id m = ?chosen" using find_Some_in [OF x] d(1) by auto
  show thesis using ne d(2) by (intro new [OF None m(1) _ _ _ d(3)]) (simp_all only: m(2) not_False_eq_True)
qed

lemma pick_room:
  assumes ids: "distinct (map m_id (machines db))" and m: "m \<in> set (user_machines db (p_user req))" "m_id m \<noteq> []"
    and c: "chooseMachine (choices_of db req caps) = m_id m"
  shows "int (openRuns db (m_id m)) < m_max m \<and> Online m (p_seen_after req) \<and> \<not> m_paused m \<and> CanAll m caps
    \<and> (\<forall>x \<in> set (user_machines db (p_user req)).
         int (openRuns db (m_id x)) < m_max x \<and> Online x (p_seen_after req) \<and> \<not> m_paused x \<and> CanAll x caps
         \<longrightarrow> (- m_priority m, openRuns db (m_id m), m_id m) \<le> (- m_priority x, openRuns db (m_id x), m_id x))"
proof -
  let ?choice = "\<lambda>m. \<lparr>c_id = m_id m, c_priority = m_priority m, c_max = m_max m, c_open = int (openRuns db (m_id m)),
               c_online = Online m (p_seen_after req), c_paused = m_paused m, c_can = CanAll m caps\<rparr>"
  from chooseMachine_Some [OF c m(2)] obtain x where x: "x \<in> set (user_machines db (p_user req))" "m_id x = m_id m"
    "eligible (?choice x)" "\<forall>y \<in> set (user_machines db (p_user req)). eligible (?choice y) \<longrightarrow> choice_key (?choice x) \<le> choice_key (?choice y)"
    by (auto simp: choices_of_def)
  have "inj_on m_id (set (machines db))" using ids by (simp add: distinct_map)
  then have "x = m" using inj_onD [of m_id "set (machines db)" x m] x(1,2) m(1) by (simp add: set_user_machines)
  with x(3,4) show ?thesis by (auto simp: eligible_def choice_key_def less_eq_prod_def)
qed

lemma create_llm_form:
  assumes "CreateLLMDirective db req now = Inr (db', d, m)"
  shows "m \<in> set (machines db) \<and> m_id m = l_machine req \<and> m_user m = l_user req \<and> m_revoked m = None
    \<and> find_call db (l_run req) (l_call_key req) = None \<and> llmUnavailable m (l_seen_after req) = []
    \<and> int (openLLMCalls db (m_id m)) < m_max_llm m \<and> d = llm_directive req (m_id m) now \<and> insert_directive db d = Inr db'"
  using assms by (auto simp: CreateLLMDirective_def not_le split: option.splits if_splits sum.splits dest: find_Some_in)

lemma row_updates:
  "row_update (\<lambda>d. d_id d = did \<and> d_state d = DirectiveReserved)
     (\<lambda>d. d\<lparr>d_token := a, d_activity := b, d_deadline := c, d_state := DirectiveRunning, d_started := e\<rparr>)"
  "row_update (\<lambda>d. d_id d = did \<and> d_sent_conn d = [] \<and> d_state d = DirectiveRunning) (\<lambda>d. d\<lparr>d_sent_conn := g\<rparr>)"
  "row_update (\<lambda>d. d_id d = did \<and> is_open d) (\<lambda>d. d\<lparr>d_result := r\<rparr>)"
  "row_update (\<lambda>d. d_id d = did \<and> is_open d) (\<lambda>d. d\<lparr>d_state := s, d_error := t, d_closed := u\<rparr>)"
  "row_update (swept at) (sweep_one now)"
  by (auto simp: row_update_def is_open_def swept_def sweep_one_def)

lemma directive_step_cases:
  obtains "directive_step db op = db"
    | P f where "row_update P f" and "directive_step db op = update_directives P f db"
    | req now d m where "op = DPick req now" and "PickMachine db req now = Inr (directive_step db op, d, m)"
    | req now d m where "op = DCreateLLM req now" and "CreateLLMDirective db req now = Inr (directive_step db op, d, m)"
proof (cases op)
  case (DPick req now)
  show thesis
  proof (cases "PickMachine db req now")
    case (Inl e)
    with DPick that(1) show thesis by simp
  next
    case (Inr x)
    with DPick that(3) [OF DPick] show thesis by (cases x) auto
  qed
next
  case (DCreateLLM req now)
  show thesis
  proof (cases "CreateLLMDirective db req now")
    case (Inl e)
    with DCreateLLM that(1) show thesis by simp
  next
    case (Inr x)
    with DCreateLLM that(4) [OF DCreateLLM] show thesis by (cases x) auto
  qed
next
  case (DStart did token act deadline now)
  show thesis
  proof (cases "find (\<lambda>d. d_id d = did \<and> d_state d = DirectiveReserved) (directives db)")
    case None
    with DStart that(1) show thesis by (auto simp: StartDirective_def split: option.splits if_splits)
  next
    case (Some d)
    with DStart that(2) [OF row_updates(1)] show thesis by (simp add: StartDirective_def)
  qed
next
  case (DSent did conn)
  with that(2) [OF row_updates(2)] show thesis by (simp add: MarkDirectiveSent_def Let_def)
next
  case (DResult did res)
  show thesis
  proof (cases "list_ex (\<lambda>d. d_id d = did \<and> is_open d) (directives db)")
    case True
    with DResult that(2) [OF row_updates(3)] show thesis by (simp add: SaveDirectiveResult_def)
  next
    case False
    with DResult that(1) show thesis by (simp add: SaveDirectiveResult_def)
  qed
next
  case (DClose did state err now)
  with that(2) [OF row_updates(4)] show thesis by (simp add: CloseDirective_def Let_def)
next
  case (DSweep at now)
  with that(2) [OF row_updates(5)] show thesis by (simp add: SweepDirectives_def)
qed

interpretation caps: guarded directive_step dirs_ok runs_only
proof unfold_locales
  fix op db assume run: "runs_only op" and ok: "dirs_ok db"
  show "dirs_ok (directive_step db op)"
  proof (rule directive_step_cases [of db op])
    fix req now d m assume op: "op = DPick req now" and p: "PickMachine db req now = Inr (directive_step db op, d, m)"
    from p show ?thesis
    proof (cases rule: pick_form)
      case new
      have "int (openRuns db (m_id m)) < m_max m"
        using pick_room [of db m req] new ok by (simp add: dirs_ok_def)
      with new run op show ?thesis
        by (intro dirs_ok_insert [OF ok new(6), of m]) (auto simp: set_user_machines reserved_directive_def)
    qed (use ok in simp)
  next
    fix req now d m assume "CreateLLMDirective db req now = Inr (directive_step db op, d, m)"
    note f = create_llm_form [OF this]
    then have i: "insert_directive db d = Inr (directive_step db op)" by blast
    show ?thesis by (rule dirs_ok_insert [OF ok i, of m]) (use f in \<open>auto simp: llm_directive_def\<close>)
  qed (use ok dirs_ok_update in auto)
qed

subsection \<open>A directive that is over stays as it is\<close>

definition closed_row :: "mdb \<Rightarrow> string \<Rightarrow> directive option" where
  "closed_row db did = (case GetDirective db did of Some d \<Rightarrow> if is_open d then None else Some d | None \<Rightarrow> None)"

lemma find_map: "find P (map f xs) = map_option f (find (P \<circ> f) xs)"
  by (induction xs) auto

lemma GetDirective_update:
  assumes "row_update P f"
  shows "GetDirective (update_directives P f db) did =
     map_option (\<lambda>d. if P d then f d else d) (GetDirective db did)"
  using row_update_keeps(1) [OF assms] by (simp add: GetDirective_def find_map comp_def)

lemma GetDirective_insert:
  "insert_directive db d = Inr db' \<Longrightarrow> GetDirective db did = Some x \<Longrightarrow> GetDirective db' did = Some x"
  by (auto simp: insert_directive_def GetDirective_def find_append split: if_splits)

lemma closed_row_step:
  assumes "closed_row db did = Some d"
  shows "closed_row (directive_step db op) did = Some d"
proof -
  from assms have d: "GetDirective db did = Some d" "\<not> is_open d"
    by (auto simp: closed_row_def split: option.splits if_splits)
  have "GetDirective (directive_step db op) did = Some d"
  proof (rule directive_step_cases [of db op])
    fix P f assume r: "row_update P f" and "directive_step db op = update_directives P f db"
    moreover have "\<not> P d" using r d(2) by (auto simp: row_update_def)
    ultimately show ?thesis using d(1) by (simp add: GetDirective_update)
  next
    fix req now x m assume "PickMachine db req now = Inr (directive_step db op, x, m)"
    then show ?thesis
    proof (cases rule: pick_form)
      case new
      from GetDirective_insert [OF new(6) d(1)] show ?thesis .
    qed (use d in simp)
  next
    fix req now x m assume "CreateLLMDirective db req now = Inr (directive_step db op, x, m)"
    with create_llm_form have "insert_directive db x = Inr (directive_step db op)" by blast
    from GetDirective_insert [OF this d(1)] show ?thesis .
  qed (use d in simp)
  with d(2) show ?thesis by (simp add: closed_row_def)
qed

interpretation ends: first_writer directive_step "\<lambda>_. True" closed_row
  by unfold_locales (auto intro: closed_row_step)

subsection \<open>A call keeps its directive\<close>

definition call_of :: "mdb \<Rightarrow> string \<times> string \<Rightarrow> (string \<times> string) option" where
  "call_of db k = map_option (\<lambda>d. (d_id d, d_machine d)) (find_call db (fst k) (snd k))"

lemma call_of_insert: "insert_directive db d = Inr db' \<Longrightarrow> call_of db k = Some x \<Longrightarrow> call_of db' k = Some x"
  by (auto simp: insert_directive_def call_of_def find_call_def find_append split: if_splits)

lemma call_of_step:
  assumes "call_of db k = Some x"
  shows "call_of (directive_step db op) k = Some x"
proof (rule directive_step_cases [of db op])
  fix P f assume r: "row_update P f" and u: "directive_step db op = update_directives P f db"
  note k = row_update_keeps [OF r]
  have "find_call (directive_step db op) (fst k) (snd k) = map_option (\<lambda>d. if P d then f d else d) (find_call db (fst k) (snd k))"
    by (simp add: u find_call_def find_map comp_def k(2,3))
  with assms show ?thesis
    by (cases "find_call db (fst k) (snd k)") (simp_all add: call_of_def k(1,4))
next
  fix req now y m assume "PickMachine db req now = Inr (directive_step db op, y, m)"
  then show ?thesis
  proof (cases rule: pick_form)
    case new
    from call_of_insert [OF new(6) assms] show ?thesis .
  qed (use assms in simp)
next
  fix req now y m assume "CreateLLMDirective db req now = Inr (directive_step db op, y, m)"
  with create_llm_form have "insert_directive db y = Inr (directive_step db op)" by blast
  from call_of_insert [OF this assms] show ?thesis .
qed (use assms in simp)

interpretation calls: first_writer directive_step "\<lambda>_. True" call_of
  by unfold_locales (auto intro: call_of_step)

lemma machines_insert: "insert_directive db d = Inr db' \<Longrightarrow> machines db' = machines db"
  by (auto simp: insert_directive_def split: if_splits)

lemma machines_step [simp]: "machines (directive_step db op) = machines db"
proof (rule directive_step_cases [of db op])
  fix req now y m assume "PickMachine db req now = Inr (directive_step db op, y, m)"
  then show ?thesis by (cases rule: pick_form) (auto dest: machines_insert)
next
  fix req now y m assume "CreateLLMDirective db req now = Inr (directive_step db op, y, m)"
  with create_llm_form have "insert_directive db y = Inr (directive_step db op)" by blast
  then show ?thesis by (rule machines_insert)
qed auto

lemma machines_run [simp]: "machines (foldl directive_step db ops) = machines db"
  by (induction ops arbitrary: db) auto

subsection \<open>Properties\<close>

text \<open>the machine chosen is the best of those that can take the directive: online, not paused, with the
  capabilities, under its cap; of these the highest priority, then the least busy, then the first by ID. None is
  chosen exactly when none can. Two choices made from the same machines in another order are the same.\<close>

theorem chosen_machine_is_best:
  assumes "\<forall>c \<in> set choices. c_id c \<noteq> []"
  shows "(chooseMachine choices = [] \<longleftrightarrow>
        (\<forall>c \<in> set choices. \<not> (c_online c \<and> \<not> c_paused c \<and> c_can c \<and> c_open c < c_max c)))
    \<and> (chooseMachine choices \<noteq> [] \<longrightarrow>
        (\<exists>c \<in> set choices. c_id c = chooseMachine choices \<and> c_online c \<and> \<not> c_paused c \<and> c_can c \<and> c_open c < c_max c
          \<and> (\<forall>x \<in> set choices. c_online x \<and> \<not> c_paused x \<and> c_can x \<and> c_open x < c_max x \<longrightarrow>
               (- c_priority c, c_open c, c_id c) \<le> (- c_priority x, c_open x, c_id x))))
    \<and> (set choices' = set choices \<longrightarrow> chooseMachine choices' = chooseMachine choices)"
proof -
  have el: "eligible c \<longleftrightarrow> c_online c \<and> \<not> c_paused c \<and> c_can c \<and> c_open c < c_max c" for c by (auto simp: eligible_def)
  note cases = chooseMachine_cases [OF assms]
  have "chooseMachine choices' = chooseMachine choices" if same: "set choices' = set choices"
  proof (cases "chooseMachine choices = []")
    case True
    with cases chooseMachine_cases [of choices'] assms same show ?thesis by simp
  next
    case False
    with cases obtain c where c: "c \<in> set choices" "c_id c = chooseMachine choices" "eligible c"
      "\<forall>x \<in> set choices. eligible x \<longrightarrow> choice_key c \<le> choice_key x" by blast
    with chooseMachine_cases [of choices'] assms same obtain c' where c': "c' \<in> set choices" "c_id c' = chooseMachine choices'"
      "eligible c'" "\<forall>x \<in> set choices. eligible x \<longrightarrow> choice_key c' \<le> choice_key x" by metis
    with c have "choice_key c = choice_key c'" by (metis order.antisym)
    with c(2) c'(2) show ?thesis by (simp add: choice_key_def)
  qed
  with cases show ?thesis unfolding el choice_key_def by blast
qed

definition two_choices :: "machine_choice list" where
  "two_choices = [\<lparr>c_id = ''b'', c_priority = 0, c_max = 2, c_open = 1, c_online = True, c_paused = False, c_can = True\<rparr>,
     \<lparr>c_id = ''a'', c_priority = 0, c_max = 1, c_open = 0, c_online = True, c_paused = False, c_can = True\<rparr>]"

theorem chosen_machine_is_best_witness:
  "chooseMachine two_choices = ''a'' \<and> chooseMachine (rev two_choices) = ''a''"
proof -
  have "chooseMachine two_choices = ''a''"
    by (simp add: two_choices_def chooseMachine_def eligible_def better_def)
  moreover have "\<forall>c \<in> set two_choices. c_id c \<noteq> []" by (simp add: two_choices_def)
  ultimately show ?thesis using chosen_machine_is_best [of two_choices "rev two_choices"] by simp
qed

text \<open>a call is given one directive. \<open>PickMachine\<close> called again for the same run and call finds the
  directive it made, on the same machine, whatever became of it and whatever was reserved, ended or swept since;
  it reserves nothing more, and never fails for want of a machine.\<close>

theorem pick_again_finds_the_same:
  assumes "PickMachine db req now = Inr (db', d, m)"
    and "p_run req' = p_run req" and "p_call_key req' = p_call_key req"
  shows "\<exists>d'' m''. PickMachine (foldl directive_step db' ops) req' now' = Inr (foldl directive_step db' ops, d'', m'')
    \<and> d_id d'' = d_id d \<and> d_machine d'' = d_machine d \<and> m_id m'' = d_machine d"
proof -
  let ?k = "(p_run req, p_call_key req)"
  have "call_of db' ?k = Some (d_id d, d_machine d) \<and> machines db' = machines db \<and> (\<exists>x \<in> set (machines db). m_id x = d_machine d)"
    using assms(1)
  proof (cases rule: pick_form)
    case again
    then show ?thesis by (auto simp: call_of_def GetMachine_def dest: find_Some_in)
  next
    case new
    from new(6) have "directives db' = directives db @ [d]" by (auto simp: insert_directive_def split: if_splits)
    with new(1,5) have "find_call db' (p_run req) (p_call_key req) = Some d"
      by (simp add: find_call_def find_append reserved_directive_def)
    with new show ?thesis by (auto simp: call_of_def set_user_machines reserved_directive_def machines_insert)
  qed
  then have c: "call_of db' ?k = Some (d_id d, d_machine d)" and ms: "machines db' = machines db"
    and x: "\<exists>x \<in> set (machines db). m_id x = d_machine d" by blast+
  from calls.run_found [OF _ c, of ops] obtain d'' where d'': "find_call (foldl directive_step db' ops) (p_run req) (p_call_key req) = Some d''"
    "d_id d'' = d_id d" "d_machine d'' = d_machine d"
    by (auto simp: call_of_def)
  obtain m'' where "GetMachine (foldl directive_step db' ops) (d_machine d'') = Some m''"
    using x d''(3) ms by (cases "GetMachine (foldl directive_step db' ops) (d_machine d'')") (auto simp: GetMachine_def find_None_iff)
  moreover from this have "m_id m'' = d_machine d" using d''(3) by (auto simp: GetMachine_def dest: find_Some_in)
  ultimately show ?thesis using d'' assms(2,3) by (simp add: PickMachine_def)
qed

definition busy_laptop :: machine_row where
  "busy_laptop = laptop\<lparr>m_connected_to := ''gw'', m_seen := Some 10, m_caps := [''run''], m_max_llm := 1\<rparr>"

definition busy_db :: mdb where
  "busy_db = laptop_db\<lparr>machines := [busy_laptop]\<rparr>"

definition run_request :: pick_request where
  "run_request = \<lparr>p_directive = ''d1'', p_user = ''alice'', p_caps = [''run''], p_extra = [], p_kind = ''claude_code'', p_input = [],
     p_workflow = ''w'', p_run = ''r'', p_call_key = ''k'', p_handoff_by = 20, p_deadline = 30, p_seen_after = 5, p_session = [],
     p_participant = [], p_agent = [], p_turn_key = [], p_call_id = [], p_agent_id = []\<rparr>"

lemmas busy_defs = busy_db_def busy_laptop_def laptop_db_def laptop_def laptop_info_def new_machine_def run_request_def

lemma busy_machine: "m_id busy_laptop = ''m1''" "user_machines busy_db ''alice'' = [busy_laptop]" "directives busy_db = []"
  by (simp_all add: user_machines_def busy_defs)

lemma busy_chosen: "chooseMachine (choices_of busy_db run_request [''run'']) = ''m1''"
proof -
  have "openRuns busy_db ''m1'' = 0" by (simp add: openRuns_def busy_machine)
  moreover have "Online busy_laptop 5" "\<not> m_paused busy_laptop" "CanAll busy_laptop [''run'']" "m_max busy_laptop = 1"
    by (simp_all add: Online_def CanAll_def Can_def busy_defs)
  moreover have "p_user run_request = ''alice''" "p_seen_after run_request = 5" by (simp_all add: run_request_def)
  ultimately show ?thesis
    by (simp add: choices_of_def chooseMachine_def eligible_def busy_machine)
qed

lemma busy_pick: "PickMachine busy_db run_request 11 =
    Inr (busy_db\<lparr>directives := [reserved_directive run_request ''m1'' 11]\<rparr>, reserved_directive run_request ''m1'' 11, busy_laptop)"
proof -
  have "p_caps run_request = [''run'']" "p_extra run_request = []" "p_user run_request = ''alice''"
    by (simp_all add: run_request_def)
  then show ?thesis
    by (simp add: PickMachine_def find_call_def busy_machine busy_chosen insert_directive_def Let_def)
qed

theorem pick_again_finds_the_same_witness:
  "\<exists>d'' m''. PickMachine (foldl directive_step (busy_db\<lparr>directives := [reserved_directive run_request ''m1'' 11]\<rparr>)
       [DSweep 25 25]) run_request 26
     = Inr (foldl directive_step (busy_db\<lparr>directives := [reserved_directive run_request ''m1'' 11]\<rparr>) [DSweep 25 25], d'', m'')
     \<and> d_id d'' = ''d1''"
  using pick_again_finds_the_same [OF busy_pick refl refl, of "[DSweep 25 25]" 26]
  by (simp add: reserved_directive_def run_request_def) metis



text \<open>a directive that is over stays as it ended: whatever is reserved, started, ended or swept afterwards,
  its row is the same, its state, result and error included; ending it again is told as such and changes nothing.\<close>

theorem ended_directive_stays:
  assumes "GetDirective db did = Some d" and "\<not> is_open d"
  shows "GetDirective (foldl directive_step db ops) did = Some d
    \<and> (distinct (map d_id (directives db)) \<longrightarrow> CloseDirective db did state err now = (db, False))"
proof -
  have "closed_row db did = Some d" using assms by (simp add: closed_row_def)
  from ends.run_found [OF _ this, of ops] have run: "GetDirective (foldl directive_step db ops) did = Some d"
    by (auto simp: closed_row_def split: option.splits if_splits)
  have "CloseDirective db did state err now = (db, False)" if dist: "distinct (map d_id (directives db))"
  proof -
    have "\<not> (d_id x = did \<and> is_open x)" if "x \<in> set (directives db)" for x
    proof
      assume x: "d_id x = did \<and> is_open x"
      have "d \<in> set (directives db)" "d_id d = did" using assms(1) by (auto simp: GetDirective_def dest: find_Some_in)
      with dist x that have "x = d" by (auto simp: distinct_map dest: inj_onD)
      with x assms(2) show False by simp
    qed
    then have none: "\<forall>x \<in> set (directives db). \<not> (d_id x = did \<and> is_open x)" by blast
    then have "map (\<lambda>d. if d_id d = did \<and> is_open d then f d else d) (directives db) = directives db" for f
      by (intro map_idI) auto
    moreover have "filter (\<lambda>d. d_id d = did \<and> is_open d) (directives db) = []" using none by (simp add: filter_empty_conv)
    ultimately show ?thesis by (simp add: CloseDirective_def update_directives_def Let_def)
  qed
  with run show ?thesis by blast
qed

theorem ended_directive_stays_witness:
  "let db = busy_db\<lparr>directives := [(reserved_directive run_request ''m1'' 11)\<lparr>d_state := DirectiveOrphaned\<rparr>]\<rparr>
   in GetDirective (foldl directive_step db [DStart ''d1'' ''t'' ''a'' 50 12]) ''d1''
        = Some ((reserved_directive run_request ''m1'' 11)\<lparr>d_state := DirectiveOrphaned\<rparr>)"
proof -
  let ?d = "(reserved_directive run_request ''m1'' 11)\<lparr>d_state := DirectiveOrphaned\<rparr>"
  let ?db = "busy_db\<lparr>directives := [?d]\<rparr>"
  have "GetDirective ?db ''d1'' = Some ?d" "\<not> is_open ?d"
    by (simp_all add: GetDirective_def reserved_directive_def run_request_def is_open_def)
  from ended_directive_stays [OF this, of "[DStart ''d1'' ''t'' ''a'' 50 12]"] show ?thesis by (simp add: Let_def)
qed

text \<open>the sweep closes exactly the directives nobody will end: after it, no directive is reserved past its
  handoff nor running past its deadline; it returns those it closed, which are over, and touches no other.\<close>

theorem sweep_closes_exactly:
  "let (db', closed) = SweepDirectives db at now in
     (\<forall>d \<in> set (directives db'). \<not> (d_state d = DirectiveReserved \<and> d_handoff_by d \<le> at)
        \<and> \<not> (d_state d = DirectiveRunning \<and> d_deadline d \<le> at))
     \<and> map d_id closed = map d_id (filter (swept at) (directives db)) \<and> (\<forall>d \<in> set closed. \<not> is_open d)
     \<and> length (directives db') = length (directives db)
     \<and> (\<forall>i < length (directives db). directives db' ! i =
          (if swept at (directives db ! i) then sweep_one now (directives db ! i) else directives db ! i))"
proof -
  let ?g = "\<lambda>d. if swept at d then sweep_one now d else d"
  have over: "\<not> is_open (sweep_one now d)" "d_id (sweep_one now d) = d_id d" for d
    by (simp_all add: sweep_one_def is_open_def)
  have a: "\<not> (d_state (?g d) = DirectiveReserved \<and> d_handoff_by (?g d) \<le> at)
      \<and> \<not> (d_state (?g d) = DirectiveRunning \<and> d_deadline (?g d) \<le> at)" for d
    using over(1) [of d] by (cases "swept at d") (auto simp: is_open_def swept_def)
  have b: "map d_id (map (sweep_one now) ds) = map d_id ds" for ds by (simp add: over(2) comp_def)
  have c: "\<forall>d \<in> set (map (sweep_one now) ds). \<not> is_open d" for ds by (simp add: over(1))
  show ?thesis unfolding SweepDirectives_def Let_def split update_directives_simps
  proof (intro conjI b c)
    show "\<forall>d \<in> set (map ?g (directives db)). \<not> (d_state d = DirectiveReserved \<and> d_handoff_by d \<le> at)
        \<and> \<not> (d_state d = DirectiveRunning \<and> d_deadline d \<le> at)"
      unfolding set_map ball_simps using a by blast
  qed simp_all
qed

theorem sweep_closes_exactly_witness:
  "directives (fst (SweepDirectives (busy_db\<lparr>directives := [reserved_directive run_request ''m1'' 11]\<rparr>) 25 25)) ! 0
     = sweep_one 25 (reserved_directive run_request ''m1'' 11)"
  using sweep_closes_exactly [of "busy_db\<lparr>directives := [reserved_directive run_request ''m1'' 11]\<rparr>" 25 25]
  by (simp add: Let_def case_prod_unfold) (simp add: swept_def reserved_directive_def run_request_def)

text \<open>a call to the model is admitted exactly when it should: its machine is the user's and not revoked, online,
  not paused, offers its model, is not set aside, is under its cap of calls, and neither the attempt nor the ID was
  used. A machine at its cap but able otherwise is busy, which passes; the others are told apart.\<close>

theorem llm_call_admitted_exactly:
  assumes "distinct (map m_id (machines db))"
  shows "((\<exists>r. CreateLLMDirective db req now = Inr r) \<longleftrightarrow>
      (\<exists>m \<in> set (machines db). m_id m = l_machine req \<and> m_user m = l_user req \<and> m_revoked m = None
         \<and> Online m (l_seen_after req) \<and> \<not> m_paused m \<and> Can m llmCapability \<and> \<not> AsideForLLM m (l_seen_after req)
         \<and> int (openLLMCalls db (m_id m)) < m_max_llm m)
      \<and> (\<forall>d \<in> set (directives db). d_id d \<noteq> l_directive req \<and> \<not> (d_run d = l_run req \<and> d_call_key d = l_call_key req)))
    \<and> (\<forall>n. CreateLLMDirective db req now = Inl (ErrMachineBusy n) \<longrightarrow>
         (\<exists>m \<in> set (machines db). m_id m = l_machine req \<and> Online m (l_seen_after req) \<and> \<not> m_paused m
            \<and> m_max_llm m = n \<and> n \<le> int (openLLMCalls db (m_id m))))"
proof -
  let ?P = "\<lambda>m. m_id m = l_machine req \<and> m_user m = l_user req \<and> m_revoked m = None"
  have avail: "llmUnavailable m t = [] \<longleftrightarrow> Online m t \<and> \<not> m_paused m \<and> Can m llmCapability \<and> \<not> AsideForLLM m t" for m t
    by (auto simp: llmUnavailable_def)
  show ?thesis
  proof (cases "find ?P (machines db)")
    case None
    then have "\<exists>w. CreateLLMDirective db req now = Inl (ErrMachineUnavailable w)" by (simp add: CreateLLMDirective_def)
    moreover from None have "\<not> (\<exists>m \<in> set (machines db). ?P m)" by (auto simp: find_None_iff)
    ultimately show ?thesis by auto
  next
    case (Some m)
    have m: "m \<in> set (machines db)" "?P m" using find_Some_in [OF Some] by auto
    have uniq: "x = m" if "x \<in> set (machines db)" "m_id x = l_machine req" for x
      using inj_onD [of m_id "set (machines db)" x m] assms that m by (simp add: distinct_map)
    have keys: "find_call db (l_run req) (l_call_key req) = None \<longleftrightarrow>
        (\<forall>d \<in> set (directives db). \<not> (d_run d = l_run req \<and> d_call_key d = l_call_key req))"
      by (auto simp: find_call_def find_None_iff)
    have ins: "(\<exists>db'. insert_directive db (llm_directive req mid now) = Inr db') \<longleftrightarrow>
        (\<forall>d \<in> set (directives db). d_id d \<noteq> l_directive req \<and> \<not> (d_run d = l_run req \<and> d_call_key d = l_call_key req))" for mid
      by (auto simp: insert_directive_def list_ex_iff llm_directive_def)
    have "(\<exists>r. CreateLLMDirective db req now = Inr r) \<longleftrightarrow>
        llmUnavailable m (l_seen_after req) = [] \<and> int (openLLMCalls db (m_id m)) < m_max_llm m
        \<and> (\<exists>db'. insert_directive db (llm_directive req (m_id m) now) = Inr db')"
      using ins [of "m_id m"] keys by (auto simp: CreateLLMDirective_def Some split: sum.splits if_splits)
    moreover have "CreateLLMDirective db req now = Inl (ErrMachineBusy n) \<Longrightarrow>
        llmUnavailable m (l_seen_after req) = [] \<and> m_max_llm m = n \<and> n \<le> int (openLLMCalls db (m_id m))" for n
      by (auto simp: CreateLLMDirective_def Some split: sum.splits if_splits)
    ultimately show ?thesis unfolding ins avail using m uniq by blast
  qed
qed

definition llm_call :: llm_request where
  "llm_call = \<lparr>l_directive = ''d2'', l_machine = ''m1'', l_user = ''alice'', l_input = [], l_workflow = ''w'', l_run = ''r'',
     l_activity = ''a'', l_call_key = ''llm:0:1'', l_token = ''t'', l_deadline = 50, l_seen_after = 5, l_session = [],
     l_turn_key = [], l_agent_id = []\<rparr>"

definition llm_db :: mdb where
  "llm_db = laptop_db\<lparr>machines := [busy_laptop\<lparr>m_caps := [''llm'']\<rparr>]\<rparr>"

lemma llm_db_machines: "machines llm_db = [busy_laptop\<lparr>m_caps := [''llm'']\<rparr>]" "directives llm_db = []"
  by (simp_all add: llm_db_def laptop_db_def)

lemma llm_laptop:
  "m_id (busy_laptop\<lparr>m_caps := [''llm'']\<rparr>) = ''m1''" "m_user (busy_laptop\<lparr>m_caps := [''llm'']\<rparr>) = ''alice''"
  "m_revoked (busy_laptop\<lparr>m_caps := [''llm'']\<rparr>) = None" "Online (busy_laptop\<lparr>m_caps := [''llm'']\<rparr>) 5"
  "\<not> m_paused (busy_laptop\<lparr>m_caps := [''llm'']\<rparr>)" "Can (busy_laptop\<lparr>m_caps := [''llm'']\<rparr>) ''llm''"
  "\<not> AsideForLLM (busy_laptop\<lparr>m_caps := [''llm'']\<rparr>) 5" "m_max_llm (busy_laptop\<lparr>m_caps := [''llm'']\<rparr>) = 1"
  by (simp_all add: busy_defs Online_def Can_def AsideForLLM_def)

theorem llm_call_admitted_exactly_witness:
  "\<exists>r. CreateLLMDirective llm_db llm_call 12 = Inr r"
proof -
  have "distinct (map m_id (machines llm_db))" by (simp add: llm_db_machines)
  from llm_call_admitted_exactly [OF this, of llm_call 12] show ?thesis
    by (simp add: llm_db_machines llm_call_def llm_laptop openLLMCalls_def llmCapability_def)
qed

text \<open>The machines a turn's model may run on: the user's, not excluded, able to take a call now.\<close>

definition llm_candidates :: "mdb \<Rightarrow> string \<Rightarrow> string list \<Rightarrow> time \<Rightarrow> machine_row list" where
  "llm_candidates db userID excluded seenAfter =
     filter (\<lambda>m. m_id m \<notin> set excluded \<and> llmUnavailable m seenAfter = []) (user_machines db userID)"

lemma find_choice:
  assumes "distinct (map m_id (machines db))" and "m \<in> set (user_machines db u)" and "m_id m \<noteq> []"
  shows "find (\<lambda>x. m_id m \<noteq> [] \<and> m_id x = m_id m) (user_machines db u) = Some m"
proof (rule find_if_unique)
  fix y assume "y \<in> set (user_machines db u)" "m_id m \<noteq> [] \<and> m_id y = m_id m"
  then show "y = m" using inj_onD [of m_id "set (machines db)" y m] assms(1,2) by (simp add: distinct_map set_user_machines)
qed (use assms in simp_all)

text \<open>a turn's model goes to a machine that can take it: one of the user's, not excluded, online, not paused,
  with its model and not set aside, that takes calls at all; under its cap of calls whenever one such machine is,
  and of these the highest priority, then the least busy. There is none to choose exactly when no machine
  qualifies: a machine at its cap is still chosen, its calls wait.\<close>

theorem llm_machine_chosen_well:
  assumes ids: "distinct (map m_id (machines db))" and ne: "\<forall>m \<in> set (machines db). m_id m \<noteq> []"
  shows "(ChooseLLMMachine db userID excluded seenAfter = Inl ErrNoMachine \<longleftrightarrow> (\<forall>m \<in> set (llm_candidates db userID excluded seenAfter). m_max_llm m \<le> 0))
    \<and> (\<forall>m. ChooseLLMMachine db userID excluded seenAfter = Inr m \<longrightarrow>
         m \<in> set (llm_candidates db userID excluded seenAfter) \<and> 0 < m_max_llm m
         \<and> (\<forall>x \<in> set (llm_candidates db userID excluded seenAfter). int (openLLMCalls db (m_id x)) < m_max_llm x \<longrightarrow>
              int (openLLMCalls db (m_id m)) < m_max_llm m
              \<and> (- m_priority m, openLLMCalls db (m_id m), m_id m) \<le> (- m_priority x, openLLMCalls db (m_id x), m_id x)))"
proof -
  define C where "C = llm_candidates db userID excluded seenAfter"
  let ?free = "map (llm_choice db) C"
  let ?full = "map (\<lambda>c. c\<lparr>c_max := c_open c + 1\<rparr>) (filter (\<lambda>c. 0 < c_max c) ?free)"
  have mem: "m \<in> set (user_machines db userID)" "m_id m \<noteq> []" if "m \<in> set C" for m
    using that ne by (auto simp: C_def llm_candidates_def set_user_machines)
  define chosen where "chosen = (if chooseMachine ?free = [] then chooseMachine ?full else chooseMachine ?free)"
  have res: "ChooseLLMMachine db userID excluded seenAfter =
      (case find (\<lambda>m. chosen \<noteq> [] \<and> m_id m = chosen) (user_machines db userID) of Some m \<Rightarrow> Inr m | None \<Rightarrow> Inl ErrNoMachine)"
    by (simp add: ChooseLLMMachine_def Let_def chosen_def C_def llm_candidates_def)
  have ids_ne: "\<forall>c \<in> set ?free. c_id c \<noteq> []" "\<forall>c \<in> set ?full. c_id c \<noteq> []" using mem by (auto simp: llm_choice_def)
  have el: "eligible (llm_choice db m) \<longleftrightarrow> int (openLLMCalls db (m_id m)) < m_max_llm m" for m
    by (auto simp: eligible_def llm_choice_def)
  have el': "\<forall>c \<in> set ?full. eligible c" by (auto simp: eligible_def llm_choice_def)
  note free = chooseMachine_cases [OF ids_ne(1)] and full = chooseMachine_cases [OF ids_ne(2)]
  consider (room) m where "m \<in> set C" "m_id m = chosen" "int (openLLMCalls db (m_id m)) < m_max_llm m"
      "\<forall>x \<in> set C. int (openLLMCalls db (m_id x)) < m_max_llm x \<longrightarrow> choice_key (llm_choice db m) \<le> choice_key (llm_choice db x)"
    | (wait) m where "m \<in> set C" "m_id m = chosen" "0 < m_max_llm m" "\<forall>x \<in> set C. \<not> int (openLLMCalls db (m_id x)) < m_max_llm x"
    | (none) "chosen = []" "\<forall>m \<in> set C. m_max_llm m \<le> 0"
  proof (cases "chooseMachine ?free = []")
    case False
    with free obtain c where "c \<in> set ?free" "c_id c = chooseMachine ?free" "eligible c"
      "\<forall>x \<in> set ?free. eligible x \<longrightarrow> choice_key c \<le> choice_key x" by blast
    then obtain m where m: "m \<in> set C" "c_id (llm_choice db m) = chooseMachine ?free" "eligible (llm_choice db m)"
      "\<forall>x \<in> set C. eligible (llm_choice db x) \<longrightarrow> choice_key (llm_choice db m) \<le> choice_key (llm_choice db x)" by auto
    have "c_id (llm_choice db m) = m_id m" by (simp add: llm_choice_def)
    with m False show thesis unfolding el by (intro room [of m]) (simp_all add: chosen_def)
  next
    case True
    with free el have no_room: "\<forall>x \<in> set C. \<not> int (openLLMCalls db (m_id x)) < m_max_llm x" by auto
    show thesis
    proof (cases "chooseMachine ?full = []")
      case True': True
      with full el' have "?full = []" by (cases ?full) auto
      then have "\<forall>m \<in> set C. m_max_llm m \<le> 0" by (auto simp: filter_empty_conv llm_choice_def)
      with True True' show thesis by (intro none) (simp_all add: chosen_def)
    next
      case False
      with full obtain c where "c \<in> set ?full" "c_id c = chooseMachine ?full" by blast
      then obtain m where "m \<in> set C" "0 < m_max_llm m" "m_id m = chooseMachine ?full" by (auto simp: llm_choice_def)
      with True False no_room show thesis by (intro wait) (simp_all add: chosen_def)
    qed
  qed
  then show ?thesis
  proof cases
    case room
    have "find (\<lambda>x. chosen \<noteq> [] \<and> m_id x = chosen) (user_machines db userID) = Some m"
      using find_choice [OF ids mem [OF room(1)]] room(2) by simp
    moreover have "0 < m_max_llm m" "\<not> (\<forall>m \<in> set C. m_max_llm m \<le> 0)" using room(1,3) by force+
    ultimately show ?thesis using room unfolding res C_def [symmetric]
      by (auto simp: choice_key_def llm_choice_def less_eq_prod_def dest!: bspec)
  next
    case wait
    have "find (\<lambda>x. chosen \<noteq> [] \<and> m_id x = chosen) (user_machines db userID) = Some m"
      using find_choice [OF ids mem [OF wait(1)]] wait(2) by simp
    with wait show ?thesis unfolding res C_def [symmetric] by fastforce
  next
    case none
    then have "find (\<lambda>x. chosen \<noteq> [] \<and> m_id x = chosen) (user_machines db userID) = None" by (simp add: find_None_iff)
    with none show ?thesis unfolding res C_def [symmetric] by simp
  qed
qed

theorem llm_machine_chosen_well_witness:
  "ChooseLLMMachine llm_db ''alice'' [] 5 \<noteq> Inl ErrNoMachine \<and> ChooseLLMMachine llm_db ''alice'' [''m1''] 5 = Inl ErrNoMachine"
proof -
  have ids: "distinct (map m_id (machines llm_db))" "\<forall>m \<in> set (machines llm_db). m_id m \<noteq> []"
    by (simp_all add: llm_db_machines llm_laptop)
  have "user_machines llm_db ''alice'' = [busy_laptop\<lparr>m_caps := [''llm'']\<rparr>]"
    by (simp add: user_machines_def llm_db_machines llm_laptop)
  then have c: "llm_candidates llm_db ''alice'' [] 5 = [busy_laptop\<lparr>m_caps := [''llm'']\<rparr>]"
    "llm_candidates llm_db ''alice'' [''m1''] 5 = []"
    using llm_laptop by (simp_all add: llm_candidates_def llmUnavailable_def llmCapability_def)
  show ?thesis
    using llm_machine_chosen_well [OF ids, of "''alice''" "[]" 5] llm_machine_chosen_well [OF ids, of "''alice''" "[''m1'']" 5]
    by (simp add: c llm_laptop)
qed

end
