(* ===== verification/Tasks.thy ===== *)
theory Tasks
  imports Messages "HOL-Library.Product_Lexorder"
begin

section \<open>Background tasks\<close>

text \<open>
  \<open>store/background_task.go\<close> (the table of the tasks and the transaction that ends one) and
  \<open>activity/task.go\<close> (what a worker does with it). The state is the sessions the tasks refer to, the rows
  of \<open>background_tasks\<close> and the messages; a transaction is one function, and what other writers do between
  the calls of an activity is an argument of it. A value kept in a JSON column comes back as valid UTF-8
  (\<open>fu_valid\<close>). Rows of one \<open>ORDER BY\<close> rank are read in the order of the bytes of their IDs.
\<close>

record session_row =
  s_id :: string
  s_agent :: string
  s_channel :: string
  s_channel_id :: string

record bg_task =
  t_id :: string
  t_session :: string
  t_participant :: string
  t_user :: string
  t_user_name :: string
  t_tool :: string
  t_summary :: string
  t_turn_key :: string
  t_call_id :: string
  t_channel :: string
  t_channel_id :: string
  t_state :: bg_state
  t_started :: time
  t_ended :: "time option"
  t_ended_by :: string
  t_result :: int
  t_cancelled_by :: string
  t_cancel_sent :: "time option"
  t_woken :: "time option"
  t_follow_ups :: "follow_up list"

record tdb =
  sessions :: "session_row list"
  tasks :: "bg_task list"
  t_msgs :: msg_table

datatype task_error =
    ErrTooManyTasks
  | ErrTaskSessionGone
  | ErrTaskNotFound
  | ErrTaskOver
  | ErrTooManyFollowUps

definition TaskEndedByTask :: string where "TaskEndedByTask = ''task''"

definition TaskEndedBySweep :: string where "TaskEndedBySweep = ''sweep''"

abbreviation running :: "bg_task \<Rightarrow> bool" where
  "running t \<equiv> t_state t = BackgroundRunning"

definition Ref :: "bg_task \<Rightarrow> task_ref" where
  "Ref t = \<lparr>ref_id = t_id t, ref_tool = t_tool t, ref_summary = t_summary t, ref_turn = t_turn_key t,
     ref_call = t_call_id t, ref_state = t_state t, ref_requested_by = t_user_name t,
     ref_started = Some (t_started t), ref_ended = t_ended t, ref_cancelled_by = t_cancelled_by t,
     ref_follow_ups = t_follow_ups t, ref_file = None\<rparr>"

definition fu_valid :: "follow_up \<Rightarrow> follow_up" where
  "fu_valid f = f\<lparr>fu_text := to_valid (fu_text f), fu_user := to_valid (fu_user f),
     fu_user_name := to_valid (fu_user_name f)\<rparr>"

subsection \<open>The table\<close>

definition GetSession :: "tdb \<Rightarrow> string \<Rightarrow> session_row option" where
  "GetSession db sid = find (\<lambda>s. s_id s = sid) (sessions db)"

definition GetTask :: "tdb \<Rightarrow> string \<Rightarrow> bg_task option" where
  "GetTask db i = find (\<lambda>t. t_id t = i) (tasks db)"

definition running_count :: "tdb \<Rightarrow> string \<Rightarrow> string \<Rightarrow> nat" where
  "running_count db sid p = length (filter (\<lambda>t. t_session t = sid \<and> t_participant t = p \<and> running t) (tasks db))"

text \<open>The row a task is recorded as: the columns the statement leaves out take their defaults.\<close>

definition registered :: "bg_task \<Rightarrow> time \<Rightarrow> bg_task" where
  "registered t now = t\<lparr>t_state := BackgroundRunning, t_started := now, t_ended := None, t_ended_by := [],
     t_result := 0, t_cancelled_by := [], t_cancel_sent := None, t_woken := None,
     t_follow_ups := map fu_valid (t_follow_ups t)\<rparr>"

definition RegisterTask :: "tdb \<Rightarrow> bg_task \<Rightarrow> nat \<Rightarrow> time \<Rightarrow> (task_error, tdb) result" where
  "RegisterTask db t mx now =
     (if GetTask db (t_id t) \<noteq> None then Inr db
      else if mx \<le> running_count db (t_session t) (t_participant t) then Inl ErrTooManyTasks
      else if GetSession db (t_session t) = None then Inl ErrTaskSessionGone
      else Inr (db\<lparr>tasks := tasks db @ [registered t now]\<rparr>))"

definition DropTask :: "tdb \<Rightarrow> string \<Rightarrow> tdb" where
  "DropTask db i = db\<lparr>tasks := filter (\<lambda>t. \<not> (t_id t = i \<and> running t)) (tasks db)\<rparr>"

definition ListRunningTasks :: "tdb \<Rightarrow> string \<Rightarrow> string \<Rightarrow> bg_task list" where
  "ListRunningTasks db sid p = sort_key (\<lambda>t. (t_started t, t_id t))
     (filter (\<lambda>t. t_session t = sid \<and> (p = [] \<or> t_participant t = p) \<and> running t) (tasks db))"

definition ListTasksToWake :: "tdb \<Rightarrow> time \<Rightarrow> bg_task list" where
  "ListTasksToWake db endedBefore = sort_key (\<lambda>t. (the (t_ended t), t_id t))
     (filter (\<lambda>t. (t_state t = BackgroundDone \<or> t_state t = BackgroundFailed) \<and> t_woken t = None
        \<and> (case t_ended t of None \<Rightarrow> False | Some e \<Rightarrow> e < endedBefore)) (tasks db))"

definition ListTasksToCancel :: "tdb \<Rightarrow> bg_task list" where
  "ListTasksToCancel db = sort_key (\<lambda>t. (t_started t, t_id t))
     (filter (\<lambda>t. running t \<and> t_cancelled_by t \<noteq> [] \<and> t_cancel_sent t = None) (tasks db))"

definition ListTasksRunningSince :: "tdb \<Rightarrow> time \<Rightarrow> bg_task list" where
  "ListTasksRunningSince db before = sort_key (\<lambda>t. (t_started t, t_id t))
     (filter (\<lambda>t. running t \<and> t_started t < before) (tasks db))"

text \<open>\<open>UPDATE background_tasks SET ... WHERE id = $1\<close>.\<close>

definition update_task :: "tdb \<Rightarrow> string \<Rightarrow> (bg_task \<Rightarrow> bg_task) \<Rightarrow> tdb" where
  "update_task db i f = db\<lparr>tasks := map (\<lambda>t. if t_id t = i then f t else t) (tasks db)\<rparr>"

definition SetTaskWoken :: "tdb \<Rightarrow> string \<Rightarrow> time \<Rightarrow> tdb" where
  "SetTaskWoken db i now = update_task db i (\<lambda>t. if t_woken t = None then t\<lparr>t_woken := Some now\<rparr> else t)"

definition SetTaskCancelSent :: "tdb \<Rightarrow> string \<Rightarrow> time \<Rightarrow> tdb" where
  "SetTaskCancelSent db i now =
     update_task db i (\<lambda>t. if t_cancel_sent t = None then t\<lparr>t_cancel_sent := Some now\<rparr> else t)"

definition AddTaskFollowUp ::
  "tdb \<Rightarrow> string \<Rightarrow> string \<Rightarrow> string \<Rightarrow> follow_up \<Rightarrow> nat \<Rightarrow> (task_error, tdb) result" where
  "AddTaskFollowUp db sid p i f mx =
     (case GetTask db i of
        None \<Rightarrow> Inl ErrTaskNotFound
      | Some t \<Rightarrow>
          if t_session t = sid \<and> t_participant t = p \<and> running t \<and> length (t_follow_ups t) < mx
          then Inr (update_task db i (\<lambda>t. t\<lparr>t_follow_ups := t_follow_ups t @ [fu_valid f]\<rparr>))
          else if t_session t \<noteq> sid \<or> t_participant t \<noteq> p then Inl ErrTaskNotFound
          else if \<not> running t then Inl ErrTaskOver
          else Inl ErrTooManyFollowUps)"

definition SetTaskCancelledBy :: "tdb \<Rightarrow> string \<Rightarrow> string \<Rightarrow> (task_error, tdb) result" where
  "SetTaskCancelledBy db i name =
     (case GetTask db i of
        None \<Rightarrow> Inl ErrTaskNotFound
      | Some t \<Rightarrow> if running t then Inr (update_task db i (\<lambda>t. t\<lparr>t_cancelled_by := name\<rparr>)) else Inl ErrTaskOver)"

text \<open>\<open>DeleteSession\<close>: the rows of its tasks and its messages go with it.\<close>

definition DeleteSession :: "tdb \<Rightarrow> string \<Rightarrow> tdb" where
  "DeleteSession db sid =
     \<lparr>sessions = filter (\<lambda>s. s_id s \<noteq> sid) (sessions db),
      tasks = filter (\<lambda>t. t_session t \<noteq> sid) (tasks db),
      t_msgs = DeleteMessagesBySession (t_msgs db) sid\<rparr>"

subsection \<open>Ending a task\<close>

record task_ending =
  e_task :: "bg_task option"
  e_message :: int
  e_mine :: bool
  e_gone :: bool

text \<open>A task as it ends: stopped too late, it ended all the same, and nobody cancelled it.\<close>

definition ended_task :: "bg_task \<Rightarrow> bg_state \<Rightarrow> string \<Rightarrow> time \<Rightarrow> bg_task" where
  "ended_task t st who now = t\<lparr>t_state := st, t_ended := Some now, t_ended_by := who,
     t_cancelled_by := (if st \<noteq> BackgroundCancelled then [] else t_cancelled_by t)\<rparr>"

definition EndTask ::
  "tdb \<Rightarrow> string \<Rightarrow> string \<Rightarrow> bg_state \<Rightarrow> (bg_task \<Rightarrow> message) \<Rightarrow> time \<Rightarrow> tdb \<times> task_ending" where
  "EndTask db i who st build now =
     (case GetTask db i of
        None \<Rightarrow> (db, \<lparr>e_task = None, e_message = 0, e_mine = False, e_gone = True\<rparr>)
      | Some t \<Rightarrow>
          if \<not> running t
          then (db, \<lparr>e_task = Some t, e_message = t_result t, e_mine = (t_ended_by t = who), e_gone = False\<rparr>)
          else
            let t1 = ended_task t st who now;
                (msgs, mid) = AppendMessage (t_msgs db) (t_session t1) (TaskResultKey i) (build t1);
                t2 = t1\<lparr>t_result := mid\<rparr>;
                db1 = update_task (db\<lparr>t_msgs := msgs\<rparr>) i (\<lambda>x. if running x then
                        x\<lparr>t_state := st, t_ended := Some now, t_ended_by := who, t_result := mid,
                          t_cancelled_by := t_cancelled_by t2\<rparr> else x)
            in (db1, \<lparr>e_task = Some t2, e_message = mid, e_mine = True, e_gone = False\<rparr>))"

subsection \<open>The activities\<close>

definition MaxRunningTasks :: nat where "MaxRunningTasks = 3"

definition MaxTaskMessageBytes :: nat where "MaxTaskMessageBytes = 16 * 1024"

definition maxFollowUps :: nat where "maxFollowUps = 10"

text \<open>The activity's output: the text the model reads as the call's error, empty when registered.\<close>

definition RegisterTaskActivity :: "tdb \<Rightarrow> bg_task \<Rightarrow> time \<Rightarrow> tdb \<times> string" where
  "RegisterTaskActivity db t now =
     (case RegisterTask db t MaxRunningTasks now of
        Inr db' \<Rightarrow> (db', [])
      | Inl ErrTaskSessionGone \<Rightarrow> (db, ''The session was deleted: nothing was started.'')
      | Inl _ \<Rightarrow> (db, ''You have '' @ dec_nat MaxRunningTasks @ '' background tasks running already, the most you may: ''
                     @ ''wait for one of them to end, or run this call without background.''))"

definition TaskResultFileName :: "string \<Rightarrow> string" where
  "TaskResultFileName toolName = ''resultat-'' @ toolName @ ''.md''"

definition TaskResultMessage :: "bg_task \<Rightarrow> string \<Rightarrow> task_file option \<Rightarrow> message" where
  "TaskResultMessage t content file =
     (let m = (empty_message RoleUser)\<lparr>m_kind := KindTaskResult, m_user := t_user t, m_agent := t_participant t,
                m_task := Some ((Ref t)\<lparr>ref_file := file\<rparr>)\<rparr>
      in if content \<noteq> [] then m\<lparr>m_content := json_marshal content\<rparr> else m)"

definition clipBytes :: "string \<Rightarrow> nat \<Rightarrow> string" where
  "clipBytes s n = (if length s \<le> n then s else take (back_up s n) s)"

definition TaskSignsReply :: "session_row \<Rightarrow> string \<Rightarrow> bool" where
  "TaskSignsReply sess p = (p \<noteq> s_agent sess)"

record file_ref =
  f_id :: string
  f_name :: string
  f_type :: string
  f_size :: int
  f_sha :: string

record post_output =
  po_gone :: bool
  po_message :: int
  po_wake :: bool
  po_session :: string
  po_participant :: string
  po_turn_key :: string
  po_user :: string
  po_user_name :: string
  po_channel :: string
  po_channel_id :: string
  po_session_channel :: string
  po_session_channel_id :: string
  po_sign :: bool
  po_file :: "file_ref option"

definition no_output :: post_output where
  "no_output = \<lparr>po_gone = False, po_message = 0, po_wake = False, po_session = [], po_participant = [],
     po_turn_key = [], po_user = [], po_user_name = [], po_channel = [], po_channel_id = [],
     po_session_channel = [], po_session_channel_id = [], po_sign = False, po_file = None\<rparr>"

text \<open>
  \<open>pub\<close> is the worker's publisher: it is called with the call that launched the task (its session, turn and
  call, user and agent), the file's name and its content; \<open>Inl\<close> is its error, having no publisher such an one.
\<close>

type_synonym publisher = "string \<times> string \<times> string \<times> string \<times> string \<Rightarrow> string \<Rightarrow> string \<Rightarrow> (string, file_ref) result"

definition publish :: "publisher \<Rightarrow> bg_task \<Rightarrow> string \<Rightarrow> (string, file_ref) result" where
  "publish pub t content =
     pub (t_session t, t_turn_key t, t_call_id t, t_user t, t_participant t) (TaskResultFileName (t_tool t)) content"

definition ended_output :: "bg_task \<Rightarrow> int \<Rightarrow> file_ref option \<Rightarrow> post_output" where
  "ended_output t mid file = no_output\<lparr>po_message := mid, po_session := t_session t,
     po_participant := t_participant t, po_turn_key := t_turn_key t, po_user := t_user t, po_user_name := t_user_name t,
     po_channel := t_channel t, po_channel_id := t_channel_id t, po_wake := (t_state t \<noteq> BackgroundCancelled),
     po_file := file\<rparr>"

text \<open>
  \<open>mid1\<close> is what other writers do between the reading of the task and its end, \<open>mid2\<close> between its end and
  the reading of its session.
\<close>

definition PostTaskResult ::
  "(tdb \<Rightarrow> tdb) \<Rightarrow> (tdb \<Rightarrow> tdb) \<Rightarrow> publisher \<Rightarrow>
   tdb \<Rightarrow> string \<Rightarrow> bg_state \<Rightarrow> string \<Rightarrow> time \<Rightarrow> tdb \<times> (string, post_output) result" where
  "PostTaskResult mid1 mid2 pub db i st content now =
     (case GetTask db i of
        None \<Rightarrow> (db, Inr (no_output\<lparr>po_gone := True\<rparr>))
      | Some t \<Rightarrow>
          if \<not> running t \<and> t_ended_by t \<noteq> TaskEndedByTask then (db, Inr no_output)
          else
            let db1 = mid1 db;
                big = (MaxTaskMessageBytes < length content \<and> st \<noteq> BackgroundCancelled)
            in case (if big then map_sum id Some (publish pub t content) else Inr None) of
                 Inl err \<Rightarrow>
                   (db1, if GetTask db1 i = None then Inr (no_output\<lparr>po_gone := True\<rparr>)
                         else Inl (''publish the result: '' @ err))
               | Inr file \<Rightarrow>
                   let text = (if big then clipBytes content MaxTaskMessageBytes else content);
                       task_file = map_option (\<lambda>f. \<lparr>tf_id = f_id f, tf_name = f_name f, tf_size = f_size f\<rparr>) file;
                       (db2, ending) = EndTask db1 i TaskEndedByTask st (\<lambda>t. TaskResultMessage t text task_file) now
                   in if e_gone ending then (db2, Inr (no_output\<lparr>po_gone := True\<rparr>))
                      else if \<not> e_mine ending then (db2, Inr no_output)
                      else let ended = the (e_task ending); out = ended_output ended (e_message ending) file
                        in if \<not> po_wake out then (db2, Inr out)
                           else let db3 = mid2 db2 in
                             (case GetSession db3 (t_session ended) of
                                None \<Rightarrow> (db3, Inr (out\<lparr>po_wake := False\<rparr>))
                              | Some sess \<Rightarrow>
                                  (db3, Inr (out\<lparr>po_session_channel := s_channel sess,
                                                 po_session_channel_id := s_channel_id sess,
                                                 po_sign := TaskSignsReply sess (t_participant ended)\<rparr>))))"

subsection \<open>The invariant\<close>

text \<open>One row per ID, each of a session that exists.\<close>

definition tasks_ok :: "tdb \<Rightarrow> bool" where
  "tasks_ok db \<longleftrightarrow>
     distinct (map t_id (tasks db)) \<and> table_ok (t_msgs db)
     \<and> (\<forall>t \<in> set (tasks db). \<exists>s \<in> set (sessions db). s_id s = t_session t)"

text \<open>
  A task that ended has its message in its session, as it ended, under the ID its row names; a message of a
  task's end is that of a task that ended.
\<close>

definition is_told :: "msg_table \<Rightarrow> bg_task \<Rightarrow> bool" where
  "is_told T t \<longleftrightarrow> (\<exists>r content file. find_row T (t_session t, TaskResultKey (t_id t)) = Some r
     \<and> r_id r = t_result t \<and> r_data r = TaskResultMessage t content file)"

definition is_end_key :: "string \<Rightarrow> bool" where
  "is_end_key key = has_prefix ''task:'' key"

definition told_ok :: "tdb \<Rightarrow> bool" where
  "told_ok db \<longleftrightarrow>
     (\<forall>t \<in> set (tasks db). \<not> running t \<longrightarrow> is_told (t_msgs db) t)
     \<and> (\<forall>r \<in> set (rows (t_msgs db)). is_end_key (r_key r) \<longrightarrow>
          (\<exists>t \<in> set (tasks db). t_session t = r_session r \<and> TaskResultKey (t_id t) = r_key r \<and> \<not> running t))"

definition cap_ok :: "tdb \<Rightarrow> bool" where
  "cap_ok db \<longleftrightarrow> (\<forall>sid p. running_count db sid p \<le> MaxRunningTasks)"

subsection \<open>Rows found and rows changed\<close>

lemma GetTask_Some: "GetTask db i = Some t \<Longrightarrow> t \<in> set (tasks db) \<and> t_id t = i"
  by (auto simp: GetTask_def find_Some_iff)

lemma GetTask_None: "GetTask db i = None \<longleftrightarrow> i \<notin> t_id ` set (tasks db)"
  by (auto simp: GetTask_def find_None_iff)

lemma find_distinct:
  "distinct (map f xs) \<Longrightarrow> x \<in> set xs \<Longrightarrow> find (\<lambda>y. f y = f x) xs = Some x"
  by (induction xs) (auto simp: image_iff)

lemma GetTask_unique: "tasks_ok db \<Longrightarrow> t \<in> set (tasks db) \<Longrightarrow> GetTask db (t_id t) = Some t"
  by (simp add: GetTask_def find_distinct tasks_ok_def)

lemma task_eq: "tasks_ok db \<Longrightarrow> t \<in> set (tasks db) \<Longrightarrow> u \<in> set (tasks db) \<Longrightarrow> t_id t = t_id u \<Longrightarrow> t = u"
  by (metis GetTask_unique option.inject)

lemma find_map_if:
  "(\<And>x. f (g x) = f x) \<Longrightarrow>
   find (\<lambda>x. f x = k) (map (\<lambda>x. if f x = i then g x else x) xs)
     = map_option (\<lambda>x. if k = i then g x else x) (find (\<lambda>x. f x = k) xs)"
  by (induction xs) auto

lemma GetTask_update [table_simps]:
  "(\<And>t. t_id (f t) = t_id t) \<Longrightarrow>
   GetTask (update_task db i f) k = map_option (\<lambda>t. if k = i then f t else t) (GetTask db k)"
  by (simp add: GetTask_def update_task_def find_map_if)

lemma update_task_fields [simp]:
  "sessions (update_task db i f) = sessions db" "t_msgs (update_task db i f) = t_msgs db"
  by (simp_all add: update_task_def)

lemma GetTask_cong: "tasks db = tasks db' \<Longrightarrow> GetTask db = GetTask db'"
  by (simp add: GetTask_def fun_eq_iff)

lemma update_ids:
  "(\<And>t. t_id (f t) = t_id t) \<Longrightarrow> map t_id (tasks (update_task db i f)) = map t_id (tasks db)"
  by (simp add: update_task_def)

lemma in_update:
  "t \<in> set (tasks (update_task db i f)) \<Longrightarrow>
   \<exists>u \<in> set (tasks db). t = (if t_id u = i then f u else u)"
  by (auto simp: update_task_def)

text \<open>A change that leaves what identifies a task alone.\<close>

definition keeps_identity :: "(bg_task \<Rightarrow> bg_task) \<Rightarrow> bool" where
  "keeps_identity f \<longleftrightarrow> (\<forall>t. t_id (f t) = t_id t \<and> t_session (f t) = t_session t \<and> t_participant (f t) = t_participant t)"

lemma tasks_ok_update:
  assumes "tasks_ok db" and f: "keeps_identity f"
  shows "tasks_ok (update_task db i f)"
proof -
  have "\<exists>s \<in> set (sessions db). s_id s = t_session t" if t: "t \<in> set (tasks (update_task db i f))" for t
    using in_update [OF t] f assms(1) by (auto simp: keeps_identity_def tasks_ok_def split: if_splits)
  with assms(1) update_ids [of f db i] f show ?thesis by (auto simp: tasks_ok_def keeps_identity_def)
qed

lemma tasks_ok_filter: "tasks_ok db \<Longrightarrow> tasks_ok (db\<lparr>tasks := filter P (tasks db)\<rparr>)"
  by (auto simp: tasks_ok_def distinct_map_filter)

lemma GetSession_Some: "GetSession db sid = Some s \<Longrightarrow> s \<in> set (sessions db) \<and> s_id s = sid"
  by (auto simp: GetSession_def find_Some_iff)

lemma tasks_ok_register:
  assumes "tasks_ok db" and "RegisterTask db t mx now = Inr db'"
  shows "tasks_ok db'"
proof (cases "GetTask db (t_id t)")
  case None
  with assms(2) obtain s where "GetSession db (t_session t) = Some s"
    and "db' = db\<lparr>tasks := tasks db @ [registered t now]\<rparr>"
    by (auto simp: RegisterTask_def split: if_splits)
  with assms(1) None show ?thesis
    by (auto simp: tasks_ok_def GetTask_None registered_def dest: GetSession_Some)
qed (use assms in \<open>auto simp: RegisterTask_def split: if_splits\<close>)

lemma tasks_set: "tasks (db\<lparr>tasks := ts\<rparr>) = ts"
  by simp

lemma length_filter_map_le:
  "(\<And>x. x \<in> set xs \<Longrightarrow> Q (g x) \<Longrightarrow> Q x) \<Longrightarrow> length (filter Q (map g xs)) \<le> length (filter Q xs)"
  by (induction xs) (auto intro: le_SucI)

lemma running_count_update:
  assumes "keeps_identity f" and "\<And>t. running (f t) \<Longrightarrow> running t"
  shows "running_count (update_task db i f) sid p \<le> running_count db sid p"
  unfolding running_count_def update_task_def tasks_set
proof (rule length_filter_map_le)
  fix x assume "t_session (if t_id x = i then f x else x) = sid \<and> t_participant (if t_id x = i then f x else x) = p
      \<and> running (if t_id x = i then f x else x)"
  with assms show "t_session x = sid \<and> t_participant x = p \<and> running x"
    by (cases "t_id x = i") (simp_all add: keeps_identity_def)
qed

lemma running_count_cong: "tasks db = tasks db' \<Longrightarrow> running_count db = running_count db'"
  by (simp add: running_count_def fun_eq_iff)

lemma length_filter_filter_le: "length (filter Q (filter P xs)) \<le> length (filter Q xs)"
  by (induction xs) (auto intro: le_SucI)

lemma running_count_filter: "running_count (db\<lparr>tasks := filter P (tasks db)\<rparr>) sid p \<le> running_count db sid p"
  unfolding running_count_def tasks_set by (rule length_filter_filter_le)

subsection \<open>What the end of a task changes\<close>

definition end_message_id :: "tdb \<Rightarrow> bg_task \<Rightarrow> int" where
  "end_message_id db t =
     (case find_row (t_msgs db) (t_session t, TaskResultKey (t_id t)) of Some r \<Rightarrow> r_id r | None \<Rightarrow> next_id (t_msgs db))"

definition end_row :: "bg_state \<Rightarrow> string \<Rightarrow> time \<Rightarrow> int \<Rightarrow> string \<Rightarrow> bg_task \<Rightarrow> bg_task" where
  "end_row st who now mid c x = (if running x then
     x\<lparr>t_state := st, t_ended := Some now, t_ended_by := who, t_result := mid, t_cancelled_by := c\<rparr> else x)"

lemma keeps_identity_end_row: "keeps_identity (end_row st who now mid c)"
  by (simp add: keeps_identity_def end_row_def)

lemma EndTask_over: "GetTask db i = Some t \<Longrightarrow> \<not> running t \<Longrightarrow>
  EndTask db i who st build now =
    (db, \<lparr>e_task = Some t, e_message = t_result t, e_mine = (t_ended_by t = who), e_gone = False\<rparr>)"
  by (simp add: EndTask_def)

lemma EndTask_gone: "GetTask db i = None \<Longrightarrow>
  EndTask db i who st build now = (db, \<lparr>e_task = None, e_message = 0, e_mine = False, e_gone = True\<rparr>)"
  by (simp add: EndTask_def)

lemma EndTask_running:
  assumes "GetTask db i = Some t" and "running t"
  shows "EndTask db i who st build now =
    (update_task (db\<lparr>t_msgs := insert_row (t_msgs db) (t_session t) (TaskResultKey i) (build (ended_task t st who now))\<rparr>)
       i (end_row st who now (end_message_id db t) (t_cancelled_by (ended_task t st who now))),
     \<lparr>e_task = Some ((ended_task t st who now)\<lparr>t_result := end_message_id db t\<rparr>), e_message = end_message_id db t,
      e_mine = True, e_gone = False\<rparr>)"
proof -
  have i: "t_id t = i" using GetTask_Some [OF assms(1)] by simp
  have e: "(\<lambda>x. if running x then x\<lparr>t_state := st, t_ended := Some now, t_ended_by := who, t_result := mid,
      t_cancelled_by := c\<rparr> else x) = end_row st who now mid c" for mid c
    by (simp add: end_row_def fun_eq_iff)
  have session: "t_session (ended_task t st who now) = t_session t" by (simp add: ended_task_def)
  show ?thesis using assms
    by (simp add: EndTask_def AppendMessage_def Let_def e session end_message_id_def i)
qed

lemma end_row_ended: "running t \<Longrightarrow>
  end_row st who now mid (t_cancelled_by (ended_task t st who now)) t = (ended_task t st who now)\<lparr>t_result := mid\<rparr>"
  by (simp add: end_row_def ended_task_def)

lemma GetTask_EndTask_running:
  assumes "GetTask db i = Some t" and "running t"
  shows "GetTask (fst (EndTask db i who st build now)) i
     = Some ((ended_task t st who now)\<lparr>t_result := end_message_id db t\<rparr>)"
proof -
  have ids: "t_id (end_row st who now m c x) = t_id x" for m c x using keeps_identity_end_row by (auto simp: keeps_identity_def)
  have "GetTask (db\<lparr>t_msgs := M\<rparr>) = GetTask db" for M by (rule GetTask_cong) simp
  with assms show ?thesis by (simp add: EndTask_running GetTask_update [OF ids] end_row_ended)
qed

lemma tasks_ok_msgs: "tasks_ok db \<Longrightarrow> table_ok T \<Longrightarrow> tasks_ok (db\<lparr>t_msgs := T\<rparr>)"
  by (simp add: tasks_ok_def)

lemma tasks_ok_EndTask: "tasks_ok db \<Longrightarrow> tasks_ok (fst (EndTask db i who st build now))"
proof (cases "GetTask db i")
  case (Some t)
  assume ok: "tasks_ok db"
  show ?thesis
  proof (cases "running t")
    case True
    have "table_ok (t_msgs db)" using ok by (simp add: tasks_ok_def)
    then show ?thesis unfolding EndTask_running [OF Some True] fst_conv
      by (intro tasks_ok_update tasks_ok_msgs ok keeps_identity_end_row table_ok_insert)
  qed (simp add: EndTask_over [OF Some] ok)
qed (simp add: EndTask_gone)

subsection \<open>The table as a machine\<close>

text \<open>
  What the code does to the tasks: \<open>TEnd\<close> is a call of \<open>EndTask\<close> with the message both its callers build
  (\<open>TaskResultMessage\<close>), \<open>TMessage\<close> any other write of messages.
\<close>

datatype task_write =
    TRegister bg_task time
  | TFollowUp string string string follow_up
  | TStop string string
  | TCancelSent string time
  | TWoken string time
  | TEnd string string bg_state string "task_file option" time
  | TMessage msg_write

datatype task_op = TWrite task_write | TDrop string | TDelete string

fun tdb_write :: "tdb \<Rightarrow> task_write \<Rightarrow> tdb" where
  "tdb_write db (TRegister t now) = fst (RegisterTaskActivity db t now)"
| "tdb_write db (TFollowUp sid p i f) = (case AddTaskFollowUp db sid p i f maxFollowUps of Inr db' \<Rightarrow> db' | Inl _ \<Rightarrow> db)"
| "tdb_write db (TStop i name) = (case SetTaskCancelledBy db i name of Inr db' \<Rightarrow> db' | Inl _ \<Rightarrow> db)"
| "tdb_write db (TCancelSent i now) = SetTaskCancelSent db i now"
| "tdb_write db (TWoken i now) = SetTaskWoken db i now"
| "tdb_write db (TEnd i who st content file now) =
     fst (EndTask db i who st (\<lambda>t. TaskResultMessage t content file) now)"
| "tdb_write db (TMessage w) = db\<lparr>t_msgs := write_step (t_msgs db) w\<rparr>"

fun tdb_step :: "tdb \<Rightarrow> task_op \<Rightarrow> tdb" where
  "tdb_step db (TWrite w) = tdb_write db w"
| "tdb_step db (TDrop i) = DropTask db i"
| "tdb_step db (TDelete sid) = DeleteSession db sid"

lemma RegisterTaskActivity_cases:
  "fst (RegisterTaskActivity db t now) = db
   \<or> RegisterTask db t MaxRunningTasks now = Inr (fst (RegisterTaskActivity db t now))"
  by (auto simp: RegisterTaskActivity_def split: sum.splits task_error.splits)

definition follow :: "follow_up \<Rightarrow> bg_task \<Rightarrow> bg_task" where
  "follow f t = t\<lparr>t_follow_ups := t_follow_ups t @ [fu_valid f]\<rparr>"

definition stopped_by :: "string \<Rightarrow> bg_task \<Rightarrow> bg_task" where
  "stopped_by name t = t\<lparr>t_cancelled_by := name\<rparr>"

definition cancel_sent :: "time \<Rightarrow> bg_task \<Rightarrow> bg_task" where
  "cancel_sent now t = (if t_cancel_sent t = None then t\<lparr>t_cancel_sent := Some now\<rparr> else t)"

definition woken_at :: "time \<Rightarrow> bg_task \<Rightarrow> bg_task" where
  "woken_at now t = (if t_woken t = None then t\<lparr>t_woken := Some now\<rparr> else t)"

lemmas row_change_defs = follow_def stopped_by_def cancel_sent_def woken_at_def

lemma running_change [simp]:
  "running (follow u t) = running t" "running (stopped_by n t) = running t"
  "running (cancel_sent now t) = running t" "running (woken_at now t) = running t"
  by (simp_all add: row_change_defs)

text \<open>The changes of a running task, and the marks.\<close>

definition live_change :: "(bg_task \<Rightarrow> bg_task) \<Rightarrow> bool" where
  "live_change f \<longleftrightarrow> (\<exists>u. f = follow u) \<or> (\<exists>n. f = stopped_by n)"

definition mark_change :: "(bg_task \<Rightarrow> bg_task) \<Rightarrow> bool" where
  "mark_change f \<longleftrightarrow> (\<exists>n. f = cancel_sent n) \<or> (\<exists>n. f = woken_at n)"

lemma live_change_laws: "live_change f \<Longrightarrow> keeps_identity f" "live_change f \<Longrightarrow> running (f t) = running t"
  unfolding live_change_def by (elim disjE exE; simp add: keeps_identity_def row_change_defs)+

lemma mark_change_laws:
  "mark_change f \<Longrightarrow> keeps_identity f" "mark_change f \<Longrightarrow> running (f t) = running t"
  "mark_change f \<Longrightarrow> (f t)\<lparr>t_woken := None, t_cancel_sent := None\<rparr> = t\<lparr>t_woken := None, t_cancel_sent := None\<rparr>"
  unfolding mark_change_def by (elim disjE exE; simp add: keeps_identity_def row_change_defs)+

text \<open>Every write is one of four: nothing, a row added, a row changed in place, a task ended or a message written.\<close>

lemma tdb_write_cases:
  obtains (none) "tdb_write db w = db"
  | (new) t now where "w = TRegister t now" "GetTask db (t_id t) = None"
      "running_count db (t_session t) (t_participant t) < MaxRunningTasks" "GetSession db (t_session t) \<noteq> None"
      "tdb_write db w = db\<lparr>tasks := tasks db @ [registered t now]\<rparr>"
  | (live) i t f where "GetTask db i = Some t" "running t" "tdb_write db w = update_task db i f"
      "live_change f"
  | (mark) i f where "tdb_write db w = update_task db i f" "mark_change f"
      "(\<exists>now. w = TCancelSent i now \<and> f = cancel_sent now) \<or> (\<exists>now. w = TWoken i now \<and> f = woken_at now)"
  | (over) i who st content fl now t where "w = TEnd i who st content fl now" "GetTask db i = Some t" "running t"
  | (message) m where "w = TMessage m"
proof (cases w)
  case (TRegister t now)
  show ?thesis
  proof (cases "tdb_write db w = db")
    case False
    with TRegister RegisterTaskActivity_cases [of db t now]
    have "RegisterTask db t MaxRunningTasks now = Inr (tdb_write db w)" by simp
    with False TRegister show ?thesis
      by (intro new [of t now]) (auto simp: RegisterTask_def split: if_splits)
  qed (rule none)
next
  case (TFollowUp sid p i f)
  show ?thesis
  proof (cases "tdb_write db w = db")
    case False
    with TFollowUp obtain t where "GetTask db i = Some t" "running t" "tdb_write db w = update_task db i (follow f)"
      by (auto simp: AddTaskFollowUp_def follow_def [abs_def] split: option.splits if_splits)
    then show ?thesis by (intro live [of i t "follow f"]) (auto simp: live_change_def)
  qed (rule none)
next
  case (TStop i name)
  show ?thesis
  proof (cases "tdb_write db w = db")
    case False
    with TStop obtain t where "GetTask db i = Some t" "running t" "tdb_write db w = update_task db i (stopped_by name)"
      by (auto simp: SetTaskCancelledBy_def stopped_by_def [abs_def] split: option.splits if_splits)
    then show ?thesis by (intro live [of i t "stopped_by name"]) (auto simp: live_change_def)
  qed (rule none)
next
  case (TCancelSent i now)
  then have "tdb_write db w = update_task db i (cancel_sent now)"
    by (simp add: SetTaskCancelSent_def cancel_sent_def [abs_def])
  then show ?thesis by (rule mark) (use TCancelSent in \<open>auto simp: mark_change_def\<close>)
next
  case (TWoken i now)
  then have "tdb_write db w = update_task db i (woken_at now)" by (simp add: SetTaskWoken_def woken_at_def [abs_def])
  then show ?thesis by (rule mark) (use TWoken in \<open>auto simp: mark_change_def\<close>)
next
  case (TEnd i who st content fl now)
  show ?thesis
  proof (cases "GetTask db i")
    case None
    with TEnd show ?thesis by (intro none) (simp add: EndTask_gone)
  next
    case (Some t)
    show ?thesis
    proof (cases "running t")
      case True
      from over [OF TEnd Some this] show ?thesis .
    next
      case False
      with TEnd Some show ?thesis by (intro none) (simp add: EndTask_over)
    qed
  qed
next
  case (TMessage m)
  then show ?thesis by (rule message)
qed

lemma tasks_ok_write: "tasks_ok db \<Longrightarrow> tasks_ok (tdb_write db w)"
proof (cases rule: tdb_write_cases [of db w])
  case (new t now)
  assume ok: "tasks_ok db"
  from new have "RegisterTask db t MaxRunningTasks now = Inr (tdb_write db w)" by (simp add: RegisterTask_def)
  from tasks_ok_register [OF ok this] show ?thesis .
next
  case (live i t f)
  assume ok: "tasks_ok db"
  show ?thesis unfolding live(3) by (rule tasks_ok_update [OF ok live_change_laws(1) [OF live(4)]])
next
  case (mark i f)
  assume ok: "tasks_ok db"
  show ?thesis unfolding mark(1) by (rule tasks_ok_update [OF ok mark_change_laws(1) [OF mark(2)]])
next
  case (over i who st content fl now t)
  assume "tasks_ok db"
  with over show ?thesis by (simp add: tasks_ok_EndTask)
next
  case (message m)
  assume "tasks_ok db"
  with message show ?thesis by (auto simp: tasks_ok_def intro: write_step_ok)
qed simp

lemma tasks_ok_delete:
  assumes "tasks_ok db"
  shows "tasks_ok (DeleteSession db sid)"
proof -
  have "\<exists>s \<in> set (sessions (DeleteSession db sid)). s_id s = t_session t"
    if "t \<in> set (tasks db)" "t_session t \<noteq> sid" for t
    using assms that unfolding tasks_ok_def DeleteSession_def by fastforce
  then show ?thesis using assms
    by (simp add: tasks_ok_def DeleteSession_def DeleteMessagesBySession_def distinct_map_filter table_ok_filter)
qed

lemma tasks_ok_step: "tasks_ok db \<Longrightarrow> tasks_ok (tdb_step db op)"
  by (cases op) (auto simp: DropTask_def intro: tasks_ok_write tasks_ok_delete tasks_ok_filter)

subsection \<open>The cap\<close>

lemma end_row_running: "running (end_row st who now m c t) \<Longrightarrow> running t"
  by (auto simp: end_row_def split: if_splits)

lemma running_count_EndTask: "running_count (fst (EndTask db i who st build now)) sid p \<le> running_count db sid p"
proof (cases "GetTask db i")
  case (Some t)
  show ?thesis
  proof (cases "running t")
    case True
    have "running_count (update_task (db\<lparr>t_msgs := M\<rparr>) i (end_row st who now m c)) sid p
      \<le> running_count (db\<lparr>t_msgs := M\<rparr>) sid p" for M m c
      by (rule running_count_update [OF keeps_identity_end_row]) (rule end_row_running)
    moreover have "running_count (db\<lparr>t_msgs := M\<rparr>) = running_count db" for M by (rule running_count_cong) simp
    ultimately show ?thesis by (simp add: EndTask_running [OF Some True])
  qed (simp add: EndTask_over [OF Some])
qed (simp add: EndTask_gone)

lemma cap_ok_le: "cap_ok db \<Longrightarrow> (\<And>sid p. running_count db' sid p \<le> running_count db sid p) \<Longrightarrow> cap_ok db'"
  by (meson cap_ok_def order_trans)

lemma cap_ok_write:
  assumes ok: "cap_ok db"
  shows "cap_ok (tdb_write db w)"
proof (cases rule: tdb_write_cases [of db w])
  case (new t now)
  have "running_count (tdb_write db w) sid p =
      (if sid = t_session t \<and> p = t_participant t then Suc (running_count db sid p) else running_count db sid p)" for sid p
    using new by (auto simp: running_count_def registered_def)
  with new ok show ?thesis by (auto simp: cap_ok_def)
next
  case (live i t f)
  note f = live_change_laws [OF live(4)]
  show ?thesis unfolding live(3)
    by (intro cap_ok_le [OF ok] running_count_update f(1)) (simp add: f(2))
next
  case (mark i f)
  note f = mark_change_laws [OF mark(2)]
  show ?thesis unfolding mark(1)
    by (intro cap_ok_le [OF ok] running_count_update f(1)) (simp add: f(2))
next
  case (over i who st content fl now t)
  then show ?thesis by (intro cap_ok_le [OF ok]) (simp add: running_count_EndTask)
next
  case (message m)
  then show ?thesis by (intro cap_ok_le [OF ok]) (simp add: running_count_def)
qed (simp add: ok)

lemma cap_ok_step: "cap_ok db \<Longrightarrow> cap_ok (tdb_step db op)"
proof (cases op)
  case (TDrop i)
  assume ok: "cap_ok db"
  show ?thesis unfolding TDrop tdb_step.simps DropTask_def
    by (rule cap_ok_le [OF ok running_count_filter])
next
  case (TDelete sid)
  assume ok: "cap_ok db"
  show ?thesis unfolding TDelete tdb_step.simps
    by (rule cap_ok_le [OF ok]) (simp add: DeleteSession_def running_count_def length_filter_filter_le del: filter_filter)
qed (simp add: cap_ok_write)

interpretation task_ops: machine tdb_step "\<lambda>db. tasks_ok db \<and> cap_ok db"
  by unfold_locales (auto intro: tasks_ok_step cap_ok_step)

subsection \<open>A task ends once\<close>

text \<open>How a task ended: its row, less the two marks the sweep and the stop set, and its message.\<close>

definition ending_of :: "tdb \<Rightarrow> string \<Rightarrow> (bg_task \<times> msg_row) option" where
  "ending_of db i = (case GetTask db i of None \<Rightarrow> None
   | Some t \<Rightarrow> if running t then None
       else map_option (\<lambda>r. (t\<lparr>t_woken := None, t_cancel_sent := None\<rparr>, r))
              (find_row (t_msgs db) (t_session t, TaskResultKey i)))"

lemma ending_of_Some:
  "ending_of db i = Some (e, r) \<longleftrightarrow>
     (\<exists>t. GetTask db i = Some t \<and> \<not> running t \<and> e = t\<lparr>t_woken := None, t_cancel_sent := None\<rparr>
        \<and> find_row (t_msgs db) (t_session t, TaskResultKey i) = Some r)"
  by (auto simp: ending_of_def split: option.splits if_splits)

lemma ending_of_keep:
  assumes e: "ending_of db i = Some (e, r)"
    and t: "\<And>t. GetTask db i = Some t \<Longrightarrow> \<not> running t \<Longrightarrow> \<exists>t'. GetTask db' i = Some t'
      \<and> t'\<lparr>t_woken := None, t_cancel_sent := None\<rparr> = t\<lparr>t_woken := None, t_cancel_sent := None\<rparr>"
    and m: "\<And>k r. find_row (t_msgs db) k = Some r \<Longrightarrow> find_row (t_msgs db') k = Some r"
  shows "ending_of db' i = Some (e, r)"
proof -
  from e obtain t where t0: "GetTask db i = Some t" "\<not> running t" "e = t\<lparr>t_woken := None, t_cancel_sent := None\<rparr>"
    and r: "find_row (t_msgs db) (t_session t, TaskResultKey i) = Some r" by (auto simp: ending_of_Some)
  from t [OF t0(1,2)] obtain t' where t': "GetTask db' i = Some t'"
    and eq: "t'\<lparr>t_woken := None, t_cancel_sent := None\<rparr> = t\<lparr>t_woken := None, t_cancel_sent := None\<rparr>" by blast
  have "t_session t' = t_session t"
    using arg_cong [where f = t_session, OF eq] by simp
  moreover have "t_state t' = t_state t"
    using arg_cong [where f = t_state, OF eq] by simp
  ultimately show ?thesis using t' t0 eq m [OF r] by (auto simp: ending_of_Some)
qed

lemma GetTask_msgs [simp]: "GetTask (db\<lparr>t_msgs := M\<rparr>) = GetTask db"
  by (rule GetTask_cong) simp

lemma ending_of_write:
  assumes e: "ending_of db i = Some (e, r)"
  shows "ending_of (tdb_write db w) i = Some (e, r)"
proof (cases rule: tdb_write_cases [of db w])
  case (new t now)
  then show ?thesis by (intro ending_of_keep [OF e]) (auto simp: GetTask_def find_append)
next
  case (live j t f)
  note f = live_change_laws [OF live(4)]
  then have g: "GetTask (tdb_write db w) i = map_option (\<lambda>t. if i = j then f t else t) (GetTask db i)"
    unfolding live(3) by (intro GetTask_update) (simp add: keeps_identity_def)
  show ?thesis using live(1-3) g by (intro ending_of_keep [OF e]) auto
next
  case (mark j f)
  note f = mark_change_laws [OF mark(2)]
  then have g: "GetTask (tdb_write db w) i = map_option (\<lambda>t. if i = j then f t else t) (GetTask db i)"
    unfolding mark(1) by (intro GetTask_update) (simp add: keeps_identity_def)
  show ?thesis using mark(1) g f(3) by (intro ending_of_keep [OF e]) auto
next
  case (over j who st content fl now t)
  have ids: "t_id (end_row st who now m c x) = t_id x" for m c x using keeps_identity_end_row by (auto simp: keeps_identity_def)
  show ?thesis using over
    by (intro ending_of_keep [OF e])
      (auto simp: EndTask_running GetTask_update [OF ids] find_row_insert end_row_def)
next
  case (message m)
  then show ?thesis by (intro ending_of_keep [OF e]) (auto intro: write_step_keeps)
qed (simp add: e)

interpretation task_ends: first_writer tdb_write tasks_ok ending_of
  by unfold_locales (auto intro: tasks_ok_write ending_of_write)

subsection \<open>An ended task is told, a running one is not\<close>

text \<open>
  What the callers respect: a task is ended in a final state, and no other writer uses the key of a task's
  end (a turn's keys start with m, see \<open>TurnKey\<close>).
\<close>

fun writes_no_end :: "msg_write \<Rightarrow> bool" where
  "writes_no_end (WMessage sid key m) = (\<not> is_end_key key)"
| "writes_no_end (WMessages sid turnKey i ms) = has_prefix ''m'' turnKey"
| "writes_no_end (WTurnEnd sid turnKey m) = has_prefix ''m'' turnKey"

fun task_write_ok :: "task_write \<Rightarrow> bool" where
  "task_write_ok (TEnd i who st content fl now) = (st \<noteq> BackgroundRunning)"
| "task_write_ok (TMessage w) = writes_no_end w"
| "task_write_ok _ = True"

fun task_op_ok :: "task_op \<Rightarrow> bool" where
  "task_op_ok (TWrite w) = task_write_ok w"
| "task_op_ok _ = True"

lemma turn_key_not_end: "has_prefix ''m'' t \<Longrightarrow> \<not> is_end_key (t @ x)"
  by (auto simp: is_end_key_def has_prefix_iff)

lemma insert_row_rows: "r \<in> set (rows (insert_row T sid key m)) \<Longrightarrow> r \<in> set (rows T) \<or> (r_session r = sid \<and> r_key r = key)"
  by (auto simp: insert_row_def split: option.splits)

lemma append_messages_rows:
  "has_prefix ''m'' t \<Longrightarrow> r \<in> set (rows (AppendMessages T sid t i ms)) \<Longrightarrow> is_end_key (r_key r) \<Longrightarrow> r \<in> set (rows T)"
proof (induction T sid t i ms rule: AppendMessages.induct)
  case (2 T sid t i m ms)
  then have "r \<in> set (rows (insert_row T sid (TurnMessageKey t i) m))" by simp
  then show ?case
    using insert_row_rows turn_key_not_end [OF "2.prems"(1)] "2.prems"(3) by (fastforce simp: TurnMessageKey_def)
qed simp

lemma write_step_no_end:
  "writes_no_end w \<Longrightarrow> r \<in> set (rows (write_step T w)) \<Longrightarrow> is_end_key (r_key r) \<Longrightarrow> r \<in> set (rows T)"
proof (cases w)
  case (WTurnEnd sid t m)
  assume "writes_no_end w" "r \<in> set (rows (write_step T w))" "is_end_key (r_key r)"
  then show ?thesis using WTurnEnd insert_row_rows [of r T sid "TurnEndKey t" m] turn_key_not_end [of t]
    by (auto simp: AppendTurnEnd_def AppendMessage_def TurnEndKey_def)
qed (auto simp: AppendMessage_def append_messages_rows dest: insert_row_rows)

lemma TaskResultKey_end [simp]: "is_end_key (TaskResultKey i)"
  by (simp add: is_end_key_def TaskResultKey_def has_prefix_iff)

lemma TaskResultKey_inject [simp]: "TaskResultKey i = TaskResultKey j \<longleftrightarrow> i = j"
  by (simp add: TaskResultKey_def)

lemma is_told_mono:
  "is_told T t \<Longrightarrow> (\<And>k r. find_row T k = Some r \<Longrightarrow> find_row T' k = Some r) \<Longrightarrow> is_told T' t"
  unfolding is_told_def by blast

lemma is_told_marks:
  "t'\<lparr>t_woken := None, t_cancel_sent := None\<rparr> = t\<lparr>t_woken := None, t_cancel_sent := None\<rparr> \<Longrightarrow>
   is_told T t' = is_told T t"
  by (cases t; cases t') (simp add: is_told_def TaskResultMessage_def Ref_def)

lemma told_ok_D:
  assumes "told_ok db"
  shows "t \<in> set (tasks db) \<Longrightarrow> \<not> running t \<Longrightarrow> is_told (t_msgs db) t"
    and "r \<in> set (rows (t_msgs db)) \<Longrightarrow> is_end_key (r_key r) \<Longrightarrow>
      \<exists>t \<in> set (tasks db). t_session t = r_session r \<and> TaskResultKey (t_id t) = r_key r \<and> \<not> running t"
  using assms by (simp_all add: told_ok_def)

lemma running_not_told:
  assumes "tasks_ok db" and "told_ok db" and "t \<in> set (tasks db)" and "running t"
  shows "find_row (t_msgs db) (t_session t, TaskResultKey (t_id t)) = None"
proof (rule ccontr)
  assume "find_row (t_msgs db) (t_session t, TaskResultKey (t_id t)) \<noteq> None"
  then obtain r where "find_row (t_msgs db) (t_session t, TaskResultKey (t_id t)) = Some r" by auto
  from find_row_Some [OF this] have "r \<in> set (rows (t_msgs db))" "r_key r = TaskResultKey (t_id t)" by auto
  with told_ok_D(2) [OF assms(2), of r] obtain u where "u \<in> set (tasks db)" "t_id u = t_id t" "\<not> running u" by auto
  with task_eq [OF assms(1) _ assms(3)] assms(4) show False by auto
qed

lemma told_ok_update:
  assumes ok: "told_ok db" and f: "keeps_identity f" "\<And>t. running (f t) = running t"
    and told: "\<And>t. t \<in> set (tasks db) \<Longrightarrow> t_id t = i \<Longrightarrow> \<not> running t \<Longrightarrow> is_told (t_msgs db) t \<Longrightarrow> is_told (t_msgs db) (f t)"
  shows "told_ok (update_task db i f)"
proof -
  let ?g = "\<lambda>t. if t_id t = i then f t else t"
  have g: "t_session (?g t) = t_session t" "t_id (?g t) = t_id t" "running (?g t) = running t" for t
    using f by (simp_all add: keeps_identity_def)
  have ts: "set (tasks (update_task db i f)) = ?g ` set (tasks db)" by (simp add: update_task_def)
  show ?thesis unfolding told_ok_def ts update_task_fields ball_simps bex_simps g
  proof (intro conjI ballI impI)
    fix t assume "t \<in> set (tasks db)" "\<not> running t"
    then show "is_told (t_msgs db) (?g t)" using told_ok_D(1) [OF ok] told by simp
  next
    fix r assume "r \<in> set (rows (t_msgs db))" "is_end_key (r_key r)"
    then show "\<exists>t \<in> set (tasks db). t_session t = r_session r \<and> TaskResultKey (t_id t) = r_key r \<and> \<not> running t"
      by (rule told_ok_D(2) [OF ok])
  qed
qed

lemma is_told_end:
  assumes "find_row (t_msgs db) (t_session t, TaskResultKey (t_id t)) = None"
  shows "is_told (insert_row (t_msgs db) (t_session t) (TaskResultKey (t_id t))
      (TaskResultMessage (ended_task t st who now) content fl)) ((ended_task t st who now)\<lparr>t_result := end_message_id db t\<rparr>)"
  using assms
  by (auto simp: is_told_def find_row_insert end_message_id_def ended_task_def TaskResultMessage_def Ref_def)

lemma told_ok_EndTask:
  assumes ok: "tasks_ok db" and told: "told_ok db" and st: "st \<noteq> BackgroundRunning"
    and t: "GetTask db i = Some t" "running t"
  shows "told_ok (fst (EndTask db i who st (\<lambda>t. TaskResultMessage t content fl) now))"
proof -
  let ?M = "insert_row (t_msgs db) (t_session t) (TaskResultKey i) (TaskResultMessage (ended_task t st who now) content fl)"
  let ?e = "(ended_task t st who now)\<lparr>t_result := end_message_id db t\<rparr>"
  let ?g = "\<lambda>u. if t_id u = i then end_row st who now (end_message_id db t) (t_cancelled_by (ended_task t st who now)) u else u"
  from GetTask_Some [OF t(1)] have mem: "t \<in> set (tasks db)" and i: "t_id t = i" by auto
  have e: "t_session ?e = t_session t" "t_id ?e = i" "\<not> running ?e" using st i by (simp_all add: ended_task_def)
  have g: "?g u = (if u = t then ?e else u)" if u: "u \<in> set (tasks db)" for u
  proof (cases "u = t")
    case True
    with i show ?thesis by (simp add: end_row_ended [OF t(2)])
  next
    case False
    with task_eq [OF ok u mem] i have "t_id u \<noteq> i" by metis
    with False show ?thesis by simp
  qed
  have ts: "set (map ?g (tasks db)) = (\<lambda>u. if u = t then ?e else u) ` set (tasks db)"
    unfolding set_map by (rule image_cong [OF refl g])
  have r: "fst (EndTask db i who st (\<lambda>t. TaskResultMessage t content fl) now) = \<lparr>sessions = sessions db,
      tasks = map ?g (tasks db), t_msgs = ?M\<rparr>"
    by (simp add: EndTask_running [OF t] update_task_def)
  show ?thesis unfolding r told_ok_def tdb.select_convs ts ball_simps bex_simps
  proof (intro conjI ballI impI)
    fix u assume u: "u \<in> set (tasks db)" "\<not> running (if u = t then ?e else u)"
    show "is_told ?M (if u = t then ?e else u)"
    proof (cases "u = t")
      case True
      then show ?thesis using is_told_end [OF running_not_told [OF ok told mem t(2)], of st who now content fl] i by simp
    next
      case False
      with u told_ok_D(1) [OF told] have "is_told (t_msgs db) u" by simp
      then have "is_told ?M u" by (rule is_told_mono) (simp add: find_row_insert)
      with False show ?thesis by simp
    qed
  next
    fix r assume r: "r \<in> set (rows ?M)" "is_end_key (r_key r)"
    show "\<exists>u \<in> set (tasks db). t_session (if u = t then ?e else u) = r_session r
        \<and> TaskResultKey (t_id (if u = t then ?e else u)) = r_key r \<and> \<not> running (if u = t then ?e else u)"
      using insert_row_rows [OF r(1)]
    proof
      assume "r \<in> set (rows (t_msgs db))"
      from told_ok_D(2) [OF told this r(2)] obtain u where "u \<in> set (tasks db)" "t_session u = r_session r"
        "TaskResultKey (t_id u) = r_key r" "\<not> running u" by blast
      with t(2) show ?thesis by (intro bexI [of _ u]) auto
    next
      assume "r_session r = t_session t \<and> r_key r = TaskResultKey i"
      with mem e show ?thesis by (intro bexI [of _ t]) simp_all
    qed
  qed
qed

lemma told_ok_write:
  assumes ok: "tasks_ok db" and told: "told_ok db" and w: "task_write_ok w"
  shows "told_ok (tdb_write db w)"
proof (cases rule: tdb_write_cases [of db w])
  case (new t now)
  show ?thesis unfolding new(5) told_ok_def
  proof (intro conjI ballI impI)
    fix u assume "u \<in> set (tasks (db\<lparr>tasks := tasks db @ [registered t now]\<rparr>))" "\<not> running u"
    then have "u \<in> set (tasks db)" by (auto simp: registered_def)
    with \<open>\<not> running u\<close> show "is_told (t_msgs (db\<lparr>tasks := tasks db @ [registered t now]\<rparr>)) u"
      using told_ok_D(1) [OF told] by simp
  next
    fix r assume "r \<in> set (rows (t_msgs (db\<lparr>tasks := tasks db @ [registered t now]\<rparr>)))" "is_end_key (r_key r)"
    with told_ok_D(2) [OF told, of r] show "\<exists>u \<in> set (tasks (db\<lparr>tasks := tasks db @ [registered t now]\<rparr>)).
        t_session u = r_session r \<and> TaskResultKey (t_id u) = r_key r \<and> \<not> running u" by auto
  qed
next
  case (live i t f)
  note f = live_change_laws [OF live(4)]
  show ?thesis unfolding live(3)
  proof (rule told_ok_update [OF told f])
    fix u assume "u \<in> set (tasks db)" "t_id u = i" "\<not> running u"
    with GetTask_unique [OF ok, of u] live(1,2) show "is_told (t_msgs db) (f u)" by simp
  qed
next
  case (mark i f)
  note f = mark_change_laws [OF mark(2)]
  show ?thesis unfolding mark(1)
    by (rule told_ok_update [OF told f(1,2)]) (simp only: is_told_marks [OF f(3)])
next
  case (over i who st content fl now t)
  with w show ?thesis by (simp add: told_ok_EndTask [OF ok told])
next
  case (message m)
  with w have m: "writes_no_end m" by simp
  show ?thesis unfolding message tdb_write.simps told_ok_def
  proof (intro conjI ballI impI)
    fix u assume "u \<in> set (tasks (db\<lparr>t_msgs := write_step (t_msgs db) m\<rparr>))" "\<not> running u"
    then show "is_told (t_msgs (db\<lparr>t_msgs := write_step (t_msgs db) m\<rparr>)) u"
      using told_ok_D(1) [OF told, of u] by (simp add: is_told_mono [OF _ write_step_keeps])
  next
    fix r assume "r \<in> set (rows (t_msgs (db\<lparr>t_msgs := write_step (t_msgs db) m\<rparr>)))" "is_end_key (r_key r)"
    with write_step_no_end [OF m, of r "t_msgs db"] told_ok_D(2) [OF told, of r]
    show "\<exists>u \<in> set (tasks (db\<lparr>t_msgs := write_step (t_msgs db) m\<rparr>)).
        t_session u = r_session r \<and> TaskResultKey (t_id u) = r_key r \<and> \<not> running u" by simp
  qed
qed (simp add: told)

lemma find_row_delete_session:
  "k \<noteq> sid \<Longrightarrow> find_row (DeleteMessagesBySession T sid) (k, key) = find_row T (k, key)"
proof -
  assume k: "k \<noteq> sid"
  have "find (\<lambda>r. r_session r = k \<and> r_key r = key) (filter (\<lambda>r. r_session r \<noteq> sid) rs)
    = find (\<lambda>r. r_session r = k \<and> r_key r = key) rs" for rs :: "msg_row list"
    using k by (induction rs) auto
  then show ?thesis by (simp add: find_row_def DeleteMessagesBySession_def)
qed

lemma told_ok_filter:
  assumes told: "told_ok db"
    and ts: "set (tasks db') \<subseteq> set (tasks db)" "\<And>t. t \<in> set (tasks db) \<Longrightarrow> \<not> running t \<Longrightarrow> t_session t \<notin> S \<Longrightarrow> t \<in> set (tasks db')"
    and keep: "\<And>t key. t \<in> set (tasks db') \<Longrightarrow> find_row (t_msgs db') (t_session t, key) = find_row (t_msgs db) (t_session t, key)"
    and rs: "\<And>r. r \<in> set (rows (t_msgs db')) \<Longrightarrow> r \<in> set (rows (t_msgs db)) \<and> r_session r \<notin> S"
  shows "told_ok db'"
  unfolding told_ok_def
proof (intro conjI ballI impI)
  fix t assume t: "t \<in> set (tasks db')" "\<not> running t"
  with ts(1) told_ok_D(1) [OF told, of t] have "is_told (t_msgs db) t" by auto
  with keep [OF t(1)] show "is_told (t_msgs db') t" by (simp add: is_told_def)
next
  fix r assume r: "r \<in> set (rows (t_msgs db'))" "is_end_key (r_key r)"
  with rs told_ok_D(2) [OF told, of r] obtain t where "t \<in> set (tasks db)" "t_session t = r_session r"
    "TaskResultKey (t_id t) = r_key r" "\<not> running t" by blast
  with ts(2) [of t] rs [OF r(1)] show "\<exists>t \<in> set (tasks db'). t_session t = r_session r \<and> TaskResultKey (t_id t) = r_key r \<and> \<not> running t"
    by auto
qed

lemma told_ok_step: "tasks_ok db \<Longrightarrow> told_ok db \<Longrightarrow> task_op_ok op \<Longrightarrow> told_ok (tdb_step db op)"
proof (cases op)
  case (TDrop i)
  assume "told_ok db"
  then show ?thesis by (rule told_ok_filter [where S = "{}"]) (auto simp: TDrop DropTask_def)
next
  case (TDelete sid)
  assume "told_ok db"
  then show ?thesis
    by (rule told_ok_filter [where S = "{sid}"])
      (auto simp: TDelete DeleteSession_def find_row_delete_session, auto simp: DeleteMessagesBySession_def)
qed (simp add: told_ok_write)

interpretation told: guarded tdb_step "\<lambda>db. tasks_ok db \<and> told_ok db" task_op_ok
  by unfold_locales (auto intro: tasks_ok_step told_ok_step)

lemma run_writes: "foldl tdb_write db ws = foldl tdb_step db (map TWrite ws)"
  by (induction ws arbitrary: db) auto

lemma run_tasks_ok: "tasks_ok db \<Longrightarrow> tasks_ok (foldl tdb_write db ws)"
  by (rule task_ends.run_inv)

lemma run_told_ok:
  "tasks_ok db \<Longrightarrow> told_ok db \<Longrightarrow> list_all task_write_ok ws \<Longrightarrow> told_ok (foldl tdb_write db ws)"
  using told.run_guarded [of "map TWrite ws" db] by (simp add: run_writes list_all_iff)

subsection \<open>Follow-ups\<close>

text \<open>A task's row stays, with the instructions it holds, while nothing deletes it.\<close>

definition extends :: "bg_task \<Rightarrow> bg_task \<Rightarrow> bool" where
  "extends t t' \<longleftrightarrow> t_session t' = t_session t \<and> (\<exists>fs. t_follow_ups t' = t_follow_ups t @ fs)"

lemma extends_refl: "extends t t"
  by (simp add: extends_def)

lemma extends_trans: "extends t t' \<Longrightarrow> extends t' t'' \<Longrightarrow> extends t t''"
  by (auto simp: extends_def)

lemma extends_update:
  assumes "GetTask db i = Some t" and "keeps_identity f" and "\<And>t. extends t (f t)"
  shows "\<exists>t'. GetTask (update_task db j f) i = Some t' \<and> extends t t'"
proof -
  have "GetTask (update_task db j f) i = map_option (\<lambda>t. if i = j then f t else t) (GetTask db i)"
    using assms(2) by (intro GetTask_update) (simp add: keeps_identity_def)
  with assms(1,3) extends_refl show ?thesis by simp
qed

lemma live_extends: "live_change f \<Longrightarrow> extends t (f t)"
  unfolding live_change_def by (elim disjE exE; simp add: extends_def row_change_defs)

lemma mark_extends: "mark_change f \<Longrightarrow> extends t (f t)"
  unfolding mark_change_def by (elim disjE exE; simp add: extends_def row_change_defs)

lemma end_row_extends: "extends t (end_row st who now m c t)"
  by (simp add: extends_def end_row_def)

lemma write_extends:
  assumes t: "GetTask db i = Some t"
  shows "\<exists>t'. GetTask (tdb_write db w) i = Some t' \<and> extends t t'"
proof (cases rule: tdb_write_cases [of db w])
  case none
  with t extends_refl show ?thesis by simp
next
  case (new u now)
  with t extends_refl show ?thesis by (simp add: GetTask_def find_append)
next
  case (live j u f)
  from extends_update [OF t live_change_laws(1) [OF live(4)] live_extends [OF live(4)]] show ?thesis
    unfolding live(3) .
next
  case (mark j f)
  from extends_update [OF t mark_change_laws(1) [OF mark(2)] mark_extends [OF mark(2)]] show ?thesis
    unfolding mark(1) .
next
  case (over j who st content fl now u)
  have "GetTask (db\<lparr>t_msgs := M\<rparr>) i = Some t" for M using t by simp
  from extends_update [OF this keeps_identity_end_row end_row_extends] show ?thesis
    unfolding over(1) tdb_write.simps EndTask_running [OF over(2,3)] fst_conv .
next
  case (message m)
  with t extends_refl show ?thesis by simp
qed

lemma run_extends:
  "GetTask db i = Some t \<Longrightarrow> \<exists>t'. GetTask (foldl tdb_write db ws) i = Some t' \<and> extends t t'"
proof (induction ws arbitrary: db t)
  case (Cons w ws)
  from write_extends [OF Cons.prems, of w] obtain t1 where t1: "GetTask (tdb_write db w) i = Some t1" "extends t t1"
    by blast
  from Cons.IH [OF t1(1)] t1(2) show ?case by (auto intro: extends_trans)
qed (simp add: extends_refl)

lemma told_message:
  assumes "tasks_ok db" and "told_ok db" and "GetTask db i = Some t" and "\<not> running t"
  shows "\<exists>r ref. find_row (t_msgs db) (t_session t, TaskResultKey i) = Some r \<and> r_id r = t_result t
    \<and> m_kind (r_data r) = KindTaskResult \<and> m_task (r_data r) = Some ref \<and> ref_id ref = i
    \<and> ref_state ref = t_state t \<and> ref_follow_ups ref = t_follow_ups t"
proof -
  from GetTask_Some [OF assms(3)] have "t \<in> set (tasks db)" and i: "t_id t = i" by auto
  from told_ok_D(1) [OF assms(2) this(1) assms(4)] obtain r content fl where
    "find_row (t_msgs db) (t_session t, TaskResultKey i) = Some r" "r_id r = t_result t"
    "r_data r = TaskResultMessage t content fl" by (auto simp: is_told_def i)
  with i show ?thesis by (simp add: TaskResultMessage_def Ref_def Let_def)
qed

subsection \<open>Posting a result\<close>

text \<open>What the activity answers for a task \<open>t\<close> it ended, the session read in \<open>db\<close>.\<close>

definition posted :: "tdb \<Rightarrow> bg_task \<Rightarrow> file_ref option \<Rightarrow> post_output" where
  "posted db t file =
     (let out = ended_output t (t_result t) file in
      if t_state t = BackgroundCancelled then out
      else case GetSession db (t_session t) of None \<Rightarrow> out\<lparr>po_wake := False\<rparr>
        | Some sess \<Rightarrow> out\<lparr>po_session_channel := s_channel sess, po_session_channel_id := s_channel_id sess,
                           po_sign := TaskSignsReply sess (t_participant t)\<rparr>)"

definition file_of :: "publisher \<Rightarrow> bg_task \<Rightarrow> bg_state \<Rightarrow> string \<Rightarrow> (string, file_ref option) result" where
  "file_of pub t st content =
     (if MaxTaskMessageBytes < length content \<and> st \<noteq> BackgroundCancelled
      then map_sum id Some (publish pub t content) else Inr None)"

lemma posted_over:
  assumes "GetTask db i = Some t" and "\<not> running t" and "t_ended_by t = TaskEndedByTask" and "file_of pub t st content = Inr fr"
  shows "PostTaskResult id id pub db i st content now = (db, Inr (posted db t fr))"
  using assms by (auto simp: PostTaskResult_def file_of_def EndTask_over posted_def ended_output_def Let_def split: option.splits)

lemma posted_running:
  assumes t: "GetTask db i = Some t" "running t" and fr: "file_of pub t st content = Inr fr"
    and tx: "text = (if MaxTaskMessageBytes < length content \<and> st \<noteq> BackgroundCancelled
                       then clipBytes content MaxTaskMessageBytes else content)"
    and tf: "tf = map_option (\<lambda>f. \<lparr>tf_id = f_id f, tf_name = f_name f, tf_size = f_size f\<rparr>) fr"
    and db1: "db1 = fst (EndTask db i TaskEndedByTask st (\<lambda>t. TaskResultMessage t text tf) now)"
  shows "PostTaskResult id id pub db i st content now =
    (db1, Inr (posted db1 ((ended_task t st TaskEndedByTask now)\<lparr>t_result := end_message_id db t\<rparr>) fr))"
proof -
  let ?e = "(ended_task t st TaskEndedByTask now)\<lparr>t_result := end_message_id db t\<rparr>"
  define e where "e = snd (EndTask db i TaskEndedByTask st (\<lambda>t. TaskResultMessage t text tf) now)"
  have end_: "EndTask db i TaskEndedByTask st (\<lambda>t. TaskResultMessage t text tf) now = (db1, e)" by (simp add: db1 e_def)
  have e: "e_task e = Some ?e" "e_message e = end_message_id db t" "e_mine e" "\<not> e_gone e"
    by (simp_all add: e_def EndTask_running [OF t])
  have m: "ended_output ?e (t_result ?e) fr = ended_output ?e (end_message_id db t) fr" by (simp add: ended_output_def)
  show ?thesis
    using t fr end_ [unfolded tx tf] e m
    by (auto simp: PostTaskResult_def file_of_def posted_def ended_output_def Let_def split: option.splits)
qed

lemma sessions_write [simp]: "sessions (tdb_write db w) = sessions db"
proof (cases rule: tdb_write_cases [of db w])
  case (over i who st content fl now t)
  then show ?thesis by (simp add: EndTask_running)
qed simp_all

lemma sessions_run: "sessions (foldl tdb_write db ws) = sessions db"
  by (induction ws arbitrary: db) simp_all

lemma GetSession_cong: "sessions db = sessions db' \<Longrightarrow> GetSession db = GetSession db'"
  by (simp add: GetSession_def fun_eq_iff)

text \<open>What a mark leaves alone.\<close>

abbreviation same_end :: "bg_task \<Rightarrow> bg_task \<Rightarrow> bool" where
  "same_end t t' \<equiv> t\<lparr>t_woken := None, t_cancel_sent := None\<rparr> = t'\<lparr>t_woken := None, t_cancel_sent := None\<rparr>"

lemma same_end_state: "same_end t t' \<Longrightarrow> t_state t = t_state t' \<and> t_ended_by t = t_ended_by t' \<and> t_result t = t_result t'"
  by (cases t; cases t') simp

lemma same_end_posted: "same_end t t' \<Longrightarrow> posted db t fr = posted db t' fr"
  by (cases t; cases t') (simp add: posted_def ended_output_def Let_def split: option.split)

lemma same_end_file: "same_end t t' \<Longrightarrow> file_of pub t st content = file_of pub t' st content"
  by (cases t; cases t') (simp add: file_of_def publish_def)

lemma posted_cong: "sessions db = sessions db' \<Longrightarrow> posted db t fr = posted db' t fr"
  by (simp add: posted_def Let_def GetSession_cong [of db db'])

lemma ended_stays:
  assumes "tasks_ok db" and "told_ok db" and "GetTask db i = Some t" and "\<not> running t"
  shows "\<exists>t'. GetTask (foldl tdb_write db ws) i = Some t' \<and> same_end t' t"
proof -
  from told_message [OF assms] obtain r where "find_row (t_msgs db) (t_session t, TaskResultKey i) = Some r" by blast
  with assms have "ending_of db i = Some (t\<lparr>t_woken := None, t_cancel_sent := None\<rparr>, r)" by (simp add: ending_of_def)
  from task_ends.run_found [OF assms(1) this] show ?thesis unfolding ending_of_Some by metis
qed

lemma file_of_ended: "file_of pub ((ended_task t st0 who now)\<lparr>t_result := m\<rparr>) st content = file_of pub t st content"
  by (simp add: file_of_def publish_def ended_task_def)

text \<open>An attempt that answered leaves a task the next attempt finds ended, and answers the same for.\<close>

lemma posted_answer:
  assumes ok: "tasks_ok db" "told_ok db" and st: "st \<noteq> BackgroundRunning"
    and post: "PostTaskResult id id pub db i st content now = (db1, Inr out)" and gone: "\<not> po_gone out"
  shows "tasks_ok db1 \<and> told_ok db1 \<and> (\<exists>t. GetTask db1 i = Some t \<and> \<not> running t
     \<and> (if t_ended_by t = TaskEndedByTask then \<exists>fr. file_of pub t st content = Inr fr \<and> out = posted db1 t fr
        else out = no_output))"
proof -
  from post gone obtain t where t: "GetTask db i = Some t"
    by (cases "GetTask db i") (auto simp: PostTaskResult_def)
  consider (sweep) "\<not> running t" "t_ended_by t \<noteq> TaskEndedByTask" | (again) "\<not> running t" "t_ended_by t = TaskEndedByTask"
    | (first) "running t" by blast
  then show ?thesis
  proof cases
    case sweep
    with t post ok show ?thesis by (auto simp: PostTaskResult_def)
  next
    case again
    show ?thesis
    proof (cases "file_of pub t st content")
      case (Inl err)
      with post t again show ?thesis by (auto simp: PostTaskResult_def file_of_def Let_def split: if_splits)
    next
      case (Inr fr)
      from posted_over [OF t again this] post have "db1 = db" "out = posted db t fr" by auto
      with t again Inr ok show ?thesis by auto
    qed
  next
    case first
    show ?thesis
    proof (cases "file_of pub t st content")
      case (Inl err)
      with post t first show ?thesis by (auto simp: PostTaskResult_def file_of_def Let_def split: if_splits)
    next
      case (Inr fr)
      define tx where "tx = (if MaxTaskMessageBytes < length content \<and> st \<noteq> BackgroundCancelled
                       then clipBytes content MaxTaskMessageBytes else content)"
      define tf where "tf = map_option (\<lambda>f. \<lparr>tf_id = f_id f, tf_name = f_name f, tf_size = f_size f\<rparr>) fr"
      let ?e = "(ended_task t st TaskEndedByTask now)\<lparr>t_result := end_message_id db t\<rparr>"
      from posted_running [OF t first Inr tx_def tf_def refl] post
      have db1: "db1 = fst (EndTask db i TaskEndedByTask st (\<lambda>t. TaskResultMessage t tx tf) now)"
        and out: "out = posted db1 ?e fr" by auto
      have "tasks_ok db1" "told_ok db1" unfolding db1
        by (rule tasks_ok_EndTask [OF ok(1)], rule told_ok_EndTask [OF ok st t first])
      moreover have "GetTask db1 i = Some ?e" unfolding db1 by (rule GetTask_EndTask_running [OF t first])
      moreover have "\<not> running ?e" "t_ended_by ?e = TaskEndedByTask" using st by (simp_all add: ended_task_def)
      ultimately show ?thesis using out Inr by (simp add: file_of_ended)
    qed
  qed
qed

lemma clipBytes_le: "length (clipBytes s n) \<le> n"
  using back_up_le [of s n] by (simp add: clipBytes_def min_def)

lemma clipBytes_prefix: "\<exists>r. s = clipBytes s n @ r"
  by (auto simp: clipBytes_def intro: append_take_drop_id [symmetric])

lemma clipBytes_valid: "valid_utf8 s \<Longrightarrow> valid_utf8 (clipBytes s n)"
  by (simp add: clipBytes_def valid_utf8_back_up)

lemma clipBytes_near: "valid_utf8 s \<Longrightarrow> n < length s \<Longrightarrow> n \<le> length (clipBytes s n) + 3"
  using back_up_near [of s n] back_up_le [of s n] by (simp add: clipBytes_def min_def)

subsection \<open>A session with one running task\<close>

definition ex_task :: bg_task where
  "ex_task = \<lparr>t_id = ''s:p:a:m1:bg:c'', t_session = ''s'', t_participant = ''a'', t_user = ''u'', t_user_name = ''U'',
     t_tool = ''code'', t_summary = [], t_turn_key = ''m1.a'', t_call_id = ''c'', t_channel = [], t_channel_id = [],
     t_state = BackgroundRunning, t_started = 0, t_ended = None, t_ended_by = [], t_result = 0, t_cancelled_by = [],
     t_cancel_sent = None, t_woken = None, t_follow_ups = []\<rparr>"

definition ex_tdb :: tdb where
  "ex_tdb = \<lparr>sessions = [\<lparr>s_id = ''s'', s_agent = ''a'', s_channel = [], s_channel_id = []\<rparr>], tasks = [ex_task],
     t_msgs = empty_table\<rparr>"

lemmas ex_simps = ex_tdb_def ex_task_def

lemma ex_tdb_ok: "tasks_ok ex_tdb" "told_ok ex_tdb" "cap_ok ex_tdb" "GetTask ex_tdb ''s:p:a:m1:bg:c'' = Some ex_task" "running ex_task"
  by (simp_all add: ex_simps tasks_ok_def told_ok_def cap_ok_def GetTask_def running_count_def MaxRunningTasks_def
      table_ok_empty empty_table_def table_ok_def)

section \<open>Properties\<close>

text \<open>C30: The first to end a task ends it: whatever is written afterwards, its row keeps the state, the writer
  and the message of that end, the message stays as it was posted, and a later end, by the task or by the sweep,
  changes nothing, is told the first one's message, and is the caller's own exactly for the same writer.\<close>

theorem first_end_of_a_task_wins:
  assumes "tasks_ok db" and "GetTask db i = Some t" and "running t" and "st \<noteq> BackgroundRunning"
    and "EndTask db i who st (\<lambda>t. TaskResultMessage t content fl) now = (db1, e)"
    and "db2 = foldl tdb_write db1 ws"
  shows "\<exists>t2. GetTask db2 i = Some t2 \<and> t_state t2 = st \<and> t_ended_by t2 = who \<and> t_result t2 = e_message e
      \<and> find_row (t_msgs db2) (t_session t, TaskResultKey i) = find_row (t_msgs db1) (t_session t, TaskResultKey i)
      \<and> EndTask db2 i who' st' build now' =
          (db2, \<lparr>e_task = Some t2, e_message = e_message e, e_mine = (who' = who), e_gone = False\<rparr>)"
proof -
  let ?e = "(ended_task t st who now)\<lparr>t_result := end_message_id db t\<rparr>"
  have db1: "db1 = fst (EndTask db i who st (\<lambda>t. TaskResultMessage t content fl) now)" and m: "e_message e = end_message_id db t"
    using assms(5) EndTask_running [OF assms(2,3)] by auto
  have t1: "GetTask db1 i = Some ?e" unfolding db1 by (rule GetTask_EndTask_running [OF assms(2,3)])
  have f: "t_session ?e = t_session t" "t_state ?e = st" "t_ended_by ?e = who" "t_result ?e = end_message_id db t"
    by (simp_all add: ended_task_def)
  have id: "t_id t = i" using GetTask_Some [OF assms(2)] by simp
  have "\<exists>r. find_row (t_msgs db1) (t_session t, TaskResultKey i) = Some r"
    unfolding db1 EndTask_running [OF assms(2,3)] fst_conv update_task_fields by (auto simp: find_row_insert)
  then obtain r where r: "find_row (t_msgs db1) (t_session t, TaskResultKey i) = Some r" ..
  have ending: "ending_of db1 i = Some (?e\<lparr>t_woken := None, t_cancel_sent := None\<rparr>, r)"
    using t1 f assms(4) r by (simp add: ending_of_def)
  have "tasks_ok db1" unfolding db1 using assms(1) by (rule tasks_ok_EndTask)
  from task_ends.run_found [OF this ending] assms(6)
  have "ending_of db2 i = Some (?e\<lparr>t_woken := None, t_cancel_sent := None\<rparr>, r)" by simp
  then obtain t2 where t2: "GetTask db2 i = Some t2" "\<not> running t2"
    and eq: "t2\<lparr>t_woken := None, t_cancel_sent := None\<rparr> = ?e\<lparr>t_woken := None, t_cancel_sent := None\<rparr>"
    and r2: "find_row (t_msgs db2) (t_session t2, TaskResultKey i) = Some r"
    unfolding ending_of_Some by metis
  have "t_state t2 = st" "t_ended_by t2 = who" "t_result t2 = e_message e" "t_session t2 = t_session t"
    using f m arg_cong [OF eq, of t_state] arg_cong [OF eq, of t_ended_by] arg_cong [OF eq, of t_result] arg_cong [OF eq, of t_session]
    by simp_all
  with t2 r r2 show ?thesis by (auto simp: EndTask_over)
qed

theorem first_end_of_a_task_wins_witness:
  "\<exists>db1 e t2. EndTask ex_tdb ''s:p:a:m1:bg:c'' ''sweep'' BackgroundFailed (\<lambda>t. TaskResultMessage t ''lost'' None) 9 = (db1, e)
     \<and> GetTask (foldl tdb_write db1 [TWoken ''s:p:a:m1:bg:c'' 10]) ''s:p:a:m1:bg:c'' = Some t2
     \<and> t_state t2 = BackgroundFailed \<and> t_ended_by t2 = ''sweep''"
proof -
  define r where "r = EndTask ex_tdb ''s:p:a:m1:bg:c'' ''sweep'' BackgroundFailed (\<lambda>t. TaskResultMessage t ''lost'' None) 9"
  have "EndTask ex_tdb ''s:p:a:m1:bg:c'' ''sweep'' BackgroundFailed (\<lambda>t. TaskResultMessage t ''lost'' None) 9 = (fst r, snd r)"
    by (simp add: r_def)
  from first_end_of_a_task_wins [OF ex_tdb_ok(1,4,5) _ this, of "foldl tdb_write (fst r) [TWoken ''s:p:a:m1:bg:c'' 10]" "[TWoken ''s:p:a:m1:bg:c'' 10]"]
  show ?thesis using r_def by (metis bg_state.distinct(3) prod.collapse)
qed

text \<open>However tasks are registered, stopped, ended, woken, dropped and deleted with their session, a
  participant has at most \<open>MaxRunningTasks\<close> running; and a task is refused exactly when it is new and its
  participant runs as many already, or its session is gone.\<close>

theorem tasks_running_bounded:
  assumes "tasks_ok db" and "cap_ok db" and "db' = foldl tdb_step db ops"
  shows "running_count db' sid p \<le> MaxRunningTasks
    \<and> (snd (RegisterTaskActivity db' t now) = [] \<longleftrightarrow>
        GetTask db' (t_id t) \<noteq> None
        \<or> (running_count db' (t_session t) (t_participant t) < MaxRunningTasks \<and> GetSession db' (t_session t) \<noteq> None))"
proof
  from task_ops.run_inv [of db ops] assms have "cap_ok db'" by simp
  then show "running_count db' sid p \<le> MaxRunningTasks" by (simp add: cap_ok_def)
qed (auto simp: RegisterTaskActivity_def RegisterTask_def)

theorem tasks_running_bounded_witness:
  "running_count (foldl tdb_step ex_tdb [TWrite (TRegister (ex_task\<lparr>t_id := ''x''\<rparr>) 5)]) ''s'' ''a'' \<le> MaxRunningTasks
   \<and> running_count (foldl tdb_step ex_tdb [TWrite (TRegister (ex_task\<lparr>t_id := ''x''\<rparr>) 5)]) ''s'' ''a'' = 2"
  using tasks_running_bounded [OF ex_tdb_ok(1,3) refl, of "[TWrite (TRegister (ex_task\<lparr>t_id := ''x''\<rparr>) 5)]" "''s''" "''a''"]
  by (simp add: RegisterTaskActivity_def RegisterTask_def GetTask_def GetSession_def running_count_def MaxRunningTasks_def
      registered_def ex_simps)

text \<open>An instruction a running task accepts is kept whatever is written afterwards, and once the task has
  ended, whoever ended it, its message in the session holds it.\<close>

theorem follow_up_reaches_the_end:
  assumes "tasks_ok db" and "told_ok db" and "AddTaskFollowUp db sid p i f maxFollowUps = Inr db1"
    and "list_all task_write_ok ws" and "db2 = foldl tdb_write db1 ws"
  shows "\<exists>t. GetTask db2 i = Some t \<and> t_session t = sid \<and> fu_valid f \<in> set (t_follow_ups t)
    \<and> (\<not> running t \<longrightarrow> (\<exists>r ref. find_row (t_msgs db2) (sid, TaskResultKey i) = Some r
          \<and> m_task (r_data r) = Some ref \<and> ref_id ref = i \<and> fu_valid f \<in> set (ref_follow_ups ref)))"
proof -
  have w: "db1 = tdb_write db (TFollowUp sid p i f)" using assms(3) by simp
  have ok: "tasks_ok db1" "told_ok db1" unfolding w
    by (rule tasks_ok_write [OF assms(1)], rule told_ok_write [OF assms(1,2)]) simp
  from assms(3) obtain t0 where t0: "GetTask db i = Some t0" "t_session t0 = sid"
    and db1: "db1 = update_task db i (follow f)"
    by (auto simp: AddTaskFollowUp_def follow_def [abs_def] split: option.splits if_splits)
  have "GetTask db1 i = Some (follow f t0)" unfolding db1
    by (subst GetTask_update) (simp_all add: follow_def t0)
  from run_extends [OF this, of ws] assms(5) obtain t where t: "GetTask db2 i = Some t" "extends (follow f t0) t" by blast
  have s: "t_session t = sid" and fu: "fu_valid f \<in> set (t_follow_ups t)" using t(2) t0 by (auto simp: extends_def follow_def)
  have "tasks_ok db2" "told_ok db2" unfolding assms(5) by (rule run_tasks_ok [OF ok(1)], rule run_told_ok [OF ok assms(4)])
  from told_message [OF this t(1)] s fu t(1) show ?thesis by fastforce
qed

theorem follow_up_reaches_the_end_witness:
  "\<exists>db1. AddTaskFollowUp ex_tdb ''s'' ''a'' ''s:p:a:m1:bg:c'' \<lparr>fu_text = ''t'', fu_user = [], fu_user_name = [], fu_at = 3\<rparr> maxFollowUps = Inr db1
     \<and> (\<exists>t. GetTask (foldl tdb_write db1 [TEnd ''s:p:a:m1:bg:c'' ''task'' BackgroundDone ''r'' None 9]) ''s:p:a:m1:bg:c'' = Some t
           \<and> fu_valid \<lparr>fu_text = ''t'', fu_user = [], fu_user_name = [], fu_at = 3\<rparr> \<in> set (t_follow_ups t))"
proof -
  let ?f = "\<lparr>fu_text = ''t'', fu_user = [], fu_user_name = [], fu_at = 3\<rparr>"
  have "\<exists>db1. AddTaskFollowUp ex_tdb ''s'' ''a'' ''s:p:a:m1:bg:c'' ?f maxFollowUps = Inr db1"
    by (simp add: AddTaskFollowUp_def ex_tdb_ok(4)) (simp add: ex_task_def maxFollowUps_def)
  then obtain db1 where f: "AddTaskFollowUp ex_tdb ''s'' ''a'' ''s:p:a:m1:bg:c'' ?f maxFollowUps = Inr db1" ..
  from follow_up_reaches_the_end [OF ex_tdb_ok(1,2) f, of "[TEnd ''s:p:a:m1:bg:c'' ''task'' BackgroundDone ''r'' None 9]"] f
  show ?thesis by auto
qed

text \<open>\<open>PostTaskResult\<close> may be retried: once an attempt answered for a task still known, a later attempt
  changes nothing and answers the same, whatever other writers did meanwhile; in particular the task's participant
  is woken by its own workflow or by the sweep, never by both.\<close>

theorem post_result_retried:
  assumes "tasks_ok db" and "told_ok db" and "st \<noteq> BackgroundRunning"
    and "PostTaskResult id id pub db i st content now = (db1, Inr out)" and "\<not> po_gone out"
    and "db2 = foldl tdb_write db1 ws"
  shows "PostTaskResult id id pub db2 i st content now' = (db2, Inr out)
    \<and> (po_wake out \<longrightarrow> (\<exists>t. GetTask db2 i = Some t \<and> t_ended_by t = TaskEndedByTask
          \<and> (t_state t = BackgroundDone \<or> t_state t = BackgroundFailed) \<and> t_result t = po_message out))"
proof -
  from posted_answer [OF assms(1-5)] obtain t1 where ok: "tasks_ok db1" "told_ok db1" and t1: "GetTask db1 i = Some t1" "\<not> running t1"
    and out: "if t_ended_by t1 = TaskEndedByTask then \<exists>fr. file_of pub t1 st content = Inr fr \<and> out = posted db1 t1 fr
        else out = no_output" by blast
  from ended_stays [OF ok t1] assms(6) obtain t where t: "GetTask db2 i = Some t" and same: "same_end t t1" by blast
  note s = same_end_state [OF same]
  have r: "\<not> running t" using s t1 by simp
  have ss: "sessions db2 = sessions db1" unfolding assms(6) by (rule sessions_run)
  show ?thesis
  proof (cases "t_ended_by t1 = TaskEndedByTask")
    case True
    with out obtain fr where fr: "file_of pub t1 st content = Inr fr" "out = posted db1 t1 fr" by auto
    have "posted db2 t fr = out" using same_end_posted [OF same] posted_cong [OF ss] fr by simp
    with posted_over [OF t r, of pub st content fr now'] True s same_end_file [OF same] fr
    have p: "PostTaskResult id id pub db2 i st content now' = (db2, Inr out)" by simp
    have "t_state t \<noteq> BackgroundCancelled" "po_message out = t_result t" if "po_wake out"
      using that fr s by (auto simp: posted_def ended_output_def no_output_def Let_def split: if_splits option.splits)
    with r t s True p show ?thesis by (cases "t_state t") auto
  next
    case False
    with out t r s show ?thesis by (simp add: PostTaskResult_def no_output_def)
  qed
qed

theorem post_result_retried_witness:
  "\<exists>db1 out. PostTaskResult id id (\<lambda>_ _ _. Inl []) ex_tdb ''s:p:a:m1:bg:c'' BackgroundDone ''ok'' 9 = (db1, Inr out)
     \<and> po_wake out
     \<and> PostTaskResult id id (\<lambda>_ _ _. Inl []) db1 ''s:p:a:m1:bg:c'' BackgroundDone ''ok'' 12 = (db1, Inr out)"
proof -
  let ?pub = "\<lambda>_ _ _. Inl [] :: (string, file_ref) result"
  have fr: "file_of ?pub ex_task BackgroundDone ''ok'' = Inr None" by (simp add: file_of_def MaxTaskMessageBytes_def)
  obtain db1 where p: "PostTaskResult id id ?pub ex_tdb ''s:p:a:m1:bg:c'' BackgroundDone ''ok'' 9 =
      (db1, Inr (posted db1 ((ended_task ex_task BackgroundDone TaskEndedByTask 9)\<lparr>t_result := end_message_id ex_tdb ex_task\<rparr>) None))"
    and s: "sessions db1 = sessions ex_tdb"
    using posted_running [OF ex_tdb_ok(4,5) fr refl refl refl, of 9] by (fastforce simp: EndTask_running [OF ex_tdb_ok(4,5)])
  have "GetSession db1 ''s'' = Some \<lparr>s_id = ''s'', s_agent = ''a'', s_channel = [], s_channel_id = []\<rparr>"
    by (simp add: GetSession_cong [OF s]) (simp add: GetSession_def ex_tdb_def)
  then have o: "po_wake (posted db1 ((ended_task ex_task BackgroundDone TaskEndedByTask 9)\<lparr>t_result := end_message_id ex_tdb ex_task\<rparr>) None)"
    "\<not> po_gone (posted db1 ((ended_task ex_task BackgroundDone TaskEndedByTask 9)\<lparr>t_result := end_message_id ex_tdb ex_task\<rparr>) None)"
    by (simp_all add: posted_def ended_task_def ex_task_def ended_output_def no_output_def Let_def)
  from post_result_retried [OF ex_tdb_ok(1,2) _ p o(2), of db1 "[]" 12] p o(1) show ?thesis by auto
qed

text \<open>The message that ends a task holds its whole result, or, past \<open>MaxTaskMessageBytes\<close>, the start of it: at
  most that many bytes and less than four short of it, cut between runes (valid UTF-8 stays valid), the whole
  result being published and named by the message.\<close>

theorem task_message_bounded:
  assumes "tasks_ok db" and "told_ok db" and "GetTask db i = Some t" and "running t"
    and "st = BackgroundDone \<or> st = BackgroundFailed" and "valid_utf8 content" and "content \<noteq> []"
    and "PostTaskResult id id pub db i st content now = (db1, Inr out)"
  shows "\<exists>r txt rest ref. find_row (t_msgs db1) (t_session t, TaskResultKey i) = Some r \<and> r_id r = po_message out
    \<and> m_content (r_data r) = JStr txt \<and> content = txt @ rest \<and> length txt \<le> MaxTaskMessageBytes \<and> valid_utf8 txt
    \<and> m_task (r_data r) = Some ref \<and> (ref_file ref = None \<longleftrightarrow> rest = [])
    \<and> (rest \<noteq> [] \<longrightarrow> MaxTaskMessageBytes - 3 \<le> length txt
         \<and> (\<exists>f. publish pub t content = Inr f \<and> ref_file ref = Some \<lparr>tf_id = f_id f, tf_name = f_name f, tf_size = f_size f\<rparr>))"
proof -
  let ?big = "MaxTaskMessageBytes < length content"
  define c where "c = (if ?big then clipBytes content MaxTaskMessageBytes else content)"
  have st: "st \<noteq> BackgroundCancelled" using assms(5) by auto
  obtain fr where fr: "file_of pub t st content = Inr fr"
    using assms(3,4,8) by (cases "file_of pub t st content") (auto simp: PostTaskResult_def file_of_def Let_def split: if_splits)
  define tf where "tf = map_option (\<lambda>f. \<lparr>tf_id = f_id f, tf_name = f_name f, tf_size = f_size f\<rparr>) fr"
  have c': "c = (if ?big \<and> st \<noteq> BackgroundCancelled then clipBytes content MaxTaskMessageBytes else content)"
    using st by (simp add: c_def)
  let ?e = "(ended_task t st TaskEndedByTask now)\<lparr>t_result := end_message_id db t\<rparr>"
  from posted_running [OF assms(3,4) fr c' tf_def refl] assms(8)
  have db1: "db1 = fst (EndTask db i TaskEndedByTask st (\<lambda>t. TaskResultMessage t c tf) now)"
    and out: "out = posted db1 ?e fr" by auto
  from GetTask_Some [OF assms(3)] have mem: "t \<in> set (tasks db)" and id: "t_id t = i" by auto
  from running_not_told [OF assms(1,2) mem assms(4)] id
  have "find_row (t_msgs db1) (t_session t, TaskResultKey i) = Some \<lparr>r_session = t_session t, r_id = next_id (t_msgs db),
      r_key = TaskResultKey i, r_data = TaskResultMessage (ended_task t st TaskEndedByTask now) c tf\<rparr>"
    by (simp add: db1 EndTask_running [OF assms(3,4)] find_row_insert)
  moreover have "po_message out = next_id (t_msgs db)"
    using running_not_told [OF assms(1,2) mem assms(4)] id
    by (auto simp: out posted_def ended_output_def no_output_def end_message_id_def Let_def split: option.splits)
  moreover have v: "valid_utf8 c" using assms(6) by (simp add: c_def clipBytes_valid)
  moreover have l: "length c \<le> MaxTaskMessageBytes" using clipBytes_le by (simp add: c_def)
  moreover obtain rest where rest: "content = c @ rest"
    using clipBytes_prefix [of content MaxTaskMessageBytes] by (cases ?big) (auto simp: c_def)
  moreover have big: "?big \<longleftrightarrow> rest \<noteq> []"
    using rest l by (cases ?big) (auto simp: c_def)
  moreover have near: "MaxTaskMessageBytes - 3 \<le> length c" if "rest \<noteq> []"
    using that big clipBytes_near [OF assms(6), of MaxTaskMessageBytes] by (simp add: c_def)
  moreover have "c \<noteq> []" using near assms(7) rest by (cases "rest = []") (auto simp: MaxTaskMessageBytes_def)
  moreover have "tf = None \<longleftrightarrow> rest = []"
    using fr big st by (cases "publish pub t content") (auto simp: tf_def file_of_def split: if_splits)
  moreover have "\<exists>f. publish pub t content = Inr f \<and> tf = Some \<lparr>tf_id = f_id f, tf_name = f_name f, tf_size = f_size f\<rparr>"
    if "rest \<noteq> []"
    using fr big st that by (cases "publish pub t content") (auto simp: tf_def file_of_def)
  ultimately show ?thesis
    by (intro exI [of _ "\<lparr>r_session = t_session t, r_id = next_id (t_msgs db),
      r_key = TaskResultKey i, r_data = TaskResultMessage (ended_task t st TaskEndedByTask now) c tf\<rparr>"] exI [of _ c] exI [of _ rest]
      exI [of _ "(Ref (ended_task t st TaskEndedByTask now))\<lparr>ref_file := tf\<rparr>"])
      (simp add: TaskResultMessage_def Let_def json_marshal_def to_valid_valid)
qed

theorem task_message_bounded_witness:
  "\<exists>db1 out r. PostTaskResult id id (\<lambda>_ _ _. Inl []) ex_tdb ''s:p:a:m1:bg:c'' BackgroundDone ''ok'' 9 = (db1, Inr out)
     \<and> find_row (t_msgs db1) (''s'', TaskResultKey ''s:p:a:m1:bg:c'') = Some r \<and> r_id r = po_message out"
proof -
  let ?pub = "\<lambda>_ _ _. Inl [] :: (string, file_ref) result"
  have fr: "file_of ?pub ex_task BackgroundDone ''ok'' = Inr None" by (simp add: file_of_def MaxTaskMessageBytes_def)
  obtain db1 out where p: "PostTaskResult id id ?pub ex_tdb ''s:p:a:m1:bg:c'' BackgroundDone ''ok'' 9 = (db1, Inr out)"
    using posted_running [OF ex_tdb_ok(4,5) fr refl refl refl, of 9] by blast
  have "valid_utf8 ''ok''" by (rule valid_utf8_ascii) simp
  from task_message_bounded [OF ex_tdb_ok(1,2,4,5) _ this _ p] have
    "\<exists>r. find_row (t_msgs db1) (t_session ex_task, TaskResultKey ''s:p:a:m1:bg:c'') = Some r \<and> r_id r = po_message out" by auto
  with p show ?thesis by (auto simp: ex_task_def)
qed

end
