(* ===== verification/Participant.thy ===== *)
theory Participant
  imports Messages "HOL-Library.Sublist"
begin

section \<open>A participant answers its messages\<close>

text \<open>
  \<open>workflow/participant.go\<close> and the activities it calls (\<open>activity/turn.go\<close>, \<open>PersistContext\<close> of
  \<open>activity/memory.go\<close>). A participant is an agent in a session: a workflow that takes the messages delivered to
  it, one at a time, runs a turn on each and writes the turn's end. The state holds the workflow's own variables,
  its three signal channels, the session's messages and a log of what it sent. Signals arrive, and others write
  messages, whenever the workflow waits: each wait is one tick of a schedule, an argument of the definitions that
  says what happened during it and how the activity waited for ended. A turn is a child workflow
  (\<open>workflow/agent.go\<close>): its outcome, and the order in which the selector sees the signals that come during it, are
  the schedule's too. The store's failures are \<open>k_err\<close> for a check, a rewrite or a relay and \<open>k_end_err\<close> for the
  end of a turn, the one write that decides whether a message is answered again.
\<close>

subsection \<open>Messages and state\<close>

record addressed_agent =
  aa_id :: string
  aa_name :: string
  aa_mention :: string

record part =
  pt_agents :: "addressed_agent list"
  pt_quote :: string

record pmsg =
  pm_id :: int
  pm_user :: string
  pm_user_name :: string
  pm_next :: "addressed_agent list"
  pm_earlier :: "string list"
  pm_sign :: bool
  pm_channel :: string
  pm_channel_id :: string
  pm_part :: "part option"

record pinput =
  pi_session :: string
  pi_agent :: string
  pi_channel :: string
  pi_channel_id :: string
  pi_inbox :: "pmsg list"

record current_message =
  cm_id :: int
  cm_turn :: string
  cm_user :: string
  cm_user_name :: string

record turn_input =
  ti_session :: string
  ti_user :: string
  ti_user_name :: string
  ti_agent :: string
  ti_turn :: string
  ti_earlier :: "string list"
  ti_channel :: string
  ti_channel_id :: string
  ti_part_note :: string
  ti_sign :: bool

text \<open>
  What the participant sent: the events of a turn (the agent's name once it is read, the turn, the user it answers;
  the agent is the participant's), its workflow started, an answer on a channel, a message relayed.
\<close>

datatype pevent =
    EvTurnStarted string string string string
  | EvTurnDone string string string string
  | EvChild string turn_input
  | EvResponse string string string string
  | EvRelay string pmsg pinput

record pstate =
  p_in :: pinput
  p_inbox :: "pmsg list"
  p_current :: "current_message option"
  p_gone :: bool
  messages_ch :: "pmsg list"
  stops_ch :: "string list"
  clears_ch :: nat
  p_store :: msg_table
  p_log :: "pevent list"
  p_clock :: nat

datatype sel_event = SelMessage | SelStop | SelClear

text \<open>How a turn's workflow ended: in error, or with its messages, its error and the error's type.\<close>

datatype turn_outcome = TurnFailed string | TurnEnded "message list" string string

record tick =
  k_messages :: "pmsg list"
  k_stops :: "string list"
  k_clears :: nat
  k_writes :: "msg_write list"
  k_err :: "string option"
  k_end_err :: bool
  k_session_gone :: bool
  k_agent :: "string option"
  k_sel :: "sel_event list"
  k_turn :: turn_outcome
  k_large :: bool

type_synonym schedule = "nat \<Rightarrow> tick"

definition AgentNotOpen :: string where "AgentNotOpen = ''AgentNotOpen''"

definition turn_key :: "pstate \<Rightarrow> pmsg \<Rightarrow> string" where
  "turn_key st m = TurnKey (pm_id m) (pi_agent (p_in st))"

subsection \<open>Waiting\<close>

text \<open>One wait: what came during it is in the channels and in the store.\<close>

definition wait :: "schedule \<Rightarrow> pstate \<Rightarrow> pstate" where
  "wait S st = (let k = S (p_clock st) in
     st\<lparr>messages_ch := messages_ch st @ k_messages k, stops_ch := stops_ch st @ k_stops k,
        clears_ch := clears_ch st + k_clears k, p_store := foldl write_step (p_store st) (k_writes k),
        p_clock := Suc (p_clock st)\<rparr>)"

definition log_event :: "pevent \<Rightarrow> pstate \<Rightarrow> pstate" where
  "log_event e st = st\<lparr>p_log := p_log st @ [e]\<rparr>"

definition notifyTurn :: "schedule \<Rightarrow> pevent \<Rightarrow> pstate \<Rightarrow> pstate" where
  "notifyTurn S e st = wait S (log_event e st)"

definition notifyResponse :: "schedule \<Rightarrow> string \<Rightarrow> string \<Rightarrow> string \<Rightarrow> string \<Rightarrow> pstate \<Rightarrow> pstate" where
  "notifyResponse S channel channelID agent content st =
     wait S (log_event (EvResponse channel channelID agent content) st)"

definition endTurn :: "schedule \<Rightarrow> string \<Rightarrow> message \<Rightarrow> pstate \<Rightarrow> pstate" where
  "endTurn S turnKey m st = (let st' = wait S st in
     if k_end_err (S (p_clock st)) then st'
     else st'\<lparr>p_store := fst (AppendTurnEnd (p_store st') (pi_session (p_in st)) turnKey m)\<rparr>)"

definition notifyError :: "schedule \<Rightarrow> string \<Rightarrow> string \<Rightarrow> string \<Rightarrow> string \<Rightarrow> pstate \<Rightarrow> pstate" where
  "notifyError S channel channelID signer reason st =
     notifyResponse S channel channelID signer (''Error processing message: '' @ reason) st"

text \<open>
  \<open>CheckTurn\<close> as the participant reads it: the session gone, the failure's text, answered already, or free, with
  the agent's name. The agent's ID needs no escape in \<open>%q\<close>.
\<close>

datatype check_result = SessionGone | CheckFailed string | Answered | Free string

definition CheckTurn :: "schedule \<Rightarrow> string \<Rightarrow> pstate \<Rightarrow> pstate \<times> check_result" where
  "CheckTurn S turnKey st = (let k = S (p_clock st); st' = wait S st in
     (st', case k_err k of Some e \<Rightarrow> CheckFailed e
           | None \<Rightarrow> if k_session_gone k then SessionGone
               else if HasTurnEnd (p_store st') (pi_session (p_in st)) turnKey then Answered
               else (case k_agent k of
                       None \<Rightarrow> CheckFailed (''agent \"'' @ pi_agent (p_in st) @ ''\" no longer exists'')
                     | Some name \<Rightarrow> Free name)))"

definition PersistContext :: "schedule \<Rightarrow> string \<Rightarrow> message list \<Rightarrow> pstate \<Rightarrow> pstate" where
  "PersistContext S turnKey ms st = (let st' = wait S st in
     if k_err (S (p_clock st)) \<noteq> None then st'
     else st'\<lparr>p_store := AppendMessages (p_store st') (pi_session (p_in st)) turnKey 0 ms\<rparr>)"

subsection \<open>The channels\<close>

definition receive :: "pstate \<Rightarrow> pstate" where
  "receive st = st\<lparr>p_inbox := p_inbox st @ messages_ch st, messages_ch := []\<rparr>"

definition stopsFor :: "string \<Rightarrow> pstate \<Rightarrow> pstate \<times> bool" where
  "stopsFor turnKey st = (st\<lparr>stops_ch := []\<rparr>, list_ex (\<lambda>k. k = turnKey) (stops_ch st))"

definition queued :: "pstate \<Rightarrow> nat" where
  "queued st = length (p_inbox st) + length (messages_ch st)"

text \<open>The reasons a message was dropped, in UTF-8.\<close>

definition clearedReason :: string where
  "clearedReason = ''Annul'' @ [CHR 0xC3, CHR 0xA9] @ '' avant d'' @ [CHR 0x27, CHR 0xC3, CHR 0xAA] @ ''tre trait''
     @ [CHR 0xC3, CHR 0xA9] @ '' : la file de l'' @ [CHR 0x27] @ ''agent a '' @ [CHR 0xC3, CHR 0xA9] @ ''t''
     @ [CHR 0xC3, CHR 0xA9] @ '' vid'' @ [CHR 0xC3, CHR 0xA9] @ ''e.''"

definition stoppedBeforeReason :: string where
  "stoppedBeforeReason = ''Interrompu avant de commencer : un membre a arr'' @ [CHR 0xC3, CHR 0xAA] @ ''t''
     @ [CHR 0xC3, CHR 0xA9] @ '' ce tour.''"

fun clear_each :: "schedule \<Rightarrow> pmsg list \<Rightarrow> pstate \<Rightarrow> pstate" where
  "clear_each S [] st = st"
| "clear_each S (m # ms) st =
     (if pm_id m \<le> 0 then clear_each S ms st
      else let turnKey = turn_key st m;
               st1 = endTurn S turnKey (TurnEnd (pi_agent (p_in st)) clearedReason) st
           in clear_each S ms (notifyTurn S (EvTurnDone [] turnKey [] []) st1))"

definition clear :: "schedule \<Rightarrow> pstate \<Rightarrow> pstate" where
  "clear S st = (let st1 = receive st in clear_each S (p_inbox st1) (st1\<lparr>p_inbox := []\<rparr>))"

subsection \<open>The note of a message addressed to several agents\<close>

definition partNote :: "addressed_agent list \<Rightarrow> nat \<Rightarrow> string \<Rightarrow> string \<Rightarrow> string" where
  "partNote agents i quote userName =
     (if length agents < 2 then []
      else let names = map (\<lambda>a. trim_prefix ''agent '' (AgentLabel (cmp_or (aa_name a) (aa_id a)) (cmp_or (aa_mention a) (aa_id a)))) agents;
               sender = (if userName \<noteq> [] then '' from '' @ userName else [])
           in [CHR 0x0A] @ ''## Several agents addressed'' @ [CHR 0x0A, CHR 0x0A]
              @ ''You are answering the message'' @ sender @ '' that reads '' @ [CHR 0xE2, CHR 0x80, CHR 0x9C] @ quote
              @ [CHR 0xE2, CHR 0x80, CHR 0x9D]
              @ ''. It addresses several agents, who answer it one after another, in this order: '' @ join '', '' names
              @ ''. You are '' @ names ! i @ '': answer only the part meant for you.''
              @ (if 0 < i then '' The agents before you have answered already, above, in their [agent '' @ ellipsis
                   @ ''] blocks: build on what they said rather than repeat it.'' else [])
              @ (if i + 1 < length agents then
                   '' The agents after you answer next and will see your reply: leave their part to them.'' else [])
              @ '' Messages written after it get their own turn: answer this one.'' @ [CHR 0x0A])"

fun agent_index :: "addressed_agent list \<Rightarrow> string \<Rightarrow> nat option" where
  "agent_index [] agentID = None"
| "agent_index (a # as) agentID = (if aa_id a = agentID then Some 0 else map_option Suc (agent_index as agentID))"

definition noteFor :: "part option \<Rightarrow> string \<Rightarrow> string \<Rightarrow> string" where
  "noteFor pt agentID userName =
     (case pt of None \<Rightarrow> []
      | Some p \<Rightarrow> (case agent_index (pt_agents p) agentID of None \<Rightarrow> []
                   | Some i \<Rightarrow> partNote (pt_agents p) i (pt_quote p) userName))"

subsection \<open>A turn\<close>

text \<open>One round of the selector: a channel it finds empty was not ready.\<close>

fun sel_step :: "string \<Rightarrow> pstate \<times> bool \<times> bool \<Rightarrow> sel_event \<Rightarrow> pstate \<times> bool \<times> bool" where
  "sel_step turnKey (st, stopped, cleared) SelMessage =
     (case messages_ch st of [] \<Rightarrow> (st, stopped, cleared)
      | m # ms \<Rightarrow> (st\<lparr>messages_ch := ms, p_inbox := p_inbox st @ [m]\<rparr>, stopped, cleared))"
| "sel_step turnKey (st, stopped, cleared) SelStop =
     (case stops_ch st of [] \<Rightarrow> (st, stopped, cleared)
      | k # ks \<Rightarrow> let st' = st\<lparr>stops_ch := ks\<rparr> in
          if k \<noteq> [] \<and> k \<noteq> turnKey then (st', stopped, cleared) else (st', True, cleared))"
| "sel_step turnKey (st, stopped, cleared) SelClear =
     (case clears_ch st of 0 \<Rightarrow> (st, stopped, cleared)
      | Suc n \<Rightarrow> (st\<lparr>clears_ch := n\<rparr>, True, True))"

definition runTurn ::
  "schedule \<Rightarrow> pmsg \<Rightarrow> string \<Rightarrow> string \<Rightarrow> string \<Rightarrow> pstate \<Rightarrow> pstate \<times> message list \<times> string \<times> bool \<times> bool \<times> string" where
  "runTurn S msg turnKey channel channelID st =
     (let k = S (p_clock st);
          child = \<lparr>ti_session = pi_session (p_in st), ti_user = pm_user msg, ti_user_name = pm_user_name msg,
                   ti_agent = pi_agent (p_in st), ti_turn = turnKey, ti_earlier = pm_earlier msg,
                   ti_channel = channel, ti_channel_id = channelID,
                   ti_part_note = noteFor (pm_part msg) (pi_agent (p_in st)) (pm_user_name msg), ti_sign = pm_sign msg\<rparr>;
          id = turnWorkflowID (ParticipantWorkflowID (pi_session (p_in st)) (pi_agent (p_in st))) (pm_id msg);
          (st', stopped, cleared) = foldl (sel_step turnKey) (wait S (log_event (EvChild id child) st), False, False) (k_sel k)
      in case k_turn k of
           TurnFailed e \<Rightarrow> (st', [], [], stopped, cleared, if stopped then [] else ''agent workflow: '' @ e)
         | TurnEnded ms err typ \<Rightarrow> (st', ms, typ, stopped, cleared, if stopped then [] else err))"

definition relay :: "schedule \<Rightarrow> pmsg \<Rightarrow> string \<Rightarrow> string \<Rightarrow> string \<Rightarrow> string \<Rightarrow> pstate \<Rightarrow> pstate" where
  "relay S msg turnKey channel channelID signer st =
     (case pm_next msg of [] \<Rightarrow> st
      | nxt # rest \<Rightarrow>
          let relayed = msg\<lparr>pm_next := rest, pm_earlier := pm_earlier msg @ (if turnKey \<noteq> [] then [turnKey] else [])\<rparr>;
              start = (p_in st)\<lparr>pi_agent := aa_id nxt, pi_inbox := []\<rparr>
          in case k_err (S (p_clock st)) of
               None \<Rightarrow> wait S (log_event (EvRelay (ParticipantWorkflowID (pi_session (p_in st)) (aa_id nxt)) relayed start) st)
             | Some e \<Rightarrow>
                 let reason = ''le relais vers @'' @ cmp_or (aa_mention nxt) (aa_id nxt) @ '' a '' @ [CHR 0xC3, CHR 0xA9]
                                @ ''chou'' @ [CHR 0xC3, CHR 0xA9] @ '' : '' @ e
                 in notifyError S channel channelID signer reason
                      (endTurn S (TurnKey (pm_id msg) (aa_id nxt)) (TurnEnd (aa_id nxt) reason) (wait S st)))"

text \<open>
  The part of \<open>answer\<close> between the check and its deferred calls: the turn, what it left to write, its end, and
  what the members or the next agent are told.
\<close>

definition answer_turn :: "schedule \<Rightarrow> pmsg \<Rightarrow> string \<Rightarrow> string \<Rightarrow> string \<Rightarrow> string \<Rightarrow> pstate \<Rightarrow> pstate" where
  "answer_turn S msg turnKey channel channelID signer st =
     (let (st1, newMessages, errorType, stopped, cleared, reason) = runTurn S msg turnKey channel channelID st;
          st2 = (if newMessages \<noteq> [] then PersistContext S turnKey newMessages st1 else st1);
          st3 = endTurn S turnKey (TurnEnd (pi_agent (p_in st)) reason) st2;
          st4 = (if stopped then notifyResponse S channel channelID signer ''Agent interrupted by user.'' st3
                 else if errorType = AgentNotOpen then
                   (let e = notifyError S channel channelID signer reason st3
                    in if pm_next msg \<noteq> [] then relay S msg [] channel channelID signer e else e)
                 else if reason \<noteq> [] then notifyError S channel channelID signer reason st3
                 else if pm_next msg \<noteq> [] then relay S msg turnKey channel channelID signer st3
                 else st3)
      in if cleared then clear S st4 else st4)"

text \<open>The message's channel, or the session's: a pair, never mixed.\<close>

definition reply_channel :: "pstate \<Rightarrow> pmsg \<Rightarrow> string \<times> string" where
  "reply_channel st msg = (if pm_channel msg \<noteq> [] then (pm_channel msg, pm_channel_id msg)
     else (pi_channel (p_in st), pi_channel_id (p_in st)))"

text \<open>\<open>answer\<close> from the result of the check on, less its deferred calls.\<close>

definition answer_checked :: "schedule \<Rightarrow> pmsg \<Rightarrow> string \<Rightarrow> string \<Rightarrow> string \<Rightarrow> check_result \<Rightarrow> pstate \<Rightarrow> pstate" where
  "answer_checked S msg turnKey channel channelID check st =
     (let agent = pi_agent (p_in st);
          signer = (if pm_sign msg then agent else [])
      in case check of
           SessionGone \<Rightarrow> st\<lparr>p_gone := True\<rparr>
         | CheckFailed e \<Rightarrow>
             let reason = ''the agent could not answer: '' @ e
             in notifyError S channel channelID signer reason (endTurn S turnKey (TurnEnd agent reason) st)
         | Answered \<Rightarrow> st
         | Free name \<Rightarrow>
             let signer = (if pm_sign msg then cmp_or name agent else signer);
                 (st2, stop) = stopsFor turnKey st
             in if stop then
                  notifyResponse S channel channelID signer ''Agent interrupted by user.''
                    (endTurn S turnKey (TurnEnd agent stoppedBeforeReason) st2)
                else answer_turn S msg turnKey channel channelID signer
                       (notifyTurn S (EvTurnStarted name turnKey (pm_user msg) (pm_user_name msg)) st2))"

definition answer :: "schedule \<Rightarrow> pmsg \<Rightarrow> pstate \<Rightarrow> pstate" where
  "answer S msg st =
     (if pm_id msg \<le> 0 then st
      else
        let turnKey = turn_key st msg;
            (channel, channelID) = reply_channel st msg;
            st0 = st\<lparr>p_current := Some \<lparr>cm_id = pm_id msg, cm_turn = turnKey, cm_user = pm_user msg,
                                         cm_user_name = pm_user_name msg\<rparr>\<rparr>;
            (st1, check) = CheckTurn S turnKey st0;
            st' = answer_checked S msg turnKey channel channelID check st1;
            named = (case check of Free name \<Rightarrow> if snd (stopsFor turnKey st1) then [] else name | _ \<Rightarrow> [])
        in (notifyTurn S (EvTurnDone named turnKey (pm_user msg) (pm_user_name msg)) st')\<lparr>p_current := None\<rparr>)"

subsection \<open>The workflow\<close>

datatype presult = Running | Closed | Continued pinput

text \<open>One round of the workflow's loop.\<close>

definition participant_round :: "schedule \<Rightarrow> pstate \<Rightarrow> pstate \<times> presult" where
  "participant_round S st =
     (let st1 = receive st;
          st2 = st1\<lparr>clears_ch := 0\<rparr>;
          st3 = (if 0 < clears_ch st1 then clear S st2 else st2)
      in case p_inbox st3 of
           [] \<Rightarrow> (st3\<lparr>stops_ch := []\<rparr>, Closed)
         | msg # rest \<Rightarrow>
             if p_gone st3 then (st3\<lparr>stops_ch := []\<rparr>, Closed)
             else if k_large (S (p_clock st3)) then (st3\<lparr>stops_ch := []\<rparr>, Continued ((p_in st3)\<lparr>pi_inbox := p_inbox st3\<rparr>))
             else (answer S msg (st3\<lparr>p_inbox := rest\<rparr>), Running))"

text \<open>\<open>n\<close> rounds at most; \<open>Running\<close> when the workflow has not returned by then.\<close>

fun ParticipantWorkflow :: "schedule \<Rightarrow> nat \<Rightarrow> pstate \<Rightarrow> pstate \<times> presult" where
  "ParticipantWorkflow S 0 st = (st, Running)"
| "ParticipantWorkflow S (Suc n) st =
     (case participant_round S st of
        (st', Running) \<Rightarrow> ParticipantWorkflow S n st'
      | r \<Rightarrow> r)"

definition start_participant :: "pinput \<Rightarrow> pmsg list \<Rightarrow> msg_table \<Rightarrow> pstate" where
  "start_participant input signals T =
     \<lparr>p_in = input, p_inbox = pi_inbox input, p_current = None, p_gone = False, messages_ch = signals, stops_ch = [],
      clears_ch = 0, p_store = T, p_log = [], p_clock = 0\<rparr>"

subsection \<open>Laws of the steps\<close>

text \<open>The turns whose workflow was started, in order, and the messages that arrived in the first \<open>n\<close> ticks.\<close>

definition child_of :: "pevent \<Rightarrow> string list" where
  "child_of e = (case e of EvChild _ c \<Rightarrow> [ti_turn c] | _ \<Rightarrow> [])"

definition children :: "pstate \<Rightarrow> string list" where
  "children st = concat (map child_of (p_log st))"

definition arrivals :: "schedule \<Rightarrow> nat \<Rightarrow> nat \<Rightarrow> pmsg list" where
  "arrivals S a b = concat (map (\<lambda>n. k_messages (S n)) [a..<b])"

definition ended :: "pstate \<Rightarrow> string \<Rightarrow> bool" where
  "ended st turnKey = HasTurnEnd (p_store st) (pi_session (p_in st)) turnKey"

text \<open>
  A quiet step starts no turn, keeps the ends already written and loses no message: those waiting are followed by
  those that arrived.
\<close>

definition quiet :: "schedule \<Rightarrow> pstate \<Rightarrow> pstate \<Rightarrow> bool" where
  "quiet S st st' \<longleftrightarrow>
     p_in st' = p_in st \<and> p_gone st' = p_gone st \<and> children st' = children st
     \<and> (\<forall>k. ended st k \<longrightarrow> ended st' k) \<and> p_clock st \<le> p_clock st'
     \<and> p_inbox st' @ messages_ch st' = p_inbox st @ messages_ch st @ arrivals S (p_clock st) (p_clock st')
     \<and> ((\<forall>n. k_clears (S n) = 0) \<longrightarrow> clears_ch st = 0 \<longrightarrow> clears_ch st' = 0)"

lemma arrivals_append: "a \<le> b \<Longrightarrow> b \<le> c \<Longrightarrow> arrivals S a b @ arrivals S b c = arrivals S a c"
proof -
  assume "a \<le> b" "b \<le> c"
  then have "[a..<b] @ [b..<c] = [a..<c]" by (metis le_Suc_ex upt_add_eq_append)
  then show ?thesis unfolding arrivals_def by (metis concat_append map_append)
qed

lemma arrivals_same [simp]: "arrivals S a a = []"
  by (simp add: arrivals_def)

lemma arrivals_Suc [simp]: "arrivals S a (Suc a) = k_messages (S a)"
  by (simp add: arrivals_def)

lemma quiet_refl: "quiet S st st"
  by (simp add: quiet_def)

lemma quiet_trans [trans]:
  assumes a: "quiet S st st'" and b: "quiet S st' st''"
  shows "quiet S st st''"
proof -
  have "p_inbox st'' @ messages_ch st'' = p_inbox st @ messages_ch st
      @ (arrivals S (p_clock st) (p_clock st') @ arrivals S (p_clock st') (p_clock st''))"
    using a b unfolding quiet_def by (metis append.assoc)
  also have "arrivals S (p_clock st) (p_clock st') @ arrivals S (p_clock st') (p_clock st'') = arrivals S (p_clock st) (p_clock st'')"
    using a b by (intro arrivals_append) (simp_all add: quiet_def)
  finally show ?thesis using a b by (simp add: quiet_def)
qed

lemma HasTurnEnd_write: "HasTurnEnd T sid k \<Longrightarrow> HasTurnEnd (write_step T w) sid k"
  unfolding HasTurnEnd_def using write_step_keeps by fastforce

lemma HasTurnEnd_writes: "HasTurnEnd T sid k \<Longrightarrow> HasTurnEnd (foldl write_step T ws) sid k"
  by (induction ws arbitrary: T) (simp_all add: HasTurnEnd_write)

lemma HasTurnEnd_AppendMessages: "HasTurnEnd T sid k \<Longrightarrow> HasTurnEnd (AppendMessages T sid' t i ms) sid k"
  unfolding HasTurnEnd_def using find_row_AppendMessages_keep by fastforce

lemma children_log [simp]: "children (log_event e st) = children st @ child_of e"
  by (simp add: children_def log_event_def)

lemma quiet_wait: "quiet S st (wait S st)"
  by (simp add: quiet_def wait_def Let_def children_def ended_def HasTurnEnd_writes)

lemma quiet_log: "child_of e = [] \<Longrightarrow> quiet S st (log_event e st)"
  by (simp add: quiet_def children_def log_event_def ended_def)

lemma quiet_notifyTurn: "child_of e = [] \<Longrightarrow> quiet S st (notifyTurn S e st)"
  unfolding notifyTurn_def by (rule quiet_trans [OF quiet_log quiet_wait])

lemma quiet_notifyResponse: "quiet S st (notifyResponse S c ci a t st)"
  unfolding notifyResponse_def by (rule quiet_trans [OF quiet_log quiet_wait]) (simp add: child_of_def)

lemma quiet_notifyError: "quiet S st (notifyError S c ci a t st)"
  unfolding notifyError_def by (rule quiet_notifyResponse)

lemma wait_in [simp]: "p_in (wait S st) = p_in st"
  by (simp add: wait_def Let_def)

lemma quiet_set_store:
  "(\<And>k. HasTurnEnd (p_store st) (pi_session (p_in st)) k \<Longrightarrow> HasTurnEnd T (pi_session (p_in st)) k) \<Longrightarrow>
   quiet S st (st\<lparr>p_store := T\<rparr>)"
  by (simp add: quiet_def children_def ended_def)

lemma quiet_endTurn: "quiet S st (endTurn S k m st)"
proof -
  have "quiet S (wait S st) ((wait S st)\<lparr>p_store := fst (AppendTurnEnd (p_store (wait S st)) (pi_session (p_in st)) k m)\<rparr>)"
    by (rule quiet_set_store) (simp add: HasTurnEnd_AppendTurnEnd)
  with quiet_wait show ?thesis unfolding endTurn_def by (auto simp: Let_def intro: quiet_trans)
qed

lemma endTurn_ended: "\<not> k_end_err (S (p_clock st)) \<Longrightarrow> ended (endTurn S k m st) k"
  by (simp add: endTurn_def Let_def ended_def HasTurnEnd_AppendTurnEnd)

lemma quiet_CheckTurn: "quiet S st (fst (CheckTurn S k st))"
  by (simp add: CheckTurn_def Let_def quiet_wait)

lemma quiet_PersistContext: "quiet S st (PersistContext S k ms st)"
proof -
  have "quiet S (wait S st) ((wait S st)\<lparr>p_store := AppendMessages (p_store (wait S st)) (pi_session (p_in st)) k 0 ms\<rparr>)"
    by (rule quiet_set_store) (simp add: HasTurnEnd_AppendMessages)
  with quiet_wait show ?thesis unfolding PersistContext_def by (auto simp: Let_def intro: quiet_trans)
qed

lemma quiet_receive: "quiet S st (receive st)"
  by (simp add: quiet_def receive_def children_def ended_def)

lemma quiet_fields:
  "quiet S st (st\<lparr>stops_ch := ks\<rparr>)" "quiet S st (st\<lparr>clears_ch := 0\<rparr>)" "quiet S st (st\<lparr>p_current := c\<rparr>)"
  by (simp_all add: quiet_def children_def ended_def)

lemma quiet_relay: "quiet S st (relay S msg k c ci sg st)"
proof (cases "pm_next msg")
  case Nil
  then show ?thesis by (simp add: relay_def quiet_refl)
next
  case (Cons n ns)
  show ?thesis
  proof (cases "k_err (S (p_clock st))")
    case None
    have "child_of (EvRelay a b d) = []" for a b d by (simp add: child_of_def)
    from quiet_trans [OF quiet_log [OF this] quiet_wait] show ?thesis by (simp add: relay_def Cons None Let_def)
  next
    case (Some e)
    from quiet_trans [OF quiet_trans [OF quiet_wait quiet_endTurn] quiet_notifyError] show ?thesis
      by (simp add: relay_def Cons Some Let_def)
  qed
qed

lemma quiet_sel_step: "quiet S (fst x) (fst (sel_step k x e))"
proof (cases x)
  case (fields st stopped cleared)
  show ?thesis
  proof (cases e)
    case SelMessage
    then show ?thesis by (cases "messages_ch st") (simp_all add: fields quiet_def children_def ended_def)
  next
    case SelStop
    then show ?thesis by (cases "stops_ch st") (simp_all add: fields quiet_refl quiet_fields Let_def)
  next
    case SelClear
    then show ?thesis by (cases "clears_ch st") (simp_all add: fields quiet_refl, simp add: quiet_def children_def ended_def)
  qed
qed

lemma quiet_sel: "quiet S (fst x) (fst (foldl (sel_step k) x es))"
proof (induction es arbitrary: x)
  case (Cons e es)
  from quiet_trans [OF quiet_sel_step Cons.IH] show ?case by simp
qed (simp add: quiet_refl)

lemmas quiet_rules = quiet_notifyTurn quiet_notifyResponse quiet_notifyError quiet_endTurn quiet_PersistContext quiet_relay
  quiet_receive quiet_fields

lemma quiet_D:
  assumes "quiet S st st'"
  shows "p_in st' = p_in st" "p_gone st' = p_gone st" "children st' = children st" "ended st k \<Longrightarrow> ended st' k"
    "turn_key st' m = turn_key st m"
  using assms by (auto simp: quiet_def turn_key_def)

lemma quiet_clear_each: "p_inbox st = [] \<Longrightarrow> quiet S st (clear_each S ms st)"
proof (induction S ms st rule: clear_each.induct)
  case (2 S m ms st)
  show ?case
  proof (cases "pm_id m \<le> 0")
    case False
    let ?st1 = "endTurn S (turn_key st m) (TurnEnd (pi_agent (p_in st)) clearedReason) st"
    let ?st2 = "notifyTurn S (EvTurnDone [] (turn_key st m) [] []) ?st1"
    have q: "quiet S st ?st2"
      by (rule quiet_trans [OF quiet_endTurn quiet_notifyTurn]) (simp add: child_of_def)
    have "p_inbox ?st2 = []" using "2.prems"
      by (simp add: notifyTurn_def log_event_def wait_def endTurn_def Let_def)
    with "2.IH"(2) [OF False refl refl] q False show ?thesis by (auto simp: Let_def intro: quiet_trans)
  qed (use 2 in simp)
qed (simp add: quiet_refl)

lemma clear_each_ended:
  "p_inbox st = [] \<Longrightarrow> (\<And>n. \<not> k_end_err (S n)) \<Longrightarrow> m \<in> set ms \<Longrightarrow> 0 < pm_id m \<Longrightarrow> ended (clear_each S ms st) (turn_key st m)"
proof (induction S ms st rule: clear_each.induct)
  case (2 S m0 ms st)
  show ?case
  proof (cases "pm_id m0 \<le> 0")
    case True
    with 2 show ?thesis by auto
  next
    case False
    let ?st1 = "endTurn S (turn_key st m0) (TurnEnd (pi_agent (p_in st)) clearedReason) st"
    let ?st2 = "notifyTurn S (EvTurnDone [] (turn_key st m0) [] []) ?st1"
    have i: "p_inbox ?st2 = []" using "2.prems"(1)
      by (simp add: notifyTurn_def log_event_def wait_def endTurn_def Let_def)
    have q1: "quiet S ?st1 ?st2" by (rule quiet_notifyTurn) (simp add: child_of_def)
    have q: "quiet S st ?st2" using quiet_trans [OF quiet_endTurn q1] .
    have r: "clear_each S (m0 # ms) st = clear_each S ms ?st2" using False by (simp add: Let_def)
    show ?thesis
    proof (cases "m = m0")
      case True
      have "ended ?st1 (turn_key st m0)" using "2.prems"(2) by (intro endTurn_ended) simp
      with q1 have "ended ?st2 (turn_key st m0)" by (rule quiet_D(4))
      with quiet_clear_each [OF i] have "ended (clear_each S ms ?st2) (turn_key st m0)" by (rule quiet_D(4))
      with True r show ?thesis by simp
    next
      case other: False
      with "2.prems" have "m \<in> set ms" by simp
      from "2.IH"(2) [OF False refl refl i "2.prems"(2) this "2.prems"(4)]
      show ?thesis unfolding r by (simp add: quiet_D(5) [OF q])
    qed
  qed
qed simp

subsection \<open>No message lost, none answered twice\<close>

text \<open>
  \<open>D\<close> is what was delivered at the start. What was delivered since, in order, is what the participant is done
  with, the message in hand, the inbox and what it has not received; the turns started are those of the messages it
  is done with, in that order, and of the one in hand if it runs (\<open>going\<close>); each message it is done with has its
  turn's end, and no turn was started twice.
\<close>

definition pinv :: "schedule \<Rightarrow> pmsg list \<Rightarrow> pmsg list \<Rightarrow> pmsg list \<Rightarrow> pstate \<Rightarrow> bool" where
  "pinv S D going hand st \<longleftrightarrow>
     (\<exists>consumed. D @ arrivals S 0 (p_clock st) = consumed @ hand @ p_inbox st @ messages_ch st
        \<and> subseq (children st) (map (turn_key st) (consumed @ going))
        \<and> (p_gone st \<or> (\<forall>m \<in> set consumed. 0 < pm_id m \<longrightarrow> ended st (turn_key st m))))
     \<and> distinct (children st)
     \<and> (\<forall>k \<in> set (children st). k \<in> turn_key st ` set going \<or> ended st k)
     \<and> ((\<forall>n. k_clears (S n) = 0) \<longrightarrow> clears_ch st = 0)"

lemma turn_key_in: "p_in st' = p_in st \<Longrightarrow> turn_key st' = turn_key st"
  by (simp add: turn_key_def fun_eq_iff)

lemma pinv_quiet:
  assumes i: "pinv S D going hand st" and q: "quiet S st st'"
  shows "pinv S D going hand st'"
proof -
  from i obtain consumed where c: "D @ arrivals S 0 (p_clock st) = consumed @ hand @ p_inbox st @ messages_ch st"
    "subseq (children st) (map (turn_key st) (consumed @ going))"
    "p_gone st \<or> (\<forall>m \<in> set consumed. 0 < pm_id m \<longrightarrow> ended st (turn_key st m))" by (auto simp: pinv_def)
  have k: "turn_key st' = turn_key st" using q by (intro turn_key_in) (simp add: quiet_def)
  have "arrivals S 0 (p_clock st') = arrivals S 0 (p_clock st) @ arrivals S (p_clock st) (p_clock st')"
    using q by (intro arrivals_append [symmetric]) (simp_all add: quiet_def)
  then have "D @ arrivals S 0 (p_clock st') = consumed @ hand @ p_inbox st' @ messages_ch st'"
    using c(1) q by (simp add: quiet_def)
  moreover have "subseq (children st') (map (turn_key st') (consumed @ going))" using c(2) q k by (simp add: quiet_def)
  moreover have "p_gone st' \<or> (\<forall>m \<in> set consumed. 0 < pm_id m \<longrightarrow> ended st' (turn_key st' m))"
    using c(3) q k by (auto simp: quiet_def)
  moreover have "distinct (children st')" "\<forall>k \<in> set (children st'). k \<in> turn_key st' ` set going \<or> ended st' k"
    using i q k by (auto simp: pinv_def quiet_def)
  moreover have "(\<forall>n. k_clears (S n) = 0) \<longrightarrow> clears_ch st' = 0" using i q by (simp add: pinv_def quiet_def)
  ultimately show ?thesis unfolding pinv_def by blast
qed

lemma pinv_consume:
  assumes i: "pinv S D going [m] st" and r: "going = [] \<or> going = [m]"
    and e: "p_gone st \<and> going = [] \<or> pm_id m \<le> 0 \<and> going = [] \<or> ended st (turn_key st m)"
  shows "pinv S D [] [] st"
proof -
  from i obtain consumed where c: "D @ arrivals S 0 (p_clock st) = (consumed @ [m]) @ [] @ p_inbox st @ messages_ch st"
    "subseq (children st) (map (turn_key st) (consumed @ going))"
    "p_gone st \<or> (\<forall>m \<in> set consumed. 0 < pm_id m \<longrightarrow> ended st (turn_key st m))" by (auto simp: pinv_def)
  have "subseq (children st) (map (turn_key st) ((consumed @ [m]) @ []))"
    using c(2) r by (auto intro: subseq_order.trans [OF _ subseq_append_iff [THEN iffD2]] list_emb_append2 simp: subseq_rev_drop_many)
  moreover have "p_gone st \<or> (\<forall>x \<in> set (consumed @ [m]). 0 < pm_id x \<longrightarrow> ended st (turn_key st x))"
    using c(3) e by auto
  moreover have "\<forall>k \<in> set (children st). k \<in> turn_key st ` set [] \<or> ended st k"
    using i r e by (auto simp: pinv_def)
  moreover have "distinct (children st)" "(\<forall>n. k_clears (S n) = 0) \<longrightarrow> clears_ch st = 0" using i by (simp_all add: pinv_def)
  ultimately show ?thesis unfolding pinv_def using c(1) by blast
qed

lemma pinv_pop:
  assumes "pinv S D [] [] st" and "p_inbox st = m # rest"
  shows "pinv S D [] [m] (st\<lparr>p_inbox := rest\<rparr>)"
  using assms by (simp add: pinv_def children_def ended_def turn_key_def [abs_def])

lemma pinv_run:
  assumes i: "pinv S D [] [m] st" and new: "turn_key st m \<notin> set (children st)" and c: "ti_turn c = turn_key st m"
  shows "pinv S D [m] [m] (log_event (EvChild w c) st)"
proof -
  let ?st = "log_event (EvChild w c) st"
  have f: "p_clock ?st = p_clock st" "p_inbox ?st = p_inbox st" "messages_ch ?st = messages_ch st" "p_gone ?st = p_gone st"
    "clears_ch ?st = clears_ch st" "turn_key ?st = turn_key st" "ended ?st = ended st" "children ?st = children st @ [turn_key st m]"
    by (simp_all add: log_event_def turn_key_def [abs_def] ended_def [abs_def] children_def child_of_def c)
  from i obtain consumed where c: "D @ arrivals S 0 (p_clock st) = consumed @ [m] @ p_inbox st @ messages_ch st"
    "subseq (children st) (map (turn_key st) consumed)"
    "p_gone st \<or> (\<forall>m \<in> set consumed. 0 < pm_id m \<longrightarrow> ended st (turn_key st m))" by (auto simp: pinv_def)
  have "subseq (children st @ [turn_key st m]) (map (turn_key st) (consumed @ [m]))"
    using c(2) by (simp add: list_emb_append_mono)
  with i new c show ?thesis unfolding pinv_def f by auto
qed

lemma subseq_appendI: "subseq xs ys \<Longrightarrow> subseq xs (ys @ zs)"
  using list_emb_append_mono [of "(=)" xs ys "[]" zs] by simp

lemma pinv_clear:
  assumes i: "pinv S D [] [] st" and ok: "\<And>n. \<not> k_end_err (S n)"
  shows "pinv S D [] [] (clear S st)"
proof -
  let ?r = "receive st"
  let ?e = "?r\<lparr>p_inbox := []\<rparr>"
  let ?st = "clear_each S (p_inbox ?r) ?e"
  have q: "quiet S ?e ?st" by (rule quiet_clear_each) simp
  have f: "p_clock ?e = p_clock ?r" "messages_ch ?e = []" "p_gone ?e = p_gone ?r" "turn_key ?e = turn_key ?r" "ended ?e = ended ?r"
    "children ?e = children ?r" "p_in ?e = p_in ?r" "p_inbox ?e = []" "messages_ch ?r = []"
    by (simp_all add: turn_key_def [abs_def] ended_def [abs_def] children_def receive_def)
  have ir: "pinv S D [] [] ?r" using pinv_quiet [OF i quiet_receive] .
  from ir obtain consumed where c: "D @ arrivals S 0 (p_clock ?r) = consumed @ p_inbox ?r"
    "subseq (children ?r) (map (turn_key ?r) consumed)"
    "p_gone ?r \<or> (\<forall>m \<in> set consumed. 0 < pm_id m \<longrightarrow> ended ?r (turn_key ?r m))" using f by (auto simp: pinv_def)
  let ?d = "consumed @ p_inbox ?r"
  have k: "turn_key ?st = turn_key ?r" using quiet_D(5) [OF q] f by (simp add: fun_eq_iff)
  have "arrivals S 0 (p_clock ?st) = arrivals S 0 (p_clock ?e) @ arrivals S (p_clock ?e) (p_clock ?st)"
    using q by (intro arrivals_append [symmetric]) (simp_all add: quiet_def)
  moreover have "p_inbox ?st @ messages_ch ?st = arrivals S (p_clock ?e) (p_clock ?st)"
    using q f by (simp add: quiet_def)
  ultimately have 1: "D @ arrivals S 0 (p_clock ?st) = ?d @ [] @ p_inbox ?st @ messages_ch ?st"
    using c(1) f by simp
  have 2: "subseq (children ?st) (map (turn_key ?st) (?d @ []))"
    using c(2) quiet_D(3) [OF q] f k by (simp add: subseq_appendI)
  have "ended ?st (turn_key ?st m)" if "m \<in> set (p_inbox ?r)" "0 < pm_id m" for m
    using clear_each_ended [OF f(8) ok that] k f by simp
  then have 3: "p_gone ?st \<or> (\<forall>m \<in> set ?d. 0 < pm_id m \<longrightarrow> ended ?st (turn_key ?st m))"
    using c(3) quiet_D(2,4) [OF q] f k by auto
  have "distinct (children ?st)" "\<forall>k \<in> set (children ?st). ended ?st k"
    using ir quiet_D(3,4) [OF q] f by (auto simp: pinv_def)
  moreover have "(\<forall>n. k_clears (S n) = 0) \<longrightarrow> clears_ch ?st = 0"
    using ir q by (simp add: pinv_def quiet_def)
  ultimately show ?thesis using 1 2 3 unfolding clear_def Let_def pinv_def by (metis)
qed

lemma runTurn_pinv:
  assumes i: "pinv S D [] [m] st" and new: "turn_key st m \<notin> set (children st)"
    and r: "runTurn S m (turn_key st m) c ci st = (st', x)"
  shows "pinv S D [m] [m] st' \<and> p_in st' = p_in st"
proof -
  obtain w ch y where st': "st' = fst (foldl (sel_step (turn_key st m)) (wait S (log_event (EvChild w ch) st), y) (k_sel (S (p_clock st))))"
    and ch: "ti_turn ch = turn_key st m"
    using r by (auto simp: runTurn_def Let_def split: prod.splits turn_outcome.splits)
      (metis fst_conv turn_input.select_convs(5))+
  have q: "quiet S (log_event (EvChild w ch) st) st'"
    using quiet_trans [OF quiet_wait quiet_sel [of S "(wait S (log_event (EvChild w ch) st), y)", simplified fst_conv]] st' by simp
  from pinv_quiet [OF pinv_run [OF i new ch] q] quiet_D(1) [OF q] show ?thesis by (simp add: log_event_def)
qed

lemma answer_turn_pinv:
  assumes i: "pinv S D [] [m] st" and new: "turn_key st m \<notin> set (children st)" and ok: "\<And>n. \<not> k_end_err (S n)"
  shows "pinv S D [] [] (answer_turn S m (turn_key st m) c ci sg st)"
proof -
  obtain st1 ms ety stopped cleared reason where r: "runTurn S m (turn_key st m) c ci st = (st1, ms, ety, stopped, cleared, reason)"
    by (metis prod_cases6)
  let ?k = "turn_key st m"
  let ?st2 = "if ms \<noteq> [] then PersistContext S ?k ms st1 else st1"
  let ?st3 = "endTurn S ?k (TurnEnd (pi_agent (p_in st)) reason) ?st2"
  let ?st4 = "if stopped then notifyResponse S c ci sg ''Agent interrupted by user.'' ?st3
                 else if ety = AgentNotOpen then
                   (let e = notifyError S c ci sg reason ?st3
                    in if pm_next m \<noteq> [] then relay S m [] c ci sg e else e)
                 else if reason \<noteq> [] then notifyError S c ci sg reason ?st3
                 else if pm_next m \<noteq> [] then relay S m ?k c ci sg ?st3
                 else ?st3"
  from runTurn_pinv [OF i new r] have i1: "pinv S D [m] [m] st1" and in1: "p_in st1 = p_in st" by auto
  have q2: "quiet S st1 ?st2" by (simp add: quiet_PersistContext quiet_refl)
  have q3: "quiet S st1 ?st3" using quiet_trans [OF q2 quiet_endTurn] .
  have e3: "ended ?st3 ?k" by (rule endTurn_ended) (rule ok)
  have k3: "turn_key ?st3 m = ?k" using quiet_D(5) [OF q3] in1 by (simp add: turn_key_def)
  have i3: "pinv S D [] [] ?st3"
    by (rule pinv_consume [OF pinv_quiet [OF i1 q3]]) (simp_all add: k3 e3)
  have q4: "quiet S ?st3 ?st4"
    by (auto simp: Let_def intro: quiet_rules quiet_refl quiet_trans [OF quiet_notifyError quiet_relay])
  have i4: "pinv S D [] [] ?st4" by (rule pinv_quiet [OF i3 q4])
  have "answer_turn S m ?k c ci sg st = (if cleared then clear S ?st4 else ?st4)"
    unfolding answer_turn_def r Let_def by simp
  with i4 pinv_clear [OF i4 ok] show ?thesis by simp
qed

lemma pinv_gone: "pinv S D going hand st \<Longrightarrow> pinv S D going hand (st\<lparr>p_gone := True\<rparr>)"
  by (auto simp: pinv_def children_def ended_def turn_key_def [abs_def])

lemma answer_checked_pinv:
  assumes i: "pinv S D [] [m] st" and ok: "\<And>n. \<not> k_end_err (S n)" and k: "k = turn_key st m"
    and answered: "check = Answered \<Longrightarrow> ended st k" and free: "\<And>name. check = Free name \<Longrightarrow> \<not> ended st k"
  shows "pinv S D [] [] (answer_checked S m k c ci check st)"
proof -
  have end_with: "pinv S D [] [] (f (endTurn S k e st2))" if "quiet S st st2" "\<And>s. quiet S s (f s)" for f e st2
  proof -
    have q: "quiet S st (endTurn S k e st2)" by (rule quiet_trans [OF that(1) quiet_endTurn])
    have "ended (endTurn S k e st2) k" by (rule endTurn_ended) (rule ok)
    then have "pinv S D [] [] (endTurn S k e st2)"
      using quiet_D(5) [OF q] k by (intro pinv_consume [OF pinv_quiet [OF i q]]) simp_all
    then show ?thesis by (rule pinv_quiet) (rule that(2))
  qed
  show ?thesis
  proof (cases check)
    case SessionGone
    have "pinv S D [] [] (st\<lparr>p_gone := True\<rparr>)" using pinv_consume [OF pinv_gone [OF i]] by simp
    with SessionGone show ?thesis by (simp add: answer_checked_def)
  next
    case (CheckFailed e)
    have "pinv S D [] [] (notifyError S c ci x t (endTurn S k e st))" for x t e
      by (rule end_with [OF quiet_refl quiet_notifyError])
    with CheckFailed show ?thesis by (simp add: answer_checked_def Let_def)
  next
    case Answered
    then have "pinv S D [] [] st" using pinv_consume [OF i] answered k by simp
    with Answered show ?thesis by (simp add: answer_checked_def)
  next
    case (Free name)
    obtain st2 stop where s: "stopsFor k st = (st2, stop)" by fastforce
    have q2: "quiet S st st2" using s quiet_fields(1) by (auto simp: stopsFor_def)
    show ?thesis
    proof (cases stop)
      case True
      have "pinv S D [] [] (notifyResponse S c ci x t (endTurn S k e st2))" for x t e
        by (rule end_with [OF q2 quiet_notifyResponse])
      with True Free s show ?thesis by (simp add: answer_checked_def Let_def)
    next
      case False
      let ?st3 = "notifyTurn S (EvTurnStarted name k (pm_user m) (pm_user_name m)) st2"
      have q3: "quiet S st ?st3" by (rule quiet_trans [OF q2 quiet_notifyTurn]) (simp add: child_of_def)
      have "k \<notin> set (children st)" using i free [OF Free] by (auto simp: pinv_def)
      then have new: "turn_key ?st3 m \<notin> set (children ?st3)" using quiet_D(3,5) [OF q3] k by simp
      from answer_turn_pinv [OF pinv_quiet [OF i q3] new ok] quiet_D(5) [OF q3] k Free s False
      show ?thesis by (simp add: answer_checked_def Let_def)
    qed
  qed
qed

lemma CheckTurn_ended:
  "snd (CheckTurn S k st) = Answered \<Longrightarrow> ended (fst (CheckTurn S k st)) k"
  "snd (CheckTurn S k st) = Free name \<Longrightarrow> \<not> ended (fst (CheckTurn S k st)) k"
  by (auto simp: CheckTurn_def Let_def ended_def split: option.splits if_splits)

lemma answer_form:
  assumes "0 < pm_id m"
  shows "\<exists>e st0. child_of e = [] \<and> quiet S st st0 \<and> answer S m st =
    (notifyTurn S e (answer_checked S m (turn_key st m) (fst (reply_channel st m)) (snd (reply_channel st m))
       (snd (CheckTurn S (turn_key st m) st0)) (fst (CheckTurn S (turn_key st m) st0))))\<lparr>p_current := None\<rparr>"
proof -
  define st0 where "st0 = st\<lparr>p_current := Some \<lparr>cm_id = pm_id m, cm_turn = turn_key st m, cm_user = pm_user m, cm_user_name = pm_user_name m\<rparr>\<rparr>"
  have c: "child_of (EvTurnDone a b d e) = []" for a b d e by (simp add: child_of_def)
  have "quiet S st st0" unfolding st0_def by (rule quiet_fields)
  moreover have "\<exists>n. answer S m st = (notifyTurn S (EvTurnDone n (turn_key st m) (pm_user m) (pm_user_name m))
      (answer_checked S m (turn_key st m) (fst (reply_channel st m)) (snd (reply_channel st m))
       (snd (CheckTurn S (turn_key st m) st0)) (fst (CheckTurn S (turn_key st m) st0))))\<lparr>p_current := None\<rparr>"
    using assms unfolding answer_def Let_def st0_def [symmetric] by (simp add: case_prod_beta) blast
  ultimately show ?thesis using c by metis
qed

lemma answer_pinv:
  assumes i: "pinv S D [] [m] st" and ok: "\<And>n. \<not> k_end_err (S n)"
  shows "pinv S D [] [] (answer S m st)"
proof (cases "pm_id m \<le> 0")
  case True
  then show ?thesis using pinv_consume [OF i] by (simp add: answer_def)
next
  case False
  let ?k = "turn_key st m"
  from False answer_form [of m S st] obtain e st0 where e: "child_of e = []" and q0: "quiet S st st0"
    and a: "answer S m st = (notifyTurn S e (answer_checked S m ?k (fst (reply_channel st m)) (snd (reply_channel st m))
       (snd (CheckTurn S ?k st0)) (fst (CheckTurn S ?k st0))))\<lparr>p_current := None\<rparr>" by auto
  have q1: "quiet S st (fst (CheckTurn S ?k st0))" by (rule quiet_trans [OF q0 quiet_CheckTurn])
  have "pinv S D [] [] (answer_checked S m ?k (fst (reply_channel st m)) (snd (reply_channel st m))
       (snd (CheckTurn S ?k st0)) (fst (CheckTurn S ?k st0)))"
    by (rule answer_checked_pinv [OF pinv_quiet [OF i q1] ok])
      (simp_all add: quiet_D(5) [OF q1] CheckTurn_ended)
  then show ?thesis unfolding a
    by (rule pinv_quiet [OF _ quiet_trans [OF quiet_notifyTurn [OF e] quiet_fields(3)]])
qed

lemma round_pinv:
  assumes i: "pinv S D [] [] st" and ok: "\<And>n. \<not> k_end_err (S n)"
  shows "pinv S D [] [] (fst (participant_round S st))"
proof -
  let ?st2 = "(receive st)\<lparr>clears_ch := 0\<rparr>"
  let ?st3 = "if 0 < clears_ch (receive st) then clear S ?st2 else ?st2"
  have "pinv S D [] [] ?st2" by (rule pinv_quiet [OF i quiet_trans [OF quiet_receive quiet_fields(2)]])
  then have i3: "pinv S D [] [] ?st3" using pinv_clear [OF _ ok] by simp
  have stop: "pinv S D [] [] (?st3\<lparr>stops_ch := []\<rparr>)" by (rule pinv_quiet [OF i3 quiet_fields(1)])
  show ?thesis
  proof (cases "p_inbox ?st3")
    case Nil
    with stop show ?thesis by (simp add: participant_round_def Let_def)
  next
    case (Cons m rest)
    have "pinv S D [] [] (answer S m (?st3\<lparr>p_inbox := rest\<rparr>))" by (rule answer_pinv [OF pinv_pop [OF i3 Cons] ok])
    with stop Cons show ?thesis by (simp add: participant_round_def Let_def)
  qed
qed

lemma run_pinv:
  assumes ok: "\<And>n. \<not> k_end_err (S n)"
  shows "pinv S D [] [] st \<Longrightarrow> pinv S D [] [] (fst (ParticipantWorkflow S n st))"
proof (induction n arbitrary: st)
  case (Suc n)
  obtain st' r where r: "participant_round S st = (st', r)" by fastforce
  have "pinv S D [] [] st'" using round_pinv [OF Suc.prems ok] r by simp
  with Suc.IH r show ?case by (cases r) auto
qed simp

lemma start_pinv: "pinv S (pi_inbox input @ signals) [] [] (start_participant input signals T)"
  by (simp add: pinv_def start_participant_def children_def)

subsection \<open>A participant left alone ends\<close>

text \<open>What a step may do to the messages waiting: take from their front, and append those that arrive.\<close>

definition drops :: "schedule \<Rightarrow> pstate \<Rightarrow> pstate \<Rightarrow> bool" where
  "drops S st st' \<longleftrightarrow> p_clock st \<le> p_clock st'
     \<and> (\<exists>d. p_inbox st @ messages_ch st @ arrivals S (p_clock st) (p_clock st') = d @ p_inbox st' @ messages_ch st')"

lemma drops_quiet: "quiet S st st' \<Longrightarrow> drops S st st'"
  by (auto simp: drops_def quiet_def intro: exI [of _ "[]"])

lemma drops_trans [trans]:
  assumes "drops S st st'" and "drops S st' st''"
  shows "drops S st st''"
proof -
  from assms obtain d d' where
    d: "p_inbox st @ messages_ch st @ arrivals S (p_clock st) (p_clock st') = d @ p_inbox st' @ messages_ch st'"
    and d': "p_inbox st' @ messages_ch st' @ arrivals S (p_clock st') (p_clock st'') = d' @ p_inbox st'' @ messages_ch st''"
    and c: "p_clock st \<le> p_clock st'" "p_clock st' \<le> p_clock st''" by (auto simp: drops_def)
  have "p_inbox st @ messages_ch st @ arrivals S (p_clock st) (p_clock st'')
    = (p_inbox st @ messages_ch st @ arrivals S (p_clock st) (p_clock st')) @ arrivals S (p_clock st') (p_clock st'')"
    using arrivals_append [OF c] by (metis append.assoc)
  also have "\<dots> = (d @ d') @ p_inbox st'' @ messages_ch st''" unfolding d using d' by simp
  finally show ?thesis using c unfolding drops_def by (meson order_trans)
qed

lemma drops_log: "drops S st (log_event e st)"
  by (simp add: drops_def log_event_def)

lemma drops_clear: "drops S st (clear S st)"
proof -
  let ?e = "(receive st)\<lparr>p_inbox := []\<rparr>"
  have "drops S st ?e" by (simp add: drops_def receive_def)
  moreover have "drops S ?e (clear S st)"
    unfolding clear_def Let_def by (rule drops_quiet [OF quiet_clear_each]) simp
  ultimately show ?thesis by (rule drops_trans)
qed

lemma drops_runTurn:
  assumes r: "runTurn S m k c ci st = (st', x)"
  shows "drops S st st'"
proof -
  obtain w ch y where st': "st' = fst (foldl (sel_step k) (wait S (log_event (EvChild w ch) st), y) (k_sel (S (p_clock st))))"
    using r by (auto simp: runTurn_def Let_def split: prod.splits turn_outcome.splits) (metis fst_conv)+
  have "quiet S (log_event (EvChild w ch) st) st'"
    using quiet_trans [OF quiet_wait quiet_sel [of S "(wait S (log_event (EvChild w ch) st), y)", simplified fst_conv]] st' by simp
  with drops_log show ?thesis by (blast intro: drops_trans drops_quiet)
qed

lemma drops_answer_turn: "drops S st (answer_turn S m k c ci sg st)"
proof -
  obtain st1 ms ety stopped cleared reason where r: "runTurn S m k c ci st = (st1, ms, ety, stopped, cleared, reason)"
    by (metis prod_cases6)
  obtain st4 where a: "answer_turn S m k c ci sg st = (if cleared then clear S st4 else st4)" and q: "quiet S st1 st4"
  proof -
    let ?st3 = "endTurn S k (TurnEnd (pi_agent (p_in st)) reason) (if ms \<noteq> [] then PersistContext S k ms st1 else st1)"
    let ?st4 = "if stopped then notifyResponse S c ci sg ''Agent interrupted by user.'' ?st3
                 else if ety = AgentNotOpen then
                   (let e = notifyError S c ci sg reason ?st3
                    in if pm_next m \<noteq> [] then relay S m [] c ci sg e else e)
                 else if reason \<noteq> [] then notifyError S c ci sg reason ?st3
                 else if pm_next m \<noteq> [] then relay S m k c ci sg ?st3
                 else ?st3"
    have "quiet S st1 ?st3" by (auto intro: quiet_trans quiet_rules)
    moreover have "quiet S ?st3 ?st4"
      by (auto simp: Let_def intro: quiet_rules quiet_refl quiet_trans [OF quiet_notifyError quiet_relay])
    ultimately have "quiet S st1 ?st4" by (rule quiet_trans)
    moreover have "answer_turn S m k c ci sg st = (if cleared then clear S ?st4 else ?st4)"
      unfolding answer_turn_def r Let_def by simp
    ultimately show ?thesis using that by blast
  qed
  have "drops S st st4" using drops_trans [OF drops_runTurn [OF r] drops_quiet [OF q]] .
  then show ?thesis unfolding a using drops_trans [OF _ drops_clear] by simp
qed

lemma drops_answer_checked: "drops S st (answer_checked S m k c ci check st)"
proof (cases check)
  case SessionGone
  then show ?thesis by (simp add: answer_checked_def drops_def)
next
  case (CheckFailed e)
  have "drops S st (notifyError S c ci x t (endTurn S k e st))" for x t e
    by (rule drops_quiet [OF quiet_trans [OF quiet_endTurn quiet_notifyError]])
  with CheckFailed show ?thesis by (simp add: answer_checked_def Let_def)
next
  case Answered
  then show ?thesis by (simp add: answer_checked_def drops_quiet quiet_refl)
next
  case (Free name)
  obtain st2 stop where s: "stopsFor k st = (st2, stop)" by fastforce
  have q2: "quiet S st st2" using s quiet_fields(1) by (auto simp: stopsFor_def)
  have 1: "drops S st (notifyResponse S c ci x t (endTurn S k e st2))" for x t e
    by (rule drops_quiet [OF quiet_trans [OF q2 quiet_trans [OF quiet_endTurn quiet_notifyResponse]]])
  have "quiet S st2 (notifyTurn S (EvTurnStarted a b d e) st2)" for a b d e by (rule quiet_notifyTurn) (simp add: child_of_def)
  then have 2: "drops S st (answer_turn S m k c ci x (notifyTurn S (EvTurnStarted a b d e) st2))" for x a b d e
    by (intro drops_trans [OF drops_quiet [OF quiet_trans [OF q2]] drops_answer_turn])
  from 1 2 Free s show ?thesis by (simp add: answer_checked_def Let_def)
qed

lemma drops_answer: "drops S st (answer S m st)"
proof (cases "pm_id m \<le> 0")
  case True
  then show ?thesis by (simp add: answer_def drops_quiet quiet_refl)
next
  case False
  with answer_form [of m S st] obtain e st0 where e: "child_of e = []" and q0: "quiet S st st0"
    and a: "answer S m st = (notifyTurn S e (answer_checked S m (turn_key st m) (fst (reply_channel st m)) (snd (reply_channel st m))
       (snd (CheckTurn S (turn_key st m) st0)) (fst (CheckTurn S (turn_key st m) st0))))\<lparr>p_current := None\<rparr>" by auto
  have "drops S st (fst (CheckTurn S (turn_key st m) st0))" by (rule drops_quiet [OF quiet_trans [OF q0 quiet_CheckTurn]])
  from drops_trans [OF drops_trans [OF this drops_answer_checked] drops_quiet [OF quiet_trans [OF quiet_notifyTurn [OF e] quiet_fields(3)]]]
  show ?thesis unfolding a .
qed

lemma drops_queued: "(\<And>n. k_messages (S n) = []) \<Longrightarrow> drops S st st' \<Longrightarrow> queued st' \<le> queued st"
proof -
  assume none: "\<And>n. k_messages (S n) = []" and d: "drops S st st'"
  have "arrivals S a b = []" for a b by (simp add: arrivals_def none)
  with d obtain d where "p_inbox st @ messages_ch st = d @ p_inbox st' @ messages_ch st'" by (auto simp: drops_def)
  from arg_cong [OF this, of length] show ?thesis by (simp add: queued_def)
qed

lemma round_queued:
  assumes none: "\<And>n. k_messages (S n) = []" and r: "participant_round S st = (st', Running)"
  shows "queued st' < queued st"
proof -
  let ?st2 = "(receive st)\<lparr>clears_ch := 0\<rparr>"
  let ?st3 = "if 0 < clears_ch (receive st) then clear S ?st2 else ?st2"
  have "drops S st ?st2" by (rule drops_quiet [OF quiet_trans [OF quiet_receive quiet_fields(2)]])
  then have "drops S st ?st3" using drops_trans [OF _ drops_clear] by simp
  then have q3: "queued ?st3 \<le> queued st" by (rule drops_queued [OF none])
  from r obtain m rest where m: "p_inbox ?st3 = m # rest" and st': "st' = answer S m (?st3\<lparr>p_inbox := rest\<rparr>)"
    unfolding participant_round_def Let_def by (cases "p_inbox ?st3") (auto split: if_splits)
  have "queued st' \<le> queued (?st3\<lparr>p_inbox := rest\<rparr>)" unfolding st' by (rule drops_queued [OF none drops_answer])
  also have "\<dots> < queued ?st3" using m by (simp add: queued_def)
  finally show ?thesis using q3 by simp
qed

lemma workflow_inbox:
  "ParticipantWorkflow S n st = (st', Closed) \<Longrightarrow> \<not> p_gone st' \<Longrightarrow> p_inbox st' = []"
  "ParticipantWorkflow S n st = (st', Continued inp) \<Longrightarrow> pi_inbox inp = p_inbox st'"
  by (induction n arbitrary: st)
    (auto simp: participant_round_def Let_def split: prod.splits presult.splits list.splits if_splits)

lemma round_channel:
  assumes "participant_round S st = (st', r)" and "r \<noteq> Running" and "clears_ch st = 0"
  shows "messages_ch st' = []"
  using assms by (auto simp: participant_round_def Let_def receive_def split: list.splits if_splits)

lemma workflow_channel:
  assumes ok: "\<And>n. \<not> k_end_err (S n)" and none: "\<And>n. k_clears (S n) = 0"
  shows "pinv S D [] [] st \<Longrightarrow> ParticipantWorkflow S n st = (st', r) \<Longrightarrow> r \<noteq> Running \<Longrightarrow> messages_ch st' = []"
proof (induction n arbitrary: st)
  case (Suc n)
  obtain st1 r1 where r1: "participant_round S st = (st1, r1)" by fastforce
  have c: "clears_ch st = 0" using Suc.prems(1) none by (simp add: pinv_def)
  show ?case
  proof (cases "r1 = Running")
    case True
    have "pinv S D [] [] st1" using round_pinv [OF Suc.prems(1) ok] r1 by simp
    with Suc.IH Suc.prems(2,3) r1 True show ?thesis by simp
  next
    case False
    with Suc.prems(2) r1 have "st' = st1" by (cases r1) auto
    with round_channel [OF r1 False c] show ?thesis by simp
  qed
qed simp

lemma sel_stops:
  assumes "foldl (sel_step k) (st, stopped, cleared) es = (st', True, cleared')" and "\<not> stopped"
  shows "0 < clears_ch st \<or> (\<exists>x \<in> set (stops_ch st). x = [] \<or> x = k)"
  using assms
proof (induction es arbitrary: st stopped cleared)
  case (Cons e es)
  obtain st1 s1 c1 where s: "sel_step k (st, stopped, cleared) e = (st1, s1, c1)" by (metis prod_cases3)
  show ?case
  proof (cases s1)
    case True
    with s Cons.prems(2) show ?thesis
      by (cases e) (auto simp: Let_def split: list.splits nat.splits if_splits)
  next
    case False
    with Cons.IH [of st1 s1 c1] Cons.prems(1) s have "0 < clears_ch st1 \<or> (\<exists>x \<in> set (stops_ch st1). x = [] \<or> x = k)" by simp
    moreover have "clears_ch st1 \<le> clears_ch st \<and> set (stops_ch st1) \<subseteq> set (stops_ch st)"
      using s by (cases e) (auto simp: Let_def split: list.splits nat.splits if_splits)
    ultimately show ?thesis by auto
  qed
qed simp

subsection \<open>A schedule\<close>

definition ex_msg :: "int \<Rightarrow> pmsg" where
  "ex_msg i = \<lparr>pm_id = i, pm_user = [], pm_user_name = [], pm_next = [], pm_earlier = [], pm_sign = False, pm_channel = [],
     pm_channel_id = [], pm_part = None\<rparr>"

definition ex_input :: pinput where
  "ex_input = \<lparr>pi_session = ''s'', pi_agent = ''a'', pi_channel = [], pi_channel_id = [], pi_inbox = []\<rparr>"

definition ex_tick :: tick where
  "ex_tick = \<lparr>k_messages = [], k_stops = [], k_clears = 0, k_writes = [], k_err = None, k_end_err = False,
     k_session_gone = False, k_agent = Some ''A'', k_sel = [], k_turn = TurnEnded [] [] [], k_large = False\<rparr>"

definition ex_quiet :: schedule where
  "ex_quiet n = ex_tick"

definition ex_cleared :: pstate where
  "ex_cleared = (start_participant ex_input [ex_msg 2] empty_table)\<lparr>clears_ch := 1\<rparr>"

definition ex_late :: schedule where
  "ex_late n = (if n = 0 then ex_tick\<lparr>k_messages := [ex_msg 3]\<rparr> else ex_tick)"

section \<open>Properties\<close>



text \<open>C2: When no clear was asked for, a participant that ends without being continued, its session there, has
  written the end of a turn for every message delivered to it: none is left in its inbox or in its channel.\<close>

theorem participant_closes_with_all_answered:
  assumes "\<And>n. \<not> k_end_err (S n)" and "\<And>n. k_clears (S n) = 0"
    and "ParticipantWorkflow S n (start_participant input signals T) = (st, Closed)" and "\<not> p_gone st"
  shows "\<forall>m \<in> set (pi_inbox input @ signals @ arrivals S 0 (p_clock st)). 0 < pm_id m \<longrightarrow> ended st (turn_key st m)"
proof -
  from run_pinv [where S = S and n = n, OF assms(1) start_pinv [of S input signals T]] assms(3) have i: "pinv S (pi_inbox input @ signals) [] [] st" by simp
  have "messages_ch st = []" by (rule workflow_channel [OF assms(1,2) start_pinv assms(3)]) simp
  with i workflow_inbox(1) [OF assms(3,4)] assms(4) show ?thesis by (auto simp: pinv_def)
qed

theorem participant_closes_with_all_answered_witness:
  "\<exists>st. ParticipantWorkflow ex_quiet 2 (start_participant ex_input [ex_msg 1] empty_table) = (st, Closed) \<and> ended st (turn_key st (ex_msg 1))"
proof -
  let ?w = "ParticipantWorkflow ex_quiet 2 (start_participant ex_input [ex_msg 1] empty_table)"
  obtain st r where p: "?w = (st, r)" by fastforce
  have e: "\<not> k_end_err (ex_quiet n)" "k_clears (ex_quiet n) = 0" "k_messages (ex_quiet n) = []" for n
    by (simp_all add: ex_quiet_def ex_tick_def)
  have "snd ?w = Closed \<and> \<not> p_gone (fst ?w)"
    by (simp add: numeral_2_eq_2 participant_round_def start_participant_def receive_def Let_def ex_msg_def ex_input_def answer_def
        reply_channel_def CheckTurn_def answer_checked_def answer_turn_def runTurn_def stopsFor_def AgentNotOpen_def
        endTurn_def notifyTurn_def log_event_def wait_def ex_quiet_def ex_tick_def turn_key_def AppendTurnEnd_def AppendMessage_def
        insert_row_def find_row_def empty_table_def HasTurnEnd_def)
  with p have "?w = (st, Closed)" "\<not> p_gone st" by simp_all
  from participant_closes_with_all_answered [OF e(1,2) this] show ?thesis using \<open>?w = (st, Closed)\<close>
    by (auto simp: ex_msg_def)
qed

text \<open>C3: A participant to which nothing more is delivered ends: within one round more than the messages it has
  waiting, it returns or continues as new, however its turns, its checks and its writes went.\<close>

theorem participant_ends:
  assumes "\<And>n. k_messages (S n) = []"
  shows "queued st < n \<Longrightarrow> snd (ParticipantWorkflow S n st) \<noteq> Running"
proof (induction n arbitrary: st)
  case (Suc n)
  obtain st' r where r: "participant_round S st = (st', r)" by fastforce
  show ?case
  proof (cases "r = Running")
    case True
    with round_queued [OF assms] r Suc.prems have "queued st' < n" by fastforce
    with Suc.IH r True show ?thesis by simp
  next
    case False
    with r show ?thesis by (cases r) simp_all
  qed
qed simp

theorem participant_ends_witness:
  "snd (ParticipantWorkflow ex_quiet 2 (start_participant ex_input [ex_msg 1] empty_table)) \<noteq> Running"
  by (rule participant_ends) (simp_all add: ex_quiet_def ex_tick_def queued_def start_participant_def ex_input_def)

text \<open>A stop reaches no turn but its own: a turn reported stopped received a stop that names it or names none,
  or a clear; and a stop that came before the turn started stops it only if it names it.\<close>

theorem stop_reaches_only_its_turn:
  assumes "runTurn S m k channel channelID st = (st1, ms, typ, stopped, cleared, reason)"
  shows "(stopped \<longrightarrow> 0 < clears_ch st + k_clears (S (p_clock st))
        \<or> (\<exists>x \<in> set (stops_ch st @ k_stops (S (p_clock st))). x = [] \<or> x = k))
    \<and> (stopped \<longrightarrow> reason = [])
    \<and> (snd (stopsFor k st) \<longleftrightarrow> k \<in> set (stops_ch st))"
proof -
  obtain w ch where f: "foldl (sel_step k) (wait S (log_event (EvChild w ch) st), False, False) (k_sel (S (p_clock st))) = (st1, stopped, cleared)"
    using assms by (auto simp: runTurn_def Let_def split: prod.splits turn_outcome.splits)
  have "stopped \<longrightarrow> reason = []"
    using assms by (auto simp: runTurn_def Let_def split: prod.splits turn_outcome.splits)
  moreover have "stopped \<longrightarrow> 0 < clears_ch st + k_clears (S (p_clock st))
        \<or> (\<exists>x \<in> set (stops_ch st @ k_stops (S (p_clock st))). x = [] \<or> x = k)"
    using sel_stops [of k _ False False _ st1 cleared] f
    by (cases stopped) (fastforce simp: wait_def log_event_def Let_def)+
  ultimately show ?thesis by (auto simp: stopsFor_def list_ex_iff)
qed

theorem stop_reaches_only_its_turn_witness:
  "\<exists>st1 ms typ stopped cleared reason.
     runTurn ex_quiet (ex_msg 1) ''m1.a'' [] [] ((start_participant ex_input [] empty_table)\<lparr>stops_ch := [''m1.b'']\<rparr>)
       = (st1, ms, typ, stopped, cleared, reason) \<and> \<not> stopped"
proof -
  let ?st = "(start_participant ex_input [] empty_table)\<lparr>stops_ch := [''m1.b'']\<rparr>"
  obtain st1 ms ety stopped cleared reason where
    r: "runTurn ex_quiet (ex_msg 1) ''m1.a'' [] [] ?st = (st1, ms, ety, stopped, cleared, reason)" by (metis prod_cases6)
  have "\<not> stopped" using stop_reaches_only_its_turn [OF r] by (simp add: start_participant_def ex_quiet_def ex_tick_def)
  with r show ?thesis by blast
qed

text \<open>C4: A clear found between two turns ends the run, and the run ends without the messages delivered while it
  ended the turns it dropped: they are left in the channel, in no inbox, and get no answer.\<close>

theorem clear_between_turns_leaves_messages:
  assumes "0 < clears_ch st" and "participant_round S st = (st', r)"
  shows "r = Closed \<and> p_inbox st' = [] \<and> messages_ch st' = arrivals S (p_clock st) (p_clock st')"
proof -
  let ?e = "(receive ((receive st)\<lparr>clears_ch := 0\<rparr>))\<lparr>p_inbox := []\<rparr>"
  let ?c = "clear S ((receive st)\<lparr>clears_ch := 0\<rparr>)"
  have q: "quiet S ?e ?c" unfolding clear_def Let_def by (rule quiet_clear_each) simp
  have i: "p_inbox (clear_each S ms u) = p_inbox u" for ms u
    by (induction S ms u rule: clear_each.induct)
      (simp_all add: Let_def notifyTurn_def log_event_def wait_def endTurn_def)
  have inbox: "p_inbox ?c = []" by (simp add: clear_def Let_def i)
  with q have "messages_ch ?c = arrivals S (p_clock st) (p_clock ?c)" by (simp add: quiet_def receive_def)
  with assms inbox show ?thesis by (auto simp: participant_round_def Let_def receive_def split: list.splits if_splits)
qed

theorem clear_between_turns_leaves_messages_witness:
  "\<exists>st'. participant_round ex_late ex_cleared = (st', Closed) \<and> messages_ch st' = [ex_msg 3] \<and> \<not> ended st' (turn_key st' (ex_msg 3))"
proof -
  obtain st' r where p: "participant_round ex_late ex_cleared = (st', r)" by fastforce
  have "0 < clears_ch ex_cleared" by (simp add: ex_cleared_def)
  from clear_between_turns_leaves_messages [OF this p] have r: "r = Closed"
    and m: "messages_ch st' = arrivals ex_late 0 (p_clock st')" by (simp_all add: ex_cleared_def start_participant_def)
  have "p_clock (fst (participant_round ex_late ex_cleared)) = 2 \<and> rows (p_store (fst (participant_round ex_late ex_cleared))) =
      [\<lparr>r_session = ''s'', r_id = 1, r_key = TurnEndKey (TurnKey 2 ''a''), r_data = TurnEnd ''a'' clearedReason\<rparr>]
      \<and> p_in (fst (participant_round ex_late ex_cleared)) = ex_input"
    by (simp add: participant_round_def ex_cleared_def start_participant_def receive_def clear_def Let_def ex_msg_def ex_input_def
        endTurn_def notifyTurn_def log_event_def wait_def ex_late_def ex_tick_def turn_key_def AppendTurnEnd_def AppendMessage_def
        insert_row_def find_row_def empty_table_def)
  with p have c: "p_clock st' = 2" and rs: "rows (p_store st') =
      [\<lparr>r_session = ''s'', r_id = 1, r_key = TurnEndKey (TurnKey 2 ''a''), r_data = TurnEnd ''a'' clearedReason\<rparr>]"
    and i: "p_in st' = ex_input" by simp_all
  have "arrivals ex_late 0 2 = [ex_msg 3]" by (simp add: arrivals_def ex_late_def ex_tick_def numeral_2_eq_2)
  moreover have "\<not> ended st' (turn_key st' (ex_msg 3))"
    by (simp add: ended_def HasTurnEnd_def find_row_def rs turn_key_def i ex_input_def ex_msg_def TurnEndKey_def TurnKey_def)
  ultimately show ?thesis using p r m c by simp
qed

end
