(* ===== verification/LLMRoute.thy ===== *)
theory LLMRoute
  imports Messages "HOL-Library.Word"
begin

section \<open>Where a turn's model runs\<close>

text \<open>
  \<open>workflow/agent_llm.go\<close>: a turn of an agent set to prefer or require runs its model on a machine of its author,
  chosen at its start; each step is tried on that machine, then, according to the agent's setting, on the server's key
  or on another machine. The state is the route, the clock of the workflow's waits, whether its context is cancelled,
  and a log of what it called. An activity's outcome, and whether the context is cancelled by the end of a wait, come
  from a schedule; an activity or a sleep on a cancelled context fails at once. Durations are in nanoseconds, as
  \<open>time.Duration\<close>; an API's wait is read at its width (64 bits, wrapping).
\<close>

subsection \<open>Errors\<close>

text \<open>
  What an activity's or a child's error is to this code: a timeout of Temporal (no heartbeat, no worker took it, it ran
  too long), a termination, an application error with its type, its message and the wait its details carry
  (milliseconds, if any), a cancellation, or anything else. The texts are without Temporal's envelope.
\<close>

datatype call_error =
    HeartbeatTimeout string
  | ScheduleToStartTimeout string
  | StartToCloseTimeout string
  | Terminated string
  | AppError string string "int option"
  | CanceledError string
  | OtherError string

definition ErrTypeUnreachable :: string where "ErrTypeUnreachable = ''MachineUnreachable''"
definition ErrTypeContextTooLong :: string where "ErrTypeContextTooLong = ''ContextTooLong''"
definition ErrTypePermanentAPI :: string where "ErrTypePermanentAPI = ''PermanentAPIError''"
definition ErrTypeRetryAfter :: string where "ErrTypeRetryAfter = ''RetryAfterError''"
definition ErrTypeHandoffFailed :: string where "ErrTypeHandoffFailed = ''HandoffFailed''"
definition ErrTypeNoGateway :: string where "ErrTypeNoGateway = ''WorkerNoGateway''"
definition ErrTypeRevoked :: string where "ErrTypeRevoked = ''MachineRevoked''"
definition ErrTypeStopping :: string where "ErrTypeStopping = ''MachineStopping''"
definition ErrTypeLost :: string where "ErrTypeLost = ''DirectiveLost''"
definition ErrTypeRefused :: string where "ErrTypeRefused = ''DirectiveRefused''"
definition ErrTypeMachineRequired :: string where "ErrTypeMachineRequired = ''MachineRequired''"

definition is_canceled :: "call_error \<Rightarrow> bool" where
  "is_canceled err = (case err of CanceledError _ \<Rightarrow> True | _ \<Rightarrow> False)"

definition hasErrorType :: "call_error \<Rightarrow> string \<Rightarrow> bool" where
  "hasErrorType err t = (case err of AppError t' _ _ \<Rightarrow> t' = t | _ \<Rightarrow> False)"

definition MachineRequiredMessage :: string where
  "MachineRequiredMessage =
     ''Cet agent fait tourner son mod'' @ [CHR 0xC3, CHR 0xA8] @ ''le sur la machine de l'' @ [CHR 0x27]
     @ ''auteur du message seulement, et aucune de tes machines n'' @ [CHR 0x27]
     @ ''en offre un en ce moment : lance agent connect avec ton mod'' @ [CHR 0xC3, CHR 0xA8]
     @ ''le (--llm-provider, --llm-model, AGENT_CONNECT_LLM_API_KEY), puis renvoie ton message.''"

definition MachinesOffMessage :: string where
  "MachinesOffMessage =
     ''Cet agent fait tourner son mod'' @ [CHR 0xC3, CHR 0xA8] @ ''le sur la machine de l'' @ [CHR 0x27]
     @ ''auteur du message seulement, et les machines sont d'' @ [CHR 0xC3, CHR 0xA9] @ ''sactiv''
     @ [CHR 0xC3, CHR 0xA9] @ ''es sur cette installation (MACHINES_ENABLED=false) : un admin doit le r''
     @ [CHR 0xC3, CHR 0xA9] @ ''gler sur '' @ [CHR 0xC2, CHR 0xAB] @ '' jamais '' @ [CHR 0xC2, CHR 0xBB]
     @ '' ou '' @ [CHR 0xC2, CHR 0xAB] @ '' de pr'' @ [CHR 0xC3, CHR 0xA9] @ ''f'' @ [CHR 0xC3, CHR 0xA9]
     @ ''rence '' @ [CHR 0xC2, CHR 0xBB] @ '' dans /admin.''"

definition ServerUnreachableMessage :: string where
  "ServerUnreachableMessage =
     ''Cet agent fait tourner son mod'' @ [CHR 0xC3, CHR 0xA8] @ ''le sur la machine de l'' @ [CHR 0x27]
     @ ''auteur du message seulement, et le serveur n'' @ [CHR 0x27]
     @ ''a pas pu joindre la passerelle des machines (red'' @ [CHR 0xC3, CHR 0xA9]
     @ ''marrage ou panne du serveur) : ta machine n'' @ [CHR 0x27]
     @ ''y est pour rien, renvoie ton message dans un instant.''"

datatype failure_kind = FailurePassing | FailureFinal | FailureMachine | FailureRefused | FailureWorker

definition machineFailure :: "call_error \<Rightarrow> failure_kind \<times> bool" where
  "machineFailure err =
     (case err of
        HeartbeatTimeout _ \<Rightarrow> (FailureMachine, True)
      | AppError t _ _ \<Rightarrow>
          if t = ErrTypePermanentAPI \<or> t = ErrTypeContextTooLong then (FailureFinal, False)
          else if t = ErrTypeUnreachable \<or> t = ErrTypeStopping \<or> t = ErrTypeRevoked then (FailureMachine, True)
          else if t = ErrTypeLost \<or> t = ErrTypeHandoffFailed then (FailureMachine, False)
          else if t = ErrTypeRefused then (FailureRefused, False)
          else if t = ErrTypeNoGateway then (FailureWorker, False)
          else (FailurePassing, False)
      | _ \<Rightarrow> (FailurePassing, False))"

subsection \<open>Waits\<close>

definition second :: int where "second = 1000000000"
definition machineLLMAttempts :: nat where "machineLLMAttempts = 6"
definition machineLLMFirstWait :: int where "machineLLMFirstWait = 5 * second"
definition machineLLMMaxWait :: int where "machineLLMMaxWait = 120 * second"
definition machineLLMAbsurdWait :: int where "machineLLMAbsurdWait = 3600 * second"

text \<open>\<open>time.Duration(ms) * time.Millisecond\<close>: 64 bits, wrapping.\<close>

definition RetryAfter :: "int \<Rightarrow> int" where
  "RetryAfter ms = sint (of_int ms * of_int 1000000 :: 64 word)"

fun grow_wait :: "nat \<Rightarrow> int \<Rightarrow> int" where
  "grow_wait 0 w = w"
| "grow_wait (Suc n) w = (if w < machineLLMMaxWait then grow_wait n (3 * w) else w)"

definition retryWait :: "call_error \<Rightarrow> nat \<Rightarrow> int" where
  "retryWait err attempt =
     (let policy = min (grow_wait (attempt - 1) machineLLMFirstWait) machineLLMMaxWait
      in case err of
           AppError t _ (Some ms) \<Rightarrow>
             if t = ErrTypeRetryAfter \<and> 0 < RetryAfter ms \<and> RetryAfter ms \<le> machineLLMAbsurdWait
             then min (RetryAfter ms) machineLLMMaxWait else policy
         | _ \<Rightarrow> policy)"

subsection \<open>The route\<close>

record llm_machine =
  lm_id :: string
  lm_name :: string
  lm_model :: string

record llm_response =
  rp_content :: string
  rp_calls :: "tool_call list"
  rp_stop :: string
  rp_model :: string
  rp_usage :: "usage option"
  rp_memory_version :: "int option"
  rp_memory_unread :: bool

definition empty_response :: llm_response where
  "empty_response = \<lparr>rp_content = [], rp_calls = [], rp_stop = [], rp_model = [], rp_usage = None,
     rp_memory_version = None, rp_memory_unread = False\<rparr>"

record choose_output =
  co_machine :: "llm_machine option"
  co_off :: bool

datatype route_event =
    CalledServer nat
  | CalledMachine string nat nat
  | AskedMachine "string list"
  | SetAside string
  | Note string

record route =
  rt_mode :: string
  rt_machine :: "llm_machine option"
  rt_excluded :: "string list"
  rt_off :: bool
  rt_unreached :: "string list"
  rt_noting :: bool
  rt_noted :: bool
  rt_participant :: string
  rt_agent :: string
  rt_clock :: nat
  rt_cancelled :: bool
  rt_log :: "route_event list"

text \<open>One wait of the workflow: what the activity waited for gives (the choice of a machine, for the
  machines excluded), and whether the context is cancelled by then.\<close>

record rtick =
  rk_cancel :: bool
  rk_llm :: "(call_error, llm_response) result"
  rk_choose :: "string list \<Rightarrow> (call_error, choose_output) result"

type_synonym rschedule = "nat \<Rightarrow> rtick"

definition rwait :: "rschedule \<Rightarrow> route_event list \<Rightarrow> route \<Rightarrow> route" where
  "rwait E es r = r\<lparr>rt_clock := Suc (rt_clock r), rt_cancelled := (rt_cancelled r \<or> rk_cancel (E (rt_clock r))),
     rt_log := rt_log r @ es\<rparr>"

definition LLMOnMachineNever :: string where "LLMOnMachineNever = ''never''"
definition LLMOnMachinePrefer :: string where "LLMOnMachinePrefer = ''prefer''"
definition LLMOnMachineRequire :: string where "LLMOnMachineRequire = ''require''"

definition routeNote :: "rschedule \<Rightarrow> string \<Rightarrow> route \<Rightarrow> route" where
  "routeNote E text r =
     (if \<not> rt_noting r \<or> (text = [] \<and> \<not> rt_noted r) then r
      else (rwait E [Note text] r)\<lparr>rt_noted := (text \<noteq> [])\<rparr>)"

definition clearNote :: "rschedule \<Rightarrow> route \<Rightarrow> route" where
  "clearNote E r = (if \<not> rt_noted r then r else routeNote E [] r)"

definition onMachineNote :: "llm_machine \<Rightarrow> string" where
  "onMachineNote m =
     ''mod'' @ [CHR 0xC3, CHR 0xA8] @ ''le sur la machine '' @ [CHR 0xC2, CHR 0xAB] @ '' '' @ lm_name m @ '' '' @ [CHR 0xC2, CHR 0xBB]
     @ (if lm_model m \<noteq> [] then '' ('' @ lm_model m @ '')'' else [])"

definition setAside :: "rschedule \<Rightarrow> string \<Rightarrow> route \<Rightarrow> route" where
  "setAside E i r = rwait E [SetAside i] r"

text \<open>\<open>ChooseMachine\<close>: an error leaves the zero output.\<close>

definition routeChoose :: "rschedule \<Rightarrow> route \<Rightarrow> route \<times> bool" where
  "routeChoose E r =
     (let out = (if rt_cancelled r then Inl (CanceledError []) else rk_choose (E (rt_clock r)) (rt_excluded r));
          r' = (rwait E [AskedMachine (rt_excluded r)] r)
                 \<lparr>rt_machine := (case out of Inr x \<Rightarrow> co_machine x | Inl _ \<Rightarrow> None),
                  rt_off := (case out of Inr x \<Rightarrow> co_off x | Inl _ \<Rightarrow> False)\<rparr>
      in (r', rt_machine r' \<noteq> None \<or> rt_mode r \<noteq> LLMOnMachineRequire))"

definition noMachine :: "route \<Rightarrow> call_error option" where
  "noMachine r =
     (if rt_mode r \<noteq> LLMOnMachineRequire \<or> rt_cancelled r then None
      else if rt_off r then Some (AppError ErrTypeMachineRequired MachinesOffMessage None)
      else if 0 < length (rt_excluded r) \<and> \<not> list_ex (\<lambda>i. i \<notin> set (rt_unreached r)) (rt_excluded r)
      then Some (AppError ErrTypeMachineRequired ServerUnreachableMessage None)
      else Some (AppError ErrTypeMachineRequired MachineRequiredMessage None))"

text \<open>What a run is to its route: its turn, its chain of agents, its workflow, what its parent left it.\<close>

record route_input =
  ri_turn_key :: string
  ri_chain :: "string list"
  ri_workflow :: string
  ri_machine :: "llm_machine option"
  ri_excluded :: "string list"

definition startLLMRoute :: "rschedule \<Rightarrow> route_input \<Rightarrow> string \<Rightarrow> string \<Rightarrow> bool \<Rightarrow> route \<times> call_error option" where
  "startLLMRoute E input mode signer cancelled =
     (let r = \<lparr>rt_mode = (if mode = [] then LLMOnMachineNever else mode), rt_machine = None, rt_excluded = ri_excluded input,
               rt_off = False, rt_unreached = [], rt_noting = False, rt_noted = False, rt_participant = [], rt_agent = [],
               rt_clock = 0, rt_cancelled = cancelled, rt_log = []\<rparr>
      in if rt_mode r = LLMOnMachineNever \<or> (ri_turn_key input = [] \<and> length (ri_chain input) = 0) then (r, None)
         else
           let r1 = (if ri_turn_key input \<noteq> []
                     then r\<lparr>rt_noting := True, rt_participant := (case ParticipantOf (ri_workflow input) of Some p \<Rightarrow> p | None \<Rightarrow> []),
                            rt_agent := signer\<rparr> else r);
               noted = (\<lambda>r. case rt_machine r of None \<Rightarrow> r | Some m \<Rightarrow> routeNote E (onMachineNote m) r)
           in case ri_machine input of
                Some m \<Rightarrow> (noted (r1\<lparr>rt_machine := Some m\<rparr>), None)
              | None \<Rightarrow> (case routeChoose E r1 of
                            (r2, False) \<Rightarrow> (r2, noMachine r2)
                          | (r2, True) \<Rightarrow> (noted r2, None)))"

subsection \<open>A step's call\<close>

text \<open>The notes of a turn whose model leaves its machine.\<close>

definition workerNote :: string where
  "workerNote =
     ''mod'' @ [CHR 0xC3, CHR 0xA8] @ ''le de l'' @ [CHR 0x27] @ ''installation : ce worker n'' @ [CHR 0x27]
     @ ''atteint pas les machines''"

definition lostNote :: "string \<Rightarrow> string" where
  "lostNote name =
     ''mod'' @ [CHR 0xC3, CHR 0xA8] @ ''le de l'' @ [CHR 0x27] @ ''installation : la machine ''
     @ [CHR 0xC2, CHR 0xAB] @ '' '' @ name
     @ '' '' @ [CHR 0xC2, CHR 0xBB] @ '' ne r'' @ [CHR 0xC3, CHR 0xA9] @ ''pond plus''"

definition silentNote :: "string \<Rightarrow> string" where
  "silentNote name =
     ''mod'' @ [CHR 0xC3, CHR 0xA8] @ ''le de l'' @ [CHR 0x27] @ ''installation : la machine ''
     @ [CHR 0xC2, CHR 0xAB] @ '' '' @ name
     @ '' '' @ [CHR 0xC2, CHR 0xBB] @ '' n'' @ [CHR 0x27] @ ''a pas r'' @ [CHR 0xC3, CHR 0xA9] @ ''pondu''"

type_synonym call_result = "route \<times> llm_response \<times> llm_machine option \<times> call_error option"

definition onServer :: "rschedule \<Rightarrow> nat \<Rightarrow> route \<Rightarrow> call_result" where
  "onServer E step r =
     (case (if rt_cancelled r then Inl (CanceledError []) else rk_llm (E (rt_clock r))) of
        Inr resp \<Rightarrow> (rwait E [CalledServer step] r, resp, None, None)
      | Inl err \<Rightarrow> (rwait E [CalledServer step] r, empty_response, None, Some err))"

text \<open>After the last attempt: prefer goes on with the server's key, require stops on the last error.\<close>

definition call_exhausted :: "rschedule \<Rightarrow> nat \<Rightarrow> route \<Rightarrow> call_error \<Rightarrow> call_result" where
  "call_exhausted E step r err =
     (if rt_mode r = LLMOnMachineRequire then (r, empty_response, rt_machine r, Some err)
      else let name = (case rt_machine r of Some m \<Rightarrow> lm_name m | None \<Rightarrow> []) in
        onServer E step (routeNote E (silentNote name) (r\<lparr>rt_machine := None\<rparr>)))"

text \<open>The attempts left, \<open>n\<close>, end at \<open>machineLLMAttempts\<close>; \<open>m\<close> is the machine of this one.\<close>

fun call_attempts :: "rschedule \<Rightarrow> nat \<Rightarrow> nat \<Rightarrow> route \<Rightarrow> llm_machine \<Rightarrow> call_result" where
  "call_attempts E step 0 r m = (r, empty_response, rt_machine r, None)"
| "call_attempts E step (Suc n) r m =
     (let attempt = machineLLMAttempts - n;
          out = (if rt_cancelled r then Inl (CanceledError []) else rk_llm (E (rt_clock r)));
          r1 = rwait E [CalledMachine (lm_id m) step attempt] r
      in case out of
           Inr resp \<Rightarrow> (r1, resp, Some m, None)
         | Inl err \<Rightarrow>
             if rt_cancelled r1 \<or> is_canceled err then (r1, empty_response, Some m, Some err)
             else
               let (kind, aside) = machineFailure err in
               if kind = FailureFinal then (r1, empty_response, Some m, Some err)
               else if kind = FailureWorker then
                 if rt_mode r1 = LLMOnMachineRequire then (r1, empty_response, Some m, Some err)
                 else onServer E step (routeNote E workerNote (r1\<lparr>rt_machine := None\<rparr>))
               else if kind = FailureMachine \<or> kind = FailureRefused then
                 let r2 = (if aside then setAside E (lm_id m) r1 else r1);
                     r3 = r2\<lparr>rt_excluded := rt_excluded r2 @ [lm_id m],
                             rt_unreached := rt_unreached r2 @ (if hasErrorType err ErrTypeHandoffFailed then [lm_id m] else [])\<rparr>
                 in if rt_mode r3 = LLMOnMachineRequire then
                      (case routeChoose E r3 of
                         (r4, found) \<Rightarrow>
                           (case rt_machine r4 of
                              None \<Rightarrow> (r4, empty_response, None, noMachine r4)
                            | Some m' \<Rightarrow>
                                let r5 = routeNote E (onMachineNote m') r4
                                in if n = 0 then call_exhausted E step r5 err else call_attempts E step n r5 m'))
                    else onServer E step (routeNote E (lostNote (lm_name m)) (r3\<lparr>rt_machine := None\<rparr>))
               else if n = 0 then call_exhausted E step r1 err
               else
                 let r2 = rwait E [] r1
                 in if rt_cancelled r2 then (r2, empty_response, Some m, Some (CanceledError []))
                    else call_attempts E step n r2 m)"

definition routeCall :: "rschedule \<Rightarrow> nat \<Rightarrow> route \<Rightarrow> call_result" where
  "routeCall E step r =
     (case rt_machine r of None \<Rightarrow> onServer E step r
      | Some m \<Rightarrow> call_attempts E step machineLLMAttempts r m)"

subsection \<open>What wrote an answer\<close>

definition stampAnswer :: "message \<Rightarrow> llm_response \<Rightarrow> llm_machine option \<Rightarrow> message" where
  "stampAnswer msg resp on =
     (let m1 = msg\<lparr>m_model := rp_model resp\<rparr>;
          m2 = (case rp_usage resp of Some u \<Rightarrow> m1\<lparr>m_usage := Some u\<rparr> | None \<Rightarrow> m1)
      in case on of None \<Rightarrow> m2
         | Some m \<Rightarrow> m2\<lparr>m_machine_id := lm_id m, m_machine := lm_name m,
                       m_model := (if m_model m2 = [] then lm_model m else m_model m2)\<rparr>)"

subsection \<open>Laws of the steps\<close>

definition called :: "route_event \<Rightarrow> string list" where
  "called e = (case e of CalledMachine i _ _ \<Rightarrow> [i] | _ \<Rightarrow> [])"

definition called_machines :: "route \<Rightarrow> string list" where
  "called_machines r = concat (map called (rt_log r))"

definition server_calls :: "route \<Rightarrow> nat" where
  "server_calls r = length (filter (\<lambda>e. case e of CalledServer _ \<Rightarrow> True | _ \<Rightarrow> False) (rt_log r))"

definition attempt_of :: "route_event \<Rightarrow> (nat \<times> nat) list" where
  "attempt_of e = (case e of CalledMachine _ s a \<Rightarrow> [(s, a)] | _ \<Rightarrow> [])"

definition attempts :: "route \<Rightarrow> (nat \<times> nat) list" where
  "attempts r = concat (map attempt_of (rt_log r))"

lemmas log_defs = called_machines_def server_calls_def attempts_def called_def attempt_of_def

text \<open>A quiet step calls no model: it waits, notes, sets aside or asks for a machine.\<close>

definition rquiet :: "route \<Rightarrow> route \<Rightarrow> bool" where
  "rquiet r r' \<longleftrightarrow> rt_mode r' = rt_mode r \<and> called_machines r' = called_machines r \<and> server_calls r' = server_calls r
     \<and> attempts r' = attempts r \<and> (rt_cancelled r \<longrightarrow> rt_cancelled r')"

lemma rquiet_trans: "rquiet r r' \<Longrightarrow> rquiet r' r'' \<Longrightarrow> rquiet r r''"
  by (simp add: rquiet_def)

lemma rquiet_note: "rquiet r (routeNote E t r)" "rt_machine (routeNote E t r) = rt_machine r"
  "rt_excluded (routeNote E t r) = rt_excluded r"
  by (simp_all add: routeNote_def rwait_def rquiet_def log_defs)

lemma rquiet_wait: "rquiet r (rwait E [] r)" "rt_machine (rwait E es r) = rt_machine r" "rt_excluded (rwait E es r) = rt_excluded r"
  by (simp_all add: rwait_def rquiet_def log_defs)

lemma rquiet_setAside: "rquiet r (setAside E i r)" "rt_machine (setAside E i r) = rt_machine r"
  "rt_excluded (setAside E i r) = rt_excluded r" "rt_unreached (setAside E i r) = rt_unreached r"
  by (simp_all add: setAside_def rwait_def rquiet_def log_defs)

lemma rquiet_choose: "rquiet r (fst (routeChoose E r))" "rt_excluded (fst (routeChoose E r)) = rt_excluded r"
  by (simp_all add: routeChoose_def rwait_def rquiet_def log_defs Let_def)

lemma rquiet_fields:
  "rquiet r (r\<lparr>rt_machine := m\<rparr>)" "rquiet r (r\<lparr>rt_excluded := x, rt_unreached := u\<rparr>)"
  by (simp_all add: rquiet_def log_defs)

lemma onServer_law:
  "onServer E step r = (r', resp, on, err) \<Longrightarrow> rt_mode r' = rt_mode r \<and> called_machines r' = called_machines r
     \<and> server_calls r' = Suc (server_calls r) \<and> attempts r' = attempts r \<and> on = None
     \<and> rt_machine r' = rt_machine r \<and> rt_excluded r' = rt_excluded r"
  by (auto simp: onServer_def rwait_def log_defs split: sum.splits)

text \<open>The machine the turn excludes: the one that failed, after those before.\<close>

definition exclude :: "rschedule \<Rightarrow> llm_machine \<Rightarrow> call_error \<Rightarrow> route \<Rightarrow> route" where
  "exclude E m err r1 =
     (let r2 = (if snd (machineFailure err) then setAside E (lm_id m) r1 else r1)
      in r2\<lparr>rt_excluded := rt_excluded r2 @ [lm_id m],
            rt_unreached := rt_unreached r2 @ (if hasErrorType err ErrTypeHandoffFailed then [lm_id m] else [])\<rparr>)"

lemma rquiet_exclude: "rquiet r (exclude E m err r)" "rt_excluded (exclude E m err r) = rt_excluded r @ [lm_id m]"
  "rt_machine (exclude E m err r) = rt_machine r"
  using rquiet_trans [OF rquiet_setAside(1) rquiet_fields(2)] rquiet_fields(2)
  by (auto simp: exclude_def Let_def rquiet_setAside)

text \<open>The ways an attempt goes on.\<close>

lemma call_attempts_cases:
  assumes c: "call_attempts E step (Suc n) r m = res"
  obtains r1 where "r1 = rwait E [CalledMachine (lm_id m) step (machineLLMAttempts - n)] r"
    and "(\<exists>resp err. res = (r1, resp, Some m, err))
      \<or> (\<exists>t r2. rt_mode r \<noteq> LLMOnMachineRequire \<and> rquiet r1 r2 \<and> rt_machine r2 = None \<and> res = onServer E step (routeNote E t r2))
      \<or> (\<exists>err r4. rt_mode r = LLMOnMachineRequire \<and> r4 = fst (routeChoose E (exclude E m err r1)) \<and> rt_machine r4 = None
           \<and> res = (r4, empty_response, None, noMachine r4))
      \<or> (\<exists>err r4 m' t. rt_mode r = LLMOnMachineRequire \<and> r4 = fst (routeChoose E (exclude E m err r1)) \<and> rt_machine r4 = Some m'
           \<and> res = (if n = 0 then call_exhausted E step (routeNote E t r4) err else call_attempts E step n (routeNote E t r4) m'))
      \<or> (\<exists>err. n = 0 \<and> res = call_exhausted E step r1 err)
      \<or> (\<exists>resp err. res = (rwait E [] r1, resp, Some m, err))
      \<or> 0 < n \<and> res = call_attempts E step n (rwait E [] r1) m"
proof -
  define r1 where "r1 = rwait E [CalledMachine (lm_id m) step (machineLLMAttempts - n)] r"
  have mode: "rt_mode r1 = rt_mode r" by (simp add: r1_def rwait_def)
  define out where "out = (if rt_cancelled r then Inl (CanceledError []) else rk_llm (E (rt_clock r)))"
  show ?thesis
  proof (cases out)
    case (Inr resp)
    with c have "res = (r1, resp, Some m, None)"
      unfolding call_attempts.simps Let_def r1_def [symmetric] out_def [symmetric] by simp
    then show ?thesis by (intro that [OF r1_def]) blast
  next
    case (Inl err)
    obtain kind aside where k: "machineFailure err = (kind, aside)" by fastforce
    note c1 = c [unfolded call_attempts.simps Let_def r1_def [symmetric] out_def [symmetric], unfolded Inl sum.case k prod.case]
    consider (stop) "rt_cancelled r1 \<or> is_canceled err \<or> kind = FailureFinal \<or> kind = FailureWorker \<and> rt_mode r = LLMOnMachineRequire"
      | (worker) "\<not> (rt_cancelled r1 \<or> is_canceled err)" "kind = FailureWorker" "rt_mode r \<noteq> LLMOnMachineRequire"
      | (fallback) "\<not> (rt_cancelled r1 \<or> is_canceled err)" "kind = FailureMachine \<or> kind = FailureRefused" "rt_mode r \<noteq> LLMOnMachineRequire"
      | (need) "\<not> (rt_cancelled r1 \<or> is_canceled err)" "kind = FailureMachine \<or> kind = FailureRefused" "rt_mode r = LLMOnMachineRequire"
      | (passing) "\<not> (rt_cancelled r1 \<or> is_canceled err)" "kind = FailurePassing"
      by (cases kind) auto
    then show ?thesis
    proof cases
      case stop
      with c1 have "res = (r1, empty_response, Some m, Some err)" by (auto simp: mode split: if_splits)
      then show ?thesis by (intro that [OF r1_def]) blast
    next
      case worker
      with c1 have "res = onServer E step (routeNote E workerNote (r1\<lparr>rt_machine := None\<rparr>))" by (simp add: mode)
      moreover have "rt_machine (r1\<lparr>rt_machine := None\<rparr>) = None" by simp
      ultimately show ?thesis using worker(3) rquiet_fields(1) by (intro that [OF r1_def]) blast
    next
      case fallback
      let ?r2 = "(exclude E m err r1)\<lparr>rt_machine := None\<rparr>"
      have q: "rquiet r1 ?r2" using rquiet_trans [OF rquiet_exclude(1) rquiet_fields(1)] .
      have e: "((if aside then setAside E (lm_id m) r1 else r1)
          \<lparr>rt_excluded := rt_excluded (if aside then setAside E (lm_id m) r1 else r1) @ [lm_id m],
            rt_unreached := rt_unreached (if aside then setAside E (lm_id m) r1 else r1)
              @ (if hasErrorType err ErrTypeHandoffFailed then [lm_id m] else [])\<rparr>) = exclude E m err r1"
        using k by (simp add: exclude_def Let_def)
      have md: "rt_mode (exclude E m err r1) \<noteq> LLMOnMachineRequire"
        using rquiet_exclude(1) [of r1 E m err] mode fallback(3) by (simp add: rquiet_def)
      have ne: "kind \<noteq> FailureFinal" "kind \<noteq> FailureWorker" using fallback(2) by auto
      have "res = onServer E step (routeNote E (lostNote (lm_name m)) ?r2)"
        using c1 fallback ne unfolding e by (simp add: md)
      moreover have "rt_machine ?r2 = None" by simp
      ultimately show ?thesis using fallback(3) q by (intro that [OF r1_def]) blast
    next
      case need
      let ?c = "routeChoose E (exclude E m err r1)"
      have e: "(if aside then setAside E (lm_id m) r1 else r1)
          \<lparr>rt_excluded := rt_excluded (if aside then setAside E (lm_id m) r1 else r1) @ [lm_id m],
            rt_unreached := rt_unreached (if aside then setAside E (lm_id m) r1 else r1)
              @ (if hasErrorType err ErrTypeHandoffFailed then [lm_id m] else [])\<rparr> = exclude E m err r1"
        using k by (simp add: exclude_def Let_def)
      have md: "rt_mode (exclude E m err r1) = LLMOnMachineRequire"
        using rquiet_exclude(1) [of r1 E m err] mode need(3) by (simp add: rquiet_def)
      have ne: "kind \<noteq> FailureFinal" "kind \<noteq> FailureWorker" using need(2) by auto
      show ?thesis
      proof (cases "rt_machine (fst ?c)")
        case None
        then have "res = (fst ?c, empty_response, None, noMachine (fst ?c))"
          using c1 need ne unfolding e by (simp add: md case_prod_beta)
        with None need show ?thesis by (intro that [OF r1_def]) blast
      next
        case (Some m')
        then have "res = (if n = 0 then call_exhausted E step (routeNote E (onMachineNote m') (fst ?c)) err
            else call_attempts E step n (routeNote E (onMachineNote m') (fst ?c)) m')"
          using c1 need ne unfolding e by (simp add: md case_prod_beta)
        with Some need show ?thesis by (intro that [OF r1_def]) blast
      qed
    next
      case passing
      consider "n = 0" | "0 < n" "rt_cancelled (rwait E [] r1)" | "0 < n" "\<not> rt_cancelled (rwait E [] r1)" by auto
      then show ?thesis
      proof cases
        case 1
        with c1 passing have "res = call_exhausted E step r1 err" by simp
        with 1 show ?thesis by (intro that [OF r1_def]) blast
      next
        case 2
        with c1 passing have "res = (rwait E [] r1, empty_response, Some m, Some (CanceledError []))" by simp
        then show ?thesis by (intro that [OF r1_def]) blast
      next
        case 3
        with c1 passing have "res = call_attempts E step n (rwait E [] r1) m" by simp
        with 3 show ?thesis by (intro that [OF r1_def]) blast
      qed
    qed
  qed
qed

lemma called_wait [simp]:
  "called_machines (rwait E [CalledMachine i s a] r) = called_machines r @ [i]"
  "server_calls (rwait E [CalledMachine i s a] r) = server_calls r"
  "attempts (rwait E [CalledMachine i s a] r) = attempts r @ [(s, a)]"
  "rt_mode (rwait E es r) = rt_mode r"
  by (simp_all add: log_defs rwait_def)

text \<open>An answer of the server, noted first.\<close>

definition served :: "route \<Rightarrow> call_result \<Rightarrow> bool" where
  "served r res \<longleftrightarrow> rt_mode (fst res) = rt_mode r \<and> called_machines (fst res) = called_machines r
     \<and> attempts (fst res) = attempts r \<and> server_calls (fst res) = Suc (server_calls r) \<and> rt_machine (fst res) = None"

lemma served_onServer:
  assumes "rquiet r r2" and "rt_machine r2 = None"
  shows "served r (onServer E step (routeNote E t r2))"
proof -
  obtain r' resp on err where o: "onServer E step (routeNote E t r2) = (r', resp, on, err)" by (metis prod_cases4)
  from onServer_law [OF o] rquiet_trans [OF assms(1) rquiet_note(1) [of r2 E t]] assms(2) show ?thesis
    by (simp add: o served_def rquiet_def rquiet_note)
qed

lemma exhausted_cases:
  "rt_mode r = LLMOnMachineRequire \<and> call_exhausted E step r e = (r, empty_response, rt_machine r, Some e)
   \<or> rt_mode r \<noteq> LLMOnMachineRequire \<and> served r (call_exhausted E step r e)"
proof (cases "rt_mode r = LLMOnMachineRequire")
  case False
  obtain name where "call_exhausted E step r e = onServer E step (routeNote E (silentNote name) (r\<lparr>rt_machine := None\<rparr>))"
    using False by (simp add: call_exhausted_def Let_def)
  with served_onServer [OF rquiet_fields(1) [of r None]] False show ?thesis by simp
qed (simp add: call_exhausted_def)

text \<open>
  What every attempt keeps, \<open>I\<close> (with the machine and the attempts left), and what the answer of the call
  satisfies, \<open>Q\<close>: one law per way an attempt goes on.
\<close>

locale call_inv =
  fixes E :: rschedule and step :: nat
    and I :: "route \<Rightarrow> llm_machine \<Rightarrow> nat \<Rightarrow> bool" and Q :: "call_result \<Rightarrow> bool"
  assumes calls: "I r m (Suc n) \<Longrightarrow> I (rwait E [CalledMachine (lm_id m) step (machineLLMAttempts - n)] r) m n"
    and waits: "I r m n \<Longrightarrow> I (rwait E [] r) m n"
    and answered: "I r m n \<Longrightarrow> Q (r, resp, Some m, err)"
    and left: "I r m n \<Longrightarrow> rt_mode r \<noteq> LLMOnMachineRequire \<Longrightarrow> served r res \<Longrightarrow> Q res"
    and given_up: "I r m n \<Longrightarrow> rt_mode r = LLMOnMachineRequire \<Longrightarrow> Q (r, empty_response, rt_machine r, Some e)"
    and none_left: "I r m n \<Longrightarrow> rt_mode r = LLMOnMachineRequire \<Longrightarrow> r4 = fst (routeChoose E (exclude E m e r)) \<Longrightarrow>
        rt_machine r4 = None \<Longrightarrow> Q (r4, empty_response, None, noMachine r4)"
    and other: "I r m n \<Longrightarrow> rt_mode r = LLMOnMachineRequire \<Longrightarrow> r4 = fst (routeChoose E (exclude E m e r)) \<Longrightarrow>
        rt_machine r4 = Some m' \<Longrightarrow> I (routeNote E t r4) m' n"
begin

lemma exhausted_post: "I r m n \<Longrightarrow> Q (call_exhausted E step r e)"
  by (rule disjE [OF exhausted_cases [of r E step e]]) (metis given_up, metis left)

lemma call_post: "I r m n \<Longrightarrow> 0 < n \<Longrightarrow> Q (call_attempts E step n r m)"
proof (induction n arbitrary: r m)
  case (Suc n)
  obtain r1 where r1: "r1 = rwait E [CalledMachine (lm_id m) step (machineLLMAttempts - n)] r"
    and c: "(\<exists>resp err. call_attempts E step (Suc n) r m = (r1, resp, Some m, err))
      \<or> (\<exists>t r2. rt_mode r \<noteq> LLMOnMachineRequire \<and> rquiet r1 r2 \<and> rt_machine r2 = None
           \<and> call_attempts E step (Suc n) r m = onServer E step (routeNote E t r2))
      \<or> (\<exists>err r4. rt_mode r = LLMOnMachineRequire \<and> r4 = fst (routeChoose E (exclude E m err r1)) \<and> rt_machine r4 = None
           \<and> call_attempts E step (Suc n) r m = (r4, empty_response, None, noMachine r4))
      \<or> (\<exists>err r4 m' t. rt_mode r = LLMOnMachineRequire \<and> r4 = fst (routeChoose E (exclude E m err r1)) \<and> rt_machine r4 = Some m'
           \<and> call_attempts E step (Suc n) r m = (if n = 0 then call_exhausted E step (routeNote E t r4) err else call_attempts E step n (routeNote E t r4) m'))
      \<or> (\<exists>err. n = 0 \<and> call_attempts E step (Suc n) r m = call_exhausted E step r1 err)
      \<or> (\<exists>resp err. call_attempts E step (Suc n) r m = (rwait E [] r1, resp, Some m, err))
      \<or> 0 < n \<and> call_attempts E step (Suc n) r m = call_attempts E step n (rwait E [] r1) m"
    by (rule call_attempts_cases [OF refl, where E = E and step = step and n = n and r = r and m = m])
  have i1: "I r1 m n" unfolding r1 by (rule calls [OF Suc.prems(1)])
  have m1: "rt_mode r1 = rt_mode r" by (simp add: r1)
  from c show ?case
  proof (elim disjE exE conjE)
    fix resp err assume "call_attempts E step (Suc n) r m = (r1, resp, Some m, err)"
    with answered [OF i1] show ?thesis by simp
  next
    fix t r2 assume a: "rt_mode r \<noteq> LLMOnMachineRequire" "rquiet r1 r2" "rt_machine r2 = None"
      "call_attempts E step (Suc n) r m = onServer E step (routeNote E t r2)"
    from left [OF i1 _ served_onServer [OF a(2,3)]] a m1 show ?thesis by simp
  next
    fix err r4 assume a: "rt_mode r = LLMOnMachineRequire" "r4 = fst (routeChoose E (exclude E m err r1))" "rt_machine r4 = None"
      "call_attempts E step (Suc n) r m = (r4, empty_response, None, noMachine r4)"
    from none_left [OF i1 _ a(2,3)] a m1 show ?thesis by simp
  next
    fix err r4 m' t assume a: "rt_mode r = LLMOnMachineRequire" "r4 = fst (routeChoose E (exclude E m err r1))" "rt_machine r4 = Some m'"
      and res: "call_attempts E step (Suc n) r m = (if n = 0 then call_exhausted E step (routeNote E t r4) err else call_attempts E step n (routeNote E t r4) m')"
    have i5: "I (routeNote E t r4) m' n" using other [OF i1 _ a(2,3)] a(1) m1 by simp
    from exhausted_post [OF i5] Suc.IH [OF i5] res show ?thesis by (cases "n = 0") simp_all
  next
    fix err assume "call_attempts E step (Suc n) r m = call_exhausted E step r1 err"
    with exhausted_post [OF i1] show ?thesis by simp
  next
    fix resp err assume "call_attempts E step (Suc n) r m = (rwait E [] r1, resp, Some m, err)"
    with answered [OF waits [OF i1]] show ?thesis by simp
  next
    assume "0 < n" "call_attempts E step (Suc n) r m = call_attempts E step n (rwait E [] r1) m"
    with Suc.IH [OF waits [OF i1]] show ?thesis by simp
  qed
qed simp

end

text \<open>The state after a machine was excluded and another asked for, and noted.\<close>

lemma excluded_choice:
  assumes "r4 = fst (routeChoose E (exclude E m err r1))"
  shows "rquiet r1 r4" and "rt_excluded r4 = rt_excluded r1 @ [lm_id m]"
  using rquiet_trans [OF rquiet_exclude(1) rquiet_choose(1)] assms by (simp_all add: rquiet_choose rquiet_exclude)

lemma rquiet_D:
  assumes "rquiet r r'"
  shows "rt_mode r' = rt_mode r" "called_machines r' = called_machines r" "server_calls r' = server_calls r" "attempts r' = attempts r"
  using assms by (simp_all add: rquiet_def)

lemma rquiet_wait_D [simp]:
  "called_machines (rwait E [] r) = called_machines r" "server_calls (rwait E [] r) = server_calls r" "attempts (rwait E [] r) = attempts r"
  by (simp_all add: rquiet_D [OF rquiet_wait(1)])

lemma rquiet_note_D [simp]:
  "called_machines (routeNote E t r) = called_machines r" "server_calls (routeNote E t r) = server_calls r"
  "attempts (routeNote E t r) = attempts r" "rt_mode (routeNote E t r) = rt_mode r" "rt_machine (routeNote E t r) = rt_machine r"
  "rt_excluded (routeNote E t r) = rt_excluded r"
  using rquiet_note by (simp_all add: rquiet_D [OF rquiet_note(1)])

lemma excluded_choice_D:
  assumes "r4 = fst (routeChoose E (exclude E m err r1))"
  shows "called_machines r4 = called_machines r1" "server_calls r4 = server_calls r1" "attempts r4 = attempts r1" "rt_mode r4 = rt_mode r1"
  using rquiet_D [OF excluded_choice(1) [OF assms]] by simp_all

text \<open>An agent that requires a machine makes no call on the server's key; no error means a machine, or a cancellation.\<close>

definition req_inv :: "nat \<Rightarrow> route \<Rightarrow> llm_machine \<Rightarrow> nat \<Rightarrow> bool" where
  "req_inv k r m n \<longleftrightarrow> rt_mode r = LLMOnMachineRequire \<and> rt_machine r = Some m \<and> server_calls r = k"

definition req_post :: "nat \<Rightarrow> call_result \<Rightarrow> bool" where
  "req_post k res \<longleftrightarrow> rt_mode (fst res) = LLMOnMachineRequire \<and> server_calls (fst res) = k
     \<and> (snd (snd (snd res)) = None \<longrightarrow> rt_machine (fst res) \<noteq> None \<or> rt_cancelled (fst res))"

interpretation required: call_inv E step "req_inv k" "req_post k" for E step k
proof unfold_locales
  fix r m n r4 e
  assume "req_inv k r m n" "r4 = fst (routeChoose E (exclude E m e r))" "rt_machine r4 = None"
  then show "req_post k (r4, empty_response, None, noMachine r4)"
    using excluded_choice_D [of r4 E m e r] by (auto simp: req_inv_def req_post_def noMachine_def split: if_splits)
next
  fix r m n r4 e m' t
  assume "req_inv k r m n" "r4 = fst (routeChoose E (exclude E m e r))" "rt_machine r4 = Some m'"
  then show "req_inv k (routeNote E t r4) m' n" using excluded_choice_D [of r4 E m e r] by (simp add: req_inv_def)
qed (simp_all add: req_inv_def req_post_def rquiet_wait)

text \<open>The attempts of a step are numbered from 1 on, at most \<open>machineLLMAttempts\<close>; the server is asked once at most.\<close>

definition try_inv :: "nat \<Rightarrow> nat \<Rightarrow> (nat \<times> nat) list \<Rightarrow> route \<Rightarrow> llm_machine \<Rightarrow> nat \<Rightarrow> bool" where
  "try_inv step k as r m n \<longleftrightarrow> n \<le> machineLLMAttempts \<and> server_calls r = k
     \<and> attempts r = as @ map (Pair step) [1..<Suc (machineLLMAttempts - n)]"

definition try_post :: "nat \<Rightarrow> nat \<Rightarrow> (nat \<times> nat) list \<Rightarrow> call_result \<Rightarrow> bool" where
  "try_post step k as res \<longleftrightarrow> server_calls (fst res) \<le> Suc k
     \<and> (\<exists>j \<le> machineLLMAttempts. attempts (fst res) = as @ map (Pair step) [1..<Suc j])"

lemma upt_attempt: "n < k \<Longrightarrow> [1..<Suc (k - n)] = [1..<Suc (k - Suc n)] @ [k - n]"
proof -
  assume "n < k"
  then have "k - n = Suc (k - Suc n)" by simp
  then show ?thesis by simp
qed

lemma try_postI:
  "attempts (fst res) = as @ map (Pair step) [1..<Suc (machineLLMAttempts - n)] \<Longrightarrow> server_calls (fst res) \<le> Suc k \<Longrightarrow> try_post step k as res"
  unfolding try_post_def by (metis diff_le_self)

interpretation tried: call_inv E step "try_inv step k as" "try_post step k as" for E step k as
proof unfold_locales
  fix r m n assume "try_inv step k as r m (Suc n)"
  then show "try_inv step k as (rwait E [CalledMachine (lm_id m) step (machineLLMAttempts - n)] r) m n"
    using upt_attempt [of n machineLLMAttempts] by (simp add: try_inv_def del: upt_Suc)
next
  fix r m n r4 e assume "try_inv step k as r m n" "r4 = fst (routeChoose E (exclude E m e r))"
  then show "try_post step k as (r4, empty_response, None, noMachine r4)"
    using excluded_choice_D [of r4 E m e r] by (intro try_postI [of _ _ _ n]) (simp_all add: try_inv_def)
next
  fix r m n r4 e m' t assume "try_inv step k as r m n" "r4 = fst (routeChoose E (exclude E m e r))"
  then show "try_inv step k as (routeNote E t r4) m' n"
    using excluded_choice_D [of r4 E m e r] by (simp add: try_inv_def)
qed (auto simp: try_inv_def served_def simp del: upt_Suc intro: try_postI)

text \<open>
  A machine left is never called again, when the choice respects the machines excluded: the machines called form
  runs, one per machine.
\<close>

definition choice_ok :: "rschedule \<Rightarrow> bool" where
  "choice_ok E \<longleftrightarrow> (\<forall>n ex out m. rk_choose (E n) ex = Inr out \<longrightarrow> co_machine out = Some m \<longrightarrow> lm_id m \<notin> set ex)"

definition runs_ok :: "route \<Rightarrow> bool" where
  "runs_ok r \<longleftrightarrow> distinct (remdups_adj (called_machines r))
     \<and> (\<forall>m. rt_machine r = Some m \<longrightarrow> lm_id m \<notin> set (rt_excluded r)
          \<and> set (called_machines r) \<subseteq> insert (lm_id m) (set (rt_excluded r))
          \<and> (lm_id m \<in> set (called_machines r) \<longrightarrow> last (called_machines r) = lm_id m))"

lemma remdups_adj_snoc:
  "remdups_adj (xs @ [x]) = (if xs \<noteq> [] \<and> last xs = x then remdups_adj xs else remdups_adj xs @ [x])"
  by (induction xs rule: remdups_adj.induct) auto

lemma runs_ok_call:
  assumes "runs_ok r" and "rt_machine r = Some m"
  shows "runs_ok (rwait E [CalledMachine (lm_id m) s a] r)"
proof -
  let ?c = "called_machines r"
  have "lm_id m \<in> set ?c \<Longrightarrow> ?c \<noteq> [] \<and> last ?c = lm_id m" using assms by (auto simp: runs_ok_def)
  then have "distinct (remdups_adj (?c @ [lm_id m]))" using assms(1) by (auto simp: runs_ok_def remdups_adj_snoc)
  with assms show ?thesis by (auto simp: runs_ok_def rquiet_wait)
qed

lemma runs_ok_quiet:
  "runs_ok r \<Longrightarrow> rquiet r r' \<Longrightarrow> rt_machine r' = None \<or> rt_machine r' = rt_machine r \<and> rt_excluded r' = rt_excluded r \<Longrightarrow> runs_ok r'"
  by (auto simp: runs_ok_def rquiet_def)

lemma runs_ok_choice:
  assumes ok: "runs_ok r" and m: "rt_machine r = Some m" and E: "choice_ok E" and r4: "r4 = fst (routeChoose E (exclude E m e r))"
  shows "runs_ok r4"
proof -
  note q = excluded_choice [OF r4] excluded_choice_D [OF r4]
  have "lm_id m' \<notin> set (rt_excluded r4) \<and> lm_id m' \<notin> set (called_machines r4)" if m': "rt_machine r4 = Some m'" for m'
  proof -
    let ?x = "exclude E m e r"
    have "lm_id m' \<notin> set (rt_excluded ?x)"
      using m' E unfolding r4 routeChoose_def choice_ok_def
      by (auto simp: Let_def split: if_splits sum.splits)
    moreover have "set (called_machines r) \<subseteq> insert (lm_id m) (set (rt_excluded r))" using ok m by (simp add: runs_ok_def)
    ultimately show ?thesis using q by (auto simp: rquiet_exclude)
  qed
  with ok m q show ?thesis by (auto simp: runs_ok_def)
qed

definition run_inv :: "rschedule \<Rightarrow> route \<Rightarrow> llm_machine \<Rightarrow> nat \<Rightarrow> bool" where
  "run_inv E r m n \<longleftrightarrow> choice_ok E \<and> runs_ok r \<and> rt_machine r = Some m"

definition run_post :: "call_result \<Rightarrow> bool" where
  "run_post res \<longleftrightarrow> runs_ok (fst res)"

interpretation runs: call_inv E step "run_inv E" run_post for E step
proof unfold_locales
  fix r m n assume "run_inv E r m (Suc n)"
  then show "run_inv E (rwait E [CalledMachine (lm_id m) step (machineLLMAttempts - n)] r) m n"
    by (simp add: run_inv_def runs_ok_call rquiet_wait)
next
  fix r m n assume "run_inv E r m n"
  then show "run_inv E (rwait E [] r) m n"
    using runs_ok_quiet [OF _ rquiet_wait(1), of r E] by (simp add: run_inv_def rquiet_wait)
next
  fix r m n res assume "run_inv E r m n" "served r res"
  then show "run_post res" by (simp add: run_inv_def run_post_def served_def runs_ok_def)
next
  fix r m n r4 e assume "run_inv E r m n" "r4 = fst (routeChoose E (exclude E m e r))"
  then show "run_post (r4, empty_response, None, noMachine r4)" using runs_ok_choice by (simp add: run_inv_def run_post_def)
next
  fix r m n r4 e m' t assume a: "run_inv E r m n" "r4 = fst (routeChoose E (exclude E m e r))" "rt_machine r4 = Some m'"
  then have "runs_ok r4" using runs_ok_choice by (simp add: run_inv_def)
  from runs_ok_quiet [OF this rquiet_note(1)] a show "run_inv E (routeNote E t r4) m' n" by (simp add: run_inv_def)
qed (simp_all add: run_inv_def run_post_def)

subsection \<open>The calls of a turn\<close>

text \<open>The calls of a turn's steps, as the loop of \<open>AgentWorkflow\<close> makes them: until one fails or the turn is cancelled.\<close>

fun turn_calls :: "rschedule \<Rightarrow> nat list \<Rightarrow> route \<Rightarrow> route" where
  "turn_calls E [] r = r"
| "turn_calls E (s # ss) r =
     (if rt_cancelled r then r
      else case routeCall E s r of
             (r', _, _, None) \<Rightarrow> turn_calls E ss r'
           | (r', _, _, Some _) \<Rightarrow> r')"

lemma turn_calls_require:
  "rt_mode r = LLMOnMachineRequire \<Longrightarrow> rt_machine r \<noteq> None \<or> rt_cancelled r \<Longrightarrow> server_calls (turn_calls E ss r) = server_calls r"
proof (induction ss arbitrary: r)
  case (Cons s ss)
  show ?case
  proof (cases "rt_cancelled r")
    case False
    with Cons.prems obtain m where m: "rt_machine r = Some m" by auto
    obtain r' resp on err where c: "routeCall E s r = (r', resp, on, err)" by (metis prod_cases4)
    have "req_post (server_calls r) (call_attempts E s machineLLMAttempts r m)"
      by (rule required.call_post) (simp_all add: req_inv_def Cons.prems(1) m machineLLMAttempts_def)
    with c m have p: "rt_mode r' = LLMOnMachineRequire" "server_calls r' = server_calls r" "err = None \<longrightarrow> rt_machine r' \<noteq> None \<or> rt_cancelled r'"
      by (simp_all add: routeCall_def req_post_def)
    with Cons.IH [of r'] False c show ?thesis by (cases err) auto
  qed simp
qed simp

lemma routeCall_runs_ok:
  assumes "choice_ok E" and "runs_ok r"
  shows "runs_ok (fst (routeCall E s r))"
proof (cases "rt_machine r")
  case None
  obtain r' resp on err where o: "onServer E s r = (r', resp, on, err)" by (metis prod_cases4)
  from onServer_law [OF o] assms(2) None show ?thesis by (simp add: routeCall_def o runs_ok_def)
next
  case (Some m)
  have "run_post (call_attempts E s machineLLMAttempts r m)"
    by (rule runs.call_post) (simp_all add: run_inv_def assms Some machineLLMAttempts_def)
  with Some show ?thesis by (simp add: routeCall_def run_post_def)
qed

lemma turn_calls_runs_ok: "choice_ok E \<Longrightarrow> runs_ok r \<Longrightarrow> runs_ok (turn_calls E ss r)"
proof (induction ss arbitrary: r)
  case (Cons s ss)
  obtain r' resp on err where c: "routeCall E s r = (r', resp, on, err)" by (metis prod_cases4)
  from routeCall_runs_ok [OF Cons.prems, of s] c have "runs_ok r'" by simp
  with Cons c show ?case by (cases err) auto
qed simp

lemma start_require:
  assumes "startLLMRoute E input mode signer c = (r, None)" and "mode = LLMOnMachineRequire"
    and "ri_turn_key input \<noteq> [] \<or> ri_chain input \<noteq> []"
  shows "rt_mode r = LLMOnMachineRequire \<and> (rt_machine r \<noteq> None \<or> rt_cancelled r) \<and> server_calls r = 0"
proof -
  have ne: "LLMOnMachineRequire \<noteq> []" "LLMOnMachineRequire \<noteq> LLMOnMachineNever"
    by (simp_all add: LLMOnMachineRequire_def LLMOnMachineNever_def)
  define r0 where "r0 = \<lparr>rt_mode = LLMOnMachineRequire, rt_machine = None, rt_excluded = ri_excluded input,
               rt_off = False, rt_unreached = [], rt_noting = False, rt_noted = False, rt_participant = [], rt_agent = [],
               rt_clock = 0, rt_cancelled = c, rt_log = []\<rparr>"
  obtain r1 where r1: "rt_mode r1 = LLMOnMachineRequire" "server_calls r1 = 0"
    and s: "startLLMRoute E input mode signer c = (let noted = (\<lambda>r. case rt_machine r of None \<Rightarrow> r | Some m \<Rightarrow> routeNote E (onMachineNote m) r)
       in case ri_machine input of Some m \<Rightarrow> (noted (r1\<lparr>rt_machine := Some m\<rparr>), None)
          | None \<Rightarrow> (case routeChoose E r1 of (r2, False) \<Rightarrow> (r2, noMachine r2) | (r2, True) \<Rightarrow> (noted r2, None)))"
  proof (rule that)
    let ?r1 = "if ri_turn_key input \<noteq> [] then r0\<lparr>rt_noting := True,
        rt_participant := (case ParticipantOf (ri_workflow input) of Some p \<Rightarrow> p | None \<Rightarrow> []), rt_agent := signer\<rparr> else r0"
    show "rt_mode ?r1 = LLMOnMachineRequire" "server_calls ?r1 = 0" by (simp_all add: r0_def server_calls_def)
    show "startLLMRoute E input mode signer c = (let noted = (\<lambda>r. case rt_machine r of None \<Rightarrow> r | Some m \<Rightarrow> routeNote E (onMachineNote m) r)
       in case ri_machine input of Some m \<Rightarrow> (noted (?r1\<lparr>rt_machine := Some m\<rparr>), None)
          | None \<Rightarrow> (case routeChoose E ?r1 of (r2, False) \<Rightarrow> (r2, noMachine r2) | (r2, True) \<Rightarrow> (noted r2, None)))"
      using assms(2,3) ne unfolding startLLMRoute_def r0_def Let_def by auto
  qed
  show ?thesis
  proof (cases "ri_machine input")
    case (Some m)
    with assms(1) s have "r = routeNote E (onMachineNote m) (r1\<lparr>rt_machine := Some m\<rparr>)" by (simp add: Let_def)
    with r1 rquiet_D(3) [OF rquiet_fields(1) [of r1 "Some m"]] show ?thesis by simp
  next
    case None
    obtain r2 found where ch: "routeChoose E r1 = (r2, found)" by fastforce
    have f: "found \<longleftrightarrow> rt_machine r2 \<noteq> None" using ch r1 by (auto simp: routeChoose_def Let_def)
    have r2: "rt_mode r2 = LLMOnMachineRequire" "server_calls r2 = 0" using rquiet_choose(1) [of r1 E] ch r1 by (simp_all add: rquiet_def)
    show ?thesis
    proof (cases found)
      case True
      with f obtain m where "rt_machine r2 = Some m" by auto
      with True assms(1) s None ch r2 show ?thesis by (auto simp: Let_def)
    next
      case False
      with assms(1) s None ch r2 f show ?thesis by (auto simp: noMachine_def split: if_splits)
    qed
  qed
qed

lemma grow_wait_bounds: "0 < w \<Longrightarrow> w \<le> grow_wait n w"
proof (induction n arbitrary: w)
  case (Suc n)
  from Suc.IH [of "3 * w"] Suc.prems show ?case by simp
qed simp

subsection \<open>Schedules\<close>

definition ex_machine :: llm_machine where
  "ex_machine = \<lparr>lm_id = ''M'', lm_name = ''mac'', lm_model = ''x''\<rparr>"

definition ex_rtick :: rtick where
  "ex_rtick = \<lparr>rk_cancel = False, rk_llm = Inl (AppError ErrTypeRefused ''no'' None), rk_choose = (\<lambda>_. Inl (OtherError ''away''))\<rparr>"

definition ex_route :: route where
  "ex_route = \<lparr>rt_mode = LLMOnMachineRequire, rt_machine = Some ex_machine, rt_excluded = [], rt_off = False, rt_unreached = [],
     rt_noting = False, rt_noted = False, rt_participant = [], rt_agent = [], rt_clock = 0, rt_cancelled = False, rt_log = []\<rparr>"

definition ex_rinput :: route_input where
  "ex_rinput = \<lparr>ri_turn_key = ''m1.a'', ri_chain = [], ri_workflow = ''s:p:a:m1'', ri_machine = Some ex_machine, ri_excluded = []\<rparr>"

definition ex_refused :: rschedule where
  "ex_refused n = ex_rtick"

definition ex_stopped :: rschedule where
  "ex_stopped n = ex_rtick\<lparr>rk_cancel := (0 < n)\<rparr>"

section \<open>Properties\<close>

text \<open>C5: The model of an agent set to require a machine is never called on the server's key, in a session turn or
  a sub-agent of one: whatever fails, whichever machine is lost or refuses, however many steps the turn takes.\<close>

theorem required_machine_never_on_server:
  assumes "startLLMRoute E input LLMOnMachineRequire signer cancelled = (r, None)"
    and "ri_turn_key input \<noteq> [] \<or> ri_chain input \<noteq> []"
  shows "server_calls (turn_calls E steps r) = 0"
  using start_require [OF assms(1) refl assms(2)] turn_calls_require by simp

theorem required_machine_never_on_server_witness:
  "\<exists>r. startLLMRoute ex_refused ex_rinput LLMOnMachineRequire [] False = (r, None) \<and> server_calls (turn_calls ex_refused [0, 1] r) = 0"
proof -
  have "snd (startLLMRoute ex_refused ex_rinput LLMOnMachineRequire [] False) = None"
    by (simp add: startLLMRoute_def Let_def ex_rinput_def LLMOnMachineRequire_def LLMOnMachineNever_def)
  then obtain r where r: "startLLMRoute ex_refused ex_rinput LLMOnMachineRequire [] False = (r, None)" by (metis prod.collapse)
  from required_machine_never_on_server [OF this, of "[0, 1]"] r show ?thesis by (auto simp: ex_rinput_def)
qed

text \<open>One step asks a machine at most \<open>machineLLMAttempts\<close> times, its attempts numbered 1, 2, ... (each a directive
  of its own), and the server's key at most once.\<close>

theorem step_attempts_bounded:
  "\<exists>j \<le> machineLLMAttempts. attempts (fst (routeCall E step r)) = attempts r @ map (Pair step) [1..<Suc j]
     \<and> server_calls (fst (routeCall E step r)) \<le> Suc (server_calls r)"
proof (cases "rt_machine r")
  case None
  obtain r' resp on err where o: "onServer E step r = (r', resp, on, err)" by (metis prod_cases4)
  from onServer_law [OF o] None show ?thesis by (intro exI [of _ 0]) (simp add: routeCall_def o)
next
  case (Some m)
  have "try_post step (server_calls r) (attempts r) (call_attempts E step machineLLMAttempts r m)"
    by (rule tried.call_post) (simp_all add: try_inv_def machineLLMAttempts_def)
  with Some show ?thesis by (auto simp: routeCall_def try_post_def)
qed

text \<open>A machine a turn left is never called again in that turn, when the choice of a machine respects those the
  turn excluded: the machines its steps call form one run per machine.\<close>

theorem machine_left_never_called_again:
  assumes "choice_ok E" and "rt_machine r = Some m" and "lm_id m \<notin> set (rt_excluded r)" and "called_machines r = []"
  shows "distinct (remdups_adj (called_machines (turn_calls E steps r)))"
  using turn_calls_runs_ok [OF assms(1), of r steps] assms by (simp add: runs_ok_def)

theorem machine_left_never_called_again_witness:
  "distinct (remdups_adj (called_machines (turn_calls ex_refused [0, 1] ex_route)))"
  by (rule machine_left_never_called_again [of _ _ ex_machine])
    (simp_all add: choice_ok_def ex_refused_def ex_rtick_def ex_route_def called_machines_def)

text \<open>Between two attempts a step waits more than nothing and two minutes at most, whatever wait the machine
  reports, even one that overflows 64 bits.\<close>

theorem retry_wait_bounded:
  "0 < retryWait err attempt \<and> retryWait err attempt \<le> machineLLMMaxWait"
proof -
  have "0 < grow_wait n machineLLMFirstWait" for n
    using grow_wait_bounds [of machineLLMFirstWait n] by (simp add: machineLLMFirstWait_def second_def)
  then show ?thesis
    by (auto simp: retryWait_def Let_def machineLLMMaxWait_def second_def split: call_error.splits option.splits)
qed

text \<open>C6: A turn that requires a machine, cancelled while another machine is looked for, is answered: the step
  returns an empty answer and no error, which its caller takes for the model's final one.\<close>

theorem cancelled_choice_reads_as_answer:
  assumes "rt_mode r = LLMOnMachineRequire" and "rt_machine r = Some m" and "\<not> rt_cancelled r"
    and "\<not> rk_cancel (E (rt_clock r))" and "rk_llm (E (rt_clock r)) = Inl (AppError ErrTypeRefused text d)"
    and "rk_choose (E (Suc (rt_clock r))) = (\<lambda>_. Inl e)" and "rk_cancel (E (Suc (rt_clock r)))"
  shows "\<exists>r'. routeCall E step r = (r', empty_response, None, None) \<and> rt_cancelled r'"
proof -
  have f: "machineFailure (AppError ErrTypeRefused text d) = (FailureRefused, False)"
    by (simp add: machineFailure_def ErrTypeRefused_def ErrTypePermanentAPI_def ErrTypeContextTooLong_def ErrTypeUnreachable_def
        ErrTypeStopping_def ErrTypeRevoked_def ErrTypeLost_def ErrTypeHandoffFailed_def)
  have h: "\<not> hasErrorType (AppError ErrTypeRefused text d) ErrTypeHandoffFailed"
    by (simp add: hasErrorType_def ErrTypeRefused_def ErrTypeHandoffFailed_def)
  have "\<exists>r'. call_attempts E step (Suc n) r m = (r', empty_response, None, None) \<and> rt_cancelled r'" for n
    using assms f h by (simp add: rwait_def is_canceled_def routeChoose_def noMachine_def Let_def)
  from this [of 5] assms(2) show ?thesis by (simp add: routeCall_def machineLLMAttempts_def)
qed

theorem cancelled_choice_reads_as_answer_witness:
  "\<exists>r'. routeCall ex_stopped 0 ex_route = (r', empty_response, None, None) \<and> rt_cancelled r'"
  by (rule cancelled_choice_reads_as_answer [of _ ex_machine])
    (simp_all add: ex_stopped_def ex_rtick_def ex_route_def)

end
