(* ===== verification/AgentTools.thy ===== *)
theory AgentTools
  imports LLMRoute Catalog Tasks "HOL-Library.Sublist"
begin

section \<open>What an agent's run makes of its tools\<close>

text \<open>
  The functions of \<open>workflow/agent.go\<close> and \<open>workflow/background.go\<close> that decide nothing of the order of things: the
  input of a sub-agent and of a workflow tool, the refusal of a delegation, the context a call is given, what a
  result reads as, how it is cut, what a failed run says; with \<open>tool/metadata.go\<close> (\<open>WithCallContext\<close>,
  \<open>DecodeResult\<close>, \<open>DisplayInput\<close>), \<open>TakeBackground\<close> (\<open>activity/background.go\<close>) and \<open>TaskSummary\<close>
  (\<open>activity/task.go\<close>).

  A \<open>json.RawMessage\<close> is its bytes. What \<open>encoding/json\<close> reads in them, writes of a value and says of bytes it does
  not read, \<open>strconv.Quote\<close> and the text of an error in Temporal's envelope are the codec's: every theorem holds
  whatever they are. The result of a sub-agent is its output, which \<open>encoding/json\<close> reads back as it wrote it.
\<close>

subsection \<open>Data\<close>

record turn_ref =
  tn_session :: string
  tn_key :: string

record agent_input =
  ai_session :: string
  ai_user :: string
  ai_user_name :: string
  ai_agent :: string
  ai_message :: string
  ai_system :: string
  ai_model :: string
  ai_turn_key :: string
  ai_earlier :: "string list"
  ai_load_memory :: bool
  ai_chain :: "string list"
  ai_channel :: string
  ai_channel_id :: string
  ai_session_turn :: "turn_ref option"
  ai_part_note :: string
  ai_sign :: bool
  ai_machine :: "llm_machine option"
  ai_excluded :: "string list"
  ai_call_prefix :: string

record agent_output =
  ao_response :: string
  ao_messages :: "message list"
  ao_goal :: bool
  ao_cancelled :: bool
  ao_error :: string
  ao_error_type :: string

record call_context =
  cc_chain :: "string list"
  cc_channel :: string
  cc_channel_id :: string
  cc_agent :: string
  cc_queue :: string
  cc_memory_version :: "int option"
  cc_memory_unread :: bool
  cc_turn :: "turn_ref option"
  cc_call :: string
  cc_user :: string
  cc_run_skills :: "string list"

record codec =
  cd_value :: "string \<Rightarrow> raw_json"
  cd_text :: "jval \<Rightarrow> string"
  cd_input :: "agent_input \<Rightarrow> string"
  cd_output :: "agent_output \<Rightarrow> string"
  cd_reason :: "string \<Rightarrow> string \<Rightarrow> string"
  cd_quote :: "string \<Rightarrow> string"
  cd_error :: "call_error \<Rightarrow> string"

definition empty_output :: agent_output where
  "empty_output = \<lparr>ao_response = [], ao_messages = [], ao_goal = False, ao_cancelled = False, ao_error = [], ao_error_type = []\<rparr>"

subsection \<open>Spaces\<close>

text \<open>\<open>unicode.IsSpace\<close>.\<close>

definition is_space :: "nat \<Rightarrow> bool" where
  "is_space r =
     ((9 \<le> r \<and> r \<le> 13) \<or> r = 32 \<or> r = 0x85 \<or> r = 0xA0 \<or> r = 0x1680 \<or> (0x2000 \<le> r \<and> r \<le> 0x200A)
      \<or> r = 0x2028 \<or> r = 0x2029 \<or> r = 0x202F \<or> r = 0x205F \<or> r = 0x3000)"

text \<open>The bytes of a text, rune by rune.\<close>

function split_runes :: "string \<Rightarrow> string list" where
  "split_runes s =
     (if s = [] then [] else let n = snd (decode_rune s) in take n s # split_runes (drop n s))"
  by pat_completeness auto
termination
  by (relation "measure length") (auto simp: decode_rune_size_pos)

declare split_runes.simps [simp del]

definition rune_is_space :: "string \<Rightarrow> bool" where
  "rune_is_space r = is_space (fst (decode_rune r))"

text \<open>\<open>strings.TrimSpace(s) == ""\<close>.\<close>

definition blank :: "string \<Rightarrow> bool" where
  "blank s = list_all rune_is_space (split_runes s)"

text \<open>\<open>strings.Fields\<close>: the words of the runes left, after those of the word being read.\<close>

fun words :: "string \<Rightarrow> string list \<Rightarrow> string list" where
  "words w [] = (if w = [] then [] else [w])"
| "words w (r # rs) =
     (if rune_is_space r then (if w = [] then [] else [w]) @ words [] rs else words (w @ r) rs)"

subsection \<open>Reading a JSON object into a struct\<close>

text \<open>
  A string field \<open>name\<close>, from its value so far: each member of that name sets it, \<open>null\<close> leaves it, anything else is an
  error (\<open>None\<close>). A \<open>*string\<close> is set back to nil by \<open>null\<close>.
\<close>

fun read_string :: "string \<Rightarrow> (string \<times> jval) list \<Rightarrow> string \<Rightarrow> string option" where
  "read_string name [] v = Some v"
| "read_string name ((k, x) # ms) v =
     (if folds_to name k
      then (case x of JVStr s \<Rightarrow> read_string name ms s | JVNull \<Rightarrow> read_string name ms v | _ \<Rightarrow> None)
      else read_string name ms v)"

fun read_string_ptr :: "string \<Rightarrow> (string \<times> jval) list \<Rightarrow> string option \<Rightarrow> string option option" where
  "read_string_ptr name [] v = Some v"
| "read_string_ptr name ((k, x) # ms) v =
     (if folds_to name k
      then (case x of JVStr s \<Rightarrow> read_string_ptr name ms (Some s) | JVNull \<Rightarrow> read_string_ptr name ms None | _ \<Rightarrow> None)
      else read_string_ptr name ms v)"

fun read_bool :: "string \<Rightarrow> (string \<times> jval) list \<Rightarrow> bool \<Rightarrow> bool option" where
  "read_bool name [] v = Some v"
| "read_bool name ((k, x) # ms) v =
     (if folds_to name k
      then (case x of JVBool b \<Rightarrow> read_bool name ms b | JVNull \<Rightarrow> read_bool name ms v | _ \<Rightarrow> None)
      else read_bool name ms v)"

subsection \<open>The background field of a call\<close>

definition TakeBackground :: "codec \<Rightarrow> string \<Rightarrow> (string, string \<times> bool) result" where
  "TakeBackground C input =
     (if index_str ([CHR 0x22] @ BackgroundField @ [CHR 0x22]) input = None then Inr (input, False)
      else case cd_value C input of
             Some (JVObj ms) \<Rightarrow>
               let fields = to_map ms;
                   out = cd_text C (JVObj (filter (\<lambda>(k, _). k \<noteq> BackgroundField) fields))
               in (case map_of fields BackgroundField of
                     None \<Rightarrow> Inr (input, False)
                   | Some (JVBool b) \<Rightarrow> Inr (out, b)
                   | Some JVNull \<Rightarrow> Inr (out, False)
                   | Some _ \<Rightarrow> Inl (BackgroundField @ '' must be true or false''))
           | _ \<Rightarrow> Inr (input, False))"

subsection \<open>The context of a call\<close>

definition callContextKeys :: "string list" where
  "callContextKeys = [''agent_chain'', ''channel'', ''channel_id'', ''agent'', ''notify_queue'', ''memory_version'',
     ''memory_unread'', ''turn'', ''call_id'', ''user_id'', ''run_skills'']"

definition isCallContextKey :: "string \<Rightarrow> bool" where
  "isCallContextKey key = list_ex (\<lambda>reserved. folds_to reserved key) callContextKeys"

definition str_field :: "string \<Rightarrow> string \<Rightarrow> (string \<times> jval) list" where
  "str_field k v = (if v = [] then [] else [(k, JVStr (to_valid v))])"

definition strs_field :: "string \<Rightarrow> string list \<Rightarrow> (string \<times> jval) list" where
  "strs_field k vs = (if vs = [] then [] else [(k, JVArr (map (\<lambda>v. JVStr (to_valid v)) vs))])"

text \<open>\<open>json.Marshal(cc)\<close>: the fields that are not empty.\<close>

definition call_fields :: "call_context \<Rightarrow> (string \<times> jval) list" where
  "call_fields cc =
     strs_field ''agent_chain'' (cc_chain cc)
     @ str_field ''channel'' (cc_channel cc)
     @ str_field ''channel_id'' (cc_channel_id cc)
     @ str_field ''agent'' (cc_agent cc)
     @ str_field ''notify_queue'' (cc_queue cc)
     @ (case cc_memory_version cc of None \<Rightarrow> [] | Some v \<Rightarrow> [(''memory_version'', JVNum (dec_int v))])
     @ (if cc_memory_unread cc then [(''memory_unread'', JVBool True)] else [])
     @ (case cc_turn cc of None \<Rightarrow> []
        | Some t \<Rightarrow> [(''turn'', JVObj [(''session_id'', JVStr (to_valid (tn_session t))), (''turn_key'', JVStr (to_valid (tn_key t)))])])
     @ str_field ''call_id'' (cc_call cc)
     @ str_field ''user_id'' (cc_user cc)
     @ strs_field ''run_skills'' (cc_run_skills cc)"

definition context_members :: "(string \<times> jval) list \<Rightarrow> call_context \<Rightarrow> (string \<times> jval) list" where
  "context_members ms cc = to_map (filter (\<lambda>(k, _). \<not> isCallContextKey k) (to_map ms) @ call_fields cc)"

definition WithCallContext :: "codec \<Rightarrow> string \<Rightarrow> call_context \<Rightarrow> (string, string) result" where
  "WithCallContext C input cc =
     (case cd_value C input of
        Some (JVObj ms) \<Rightarrow> Inr (cd_text C (JVObj (context_members ms cc)))
      | Some JVNull \<Rightarrow> Inr (cd_text C (JVObj (context_members [] cc)))
      | _ \<Rightarrow> Inl (''invalid input: '' @ cd_reason C ''map[string]json.RawMessage'' input))"

definition callContext :: "agent_input \<Rightarrow> string list \<Rightarrow> string \<Rightarrow> string \<Rightarrow> call_context" where
  "callContext input chain signer queue =
     \<lparr>cc_chain = chain, cc_channel = ai_channel input, cc_channel_id = ai_channel_id input, cc_agent = signer,
      cc_queue = queue, cc_memory_version = None, cc_memory_unread = False,
      cc_turn = (if ai_turn_key input \<noteq> [] then Some \<lparr>tn_session = ai_session input, tn_key = ai_turn_key input\<rparr>
                 else ai_session_turn input),
      cc_call = [], cc_user = ai_user input, cc_run_skills = []\<rparr>"

subsection \<open>Delegating\<close>

datatype child = AgentChild agent_input | ToolChild string string

definition maxDelegationDepth :: nat where "maxDelegationDepth = 3"

definition arrow :: string where
  "arrow = '' '' @ [CHR 0xE2, CHR 0x86, CHR 0x92] @ '' ''"

definition delegationRefusal :: "codec \<Rightarrow> string list \<Rightarrow> string \<Rightarrow> string option" where
  "delegationRefusal C chain agentID =
     (if agentID \<in> set chain
      then Some (''agent '' @ cd_quote C agentID @ '' is already in the call chain ('' @ join arrow chain
                 @ ''): delegating to it would loop; answer with what you have'')
      else if maxDelegationDepth < length chain
      then Some (''sub-agents are limited to '' @ dec_nat maxDelegationDepth @ '' levels: do the work in this turn'')
      else None)"

text \<open>The child, and the queue the call's resolution has now.\<close>

definition subAgentInput ::
  "codec \<Rightarrow> string \<Rightarrow> agent_input \<Rightarrow> string \<Rightarrow> resolution \<Rightarrow> call_context \<Rightarrow> string \<Rightarrow> string
   \<Rightarrow> (string, child \<times> string) result" where
  "subAgentInput C rawInput parent childID res parentCall currentAgentID currentQueue =
     (case (case cd_value C rawInput of
              Some (JVObj ms) \<Rightarrow>
                (case (read_string ''task'' ms [], read_string ''model'' ms []) of
                   (Some task, Some model) \<Rightarrow> Some (task, model) | _ \<Rightarrow> None)
            | Some JVNull \<Rightarrow> Some ([], [])
            | _ \<Rightarrow> None) of
        None \<Rightarrow> Inl (''invalid input: '' @ cd_reason C ''struct'' rawInput)
      | Some (task, model) \<Rightarrow>
          if blank task then Inl ''task is required: describe what the agent should do''
          else if rs_agent res = currentAgentID then Inl ''an agent cannot delegate to itself: do the work in this turn''
          else Inr (AgentChild
            \<lparr>ai_session = childID, ai_user = ai_user parent, ai_user_name = [], ai_agent = rs_agent res, ai_message = task,
             ai_system = [], ai_model = (if model = [] then ai_model parent else model), ai_turn_key = [], ai_earlier = [],
             ai_load_memory = False, ai_chain = cc_chain parentCall, ai_channel = ai_channel parent,
             ai_channel_id = ai_channel_id parent, ai_session_turn = cc_turn parentCall, ai_part_note = [],
             ai_sign = ai_sign parent, ai_machine = ai_machine parent, ai_excluded = ai_excluded parent,
             ai_call_prefix = cc_call parentCall @ ''/''\<rparr>, currentQueue))"

definition buildChildInput ::
  "codec \<Rightarrow> string \<Rightarrow> agent_input \<Rightarrow> string \<Rightarrow> resolution \<Rightarrow> call_context \<Rightarrow> string \<Rightarrow> string
   \<Rightarrow> (string, child \<times> string) result" where
  "buildChildInput C rawInput parent childID res call currentAgentID currentQueue =
     (if rs_agent res \<noteq> [] then subAgentInput C rawInput parent childID res call currentAgentID currentQueue
      else if rs_needs_context res
      then map_sum id (\<lambda>input. (ToolChild (rs_workflow res) input, rs_task_queue res)) (WithCallContext C rawInput call)
      else Inr (ToolChild (rs_workflow res) rawInput, rs_task_queue res))"

subsection \<open>Cutting a result\<close>

definition maxToolResultBytes :: nat where "maxToolResultBytes = 96 * 1024"

definition runeStart :: "string \<Rightarrow> nat \<Rightarrow> nat" where
  "runeStart s i = (if length s \<le> i then length s else back_up s i)"

definition omitted :: "nat \<Rightarrow> string" where
  "omitted n = [CHR 0x0A, CHR 0x0A] @ ''[... '' @ dec_nat n @ '' bytes omitted, output too large ...]'' @ [CHR 0x0A, CHR 0x0A]"

definition truncateTo :: "string \<Rightarrow> nat \<Rightarrow> string" where
  "truncateTo content mx =
     (if length content \<le> mx then content
      else let head = runeStart content (mx * 2 div 3);
               tail = runeStart content (length content - (mx - head));
               tail' = (if tail \<le> head then length content else tail)
        in take head content @ omitted (tail' - head) @ drop tail' content)"

definition truncateToolResult :: "string \<Rightarrow> string" where
  "truncateToolResult content = truncateTo content maxToolResultBytes"

subsection \<open>What a run says\<close>

definition maxReActIterations :: nat where "maxReActIterations = 50"

definition exhaustedOutput :: "message list \<Rightarrow> agent_output" where
  "exhaustedOutput newMessages = empty_output\<lparr>ao_messages := newMessages,
     ao_error := ''stopped after '' @ dec_nat maxReActIterations @ '' iterations without a final answer''\<rparr>"

definition cancelledOutput :: "message list \<Rightarrow> agent_output" where
  "cancelledOutput newMessages = empty_output\<lparr>ao_response := ''Agent cancelled.'', ao_messages := newMessages, ao_cancelled := True\<rparr>"

definition AgentNotOpen :: string where "AgentNotOpen = ''AgentNotOpen''"

definition AgentNotOpenMessage :: "string \<Rightarrow> string \<Rightarrow> string" where
  "AgentNotOpenMessage agent user =
     (if user = []
      then ''L'' @ [CHR 0x27] @ ''agent '' @ agent @ '' ne t'' @ [CHR 0x27] @ ''est pas ouvert : un admin peut t'' @ [CHR 0x27] @ ''en donner l'' @ [CHR 0x27]
     @ ''acc'' @ [CHR 0xC3, CHR 0xA8] @ ''s.''
      else ''L'' @ [CHR 0x27] @ ''agent '' @ agent @ '' n'' @ [CHR 0x27] @ ''est pas ouvert '' @ [CHR 0xC3, CHR 0xA0] @ '' '' @ user
        @ '' : un admin peut lui en donner l'' @ [CHR 0x27] @ ''acc'' @ [CHR 0xC3, CHR 0xA8] @ ''s.'')"

definition ContextTooLongMessage :: string where
  "ContextTooLongMessage =
     ''La conversation est trop longue pour le mod'' @ [CHR 0xC3, CHR 0xA8] @ ''le : forke-la ''
     @ [CHR 0xC3, CHR 0xA0] @ '' partir d'' @ [CHR 0x27] @ ''un message r'' @ [CHR 0xC3, CHR 0xA9]
     @ ''cent pour repartir d'' @ [CHR 0x27] @ ''un r'' @ [CHR 0xC3, CHR 0xA9] @ ''sum'' @ [CHR 0xC3, CHR 0xA9]
     @ ''.''"

definition failureText :: "call_error \<Rightarrow> string" where
  "failureText err =
     (case err of AppError _ text _ \<Rightarrow> text | HeartbeatTimeout text \<Rightarrow> text | ScheduleToStartTimeout text \<Rightarrow> text
      | StartToCloseTimeout text \<Rightarrow> text | Terminated text \<Rightarrow> text | CanceledError text \<Rightarrow> text | OtherError text \<Rightarrow> text)"

definition llmFailure :: "call_error \<Rightarrow> string" where
  "llmFailure err =
     (case err of
        AppError t text _ \<Rightarrow>
          if t = ErrTypeContextTooLong then ContextTooLongMessage
          else if t = ErrTypeMachineRequired then text
          else ''call LLM: '' @ failureText err
      | _ \<Rightarrow> ''call LLM: '' @ failureText err)"

definition failureType :: "call_error \<Rightarrow> string" where
  "failureType err = (case err of AppError t _ _ \<Rightarrow> t | _ \<Rightarrow> [])"

definition isScheduleToStartTimeout :: "call_error \<Rightarrow> bool" where
  "isScheduleToStartTimeout err = (case err of ScheduleToStartTimeout _ \<Rightarrow> True | _ \<Rightarrow> False)"

definition childFailure :: "call_error \<Rightarrow> string" where
  "childFailure err =
     (case err of AppError _ text _ \<Rightarrow> text
      | HeartbeatTimeout _ \<Rightarrow> ''it ran out of time'' | ScheduleToStartTimeout _ \<Rightarrow> ''it ran out of time''
      | StartToCloseTimeout _ \<Rightarrow> ''it ran out of time'' | Terminated _ \<Rightarrow> ''it was terminated''
      | CanceledError text \<Rightarrow> text | OtherError text \<Rightarrow> text)"

subsection \<open>What a parent reads\<close>

definition subAgentTooLong :: string where
  "subAgentTooLong =
     ''The agent stopped without an answer: its conversation grew too long for its model. Give it a ''
     @ ''smaller task, or fewer and shorter tool outputs to read.''"

definition subAgentMachinesOff :: string where
  "subAgentMachinesOff =
     ''The agent stopped without an answer: it runs its model on the user'' @ [CHR 0x27]
     @ ''s machine only, and this installation has its machines off.''"

definition subAgentNoMachine :: string where
  "subAgentNoMachine =
     ''The agent stopped without an answer: it runs its model on the user'' @ [CHR 0x27]
     @ ''s machine only, and none of the user'' @ [CHR 0x27] @ ''s machines offers one now.''"

definition subAgentNotOpen :: string where
  "subAgentNotOpen =
     ''This agent is not open to the user you are answering: do the work without it.''"

definition subAgentContent :: "codec \<Rightarrow> agent_output \<Rightarrow> string \<times> bool" where
  "subAgentContent C out =
     (if ao_response out \<noteq> [] then (ao_response out, False)
      else if ao_error_type out = ErrTypeContextTooLong then (subAgentTooLong, True)
      else if ao_error_type out = ErrTypeMachineRequired \<and> ao_error out = MachinesOffMessage then (subAgentMachinesOff, True)
      else if ao_error_type out = ErrTypeMachineRequired then (subAgentNoMachine, True)
      else if ao_error_type out = AgentNotOpen then (subAgentNotOpen, True)
      else if ao_error out \<noteq> [] then (''The agent stopped without an answer: '' @ ao_error out, True)
      else (cd_output C out, False))"

definition DecodeResult :: "codec \<Rightarrow> string \<Rightarrow> string \<times> bool" where
  "DecodeResult C raw =
     (case (case cd_value C raw of
              Some (JVObj ms) \<Rightarrow>
                (case (read_string_ptr ''content'' ms None, read_bool ''is_error'' ms False) of
                   (Some (Some content), Some isError) \<Rightarrow> Some (content, isError) | _ \<Rightarrow> None)
            | Some (JVStr text) \<Rightarrow> Some (text, False)
            | Some JVNull \<Rightarrow> Some ([], False)
            | _ \<Rightarrow> None) of
        Some r \<Rightarrow> r | None \<Rightarrow> (raw, False))"

subsection \<open>What the members see\<close>

definition hiddenInput :: string where
  "hiddenInput = [CHR 0x7B, CHR 0x22] @ ''content'' @ [CHR 0x22] @ '':'' @ [CHR 0x22] @ ''(private)'' @ [CHR 0x22, CHR 0x7D]"

definition DisplayInput :: "bool \<Rightarrow> string \<Rightarrow> string" where
  "DisplayInput private input = (if private then hiddenInput else input)"

definition DisplayResult :: "bool \<Rightarrow> string \<Rightarrow> string" where
  "DisplayResult private content = (if private then ''(private)'' else content)"

subsection \<open>A task's summary\<close>

definition maxTaskSummaryRunes :: nat where "maxTaskSummaryRunes = 160"

definition summary_part :: "jval \<Rightarrow> string list" where
  "summary_part v =
     (case v of JVStr s \<Rightarrow> (let text = join '' '' (words [] (split_runes s)) in if text \<noteq> [] then [text] else []) | _ \<Rightarrow> [])"

definition trim_right_spaces :: "string \<Rightarrow> string" where
  "trim_right_spaces s = rev (dropWhile (\<lambda>c. c = CHR '' '') (rev s))"

definition TaskSummary :: "codec \<Rightarrow> string \<Rightarrow> string" where
  "TaskSummary C input =
     (case cd_value C input of
        Some (JVObj ms) \<Rightarrow>
          let summary = join ('' '' @ [CHR 0xC2, CHR 0xB7] @ '' '') (concat (map (summary_part \<circ> snd) ms));
              runes = split_runes summary
          in if maxTaskSummaryRunes < length runes
             then trim_right_spaces (concat (take (maxTaskSummaryRunes - 1) runes)) @ ellipsis
             else summary
      | _ \<Rightarrow> [])"

subsection \<open>Laws\<close>

lemma valid_omitted: "valid_utf8 (omitted n)"
proof (rule valid_utf8_ascii)
  have "byte c < 128" if "is_digit c" for c using that by (auto simp: is_digit_def)
  then have "list_all (\<lambda>c. byte c < 128) (dec_nat n)" using dec_nat_digits [of n] by (auto simp: list_all_iff)
  then show "list_all (\<lambda>c. byte c < 128) (omitted n)" by (simp add: omitted_def)
qed

lemma runeStart_le: "runeStart s i \<le> length s"
  using back_up_le [of s i] by (simp add: runeStart_def)

lemma runeStart_stops: "runeStart s i = 0 \<or> runeStart s i = length s \<or> rune_start (s ! runeStart s i)"
  using back_up_stops [of s i] by (auto simp: runeStart_def)

lemma runeStart_near: "valid_utf8 s \<Longrightarrow> i \<le> length s \<Longrightarrow> runeStart s i \<le> i \<and> i \<le> runeStart s i + 3"
  using back_up_near [of s i] back_up_le [of s i] by (auto simp: runeStart_def)

lemma valid_cut: "valid_utf8 s \<Longrightarrow> valid_utf8 (take (runeStart s i) s) \<and> valid_utf8 (drop (runeStart s i) s)"
  using runeStart_stops [of s i] runeStart_le [of s i] by (auto intro: valid_utf8_take valid_utf8_drop)

text \<open>The members given to the tool: those of the context, and the model's others.\<close>

lemma subseq_fields:
  "subseq (map fst (str_field k v)) [k]" "subseq (map fst (strs_field k vs)) [k]"
  "subseq (map fst (if b then [(k, x)] else [])) [k]" "subseq (map fst (case y of None \<Rightarrow> [] | Some z \<Rightarrow> [(k, f z)])) [k]"
  by (simp_all add: str_field_def strs_field_def split: option.split)

lemma subseq_call_fields: "subseq (map fst (call_fields cc)) callContextKeys"
proof -
  have keys: "callContextKeys = [''agent_chain''] @ [''channel''] @ [''channel_id''] @ [''agent''] @ [''notify_queue'']
     @ [''memory_version''] @ [''memory_unread''] @ [''turn''] @ [''call_id''] @ [''user_id''] @ [''run_skills'']"
    by (simp add: callContextKeys_def)
  show ?thesis unfolding keys call_fields_def map_append
    by (intro list_emb_append_mono subseq_fields)
qed

lemma call_fields_keys: "fst ` set (call_fields cc) \<subseteq> set callContextKeys"
  using list_emb_set [OF subseq_call_fields] by (metis set_map subsetI)

lemma callContextKeys_reserved: "k \<in> set callContextKeys \<Longrightarrow> isCallContextKey k"
  using folds_to_self by (auto simp: isCallContextKey_def list_ex_iff)

lemma distinct_call_fields: "distinct (map fst (call_fields cc))"
proof -
  have "distinct callContextKeys" by (simp add: callContextKeys_def)
  with subseq_call_fields show ?thesis by (metis subseq_conv_nths distinct_nthsI)
qed

lemma map_of_context_members:
  "map_of (context_members ms cc) k =
     (if isCallContextKey k then map_of (call_fields cc) k else map_of (rev ms) k)"
proof -
  have fields: "map_of (rev (call_fields cc)) = map_of (call_fields cc)"
    using map_of_rev_distinct [OF distinct_call_fields] .
  have f: "map_of (rev (filter (\<lambda>(k, _). P k) xs)) k = (if P k then map_of (rev xs) k else None)" for P and xs :: "(string \<times> jval) list"
    by (induction xs) (auto simp: map_add_def split: option.split)
  show ?thesis
  proof (cases "isCallContextKey k")
    case True
    then show ?thesis by (simp add: context_members_def map_add_def fields f split: option.split)
  next
    case False
    then have "k \<notin> fst ` set (call_fields cc)" using call_fields_keys callContextKeys_reserved by blast
    then have "map_of (call_fields cc) k = None" by (simp add: map_of_eq_None_iff)
    with False show ?thesis by (simp add: context_members_def map_add_def fields f)
  qed
qed

subsection \<open>Properties\<close>

text \<open>An oversized text is cut to its head and its tail around a notice of how many bytes are left out, exactly as
  many as are; head and tail together keep the bound up to the three bytes of a rune, and the cuts fall between runes:
  a valid text stays valid. A text within the bound is kept whole.\<close>

theorem truncation_keeps_head_and_tail:
  assumes "valid_utf8 content"
  shows "valid_utf8 (truncateTo content mx)
    \<and> (length content \<le> mx \<longrightarrow> truncateTo content mx = content)
    \<and> (mx < length content \<longrightarrow>
        (\<exists>head mid tail. content = head @ mid @ tail \<and> truncateTo content mx = head @ omitted (length mid) @ tail
           \<and> length head + length tail \<le> mx + 3))"
proof (cases "length content \<le> mx")
  case False
  define h where "h = runeStart content (mx * 2 div 3)"
  define t where "t = runeStart content (length content - (mx - h))"
  define t' where "t' = (if t \<le> h then length content else t)"
  have "mx * 2 div 3 \<le> mx" by simp
  with runeStart_near [OF assms, of "mx * 2 div 3"] False have h: "h \<le> mx" by (auto simp: h_def)
  have t: "t \<le> length content" "length content - (mx - h) \<le> t + 3"
    using runeStart_near [OF assms, of "length content - (mx - h)"] by (auto simp: t_def runeStart_le)
  have t': "h \<le> t'" "t' \<le> length content" "length content - (mx - h) \<le> t' + 3"
    using t h False by (auto simp: t'_def)
  have cut: "truncateTo content mx = take h content @ omitted (t' - h) @ drop t' content"
    using False by (simp add: truncateTo_def Let_def h_def t_def t'_def)
  have "valid_utf8 (take h content)" "valid_utf8 (drop t' content)"
    using valid_cut [OF assms] by (auto simp: h_def t_def t'_def)
  then have "valid_utf8 (truncateTo content mx)" by (simp add: cut valid_utf8_append valid_omitted)
  moreover have "content = take h content @ take (t' - h) (drop h content) @ drop t' content"
    using t' by (metis append.assoc append_take_drop_id le_add_diff_inverse take_add)
  moreover have "length (take (t' - h) (drop h content)) = t' - h" using t' by simp
  moreover have "length (take h content) + length (drop t' content) \<le> mx + 3" using t' h False by simp
  ultimately show ?thesis using False cut by metis
qed (use assms in \<open>simp add: truncateTo_def\<close>)

theorem truncation_keeps_head_and_tail_witness:
  "\<exists>head mid tail. ''abcdefgh'' = head @ mid @ tail \<and> truncateTo ''abcdefgh'' 3 = head @ omitted (length mid) @ tail
     \<and> length head + length tail \<le> 3 + 3"
proof -
  have "valid_utf8 ''abcdefgh''" by (rule valid_utf8_ascii) simp
  from truncation_keeps_head_and_tail [OF this, of 3] show ?thesis by simp
qed

text \<open>C12: What a model writes never stands for the context of its call: of the input a tool that needs it is given, every
  member that Go would decode into a field of the context is the caller's own, in whatever case the model wrote it; the
  fields of the caller are all there, and the model's other members are kept.\<close>

theorem call_context_not_forged:
  assumes "WithCallContext C input cc = Inr out" and "cd_value C input = Some (JVObj written)"
  shows "\<exists>members. out = cd_text C (JVObj members)
    \<and> (\<forall>k v. (k, v) \<in> set members \<and> isCallContextKey k \<longrightarrow> (k, v) \<in> set (call_fields cc))
    \<and> set (call_fields cc) \<subseteq> set members
    \<and> (\<forall>k. \<not> isCallContextKey k \<longrightarrow> map_of members k = map_of (rev written) k)"
proof (intro exI [of _ "context_members written cc"] conjI allI impI)
  let ?ms = "context_members written cc"
  have d: "distinct (map fst ?ms)" by (simp add: context_members_def distinct_to_map)
  show "out = cd_text C (JVObj ?ms)" using assms by (simp add: WithCallContext_def)
  show "(k, v) \<in> set (call_fields cc)" if "(k, v) \<in> set ?ms \<and> isCallContextKey k" for k v
  proof -
    from that d have "map_of ?ms k = Some v" by simp
    with that show ?thesis by (auto simp: map_of_context_members dest: map_of_SomeD)
  qed
  show "set (call_fields cc) \<subseteq> set ?ms"
  proof (rule subrelI)
    fix k v assume m: "(k, v) \<in> set (call_fields cc)"
    then have "isCallContextKey k" using call_fields_keys callContextKeys_reserved by force
    moreover have "map_of (call_fields cc) k = Some v" using m distinct_call_fields by simp
    ultimately have "map_of ?ms k = Some v" by (simp add: map_of_context_members)
    then show "(k, v) \<in> set ?ms" by (rule map_of_SomeD)
  qed
  show "map_of ?ms k = map_of (rev written) k" if "\<not> isCallContextKey k" for k
    using that by (simp add: map_of_context_members)
qed

definition ex_codec :: codec where
  "ex_codec = \<lparr>cd_value = (\<lambda>_. Some (JVObj [(''task'', JVStr ''count''), (''USER_ID'', JVStr ''root'')])), cd_text = (\<lambda>_. ''{}''),
     cd_input = (\<lambda>_. []), cd_output = (\<lambda>_. []), cd_reason = (\<lambda>_ _. []), cd_quote = id, cd_error = (\<lambda>_. [])\<rparr>"

theorem call_context_not_forged_witness:
  "\<exists>members. ''{}'' = cd_text ex_codec (JVObj members)
    \<and> (\<forall>v. (''USER_ID'', v) \<notin> set members) \<and> map_of members ''task'' = Some (JVStr ''count'')"
proof -
  define cc where "cc = \<lparr>cc_chain = [''jarvis''], cc_channel = [], cc_channel_id = [], cc_agent = [], cc_queue = [],
    cc_memory_version = None, cc_memory_unread = False, cc_turn = None, cc_call = ''c1'', cc_user = ''alice'', cc_run_skills = []\<rparr>"
  have "WithCallContext ex_codec ''in'' cc = Inr ''{}''" by (simp add: WithCallContext_def ex_codec_def)
  from call_context_not_forged [OF this, of "[(''task'', JVStr ''count''), (''USER_ID'', JVStr ''root'')]"]
  obtain ms where ms: "''{}'' = cd_text ex_codec (JVObj ms)"
      "\<forall>k v. (k, v) \<in> set ms \<and> isCallContextKey k \<longrightarrow> (k, v) \<in> set (call_fields cc)"
      "\<forall>k. \<not> isCallContextKey k \<longrightarrow>
         map_of ms k = map_of (rev [(''task'', JVStr ''count''), (''USER_ID'', JVStr ''root'')]) k"
    by (auto simp: ex_codec_def)
  have "isCallContextKey ''USER_ID''" "\<not> isCallContextKey ''task''"
    by code_simp+
  moreover have "(''USER_ID'', v) \<notin> set (call_fields cc)" for v
  proof -
    have "''USER_ID'' \<notin> set callContextKeys" by (simp add: callContextKeys_def)
    with call_fields_keys [of cc] show ?thesis by (metis fst_conv image_eqI subsetD)
  qed
  ultimately have "\<forall>v. (''USER_ID'', v) \<notin> set ms" "map_of ms ''task'' = Some (JVStr ''count'')" using ms(2,3) by (blast, simp)
  with ms(1) show ?thesis by blast
qed

end
