(* ===== verification/AgentLoop.thy ===== *)
theory AgentLoop
  imports AgentTools ConvOrder
begin

section \<open>A run of an agent\<close>

text \<open>
  \<open>AgentWorkflow\<close> (\<open>workflow/agent.go\<close>) with \<open>backgroundStart\<close> (\<open>workflow/background.go\<close>), and what its calls to the
  model read (\<open>LLMActivities.conversation\<close>, \<open>activity/llm.go\<close>). The state is the route of the model, which holds the
  clock of the waits and whether the context is cancelled (\<open>LLMRoute\<close>), the messages of the turn, how many of them were
  confirmed written, the table of messages, and a log of what the run did. Each wait is a tick of a schedule: what the
  activity or the child waited for gives, what other writers added to the table by then, whether the context is
  cancelled by then. What is scheduled on a cancelled context fails at once, on a disconnected one it does not.
  Best-effort notifications are waits.
\<close>

subsection \<open>The schedule\<close>

record skills_output =
  sk_name :: string
  sk_llm_on_machine :: string
  sk_run_skills :: "string list"

record exec_output =
  ex_content :: string
  ex_error :: bool
  ex_files :: "file_ref list"

text \<open>A write may be committed and its success never reach the run.\<close>

datatype persisted = Written | WrittenUnknown | NotWritten

record atick = rtick +
  ak_others :: "msg_write list"
  ak_skills :: "(call_error, skills_output) result"
  ak_tools :: "(call_error, list_tools_output) result"
  ak_persist :: persisted
  ak_register :: "(call_error, string) result"
  ak_start :: "call_error option"
  ak_exec :: "(call_error, exec_output) result"
  ak_child :: "(call_error, string) result"
  ak_agent :: "(call_error, agent_output) result"

type_synonym aschedule = "nat \<Rightarrow> atick"

definition route_ticks :: "aschedule \<Rightarrow> rschedule" where
  "route_ticks E n = rtick.truncate (E n)"

subsection \<open>The state\<close>

record turn_history =
  th_session :: string
  th_earlier :: "string list"
  th_turn :: string
  th_tail :: "message list"
  th_start :: nat

record prompt_ref =
  pr_override :: string
  pr_memory_of :: string
  pr_user_name :: string
  pr_part_note :: string
  pr_closed :: "string list"

record llm_turn_request =
  lr_model :: string
  lr_agent :: string
  lr_user :: string
  lr_tools :: "string list"
  lr_prompt :: prompt_ref
  lr_messages :: "message list"
  lr_history :: "turn_history option"

datatype target =
    ToChild child string string
  | ToTask bg_task child string string
  | ToActivity string string "call_context option"

datatype agent_event =
    Asked nat llm_turn_request "message list" msg_table
  | Stored "message list" msg_table
  | Dispatched string target
  | ToldCalls "tool_call list"
  | ToldAnswer string string string string
  | ToldFiles "file_ref list"
  | ToldTask string
  | DroppedTask string

record agent_state =
  as_route :: route
  as_turn :: "message list"
  as_persisted :: nat
  as_table :: msg_table
  as_log :: "agent_event list"

abbreviation clock :: "agent_state \<Rightarrow> nat" where "clock st \<equiv> rt_clock (as_route st)"

abbreviation cancelled :: "agent_state \<Rightarrow> bool" where "cancelled st \<equiv> rt_cancelled (as_route st)"

definition others :: "aschedule \<Rightarrow> agent_state \<Rightarrow> agent_state" where
  "others E st = st\<lparr>as_table := foldl write_step (as_table st) (ak_others (E (clock st)))\<rparr>"

definition await :: "aschedule \<Rightarrow> agent_event list \<Rightarrow> agent_state \<Rightarrow> agent_state" where
  "await E es st =
     (let st' = others E st in st'\<lparr>as_route := rwait (route_ticks E) [] (as_route st'), as_log := as_log st' @ es\<rparr>)"

text \<open>What a run knows from its start: its own workflow and queue, its agent, the tools it may dispatch.\<close>

record run_context =
  rc_workflow :: string
  rc_queue :: string
  rc_name :: string
  rc_signed :: string
  rc_chain :: "string list"
  rc_tools :: list_tools_output
  rc_call :: call_context

subsection \<open>Writing the turn\<close>

definition flush :: "aschedule \<Rightarrow> agent_input \<Rightarrow> agent_state \<Rightarrow> agent_state" where
  "flush E input st =
     (let pending = drop (as_persisted st) (as_turn st) in
      if ai_turn_key input = [] \<or> pending = [] then st
      else
        let outcome = ak_persist (E (clock st));
            st1 = await E [] st;
            st2 = (if outcome = NotWritten then st1
                   else st1\<lparr>as_table := AppendMessages (as_table st1) (ai_session input) (ai_turn_key input)
                                          (int (as_persisted st)) pending\<rparr>)
        in st2\<lparr>as_persisted := (if outcome = Written then as_persisted st + length pending else as_persisted st),
                as_log := as_log st2 @ [Stored (as_turn st2) (as_table st2)]\<rparr>)"

subsection \<open>Asking the model\<close>

definition llmRequest :: "agent_input \<Rightarrow> run_context \<Rightarrow> agent_state \<Rightarrow> llm_turn_request" where
  "llmRequest input rc st =
     \<lparr>lr_model = ai_model input, lr_agent = ai_agent input, lr_user = ai_user input,
      lr_tools = map td_name (lt_tools (rc_tools rc)),
      lr_prompt = \<lparr>pr_override = ai_system input,
        pr_memory_of = (if ai_turn_key input \<noteq> [] \<or> ai_load_memory input then ai_user input else []),
        pr_user_name = ai_user_name input, pr_part_note = ai_part_note input, pr_closed = lt_closed (rc_tools rc)\<rparr>,
      lr_messages = (if ai_turn_key input = [] then as_turn st else []),
      lr_history =
        (if ai_turn_key input = [] then None
         else Some \<lparr>th_session = ai_session input, th_earlier = ai_earlier input, th_turn = ai_turn_key input,
                     th_tail = drop (as_persisted st) (as_turn st), th_start = as_persisted st\<rparr>)\<rparr>"

text \<open>\<open>LLMActivities.conversation\<close>: \<open>None\<close> is a request that gives its conversation twice.\<close>

definition conversation :: "msg_table \<Rightarrow> llm_turn_request \<Rightarrow> message list option" where
  "conversation T req =
     (case lr_history req of
        None \<Rightarrow> Some (lr_messages req)
      | Some h \<Rightarrow>
          if lr_messages req \<noteq> [] then None
          else
            let ordered = Order (LoadConversation T (th_session h) (ScopeOf (th_turn h) (th_earlier h)));
                unstored = filter (\<lambda>(i, m). TurnMessageKey (th_turn h) (int (th_start h + i)) \<notin> r_key ` set ordered)
                             (enumerate 0 (th_tail h))
            in Some (map r_data ordered @ map snd unstored))"

definition ask :: "aschedule \<Rightarrow> agent_input \<Rightarrow> run_context \<Rightarrow> nat \<Rightarrow> agent_state
    \<Rightarrow> agent_state \<times> llm_response \<times> llm_machine option \<times> call_error option" where
  "ask E input rc i st =
     (let st1 = others E st;
          st2 = st1\<lparr>as_log := as_log st1 @ [Asked i (llmRequest input rc st1) (as_turn st1) (as_table st1)]\<rparr>
      in case routeCall (route_ticks E) i (as_route st2) of
           (r, resp, on, err) \<Rightarrow> (st2\<lparr>as_route := r\<rparr>, resp, on, err))"

subsection \<open>Dispatching the calls\<close>

datatype dispatch =
    Unavailable string
  | Launched bg_task
  | ChildRuns bool bool
  | ActivityRuns string bool

text \<open>\<open>newBackgroundStart\<close>: the task a call launches.\<close>

definition newBackgroundStart :: "codec \<Rightarrow> agent_input \<Rightarrow> tool_call \<Rightarrow> string \<Rightarrow> call_context \<Rightarrow> string \<Rightarrow> bg_task" where
  "newBackgroundStart C input tc toolInput cc taskID =
     \<lparr>t_id = taskID, t_session = ai_session input, t_participant = ai_agent input, t_user = ai_user input,
      t_user_name = ai_user_name input, t_tool = tc_name tc, t_summary = TaskSummary C toolInput,
      t_turn_key = ai_turn_key input, t_call_id = cc_call cc, t_channel = ai_channel input,
      t_channel_id = ai_channel_id input, t_state = BackgroundRunning, t_started = 0, t_ended = None, t_ended_by = [],
      t_result = 0, t_cancelled_by = [], t_cancel_sent = None, t_woken = None, t_follow_ups = []\<rparr>"

text \<open>\<open>launch\<close>: on a disconnected context; \<open>Inl\<close> is the refusal the model reads.\<close>

definition launch :: "aschedule \<Rightarrow> bg_task \<Rightarrow> child \<Rightarrow> string \<Rightarrow> string \<Rightarrow> agent_state \<Rightarrow> agent_state \<times> dispatch" where
  "launch E t ch childID queue st =
     (case ak_register (E (clock st)) of
        Inl err \<Rightarrow> (await E [] st, Unavailable (''The background task could not be recorded: '' @ failureText err))
      | Inr refused \<Rightarrow>
          if refused \<noteq> [] then (await E [] st, Unavailable refused)
          else (await E [Dispatched (t_tool t) (ToTask t ch childID queue)] st, Launched t))"

text \<open>\<open>started\<close>: what the model reads of a task launched.\<close>

definition started :: "aschedule \<Rightarrow> bg_task \<Rightarrow> agent_state \<Rightarrow> agent_state \<times> string \<times> bool" where
  "started E t st =
     (case ak_start (E (clock st)) of
        Some err \<Rightarrow>
          (await E [DroppedTask (t_id t)] (await E [] st), ''The background task could not start: '' @ failureText err, True)
      | None \<Rightarrow>
          (await E [ToldTask (t_id t)] (await E [] st),
           ''Background task started, ID '' @ t_id t @ ''. Its result will reach you in a message when it ends, in a new turn: ''
             @ ''do not wait for it, nor start it again. Tell the user it runs.'', False))"

definition bg_only_from_turn :: string where
  "bg_only_from_turn =
     ''background tasks are launched from a session'' @ [CHR 0x27]
     @ ''s turn only: make this call without background, and wait for its result''"

definition dispatch_call ::
  "codec \<Rightarrow> aschedule \<Rightarrow> agent_input \<Rightarrow> run_context \<Rightarrow> call_context \<Rightarrow> nat \<Rightarrow> nat \<Rightarrow> tool_call \<Rightarrow> agent_state
   \<Rightarrow> agent_state \<times> dispatch" where
  "dispatch_call C E input rc call i j tc st =
     (case lt_resolutions (rc_tools rc) (tc_name tc) of
        None \<Rightarrow> (st, Unavailable (''Tool '' @ cd_quote C (tc_name tc) @ '' is not available to this agent.''))
      | Some res \<Rightarrow>
          let cc = call\<lparr>cc_call := ai_call_prefix input @ callKey (tc_id tc) i j\<rparr>
          in case (if rs_background res
                   then (case TakeBackground C (tc_input tc) of
                           Inl err \<Rightarrow> Inl err
                         | Inr (toolInput, background) \<Rightarrow>
                             if background \<and> ai_turn_key input = [] then Inl bg_only_from_turn else Inr (toolInput, background))
                   else Inr (tc_input tc, False)) of
               Inl err \<Rightarrow> (st, Unavailable err)
             | Inr (toolInput, background) \<Rightarrow>
                 if rs_kind res = ToolKindWorkflow then
                   let taskID = BackgroundTaskID (rc_workflow rc) (callKey (tc_id tc) i j);
                       childID = childWorkflowID (if background then taskID else rc_workflow rc) (tc_name tc) (tc_id tc) i j;
                       parent = input\<lparr>ai_machine := rt_machine (as_route st), ai_excluded := rt_excluded (as_route st)\<rparr>
                   in (case buildChildInput C toolInput parent childID res cc (ai_agent input) (rc_queue rc) of
                         Inl err \<Rightarrow> (st, Unavailable err)
                       | Inr (ch, queue) \<Rightarrow>
                           (case (if rs_agent res \<noteq> [] then delegationRefusal C (rc_chain rc) (rs_agent res) else None) of
                              Some err \<Rightarrow> (st, Unavailable err)
                            | None \<Rightarrow>
                                if background then launch E (newBackgroundStart C input tc toolInput cc taskID) ch childID queue st
                                else (st\<lparr>as_log := as_log st @ [Dispatched (tc_name tc) (ToChild ch childID queue)]\<rparr>,
                                      ChildRuns (rs_agent res \<noteq> []) (cancelled st))))
                 else (st\<lparr>as_log := as_log st @ [Dispatched (tc_name tc)
                             (ToActivity (tc_name tc) toolInput (if rs_needs_context res then Some cc else None))]\<rparr>,
                       ActivityRuns (rs_task_queue res) (cancelled st)))"

fun dispatch_all ::
  "codec \<Rightarrow> aschedule \<Rightarrow> agent_input \<Rightarrow> run_context \<Rightarrow> call_context \<Rightarrow> nat \<Rightarrow> nat \<Rightarrow> tool_call list \<Rightarrow> agent_state
   \<Rightarrow> agent_state \<times> dispatch list" where
  "dispatch_all C E input rc call i j [] st = (st, [])"
| "dispatch_all C E input rc call i j (tc # tcs) st =
     (case dispatch_call C E input rc call i j tc st of
        (st1, d) \<Rightarrow>
          (case dispatch_all C E input rc call i (Suc j) tcs st1 of (st2, ds) \<Rightarrow> (st2, d # ds)))"

subsection \<open>Collecting the results\<close>

text \<open>The result of one dispatch: the text, whether it is an error, the files it published. What was scheduled on a
  cancelled context fails.\<close>

definition collect_one ::
  "codec \<Rightarrow> aschedule \<Rightarrow> tool_call \<Rightarrow> dispatch \<Rightarrow> agent_state \<Rightarrow> agent_state \<times> string \<times> bool \<times> file_ref list" where
  "collect_one C E tc d st =
     (case d of
        Unavailable text \<Rightarrow> (st, text, True, [])
      | Launched t \<Rightarrow> (case started E t st of (st', text, err) \<Rightarrow> (st', text, err, []))
      | ChildRuns is_agent dead \<Rightarrow>
          if is_agent then
            (case (if dead then Inl (CanceledError []) else ak_agent (E (clock st))) of
               Inl err \<Rightarrow> (await E [] st, ''Workflow failed: '' @ cd_error C err, True, [])
             | Inr out \<Rightarrow> (case subAgentContent C out of (text, err) \<Rightarrow> (await E [] st, text, err, [])))
          else
            (case (if dead then Inl (CanceledError []) else ak_child (E (clock st))) of
               Inl err \<Rightarrow> (await E [] st, ''Workflow failed: '' @ cd_error C err, True, [])
             | Inr raw \<Rightarrow> (case DecodeResult C raw of (text, err) \<Rightarrow> (await E [] st, text, err, [])))
      | ActivityRuns queue dead \<Rightarrow>
          (case (if dead then Inl (CanceledError []) else ak_exec (E (clock st))) of
             Inl err \<Rightarrow>
               (await E [] st,
                if isScheduleToStartTimeout err
                then ''Tool '' @ cd_quote C (tc_name tc) @ '' is unavailable: no worker is serving task queue '' @ cd_quote C queue @ ''.''
                else ''Tool execution failed: '' @ cd_error C err, True, [])
           | Inr out \<Rightarrow> (await E [] st, ex_content out, ex_error out, ex_files out)))"

definition result_message :: "tool_call \<Rightarrow> string \<Rightarrow> bool \<Rightarrow> message" where
  "result_message tc text err = (empty_message RoleTool)\<lparr>m_result :=
     Some \<lparr>tr_call = tc_id tc, tr_content = truncateToolResult text, tr_error = err\<rparr>\<rparr>"

fun collect :: "codec \<Rightarrow> aschedule \<Rightarrow> (tool_call \<times> dispatch) list \<Rightarrow> agent_state \<Rightarrow> agent_state \<times> file_ref list" where
  "collect C E [] st = (st, [])"
| "collect C E ((tc, d) # ds) st =
     (case collect_one C E tc d st of
        (st1, text, err, files) \<Rightarrow>
          (case collect C E ds (st1\<lparr>as_turn := as_turn st1 @ [result_message tc text err]\<rparr>) of
             (st2, files2) \<Rightarrow> (st2, files @ files2)))"

subsection \<open>The loop\<close>

definition answer_message :: "agent_input \<Rightarrow> run_context \<Rightarrow> llm_response \<Rightarrow> llm_machine option \<Rightarrow> message" where
  "answer_message input rc resp on =
     stampAnswer ((empty_message RoleAssistant)\<lparr>m_content := (if rp_content resp \<noteq> [] then json_marshal (rp_content resp) else JAbsent),
       m_calls := rp_calls resp, m_user := ai_user input, m_agent := ai_agent input, m_author := rc_name rc\<rparr>) resp on"

definition shown_calls :: "run_context \<Rightarrow> tool_call list \<Rightarrow> tool_call list" where
  "shown_calls rc calls =
     map (\<lambda>tc. tc\<lparr>tc_input := DisplayInput (case lt_resolutions (rc_tools rc) (tc_name tc) of Some res \<Rightarrow> rs_private res | None \<Rightarrow> False)
                               (tc_input tc)\<rparr>) calls"

definition reply_to :: "agent_input \<Rightarrow> string \<times> string" where
  "reply_to input = (if ai_turn_key input = [] then ([], []) else (ai_channel input, ai_channel_id input))"

definition run_calls :: "codec \<Rightarrow> aschedule \<Rightarrow> agent_input \<Rightarrow> run_context \<Rightarrow> nat \<Rightarrow> llm_response \<Rightarrow> llm_machine option
    \<Rightarrow> agent_state \<Rightarrow> agent_state" where
  "run_calls C E input rc i resp on st =
     (let call = (rc_call rc)\<lparr>cc_memory_version := rp_memory_version resp, cc_memory_unread := rp_memory_unread resp\<rparr>;
          st1 = await E [ToldCalls (shown_calls rc (rp_calls resp))] (st\<lparr>as_turn := as_turn st @ [answer_message input rc resp on]\<rparr>);
          (st2, ds) = dispatch_all C E input rc call i 0 (rp_calls resp) st1;
          (st3, files) = collect C E (zip (rp_calls resp) ds) st2;
          st4 = flush E input st3
      in if files \<noteq> [] \<and> cc_turn (rc_call rc) \<noteq> None then await E [ToldFiles files] st4 else st4)"

definition final_answer :: "aschedule \<Rightarrow> agent_input \<Rightarrow> run_context \<Rightarrow> llm_response \<Rightarrow> llm_machine option \<Rightarrow> agent_state
    \<Rightarrow> agent_state \<times> agent_output" where
  "final_answer E input rc resp on st =
     (let st1 = (if rp_content resp \<noteq> [] then st\<lparr>as_turn := as_turn st @ [answer_message input rc resp on]\<rparr> else st);
          st2 = await E [ToldAnswer (fst (reply_to input)) (snd (reply_to input)) (rc_signed rc) (rp_content resp)] (flush E input st1)
      in (st2, empty_output\<lparr>ao_response := rp_content resp, ao_messages := as_turn st2, ao_goal := (rp_stop resp = ''end_turn'')\<rparr>))"

text \<open>The iterations left, \<open>n\<close>, end at \<open>maxReActIterations\<close>.\<close>

fun react_loop :: "codec \<Rightarrow> aschedule \<Rightarrow> agent_input \<Rightarrow> run_context \<Rightarrow> nat \<Rightarrow> agent_state \<Rightarrow> agent_state \<times> agent_output" where
  "react_loop C E input rc 0 st = (let st' = flush E input st in (st', exhaustedOutput (as_turn st')))"
| "react_loop C E input rc (Suc n) st =
     (if cancelled st then (let st' = flush E input st in (st', cancelledOutput (as_turn st')))
      else case ask E input rc (maxReActIterations - Suc n) st of
             (st1, resp, on, Some err) \<Rightarrow>
               let st2 = flush E input st1
               in if cancelled st2 then (st2, cancelledOutput (as_turn st2))
                  else (st2, empty_output\<lparr>ao_messages := as_turn st2, ao_error := llmFailure err, ao_error_type := failureType err\<rparr>)
           | (st1, resp, on, None) \<Rightarrow>
               if rp_calls resp = [] then final_answer E input rc resp on st1
               else react_loop C E input rc n (run_calls C E input rc (maxReActIterations - Suc n) resp on st1))"

subsection \<open>The workflow\<close>

definition idle_route :: "bool \<Rightarrow> route" where
  "idle_route c = \<lparr>rt_mode = [], rt_machine = None, rt_excluded = [], rt_off = False, rt_unreached = [], rt_noting = False,
     rt_noted = False, rt_participant = [], rt_agent = [], rt_clock = 0, rt_cancelled = c, rt_log = []\<rparr>"

definition user_message :: "agent_input \<Rightarrow> message" where
  "user_message input = (empty_message RoleUser)\<lparr>m_content := json_marshal (ai_message input), m_user := ai_user input,
     m_author := ai_user_name input\<rparr>"

definition start_run :: "agent_input \<Rightarrow> msg_table \<Rightarrow> bool \<Rightarrow> agent_state" where
  "start_run input T c =
     \<lparr>as_route = idle_route c, as_turn = (if ai_turn_key input = [] then [user_message input] else []), as_persisted = 0,
      as_table = T, as_log = []\<rparr>"

text \<open>The waits of \<open>startLLMRoute\<close> go on from the run's clock.\<close>

definition start_route :: "aschedule \<Rightarrow> agent_input \<Rightarrow> string \<Rightarrow> string \<Rightarrow> string \<Rightarrow> agent_state \<Rightarrow> agent_state \<times> call_error option" where
  "start_route E input workflow mode signer st =
     (case startLLMRoute (\<lambda>n. route_ticks E (clock st + n))
             \<lparr>ri_turn_key = ai_turn_key input, ri_chain = ai_chain input, ri_workflow = workflow,
              ri_machine = ai_machine input, ri_excluded = ai_excluded input\<rparr> mode signer (cancelled st) of
        (r, err) \<Rightarrow> (st\<lparr>as_route := r\<lparr>rt_clock := clock st + rt_clock r\<rparr>\<rparr>, err))"

text \<open>A turn's note is cleared at its end, whatever it is.\<close>

definition clear_note :: "aschedule \<Rightarrow> agent_state \<times> agent_output \<Rightarrow> agent_state \<times> (string, agent_output) result" where
  "clear_note E = (\<lambda>(st, out). (st\<lparr>as_route := clearNote (route_ticks E) (as_route st)\<rparr>, Inr out))"

definition AgentWorkflow :: "codec \<Rightarrow> aschedule \<Rightarrow> agent_input \<Rightarrow> string \<Rightarrow> string \<Rightarrow> msg_table \<Rightarrow> bool
    \<Rightarrow> agent_state \<times> (string, agent_output) result" where
  "AgentWorkflow C E input workflow queue T c =
     (let st = start_run input T c in
      if ai_agent input = [] then (st, Inl ''agent_id is required'')
      else
        let st0 = flush E input st;
            st1 = await E [] st0
        in case (if cancelled st0 then Inl (CanceledError []) else ak_skills (E (clock st0))) of
             Inl err \<Rightarrow> (st1, if cancelled st1 then Inr (cancelledOutput (as_turn st1)) else Inl (''load skills: '' @ cd_error C err))
           | Inr skills \<Rightarrow>
               let name = (if sk_name skills = [] then ai_agent input else sk_name skills);
                   signed = (if ai_sign input then name else []);
                   st2 = await E [] st1
               in case (if cancelled st1 then Inl (CanceledError []) else ak_tools (E (clock st1))) of
                    Inl err \<Rightarrow> (st2, if cancelled st2 then Inr (cancelledOutput (as_turn st2)) else Inl (''list tools: '' @ cd_error C err))
                  | Inr tools \<Rightarrow>
                      if lt_refused tools \<noteq> []
                      then (st2, Inr (empty_output\<lparr>ao_error := AgentNotOpenMessage name (ai_user_name input), ao_error_type := AgentNotOpen\<rparr>))
                      else case start_route E input workflow (sk_llm_on_machine skills) signed st2 of
                             (st3, Some err) \<Rightarrow>
                               let st4 = flush E input st3
                               in clear_note E (st4, empty_output\<lparr>ao_messages := as_turn st4, ao_error := llmFailure err,
                                                        ao_error_type := failureType err\<rparr>)
                           | (st3, None) \<Rightarrow>
                               if cancelled st3 then clear_note E (st3, cancelledOutput (as_turn st3))
                               else
                                 let chain = ai_chain input @ [ai_agent input];
                                     rc = \<lparr>rc_workflow = workflow, rc_queue = queue, rc_name = name, rc_signed = signed,
                                           rc_chain = chain, rc_tools = tools,
                                           rc_call = (callContext input chain signed queue)\<lparr>cc_run_skills := sk_run_skills skills\<rparr>\<rparr>
                                 in clear_note E (react_loop C E input rc maxReActIterations st3))"

end
