(* ===== verification/AgentRun.thy ===== *)
theory AgentRun
  imports AgentLoop
begin

section \<open>Properties of an agent's run\<close>

text \<open>
  What a run of \<open>AgentWorkflow\<close> leaves in the table of messages and shows its model, what it dispatches, how often it
  asks, and how deep its delegations go.
\<close>

subsection \<open>The rows of a turn\<close>

text \<open>The rows a turn wrote in its session, its end excepted, in the order of their IDs.\<close>

definition own_rows :: "msg_table \<Rightarrow> string \<Rightarrow> string \<Rightarrow> msg_row list" where
  "own_rows T sid t = filter (\<lambda>r. r_session r = sid \<and> TurnOf (r_key r) = Some t \<and> \<not> IsTurnEnd (r_key r)) (rows T)"

text \<open>The first \<open>k\<close> messages of the turn are stored, each under its key, and nothing else of it.\<close>

definition stored :: "msg_table \<Rightarrow> string \<Rightarrow> string \<Rightarrow> message list \<Rightarrow> nat \<Rightarrow> bool" where
  "stored T sid t turn k \<longleftrightarrow> k \<le> length turn
     \<and> map (\<lambda>r. (r_key r, r_data r)) (own_rows T sid t) = map (\<lambda>n. (TurnMessageKey t (int n), turn ! n)) [0..<k]"

fun write_keys :: "msg_write \<Rightarrow> (string \<times> string) set" where
  "write_keys (WMessage sid key m) = {(sid, key)}"
| "write_keys (WMessages sid t i ms) = (\<lambda>n. (sid, TurnMessageKey t (i + int n))) ` {..<length ms}"
| "write_keys (WTurnEnd sid t m) = {(sid, TurnEndKey t)}"

definition foreign :: "string \<Rightarrow> string \<Rightarrow> msg_write \<Rightarrow> bool" where
  "foreign sid t w \<longleftrightarrow> (\<forall>(s, k) \<in> write_keys w. \<not> (s = sid \<and> TurnOf k = Some t \<and> \<not> IsTurnEnd k))"

lemma own_rows_insert_other:
  "\<not> (s = sid \<and> TurnOf k = Some t \<and> \<not> IsTurnEnd k) \<Longrightarrow> own_rows (insert_row T s k m) sid t = own_rows T sid t"
  by (auto simp: own_rows_def insert_row_def split: option.split)

lemma own_rows_AppendMessages_other:
  "(\<And>n. n < length ms \<Longrightarrow> \<not> (s = sid \<and> TurnOf (TurnMessageKey u (i + int n)) = Some t \<and> \<not> IsTurnEnd (TurnMessageKey u (i + int n)))) \<Longrightarrow>
   own_rows (AppendMessages T s u i ms) sid t = own_rows T sid t"
proof (induction ms arbitrary: T i)
  case (Cons m ms)
  have "own_rows (AppendMessages (insert_row T s (TurnMessageKey u i) m) s u (i + 1) ms) sid t
    = own_rows (insert_row T s (TurnMessageKey u i) m) sid t"
  proof (rule Cons.IH)
    fix n assume "n < length ms"
    then show "\<not> (s = sid \<and> TurnOf (TurnMessageKey u (i + 1 + int n)) = Some t \<and> \<not> IsTurnEnd (TurnMessageKey u (i + 1 + int n)))"
      using Cons.prems [of "Suc n"] by (simp add: algebra_simps)
  qed
  then show ?case using Cons.prems [of 0] by (simp add: own_rows_insert_other)
qed simp

lemma own_rows_foreign: "foreign sid t w \<Longrightarrow> own_rows (write_step T w) sid t = own_rows T sid t"
proof (cases w)
  case (WMessages s u i ms)
  assume "foreign sid t w"
  with WMessages show ?thesis by (force simp: foreign_def intro!: own_rows_AppendMessages_other)
qed (auto simp: foreign_def AppendMessage_def AppendTurnEnd_def Let_def own_rows_insert_other)

lemma stored_foreign:
  assumes "list_all (foreign sid t) ws"
  shows "stored (foldl write_step T ws) sid t turn k = stored T sid t turn k"
proof -
  have "own_rows (foldl write_step T ws) sid t = own_rows T sid t"
    using assms by (induction ws arbitrary: T) (simp_all add: own_rows_foreign)
  then show ?thesis by (simp add: stored_def)
qed

lemma stored_grow: "stored T sid t turn k \<Longrightarrow> stored T sid t (turn @ ms) k"
  by (auto simp: stored_def nth_append)

lemma own_rows_insert_present:
  assumes "key \<in> r_key ` set (own_rows T sid t)"
  shows "rows (insert_row T sid key m) = rows T"
proof -
  from assms have "find_row T (sid, key) \<noteq> None" by (auto simp: find_row_None own_rows_def image_iff)
  then show ?thesis by (auto simp: insert_row_def)
qed

lemma own_rows_insert_new:
  assumes "parseTurn t = Some x" and "0 \<le> i" and "TurnMessageKey t i \<notin> r_key ` set (own_rows T sid t)"
  shows "\<exists>r. own_rows (insert_row T sid (TurnMessageKey t i) m) sid t = own_rows T sid t @ [r]
    \<and> r_key r = TurnMessageKey t i \<and> r_data r = m"
proof -
  note key = TurnOf_TurnMessageKey [OF assms(1,2)] not_IsTurnEnd_TurnMessageKey [OF assms(1,2)]
  have "find_row T (sid, TurnMessageKey t i) = None"
    using assms(3) key by (auto simp: find_row_None own_rows_def image_iff)
  then show ?thesis using key by (simp add: insert_row_def own_rows_def)
qed

text \<open>One more message written under its own index: it is stored already, or it is the next one.\<close>

lemma stored_insert:
  assumes "parseTurn t = Some x" and "stored T sid t turn k" and "n \<le> k" and "n < length turn"
  shows "stored (insert_row T sid (TurnMessageKey t (int n)) (turn ! n)) sid t turn (max k (Suc n))"
proof -
  from assms(2) have rs: "map (\<lambda>r. (r_key r, r_data r)) (own_rows T sid t) = map (\<lambda>n. (TurnMessageKey t (int n), turn ! n)) [0..<k]"
    and k: "k \<le> length turn" by (auto simp: stored_def)
  have "map r_key (own_rows T sid t) = map (\<lambda>n. TurnMessageKey t (int n)) [0..<k]"
    using arg_cong [OF rs, of "map fst"] by (simp add: comp_def)
  then have keys: "r_key ` set (own_rows T sid t) = (\<lambda>n. TurnMessageKey t (int n)) ` {0..<k}"
    by (metis list.set_map set_upt)
  show ?thesis
  proof (cases "n < k")
    case True
    then have "rows (insert_row T sid (TurnMessageKey t (int n)) (turn ! n)) = rows T"
      by (intro own_rows_insert_present [where t = t]) (auto simp: keys)
    moreover have "max k (Suc n) = k" using True by simp
    ultimately show ?thesis using assms(2) by (simp only: stored_def own_rows_def)
  next
    case False
    with assms(3) have n: "n = k" by simp
    have "TurnMessageKey t (int n) \<notin> r_key ` set (own_rows T sid t)" by (auto simp: keys n)
    from own_rows_insert_new [OF assms(1) _ this, of "turn ! n"] rs n assms(4) show ?thesis
      by (auto simp: stored_def)
  qed
qed

lemma stored_AppendMessages:
  "parseTurn t = Some x \<Longrightarrow> stored T sid t turn k \<Longrightarrow> p \<le> k \<Longrightarrow>
   stored (AppendMessages T sid t (int p) (drop p turn)) sid t turn (length turn)"
proof (induction "length turn - p" arbitrary: T k p)
  case 0
  then have "k = length turn" "drop p turn = []" by (auto simp: stored_def)
  with 0 show ?case by simp
next
  case (Suc d)
  then have p: "p < length turn" by simp
  have "stored (insert_row T sid (TurnMessageKey t (int p)) (turn ! p)) sid t turn (max k (Suc p))"
    by (rule stored_insert [OF Suc.prems(1,2,3) p])
  from Suc.hyps(1) [OF _ Suc.prems(1) this, of "Suc p"] Suc.hyps(2) p
  show ?case by (simp add: Cons_nth_drop_Suc [OF p, symmetric] add.commute)
qed

subsection \<open>Transcripts\<close>

text \<open>Every call of an assistant's message is followed by its result, in order, and no result stands elsewhere.\<close>

abbreviation result_of :: "message \<Rightarrow> string option" where
  "result_of m \<equiv> map_option tr_call (m_result m)"

fun complete :: "message list \<Rightarrow> bool" where
  "complete [] = True"
| "complete (m # ms) =
     (m_result m = None
      \<and> map result_of (take (length (m_calls m)) ms) = map (\<lambda>tc. Some (tc_id tc)) (m_calls m)
      \<and> complete (drop (length (m_calls m)) ms))"

lemma complete_append: "complete a \<Longrightarrow> complete b \<Longrightarrow> complete (a @ b)"
proof (induction a rule: complete.induct)
  case (2 m ms)
  let ?n = "length (m_calls m)"
  from "2.prems"(1) have "length (map result_of (take ?n ms)) = ?n" by (metis complete.simps(2) length_map)
  then have "?n \<le> length ms" by simp
  with 2 show ?case by simp
qed simp

lemma complete_block:
  assumes "m_result m = None" and "map result_of rs = map (\<lambda>tc. Some (tc_id tc)) (m_calls m)"
  shows "complete (m # rs)"
proof -
  have "length rs = length (m_calls m)" using assms(2) by (metis length_map)
  with assms show ?thesis by simp
qed

subsection \<open>What the steps leave\<close>

lemma others_frame [simp]:
  "as_route (others E st) = as_route st" "as_turn (others E st) = as_turn st"
  "as_persisted (others E st) = as_persisted st" "as_log (others E st) = as_log st"
  by (simp_all add: others_def)

lemma await_frame [simp]:
  "as_turn (await E es st) = as_turn st" "as_persisted (await E es st) = as_persisted st"
  "as_log (await E es st) = as_log st @ es" "as_table (await E es st) = as_table (others E st)"
  by (simp_all add: await_def Let_def)

lemma answer_message_simps [simp]:
  "m_result (answer_message input rc resp on) = None" "m_calls (answer_message input rc resp on) = rp_calls resp"
  by (simp_all add: answer_message_def stampAnswer_def Let_def empty_message_def split: option.split)

lemma result_of_result_message [simp]: "result_of (result_message tc text err) = Some (tc_id tc)"
  by (simp add: result_message_def)

subsection \<open>What is dispatched\<close>

text \<open>A call is dispatched to a tool the run's list resolves; a sub-agent as its delegation allows, for the same user,
  with no turn of its own; a background task from a session's turn.\<close>

definition delegate_ok :: "codec \<Rightarrow> agent_input \<Rightarrow> run_context \<Rightarrow> child \<Rightarrow> bool" where
  "delegate_ok C input rc ch \<longleftrightarrow>
     (case ch of ToolChild _ _ \<Rightarrow> True
      | AgentChild x \<Rightarrow> delegationRefusal C (rc_chain rc) (ai_agent x) = None \<and> ai_chain x = cc_chain (rc_call rc)
          \<and> ai_user x = ai_user input \<and> ai_turn_key x = [] \<and> ai_session_turn x = cc_turn (rc_call rc))"

definition dispatch_ok :: "codec \<Rightarrow> agent_input \<Rightarrow> run_context \<Rightarrow> string \<Rightarrow> target \<Rightarrow> bool" where
  "dispatch_ok C input rc name tgt \<longleftrightarrow> lt_resolutions (rc_tools rc) name \<noteq> None
     \<and> (case tgt of ToChild ch _ _ \<Rightarrow> delegate_ok C input rc ch
        | ToTask t ch _ _ \<Rightarrow> delegate_ok C input rc ch \<and> ai_turn_key input \<noteq> []
        | ToActivity _ _ _ \<Rightarrow> True)"

lemma buildChildInput_delegate:
  assumes "buildChildInput C raw parent childID res cc ag queue = Inr (ch, q)"
    and "rs_agent res \<noteq> [] \<longrightarrow> delegationRefusal C (rc_chain rc) (rs_agent res) = None"
    and "cc_chain cc = cc_chain (rc_call rc)" "cc_turn cc = cc_turn (rc_call rc)" "ai_user parent = ai_user input"
  shows "delegate_ok C input rc ch"
proof (cases "rs_agent res = []")
  case True
  with assms(1) obtain w input' where "ch = ToolChild w input'"
    by (cases "WithCallContext C raw cc") (auto simp: buildChildInput_def split: if_splits)
  then show ?thesis by (simp add: delegate_ok_def)
next
  case False
  with assms(1) have "subAgentInput C raw parent childID res cc ag queue = Inr (ch, q)" by (simp add: buildChildInput_def)
  then have "\<exists>x. ch = AgentChild x \<and> ai_agent x = rs_agent res \<and> ai_chain x = cc_chain cc \<and> ai_user x = ai_user parent
      \<and> ai_turn_key x = [] \<and> ai_session_turn x = cc_turn cc"
    by (auto simp: subAgentInput_def split: option.splits prod.splits if_splits)
  with assms False show ?thesis by (auto simp: delegate_ok_def)
qed

lemma launch_cases:
  "\<exists>d. launch E t ch childID queue st = (await E [] st, d)
     \<or> launch E t ch childID queue st = (await E [Dispatched (t_tool t) (ToTask t ch childID queue)] st, d)"
  by (auto simp: launch_def split: sum.split)

text \<open>What becomes of the state when one call is dispatched.\<close>

lemma dispatch_call_cases:
  assumes "dispatch_call C E input rc call i j tc st = (st', d)"
    and "cc_chain call = cc_chain (rc_call rc)" and "cc_turn call = cc_turn (rc_call rc)"
  obtains "st' = st" | "st' = await E [] st"
    | tgt where "dispatch_ok C input rc (tc_name tc) tgt" "st' = st\<lparr>as_log := as_log st @ [Dispatched (tc_name tc) tgt]\<rparr>"
    | tgt where "dispatch_ok C input rc (tc_name tc) tgt" "st' = await E [Dispatched (tc_name tc) tgt] st"
proof -
  note def = assms(1) [unfolded dispatch_call_def Let_def]
  show thesis
  proof (cases "lt_resolutions (rc_tools rc) (tc_name tc)")
    case None
    with def that(1) show thesis by simp
  next
    case (Some res)
    define cc where "cc = call\<lparr>cc_call := ai_call_prefix input @ callKey (tc_id tc) i j\<rparr>"
    define taken where "taken = (if rs_background res
                   then (case TakeBackground C (tc_input tc) of
                           Inl err \<Rightarrow> Inl err
                         | Inr (toolInput, background) \<Rightarrow>
                             if background \<and> ai_turn_key input = [] then Inl bg_only_from_turn else Inr (toolInput, background))
                   else Inr (tc_input tc, False))"
    show thesis
    proof (cases taken)
      case (Inl err)
      with def Some that(1) show thesis by (simp add: taken_def)
    next
      case (Inr p)
      obtain raw bg where p: "p = (raw, bg)" by fastforce
      have bg: "ai_turn_key input \<noteq> []" if bg
        using Inr p that by (auto simp: taken_def split: if_splits sum.splits prod.splits)
      show thesis
      proof (cases "rs_kind res = ToolKindWorkflow")
        case False
        let ?tgt = "ToActivity (tc_name tc) raw (if rs_needs_context res then Some cc else None)"
        have "dispatch_ok C input rc (tc_name tc) ?tgt" using Some by (simp add: dispatch_ok_def)
        moreover have "st' = st\<lparr>as_log := as_log st @ [Dispatched (tc_name tc) ?tgt]\<rparr>"
          using def [unfolded Some option.case taken_def [symmetric] Inr p sum.case prod.case if_not_P [OF False]] by (auto simp: cc_def)
        ultimately show thesis by (rule that(3))
      next
        case True
        define parent where "parent = input\<lparr>ai_machine := rt_machine (as_route st), ai_excluded := rt_excluded (as_route st)\<rparr>"
        define taskID where "taskID = BackgroundTaskID (rc_workflow rc) (callKey (tc_id tc) i j)"
        define childID where "childID = childWorkflowID (if bg then taskID else rc_workflow rc) (tc_name tc) (tc_id tc) i j"
        note ch = def [unfolded Some option.case taken_def [symmetric] Inr p sum.case prod.case if_P [OF True],
            folded parent_def taskID_def cc_def, folded childID_def]
        show thesis
        proof (cases "buildChildInput C raw parent childID res cc (ai_agent input) (rc_queue rc)")
          case (Inl err)
          with ch that(1) show thesis by simp
        next
          case (Inr q)
          obtain child queue where q: "q = (child, queue)" by fastforce
          show thesis
          proof (cases "if rs_agent res \<noteq> [] then delegationRefusal C (rc_chain rc) (rs_agent res) else None")
            case (Some err)
            with ch Inr q that(1) show thesis by (simp del: if_split)
          next
            case None
            then have ok: "delegate_ok C input rc child"
              by (intro buildChildInput_delegate [OF Inr [unfolded q]]) (auto simp: cc_def parent_def assms split: if_splits)
            note res = ch [unfolded Inr q sum.case prod.case None option.case]
            show thesis
            proof (cases bg)
              case True
              let ?t = "newBackgroundStart C input tc raw cc taskID"
              have "dispatch_ok C input rc (tc_name tc) (ToTask ?t child childID queue)"
                using ok bg True \<open>lt_resolutions (rc_tools rc) (tc_name tc) = Some _\<close> by (simp add: dispatch_ok_def)
              moreover have "t_tool ?t = tc_name tc" by (simp add: newBackgroundStart_def)
              ultimately show thesis using res True launch_cases [of E ?t child childID queue st] that(2,4) by auto
            next
              case False
              let ?tgt = "ToChild child childID queue"
              have "dispatch_ok C input rc (tc_name tc) ?tgt"
                using ok \<open>lt_resolutions (rc_tools rc) (tc_name tc) = Some _\<close> by (simp add: dispatch_ok_def)
              moreover have "st' = st\<lparr>as_log := as_log st @ [Dispatched (tc_name tc) ?tgt]\<rparr>" using res False by simp
              ultimately show thesis by (rule that(3))
            qed
          qed
        qed
      qed
    qed
  qed
qed

subsection \<open>Invariants of a run\<close>

text \<open>
  What holds of a run at every point of its loop, from what each kind of step does to it: a wait that tells, a call
  dispatched, messages added, the model asked, the turn written where its transcript is complete. \<open>n\<close> counts the
  iterations left.
\<close>

fun tells :: "agent_event \<Rightarrow> bool" where
  "tells (Asked _ _ _ _) = False"
| "tells (Stored _ _) = False"
| "tells (Dispatched _ _) = False"
| "tells _ = True"

locale run_inv =
  fixes C :: codec and E :: aschedule and input :: agent_input and rc :: run_context
    and I :: "nat \<Rightarrow> agent_state \<Rightarrow> bool"
  assumes wait_inv: "I n st \<Longrightarrow> list_all tells es \<Longrightarrow> I n (await E es st)"
    and dispatch_wait_inv: "I n st \<Longrightarrow> dispatch_ok C input rc name tgt \<Longrightarrow> I n (await E [Dispatched name tgt] st)"
    and dispatch_inv: "I n st \<Longrightarrow> dispatch_ok C input rc name tgt \<Longrightarrow> I n (st\<lparr>as_log := as_log st @ [Dispatched name tgt]\<rparr>)"
    and turn_inv: "I n st \<Longrightarrow> I n (st\<lparr>as_turn := as_turn st @ ms\<rparr>)"
    and ask_inv: "I (Suc n) st \<Longrightarrow> complete (as_turn st) \<Longrightarrow> I n (fst (ask E input rc (maxReActIterations - Suc n) st))"
    and flush_inv: "I n st \<Longrightarrow> complete (as_turn st) \<Longrightarrow> I n (flush E input st)"
begin

lemma dispatch_all_inv:
  "I n st \<Longrightarrow> cc_chain call = cc_chain (rc_call rc) \<Longrightarrow> cc_turn call = cc_turn (rc_call rc) \<Longrightarrow>
   dispatch_all C E input rc call i j tcs st = (st', ds) \<Longrightarrow> I n st' \<and> as_turn st' = as_turn st \<and> length ds = length tcs"
proof (induction tcs arbitrary: st st' j ds)
  case (Cons tc tcs)
  obtain st1 d where d: "dispatch_call C E input rc call i j tc st = (st1, d)" by fastforce
  obtain st2 ds2 where ds: "dispatch_all C E input rc call i (Suc j) tcs st1 = (st2, ds2)" by fastforce
  have "I n st1 \<and> as_turn st1 = as_turn st"
    using dispatch_call_cases [OF d Cons.prems(2,3)]
  proof cases
    case 2
    with wait_inv [OF Cons.prems(1), of "[]"] show ?thesis by simp
  next
    case (3 tgt)
    with dispatch_inv [OF Cons.prems(1) 3(1)] show ?thesis by simp
  next
    case (4 tgt)
    with dispatch_wait_inv [OF Cons.prems(1) 4(1)] show ?thesis by simp
  qed (use Cons.prems in simp)
  with Cons.IH [OF _ Cons.prems(2,3) ds] Cons.prems(4) d ds show ?case by auto
qed simp

lemma collect_one_inv:
  "I n st \<Longrightarrow> collect_one C E tc d st = (st', tx, err, files) \<Longrightarrow> I n st' \<and> as_turn st' = as_turn st"
  by (auto simp: collect_one_def started_def wait_inv split: dispatch.splits option.splits sum.splits if_splits prod.splits)

lemma collect_inv:
  "I n st \<Longrightarrow> collect C E ds st = (st', files) \<Longrightarrow>
   I n st' \<and> (\<exists>rs. as_turn st' = as_turn st @ rs \<and> map result_of rs = map (\<lambda>(tc, _). Some (tc_id tc)) ds)"
proof (induction ds arbitrary: st st' files)
  case (Cons p ds)
  obtain tc d where p: "p = (tc, d)" by fastforce
  obtain st1 tx err fs where one: "collect_one C E tc d st = (st1, tx, err, fs)" by (metis prod_cases4)
  note st1 = collect_one_inv [OF Cons.prems(1) one]
  obtain st2 fs2 where more: "collect C E ds (st1\<lparr>as_turn := as_turn st1 @ [result_message tc tx err]\<rparr>) = (st2, fs2)" by fastforce
  from Cons.IH [OF turn_inv [of n st1 "[result_message tc tx err]"] more] st1
  obtain rs where "I n st2" "as_turn st2 = as_turn st @ [result_message tc tx err] @ rs"
    "map result_of rs = map (\<lambda>(tc, _). Some (tc_id tc)) ds" by auto
  then show ?case using Cons.prems(2) p one more
    by (intro conjI exI [of _ "result_message tc tx err # rs"]) auto
qed simp

lemma run_calls_inv:
  assumes "I n st" and "complete (as_turn st)"
  shows "I n (run_calls C E input rc i resp on st) \<and> complete (as_turn (run_calls C E input rc i resp on st))"
proof -
  define call where "call = (rc_call rc)\<lparr>cc_memory_version := rp_memory_version resp, cc_memory_unread := rp_memory_unread resp\<rparr>"
  define st1 where "st1 = await E [ToldCalls (shown_calls rc (rp_calls resp))] (st\<lparr>as_turn := as_turn st @ [answer_message input rc resp on]\<rparr>)"
  obtain st2 ds where d: "dispatch_all C E input rc call i 0 (rp_calls resp) st1 = (st2, ds)" by fastforce
  obtain st3 files where c: "collect C E (zip (rp_calls resp) ds) st2 = (st3, files)" by fastforce
  have I1: "I n st1" unfolding st1_def by (rule wait_inv [OF turn_inv [OF assms(1)]]) simp
  have "I n st2 \<and> as_turn st2 = as_turn st1 \<and> length ds = length (rp_calls resp)"
    by (rule dispatch_all_inv [OF I1 _ _ d]) (simp_all add: call_def)
  then have st2: "I n st2" "as_turn st2 = as_turn st1" "length ds = length (rp_calls resp)" by auto
  from collect_inv [OF st2(1) c] obtain rs where "I n st3" "as_turn st3 = as_turn st2 @ rs"
    "map result_of rs = map (\<lambda>(tc, _). Some (tc_id tc)) (zip (rp_calls resp) ds)" by blast
  moreover have "map (\<lambda>(tc, _). Some (tc_id tc)) (zip (rp_calls resp) ds) = map (\<lambda>tc. Some (tc_id tc)) (rp_calls resp)"
    using arg_cong [OF map_fst_zip [OF st2(3) [symmetric]], of "map (\<lambda>tc. Some (tc_id tc))"] by (simp add: split_def comp_def)
  ultimately have st3: "I n st3" "complete (as_turn st3)"
    using assms(2) st2(2) by (auto simp: st1_def intro!: complete_append complete_block)
  note st4 = flush_inv [OF st3]
  have turn: "as_turn (flush E input st3) = as_turn st3" by (simp add: flush_def Let_def)
  have "run_calls C E input rc i resp on st =
      (if files \<noteq> [] \<and> cc_turn (rc_call rc) \<noteq> None then await E [ToldFiles files] (flush E input st3) else flush E input st3)"
    using d c by (simp add: run_calls_def Let_def call_def st1_def)
  with st3(2) st4 wait_inv [OF st4, of "[ToldFiles files]"] turn show ?thesis by simp
qed

lemma react_loop_inv:
  "I n st \<Longrightarrow> complete (as_turn st) \<Longrightarrow> react_loop C E input rc n st = (st', out) \<Longrightarrow>
   (\<exists>n'. I n' st') \<and> complete (as_turn st') \<and> ao_messages out = as_turn st'"
proof (induction n arbitrary: st st' out)
  case 0
  have "as_turn (flush E input st) = as_turn st" by (simp add: flush_def Let_def)
  with 0 flush_inv [OF 0(1,2)] show ?case by (auto simp: Let_def exhaustedOutput_def empty_output_def)
next
  case (Suc n)
  have turn: "as_turn (flush E input st) = as_turn st" for st by (simp add: flush_def Let_def)
  obtain st1 resp on err where a: "ask E input rc (maxReActIterations - Suc n) st = (st1, resp, on, err)" by (metis prod_cases4)
  have st1: "as_turn st1 = as_turn st" using a by (auto simp: ask_def Let_def split: prod.splits)
  have I1: "I n st1" using ask_inv [OF Suc.prems(1,2)] a by simp
  have c1: "complete (as_turn st1)" using st1 Suc.prems(2) by simp
  show ?case
  proof (cases "cancelled st")
    case True
    with Suc.prems flush_inv [OF Suc.prems(1,2)] turn [of st] show ?thesis
      by (auto simp: Let_def cancelledOutput_def empty_output_def)
  next
    case False
    show ?thesis
    proof (cases err)
      case (Some e)
      with False a Suc.prems(3) flush_inv [OF I1 c1] turn [of st1] c1 show ?thesis
        by (auto simp: Let_def cancelledOutput_def empty_output_def split: if_splits)
    next
      case None
      show ?thesis
      proof (cases "rp_calls resp = []")
        case True
        define st2 where "st2 = (if rp_content resp \<noteq> [] then st1\<lparr>as_turn := as_turn st1 @ [answer_message input rc resp on]\<rparr> else st1)"
        have I2: "I n st2" using I1 turn_inv [OF I1] by (simp add: st2_def)
        have c2: "complete (as_turn st2)" using c1 True by (auto simp: st2_def intro!: complete_append)
        let ?es = "[ToldAnswer (fst (reply_to input)) (snd (reply_to input)) (rc_signed rc) (rp_content resp)]"
        have "I n (await E ?es (flush E input st2))" by (rule wait_inv [OF flush_inv [OF I2 c2]]) simp
        with Suc.prems(3) a None False True c2 turn [of st2] show ?thesis
          by (auto simp: final_answer_def Let_def st2_def empty_output_def)
      next
        case False
        with \<open>\<not> cancelled st\<close> None a Suc.prems(3)
        have "react_loop C E input rc n (run_calls C E input rc (maxReActIterations - Suc n) resp on st1) = (st', out)" by simp
        from Suc.IH [OF _ _ this] run_calls_inv [OF I1 c1] show ?thesis by blast
      qed
    qed
  qed
qed

end

subsection \<open>A run from its start\<close>

lemma flush_start: "as_persisted st = 0 \<Longrightarrow> ai_turn_key input \<noteq> [] \<longrightarrow> as_turn st = [] \<Longrightarrow> flush E input st = st"
  by (auto simp: flush_def Let_def)

lemma clear_note_frame:
  "clear_note E (st, out) = (st', res) \<Longrightarrow>
     res = Inr out \<and> as_log st' = as_log st \<and> as_turn st' = as_turn st \<and> as_table st' = as_table st"
  by (auto simp: clear_note_def)

lemma start_route_frame:
  "start_route E input w mode signer st = (st', err) \<Longrightarrow>
     as_turn st' = as_turn st \<and> as_persisted st' = as_persisted st \<and> as_log st' = as_log st \<and> as_table st' = as_table st"
  by (auto simp: start_route_def split: prod.splits)

text \<open>A run starts its loop on an empty log, or has asked nothing.\<close>

definition loop_context :: "aschedule \<Rightarrow> agent_input \<Rightarrow> run_context \<Rightarrow> bool" where
  "loop_context E input rc \<longleftrightarrow> rc_chain rc = ai_chain input @ [ai_agent input] \<and> cc_chain (rc_call rc) = rc_chain rc
     \<and> cc_turn (rc_call rc) = (if ai_turn_key input \<noteq> [] then Some \<lparr>tn_session = ai_session input, tn_key = ai_turn_key input\<rparr>
                                else ai_session_turn input)
     \<and> (\<exists>n. ak_tools (E n) = Inr (rc_tools rc)) \<and> lt_refused (rc_tools rc) = []"

definition loop_start :: "aschedule \<Rightarrow> agent_input \<Rightarrow> msg_table \<Rightarrow> agent_state \<Rightarrow> bool" where
  "loop_start E input T st \<longleftrightarrow> as_log st = [] \<and> as_persisted st = 0
     \<and> as_turn st = (if ai_turn_key input = [] then [user_message input] else [])
     \<and> (\<exists>a b. as_table st = foldl write_step T (ak_others (E a) @ ak_others (E b)))"

lemma loop_start_complete: "loop_start E input T st \<Longrightarrow> complete (as_turn st)"
  by (simp add: loop_start_def user_message_def empty_message_def)

lemma AgentWorkflow_cases:
  assumes "AgentWorkflow C E input w q T c = (st, res)"
  obtains (early) "as_log st = []" "\<And>out. res = Inr out \<Longrightarrow> complete (ao_messages out)"
  | (loop) rc st0 st1 out where "loop_context E input rc" "loop_start E input T st0"
      "react_loop C E input rc maxReActIterations st0 = (st1, out)" "res = Inr out"
      "as_log st = as_log st1" "as_turn st = as_turn st1"
proof -
  define s0 where "s0 = start_run input T c"
  define s1 where "s1 = await E [] s0"
  define s2 where "s2 = await E [] s1"
  have s0: "as_log s0 = []" "as_persisted s0 = 0" "as_table s0 = T"
    "as_turn s0 = (if ai_turn_key input = [] then [user_message input] else [])" by (simp_all add: s0_def start_run_def)
  have f0: "flush E input s0 = s0" by (rule flush_start) (simp_all add: s0)
  have ok: "complete (as_turn s0)" by (simp add: s0 user_message_def empty_message_def)
  have frame: "as_log s1 = []" "as_turn s1 = as_turn s0" "as_log s2 = []" "as_turn s2 = as_turn s0" "as_persisted s2 = 0"
    by (simp_all add: s1_def s2_def s0)
  note def = assms [unfolded AgentWorkflow_def Let_def, folded s0_def, unfolded f0, folded s1_def, folded s2_def]
  show thesis
  proof (cases "ai_agent input = []")
    case True
    with def s0 show thesis by (intro early) auto
  next
    case False
    note def1 = def [unfolded if_not_P [OF False]]
    show thesis
    proof (cases "if cancelled s0 then Inl (CanceledError []) else ak_skills (E (clock s0))")
      case (Inl err)
      with def1 frame ok show thesis
        by (intro early) (auto simp: cancelledOutput_def empty_output_def simp del: if_split split: if_split_asm)
    next
      case (Inr skills)
      note def2 = def1 [unfolded Inr sum.case]
      show thesis
      proof (cases "if cancelled s1 then Inl (CanceledError []) else ak_tools (E (clock s1))")
        case (Inl err)
        with def2 frame ok show thesis
          by (intro early) (auto simp: cancelledOutput_def empty_output_def simp del: if_split split: if_split_asm)
      next
        case (Inr tools)
        then have tools: "ak_tools (E (clock s1)) = Inr tools" by (auto split: if_splits)
        note def3 = def2 [unfolded Inr sum.case]
        show thesis
        proof (cases "lt_refused tools = []")
          case False
          with def3 frame show thesis by (intro early) (auto simp: empty_output_def)
        next
          case True
          define name where "name = (if sk_name skills = [] then ai_agent input else sk_name skills)"
          define signed where "signed = (if ai_sign input then name else [])"
          obtain s3 err where r: "start_route E input w (sk_llm_on_machine skills) signed s2 = (s3, err)" by fastforce
          note s3 = start_route_frame [OF r]
          have f3: "flush E input s3 = s3" by (rule flush_start) (use s3 frame s0 in auto)
          note def4 = def3 [folded name_def, folded signed_def, unfolded r prod.case f3]
          show thesis
          proof (cases err)
            case (Some e)
            from def4 True Some have "clear_note E (s3, empty_output\<lparr>ao_messages := as_turn s3, ao_error := llmFailure e,
                ao_error_type := failureType e\<rparr>) = (st, res)" by simp
            from clear_note_frame [OF this] s3 frame ok show thesis by (intro early) (auto simp: empty_output_def)
          next
            case None
            show thesis
            proof (cases "cancelled s3")
              case c: True
              with def4 True None have "clear_note E (s3, cancelledOutput (as_turn s3)) = (st, res)" by simp
              from clear_note_frame [OF this] s3 frame ok show thesis
                by (intro early) (auto simp: cancelledOutput_def empty_output_def)
            next
              case c: False
              define rc where "rc = \<lparr>rc_workflow = w, rc_queue = q, rc_name = name, rc_signed = signed,
                rc_chain = ai_chain input @ [ai_agent input], rc_tools = tools,
                rc_call = (callContext input (ai_chain input @ [ai_agent input]) signed q)\<lparr>cc_run_skills := sk_run_skills skills\<rparr>\<rparr>"
              obtain s4 out where l: "react_loop C E input rc maxReActIterations s3 = (s4, out)" by fastforce
              with def4 True None c have n: "clear_note E (s4, out) = (st, res)" by (simp add: rc_def)
              have "loop_context E input rc" using tools True by (auto simp: loop_context_def rc_def callContext_def)
              moreover have "loop_start E input T s3"
                using s3 frame s0 by (auto simp: loop_start_def s2_def s1_def others_def intro: exI [of _ "clock s0"])
              ultimately show thesis using loop [OF _ _ l] clear_note_frame [OF n] by auto
            qed
          qed
        qed
      qed
    qed
  qed
qed

subsection \<open>What is stored and asked\<close>

abbreviation turn_stored :: "agent_input \<Rightarrow> msg_table \<Rightarrow> message list \<Rightarrow> nat \<Rightarrow> bool" where
  "turn_stored input T turn k \<equiv> stored T (ai_session input) (ai_turn_key input) turn k"

text \<open>No other writer writes the messages of the run's turn, whose key is a turn's.\<close>

definition turn_alone :: "aschedule \<Rightarrow> agent_input \<Rightarrow> bool" where
  "turn_alone E input \<longleftrightarrow>
     (ai_turn_key input \<noteq> [] \<longrightarrow> parseTurn (ai_turn_key input) \<noteq> None
        \<and> (\<forall>n. list_all (foreign (ai_session input) (ai_turn_key input)) (ak_others (E n))))"

definition asked_ok :: "agent_input \<Rightarrow> llm_turn_request \<Rightarrow> message list \<Rightarrow> msg_table \<Rightarrow> bool" where
  "asked_ok input req turn T \<longleftrightarrow> complete turn \<and> table_ok T
     \<and> (if ai_turn_key input = [] then lr_history req = None \<and> lr_messages req = turn
        else lr_messages req = []
          \<and> (\<exists>k p. p \<le> k \<and> turn_stored input T turn k
               \<and> lr_history req = Some \<lparr>th_session = ai_session input, th_earlier = ai_earlier input,
                    th_turn = ai_turn_key input, th_tail = drop p turn, th_start = p\<rparr>))"

fun event_ok :: "agent_input \<Rightarrow> agent_event \<Rightarrow> bool" where
  "event_ok input (Stored turn T) = (\<exists>k. turn_stored input T turn k \<and> complete (take k turn))"
| "event_ok input (Asked i req turn T) = asked_ok input req turn T"
| "event_ok input _ = True"

definition store_inv :: "aschedule \<Rightarrow> agent_input \<Rightarrow> nat \<Rightarrow> agent_state \<Rightarrow> bool" where
  "store_inv E input n st \<longleftrightarrow> turn_alone E input \<and> table_ok (as_table st) \<and> list_all (event_ok input) (as_log st)
     \<and> (ai_turn_key input \<noteq> [] \<longrightarrow>
          (\<exists>k. as_persisted st \<le> k \<and> turn_stored input (as_table st) (as_turn st) k \<and> complete (take k (as_turn st))))"

lemma tells_ok: "list_all tells es \<Longrightarrow> list_all (event_ok input) es"
proof (induction es)
  case (Cons e es)
  then show ?case by (cases e) auto
qed simp

lemma store_inv_others: "store_inv E input n st \<Longrightarrow> store_inv E input n (others E st)"
  by (auto simp: store_inv_def turn_alone_def others_def msgs.run_inv stored_foreign)

lemma store_inv_cong:
  "store_inv E input n st \<Longrightarrow> as_table st' = as_table st \<Longrightarrow> as_turn st' = as_turn st \<Longrightarrow> as_persisted st' = as_persisted st \<Longrightarrow>
   as_log st' = as_log st @ es \<Longrightarrow> list_all (event_ok input) es \<Longrightarrow> store_inv E input m st'"
  by (simp add: store_inv_def)

lemma store_inv_await: "store_inv E input n st \<Longrightarrow> list_all (event_ok input) es \<Longrightarrow> store_inv E input n (await E es st)"
  by (rule store_inv_cong [OF store_inv_others, where es = es]) simp_all

lemma store_inv_turn: "store_inv E input n st \<Longrightarrow> store_inv E input n (st\<lparr>as_turn := as_turn st @ ms\<rparr>)"
proof -
  assume inv: "store_inv E input n st"
  have "stored T sid t (turn @ ms) k \<and> complete (take k (turn @ ms))" if "stored T sid t turn k" "complete (take k turn)" for T sid t turn k
    using that stored_grow [OF that(1)] by (auto simp: stored_def)
  with inv show ?thesis by (fastforce simp: store_inv_def)
qed

lemma store_inv_flush:
  assumes "store_inv E input n st" and "complete (as_turn st)"
  shows "store_inv E input n (flush E input st)"
proof (cases "ai_turn_key input = [] \<or> drop (as_persisted st) (as_turn st) = []")
  case False
  let ?p = "as_persisted st" and ?turn = "as_turn st"
  define s1 where "s1 = await E [] st"
  have s1: "store_inv E input n s1" using store_inv_await [OF assms(1), of "[]"] by (simp add: s1_def)
  have same: "as_turn s1 = ?turn" "as_persisted s1 = ?p" by (simp_all add: s1_def)
  obtain k where k: "?p \<le> k" "turn_stored input (as_table s1) ?turn k" "complete (take k ?turn)"
    using s1 False same by (auto simp: store_inv_def)
  obtain x where x: "parseTurn (ai_turn_key input) = Some x" using s1 False by (auto simp: store_inv_def turn_alone_def)
  let ?T = "AppendMessages (as_table s1) (ai_session input) (ai_turn_key input) (int ?p) (drop ?p ?turn)"
  have T: "turn_stored input ?T ?turn (length ?turn)" by (rule stored_AppendMessages [OF x k(2,1)])
  have le: "?p \<le> length ?turn" using False by (simp add: not_le)
  show ?thesis
  proof (cases "ak_persist (E (clock st)) = NotWritten")
    case True
    then have "flush E input st = s1\<lparr>as_persisted := ?p, as_log := as_log s1 @ [Stored ?turn (as_table s1)]\<rparr>"
      using False same by (simp add: flush_def Let_def s1_def)
    with s1 k same show ?thesis by (auto simp: store_inv_def)
  next
    case False
    then have "flush E input st = s1\<lparr>as_table := ?T, as_persisted := (if ak_persist (E (clock st)) = Written then ?p + length (drop ?p ?turn) else ?p),
        as_log := as_log s1 @ [Stored ?turn ?T]\<rparr>"
      using \<open>\<not> (ai_turn_key input = [] \<or> _)\<close> same by (simp add: flush_def Let_def s1_def)
    with s1 T le same assms(2) show ?thesis by (auto simp: store_inv_def)
  qed
qed (use assms in \<open>auto simp: flush_def Let_def\<close>)

lemma store_inv_ask:
  assumes "store_inv E input n st" and "complete (as_turn st)"
  shows "store_inv E input m (fst (ask E input rc i st))"
proof -
  define s1 where "s1 = others E st"
  have s1: "store_inv E input n s1" using store_inv_others [OF assms(1)] by (simp add: s1_def)
  have "asked_ok input (llmRequest input rc s1) (as_turn s1) (as_table s1)"
    using s1 assms(2) by (auto simp: asked_ok_def store_inv_def llmRequest_def s1_def)
  then show ?thesis
    by (intro store_inv_cong [OF s1, where es = "[Asked i (llmRequest input rc s1) (as_turn s1) (as_table s1)]"])
      (auto simp: ask_def Let_def s1_def split: prod.split)
qed

interpretation stores: run_inv C E input rc "store_inv E input" for C E input rc
proof unfold_locales
  show "store_inv E input n (st\<lparr>as_log := as_log st @ [Dispatched name tgt]\<rparr>)" if "store_inv E input n st" for n st name tgt
    using store_inv_cong [OF that, where es = "[Dispatched name tgt]"] by simp
qed (auto simp: store_inv_await store_inv_turn store_inv_flush store_inv_ask tells_ok)

lemma store_inv_start:
  assumes "table_ok T" and "turn_alone E input" and "own_rows T (ai_session input) (ai_turn_key input) = []"
    and "loop_start E input T st"
  shows "store_inv E input n st"
proof -
  obtain a b where T: "as_table st = foldl write_step T (ak_others (E a) @ ak_others (E b))"
    using assms(4) by (auto simp: loop_start_def)
  have "table_ok (as_table st)" unfolding T by (rule msgs.run_inv [OF assms(1)])
  moreover have "turn_stored input (as_table st) [] 0" if "ai_turn_key input \<noteq> []"
    unfolding T using assms(2,3) that by (subst stored_foreign) (simp_all add: turn_alone_def stored_def)
  ultimately show ?thesis using assms(2,4) by (auto simp: store_inv_def loop_start_def)
qed

subsection \<open>What is dispatched, how often the model is asked\<close>

fun sent_ok :: "codec \<Rightarrow> agent_input \<Rightarrow> run_context \<Rightarrow> agent_event \<Rightarrow> bool" where
  "sent_ok C input rc (Dispatched name tgt) = dispatch_ok C input rc name tgt"
| "sent_ok C input rc _ = True"

definition sent_inv :: "codec \<Rightarrow> agent_input \<Rightarrow> run_context \<Rightarrow> nat \<Rightarrow> agent_state \<Rightarrow> bool" where
  "sent_inv C input rc n st \<longleftrightarrow> list_all (sent_ok C input rc) (as_log st)"

lemma tells_sent: "list_all tells es \<Longrightarrow> list_all (sent_ok C input rc) es"
proof (induction es)
  case (Cons e es)
  then show ?case by (cases e) auto
qed simp

lemma flush_log: "\<exists>es. as_log (flush E input st) = as_log st @ es \<and> (\<forall>e \<in> set es. \<exists>turn T. e = Stored turn T)"
  by (auto simp: flush_def Let_def)

lemma ask_log: "\<exists>req turn T. as_log (fst (ask E input rc i st)) = as_log st @ [Asked i req turn T]"
  by (auto simp: ask_def Let_def split: prod.split)

interpretation sent: run_inv C E input rc "sent_inv C input rc" for C E input rc
proof unfold_locales
  show "sent_inv C input rc n (flush E input st)" if "sent_inv C input rc n st" for n st
    using flush_log [of E input st] that by (force simp: sent_inv_def list_all_iff)
  show "sent_inv C input rc n (fst (ask E input rc (maxReActIterations - Suc n) st))" if "sent_inv C input rc (Suc n) st" for n st
    using ask_log [of E input rc "maxReActIterations - Suc n" st] that by (force simp: sent_inv_def)
qed (auto simp: sent_inv_def tells_sent)

fun asked_step :: "agent_event \<Rightarrow> nat list" where
  "asked_step (Asked i _ _ _) = [i]"
| "asked_step _ = []"

definition asked_steps :: "agent_event list \<Rightarrow> nat list" where
  "asked_steps es = concat (map asked_step es)"

definition ask_count :: "nat \<Rightarrow> agent_state \<Rightarrow> bool" where
  "ask_count n st \<longleftrightarrow> n \<le> maxReActIterations \<and> asked_steps (as_log st) = [0..<maxReActIterations - n]"

lemma tells_unasked: "list_all tells es \<Longrightarrow> asked_steps es = []"
proof (induction es)
  case (Cons e es)
  then show ?case by (cases e) (auto simp: asked_steps_def)
qed (simp add: asked_steps_def)

lemma asked_steps_append [simp]: "asked_steps (a @ b) = asked_steps a @ asked_steps b"
  by (simp add: asked_steps_def)

lemma asked_steps_sent [simp]: "asked_steps [Dispatched name tgt] = []"
  by (simp add: asked_steps_def)

interpretation asks: run_inv C E input rc ask_count for C E input rc
proof unfold_locales
  show "ask_count n (flush E input st)" if "ask_count n st" for n st
  proof -
    obtain es where es: "as_log (flush E input st) = as_log st @ es" "\<forall>e \<in> set es. \<exists>turn T. e = Stored turn T"
      using flush_log by blast
    from es(2) have "asked_steps es = []" by (induction es) (auto simp: asked_steps_def)
    with es(1) that show ?thesis by (simp add: ask_count_def)
  qed
  show "ask_count n (fst (ask E input rc (maxReActIterations - Suc n) st))" if "ask_count (Suc n) st" for n st
  proof -
    have "maxReActIterations - n = Suc (maxReActIterations - Suc n)" using that by (simp add: ask_count_def Suc_diff_Suc)
    with ask_log [of E input rc "maxReActIterations - Suc n" st] that show ?thesis
      by (auto simp: ask_count_def asked_steps_def)
  qed
qed (auto simp: ask_count_def tells_unasked)

subsection \<open>What the model reads\<close>

text \<open>Of a session whose keys are written by \<open>TurnKey\<close> and whose turns' ends follow the messages they answer; the turns
  that answered the same message before this one, written before it.\<close>

definition turns_in_order :: "msg_table \<Rightarrow> agent_input \<Rightarrow> bool" where
  "turns_in_order T input \<longleftrightarrow>
     (\<exists>upTo participant. ai_turn_key input = TurnKey upTo participant \<and> 0 \<le> upTo \<and> upTo < 2 ^ 63 \<and> participant_ok participant
        \<and> (\<forall>e \<in> set (ai_earlier input). TurnAnchor e = Some upTo))
     \<and> (\<forall>r \<in> set (rows T). \<forall>t. r_session r = ai_session input \<and> TurnOf (r_key r) = Some t \<longrightarrow>
          (\<exists>a p. parseTurn t = Some (a, p) \<and> t = TurnKey a p))
     \<and> (\<forall>r \<in> set (rows T). \<forall>t a. r_session r = ai_session input \<and> r_key r = TurnEndKey t \<and> TurnAnchor t = Some a \<longrightarrow> a < r_id r)
     \<and> (\<forall>r \<in> set (rows T). \<forall>r' \<in> set (rows T). r_session r = ai_session input \<and> r_session r' = ai_session input
          \<and> (\<exists>e \<in> set (ai_earlier input). TurnOf (r_key r) = Some e) \<and> TurnOf (r_key r') = Some (ai_turn_key input)
          \<longrightarrow> r_id r < r_id r')"

lemma own_rows_loaded:
  "filter (\<lambda>r. TurnOf (r_key r) = Some t) (LoadConversation T sid (ScopeOf t earlier)) = own_rows T sid t"
proof -
  have "TurnOf (r_key r) = Some t \<Longrightarrow> TurnReads (r_id r) (r_key r) (ScopeOf t earlier) ends \<longleftrightarrow> \<not> IsTurnEnd (r_key r)" for r ends
    by (auto simp: TurnReads_def ScopeOf_def)
  then show ?thesis by (auto simp: LoadConversation_def own_rows_def Let_def intro!: filter_cong)
qed

lemma sorted_own_rows: "table_ok T \<Longrightarrow> sort_key r_id (own_rows T sid t) = own_rows T sid t"
proof -
  assume "table_ok T"
  then have "sorted_wrt (\<lambda>r r'. r_id r < r_id r') (own_rows T sid t)"
    by (simp add: table_ok_def own_rows_def sorted_wrt_filter)
  then have "sorted (map r_id (own_rows T sid t))" by (simp add: sorted_map sorted_wrt_mono_rel [of _ "\<lambda>r r'. r_id r < r_id r'"])
  then show ?thesis by (rule sort_key_id_if_sorted)
qed

text \<open>The conversation, ordered, ends on the rows of the turn.\<close>

lemma ordered_ends_on_turn:
  assumes "table_ok T" and "turns_in_order T input"
  shows "\<exists>pre. Order (LoadConversation T (ai_session input) (ScopeOf (ai_turn_key input) (ai_earlier input)))
    = pre @ own_rows T (ai_session input) (ai_turn_key input)"
proof (cases "own_rows T (ai_session input) (ai_turn_key input) = []")
  case False
  let ?L = "LoadConversation T (ai_session input) (ScopeOf (ai_turn_key input) (ai_earlier input))"
  obtain m where "m \<in> set (own_rows T (ai_session input) (ai_turn_key input))" using False by (cases "own_rows T (ai_session input) (ai_turn_key input)") auto
  then have "m \<in> set ?L" "TurnOf (r_key m) = Some (ai_turn_key input)" by (simp_all flip: own_rows_loaded [where earlier = "ai_earlier input"])
  moreover obtain upTo participant where "ai_turn_key input = TurnKey upTo participant" "0 \<le> upTo" "upTo < 2 ^ 63" "participant_ok participant"
    "\<forall>e \<in> set (ai_earlier input). TurnAnchor e = Some upTo" using assms(2) by (auto simp: turns_in_order_def)
  ultimately have "\<exists>pre. Order ?L = pre @ sort_key r_id (filter (\<lambda>r. TurnOf (r_key r) = Some (ai_turn_key input)) ?L)"
    using assms(2) unfolding turns_in_order_def by (intro reading_turn_last) auto
  then show ?thesis by (simp add: own_rows_loaded sorted_own_rows [OF assms(1)])
qed simp

lemma unstored_tail:
  fixes turn :: "message list"
  assumes "p \<le> k" and "k \<le> length turn" and "\<And>n. P (p + n) \<longleftrightarrow> k \<le> p + n"
  shows "map snd (filter (\<lambda>(i, m). P (p + i)) (enumerate 0 (drop p turn))) = drop k turn"
proof -
  have "map snd (filter (\<lambda>(i, m). k \<le> p + i) (enumerate i0 xs)) = drop (k - (p + i0)) xs" for i0 and xs :: "message list"
  proof (induction xs arbitrary: i0)
    case (Cons x xs)
    have "k - Suc (p + i0) = k - (p + i0) - 1" by simp
    with Cons show ?case by (cases "k - (p + i0)") auto
  qed simp
  from this [of 0 "drop p turn"] assms show ?thesis by simp
qed

lemma take_map_nth: "k \<le> length xs \<Longrightarrow> map ((!) xs) [0..<k] = take k xs"
  by (rule nth_equalityI) auto

lemma conversation_ends_on_turn:
  assumes "asked_ok input req turn T" and "ai_turn_key input \<noteq> [] \<longrightarrow> turns_in_order T input"
  shows "\<exists>pre. conversation T req = Some (pre @ turn)"
proof (cases "ai_turn_key input = []")
  case True
  with assms(1) show ?thesis by (auto simp: conversation_def asked_ok_def intro: exI [of _ "[]"])
next
  case False
  let ?t = "ai_turn_key input" and ?sid = "ai_session input"
  obtain k p where kp: "p \<le> k" "turn_stored input T turn k" "lr_messages req = []"
    "lr_history req = Some \<lparr>th_session = ?sid, th_earlier = ai_earlier input, th_turn = ?t, th_tail = drop p turn, th_start = p\<rparr>"
    and T: "table_ok T" using assms(1) False by (auto simp: asked_ok_def)
  obtain pre where o: "Order (LoadConversation T ?sid (ScopeOf ?t (ai_earlier input))) = pre @ own_rows T ?sid ?t" (is "?o = _")
    using ordered_ends_on_turn [OF T] assms(2) False by blast
  from kp(2) have rs: "map (\<lambda>r. (r_key r, r_data r)) (own_rows T ?sid ?t) = map (\<lambda>n. (TurnMessageKey ?t (int n), turn ! n)) [0..<k]"
    and k: "k \<le> length turn" by (auto simp: stored_def)
  have data: "map r_data (own_rows T ?sid ?t) = take k turn"
    using arg_cong [OF rs, of "map snd"] take_map_nth [OF k] by (simp add: comp_def)
  have keys: "r_key ` set (own_rows T ?sid ?t) = (\<lambda>n. TurnMessageKey ?t (int n)) ` {0..<k}"
    using arg_cong [OF rs, of "\<lambda>l. set (map fst l)"] by (simp add: image_image)
  obtain x where x: "parseTurn ?t = Some x" using assms(2) False by (auto simp: turns_in_order_def parseTurn_TurnKey)
  have "TurnMessageKey ?t (int n) \<in> r_key ` set ?o \<longleftrightarrow> n < k" for n
  proof
    assume "TurnMessageKey ?t (int n) \<in> r_key ` set ?o"
    then obtain r where r: "r \<in> set ?o" "r_key r = TurnMessageKey ?t (int n)" by auto
    have "TurnOf (r_key r) = Some ?t" using TurnOf_TurnMessageKey [OF x, of "int n"] r by simp
    with r(1) have "r \<in> set (own_rows T ?sid ?t)" by (simp flip: own_rows_loaded [where earlier = "ai_earlier input"])
    then have "r_key r \<in> r_key ` set (own_rows T ?sid ?t)" by (rule imageI)
    then obtain j where "j < k" "r_key r = TurnMessageKey ?t (int j)" unfolding keys by auto
    with r(2) show "n < k" by simp
  next
    assume "n < k"
    then have "TurnMessageKey ?t (int n) \<in> r_key ` set (own_rows T ?sid ?t)" by (simp add: keys)
    then show "TurnMessageKey ?t (int n) \<in> r_key ` set ?o" unfolding o by auto
  qed
  then have "map snd (filter (\<lambda>(i, m). TurnMessageKey ?t (int (p + i)) \<notin> r_key ` set ?o) (enumerate 0 (drop p turn))) = drop k turn"
    by (intro unstored_tail [OF kp(1) k]) (simp add: not_less del: of_nat_add)
  then show ?thesis using kp(3,4) by (simp add: conversation_def Let_def o data del: of_nat_add)
qed

subsection \<open>Delegations\<close>

text \<open>\<open>y\<close> is the input of a sub-agent that a run on \<open>x\<close> launches, awaited or in the background.\<close>

inductive delegates :: "agent_input \<Rightarrow> agent_input \<Rightarrow> bool" where
  awaited: "Dispatched name (ToChild (AgentChild y) childID queue) \<in> set (as_log (fst (AgentWorkflow C E x w q T c))) \<Longrightarrow> delegates x y"
| background: "Dispatched name (ToTask t (AgentChild y) childID queue) \<in> set (as_log (fst (AgentWorkflow C E x w q T c))) \<Longrightarrow> delegates x y"

lemma run_sent:
  assumes "Dispatched name tgt \<in> set (as_log (fst (AgentWorkflow C E input w q T c)))"
  shows "\<exists>rc. loop_context E input rc \<and> dispatch_ok C input rc name tgt"
proof -
  obtain st res where r: "AgentWorkflow C E input w q T c = (st, res)" by fastforce
  from r show ?thesis
  proof (cases rule: AgentWorkflow_cases)
    case early
    with assms r show ?thesis by simp
  next
    case (loop rc st0 st1 out)
    have "sent_inv C input rc maxReActIterations st0" using loop(2) by (simp add: sent_inv_def loop_start_def)
    from sent.react_loop_inv [OF this loop_start_complete [OF loop(2)] loop(3)]
    have "list_all (sent_ok C input rc) (as_log st)" using loop(5) by (auto simp: sent_inv_def)
    with assms r have "dispatch_ok C input rc name tgt" by (auto simp: list_all_iff)
    with loop(1) show ?thesis by blast
  qed
qed

text \<open>A sub-agent's chain is its caller's and the caller, none twice, at most three deep.\<close>

definition below :: "agent_input \<Rightarrow> agent_input \<Rightarrow> bool" where
  "below x y \<longleftrightarrow> ai_chain y = ai_chain x @ [ai_agent x] \<and> ai_agent y \<notin> set (ai_chain y) \<and> length (ai_chain y) \<le> maxDelegationDepth
     \<and> ai_user y = ai_user x \<and> ai_turn_key y = []
     \<and> ai_session_turn y = (if ai_turn_key x \<noteq> [] then Some \<lparr>tn_session = ai_session x, tn_key = ai_turn_key x\<rparr> else ai_session_turn x)"

lemma delegates_below: "delegates x y \<Longrightarrow> below x y"
proof (induction rule: delegates.induct)
  case (awaited name y childID queue C E x w q T c)
  from run_sent [OF awaited] show ?case
    by (auto simp: below_def loop_context_def dispatch_ok_def delegate_ok_def delegationRefusal_def split: if_splits)
next
  case (background name t y childID queue C E x w q T c)
  from run_sent [OF background] show ?case
    by (auto simp: below_def loop_context_def dispatch_ok_def delegate_ok_def delegationRefusal_def split: if_splits)
qed

subsection \<open>Properties\<close>

text \<open>C7: A turn's transcript is stored whole: whatever writes fail or are confirmed too late, whatever other writers add
  meanwhile and however the run ends, each write leaves in the table a first part of the turn, in order, each message
  once under its key, where every call of the model is followed by its result; and so is what the run returns.\<close>

theorem transcript_stored_whole:
  assumes "AgentWorkflow C E input w q T c = (st, res)" and "table_ok T" and "turn_alone E input"
    and "own_rows T (ai_session input) (ai_turn_key input) = []"
  shows "(\<forall>turn T'. Stored turn T' \<in> set (as_log st) \<longrightarrow>
            (\<exists>k. stored T' (ai_session input) (ai_turn_key input) turn k \<and> complete (take k turn)))
    \<and> (\<forall>out. res = Inr out \<longrightarrow> complete (ao_messages out))"
  using assms(1)
proof (cases rule: AgentWorkflow_cases)
  case (loop rc st0 st1 out)
  from store_inv_start [OF assms(2-4) loop(2)] stores.react_loop_inv [OF _ loop_start_complete [OF loop(2)] loop(3)]
  obtain n' where "store_inv E input n' st1" "complete (as_turn st1)" "ao_messages out = as_turn st1" by blast
  with loop(4,5) show ?thesis by (fastforce simp: store_inv_def list_all_iff)
qed auto


text \<open>A run asks its model at most \<open>maxReActIterations\<close> times, its steps numbered 0, 1, ... in order.\<close>

theorem model_asked_at_most:
  "\<exists>m \<le> maxReActIterations. asked_steps (as_log (fst (AgentWorkflow C E input w q T c))) = [0..<m]"
proof -
  obtain st res where r: "AgentWorkflow C E input w q T c = (st, res)" by fastforce
  then show ?thesis
  proof (cases rule: AgentWorkflow_cases)
    case early
    with r show ?thesis by (auto simp: asked_steps_def)
  next
    case (loop rc st0 st1 out)
    have "ask_count maxReActIterations st0" using loop(2) by (simp add: ask_count_def loop_start_def asked_steps_def)
    from asks.react_loop_inv [OF this loop_start_complete [OF loop(2)] loop(3)]
    show ?thesis using loop(5) r by (auto simp: ask_count_def intro: exI [of _ "maxReActIterations - _"])
  qed
qed

text \<open>C9: A run dispatches only tools of its agent's list that the rules leave to the user it answers, whatever the model
  asks for, when its list comes from a worker's catalog; an agent not open to the user dispatches nothing.\<close>

theorem only_open_tools_dispatched:
  assumes "\<And>n l. ak_tools (E n) = Inr l \<Longrightarrow> names_distinct (cat n) \<and> ListTools (cat n) (ai_agent input) (ai_user input) = Inr l"
    and "Dispatched name tgt \<in> set (as_log (fst (AgentWorkflow C E input w q T c)))"
  shows "\<exists>n. SnapshotAllowed (c_access (cat n)) (ai_user input) (Agent (ai_agent input))
    \<and> (\<exists>e \<in> set (entries (cat n) (ai_agent input)). entry_name e = name
         \<and> SnapshotAllowed (c_access (cat n)) (ai_user input) (entry_ref e))"
proof -
  from run_sent [OF assms(2)] obtain rc where l: "loop_context E input rc" "dispatch_ok C input rc name tgt" by blast
  then obtain n where rc: "ak_tools (E n) = Inr (rc_tools rc)" "lt_resolutions (rc_tools rc) name \<noteq> None"
    unfolding loop_context_def dispatch_ok_def by blast
  let ?c = "cat n" and ?ag = "ai_agent input" and ?u = "ai_user input"
  from assms(1) [OF rc(1)] have c: "names_distinct ?c" "rc_tools rc = AllowedToolsFor ?c ?ag ?u"
    by (auto simp: ListTools_def split: option.splits)
  have open_agent: "SnapshotAllowed (c_access ?c) ?u (Agent ?ag)"
    using rc(2) c(2) by (auto simp: AllowedToolsFor_def allowedTools_entries split: if_splits)
  from rc(2) obtain e where "e \<in> set (entries ?c ?ag)" "SnapshotAllowed (c_access ?c) ?u (entry_ref e)" "entry_name e = name"
    unfolding c(2) AllowedToolsFor_open(3) [OF open_agent c(1)] by (auto simp: map_of_eq_None_iff)
  with open_agent show ?thesis by blast
qed

text \<open>C10: Delegation is bounded and keeps its user: a sub-agent, at whatever depth below a session's turn, is at most
  three levels down, in a chain where no agent comes twice; it acts for the user the turn answers, has no turn of its
  own, and works for that turn.\<close>

theorem delegation_bounded:
  assumes "delegates\<^sup>+\<^sup>+ root x" and "ai_chain root = []"
  shows "distinct (ai_chain x @ [ai_agent x]) \<and> length (ai_chain x) \<le> maxDelegationDepth
    \<and> (\<exists>rest. ai_chain x = ai_agent root # rest) \<and> ai_user x = ai_user root \<and> ai_turn_key x = []
    \<and> (ai_turn_key root \<noteq> [] \<longrightarrow> ai_session_turn x = Some \<lparr>tn_session = ai_session root, tn_key = ai_turn_key root\<rparr>)"
  using assms(1)
proof (induction rule: tranclp_induct)
  case (base y)
  from delegates_below [OF this] assms(2) show ?case by (auto simp: below_def)
next
  case (step y z)
  from delegates_below [OF step(2)] step.IH show ?case by (auto simp: below_def)
qed

subsection \<open>A run to look at\<close>

text \<open>Jarvis answers Alice's first message: it delegates to Smith, then answers.\<close>

definition ex_catalog :: catalog where
  "ex_catalog = SetAccess (SetAgents NewCatalog
     [\<lparr>a_id = ''jarvis'', a_name = ''Jarvis'', a_mention = [], a_description = [], a_skills = [], a_tools = [''agent_*''], a_llm_on_machine = []\<rparr>,
      \<lparr>a_id = ''smith'', a_name = ''Smith'', a_mention = [], a_description = [], a_skills = [], a_tools = [], a_llm_on_machine = []\<rparr>])
     \<lparr>sn_rules = [], sn_users = Map.empty\<rparr>"

definition ex_agent_input :: agent_input where
  "ex_agent_input = \<lparr>ai_session = ''s'', ai_user = ''alice'', ai_user_name = ''Alice'', ai_agent = ''jarvis'', ai_message = [],
     ai_system = [], ai_model = [], ai_turn_key = ''m1.jarvis'', ai_earlier = [], ai_load_memory = False, ai_chain = [],
     ai_channel = ''web'', ai_channel_id = [], ai_session_turn = None, ai_part_note = [], ai_sign = False, ai_machine = None,
     ai_excluded = [], ai_call_prefix = []\<rparr>"

definition ex_response :: "string \<Rightarrow> tool_call list \<Rightarrow> llm_response" where
  "ex_response content calls = empty_response\<lparr>rp_content := content, rp_calls := calls, rp_stop := ''end_turn''\<rparr>"

definition ex_atick :: atick where
  "ex_atick = \<lparr>rk_cancel = False, rk_llm = Inr (ex_response ''done'' []), rk_choose = (\<lambda>_. Inl (OtherError [])), ak_others = [],
     ak_skills = Inr \<lparr>sk_name = ''Jarvis'', sk_llm_on_machine = [], sk_run_skills = []\<rparr>,
     ak_tools = Inr (AllowedToolsFor ex_catalog ''jarvis'' ''alice''), ak_persist = Written, ak_register = Inr [], ak_start = None,
     ak_exec = Inl (OtherError []), ak_child = Inr [], ak_agent = Inr (empty_output\<lparr>ao_response := ''42''\<rparr>)\<rparr>"

definition ex_aschedule :: aschedule where
  "ex_aschedule n = (if n = 2
     then ex_atick\<lparr>rk_llm := Inr (ex_response [] [\<lparr>tc_id = ''c1'', tc_name = ''agent_smith'', tc_input = ''{}''\<rparr>])\<rparr> else ex_atick)"

abbreviation ex_run :: "agent_state \<times> (string, agent_output) result" where
  "ex_run \<equiv> AgentWorkflow ex_codec ex_aschedule ex_agent_input ''s:p:jarvis:m1'' ''q'' empty_table False"

fun to_smith :: "agent_event \<Rightarrow> bool" where
  "to_smith (Dispatched name (ToChild (AgentChild y) _ _)) = (name = ''agent_smith'')"
| "to_smith _ = False"

lemma ex_tools:
  "lt_refused (AllowedToolsFor ex_catalog ''jarvis'' ''alice'') = []"
  "lt_resolutions (AllowedToolsFor ex_catalog ''jarvis'' ''alice'') ''agent_smith'' = Some (agent_resolution ''smith'')"
  by code_simp+

interpretation kept: run_inv C E input rc "\<lambda>n st. e \<in> set (as_log st)" for C E input rc e
proof unfold_locales
  show "e \<in> set (as_log (flush E input st))" if "e \<in> set (as_log st)" for st
    using flush_log [of E input st] that by auto
  show "e \<in> set (as_log (fst (ask E input rc i st)))" if "e \<in> set (as_log st)" for i st
    using ask_log [of E input rc i st] that by auto
qed auto

definition ex_rc :: run_context where
  "ex_rc = \<lparr>rc_workflow = ''s:p:jarvis:m1'', rc_queue = ''q'', rc_name = ''Jarvis'', rc_signed = [], rc_chain = [''jarvis''],
     rc_tools = AllowedToolsFor ex_catalog ''jarvis'' ''alice'',
     rc_call = (callContext ex_agent_input [''jarvis''] [] ''q'')\<lparr>cc_run_skills := []\<rparr>\<rparr>"

definition ex_start :: agent_state where
  "ex_start = \<lparr>as_route = (idle_route False)\<lparr>rt_mode := LLMOnMachineNever, rt_clock := 2\<rparr>, as_turn = [], as_persisted = 0,
     as_table = empty_table, as_log = []\<rparr>"

lemma ex_ticks: "ex_aschedule 0 = ex_atick" "ex_aschedule (Suc 0) = ex_atick"
  by (simp_all add: ex_aschedule_def)

lemma ex_run_loop: "ex_run = clear_note ex_aschedule (react_loop ex_codec ex_aschedule ex_agent_input ex_rc maxReActIterations ex_start)"
  by (simp add: AgentWorkflow_def start_run_def flush_start await_def others_def rwait_def idle_route_def ex_ticks route_ticks_def
      rtick.defs start_route_def startLLMRoute_def Let_def ex_atick_def ex_agent_input_def ex_tools ex_rc_def ex_start_def
      LLMOnMachineNever_def numeral_2_eq_2)

lemma run_calls_keeps:
  assumes "e \<in> set (as_log (fst (dispatch_all C E input rc
      ((rc_call rc)\<lparr>cc_memory_version := rp_memory_version resp, cc_memory_unread := rp_memory_unread resp\<rparr>) i 0 (rp_calls resp)
      (await E [ToldCalls (shown_calls rc (rp_calls resp))] (st\<lparr>as_turn := as_turn st @ [answer_message input rc resp on]\<rparr>)))))"
  shows "e \<in> set (as_log (run_calls C E input rc i resp on st))"
proof -
  obtain st2 ds where d: "dispatch_all C E input rc
      ((rc_call rc)\<lparr>cc_memory_version := rp_memory_version resp, cc_memory_unread := rp_memory_unread resp\<rparr>) i 0 (rp_calls resp)
      (await E [ToldCalls (shown_calls rc (rp_calls resp))] (st\<lparr>as_turn := as_turn st @ [answer_message input rc resp on]\<rparr>)) = (st2, ds)"
    by fastforce
  obtain st3 files where c: "collect C E (zip (rp_calls resp) ds) st2 = (st3, files)" by fastforce
  have "e \<in> set (as_log st2)" using assms d by simp
  then have "e \<in> set (as_log st3)" using kept.collect_inv [OF _ c] by blast
  with flush_log [of E input st3] show ?thesis by (auto simp: run_calls_def Let_def d c)
qed

lemma ex_child: "\<exists>y. buildChildInput ex_codec ''{}'' parent cid (agent_resolution ''smith'') cc ''jarvis'' q = Inr (AgentChild y, q)"
proof -
  let ?ms = "[(''task'', JVStr ''count''), (''USER_ID'', JVStr ''root'')]"
  have "read_string ''task'' ?ms [] = Some ''count''" "read_string ''model'' ?ms [] = Some []" "\<not> blank ''count''" by code_simp+
  then show ?thesis by (simp add: buildChildInput_def subAgentInput_def agent_resolution_def ex_codec_def)
qed

lemma ex_dispatch:
  "\<exists>y cid. dispatch_call ex_codec E ex_agent_input ex_rc call i j \<lparr>tc_id = ''c1'', tc_name = ''agent_smith'', tc_input = ''{}''\<rparr> st
     = (st\<lparr>as_log := as_log st @ [Dispatched ''agent_smith'' (ToChild (AgentChild y) cid ''q'')]\<rparr>, ChildRuns True (cancelled st))"
proof -
  have rc: "lt_resolutions (rc_tools ex_rc) ''agent_smith'' = Some (agent_resolution ''smith'')" "rc_queue ex_rc = ''q''"
    "ai_agent ex_agent_input = ''jarvis''" by (simp_all add: ex_rc_def ex_tools ex_agent_input_def)
  have r: "rs_background (agent_resolution ''smith'')" "rs_kind (agent_resolution ''smith'') = ToolKindWorkflow"
    "rs_agent (agent_resolution ''smith'') = ''smith''" by (simp_all add: agent_resolution_def)
  have t: "TakeBackground ex_codec ''{}'' = Inr (''{}'', False)"
    by (simp add: TakeBackground_def BackgroundField_def index_str.simps has_prefix_def)
  have d: "delegationRefusal ex_codec (rc_chain ex_rc) ''smith'' = None"
    by (simp add: delegationRefusal_def ex_rc_def maxDelegationDepth_def)
  obtain y where y: "buildChildInput ex_codec ''{}''
      (ex_agent_input\<lparr>ai_machine := rt_machine (as_route st), ai_excluded := rt_excluded (as_route st)\<rparr>)
      (childWorkflowID (rc_workflow ex_rc) ''agent_smith'' ''c1'' i j) (agent_resolution ''smith'')
      (call\<lparr>cc_call := ai_call_prefix ex_agent_input @ callKey ''c1'' i j\<rparr>) ''jarvis'' ''q'' = Inr (AgentChild y, ''q'')"
    using ex_child by blast
  show ?thesis
    by (intro exI [of _ y] exI [of _ "childWorkflowID (rc_workflow ex_rc) ''agent_smith'' ''c1'' i j"])
      (simp add: dispatch_call_def rc r t d y)
qed

text \<open>What the first step of a loop dispatches is in the run's log.\<close>

interpretation whole: run_inv C E input rc "\<lambda>_ _. True" for C E input rc
  by unfold_locales auto

lemma first_call_kept:
  assumes "\<not> cancelled st" and "complete (as_turn st)"
    and "ask E input rc (maxReActIterations - Suc n) st = (st1, resp, on, None)" and "rp_calls resp = [tc]"
    and "\<And>call s. \<exists>e s' d. dispatch_call C E input rc call (maxReActIterations - Suc n) 0 tc s = (s', d) \<and> e \<in> set (as_log s') \<and> P e"
  shows "\<exists>e \<in> set (as_log (fst (react_loop C E input rc (Suc n) st))). P e"
proof -
  define st2 where "st2 = run_calls C E input rc (maxReActIterations - Suc n) resp on st1"
  obtain e s' d where e: "dispatch_call C E input rc
      ((rc_call rc)\<lparr>cc_memory_version := rp_memory_version resp, cc_memory_unread := rp_memory_unread resp\<rparr>)
      (maxReActIterations - Suc n) 0 tc
      (await E [ToldCalls (shown_calls rc (rp_calls resp))] (st1\<lparr>as_turn := as_turn st1 @ [answer_message input rc resp on]\<rparr>)) = (s', d)"
      "e \<in> set (as_log s')" "P e"
    using assms(5) by blast
  have "e \<in> set (as_log st2)"
    unfolding st2_def by (rule run_calls_keeps) (use e assms(4) in simp)
  moreover have "complete (as_turn st1)" using assms(2,3) by (auto simp: ask_def Let_def split: prod.splits)
  then have "complete (as_turn st2)" unfolding st2_def using whole.run_calls_inv by blast
  ultimately have "e \<in> set (as_log (fst (react_loop C E input rc n st2)))"
    using kept.react_loop_inv by (metis prod.collapse)
  with assms e(3) show ?thesis by (auto simp: st2_def)
qed

lemma ex_run_delegates: "\<exists>e \<in> set (as_log (fst ex_run)). to_smith e"
proof -
  let ?tc = "\<lparr>tc_id = ''c1'', tc_name = ''agent_smith'', tc_input = ''{}''\<rparr>"
  have n: "maxReActIterations = Suc 49" by (simp add: maxReActIterations_def)
  obtain st1 where a: "ask ex_aschedule ex_agent_input ex_rc (maxReActIterations - Suc 49) ex_start = (st1, ex_response [] [?tc], None, None)"
    by (simp add: ask_def routeCall_def onServer_def ex_start_def idle_route_def others_def Let_def ex_aschedule_def route_ticks_def rtick.defs)
  have "\<exists>e \<in> set (as_log (fst (react_loop ex_codec ex_aschedule ex_agent_input ex_rc (Suc 49) ex_start))). to_smith e"
  proof (rule first_call_kept [OF _ _ a])
    show "\<exists>e s' d. dispatch_call ex_codec ex_aschedule ex_agent_input ex_rc call (maxReActIterations - Suc 49) 0 ?tc s = (s', d)
        \<and> e \<in> set (as_log s') \<and> to_smith e" for call s
    proof -
      obtain y cid where "dispatch_call ex_codec ex_aschedule ex_agent_input ex_rc call (maxReActIterations - Suc 49) 0 ?tc s
          = (s\<lparr>as_log := as_log s @ [Dispatched ''agent_smith'' (ToChild (AgentChild y) cid ''q'')]\<rparr>, ChildRuns True (cancelled s))"
        using ex_dispatch by blast
      then show ?thesis by (intro exI [of _ "Dispatched ''agent_smith'' (ToChild (AgentChild y) cid ''q'')"] exI conjI) (assumption, simp_all)
    qed
  qed (simp_all add: ex_start_def idle_route_def ex_response_def)
  moreover have "as_log (fst ex_run) = as_log (fst (react_loop ex_codec ex_aschedule ex_agent_input ex_rc (Suc 49) ex_start))"
    unfolding ex_run_loop n by (simp add: clear_note_def split: prod.split)
  ultimately show ?thesis by simp
qed

lemma ex_turn_key: "TurnKey 1 ''jarvis'' = ''m1.jarvis''"
  by (simp add: TurnKey_def dec_int_def dec_nat.simps [of "Suc 0"] digit_char_def)

lemma ex_parse: "parseTurn ''m1.jarvis'' = Some (1, ''jarvis'')"
  using parseTurn_TurnKey [of 1 "''jarvis''"] by (simp add: ex_turn_key participant_ok_def)

lemma ex_alone: "turn_alone ex_aschedule ex_agent_input"
  by (simp add: turn_alone_def ex_agent_input_def ex_parse ex_aschedule_def ex_atick_def)

lemma ex_own_rows: "own_rows empty_table sid t = []"
  by (simp add: own_rows_def empty_table_def)

lemma ex_run_asks:
  "Asked 0 (llmRequest ex_agent_input ex_rc ex_start) [] empty_table \<in> set (as_log (fst ex_run))" (is "?e \<in> _")
proof -
  let ?tc = "\<lparr>tc_id = ''c1'', tc_name = ''agent_smith'', tc_input = ''{}''\<rparr>"
  have n: "maxReActIterations = Suc 49" by (simp add: maxReActIterations_def)
  obtain st1 where a: "ask ex_aschedule ex_agent_input ex_rc 0 ex_start = (st1, ex_response [] [?tc], None, None)"
      "?e \<in> set (as_log st1)"
    by (simp add: ask_def routeCall_def onServer_def ex_start_def idle_route_def others_def Let_def ex_aschedule_def ex_atick_def
        route_ticks_def rtick.defs)
  define st2 where "st2 = run_calls ex_codec ex_aschedule ex_agent_input ex_rc 0 (ex_response [] [?tc]) None st1"
  have "complete (as_turn st1)" using a(1) by (auto simp: ask_def Let_def ex_start_def split: prod.splits)
  from kept.run_calls_inv [OF a(2) this] have "?e \<in> set (as_log st2)" "complete (as_turn st2)" by (simp_all add: st2_def)
  then have "?e \<in> set (as_log (fst (react_loop ex_codec ex_aschedule ex_agent_input ex_rc 49 st2)))"
    using kept.react_loop_inv by (metis prod.collapse)
  moreover have "react_loop ex_codec ex_aschedule ex_agent_input ex_rc (Suc 49) ex_start
      = react_loop ex_codec ex_aschedule ex_agent_input ex_rc 49 st2"
  proof -
    have "\<not> cancelled ex_start" "rp_calls (ex_response [] [?tc]) \<noteq> []" "maxReActIterations - Suc 49 = 0"
      by (simp_all add: ex_start_def idle_route_def ex_response_def n)
    then show ?thesis by (simp only: react_loop.simps a(1) st2_def if_False prod.case option.case)
  qed
  ultimately show ?thesis unfolding ex_run_loop n by (auto simp: clear_note_def split: prod.split)
qed

theorem transcript_stored_whole_witness:
  "\<exists>st res. ex_run = (st, res)
     \<and> (\<forall>turn T'. Stored turn T' \<in> set (as_log st) \<longrightarrow> (\<exists>k. stored T' ''s'' ''m1.jarvis'' turn k \<and> complete (take k turn)))"
proof -
  obtain st res where r: "ex_run = (st, res)" by fastforce
  have "ai_session ex_agent_input = ''s''" "ai_turn_key ex_agent_input = ''m1.jarvis''" by (simp_all add: ex_agent_input_def)
  with transcript_stored_whole [OF r table_ok_empty ex_alone ex_own_rows] r show ?thesis by auto
qed


theorem only_open_tools_dispatched_witness:
  "\<exists>e \<in> set (entries ex_catalog ''jarvis''). entry_name e = ''agent_smith'' \<and> SnapshotAllowed (c_access ex_catalog) ''alice'' (entry_ref e)"
proof -
  from ex_run_delegates obtain tgt where "Dispatched ''agent_smith'' tgt \<in> set (as_log (fst ex_run))"
    by (metis to_smith.elims(2))
  moreover have "names_distinct ex_catalog" by (simp add: names_distinct_def ex_catalog_def SetAccess_def SetAgents_def NewCatalog_def)
  moreover have "ListTools ex_catalog ''jarvis'' ''alice'' = Inr l" if "ak_tools (ex_aschedule n) = Inr l" for n l
  proof -
    have "CheckAgent ex_catalog ''jarvis'' = None"
      by (simp add: CheckAgent_def Ready_def ex_catalog_def SetAccess_def SetAgents_def NewCatalog_def)
    with that show ?thesis by (auto simp: ListTools_def ex_aschedule_def ex_atick_def split: if_splits)
  qed
  moreover have "ai_agent ex_agent_input = ''jarvis''" "ai_user ex_agent_input = ''alice''" by (simp_all add: ex_agent_input_def)
  ultimately show ?thesis using only_open_tools_dispatched [of ex_aschedule "\<lambda>_. ex_catalog" ex_agent_input] by metis
qed

theorem delegation_bounded_witness:
  "\<exists>x. delegates\<^sup>+\<^sup>+ ex_agent_input x \<and> distinct (ai_chain x @ [ai_agent x]) \<and> length (ai_chain x) \<le> 3 \<and> ai_user x = ''alice''"
proof -
  from ex_run_delegates obtain e where e: "e \<in> set (as_log (fst ex_run))" "to_smith e" by blast
  then obtain y cid q where "e = Dispatched ''agent_smith'' (ToChild (AgentChild y) cid q)" by (metis to_smith.elims(2))
  with e have "delegates\<^sup>+\<^sup>+ ex_agent_input y" by (auto intro: delegates.awaited)
  from delegation_bounded [OF this] this show ?thesis by (auto simp: ex_agent_input_def maxDelegationDepth_def)
qed

end
