(* ===== verification/Background.thy ===== *)
theory Background
  imports AgentTools
begin

section \<open>Background tasks: their workflow, their stop, their sweep\<close>

text \<open>
  \<open>BackgroundTaskWorkflow\<close> (\<open>workflow/background.go\<close>) runs a task's tool, posts its result and wakes its participant;
  \<open>StopTask\<close> and \<open>SweepTasks\<close> (\<open>session/tasks.go\<close>) stop a task and catch up with what the tasks left undone. They act
  on the same rows (\<open>Tasks\<close>) at once: each call to the database or to Temporal is a tick of a schedule, which says what
  the others did to the rows by then, what time it is, whether the database answered (a write may be committed and its
  answer lost), and what Temporal answered. The log holds what reached the outside. What an activity's attempts come to
  is one tick, except the posting of a result and the delivery of a message, attempt by attempt.
\<close>

subsection \<open>The schedule\<close>

datatype db_answer = DbAnswered | DbLost | DbRefused

datatype temporal_answer = TemporalOk | TemporalNotFound | TemporalFailed string

text \<open>\<open>Described running\<close>; \<open>Undescribed\<close> is an answer without the workflow's information.\<close>

datatype description_answer = Described bool | Undescribed | DescribeNotFound | DescribeFailed

record btick =
  bt_ops :: "task_op list"
  bt_now :: time
  bt_db :: db_answer
  bt_reason :: string
  bt_cancel :: temporal_answer
  bt_running :: "string list option"
  bt_describe :: description_answer
  bt_signal :: "string option"
  bt_stopped :: bool
  bt_child :: "(call_error, string) result"
  bt_agent :: "(call_error, agent_output) result"
  bt_publish :: publisher

type_synonym bschedule = "nat \<Rightarrow> btick"

datatype bevent =
    Signalled string string int
  | CancelAsked string
  | SweptEnd string string int
  | ToldEnd string int
  | ToldFile file_ref
  | ToldFailure string string int string
  | EndNotWritten string string int

record world =
  wd_db :: tdb
  wd_clock :: nat
  wd_log :: "bevent list"

text \<open>A call: what the others did comes first, then it is made at the tick's time.\<close>

definition wtick :: "bschedule \<Rightarrow> world \<Rightarrow> world" where
  "wtick E w = w\<lparr>wd_db := foldl tdb_step (wd_db w) (bt_ops (E (wd_clock w))), wd_clock := Suc (wd_clock w)\<rparr>"

definition logged :: "bevent \<Rightarrow> world \<Rightarrow> world" where
  "logged e w = w\<lparr>wd_log := wd_log w @ [e]\<rparr>"

text \<open>A write of the tick \<open>tk\<close>: done unless the database refused it.\<close>

definition db_write :: "btick \<Rightarrow> (tdb \<Rightarrow> tdb) \<Rightarrow> world \<Rightarrow> world" where
  "db_write tk f w = (if bt_db tk = DbRefused then w else w\<lparr>wd_db := f (wd_db w)\<rparr>)"

subsection \<open>Stopping a task\<close>

definition MayStop :: "string \<Rightarrow> string \<Rightarrow> string \<Rightarrow> bool" where
  "MayStop createdBy authorID userID = (userID \<noteq> [] \<and> (createdBy = userID \<or> authorID = userID))"

datatype stop_error = TaskUnread | NoSuchTask | TaskOver | StopNotAllowed | StopNotRecorded | StopPending

definition StopTask :: "bschedule \<Rightarrow> string \<Rightarrow> string \<Rightarrow> string \<Rightarrow> string \<Rightarrow> string \<Rightarrow> world \<Rightarrow> world \<times> stop_error option" where
  "StopTask E sessionID createdBy taskID me_id me_name w =
     (let tk = E (wd_clock w); w1 = wtick E w in
      if bt_db tk \<noteq> DbAnswered then (w1, Some TaskUnread)
      else case GetTask (wd_db w1) taskID of
             None \<Rightarrow> (w1, Some NoSuchTask)
           | Some t \<Rightarrow>
               if t_session t \<noteq> sessionID then (w1, Some NoSuchTask)
               else if \<not> running t then (w1, Some TaskOver)
               else if \<not> MayStop createdBy (t_user t) me_id then (w1, Some StopNotAllowed)
               else
                 let tk1 = E (wd_clock w1); w2 = wtick E w1 in
                 case SetTaskCancelledBy (wd_db w2) taskID (cmp_or me_name me_id) of
                   Inl _ \<Rightarrow> (w2, Some (if bt_db tk1 = DbAnswered then TaskOver else StopNotRecorded))
                 | Inr db \<Rightarrow>
                     let w3 = db_write tk1 (\<lambda>_. db) w2 in
                     if bt_db tk1 \<noteq> DbAnswered then (w3, Some StopNotRecorded)
                     else
                       let tk2 = E (wd_clock w3); w4 = logged (CancelAsked taskID) (wtick E w3) in
                       (case bt_cancel tk2 of
                          TemporalNotFound \<Rightarrow> (w4, Some TaskOver)
                        | TemporalFailed _ \<Rightarrow> (w4, Some StopPending)
                        | TemporalOk \<Rightarrow>
                            let tk3 = E (wd_clock w4)
                            in (db_write tk3 (\<lambda>db. SetTaskCancelSent db taskID (bt_now tk3)) (wtick E w4), None)))"

subsection \<open>The sweep\<close>

definition minute :: int where "minute = 60 * second"
definition taskSweepAge :: int where "taskSweepAge = 5 * minute"
definition taskStartGrace :: int where "taskStartGrace = 15 * minute"
definition taskWakeGrace :: int where "taskWakeGrace = 5 * minute"
definition taskWakeGiveUp :: int where "taskWakeGiveUp = 30 * minute"

definition sweptReason :: string where
  "sweptReason =
     ''The task stopped without a result: its workflow ended without posting one (terminated, out of ''
     @ ''time, or its end could not be written).''"

definition notWoken :: "string \<Rightarrow> string \<Rightarrow> string" where
  "notWoken participant err = ''la fin de la t'' @ [CHR 0xC3, CHR 0xA2] @ ''che n'' @ [CHR 0x27] @ ''a pas pu r''
     @ [CHR 0xC3, CHR 0xA9] @ ''veiller @'' @ participant @ '' : '' @ err"

text \<open>\<open>resendCancels\<close>: the tasks stopped whose workflow was not told.\<close>

fun resend_each :: "bschedule \<Rightarrow> bg_task list \<Rightarrow> world \<Rightarrow> world" where
  "resend_each E [] w = w"
| "resend_each E (t # ts) w =
     (let tk = E (wd_clock w); w1 = logged (CancelAsked (t_id t)) (wtick E w)
      in resend_each E ts
           (case bt_cancel tk of
              TemporalOk \<Rightarrow> let tk1 = E (wd_clock w1) in db_write tk1 (\<lambda>db. SetTaskCancelSent db (t_id t) (bt_now tk1)) (wtick E w1)
            | _ \<Rightarrow> w1))"

definition resendCancels :: "bschedule \<Rightarrow> world \<Rightarrow> world" where
  "resendCancels E w =
     (let w1 = wtick E w in
      if bt_db (E (wd_clock w)) \<noteq> DbAnswered then w1 else resend_each E (ListTasksToCancel (wd_db w1)) w1)"

definition taskClosed :: "bschedule \<Rightarrow> bg_task \<Rightarrow> world \<Rightarrow> world \<times> bool" where
  "taskClosed E t w =
     (let tk = E (wd_clock w)
      in (wtick E w,
          case bt_describe tk of
            DescribeNotFound \<Rightarrow> taskStartGrace < bt_now tk - t_started t
          | DescribeFailed \<Rightarrow> False
          | Undescribed \<Rightarrow> False
          | Described is_running \<Rightarrow> \<not> is_running))"

definition wakeTask :: "bschedule \<Rightarrow> bg_task \<Rightarrow> world \<Rightarrow> world" where
  "wakeTask E t w =
     (let w1 = wtick E w in
      if bt_db (E (wd_clock w)) \<noteq> DbAnswered then w1
      else case GetSession (wd_db w1) (t_session t) of
             None \<Rightarrow> w1
           | Some sess \<Rightarrow>
               let tk1 = E (wd_clock w1); w2 = wtick E w1;
                   woken = (\<lambda>w. let tk = E (wd_clock w)
                                in db_write tk (\<lambda>db. SetTaskWoken db (t_id t) (bt_now tk)) (wtick E w))
               in case bt_signal tk1 of
                    None \<Rightarrow> woken (logged (Signalled (t_session t) (t_participant t) (t_result t)) w2)
                  | Some err \<Rightarrow>
                      if (case t_ended t of None \<Rightarrow> True | Some ended \<Rightarrow> bt_now tk1 - ended < taskWakeGiveUp) then w2
                      else
                        let reason = notWoken (t_participant t) err;
                            tk2 = E (wd_clock w2);
                            w3 = db_write tk2 (\<lambda>db. db\<lparr>t_msgs := fst (AppendMessage (t_msgs db) (t_session t)
                                   (TurnEndKey (TurnKey (t_result t) (t_participant t))) (TurnEnd (t_participant t) reason))\<rparr>) (wtick E w2)
                        in if bt_db tk2 \<noteq> DbAnswered then w3
                           else woken (logged (ToldFailure (t_session t) (t_participant t) (t_result t)
                                  (''Error processing message: '' @ reason)) w3))"

definition endSwept :: "bschedule \<Rightarrow> bg_task \<Rightarrow> world \<Rightarrow> world" where
  "endSwept E t w =
     (let state = (if t_cancelled_by t \<noteq> [] then BackgroundCancelled else BackgroundFailed);
          content = (if t_cancelled_by t \<noteq> [] then [] else sweptReason);
          tk = E (wd_clock w);
          w1 = wtick E w;
          (db, ending) = EndTask (wd_db w1) (t_id t) TaskEndedBySweep state (\<lambda>t. TaskResultMessage t content None) (bt_now tk);
          w2 = db_write tk (\<lambda>_. db) w1
      in if bt_db tk \<noteq> DbAnswered then w2
         else case e_task ending of
                None \<Rightarrow> w2
              | Some ended \<Rightarrow>
                  if e_gone ending \<or> \<not> e_mine ending then w2
                  else
                    let w3 = logged (SweptEnd (t_session t) (t_id t) (e_message ending)) w2
                    in if state \<noteq> BackgroundCancelled then wakeTask E ended w3 else w3)"

fun end_closed_each :: "bschedule \<Rightarrow> string list \<Rightarrow> bg_task list \<Rightarrow> world \<Rightarrow> world" where
  "end_closed_each E listed [] w = w"
| "end_closed_each E listed (t # ts) w =
     (if t_id t \<in> set listed then end_closed_each E listed ts w
      else case taskClosed E t w of
             (w1, closed) \<Rightarrow> end_closed_each E listed ts (if closed then endSwept E t w1 else w1))"

definition endClosedTasks :: "bschedule \<Rightarrow> world \<Rightarrow> world" where
  "endClosedTasks E w =
     (let tk = E (wd_clock w); w1 = wtick E w; ts = ListTasksRunningSince (wd_db w1) (bt_now tk - taskSweepAge)
      in if bt_db tk \<noteq> DbAnswered \<or> ts = [] then w1
         else case bt_running (E (wd_clock w1)) of
                None \<Rightarrow> wtick E w1
              | Some listed \<Rightarrow> end_closed_each E listed ts (wtick E w1))"

fun wake_each :: "bschedule \<Rightarrow> bg_task list \<Rightarrow> world \<Rightarrow> world" where
  "wake_each E [] w = w"
| "wake_each E (t # ts) w = wake_each E ts (wakeTask E t w)"

definition SweepTasks :: "bschedule \<Rightarrow> world \<Rightarrow> world" where
  "SweepTasks E w =
     (let w1 = endClosedTasks E (resendCancels E w);
          tk = E (wd_clock w1);
          w2 = wtick E w1
      in if bt_db tk \<noteq> DbAnswered then w2 else wake_each E (ListTasksToWake (wd_db w2) (bt_now tk - taskWakeGrace)) w2)"

subsection \<open>A task's workflow\<close>

definition maxTaskResultBytes :: nat where "maxTaskResultBytes = 2 ^ 20"

record task_input =
  ti_session :: string
  ti_agent :: string
  ti_sub_agent :: bool

text \<open>How the task ended, from its tool's end and whether a member stopped it: its state and its content.\<close>

definition task_end :: "codec \<Rightarrow> task_input \<Rightarrow> btick \<Rightarrow> bg_state \<times> string" where
  "task_end C inp tk =
     (let failed = (\<lambda>err. if bt_stopped tk \<or> is_canceled err then (BackgroundCancelled, [])
                     else (BackgroundFailed, ''The task failed: '' @ childFailure err));
          ended = (\<lambda>(content, isError). (if isError then BackgroundFailed else BackgroundDone, content))
      in if ti_sub_agent inp
         then (case bt_agent tk of
                 Inl err \<Rightarrow> failed err
               | Inr out \<Rightarrow> if bt_stopped tk \<and> ao_cancelled out then (BackgroundCancelled, []) else ended (subAgentContent C out))
         else (case bt_child tk of Inl err \<Rightarrow> failed err | Inr raw \<Rightarrow> ended (DecodeResult C raw)))"

definition storeStepAttempts :: nat where "storeStepAttempts = 12"
definition relayAttempts :: nat where "relayAttempts = 5"

text \<open>The activity \<open>PostTaskResult\<close>, up to its attempts: what the others do between its calls comes with the next ticks.\<close>

fun post_attempts :: "nat \<Rightarrow> bschedule \<Rightarrow> string \<Rightarrow> bg_state \<Rightarrow> string \<Rightarrow> world \<Rightarrow> world \<times> post_output option" where
  "post_attempts 0 E taskID st content w = (w, None)"
| "post_attempts (Suc n) E taskID st content w =
     (let tk = E (wd_clock w); w1 = wtick E w in
      if bt_db tk = DbRefused then post_attempts n E taskID st content w1
      else
        let mid1 = (\<lambda>db. foldl tdb_step db (bt_ops (E (wd_clock w1))));
            mid2 = (\<lambda>db. foldl tdb_step db (bt_ops (E (Suc (wd_clock w1)))));
            (db, res) = PostTaskResult mid1 mid2 (bt_publish tk) (wd_db w1) taskID st content (bt_now tk);
            w2 = w1\<lparr>wd_db := db, wd_clock := wd_clock w1 + 2\<rparr>
        in case res of
             Inr out \<Rightarrow> if bt_db tk = DbAnswered then (w2, Some out) else post_attempts n E taskID st content w2
           | Inl _ \<Rightarrow> post_attempts n E taskID st content w2)"

text \<open>The activity \<open>Relay\<close>: \<open>None\<close> is its success, a session gone included.\<close>

fun relay_attempts :: "nat \<Rightarrow> bschedule \<Rightarrow> string \<Rightarrow> string \<Rightarrow> int \<Rightarrow> world \<Rightarrow> world \<times> string option" where
  "relay_attempts 0 E sid agent mid w = (w, Some [])"
| "relay_attempts (Suc n) E sid agent mid w =
     (let tk = E (wd_clock w); w1 = wtick E w in
      if bt_db tk \<noteq> DbAnswered then
        (if n = 0 then (w1, Some (''read session: '' @ bt_reason tk)) else relay_attempts n E sid agent mid w1)
      else if GetSession (wd_db w1) sid = None then (w1, None)
      else let tk1 = E (wd_clock w1); w2 = wtick E w1 in
        case bt_signal tk1 of
          None \<Rightarrow> (logged (Signalled sid agent mid) w2, None)
        | Some err \<Rightarrow>
            if n = 0 then (w2, Some (''deliver to '' @ ParticipantWorkflowID sid agent @ '': '' @ err)) else relay_attempts n E sid agent mid w2)"

definition wakeParticipant :: "bschedule \<Rightarrow> string \<Rightarrow> post_output \<Rightarrow> world \<Rightarrow> world" where
  "wakeParticipant E agentID out w =
     (case relay_attempts relayAttempts E (po_session out) agentID (po_message out) w of
        (w1, None) \<Rightarrow> w1
      | (w1, Some err) \<Rightarrow>
          let reason = notWoken agentID err;
              tk = E (wd_clock w1);
              w2 = db_write tk (\<lambda>db. db\<lparr>t_msgs := fst (AppendTurnEnd (t_msgs db) (po_session out)
                     (TurnKey (po_message out) agentID) (TurnEnd agentID reason))\<rparr>) (wtick E w1);
              w3 = (if bt_db tk \<noteq> DbAnswered then logged (EndNotWritten (po_session out) agentID (po_message out)) w2 else w2)
          in logged (ToldFailure (po_session out) agentID (po_message out) (''Error processing message: '' @ reason)) (wtick E w3))"

definition BackgroundTaskWorkflow :: "codec \<Rightarrow> bschedule \<Rightarrow> task_input \<Rightarrow> string \<Rightarrow> world \<Rightarrow> world \<times> bool" where
  "BackgroundTaskWorkflow C E inp taskID w =
     (let (state, content) = task_end C inp (E (wd_clock w));
          w1 = wtick E w
      in case post_attempts storeStepAttempts E taskID state (truncateTo content maxTaskResultBytes) w1 of
           (w2, None) \<Rightarrow> (w2, False)
         | (w2, Some out) \<Rightarrow>
             if po_gone out then (w2, True)
             else
               let w3 = (case po_file out of None \<Rightarrow> w2 | Some f \<Rightarrow> logged (ToldFile f) (wtick E w2));
                   w4 = (if po_message out \<noteq> 0 then logged (ToldEnd taskID (po_message out)) (wtick E w3) else w3)
               in if po_wake out
                  then let w5 = wakeParticipant E (ti_agent inp) out w4;
                           tk = E (wd_clock w5)
                       in (db_write tk (\<lambda>db. SetTaskWoken db taskID (bt_now tk)) (wtick E w5), True)
                  else (w4, True))"

subsection \<open>What a wake rests on\<close>

text \<open>A task's ID names its session and its participant.\<close>

definition named :: "bg_task \<Rightarrow> bool" where
  "named t \<longleftrightarrow> SessionOf (t_id t) = Some (t_session t) \<and> ParticipantOf (t_id t) = Some (t_participant t)"

text \<open>Its participant was signalled with its end, or the turn that would answer it has its end, or the workflow that was to
  write that end could not, all attempts made.\<close>

definition reached :: "world \<Rightarrow> bg_task \<Rightarrow> bool" where
  "reached w t \<longleftrightarrow> Signalled (t_session t) (t_participant t) (t_result t) \<in> set (wd_log w)
     \<or> HasTurnEnd (t_msgs (wd_db w)) (t_session t) (TurnKey (t_result t) (t_participant t))
     \<or> EndNotWritten (t_session t) (t_participant t) (t_result t) \<in> set (wd_log w)"

definition woken_ok :: "world \<Rightarrow> bool" where
  "woken_ok w \<longleftrightarrow> tasks_ok (wd_db w)
     \<and> (\<forall>t \<in> set (tasks (wd_db w)). named t \<and> (t_woken t \<noteq> None \<longrightarrow> \<not> running t \<and> reached w t))"

text \<open>The others mark no wake, and register tasks under their own IDs.\<close>

fun fair_op :: "task_op \<Rightarrow> bool" where
  "fair_op (TWrite (TWoken _ _)) = False"
| "fair_op (TWrite (TRegister t _)) = named t"
| "fair_op (TWrite (TEnd _ _ st _ _ _)) = (st \<noteq> BackgroundRunning)"
| "fair_op _ = True"

definition fair :: "bschedule \<Rightarrow> bool" where
  "fair E \<longleftrightarrow> (\<forall>n. list_all fair_op (bt_ops (E n)))"

text \<open>A task that ended stays so, or goes with its session.\<close>

definition stays :: "bg_task \<Rightarrow> tdb \<Rightarrow> bool" where
  "stays t db \<longleftrightarrow> named t
     \<and> (case GetTask db (t_id t) of
          None \<Rightarrow> GetSession db (t_session t) = None
        | Some t' \<Rightarrow> \<not> running t' \<and> t_session t' = t_session t \<and> t_participant t' = t_participant t \<and> t_result t' = t_result t)"

lemma GetSession_step: "GetSession db sid = None \<Longrightarrow> GetSession (tdb_step db op) sid = None"
proof (cases op)
  case (TWrite w)
  assume none: "GetSession db sid = None"
  have "sessions (tdb_write db w) = sessions db"
  proof (cases rule: tdb_write_cases [of db w])
    case (over i who st content fl now t)
    then show ?thesis by (simp add: EndTask_running)
  qed auto
  with none TWrite show ?thesis by (simp add: GetSession_def)
next
  case (TDelete s)
  assume "GetSession db sid = None"
  with TDelete show ?thesis by (auto simp: DeleteSession_def GetSession_def find_None_iff)
qed (simp add: DropTask_def GetSession_def)

lemma tasks_ok_session: "tasks_ok db \<Longrightarrow> GetTask db i = Some t \<Longrightarrow> GetSession db (t_session t) \<noteq> None"
  by (auto simp: tasks_ok_def GetSession_def find_None_iff dest!: GetTask_Some)

text \<open>What one operation makes of a row.\<close>

definition row_kept :: "task_op \<Rightarrow> bg_task \<Rightarrow> bg_task \<Rightarrow> bool" where
  "row_kept op t t' \<longleftrightarrow> t_id t' = t_id t \<and> t_session t' = t_session t \<and> t_participant t' = t_participant t
     \<and> (fair_op op \<longrightarrow> t_woken t' = t_woken t) \<and> (\<not> running t \<longrightarrow> \<not> running t' \<and> t_result t' = t_result t)
     \<and> op \<noteq> TDelete (t_session t)"

lemma row_kept_refl: "op \<noteq> TDelete (t_session t) \<Longrightarrow> row_kept op t t"
  by (simp add: row_kept_def)

lemma row_kept_update:
  assumes "t' \<in> set (tasks (update_task db i f))" and "\<And>t :: bg_task. row_kept op t (f t)" and "\<And>t :: bg_task. op \<noteq> TDelete (t_session t)"
  shows "\<exists>t \<in> set (tasks db). row_kept op t t'"
proof -
  from assms(1) obtain t where t: "t \<in> set (tasks db)" "t' = (if t_id t = i then f t else t)" by (auto simp: update_task_def)
  then have "row_kept op t t'" using assms(2) row_kept_refl [OF assms(3)] by simp
  with t(1) show ?thesis by blast
qed

lemma change_kept:
  "live_change f \<Longrightarrow> row_kept (TWrite w) t (f t)" "row_kept (TWrite w) t (cancel_sent now t)"
  "row_kept (TWrite (TWoken i now)) t (woken_at now t)" "row_kept (TWrite w) t (end_row st who now m c t)"
  by (auto simp: row_kept_def live_change_def row_change_defs end_row_def)

lemma step_rows:
  assumes "t' \<in> set (tasks (tdb_step db op))"
  shows "(\<exists>t now. op = TWrite (TRegister t now) \<and> t' = registered t now \<and> GetTask db (t_id t) = None \<and> GetSession db (t_session t) \<noteq> None)
    \<or> (\<exists>t \<in> set (tasks db). row_kept op t t')"
proof (cases op)
  case (TWrite w)
  show ?thesis
  proof (cases rule: tdb_write_cases [of db w])
    case none
    then show ?thesis using assms TWrite row_kept_refl [of op t'] by auto
  next
    case (new t now)
    then show ?thesis using assms TWrite row_kept_refl [of op t'] by auto
  next
    case (live i t f)
    with assms TWrite show ?thesis using row_kept_update [of t' db i f op] change_kept(1) by auto
  next
    case (mark i f)
    then have "row_kept op t (f t)" for t using TWrite change_kept(2,3) by auto
    with assms TWrite mark(1) show ?thesis using row_kept_update [of t' db i f op] by auto
  next
    case (over i who st content fl now t)
    with assms TWrite show ?thesis
      using row_kept_update [of t' "db\<lparr>t_msgs := _\<rparr>" i "end_row st who now _ _" op] change_kept(4) by (auto simp: EndTask_running)
  next
    case (message m)
    then show ?thesis using assms TWrite row_kept_refl [of op t'] by auto
  qed
next
  case (TDrop i)
  with assms show ?thesis using row_kept_refl [of op t'] by (auto simp: DropTask_def)
next
  case (TDelete sid)
  with assms show ?thesis using row_kept_refl [of op t'] by (auto simp: DeleteSession_def)
qed

lemma HasTurnEnd_step:
  assumes "HasTurnEnd (t_msgs db) sid tk" and "op \<noteq> TDelete sid"
  shows "HasTurnEnd (t_msgs (tdb_step db op)) sid tk"
proof -
  obtain r where r: "find_row (t_msgs db) (sid, TurnEndKey tk) = Some r" using assms(1) by (auto simp: HasTurnEnd_def)
  show ?thesis
  proof (cases op)
    case (TWrite w)
    show ?thesis
    proof (cases rule: tdb_write_cases [of db w])
      case (over i who st content fl now t)
      with r TWrite show ?thesis by (simp add: EndTask_running HasTurnEnd_def find_row_insert)
    next
      case (message m)
      with r TWrite write_step_keeps [OF r, of m] show ?thesis by (simp add: HasTurnEnd_def)
    qed (use r TWrite in \<open>auto simp: HasTurnEnd_def\<close>)
  next
    case (TDelete s)
    with r assms(2) find_row_delete_session [of sid s] show ?thesis by (simp add: HasTurnEnd_def DeleteSession_def)
  qed (use r in \<open>auto simp: HasTurnEnd_def DropTask_def\<close>)
qed

lemma named_registered [simp]: "named (registered t now) = named t"
  by (simp add: named_def registered_def)

lemma named_kept: "row_kept op t t' \<Longrightarrow> named t' = named t"
  by (simp add: named_def row_kept_def)

lemma woken_ok_op:
  assumes "woken_ok w" and "fair_op op"
  shows "woken_ok (w\<lparr>wd_db := tdb_step (wd_db w) op\<rparr>)"
proof -
  let ?w = "w\<lparr>wd_db := tdb_step (wd_db w) op\<rparr>"
  have "named t' \<and> (t_woken t' \<noteq> None \<longrightarrow> \<not> running t' \<and> reached ?w t')" if t': "t' \<in> set (tasks (tdb_step (wd_db w) op))" for t'
    using step_rows [OF t']
  proof (elim disjE exE bexE conjE)
    fix t now assume "op = TWrite (TRegister t now)" "t' = registered t now"
    with assms(2) show ?thesis by (auto simp: registered_def named_def)
  next
    fix t assume t: "t \<in> set (tasks (wd_db w))" and k: "row_kept op t t'"
    show ?thesis
    proof (intro conjI impI)
      show "named t'" using assms(1) t named_kept [OF k] by (auto simp: woken_ok_def)
      assume "t_woken t' \<noteq> None"
      then have "t_woken t \<noteq> None" using k assms(2) by (simp add: row_kept_def)
      then have r: "\<not> running t" "reached w t" using assms(1) t by (auto simp: woken_ok_def)
      then show "\<not> running t'" using k by (simp add: row_kept_def)
      show "reached ?w t'" using r k HasTurnEnd_step [of "wd_db w" "t_session t" _ op] by (auto simp: reached_def row_kept_def)
    qed
  qed
  then show ?thesis using assms(1) tasks_ok_step by (auto simp: woken_ok_def)
qed

lemma ended_row_stays:
  assumes "t \<in> set (tasks db)" and "\<not> running t" and "op \<noteq> TDelete (t_session t)"
  shows "t_id t \<in> t_id ` set (tasks (tdb_step db op))"
proof (cases op)
  case (TWrite w)
  have upd: "t_id t \<in> t_id ` set (tasks (update_task d i f))" if "tasks d = tasks db" "\<And>x. t_id (f x) = t_id x" for d i f
  proof -
    have "t_id ` set (tasks (update_task d i f)) = t_id ` set (tasks db)"
      using arg_cong [OF update_ids [of f d i, OF that(2)], of set] that(1) by simp
    with assms(1) show ?thesis by simp
  qed
  show ?thesis
  proof (cases rule: tdb_write_cases [of db w])
    case (live i t0 f)
    with TWrite live_change_laws(1) [OF live(4)] show ?thesis by (auto simp: keeps_identity_def intro!: upd)
  next
    case (mark i f)
    with TWrite mark_change_laws(1) [OF mark(2)] show ?thesis by (auto simp: keeps_identity_def intro!: upd)
  next
    case (over i who st content fl now t0)
    with TWrite show ?thesis by (auto simp: EndTask_running end_row_def intro!: upd)
  qed (use assms TWrite in auto)
next
  case (TDrop i)
  with assms show ?thesis by (auto simp: DropTask_def)
next
  case (TDelete sid)
  with assms show ?thesis by (auto simp: DeleteSession_def)
qed

lemma stays_op:
  assumes "tasks_ok db" and "stays t db" and "fair_op op \<or> (\<exists>i now. op = TWrite (TWoken i now))"
  shows "stays t (tdb_step db op)"
proof (cases "GetTask (tdb_step db op) (t_id t)")
  case None
  have "GetSession (tdb_step db op) (t_session t) = None"
  proof (cases "GetTask db (t_id t)")
    case None
    with assms(2) show ?thesis by (simp add: stays_def GetSession_step)
  next
    case (Some t0)
    with assms(2) have t0: "\<not> running t0" "t_session t0 = t_session t" by (auto simp: stays_def)
    have i: "t0 \<in> set (tasks db)" "t_id t0 = t_id t" using GetTask_Some [OF Some] by auto
    have "op = TDelete (t_session t)"
    proof (rule ccontr)
      assume n: "op \<noteq> TDelete (t_session t)"
      have "t_id t0 \<in> t_id ` set (tasks (tdb_step db op))" by (rule ended_row_stays [OF i(1) t0(1)]) (use n t0 in simp)
      with None i show False by (simp add: GetTask_None)
    qed
    then show ?thesis by (auto simp: DeleteSession_def GetSession_def find_None_iff)
  qed
  with None assms(2) show ?thesis by (simp add: stays_def)
next
  case (Some t')
  then have t': "t' \<in> set (tasks (tdb_step db op))" "t_id t' = t_id t" using GetTask_Some by auto
  show ?thesis using step_rows [OF t'(1)]
  proof (elim disjE exE bexE conjE)
    fix t0 now assume new: "op = TWrite (TRegister t0 now)" "t' = registered t0 now" "GetTask db (t_id t0) = None"
      and ses: "GetSession db (t_session t0) \<noteq> None"
    have "t_id t0 = t_id t" using new t' by (simp add: registered_def)
    moreover have "named t0" using new assms(3) by auto
    ultimately have "t_session t0 = t_session t" using assms(2) by (simp add: stays_def named_def)
    with new ses assms(2) \<open>t_id t0 = t_id t\<close> show ?thesis by (simp add: stays_def)
  next
    fix t0 assume t0: "t0 \<in> set (tasks db)" and k: "row_kept op t0 t'"
    have "GetTask db (t_id t) = Some t0" using GetTask_unique [OF assms(1) t0] k t'(2) by (simp add: row_kept_def)
    with assms(2) k Some show ?thesis by (auto simp: stays_def row_kept_def)
  qed
qed

subsection \<open>Watching ended tasks\<close>

text \<open>The wakes are sound, and the ended tasks of \<open>S\<close> stay so. A task is settled when its wake may be marked.\<close>

definition watch :: "bg_task set \<Rightarrow> world \<Rightarrow> bool" where
  "watch S w \<longleftrightarrow> woken_ok w \<and> (\<forall>t \<in> S. stays t (wd_db w))"

definition settled :: "world \<Rightarrow> bg_task \<Rightarrow> bool" where
  "settled w t \<longleftrightarrow> reached w t \<or> GetSession (wd_db w) (t_session t) = None"

lemma watch_op: "watch S w \<Longrightarrow> fair_op op \<Longrightarrow> watch S (w\<lparr>wd_db := tdb_step (wd_db w) op\<rparr>)"
  using woken_ok_op stays_op by (auto simp: watch_def woken_ok_def)

lemma watch_ops: "watch S w \<Longrightarrow> list_all fair_op ops \<Longrightarrow> watch S (w\<lparr>wd_db := foldl tdb_step (wd_db w) ops\<rparr>)"
proof (induction ops arbitrary: w)
  case (Cons op ops)
  from Cons.IH [OF watch_op [OF Cons.prems(1)]] Cons.prems(2) show ?case by simp
qed simp

lemma watch_clock [simp]: "watch S (w\<lparr>wd_clock := n\<rparr>) = watch S w"
  by (simp add: watch_def woken_ok_def reached_def)

lemma watch_tick: "fair E \<Longrightarrow> watch S w \<Longrightarrow> watch S (wtick E w)"
  using watch_ops [of S w "bt_ops (E (wd_clock w))"] watch_clock [of S _ "w\<lparr>wd_db := foldl tdb_step (wd_db w) (bt_ops (E (wd_clock w)))\<rparr>"]
  by (simp add: wtick_def fair_def)

lemma watch_logged: "watch S w \<Longrightarrow> watch S (logged e w)"
  by (auto simp: watch_def woken_ok_def reached_def logged_def)

lemma watch_write:
  "watch S w \<Longrightarrow> fair_op op \<Longrightarrow> f (wd_db w) = tdb_step (wd_db w) op \<Longrightarrow> watch S (db_write tk f w)"
  using watch_op by (simp add: db_write_def)

lemma watch_capture: "watch S w \<Longrightarrow> GetTask (wd_db w) i = Some t \<Longrightarrow> \<not> running t \<Longrightarrow> watch (insert t S) w"
  using GetTask_Some [of "wd_db w" i t] by (auto simp: watch_def stays_def woken_ok_def)

lemma settled_op: "settled w t \<Longrightarrow> settled (w\<lparr>wd_db := tdb_step (wd_db w) op\<rparr>) t"
proof (cases "op = TDelete (t_session t)")
  case True
  then have "GetSession (tdb_step (wd_db w) op) (t_session t) = None" by (auto simp: DeleteSession_def GetSession_def find_None_iff)
  then show ?thesis by (simp add: settled_def)
next
  case False
  assume "settled w t"
  with False show ?thesis using HasTurnEnd_step [of "wd_db w" "t_session t" _ op] by (auto simp: settled_def reached_def GetSession_step)
qed

lemma settled_ops: "settled w t \<Longrightarrow> settled (w\<lparr>wd_db := foldl tdb_step (wd_db w) ops\<rparr>) t"
proof (induction ops arbitrary: w)
  case (Cons op ops)
  from Cons.IH [OF settled_op [OF Cons.prems]] show ?case by simp
qed simp

lemma settled_tick: "settled w t \<Longrightarrow> settled (wtick E w) t"
  using settled_ops [of w t "bt_ops (E (wd_clock w))"] by (simp add: wtick_def settled_def reached_def)

lemma settled_logged: "settled w t \<Longrightarrow> settled (logged e w) t"
  by (auto simp: settled_def reached_def logged_def)

text \<open>Marking the wake of a task settled.\<close>

lemma watch_woken:
  assumes "watch S w" and "t \<in> S" and "settled w t"
  shows "watch S (db_write tk (\<lambda>db. SetTaskWoken db (t_id t) now) w)"
proof (cases "bt_db tk = DbRefused")
  case False
  let ?db = "SetTaskWoken (wd_db w) (t_id t) now" and ?op = "TWrite (TWoken (t_id t) now)"
  have db: "?db = tdb_step (wd_db w) ?op" by simp
  have ok: "tasks_ok (wd_db w)" using assms(1) by (simp add: watch_def woken_ok_def)
  have "named t' \<and> (t_woken t' \<noteq> None \<longrightarrow> \<not> running t' \<and> reached (w\<lparr>wd_db := ?db\<rparr>) t')" if t': "t' \<in> set (tasks ?db)" for t'
  proof -
    have same: "t_msgs ?db = t_msgs (wd_db w)" by (simp add: SetTaskWoken_def)
    from t' obtain u where u: "u \<in> set (tasks (wd_db w))" "t' = (if t_id u = t_id t then woken_at now u else u)"
      by (auto simp: SetTaskWoken_def update_task_def woken_at_def)
    from u(1) assms(1) have U: "named u" "t_woken u \<noteq> None \<Longrightarrow> \<not> running u \<and> reached w u" by (auto simp: watch_def woken_ok_def)
    show ?thesis
    proof (cases "t_id u = t_id t")
      case False
      with u U same show ?thesis by (auto simp: reached_def)
    next
      case True
      have g: "GetTask (wd_db w) (t_id t) = Some u" using GetTask_unique [OF ok u(1)] True by simp
      with assms(1,2) have "\<not> running u" "t_session u = t_session t" "t_participant u = t_participant t" "t_result u = t_result t"
        by (auto simp: watch_def stays_def)
      moreover have "reached w t" using assms(3) tasks_ok_session [OF ok g] calculation by (auto simp: settled_def)
      ultimately show ?thesis using u(2) True U(1) same by (auto simp: reached_def named_def woken_at_def)
    qed
  qed
  moreover have "\<forall>t \<in> S. stays t ?db" using stays_op [OF ok, of _ ?op] assms(1) unfolding db watch_def by blast
  moreover have "tasks_ok ?db" using tasks_ok_step [OF ok, of ?op] by simp
  ultimately show ?thesis using False by (simp add: watch_def woken_ok_def db_write_def)
qed (use assms in \<open>simp add: db_write_def\<close>)

text \<open>The sweep's wake, and its end of a task.\<close>

lemma watch_wakeTask:
  assumes "fair E" and "watch S w" and "t \<in> S"
  shows "watch S (wakeTask E t w)"
proof -
  define w1 where "w1 = wtick E w"
  define w2 where "w2 = wtick E w1"
  have w1: "watch S w1" and w2: "watch S w2" using watch_tick [OF assms(1)] assms(2) by (auto simp: w1_def w2_def)
  have mark: "watch S (db_write tk (\<lambda>db. SetTaskWoken db (t_id t) n) (wtick E x))" if "watch S x" "settled x t" for tk n x
    by (rule watch_woken [OF watch_tick [OF assms(1) that(1)] assms(3) settled_tick [OF that(2)]])
  have sig: "watch S (logged (Signalled (t_session t) (t_participant t) (t_result t)) w2)"
    "settled (logged (Signalled (t_session t) (t_participant t) (t_result t)) w2) t"
    using watch_logged [OF w2] by (auto simp: settled_def reached_def logged_def)
  let ?key = "TurnEndKey (TurnKey (t_result t) (t_participant t))"
  define f :: "string \<Rightarrow> tdb \<Rightarrow> tdb" where
    "f = (\<lambda>why db. db\<lparr>t_msgs := fst (AppendMessage (t_msgs db) (t_session t) ?key (TurnEnd (t_participant t) why))\<rparr>)"
  have w3: "watch S (db_write tk (f why) (wtick E w2))" for tk why
    by (rule watch_write [OF watch_tick [OF assms(1) w2], of "TWrite (TMessage (WMessage (t_session t) ?key (TurnEnd (t_participant t) why)))"])
      (simp_all add: f_def)
  have end3: "settled (logged e (db_write tk (f why) (wtick E w2))) t" if "bt_db tk = DbAnswered" for tk why e
  proof -
    have "find_row (t_msgs (f why db)) (t_session t, ?key) \<noteq> None" for db
      using insert_row_found [of "t_msgs db" "t_session t" ?key "TurnEnd (t_participant t) why"] by (auto simp: f_def AppendMessage_def Let_def)
    with that show ?thesis by (simp add: settled_def reached_def HasTurnEnd_def db_write_def logged_def)
  qed
  show ?thesis
  proof (cases "bt_db (E (wd_clock w)) = DbAnswered \<and> GetSession (wd_db w1) (t_session t) \<noteq> None")
    case False
    with w1 show ?thesis by (auto simp: wakeTask_def Let_def w1_def split: option.split)
  next
    case True
    then obtain sess where sess: "GetSession (wd_db w1) (t_session t) = Some sess" by blast
    show ?thesis
    proof (cases "bt_signal (E (wd_clock w1))")
      case None
      from True sess None mark [OF sig] show ?thesis by (simp add: wakeTask_def Let_def w1_def w2_def)
    next
      case (Some err)
      let ?tk = "E (wd_clock w2)"
      let ?e = "ToldFailure (t_session t) (t_participant t) (t_result t) (''Error processing message: '' @ notWoken (t_participant t) err)"
      have "watch S (db_write tk (\<lambda>db. SetTaskWoken db (t_id t) n) (wtick E (logged ?e (db_write ?tk (f (notWoken (t_participant t) err)) (wtick E w2)))))"
        if "bt_db ?tk = DbAnswered" for tk n
        by (rule mark [OF watch_logged [OF w3] end3 [OF that]])
      with True sess Some w2 w3 show ?thesis by (simp add: wakeTask_def Let_def f_def w1_def w2_def)
    qed
  qed
qed

lemma EndTask_row:
  assumes "EndTask db i who st build now = (db', e)" and "e_task e = Some t" and "st \<noteq> BackgroundRunning"
  shows "GetTask db' i = Some t \<and> \<not> running t"
proof (cases "GetTask db i")
  case None
  with assms show ?thesis by (auto simp: EndTask_gone)
next
  case (Some u)
  show ?thesis
  proof (cases "running u")
    case False
    with Some assms show ?thesis by (auto simp: EndTask_over)
  next
    case True
    have ids: "t_id (end_row st who now m c x) = t_id x" for m c x by (simp add: end_row_def)
    from EndTask_running [OF Some True] assms True show ?thesis
      by (auto simp: GetTask_update [OF ids] Some end_row_def ended_task_def)
  qed
qed

lemma watch_endSwept:
  assumes "fair E" and "watch S w"
  shows "watch S (endSwept E t w)"
proof -
  define st where "st = (if t_cancelled_by t \<noteq> [] then BackgroundCancelled else BackgroundFailed)"
  define content where "content = (if t_cancelled_by t \<noteq> [] then [] else sweptReason)"
  let ?tk = "E (wd_clock w)"
  define w1 where "w1 = wtick E w"
  obtain db e where e: "EndTask (wd_db w1) (t_id t) TaskEndedBySweep st (\<lambda>t. TaskResultMessage t content None) (bt_now ?tk) = (db, e)" by fastforce
  define w2 where "w2 = db_write ?tk (\<lambda>_. db) w1"
  have st: "st \<noteq> BackgroundRunning" by (simp add: st_def)
  have w1: "watch S w1" using watch_tick [OF assms] by (simp add: w1_def)
  have w2: "watch S w2" unfolding w2_def
    by (rule watch_write [OF w1, of "TWrite (TEnd (t_id t) TaskEndedBySweep st content None (bt_now ?tk))"]) (simp_all add: e st)
  have def: "endSwept E t w = (if bt_db ?tk \<noteq> DbAnswered then w2
         else case e_task e of
                None \<Rightarrow> w2
              | Some ended \<Rightarrow>
                  if e_gone e \<or> \<not> e_mine e then w2
                  else if st \<noteq> BackgroundCancelled then wakeTask E ended (logged (SweptEnd (t_session t) (t_id t) (e_message e)) w2)
                  else logged (SweptEnd (t_session t) (t_id t) (e_message e)) w2)"
    unfolding endSwept_def Let_def st_def [symmetric] content_def [symmetric] w1_def [symmetric] e prod.case w2_def [symmetric] ..
  have "watch S (wakeTask E u (logged ev w2))" if "bt_db ?tk = DbAnswered" "e_task e = Some u" for u ev
  proof -
    have "wd_db w2 = db" using that(1) by (simp add: w2_def db_write_def)
    with EndTask_row [OF e that(2) st] have "watch (insert u S) w2" by (intro watch_capture [OF w2]) auto
    from watch_wakeTask [OF assms(1) watch_logged [OF this], of u] show ?thesis by (auto simp: watch_def)
  qed
  with w2 watch_logged [OF w2] show ?thesis unfolding def by (auto split: option.split)
qed

lemma watch_wake_each: "fair E \<Longrightarrow> watch S w \<Longrightarrow> set ts \<subseteq> S \<Longrightarrow> watch S (wake_each E ts w)"
  by (induction ts arbitrary: w) (auto intro: watch_wakeTask)

lemma watch_end_closed_each: "fair E \<Longrightarrow> watch S w \<Longrightarrow> watch S (end_closed_each E listed ts w)"
  by (induction ts arbitrary: w) (auto simp: taskClosed_def Let_def intro!: watch_endSwept watch_tick)

lemma watch_cancel_sent: "watch S w \<Longrightarrow> watch S (db_write tk (\<lambda>db. SetTaskCancelSent db i now) w)"
  by (rule watch_write [of _ _ "TWrite (TCancelSent i now)"]) simp_all

lemma watch_resend_each: "fair E \<Longrightarrow> watch S w \<Longrightarrow> watch S (resend_each E ts w)"
proof (induction ts arbitrary: w)
  case (Cons t ts)
  have w1: "watch S (logged (CancelAsked (t_id t)) (wtick E w))" by (rule watch_logged [OF watch_tick [OF Cons.prems]])
  show ?case unfolding resend_each.simps Let_def
    by (rule Cons.IH [OF Cons.prems(1)])
      (use w1 watch_cancel_sent [OF watch_tick [OF Cons.prems(1) w1]] in \<open>simp split: temporal_answer.split\<close>)
qed simp

lemma watch_SweepTasks:
  assumes "fair E" and "watch S w"
  shows "watch S (SweepTasks E w)"
proof -
  have r: "watch S (resendCancels E w)"
    using watch_tick [OF assms] watch_resend_each [OF assms(1)] by (simp add: resendCancels_def Let_def)
  have c: "watch S (endClosedTasks E x)" if "watch S x" for x
    using watch_tick [OF assms(1) that] watch_tick [OF assms(1) watch_tick [OF assms(1) that]] watch_end_closed_each [OF assms(1)]
    by (auto simp: endClosedTasks_def Let_def split: option.split)
  define w1 where "w1 = endClosedTasks E (resendCancels E w)"
  define w2 where "w2 = wtick E w1"
  let ?ts = "ListTasksToWake (wd_db w2) (bt_now (E (wd_clock w1)) - taskWakeGrace)"
  have w2: "watch S w2" unfolding w2_def w1_def by (rule watch_tick [OF assms(1) c [OF r]])
  then have ok: "tasks_ok (wd_db w2)" by (simp add: watch_def woken_ok_def)
  have "stays t (wd_db w2)" if "t \<in> set ?ts" for t
  proof -
    from that have t: "t \<in> set (tasks (wd_db w2))" "\<not> running t" by (auto simp: ListTasksToWake_def)
    with GetTask_unique [OF ok t(1)] w2 show ?thesis by (auto simp: stays_def watch_def woken_ok_def)
  qed
  with w2 have "watch (S \<union> set ?ts) w2" by (auto simp: watch_def)
  from watch_wake_each [OF assms(1) this, of ?ts] have "watch S (wake_each E ?ts w2)" by (auto simp: watch_def)
  with w2 show ?thesis by (simp add: SweepTasks_def Let_def w1_def [symmetric] w2_def [symmetric])
qed

lemma watch_StopTask: "fair E \<Longrightarrow> watch S w \<Longrightarrow> watch S (fst (StopTask E sid creator i me name w))"
proof -
  assume fair: "fair E" and w: "watch S w"
  have stop: "watch S (db_write tk (\<lambda>_. db) x)" if "watch S x" "SetTaskCancelledBy (wd_db x) i n = Inr db" for tk x n db
    by (rule watch_write [OF that(1), of "TWrite (TStop i n)"]) (simp_all add: that(2))
  show ?thesis
    using w by (auto simp: StopTask_def Let_def fair stop watch_tick watch_logged watch_cancel_sent
        split: option.split sum.split temporal_answer.split)
qed

subsection \<open>A task's workflow\<close>

text \<open>What the posting of a result says of the task to wake.\<close>

definition names_task :: "string \<Rightarrow> post_output \<Rightarrow> bg_task \<Rightarrow> bool" where
  "names_task i out t \<longleftrightarrow> t_id t = i \<and> po_session out = t_session t \<and> po_message out = t_result t"

lemma EndTask_told:
  assumes "EndTask db i who st build now = (db', e)"
  shows "(e_task e = None \<longleftrightarrow> e_gone e) \<and> (\<forall>t. e_task e = Some t \<longrightarrow> e_message e = t_result t)"
proof (cases "GetTask db i")
  case None
  with assms show ?thesis by (auto simp: EndTask_gone)
next
  case (Some u)
  with assms show ?thesis by (cases "running u") (auto simp: EndTask_over EndTask_running)
qed

lemma PostTaskResult_cases:
  assumes "PostTaskResult mid1 mid2 pub db i st content now = (db', res)"
  obtains (early) "db' = db \<or> db' = mid1 db" "\<And>out. res = Inr out \<Longrightarrow> \<not> po_wake out"
  | (ended) tx fl db2 e where "EndTask (mid1 db) i TaskEndedByTask st (\<lambda>t. TaskResultMessage t tx fl) now = (db2, e)"
      "db' = db2 \<or> db' = mid2 db2" "\<And>out. res = Inr out \<Longrightarrow> \<not> po_wake out"
  | (wakes) tx fl db2 e out t where "EndTask (mid1 db) i TaskEndedByTask st (\<lambda>t. TaskResultMessage t tx fl) now = (db2, e)"
      "e_task e = Some t" "db' = mid2 db2" "res = Inr out" "po_session out = t_session t" "po_message out = t_result t"
proof (cases "GetTask db i")
  case None
  with assms show thesis by (intro early) (auto simp: PostTaskResult_def no_output_def)
next
  case (Some t)
  define big where "big = (MaxTaskMessageBytes < length content \<and> st \<noteq> BackgroundCancelled)"
  define published where "published = (if big then map_sum id Some (publish pub t content) else Inr None)"
  note def = assms [unfolded PostTaskResult_def Let_def Some option.case, folded big_def, folded published_def]
  show thesis
  proof (cases "\<not> running t \<and> t_ended_by t \<noteq> TaskEndedByTask")
    case True
    with def show thesis by (intro early) (auto simp: no_output_def)
  next
    case False
    note def1 = def [unfolded if_not_P [OF False]]
    show thesis
    proof (cases published)
      case (Inl err)
      with def1 show thesis by (intro early) (auto simp: no_output_def split: if_splits)
    next
      case (Inr fl)
      define tx where "tx = (if big then clipBytes content MaxTaskMessageBytes else content)"
      define tf where "tf = map_option (\<lambda>f. \<lparr>tf_id = f_id f, tf_name = f_name f, tf_size = f_size f\<rparr>) fl"
      obtain db2 e where e: "EndTask (mid1 db) i TaskEndedByTask st (\<lambda>t. TaskResultMessage t tx tf) now = (db2, e)" by fastforce
      note def2 = def1 [unfolded Inr sum.case, folded tx_def tf_def, unfolded e prod.case]
      show thesis
      proof (cases "e_gone e \<or> \<not> e_mine e \<or> \<not> po_wake (ended_output (the (e_task e)) (e_message e) fl)")
        case True
        with def2 show thesis by (intro ended [OF e]) (auto simp: no_output_def split: if_splits)
      next
        case False
        then obtain u where u: "e_task e = Some u" using EndTask_told [OF e] by auto
        then have m: "e_message e = t_result u" using EndTask_told [OF e] by simp
        show thesis
        proof (cases "GetSession (mid2 db2) (t_session u)")
          case None
          with def2 False u show thesis by (intro ended [OF e]) auto
        next
          case (Some sess)
          with def2 False u m show thesis by (intro wakes [OF e u]) (auto simp: ended_output_def)
        qed
      qed
    qed
  qed
qed

lemma watch_PostTaskResult:
  assumes "PostTaskResult (\<lambda>db. foldl tdb_step db ops1) (\<lambda>db. foldl tdb_step db ops2) pub (wd_db w) i st content now = (db', res)"
    and "watch S w" and "list_all fair_op ops1" and "list_all fair_op ops2" and "st \<noteq> BackgroundRunning"
  shows "watch S (w\<lparr>wd_db := db'\<rparr>) \<and> (\<forall>out. res = Inr out \<and> po_wake out \<longrightarrow> (\<exists>t. names_task i out t \<and> watch (insert t S) (w\<lparr>wd_db := db'\<rparr>)))"
proof -
  let ?w1 = "w\<lparr>wd_db := foldl tdb_step (wd_db w) ops1\<rparr>"
  have w1: "watch S ?w1" by (rule watch_ops [OF assms(2,3)])
  have over: "watch S (?w1\<lparr>wd_db := db2\<rparr>)"
    if "EndTask (wd_db ?w1) i TaskEndedByTask st (\<lambda>t. TaskResultMessage t tx fl) now = (db2, e)" for tx fl db2 e
    using watch_op [OF w1, of "TWrite (TEnd i TaskEndedByTask st tx fl now)"] that assms(5) by simp
  from assms(1) show ?thesis
  proof (cases rule: PostTaskResult_cases)
    case early
    with assms(2) w1 show ?thesis by auto
  next
    case (ended tx fl db2 e)
    then have "watch S (?w1\<lparr>wd_db := db2\<rparr>)" by (intro over) auto
    with ended watch_ops [OF this assms(4)] show ?thesis by auto
  next
    case (wakes tx fl db2 e out t)
    then have w2: "watch S (?w1\<lparr>wd_db := db2\<rparr>)" by (intro over) auto
    from EndTask_row [OF wakes(1,2) assms(5)] have t: "GetTask db2 i = Some t" "\<not> running t" by auto
    then have "watch (insert t S) (?w1\<lparr>wd_db := db2\<rparr>)" by (intro watch_capture [OF w2]) auto
    from watch_ops [OF this assms(4)] wakes have "watch (insert t S) (w\<lparr>wd_db := db'\<rparr>)" by simp
    moreover have "names_task i out t" using wakes GetTask_Some [OF t(1)] by (simp add: names_task_def)
    ultimately show ?thesis using wakes(4) by (auto simp: watch_def)
  qed
qed

lemma watch_post_attempts:
  "fair E \<Longrightarrow> st \<noteq> BackgroundRunning \<Longrightarrow> watch S w \<Longrightarrow> post_attempts n E i st content w = (w', res) \<Longrightarrow>
   watch S w' \<and> (\<forall>out. res = Some out \<and> po_wake out \<longrightarrow> (\<exists>t. names_task i out t \<and> watch (insert t S) w'))"
proof (induction n arbitrary: w)
  case (Suc n)
  let ?tk = "E (wd_clock w)"
  define w1 where "w1 = wtick E w"
  have w1: "watch S w1" using watch_tick [OF Suc.prems(1,3)] by (simp add: w1_def)
  define ops1 where "ops1 = bt_ops (E (wd_clock w1))"
  define ops2 where "ops2 = bt_ops (E (Suc (wd_clock w1)))"
  obtain db r where p: "PostTaskResult (\<lambda>db. foldl tdb_step db ops1) (\<lambda>db. foldl tdb_step db ops2) (bt_publish ?tk) (wd_db w1) i st content (bt_now ?tk)
      = (db, r)" by fastforce
  define w2 where "w2 = w1\<lparr>wd_db := db, wd_clock := wd_clock w1 + 2\<rparr>"
  have clock: "watch U w2 = watch U (w1\<lparr>wd_db := db\<rparr>)" for U
    using watch_clock [of U "wd_clock w1 + 2" "w1\<lparr>wd_db := db\<rparr>"] by (simp add: w2_def)
  have "list_all fair_op ops1" "list_all fair_op ops2" using Suc.prems(1) by (simp_all add: fair_def ops1_def ops2_def)
  note post = watch_PostTaskResult [OF p w1 this Suc.prems(2), folded clock]
  have eq: "post_attempts (Suc n) E i st content w =
      (if bt_db ?tk = DbRefused then post_attempts n E i st content w1
       else case r of Inr out \<Rightarrow> if bt_db ?tk = DbAnswered then (w2, Some out) else post_attempts n E i st content w2
            | Inl _ \<Rightarrow> post_attempts n E i st content w2)"
    unfolding post_attempts.simps Let_def w1_def [symmetric] ops1_def [symmetric] ops2_def [symmetric] p prod.case w2_def [symmetric] ..
  show ?case
  proof (cases "bt_db ?tk = DbRefused")
    case True
    with Suc.prems(4) eq show ?thesis by (intro Suc.IH [OF Suc.prems(1,2) w1]) simp
  next
    case False
    show ?thesis
    proof (cases "\<exists>out. r = Inr out \<and> bt_db ?tk = DbAnswered")
      case True
      with Suc.prems(4) eq False post show ?thesis by auto
    next
      case f: False
      with Suc.prems(4) eq False have "post_attempts n E i st content w2 = (w', res)" by (auto split: sum.splits if_splits)
      from Suc.IH [OF Suc.prems(1,2) _ this] post show ?thesis by blast
    qed
  qed
qed simp

lemma watch_relay_attempts:
  "fair E \<Longrightarrow> watch S w \<Longrightarrow> relay_attempts n E (t_session t) (t_participant t) (t_result t) w = (w', res) \<Longrightarrow>
   watch S w' \<and> (res = None \<longrightarrow> settled w' t)"
proof (induction n arbitrary: w)
  case (Suc n)
  let ?tk = "E (wd_clock w)"
  define w1 where "w1 = wtick E w"
  define w2 where "w2 = wtick E w1"
  have w1: "watch S w1" and w2: "watch S w2" using watch_tick [OF Suc.prems(1)] Suc.prems(2) by (auto simp: w1_def w2_def)
  note def = Suc.prems(3) [unfolded relay_attempts.simps Let_def, folded w1_def, folded w2_def]
  consider (read) "bt_db ?tk \<noteq> DbAnswered" | (gone) "bt_db ?tk = DbAnswered" "GetSession (wd_db w1) (t_session t) = None"
    | (sent) "bt_db ?tk = DbAnswered" "GetSession (wd_db w1) (t_session t) \<noteq> None" by blast
  then show ?case
  proof cases
    case read
    with def w1 Suc.IH [OF Suc.prems(1) w1] show ?thesis by (auto split: if_splits)
  next
    case gone
    with def w1 show ?thesis by (auto simp: settled_def)
  next
    case sent
    show ?thesis
    proof (cases "bt_signal (E (wd_clock w1))")
      case None
      with def sent have "w' = logged (Signalled (t_session t) (t_participant t) (t_result t)) w2" by auto
      with watch_logged [OF w2] show ?thesis by (auto simp: settled_def reached_def logged_def)
    next
      case (Some err)
      with def sent w2 Suc.IH [OF Suc.prems(1) w2] show ?thesis by (auto split: if_splits)
    qed
  qed
qed auto

lemma watch_wakeParticipant:
  assumes "fair E" and "watch S w" and "names_task i out t" and "t_participant t = agent"
  shows "watch S (wakeParticipant E agent out w) \<and> settled (wakeParticipant E agent out w) t"
proof -
  from assms(3,4) have out: "po_session out = t_session t" "po_message out = t_result t" "agent = t_participant t"
    by (auto simp: names_task_def)
  obtain w1 res where r: "relay_attempts relayAttempts E (t_session t) (t_participant t) (t_result t) w = (w1, res)" by fastforce
  from watch_relay_attempts [OF assms(1,2) r] have w1: "watch S w1" "res = None \<Longrightarrow> settled w1 t" by auto
  show ?thesis
  proof (cases res)
    case None
    with r w1 out show ?thesis by (simp add: wakeParticipant_def)
  next
    case (Some err)
    let ?tk = "E (wd_clock w1)" and ?turn = "TurnKey (t_result t) (t_participant t)"
    let ?m = "TurnEnd (t_participant t) (notWoken (t_participant t) err)"
    define f :: "tdb \<Rightarrow> tdb" where "f = (\<lambda>db. db\<lparr>t_msgs := fst (AppendTurnEnd (t_msgs db) (t_session t) ?turn ?m)\<rparr>)"
    define w2 where "w2 = db_write ?tk f (wtick E w1)"
    define w3 where "w3 = (if bt_db ?tk \<noteq> DbAnswered then logged (EndNotWritten (t_session t) (t_participant t) (t_result t)) w2 else w2)"
    have w2: "watch S w2" unfolding w2_def
      by (rule watch_write [OF watch_tick [OF assms(1) w1(1)], of "TWrite (TMessage (WTurnEnd (t_session t) ?turn ?m))"]) (simp_all add: f_def)
    have "HasTurnEnd (t_msgs (f db)) (t_session t) ?turn" for db by (simp add: f_def HasTurnEnd_AppendTurnEnd)
    then have s3: "settled w3 t" by (auto simp: w3_def w2_def db_write_def settled_def reached_def logged_def)
    have "watch S w3" using w2 watch_logged [OF w2] by (simp add: w3_def)
    then have "watch S (logged e (wtick E w3))" "settled (logged e (wtick E w3)) t" for e
      using watch_logged [OF watch_tick [OF assms(1)]] settled_logged [OF settled_tick [OF s3]] by blast+
    then show ?thesis
      unfolding wakeParticipant_def out r prod.case Some option.case Let_def f_def [symmetric] w2_def [symmetric] w3_def [symmetric] by blast
  qed
qed

lemma task_end_over: "task_end C inp tk = (st, content) \<Longrightarrow> st \<noteq> BackgroundRunning"
  by (auto simp: task_end_def Let_def split: if_splits sum.splits prod.splits)

lemma watch_insert: "watch (insert t S) w \<Longrightarrow> watch S w"
  by (simp add: watch_def)

lemma watch_Workflow:
  assumes "fair E" and "watch S w" and "ParticipantOf taskID = Some (ti_agent inp)"
  shows "watch S (fst (BackgroundTaskWorkflow C E inp taskID w))"
proof -
  obtain st content where e: "task_end C inp (E (wd_clock w)) = (st, content)" by fastforce
  define body' where "body' = truncateTo content maxTaskResultBytes"
  obtain w2 res where p: "post_attempts storeStepAttempts E taskID st body' (wtick E w) = (w2, res)" by fastforce
  note post = watch_post_attempts [OF assms(1) task_end_over [OF e] watch_tick [OF assms(1,2)] p]
  show ?thesis
  proof (cases res)
    case None
    with post e p show ?thesis by (simp add: BackgroundTaskWorkflow_def body'_def)
  next
    case (Some out)
    define w3 where "w3 = (case po_file out of None \<Rightarrow> w2 | Some f \<Rightarrow> logged (ToldFile f) (wtick E w2))"
    define w4 where "w4 = (if po_message out \<noteq> 0 then logged (ToldEnd taskID (po_message out)) (wtick E w3) else w3)"
    have w4: "watch U w4" if "watch U w2" for U
    proof -
      have "watch U w3" using that watch_logged watch_tick [OF assms(1)] by (auto simp: w3_def split: option.split)
      then show ?thesis using watch_logged watch_tick [OF assms(1)] by (auto simp: w4_def)
    qed
    define w5 where "w5 = wakeParticipant E (ti_agent inp) out w4"
    have run: "BackgroundTaskWorkflow C E inp taskID w = (if po_gone out then (w2, True)
        else if po_wake out
             then (db_write (E (wd_clock w5)) (\<lambda>db. SetTaskWoken db taskID (bt_now (E (wd_clock w5)))) (wtick E w5), True)
             else (w4, True))"
      unfolding BackgroundTaskWorkflow_def Let_def e prod.case body'_def [symmetric] p Some option.case
        w3_def [symmetric] w4_def [symmetric] w5_def [symmetric] ..
    show ?thesis
    proof (cases "po_gone out \<or> \<not> po_wake out")
      case True
      with post w4 show ?thesis unfolding run by auto
    next
      case False
      with post Some obtain t where t: "names_task taskID out t" "watch (insert t S) w2" by auto
      then have "t_participant t = ti_agent inp" using assms(3) by (auto simp: names_task_def watch_def stays_def named_def)
      note w5 = watch_wakeParticipant [OF assms(1) w4 [OF t(2)] t(1) this, folded w5_def]
      from t(1) have "t_id t = taskID" by (simp add: names_task_def)
      with watch_woken [OF watch_tick [OF assms(1)], of "insert t S" _ t] w5 settled_tick
      have "watch (insert t S) (db_write tk (\<lambda>db. SetTaskWoken db taskID n) (wtick E w5))" for tk n
        by auto
      from watch_insert [OF this] False show ?thesis unfolding run by simp
    qed
  qed
qed

subsection \<open>The actors on the tasks\<close>

datatype bg_actor =
    ASweep
  | AStop string string string string string
  | ATask task_input string

fun act :: "codec \<Rightarrow> bschedule \<Rightarrow> world \<Rightarrow> bg_actor \<Rightarrow> world" where
  "act C E w ASweep = SweepTasks E w"
| "act C E w (AStop sid creator i me name) = fst (StopTask E sid creator i me name w)"
| "act C E w (ATask inp i) = fst (BackgroundTaskWorkflow C E inp i w)"

text \<open>A task's workflow runs under the ID its launch made of its turn, so under its participant's name.\<close>

fun fair_actor :: "bg_actor \<Rightarrow> bool" where
  "fair_actor (ATask inp i) = (ParticipantOf i = Some (ti_agent inp))"
| "fair_actor _ = True"

interpretation wakes: guarded "act C E" woken_ok "\<lambda>a. fair E \<and> fair_actor a" for C E
proof unfold_locales
  fix w a assume w: "woken_ok w" and ok: "fair E \<and> fair_actor a"
  have "watch {} (act C E w a)"
    using w ok watch_SweepTasks [of E "{}" w] watch_StopTask [of E "{}" w] watch_Workflow [of E "{}" w]
    by (cases a) (simp_all add: watch_def)
  then show "woken_ok (act C E w a)" by (simp add: watch_def)
qed

subsection \<open>What a sweep tells\<close>

text \<open>The log of \<open>w'\<close> is that of \<open>w\<close> and events of \<open>P\<close>.\<close>

definition adds :: "(bevent \<Rightarrow> bool) \<Rightarrow> world \<Rightarrow> world \<Rightarrow> bool" where
  "adds P w w' \<longleftrightarrow> (\<exists>es. wd_log w' = wd_log w @ es \<and> list_all P es) \<and> wd_clock w \<le> wd_clock w'"

lemma adds_refl [simp]: "adds P w w" and adds_tick [simp]: "adds P w (wtick E w)"
  by (auto simp: adds_def wtick_def)

lemma adds_trans: "adds P w w1 \<Longrightarrow> adds P w1 w2 \<Longrightarrow> adds P w w2"
  by (fastforce simp: adds_def)

lemma adds_ticked: "adds P (wtick E w) w' \<Longrightarrow> adds P w w'"
  by (rule adds_trans [OF adds_tick])

lemma adds_write [simp]: "adds P w (db_write tk f w') = adds P w w'"
  by (simp add: adds_def db_write_def)

lemma adds_logged: "P e \<Longrightarrow> adds P w w' \<Longrightarrow> adds P w (logged e w')"
  by (auto simp: adds_def logged_def)

lemma adds_more: "adds P w w' \<Longrightarrow> adds P w (wtick E w')"
  by (rule adds_trans [OF _ adds_tick])

lemma adds_mono: "adds P w w' \<Longrightarrow> (\<And>e. P e \<Longrightarrow> Q e) \<Longrightarrow> adds Q w w'"
  by (auto simp: adds_def list_all_iff)

lemma adds_new: "adds P w w' \<Longrightarrow> e \<in> set (wd_log w') \<Longrightarrow> e \<notin> set (wd_log w) \<Longrightarrow> P e"
  by (auto simp: adds_def list_all_iff)

lemmas adds_intros = adds_logged adds_more

fun swept :: "bevent \<Rightarrow> bool" where
  "swept (SweptEnd _ _ _) = True"
| "swept _ = False"

lemma adds_wakeTask: "adds (\<lambda>e. \<not> swept e) w (wakeTask E t w)"
  by (auto simp: wakeTask_def Let_def intro!: adds_intros split: option.split)

lemma adds_endSwept: "adds (\<lambda>e. swept e \<longrightarrow> (\<exists>m. e = SweptEnd (t_session t) (t_id t) m)) w (endSwept E t w)" (is "adds ?P _ _")
proof -
  have wake: "adds ?P w (wakeTask E u w1)" if "adds ?P w w1" for u w1
    by (rule adds_trans [OF that adds_mono [OF adds_wakeTask]]) simp
  show ?thesis by (auto simp: endSwept_def Let_def intro!: wake adds_intros split: option.split prod.split)
qed

lemma adds_resendCancels: "adds (\<lambda>e. \<not> swept e) w (resendCancels E w)"
proof -
  have "adds (\<lambda>e. \<not> swept e) w (resend_each E ts w)" for ts w
  proof (induction ts arbitrary: w)
    case (Cons t ts)
    show ?case unfolding resend_each.simps Let_def
      by (rule adds_trans [OF _ Cons.IH]) (auto intro!: adds_intros split: temporal_answer.split)
  qed simp
  then show ?thesis by (auto simp: resendCancels_def Let_def intro: adds_ticked)
qed

text \<open>What the sweep knows of a task it ends: Temporal listed the running tasks without it, then said its workflow closed, or
  that it had none when its start was long past.\<close>

definition seen_closed :: "bschedule \<Rightarrow> nat \<Rightarrow> string list \<Rightarrow> bg_task \<Rightarrow> bool" where
  "seen_closed E k listed t \<longleftrightarrow> t_id t \<notin> set listed
     \<and> (\<exists>n \<ge> k. bt_describe (E n) = Described False
          \<or> bt_describe (E n) = DescribeNotFound \<and> taskStartGrace < bt_now (E n) - t_started t)"

lemma adds_end_closed_each:
  "k \<le> wd_clock w \<Longrightarrow>
   adds (\<lambda>e. swept e \<longrightarrow> (\<exists>t m. t \<in> set ts \<and> e = SweptEnd (t_session t) (t_id t) m \<and> seen_closed E k listed t)) w
     (end_closed_each E listed ts w)"
proof (induction ts arbitrary: w)
  case (Cons t ts)
  let ?P = "\<lambda>ts e. swept e \<longrightarrow> (\<exists>t m. t \<in> set ts \<and> e = SweptEnd (t_session t) (t_id t) m \<and> seen_closed E k listed t)"
  have IH: "adds (?P (t # ts)) x (end_closed_each E listed ts x)" if "k \<le> wd_clock x" for x
    by (rule adds_mono [OF Cons.IH [OF that]]) auto
  show ?case
  proof (cases "t_id t \<in> set listed")
    case False
    let ?w1 = "wtick E w" and ?c = "snd (taskClosed E t w)"
    have "seen_closed E k listed t" if ?c
      using that False Cons.prems by (auto simp: taskClosed_def Let_def seen_closed_def split: description_answer.splits)
    then have "adds (?P (t # ts)) w (if ?c then endSwept E t ?w1 else ?w1)"
      using adds_ticked [OF adds_mono [OF adds_endSwept [of t ?w1 E]], of "?P (t # ts)"] by auto
    moreover from this Cons.prems have "k \<le> wd_clock (if ?c then endSwept E t ?w1 else ?w1)" by (simp only: adds_def) linarith
    ultimately have "adds (?P (t # ts)) w (end_closed_each E listed ts (if ?c then endSwept E t ?w1 else ?w1))"
      using adds_trans IH by blast
    with False show ?thesis by (simp add: taskClosed_def Let_def)
  qed (use IH [OF Cons.prems] in simp)
qed simp

subsection \<open>A sweep over a session with one task\<close>

text \<open>Ten hours past its start, the workflow of the task \<open>ex_task\<close> is closed and its end was never written.\<close>

definition ex_btick :: btick where
  "ex_btick = \<lparr>bt_ops = [], bt_now = 600 * minute, bt_db = DbAnswered, bt_reason = [], bt_cancel = TemporalOk,
     bt_running = Some [], bt_describe = Described False, bt_signal = None, bt_stopped = False, bt_child = Inr [],
     bt_agent = Inl (OtherError []), bt_publish = (\<lambda>_ _ _. Inl [])\<rparr>"

definition ex_world :: world where
  "ex_world = \<lparr>wd_db = ex_tdb, wd_clock = 0, wd_log = []\<rparr>"

lemma ex_tick: "wtick (\<lambda>_. ex_btick) w = w\<lparr>wd_clock := Suc (wd_clock w)\<rparr>" "db_write ex_btick f w = w\<lparr>wd_db := f (wd_db w)\<rparr>"
  "bt_db ex_btick = DbAnswered" "bt_running ex_btick = Some []" "bt_describe ex_btick = Described False" "bt_signal ex_btick = None"
  by (simp_all add: wtick_def db_write_def ex_btick_def)

lemma ex_rows: "ListTasksRunningSince ex_tdb (bt_now ex_btick - taskSweepAge) = [ex_task]" "ListTasksToCancel ex_tdb = []" by code_simp+

definition ex_ended :: bg_task where
  "ex_ended = (ended_task ex_task BackgroundFailed TaskEndedBySweep (bt_now ex_btick))\<lparr>t_result := 1\<rparr>"

definition ex_swept_db :: tdb where
  "ex_swept_db = ex_tdb\<lparr>tasks := [ex_ended], t_msgs := insert_row empty_table ''s'' (TaskResultKey ''s:p:a:m1:bg:c'')
     (TaskResultMessage (ended_task ex_task BackgroundFailed TaskEndedBySweep (bt_now ex_btick)) sweptReason None)\<rparr>"

lemma ex_EndTask: "EndTask ex_tdb ''s:p:a:m1:bg:c'' TaskEndedBySweep BackgroundFailed (\<lambda>t. TaskResultMessage t sweptReason None) (bt_now ex_btick) =
  (ex_swept_db, \<lparr>e_task = Some ex_ended, e_message = 1, e_mine = True, e_gone = False\<rparr>)"
  by (simp add: EndTask_running [OF ex_tdb_ok(4,5)] ex_ended_def ex_swept_db_def)
    (simp add: update_task_def ex_simps end_row_def ended_task_def end_message_id_def empty_table_def insert_row_def find_row_def)

lemma ex_fields: "t_id ex_task = ''s:p:a:m1:bg:c''" "t_session ex_task = ''s''" "t_cancelled_by ex_task = []"
  "t_id ex_ended = ''s:p:a:m1:bg:c''" "t_session ex_ended = ''s''" "t_participant ex_ended = ''a''" "t_result ex_ended = 1"
  "GetSession ex_swept_db ''s'' = Some \<lparr>s_id = ''s'', s_agent = ''a'', s_channel = [], s_channel_id = []\<rparr>" "ListTasksToWake (SetTaskWoken ex_swept_db ''s:p:a:m1:bg:c'' now) before = []"
  "map t_woken (tasks (SetTaskWoken ex_swept_db ''s:p:a:m1:bg:c'' now)) = [Some now]"
  by (simp_all add: ex_swept_db_def ex_ended_def ex_simps ended_task_def GetSession_def SetTaskWoken_def update_task_def ListTasksToWake_def)

lemma ex_endSwept: "endSwept (\<lambda>_. ex_btick) ex_task \<lparr>wd_db = ex_tdb, wd_clock = n, wd_log = []\<rparr> =
   \<lparr>wd_db = SetTaskWoken ex_swept_db ''s:p:a:m1:bg:c'' (bt_now ex_btick), wd_clock = n + 4, wd_log = [SweptEnd ''s'' ''s:p:a:m1:bg:c'' 1, Signalled ''s'' ''a'' 1]\<rparr>"
  by (simp add: endSwept_def wakeTask_def Let_def ex_fields ex_EndTask ex_tick logged_def)

lemma ex_swept: "SweepTasks (\<lambda>_. ex_btick) ex_world = 
   \<lparr>wd_db = SetTaskWoken ex_swept_db ''s:p:a:m1:bg:c'' (bt_now ex_btick), wd_clock = 9, wd_log = [SweptEnd ''s'' ''s:p:a:m1:bg:c'' 1, Signalled ''s'' ''a'' 1]\<rparr>"
  by (simp add: SweepTasks_def resendCancels_def endClosedTasks_def ex_tick Let_def ex_world_def ex_rows taskClosed_def ex_endSwept ex_fields)

section \<open>Properties\<close>



text \<open>A sweep ends only tasks old enough whose workflow is over: Temporal's list of running tasks, read after the rows,
  did not have it, and a later question about it answered that it closed, or that it is unknown past the start's grace. An
  answer that failed, or that says nothing of the workflow, ends no task.\<close>

theorem sweep_ends_only_closed:
  assumes "SweptEnd sid i m \<in> set (wd_log (SweepTasks E w))" and "SweptEnd sid i m \<notin> set (wd_log w)"
  shows "\<exists>t k listed. t_id t = i \<and> t_session t = sid \<and> running t \<and> t_started t < bt_now (E k) - taskSweepAge
    \<and> bt_running (E (Suc k)) = Some listed \<and> i \<notin> set listed
    \<and> (\<exists>n > Suc k. bt_describe (E n) = Described False
         \<or> bt_describe (E n) = DescribeNotFound \<and> taskStartGrace < bt_now (E n) - t_started t)"
proof -
  define w1 where "w1 = resendCancels E w"
  define w2 where "w2 = endClosedTasks E w1"
  let ?n = "\<lambda>e. \<not> swept e"
  let ?ts = "ListTasksRunningSince (wd_db (wtick E w1)) (bt_now (E (wd_clock w1)) - taskSweepAge)"
  have "adds ?n x (wake_each E ts x)" for ts x
    by (induction ts arbitrary: x) (auto intro: adds_trans [OF adds_wakeTask])
  then have "adds ?n w2 (SweepTasks E w)"
    by (auto simp: SweepTasks_def Let_def w1_def w2_def intro: adds_ticked)
  from adds_new [OF this assms(1)] have "SweptEnd sid i m \<in> set (wd_log w2)" by fastforce
  moreover have old: "SweptEnd sid i m \<notin> set (wd_log w1)"
    using adds_new [OF adds_resendCancels [of w E] _ assms(2)] by (fastforce simp: w1_def)
  ultimately obtain listed where l: "bt_running (E (Suc (wd_clock w1))) = Some listed"
      and "SweptEnd sid i m \<in> set (wd_log (end_closed_each E listed ?ts (wtick E (wtick E w1))))"
    by (auto simp: w2_def endClosedTasks_def Let_def wtick_def split: if_splits option.splits)
  moreover have "SweptEnd sid i m \<notin> set (wd_log (wtick E (wtick E w1)))" using old by (simp add: wtick_def)
  moreover note adds_new [OF adds_end_closed_each [of "wd_clock (wtick E (wtick E w1))" "wtick E (wtick E w1)" ?ts E listed]]
  ultimately
  obtain t where t: "t \<in> set ?ts" "sid = t_session t" "i = t_id t" "seen_closed E (wd_clock (wtick E (wtick E w1))) listed t"
    by fastforce
  then have "running t" "t_started t < bt_now (E (wd_clock w1)) - taskSweepAge" by (auto simp: ListTasksRunningSince_def)
  with t l show ?thesis
    by (intro exI [of _ t] exI [of _ "wd_clock w1"] exI [of _ listed]) (auto simp: seen_closed_def wtick_def Suc_le_eq)
qed

theorem sweep_ends_only_closed_witness:
  "\<exists>t k. t_id t = ''s:p:a:m1:bg:c'' \<and> t_session t = ''s'' \<and> running t \<and> t_started t < bt_now ex_btick - taskSweepAge
    \<and> (\<exists>n > Suc k. bt_describe ex_btick = Described False
         \<or> bt_describe ex_btick = DescribeNotFound \<and> taskStartGrace < bt_now ex_btick - t_started t)"
  using sweep_ends_only_closed [of "''s''" "''s:p:a:m1:bg:c''" 1 "\<lambda>_. ex_btick" ex_world] ex_swept by (auto simp: ex_world_def)

end
