(* ===== verification/Hub.thy ===== *)
theory Hub
  imports Keys "HOL-Library.AList" "HOL-Library.Multiset" "HOL-Library.Sublist"
begin

section \<open>Live events\<close>

text \<open>
  \<open>sse/hub.go\<close>: the events the pages listen to, by topic. Each event has an ID, each topic keeps its latest, and a client
  that comes back with the ID of the last event it got is sent the ones it missed, or told to reload. An operation holds the
  lock, at one instant \<open>now\<close>. Subscribers are addresses of \<open>h_subs\<close>: one is in the lists of several topics. The map of the
  topics is an association list, whose order nothing reads. Event numbers are natural numbers: the 64 bits of the code's do
  not run out. The observers run before an event is published: what they publish comes before it.
\<close>

record event =
  ev_id :: string
  ev_type :: string
  ev_data :: string

record topic =
  tp_subs :: "nat list"
  tp_recent :: "event list"
  tp_seqs :: "nat list"
  tp_floor :: nat
  tp_used :: time

record subscriber =
  sb_ch :: "event list"
  sb_closed :: bool
  sb_topics :: "string list"

text \<open>\<open>h_swept\<close>: \<open>None\<close> is the zero time, ages ago.\<close>

record hub =
  h_epoch :: string
  h_keep :: nat
  h_idle :: duration
  h_seq :: nat
  h_topics :: "(string \<times> topic) list"
  h_swept :: "time option"
  h_dropped :: nat
  h_subs :: "subscriber list"

definition DefaultKeep :: nat where "DefaultKeep = 100"
definition DefaultIdle :: duration where "DefaultIdle = 10 * 60 * 1000000000"
definition subscriberBuffer :: nat where "subscriberBuffer = 64"

definition NewHub :: "string \<Rightarrow> hub" where
  "NewHub epoch = \<lparr>h_epoch = epoch, h_keep = DefaultKeep, h_idle = DefaultIdle, h_seq = 0, h_topics = [], h_swept = None,
     h_dropped = 0, h_subs = []\<rparr>"

text \<open>\<open>end\<close> of a subscriber: closing its channel twice does nothing.\<close>

definition end_sub :: "nat \<Rightarrow> hub \<Rightarrow> hub" where
  "end_sub i h = h\<lparr>h_subs := (h_subs h)[i := (h_subs h ! i)\<lparr>sb_closed := True\<rparr>]\<rparr>"

definition hub_id :: "hub \<Rightarrow> nat \<Rightarrow> string" where
  "hub_id h q = h_epoch h @ CHR ''-'' # dec_nat q"

text \<open>\<open>parse\<close>: a number past the events of the hub, one of more than 64 bits included, was never given.\<close>

definition parse_id :: "hub \<Rightarrow> string \<Rightarrow> nat option" where
  "parse_id h i =
     (case cut_byte (CHR ''-'') i of (epoch, q, ok) \<Rightarrow>
        if \<not> ok \<or> epoch \<noteq> h_epoch h \<or> \<not> digits q then None
        else if digits_value q \<le> h_seq h then Some (digits_value q) else None)"

definition put_topic :: "string \<Rightarrow> topic \<Rightarrow> hub \<Rightarrow> hub" where
  "put_topic name t h = h\<lparr>h_topics := AList.update name t (h_topics h)\<rparr>"

definition get_topic :: "hub \<Rightarrow> time \<Rightarrow> string \<Rightarrow> topic" where
  "get_topic h now name =
     (case map_of (h_topics h) name of
        Some t \<Rightarrow> t
      | None \<Rightarrow> \<lparr>tp_subs = [], tp_recent = [], tp_seqs = [], tp_floor = h_dropped h, tp_used = now\<rparr>)"

definition idle_topic :: "hub \<Rightarrow> time \<Rightarrow> topic \<Rightarrow> bool" where
  "idle_topic h now t \<longleftrightarrow> tp_subs t = [] \<and> h_idle h \<le> now - tp_used t"

definition dropped_with :: "nat \<Rightarrow> topic \<Rightarrow> nat" where
  "dropped_with d t = (let d1 = max d (tp_floor t) in if tp_seqs t = [] then d1 else max d1 (last (tp_seqs t)))"

definition hub_sweep :: "time \<Rightarrow> hub \<Rightarrow> hub" where
  "hub_sweep now h =
     (if (case h_swept h of None \<Rightarrow> False | Some s \<Rightarrow> now - s < 60 * 1000000000) then h
      else h\<lparr>h_swept := Some now,
             h_dropped := foldl dropped_with (h_dropped h) (map snd (filter (\<lambda>(_, t). idle_topic h now t) (h_topics h))),
             h_topics := filter (\<lambda>(_, t). \<not> idle_topic h now t) (h_topics h)\<rparr>)"

text \<open>The loop of \<open>Publish\<close> that makes room for one more event.\<close>

fun trim :: "nat \<Rightarrow> nat \<Rightarrow> event list \<Rightarrow> nat list \<Rightarrow> nat \<times> event list \<times> nat list" where
  "trim keep fl (e # es) (q # qs) = (if keep \<le> Suc (length es) then trim keep q es qs else (fl, e # es, q # qs))"
| "trim keep fl es qs = (fl, es, qs)"

text \<open>The loop that sends the event: the subscribers kept, and all of them.\<close>

fun offer :: "event \<Rightarrow> nat list \<Rightarrow> subscriber list \<Rightarrow> nat list \<times> subscriber list" where
  "offer e [] subs = ([], subs)"
| "offer e (i # js) subs =
     (let s = subs ! i in
      if sb_closed s then offer e js subs
      else if length (sb_ch s) < subscriberBuffer
      then (case offer e js (subs[i := s\<lparr>sb_ch := sb_ch s @ [e]\<rparr>]) of (kept, subs') \<Rightarrow> (i # kept, subs'))
      else offer e js (subs[i := s\<lparr>sb_closed := True\<rparr>]))"

definition Publish :: "time \<Rightarrow> string \<Rightarrow> string \<Rightarrow> string \<Rightarrow> hub \<Rightarrow> hub" where
  "Publish now name ty data h =
     (let h1 = hub_sweep now h;
          t = get_topic h1 now name;
          q = Suc (h_seq h1);
          ev = \<lparr>ev_id = hub_id h1 q, ev_type = ty, ev_data = data\<rparr>;
          (fl, recent, seqs) = trim (h_keep h1) (tp_floor t) (tp_recent t) (tp_seqs t);
          (kept, subs) = offer ev (tp_subs t) (h_subs h1)
      in put_topic name \<lparr>tp_subs = kept, tp_recent = recent @ [ev], tp_seqs = seqs @ [q], tp_floor = fl, tp_used = now\<rparr>
           (h1\<lparr>h_seq := q, h_subs := subs\<rparr>))"

record subscription =
  su_sub :: nat
  su_missed :: "event list"
  su_stale :: bool
  su_at :: string

text \<open>The loop of \<open>Subscribe\<close> over its topics, with what was missed so far and whether some was lost.\<close>

fun join_topics :: "time \<Rightarrow> nat \<Rightarrow> string \<Rightarrow> nat option \<Rightarrow> string list \<Rightarrow> hub \<Rightarrow> (nat \<times> event) list \<Rightarrow> bool
    \<Rightarrow> hub \<times> (nat \<times> event) list \<times> bool" where
  "join_topics now i lastID known [] h missed stale = (h, missed, stale)"
| "join_topics now i lastID known (name # names) h missed stale =
     (let t = get_topic h now name;
          h1 = put_topic name (t\<lparr>tp_subs := tp_subs t @ [i]\<rparr>) h
      in if lastID = [] then join_topics now i lastID known names h1 missed stale
         else case known of
                None \<Rightarrow> join_topics now i lastID known names h1 missed True
              | Some n \<Rightarrow>
                  if n < tp_floor t then join_topics now i lastID known names h1 missed True
                  else join_topics now i lastID known names h1
                         (missed @ filter (\<lambda>(q, _). n < q) (zip (tp_seqs t) (tp_recent t))) stale)"

definition Subscribe :: "time \<Rightarrow> string \<Rightarrow> string list \<Rightarrow> hub \<Rightarrow> hub \<times> subscription" where
  "Subscribe now lastID names h =
     (let h1 = hub_sweep now h;
          i = length (h_subs h1);
          h2 = h1\<lparr>h_subs := h_subs h1 @ [\<lparr>sb_ch = [], sb_closed = False, sb_topics = names\<rparr>]\<rparr>;
          (h3, missed, stale) = join_topics now i lastID (parse_id h1 lastID) names h2 [] False
      in (h3, \<lparr>su_sub = i, su_missed = (if stale then [] else map snd (sort_key fst missed)), su_stale = stale,
               su_at = hub_id h3 (h_seq h3)\<rparr>))"

fun leave_topics :: "time \<Rightarrow> nat \<Rightarrow> string list \<Rightarrow> hub \<Rightarrow> hub" where
  "leave_topics now i [] h = h"
| "leave_topics now i (name # names) h =
     leave_topics now i names
       (case map_of (h_topics h) name of
          None \<Rightarrow> h
        | Some t \<Rightarrow> put_topic name (t\<lparr>tp_subs := filter (\<lambda>j. j \<noteq> i) (tp_subs t), tp_used := now\<rparr>) h)"

definition Unsubscribe :: "time \<Rightarrow> nat \<Rightarrow> hub \<Rightarrow> hub" where
  "Unsubscribe now i h = end_sub i (leave_topics now i (sb_topics (h_subs h ! i)) h)"

fun touch_topics :: "time \<Rightarrow> string list \<Rightarrow> hub \<Rightarrow> hub" where
  "touch_topics now [] h = h"
| "touch_topics now (name # names) h =
     touch_topics now names (put_topic name ((get_topic h now name)\<lparr>tp_used := now\<rparr>) h)"

definition Position :: "time \<Rightarrow> string list \<Rightarrow> hub \<Rightarrow> hub \<times> string" where
  "Position now names h = (let h1 = touch_topics now names (hub_sweep now h) in (h1, hub_id h1 (h_seq h1)))"

subsection \<open>The journal\<close>

text \<open>What the hub stands for: all the events published, each with its number and its topic. A client that has seen its
  topics up to \<open>n\<close> is to get those of \<open>since\<close>.\<close>

type_synonym journal = "(nat \<times> string \<times> event) list"

definition of_topic :: "journal \<Rightarrow> string \<Rightarrow> nat \<Rightarrow> (nat \<times> event) list" where
  "of_topic J name n = map (\<lambda>(q, _, e). (q, e)) (filter (\<lambda>(q, m, _). m = name \<and> n < q) J)"

definition since :: "journal \<Rightarrow> string list \<Rightarrow> nat \<Rightarrow> event list" where
  "since J names n = map (\<lambda>(_, _, e). e) (filter (\<lambda>(q, m, _). m \<in> set names \<and> n < q) J)"

definition journal_ok :: "hub \<Rightarrow> journal \<Rightarrow> bool" where
  "journal_ok h J \<longleftrightarrow> map fst J = [1..<Suc (h_seq h)] \<and> (\<forall>(q, _, e) \<in> set J. ev_id e = hub_id h q)"

text \<open>A topic keeps every event of its own after its floor; one gone had none after \<open>h_dropped\<close>.\<close>

definition topic_ok :: "journal \<Rightarrow> string \<Rightarrow> topic \<Rightarrow> bool" where
  "topic_ok J name t \<longleftrightarrow> length (tp_seqs t) = length (tp_recent t) \<and> zip (tp_seqs t) (tp_recent t) = of_topic J name (tp_floor t)"

definition topics_ok :: "journal \<Rightarrow> hub \<Rightarrow> bool" where
  "topics_ok J h \<longleftrightarrow> distinct (map fst (h_topics h)) \<and> 0 < h_keep h \<and> h_dropped h \<le> h_seq h
     \<and> (\<forall>name t. map_of (h_topics h) name = Some t \<longrightarrow> topic_ok J name t \<and> tp_floor t \<le> h_seq h \<and> length (tp_recent t) \<le> h_keep h)
     \<and> (\<forall>name. map_of (h_topics h) name = None \<longrightarrow> of_topic J name (h_dropped h) = [])"

lemma of_topic_mono: "of_topic J name n = [] \<Longrightarrow> n \<le> m \<Longrightarrow> of_topic J name m = []"
  by (auto simp: of_topic_def filter_empty_conv)

lemma of_topic_snoc: "of_topic (J @ [(q, name, e)]) m n = of_topic J m n @ (if m = name \<and> n < q then [(q, e)] else [])"
  by (auto simp: of_topic_def)

lemma of_topic_later: "f \<le> n \<Longrightarrow> filter (\<lambda>(q, _). n < q) (of_topic J name f) = of_topic J name n"
  unfolding of_topic_def by (induction J) auto

lemma journal_sorted: "journal_ok h J \<Longrightarrow> sorted_wrt (<) (map fst J)"
  by (simp add: journal_ok_def del: upt_Suc)

lemma of_topic_sorted:
  assumes "sorted_wrt (<) (map fst J)"
  shows "sorted_wrt (<) (map fst (of_topic J name n))"
proof -
  have "map fst (of_topic J name n) = map fst (filter (\<lambda>(q, m, _). m = name \<and> n < q) J)"
    by (auto simp: of_topic_def)
  moreover have "sorted_wrt (<) (map fst (filter P J))" for P using assms by (simp add: sorted_wrt_map sorted_wrt_filter)
  ultimately show ?thesis by simp
qed

lemma get_topic_ok:
  assumes "topics_ok J h"
  shows "topic_ok J name (get_topic h now name)" "tp_floor (get_topic h now name) \<le> h_seq h"
    "length (tp_recent (get_topic h now name)) \<le> h_keep h"
  using assms by (auto simp: get_topic_def topics_ok_def topic_ok_def split: option.split)

lemma get_topic_Some: "map_of (h_topics h) name = Some t \<Longrightarrow> get_topic h now name = t"
  by (simp add: get_topic_def)

lemma map_of_put [simp]: "map_of (h_topics (put_topic name t h)) = (map_of (h_topics h))(name \<mapsto> t)"
  by (simp add: put_topic_def update_conv')

lemma put_topic_simps [simp]:
  "h_seq (put_topic name t h) = h_seq h" "h_keep (put_topic name t h) = h_keep h" "h_dropped (put_topic name t h) = h_dropped h"
  "h_subs (put_topic name t h) = h_subs h" "h_epoch (put_topic name t h) = h_epoch h" "h_swept (put_topic name t h) = h_swept h"
  "hub_id (put_topic name t h) = hub_id h"
  by (simp_all add: put_topic_def hub_id_def fun_eq_iff)

lemma topics_ok_put:
  assumes "topics_ok J h" and "topic_ok J name t" and "tp_floor t \<le> h_seq h" and "length (tp_recent t) \<le> h_keep h"
  shows "topics_ok J (put_topic name t h)"
  using assms by (auto simp: topics_ok_def distinct_update put_topic_def [of name t h] update_conv')

lemma of_topic_bound: "journal_ok h J \<Longrightarrow> (q, e) \<in> set (of_topic J name n) \<Longrightarrow> q \<le> h_seq h"
proof -
  assume J: "journal_ok h J" and q: "(q, e) \<in> set (of_topic J name n)"
  then have "q \<in> fst ` set J" by (force simp: of_topic_def)
  also have "fst ` set J = set [1..<Suc (h_seq h)]" using J unfolding journal_ok_def by (metis list.set_map)
  finally show ?thesis by (auto simp del: upt_Suc)
qed

text \<open>Dropping the oldest event raises the floor to it.\<close>

lemma of_topic_tl:
  assumes "sorted_wrt (<) (map fst J)" and "of_topic J name fl = (q, e) # xs"
  shows "of_topic J name q = xs" "fl < q"
proof -
  have "(q, e) \<in> set (of_topic J name fl)" using assms(2) by simp
  then show fl: "fl < q" by (auto simp: of_topic_def)
  have "\<forall>(p, _) \<in> set xs. q < p" using of_topic_sorted [OF assms(1), of name fl] assms(2) by auto
  moreover have "of_topic J name q = filter (\<lambda>(p, _). q < p) ((q, e) # xs)" using of_topic_later [of fl q J name] fl assms(2) by simp
  ultimately show "of_topic J name q = xs" by (auto simp: filter_id_conv)
qed

lemma trim_ok:
  "trim keep fl es qs = (fl', es', qs') \<Longrightarrow> sorted_wrt (<) (map fst J) \<Longrightarrow> length qs = length es \<Longrightarrow> zip qs es = of_topic J name fl \<Longrightarrow>
   0 < keep \<Longrightarrow> length qs' = length es' \<and> zip qs' es' = of_topic J name fl' \<and> length es' < keep \<and> (fl' = fl \<or> fl' \<in> set qs)"
proof (induction keep fl es qs rule: trim.induct)
  case (1 keep fl e es q qs)
  have "of_topic J name q = zip qs es" using of_topic_tl(1) [OF 1(3), of name fl q e "zip qs es"] 1(5) by simp
  with 1 show ?case by (cases "keep \<le> Suc (length es)") auto
qed auto

text \<open>What a sweep drops.\<close>

lemma dropped_with_max: "dropped_with d t = max d (dropped_with 0 t)"
  by (auto simp: dropped_with_def Let_def)

lemma dropped_all_le: "d \<le> foldl dropped_with d ts \<and> (\<forall>t \<in> set ts. dropped_with 0 t \<le> foldl dropped_with d ts)"
proof (induction ts arbitrary: d)
  case (Cons t ts)
  from Cons.IH [of "dropped_with d t"] have "dropped_with d t \<le> foldl dropped_with (dropped_with d t) ts" by simp
  then have "d \<le> foldl dropped_with (dropped_with d t) ts \<and> dropped_with 0 t \<le> foldl dropped_with (dropped_with d t) ts"
    by (simp add: dropped_with_max [of d t])
  with Cons.IH [of "dropped_with d t"] show ?case by simp
qed simp

lemma dropped_bound: "d \<le> b \<Longrightarrow> (\<And>t. t \<in> set ts \<Longrightarrow> dropped_with 0 t \<le> b) \<Longrightarrow> foldl dropped_with d ts \<le> b"
proof (induction ts arbitrary: d)
  case (Cons t ts)
  have "dropped_with d t \<le> b" using Cons.prems by (subst dropped_with_max) simp
  from Cons.IH [OF this] Cons.prems(2) show ?case by simp
qed simp

lemma seqs_of: "topic_ok J name t \<Longrightarrow> tp_seqs t = map fst (of_topic J name (tp_floor t))"
  by (metis topic_ok_def map_fst_zip)

lemma topic_dropped:
  assumes "topic_ok J name t" and "sorted_wrt (<) (map fst J)" and "dropped_with 0 t \<le> m"
  shows "of_topic J name m = []"
proof -
  have fl: "tp_floor t \<le> m" using assms(3) by (auto simp: dropped_with_def Let_def split: if_splits)
  have "q \<le> m" if "q \<in> set (tp_seqs t)" for q
  proof -
    have "sorted (tp_seqs t)" using of_topic_sorted [OF assms(2), of name "tp_floor t"] seqs_of [OF assms(1)] by (simp add: strict_sorted_iff)
    then have "q \<le> last (tp_seqs t)" using that by (metis in_set_conv_decomp last_appendR last_in_set list.discI sorted_append set_ConsD last_ConsL last_ConsR order_refl list.set_intros(1) sorted_simps(2))
    then show ?thesis using assms(3) that by (auto simp: dropped_with_def Let_def split: if_splits)
  qed
  then have "\<forall>(q, _) \<in> set (of_topic J name (tp_floor t)). q \<le> m" using seqs_of [OF assms(1)] by force
  then show ?thesis unfolding of_topic_later [OF fl, of J name, symmetric] by (auto simp: filter_empty_conv)
qed

lemma map_of_filter_val:
  "distinct (map fst xs) \<Longrightarrow> map_of (filter (\<lambda>(_, t). P t) xs) k = (case map_of xs k of None \<Rightarrow> None | Some t \<Rightarrow> if P t then Some t else None)"
  by (induction xs) (auto simp: map_of_eq_None_iff rev_image_eqI split: option.split)

lemma topics_ok_sweep:
  assumes "topics_ok J h" and "journal_ok h J"
  shows "topics_ok J (hub_sweep now h)"
proof (cases "case h_swept h of None \<Rightarrow> False | Some s \<Rightarrow> now - s < 60 * 1000000000")
  case False
  define gone where "gone = map snd (filter (\<lambda>(_, t). idle_topic h now t) (h_topics h))"
  define d where "d = foldl dropped_with (h_dropped h) gone"
  define h' where "h' = hub_sweep now h"
  have h': "h' = h\<lparr>h_swept := Some now, h_dropped := d, h_topics := filter (\<lambda>(_, t). \<not> idle_topic h now t) (h_topics h)\<rparr>"
    using False by (simp add: h'_def hub_sweep_def d_def gone_def)
  have ok: "topic_ok J name t \<and> tp_floor t \<le> h_seq h \<and> length (tp_recent t) \<le> h_keep h" if "map_of (h_topics h) name = Some t" for name t
    using assms(1) that by (simp add: topics_ok_def)
  have dist: "distinct (map fst (h_topics h))" using assms(1) by (simp add: topics_ok_def)
  have filt: "map_of (h_topics h') name = (case map_of (h_topics h) name of None \<Rightarrow> None | Some t \<Rightarrow> if idle_topic h now t then None else Some t)" for name
    using map_of_filter_val [OF dist, of "\<lambda>t. \<not> idle_topic h now t" name] by (auto simp: h' split: option.split)
  have "d \<le> h_seq h" unfolding d_def
  proof (rule dropped_bound)
    show "h_dropped h \<le> h_seq h" using assms(1) by (simp add: topics_ok_def)
    fix t assume "t \<in> set gone"
    then obtain name where "(name, t) \<in> set (h_topics h)" by (auto simp: gone_def)
    then have t: "map_of (h_topics h) name = Some t" using dist by simp
    have "last (tp_seqs t) \<le> h_seq h" if "tp_seqs t \<noteq> []"
      using of_topic_bound [OF assms(2)] seqs_of [of J name t] ok [OF t] last_in_set [OF that] by force
    with ok [OF t] show "dropped_with 0 t \<le> h_seq h" by (auto simp: dropped_with_def Let_def)
  qed
  moreover have "of_topic J name d = []" if "map_of (h_topics h') name = None" for name
  proof (cases "map_of (h_topics h) name")
    case None
    then have "of_topic J name (h_dropped h) = []" using assms(1) by (simp add: topics_ok_def)
    then show ?thesis by (rule of_topic_mono) (simp add: d_def dropped_all_le)
  next
    case (Some t)
    with that filt have "idle_topic h now t" by (auto split: if_splits)
    with map_of_SomeD [OF Some] have "t \<in> set gone" by (force simp: gone_def)
    then have "dropped_with 0 t \<le> d" using dropped_all_le by (auto simp: d_def)
    with ok [OF Some] show ?thesis using topic_dropped journal_sorted [OF assms(2)] by blast
  qed
  moreover have "distinct (map fst (h_topics h'))" using dist by (simp add: h' distinct_map_filter)
  ultimately show ?thesis using assms(1) ok filt unfolding h'_def [symmetric] topics_ok_def by (auto simp: h' split: option.splits if_splits)
qed (use assms in \<open>simp add: hub_sweep_def\<close>)

lemma sweep_simps [simp]:
  "h_seq (hub_sweep now h) = h_seq h" "h_keep (hub_sweep now h) = h_keep h" "h_subs (hub_sweep now h) = h_subs h"
  "h_epoch (hub_sweep now h) = h_epoch h"
  by (simp_all add: hub_sweep_def)

lemma sweep_reads [simp]:
  "hub_id (hub_sweep now h) = hub_id h" "parse_id (hub_sweep now h) = parse_id h"
  by (simp_all add: hub_id_def parse_id_def fun_eq_iff split: prod.split)

lemma journal_ok_cong: "h_seq h' = h_seq h \<Longrightarrow> h_epoch h' = h_epoch h \<Longrightarrow> journal_ok h' J = journal_ok h J"
  by (simp add: journal_ok_def hub_id_def)

lemma journal_ok_sweep [simp]: "journal_ok (hub_sweep now h) J = journal_ok h J"
  by (rule journal_ok_cong) simp_all

subsection \<open>Subscribers and their topics\<close>

definition linked :: "hub \<Rightarrow> nat \<Rightarrow> string \<Rightarrow> bool" where
  "linked h i name \<longleftrightarrow> (\<exists>t. map_of (h_topics h) name = Some t \<and> i \<in> set (tp_subs t))"

abbreviation open_sub :: "hub \<Rightarrow> nat \<Rightarrow> bool" where
  "open_sub h i \<equiv> i < length (h_subs h) \<and> \<not> sb_closed (h_subs h ! i)"

text \<open>A subscriber whose channel is open is listed once in each of its topics, and in no other.\<close>

definition links_ok :: "hub \<Rightarrow> bool" where
  "links_ok h \<longleftrightarrow> (\<forall>name t. map_of (h_topics h) name = Some t \<longrightarrow> distinct (tp_subs t) \<and> set (tp_subs t) \<subseteq> {..<length (h_subs h)})
     \<and> (\<forall>i name. open_sub h i \<longrightarrow> linked h i name \<longleftrightarrow> name \<in> set (sb_topics (h_subs h ! i)))"

lemma links_topic:
  assumes "links_ok h"
  shows "distinct (tp_subs (get_topic h now name))" "set (tp_subs (get_topic h now name)) \<subseteq> {..<length (h_subs h)}"
  using assms by (auto simp: links_ok_def get_topic_def split: option.split)

lemma linked_get: "linked h i name \<longleftrightarrow> i \<in> set (tp_subs (get_topic h now name))"
  by (auto simp: linked_def get_topic_def split: option.split)

lemma linked_put: "linked (put_topic name t h) i m = (if m = name then i \<in> set (tp_subs t) else linked h i m)"
  by (simp add: linked_def)

lemma sweep_topics:
  assumes "distinct (map fst (h_topics h))"
  obtains "map_of (h_topics (hub_sweep now h)) name = map_of (h_topics h) name"
  | t where "map_of (h_topics h) name = Some t" "tp_subs t = []" "map_of (h_topics (hub_sweep now h)) name = None"
proof (cases "map_of (h_topics h) name")
  case None
  then show thesis using that(1) map_of_filter_val [OF assms, of "\<lambda>t. \<not> idle_topic h now t" name] by (simp add: hub_sweep_def)
next
  case (Some t)
  show thesis
  proof (cases "map_of (h_topics (hub_sweep now h)) name = Some t")
    case False
    with Some that(2) map_of_filter_val [OF assms, of "\<lambda>t. \<not> idle_topic h now t" name] show thesis
      by (auto simp: hub_sweep_def idle_topic_def split: if_splits)
  qed (use Some that(1) in simp)
qed

lemma linked_sweep: "distinct (map fst (h_topics h)) \<Longrightarrow> linked (hub_sweep now h) i name = linked h i name"
  by (rule sweep_topics [of h now name]) (auto simp: linked_def)

lemma sweep_topic:
  "distinct (map fst (h_topics h)) \<Longrightarrow> map_of (h_topics (hub_sweep now h)) name = Some t \<Longrightarrow> map_of (h_topics h) name = Some t"
  by (rule sweep_topics [of h now name]) auto

lemma links_sweep: "topics_ok J h \<Longrightarrow> links_ok h \<Longrightarrow> links_ok (hub_sweep now h)"
proof -
  assume "topics_ok J h" and l: "links_ok h"
  then have d: "distinct (map fst (h_topics h))" by (simp add: topics_ok_def)
  show ?thesis using l unfolding links_ok_def linked_sweep [OF d] sweep_simps by (blast dest: sweep_topic [OF d])
qed

lemma offer_spec:
  "offer e js subs = (kept, subs') \<Longrightarrow> distinct js \<Longrightarrow> set js \<subseteq> {..<length subs} \<Longrightarrow>
   length subs' = length subs
   \<and> (\<forall>j. j \<notin> set js \<longrightarrow> subs' ! j = subs ! j)
   \<and> (\<forall>j \<in> set js. subs' ! j = (if sb_closed (subs ! j) then subs ! j
        else if length (sb_ch (subs ! j)) < subscriberBuffer then (subs ! j)\<lparr>sb_ch := sb_ch (subs ! j) @ [e]\<rparr>
        else (subs ! j)\<lparr>sb_closed := True\<rparr>))
   \<and> kept = filter (\<lambda>j. \<not> sb_closed (subs ! j) \<and> length (sb_ch (subs ! j)) < subscriberBuffer) js"
proof (induction e js subs arbitrary: kept subs' rule: offer.induct)
  case (2 e i js subs)
  let ?s = "subs ! i"
  have i: "i < length subs" "i \<notin> set js" "distinct js" "set js \<subseteq> {..<length subs}" using 2(5,6) by auto
  have ne: "filter (\<lambda>j. \<not> sb_closed (subs[i := x] ! j) \<and> length (sb_ch (subs[i := x] ! j)) < subscriberBuffer) js =
      filter (\<lambda>j. \<not> sb_closed (subs ! j) \<and> length (sb_ch (subs ! j)) < subscriberBuffer) js" for x
  proof (rule filter_cong [OF refl])
    fix j assume "j \<in> set js"
    then have "i \<noteq> j" using i(2) by auto
    then show "(\<not> sb_closed (subs[i := x] ! j) \<and> length (sb_ch (subs[i := x] ! j)) < subscriberBuffer) =
        (\<not> sb_closed (subs ! j) \<and> length (sb_ch (subs ! j)) < subscriberBuffer)" by simp
  qed
  show ?case
  proof (cases "sb_closed ?s")
    case True
    with 2(4) have "offer e js subs = (kept, subs')" by simp
    from 2(1) [OF refl True this i(3,4)] i True show ?thesis by auto
  next
    case opn: False
    show ?thesis
    proof (cases "length (sb_ch ?s) < subscriberBuffer")
      case True
      with 2(4) opn obtain kept1 where o: "offer e js (subs[i := ?s\<lparr>sb_ch := sb_ch ?s @ [e]\<rparr>]) = (kept1, subs')" "kept = i # kept1"
        by (auto simp: Let_def split: prod.splits)
      have "set js \<subseteq> {..<length (subs[i := ?s\<lparr>sb_ch := sb_ch ?s @ [e]\<rparr>])}" using i(4) by simp
      from 2(2) [OF refl opn True o(1) i(3) this] i opn True o(2) show ?thesis
        unfolding ne by (auto simp: nth_list_update)
    next
      case False
      with 2(4) opn have o: "offer e js (subs[i := ?s\<lparr>sb_closed := True\<rparr>]) = (kept, subs')" by (simp add: Let_def)
      have "set js \<subseteq> {..<length (subs[i := ?s\<lparr>sb_closed := True\<rparr>])}" using i(4) by simp
      from 2(3) [OF refl opn False o i(3) this] i opn False show ?thesis
        unfolding ne by (auto simp: nth_list_update)
    qed
  qed
qed auto

subsection \<open>The clients\<close>

text \<open>A client is a stream (\<open>relaySSE\<close> of \<open>cmd/agent/api.go\<close>): what it asked, its subscription, and what it read of the
  channel. \<open>cl_pos\<close> is where it stands at its start: at the event it names, or at the last one when it names none or reloads.\<close>

record client =
  cl_last :: string
  cl_names :: "string list"
  cl_sub :: subscription
  cl_pos :: nat
  cl_got :: "event list"

record hub_world =
  hw_hub :: hub
  hw_journal :: journal
  hw_clients :: "client list"

datatype hub_op =
    OPublish time string string string
  | OSubscribe time string "string list"
  | OUnsubscribe time nat
  | OPosition time "string list"
  | ORead nat

definition start_of :: "hub \<Rightarrow> string \<Rightarrow> subscription \<Rightarrow> nat" where
  "start_of h lastID su = (if lastID = [] \<or> su_stale su then h_seq h else case parse_id h lastID of None \<Rightarrow> h_seq h | Some n \<Rightarrow> n)"

fun hub_step :: "hub_world \<Rightarrow> hub_op \<Rightarrow> hub_world" where
  "hub_step w (OPublish now name ty data) =
     (let q = Suc (h_seq (hw_hub w))
      in w\<lparr>hw_hub := Publish now name ty data (hw_hub w),
           hw_journal := hw_journal w @ [(q, name, \<lparr>ev_id = hub_id (hw_hub w) q, ev_type = ty, ev_data = data\<rparr>)]\<rparr>)"
| "hub_step w (OSubscribe now lastID names) =
     (let (h, su) = Subscribe now lastID names (hw_hub w)
      in w\<lparr>hw_hub := h, hw_clients := hw_clients w @ [\<lparr>cl_last = lastID, cl_names = names, cl_sub = su,
             cl_pos = start_of (hw_hub w) lastID su, cl_got = []\<rparr>]\<rparr>)"
| "hub_step w (OUnsubscribe now i) =
     (if i < length (hw_clients w) then w\<lparr>hw_hub := Unsubscribe now i (hw_hub w)\<rparr> else w)"
| "hub_step w (OPosition now names) = w\<lparr>hw_hub := fst (Position now names (hw_hub w))\<rparr>"
| "hub_step w (ORead i) =
     (if i < length (hw_clients w) then
        (case sb_ch (h_subs (hw_hub w) ! i) of
           [] \<Rightarrow> w
         | e # es \<Rightarrow>
             let h = hw_hub w; s = h_subs h ! i; c = hw_clients w ! i
             in w\<lparr>hw_hub := h\<lparr>h_subs := (h_subs h)[i := s\<lparr>sb_ch := es\<rparr>]\<rparr>,
                  hw_clients := (hw_clients w)[i := c\<lparr>cl_got := cl_got c @ [e]\<rparr>]\<rparr>)
      else w)"

definition client_ok :: "journal \<Rightarrow> nat \<Rightarrow> subscriber \<Rightarrow> client \<Rightarrow> bool" where
  "client_ok J q s c \<longleftrightarrow> sb_topics s = cl_names c \<and> distinct (cl_names c) \<and> cl_pos c \<le> q
     \<and> (\<exists>rest. su_missed (cl_sub c) @ cl_got c @ sb_ch s @ rest = since J (cl_names c) (cl_pos c) \<and> (\<not> sb_closed s \<longrightarrow> rest = []))"

definition hub_ok :: "hub_world \<Rightarrow> bool" where
  "hub_ok w \<longleftrightarrow> journal_ok (hw_hub w) (hw_journal w) \<and> topics_ok (hw_journal w) (hw_hub w) \<and> links_ok (hw_hub w)
     \<and> length (hw_clients w) = length (h_subs (hw_hub w))
     \<and> (\<forall>i < length (hw_clients w). client_ok (hw_journal w) (h_seq (hw_hub w)) (h_subs (hw_hub w) ! i) (hw_clients w ! i))"

fun hub_op_ok :: "hub_op \<Rightarrow> bool" where
  "hub_op_ok (OSubscribe _ _ names) = distinct names"
| "hub_op_ok _ = True"

lemma since_snoc: "since (J @ [(q, name, e)]) names n = since J names n @ (if name \<in> set names \<and> n < q then [e] else [])"
  by (auto simp: since_def)

lemma journal_ok_step: "journal_ok h J \<Longrightarrow> ev_id e = hub_id h (Suc (h_seq h)) \<Longrightarrow> h_seq h' = Suc (h_seq h) \<Longrightarrow> h_epoch h' = h_epoch h \<Longrightarrow>
    journal_ok h' (J @ [(Suc (h_seq h), name, e)])"
  by (auto simp: journal_ok_def hub_id_def)

text \<open>An event published: the topics, the links, the clients.\<close>

lemma Publish_parts:
  obtains fl recent seqs kept subs where
    "trim (h_keep h) (tp_floor (get_topic (hub_sweep now h) now name)) (tp_recent (get_topic (hub_sweep now h) now name))
       (tp_seqs (get_topic (hub_sweep now h) now name)) = (fl, recent, seqs)"
    "offer \<lparr>ev_id = hub_id h (Suc (h_seq h)), ev_type = ty, ev_data = data\<rparr> (tp_subs (get_topic (hub_sweep now h) now name)) (h_subs h)
       = (kept, subs)"
    "Publish now name ty data h =
       put_topic name \<lparr>tp_subs = kept, tp_recent = recent @ [\<lparr>ev_id = hub_id h (Suc (h_seq h)), ev_type = ty, ev_data = data\<rparr>],
           tp_seqs = seqs @ [Suc (h_seq h)], tp_floor = fl, tp_used = now\<rparr>
         ((hub_sweep now h)\<lparr>h_seq := Suc (h_seq h), h_subs := subs\<rparr>)"
proof -
  let ?t = "get_topic (hub_sweep now h) now name"
  obtain fl recent seqs where t: "trim (h_keep h) (tp_floor ?t) (tp_recent ?t) (tp_seqs ?t) = (fl, recent, seqs)" by (metis prod_cases3)
  obtain kept subs where o: "offer \<lparr>ev_id = hub_id h (Suc (h_seq h)), ev_type = ty, ev_data = data\<rparr> (tp_subs ?t) (h_subs h) = (kept, subs)"
    by fastforce
  show thesis by (rule that [OF t o]) (simp add: Publish_def Let_def t o)
qed

lemma topics_ok_Publish:
  assumes "topics_ok J h" and "journal_ok h J"
  shows "topics_ok (J @ [(Suc (h_seq h), name, \<lparr>ev_id = hub_id h (Suc (h_seq h)), ev_type = ty, ev_data = data\<rparr>)]) (Publish now name ty data h)"
proof -
  let ?e = "\<lparr>ev_id = hub_id h (Suc (h_seq h)), ev_type = ty, ev_data = data\<rparr>"
  let ?t = "get_topic (hub_sweep now h) now name" and ?J = "J @ [(Suc (h_seq h), name, ?e)]"
  obtain fl recent seqs kept subs where p: "trim (h_keep h) (tp_floor ?t) (tp_recent ?t) (tp_seqs ?t) = (fl, recent, seqs)"
    "Publish now name ty data h = put_topic name \<lparr>tp_subs = kept, tp_recent = recent @ [?e],
           tp_seqs = seqs @ [Suc (h_seq h)], tp_floor = fl, tp_used = now\<rparr> ((hub_sweep now h)\<lparr>h_seq := Suc (h_seq h), h_subs := subs\<rparr>)"
    by (rule Publish_parts [of h now name ty data])
  have s: "topics_ok J (hub_sweep now h)" by (rule topics_ok_sweep [OF assms])
  note t = get_topic_ok [OF s, where name = name and now = now]
  have keep: "0 < h_keep h" using assms(1) by (simp add: topics_ok_def)
  have tr: "length seqs = length recent \<and> zip seqs recent = of_topic J name fl \<and> length recent < h_keep h \<and> (fl = tp_floor ?t \<or> fl \<in> set (tp_seqs ?t))"
    using trim_ok [OF p(1) journal_sorted [OF assms(2)] _ _ keep] t(1) by (simp add: topic_ok_def)
  have fl: "fl \<le> h_seq h"
    using tr t of_topic_bound [OF assms(2)] seqs_of [OF t(1)] by auto
  have other: "topic_ok ?J m u = topic_ok J m u" if "m \<noteq> name" for m u using that by (simp add: topic_ok_def of_topic_snoc)
  show ?thesis unfolding p(2)
    using s tr fl keep by (auto simp: topics_ok_def other of_topic_snoc topic_ok_def put_topic_def distinct_update update_conv' le_Suc_eq split: if_splits)
qed

lemma Publish_subs:
  fixes ty data :: string
  assumes "links_ok h" and "topics_ok J h"
  defines "e \<equiv> \<lparr>ev_id = hub_id h (Suc (h_seq h)), ev_type = ty, ev_data = data\<rparr>"
  shows "h_subs (Publish now name ty data h) ! i =
    (if \<not> linked h i name \<or> sb_closed (h_subs h ! i) then h_subs h ! i
     else if length (sb_ch (h_subs h ! i)) < subscriberBuffer then (h_subs h ! i)\<lparr>sb_ch := sb_ch (h_subs h ! i) @ [e]\<rparr>
     else (h_subs h ! i)\<lparr>sb_closed := True\<rparr>)"
    "length (h_subs (Publish now name ty data h)) = length (h_subs h)"
    "links_ok (Publish now name ty data h)"
proof -
  let ?h = "hub_sweep now h" let ?t = "get_topic ?h now name"
  obtain fl recent seqs kept subs where p: "offer e (tp_subs ?t) (h_subs h) = (kept, subs)"
    "Publish now name ty data h = put_topic name \<lparr>tp_subs = kept, tp_recent = recent @ [e],
           tp_seqs = seqs @ [Suc (h_seq h)], tp_floor = fl, tp_used = now\<rparr> (?h\<lparr>h_seq := Suc (h_seq h), h_subs := subs\<rparr>)"
    unfolding e_def by (rule Publish_parts [of h now name ty data])
  have d: "distinct (map fst (h_topics h))" using assms(2) by (simp add: topics_ok_def)
  have l: "links_ok ?h" by (rule links_sweep [OF assms(2,1)])
  have lt: "i \<in> set (tp_subs ?t) \<longleftrightarrow> linked h i name" for i using linked_get [of ?h i name now] linked_sweep [OF d] by simp
  note o = offer_spec [OF p(1) links_topic(1) [OF l]]
  have sub: "set (tp_subs ?t) \<subseteq> {..<length (h_subs h)}" using links_topic(2) [OF l] by simp
  note o = o [OF sub]
  have all: "h_subs (Publish now name ty data h) ! i =
    (if \<not> linked h i name \<or> sb_closed (h_subs h ! i) then h_subs h ! i
     else if length (sb_ch (h_subs h ! i)) < subscriberBuffer then (h_subs h ! i)\<lparr>sb_ch := sb_ch (h_subs h ! i) @ [e]\<rparr>
     else (h_subs h ! i)\<lparr>sb_closed := True\<rparr>)" for i
    using o lt [of i] by (cases "linked h i name") (simp_all add: p(2))
  then show "h_subs (Publish now name ty data h) ! i =
    (if \<not> linked h i name \<or> sb_closed (h_subs h ! i) then h_subs h ! i
     else if length (sb_ch (h_subs h ! i)) < subscriberBuffer then (h_subs h ! i)\<lparr>sb_ch := sb_ch (h_subs h ! i) @ [e]\<rparr>
     else (h_subs h ! i)\<lparr>sb_closed := True\<rparr>)" .
  show len: "length (h_subs (Publish now name ty data h)) = length (h_subs h)" using o by (simp add: p(2))
  have link: "linked (Publish now name ty data h) j m = (if m = name then j \<in> set kept else linked h j m)" for j m
    unfolding p(2) linked_put using linked_sweep [OF d] by (simp add: linked_def)
  have kept: "j \<in> set kept \<longleftrightarrow> linked h j name" if "open_sub (Publish now name ty data h) j" for j
    using that all [of j] o lt [of j] by (auto split: if_splits)
  have same: "sb_topics (h_subs (Publish now name ty data h) ! j) = sb_topics (h_subs h ! j)"
    "open_sub (Publish now name ty data h) j \<Longrightarrow> open_sub h j" for j
    using all [of j] len by (auto split: if_splits)
  show "links_ok (Publish now name ty data h)" unfolding links_ok_def len
  proof (intro conjI allI impI)
    fix m t assume "map_of (h_topics (Publish now name ty data h)) m = Some t"
    then show "distinct (tp_subs t)" "set (tp_subs t) \<subseteq> {..<length (h_subs h)}"
      using l o sub links_topic(1) [OF l, of now name] by (auto simp: p(2) links_ok_def split: if_splits)
  next
    fix j m assume j: "j < length (h_subs h) \<and> \<not> sb_closed (h_subs (Publish now name ty data h) ! j)"
    then have "open_sub (Publish now name ty data h) j" using len by simp
    with kept same link assms(1) show "linked (Publish now name ty data h) j m = (m \<in> set (sb_topics (h_subs (Publish now name ty data h) ! j)))"
      by (auto simp: links_ok_def)
  qed
qed

lemma hub_ok_Publish:
  assumes "hub_ok w"
  shows "hub_ok (hub_step w (OPublish now name ty data))"
proof -
  define h J where "h = hw_hub w" and "J = hw_journal w"
  define e where "e = \<lparr>ev_id = hub_id h (Suc (h_seq h)), ev_type = ty, ev_data = data\<rparr>"
  let ?h = "Publish now name ty data h" and ?J = "J @ [(Suc (h_seq h), name, e)]"
  have ok: "journal_ok h J" "topics_ok J h" "links_ok h" "length (hw_clients w) = length (h_subs h)"
    and cl: "i < length (h_subs h) \<Longrightarrow> client_ok J (h_seq h) (h_subs h ! i) (hw_clients w ! i)" for i
    using assms by (auto simp: hub_ok_def h_def J_def)
  have seq: "h_seq ?h = Suc (h_seq h)" "h_epoch ?h = h_epoch h"
    by (rule Publish_parts [of h now name ty data]; simp)+
  note subs = Publish_subs [OF ok(3,2), where ty = ty and data = data and now = now and name = name, folded e_def]
  have "client_ok ?J (Suc (h_seq h)) (h_subs ?h ! i) (hw_clients w ! i)" if i: "i < length (h_subs h)" for i
  proof -
    let ?s = "h_subs h ! i" and ?c = "hw_clients w ! i"
    from cl [OF i] obtain rest where c: "sb_topics ?s = cl_names ?c" "distinct (cl_names ?c)" "cl_pos ?c \<le> h_seq h"
      "su_missed (cl_sub ?c) @ cl_got ?c @ sb_ch ?s @ rest = since J (cl_names ?c) (cl_pos ?c)" "\<not> sb_closed ?s \<longrightarrow> rest = []"
      by (auto simp: client_ok_def)
    have link: "linked h i name \<longleftrightarrow> name \<in> set (cl_names ?c)" if "\<not> sb_closed ?s"
      using ok(3) i that c(1) by (auto simp: links_ok_def)
    have now: "since ?J (cl_names ?c) (cl_pos ?c) = since J (cl_names ?c) (cl_pos ?c) @ (if name \<in> set (cl_names ?c) then [e] else [])"
      using c(3) by (simp add: since_snoc)
    show ?thesis
    proof (cases "sb_closed ?s")
      case True
      with c(1-3) show ?thesis unfolding client_ok_def subs(1) [of i] now c(4) [symmetric]
        by (auto intro!: exI [of _ "rest @ (if name \<in> set (cl_names ?c) then [e] else [])"])
    next
      case False
      with c(1-3,5) link show ?thesis unfolding client_ok_def subs(1) [of i] now c(4) [symmetric] by auto
    qed
  qed
  then show ?thesis
    using ok topics_ok_Publish [OF ok(2,1), of name ty data now] journal_ok_step [OF ok(1), of e ?h name] seq subs(2,3)
    by (auto simp: hub_ok_def Let_def h_def [symmetric] J_def [symmetric] e_def [symmetric]) (auto simp: e_def)
qed

text \<open>A client that comes.\<close>

lemma join_topics_spec:
  "join_topics now i lastID known names h missed stale = (h', missed', stale') \<Longrightarrow> distinct names \<Longrightarrow>
   h' = h\<lparr>h_topics := h_topics h'\<rparr>
   \<and> map_of (h_topics h') = (\<lambda>m. if m \<in> set names then Some ((get_topic h now m)\<lparr>tp_subs := tp_subs (get_topic h now m) @ [i]\<rparr>)
                              else map_of (h_topics h) m)
   \<and> (distinct (map fst (h_topics h)) \<longrightarrow> distinct (map fst (h_topics h')))
   \<and> (stale' \<longleftrightarrow> stale \<or> lastID \<noteq> [] \<and> (\<exists>m \<in> set names. case known of None \<Rightarrow> True | Some n \<Rightarrow> n < tp_floor (get_topic h now m)))
   \<and> (lastID = [] \<longrightarrow> missed' = missed)
   \<and> (\<forall>n. lastID \<noteq> [] \<and> known = Some n \<and> \<not> stale' \<longrightarrow>
        missed' = missed @ concat (map (\<lambda>m. filter (\<lambda>(q, _). n < q) (zip (tp_seqs (get_topic h now m)) (tp_recent (get_topic h now m)))) names))"
proof (induction names arbitrary: h missed stale)
  case (Cons name names)
  let ?t = "get_topic h now name"
  define h1 where "h1 = put_topic name (?t\<lparr>tp_subs := tp_subs ?t @ [i]\<rparr>) h"
  have fresh: "name \<notin> set names" "distinct names" using Cons.prems(2) by auto
  have other: "get_topic h1 now m = get_topic h now m" if "m \<in> set names" for m
    using that fresh(1) by (auto simp: get_topic_def h1_def split: option.split)
  obtain missed1 stale1 where j: "join_topics now i lastID known names h1 missed1 stale1 = (h', missed', stale')"
    "missed1 = (if lastID = [] then missed else case known of None \<Rightarrow> missed | Some n \<Rightarrow> if n < tp_floor ?t then missed
       else missed @ filter (\<lambda>(q, _). n < q) (zip (tp_seqs ?t) (tp_recent ?t)))"
    "stale1 \<longleftrightarrow> stale \<or> lastID \<noteq> [] \<and> (case known of None \<Rightarrow> True | Some n \<Rightarrow> n < tp_floor ?t)"
    using Cons.prems(1) by (auto simp: Let_def h1_def [symmetric] split: if_splits option.splits)
  have h1: "h1 = h\<lparr>h_topics := h_topics h1\<rparr>" "distinct (map fst (h_topics h)) \<longrightarrow> distinct (map fst (h_topics h1))"
    "map_of (h_topics h1) = (map_of (h_topics h))(name \<mapsto> ?t\<lparr>tp_subs := tp_subs ?t @ [i]\<rparr>)"
    by (auto simp: h1_def put_topic_def distinct_update update_conv')
  note IH = Cons.IH [OF j(1) fresh(2)]
  have a: "h' = h\<lparr>h_topics := h_topics h'\<rparr>" 
  proof -
    have "h' = h1\<lparr>h_topics := h_topics h'\<rparr>" using IH by blast
    also have "h1\<lparr>h_topics := h_topics h'\<rparr> = (h\<lparr>h_topics := h_topics h1\<rparr>)\<lparr>h_topics := h_topics h'\<rparr>" using h1(1) by (rule arg_cong)
    finally show ?thesis by simp
  qed
  have b: "map_of (h_topics h') = (\<lambda>m. if m \<in> set (name # names) then Some ((get_topic h now m)\<lparr>tp_subs := tp_subs (get_topic h now m) @ [i]\<rparr>)
                              else map_of (h_topics h) m)"
    using IH h1(3) other fresh(1) by (auto simp: fun_eq_iff)
  have c: "stale' \<longleftrightarrow> stale \<or> lastID \<noteq> [] \<and> (\<exists>m \<in> set (name # names). case known of None \<Rightarrow> True | Some n \<Rightarrow> n < tp_floor (get_topic h now m))"
  proof -
    let ?P = "\<lambda>t. case known of None \<Rightarrow> True | Some n \<Rightarrow> n < tp_floor t"
    have "(\<exists>m \<in> set names. ?P (get_topic h1 now m)) = (\<exists>m \<in> set names. ?P (get_topic h now m))" using other by (intro bex_cong [OF refl]) (simp split: option.split)
    moreover have "stale' \<longleftrightarrow> stale1 \<or> lastID \<noteq> [] \<and> (\<exists>m \<in> set names. ?P (get_topic h1 now m))" using IH by blast
    ultimately show ?thesis unfolding j(3) by auto
  qed
  have d: "missed' = missed1 @ concat (map (\<lambda>m. filter (\<lambda>(q, _). n < q) (zip (tp_seqs (get_topic h now m)) (tp_recent (get_topic h now m)))) names)"
    if "lastID \<noteq> [] \<and> known = Some n \<and> \<not> stale'" for n
  proof -
    have "map (\<lambda>m. filter (\<lambda>(q, _). n < q) (zip (tp_seqs (get_topic h1 now m)) (tp_recent (get_topic h1 now m)))) names =
        map (\<lambda>m. filter (\<lambda>(q, _). n < q) (zip (tp_seqs (get_topic h now m)) (tp_recent (get_topic h now m)))) names"
      using other by (intro map_cong) auto
    with IH that show ?thesis by simp
  qed
  have "missed' = missed @ concat (map (\<lambda>m. filter (\<lambda>(q, _). n < q) (zip (tp_seqs (get_topic h now m)) (tp_recent (get_topic h now m)))) (name # names))"
    if "lastID \<noteq> [] \<and> known = Some n \<and> \<not> stale'" for n
    using d [OF that] that j(2) c by (auto split: if_splits)
  then show ?case using a b c IH h1(2) j(2) by auto
qed simp

text \<open>What the topics keep after \<open>n\<close>, put in the order of the events, is what the client missed.\<close>

lemma since_of_topics:
  assumes "sorted_wrt (<) (map fst J)" and "distinct names"
  shows "map snd (sort_key fst (concat (map (\<lambda>m. of_topic J m n) names))) = since J names n"
proof -
  let ?S = "map (\<lambda>(q, _, e). (q, e)) (filter (\<lambda>(q, m, _). m \<in> set names \<and> n < q) J)"
  have fst: "map fst ?S = map fst (filter (\<lambda>(q, m, _). m \<in> set names \<and> n < q) J)" by auto
  have sorted: "sorted_wrt (<) (map fst ?S)" unfolding fst using assms(1) by (simp add: sorted_wrt_map sorted_wrt_filter)
  have "mset (concat (map (\<lambda>m. of_topic J m n) names)) = mset ?S"
    using assms(2)
  proof (induction names)
    case (Cons m names)
    have "mset (of_topic J m n) + mset (map (\<lambda>(q, _, e). (q, e)) (filter (\<lambda>(q, m, _). m \<in> set names \<and> n < q) J)) =
        mset (map (\<lambda>(q, _, e). (q, e)) (filter (\<lambda>(q, k, _). k \<in> set (m # names) \<and> n < q) J))"
      using Cons.prems by (induction J) (auto simp: of_topic_def)
    with Cons show ?case by simp
  qed simp
  then have perm: "mset ?S = mset (concat (map (\<lambda>m. of_topic J m n) names))" by simp
  have "sort_key fst (concat (map (\<lambda>m. of_topic J m n) names)) = ?S"
  proof (rule properties_for_sort_key [OF perm])
    show "sorted (map fst ?S)" using sorted by (simp only: strict_sorted_iff)
    fix x assume "x \<in> set ?S"
    have dist: "distinct (map fst ?S)" using sorted by (simp only: strict_sorted_iff)
    have two: "filter (\<lambda>y. fst x = fst y) ys = [x]" if "x \<in> set ys" "distinct (map fst ys)" for ys :: "(nat \<times> event) list"
      using that by (induction ys) (auto simp: filter_empty_conv rev_image_eqI)
    have "mset (map fst ?S) = mset (map fst (concat (map (\<lambda>m. of_topic J m n) names)))" using arg_cong [OF perm, of "image_mset fst"] by (simp only: mset_map)
    from mset_eq_imp_distinct_iff [OF this] dist have "distinct (map fst (concat (map (\<lambda>m. of_topic J m n) names)))" by blast
    moreover have "x \<in> set (concat (map (\<lambda>m. of_topic J m n) names))" using \<open>x \<in> set ?S\<close> mset_eq_setD [OF perm] by blast
    ultimately show "filter (\<lambda>y. fst x = fst y) ?S = filter (\<lambda>y. fst x = fst y) (concat (map (\<lambda>m. of_topic J m n) names))"
      using two [OF \<open>x \<in> set ?S\<close> dist] two by presburger
  qed
  then show ?thesis by (simp add: since_def case_prod_unfold comp_def)
qed

lemma since_now: "journal_ok h J \<Longrightarrow> since J names (h_seq h) = []"
proof -
  assume J: "journal_ok h J"
  have "\<not> h_seq h < q" if "(q, m, e) \<in> set J" for q m e
  proof -
    have "(q, e) \<in> set (of_topic J m 0) \<or> q = 0" using that by (force simp: of_topic_def)
    with of_topic_bound [OF J] show ?thesis by force
  qed
  then show ?thesis by (auto simp: since_def filter_empty_conv)
qed

lemma parse_id_le: "parse_id h i = Some n \<Longrightarrow> n \<le> h_seq h"
  by (auto simp: parse_id_def split: prod.splits if_splits)

lemma links_join:
  assumes "links_ok h" and "distinct names" and "length (h_subs h') = Suc (length (h_subs h))"
    and subs: "\<And>j. j < length (h_subs h) \<Longrightarrow> h_subs h' ! j = h_subs h ! j" "sb_topics (h_subs h' ! length (h_subs h)) = names"
    and tops: "map_of (h_topics h') = (\<lambda>m. if m \<in> set names
        then Some ((get_topic h now m)\<lparr>tp_subs := tp_subs (get_topic h now m) @ [length (h_subs h)]\<rparr>) else map_of (h_topics h) m)"
  shows "links_ok h'"
proof -
  let ?i = "length (h_subs h)"
  have link: "linked h' j m \<longleftrightarrow> linked h j m \<or> m \<in> set names \<and> j = ?i" for j m
    using linked_get [of h j m now] by (auto simp: linked_def tops)
  have new: "\<not> linked h ?i m" for m using links_topic(2) [OF assms(1), of now m] linked_get [of h ?i m now] by auto
  show ?thesis unfolding links_ok_def
  proof (intro conjI allI impI)
    fix m t assume "map_of (h_topics h') m = Some t"
    then show "distinct (tp_subs t)" "set (tp_subs t) \<subseteq> {..<length (h_subs h')}"
      using assms(3) links_topic [OF assms(1), of now m] get_topic_Some [of h m t now]
      by (auto simp: tops less_Suc_eq split: if_splits)
  next
    fix j m assume j: "open_sub h' j"
    show "linked h' j m = (m \<in> set (sb_topics (h_subs h' ! j)))"
    proof (cases "j = ?i")
      case True
      with link new subs(2) show ?thesis by simp
    next
      case False
      with j assms(3) have "j < ?i" by simp
      with j False link subs(1) assms(1) show ?thesis by (simp add: links_ok_def)
    qed
  qed
qed

lemma hub_ok_Subscribe:
  assumes "hub_ok w" and "distinct names"
  shows "hub_ok (hub_step w (OSubscribe now lastID names))"
proof -
  define h J where "h = hw_hub w" and "J = hw_journal w"
  define h1 where "h1 = hub_sweep now h"
  let ?i = "length (h_subs h)" and ?s = "\<lparr>sb_ch = [], sb_closed = False, sb_topics = names\<rparr>"
  define h2 where "h2 = h1\<lparr>h_subs := h_subs h @ [?s]\<rparr>"
  obtain h3 missed stale where j: "join_topics now ?i lastID (parse_id h lastID) names h2 [] False = (h3, missed, stale)" by (metis prod_cases3)
  define su where "su = \<lparr>su_sub = ?i, su_missed = (if stale then [] else map snd (sort_key fst missed)), su_stale = stale, su_at = hub_id h3 (h_seq h3)\<rparr>"
  have run: "Subscribe now lastID names h = (h3, su)"
    unfolding Subscribe_def Let_def using j by (simp add: h1_def h2_def su_def)
  have ok: "journal_ok h J" "topics_ok J h" "links_ok h" "length (hw_clients w) = length (h_subs h)"
    and cl: "k < length (h_subs h) \<Longrightarrow> client_ok J (h_seq h) (h_subs h ! k) (hw_clients w ! k)" for k
    using assms(1) by (auto simp: hub_ok_def h_def J_def)
  have t1: "topics_ok J h1" and l1: "links_ok h1" using topics_ok_sweep [OF ok(2,1)] links_sweep [OF ok(2,3)] by (simp_all add: h1_def)
  have same: "get_topic h2 now m = get_topic h1 now m" "h_topics h2 = h_topics h1" for m by (simp_all add: h2_def get_topic_def split: option.split)
  note J3 = join_topics_spec [OF j assms(2), unfolded same]
  have h3: "h_seq h3 = h_seq h" "h_epoch h3 = h_epoch h" "h_keep h3 = h_keep h1" "h_dropped h3 = h_dropped h1" "h_subs h3 = h_subs h @ [?s]"
  proof -
    have "h3 = h2\<lparr>h_topics := h_topics h3\<rparr>" using J3 by blast
    then obtain T where "h3 = h2\<lparr>h_topics := T\<rparr>" by blast
    then show "h_seq h3 = h_seq h" "h_epoch h3 = h_epoch h" "h_keep h3 = h_keep h1" "h_dropped h3 = h_dropped h1" "h_subs h3 = h_subs h @ [?s]"
      by (simp_all add: h2_def h1_def)
  qed
  have tops: "map_of (h_topics h3) = (\<lambda>m. if m \<in> set names
      then Some ((get_topic h1 now m)\<lparr>tp_subs := tp_subs (get_topic h1 now m) @ [?i]\<rparr>) else map_of (h_topics h1) m)" using J3 by blast
  have sub: "topic_ok J m (t\<lparr>tp_subs := x\<rparr>) = topic_ok J m t" for m t x by (simp add: topic_ok_def)
  have "topics_ok J h3"
    using t1 get_topic_ok [OF t1] J3 h3 by (auto simp: topics_ok_def tops sub h1_def split: if_splits)
  moreover have "links_ok h3"
    by (rule links_join [OF l1 assms(2)]) (use h3 tops in \<open>auto simp: h1_def nth_append\<close>)
  moreover have "client_ok J (h_seq h) ?s \<lparr>cl_last = lastID, cl_names = names, cl_sub = su, cl_pos = start_of h lastID su, cl_got = []\<rparr>"
  proof (cases "lastID = [] \<or> stale \<or> parse_id h lastID = None")
    case True
    have "su_missed su = []"
      using True J3 j by (cases "names = []") (auto simp: su_def split: option.splits)
    moreover have "start_of h lastID su = h_seq h" using True by (auto simp: start_of_def su_def)
    ultimately show ?thesis using since_now [OF ok(1)] assms(2) by (simp add: client_ok_def)
  next
    case False
    then obtain n where n: "parse_id h lastID = Some n" "lastID \<noteq> []" "\<not> stale" by auto
    have zips: "filter (\<lambda>(q, _). n < q) (zip (tp_seqs (get_topic h1 now m)) (tp_recent (get_topic h1 now m))) = of_topic J m n" if "m \<in> set names" for m
    proof -
      have "tp_floor (get_topic h1 now m) \<le> n" using J3 n that by auto
      then show ?thesis using get_topic_ok(1) [OF t1, of m now] by (simp add: topic_ok_def of_topic_later)
    qed
    have "missed = concat (map (\<lambda>m. filter (\<lambda>(q, _). n < q) (zip (tp_seqs (get_topic h1 now m)) (tp_recent (get_topic h1 now m)))) names)"
      using J3 n by simp
    also have "\<dots> = concat (map (\<lambda>m. of_topic J m n) names)" using zips by (intro arg_cong [of _ _ concat] map_cong) auto
    finally have "su_missed su = since J names n" using since_of_topics [OF journal_sorted [OF ok(1)] assms(2), of n] n by (simp add: su_def)
    with n parse_id_le [OF n(1)] assms(2) show ?thesis by (auto simp: client_ok_def start_of_def su_def)
  qed
  ultimately show ?thesis
    using ok cl h3 run journal_ok_cong [of h3 h J] by (auto simp: hub_ok_def h_def [symmetric] J_def [symmetric] nth_append less_Suc_eq)
qed

text \<open>A client that goes, a page rendered, an event read.\<close>

lemma end_put: "end_sub i (put_topic name t h) = put_topic name t (end_sub i h)" "h_topics (end_sub i h) = h_topics h"
  by (simp_all add: end_sub_def put_topic_def)

lemma end_leave: "end_sub i (leave_topics now i names h) = leave_topics now i names (end_sub i h)"
  by (induction names arbitrary: h) (auto simp: end_put split: option.split)

lemma links_put:
  assumes "links_ok h" and "distinct (tp_subs t)" and "set (tp_subs t) \<subseteq> {..<length (h_subs h)}"
    and "\<And>j. open_sub h j \<Longrightarrow> j \<in> set (tp_subs t) \<longleftrightarrow> linked h j name"
  shows "links_ok (put_topic name t h)"
  using assms by (auto simp: links_ok_def linked_put)

lemma links_update:
  assumes "links_ok h" and "h_topics h' = h_topics h" and "h_subs h' = (h_subs h)[i := s]" and "sb_topics s = sb_topics (h_subs h ! i)"
    and "\<not> sb_closed s \<Longrightarrow> \<not> sb_closed (h_subs h ! i)"
  shows "links_ok h'"
proof -
  have len: "length (h_subs h') = length (h_subs h)" using assms(3) by simp
  have opn: "open_sub h j" if "open_sub h' j" for j using that assms(3,5) by (cases "i = j") auto
  have names: "sb_topics (h_subs h' ! j) = sb_topics (h_subs h ! j)" for j
    using assms(3,4) by (cases "i = j"; cases "i < length (h_subs h)") (simp_all add: list_update_beyond)
  have link: "linked h' j m = linked h j m" for j m using assms(2) by (simp add: linked_def)
  show ?thesis unfolding links_ok_def link names assms(2) len
    using assms(1) opn unfolding links_ok_def len by blast
qed

lemma leave_ok:
  fixes now :: time and names :: "string list"
  assumes "topics_ok J h" and "links_ok h" and "\<not> open_sub h i"
  defines "h' \<equiv> leave_topics now i names h"
  shows "topics_ok J h' \<and> links_ok h' \<and> h_seq h' = h_seq h \<and> h_epoch h' = h_epoch h \<and> h_subs h' = h_subs h"
  using assms(1-3) unfolding h'_def
proof (induction names arbitrary: h)
  case (Cons name names)
  show ?case
  proof (cases "map_of (h_topics h) name")
    case None
    with Cons show ?thesis by simp
  next
    case (Some t)
    let ?h = "put_topic name (t\<lparr>tp_subs := filter (\<lambda>j. j \<noteq> i) (tp_subs t), tp_used := now\<rparr>) h"
    have t: "topic_ok J name t" "tp_floor t \<le> h_seq h" "length (tp_recent t) \<le> h_keep h" "distinct (tp_subs t)" "set (tp_subs t) \<subseteq> {..<length (h_subs h)}"
      using Cons.prems(1,2) Some by (auto simp: topics_ok_def links_ok_def)
    have "topics_ok J ?h" using t by (intro topics_ok_put [OF Cons.prems(1)]) (auto simp: topic_ok_def)
    moreover have "links_ok ?h"
      using t Cons.prems(3) Some by (intro links_put [OF Cons.prems(2)]) (auto simp: linked_def)
    ultimately show ?thesis using Cons.IH [of ?h] Cons.prems(3) Some by simp
  qed
qed simp

lemma touch_ok:
  fixes now :: time and names :: "string list"
  assumes "topics_ok J h" and "links_ok h"
  defines "h' \<equiv> touch_topics now names h"
  shows "topics_ok J h' \<and> links_ok h' \<and> h_seq h' = h_seq h \<and> h_epoch h' = h_epoch h \<and> h_subs h' = h_subs h"
  using assms(1,2) unfolding h'_def
proof (induction names arbitrary: h)
  case (Cons name names)
  let ?t = "get_topic h now name" let ?h = "put_topic name (?t\<lparr>tp_used := now\<rparr>) h"
  have "topics_ok J ?h" using get_topic_ok [OF Cons.prems(1), where name = name and now = now]
    by (intro topics_ok_put [OF Cons.prems(1)]) (auto simp: topic_ok_def)
  moreover have "links_ok ?h" using links_topic [OF Cons.prems(2), of now name] linked_get [of h _ name now]
    by (intro links_put [OF Cons.prems(2)]) auto
  ultimately show ?case using Cons.IH [of ?h] by simp
qed simp

lemma hub_ok_Unsubscribe:
  assumes "hub_ok w"
  shows "hub_ok (hub_step w (OUnsubscribe now i))"
proof (cases "i < length (hw_clients w)")
  case True
  define h where "h = end_sub i (hw_hub w)"
  have i: "i < length (h_subs (hw_hub w))" using assms True by (simp add: hub_ok_def)
  have h: "h_topics h = h_topics (hw_hub w)" "h_seq h = h_seq (hw_hub w)" "h_epoch h = h_epoch (hw_hub w)" "h_keep h = h_keep (hw_hub w)"
    "h_dropped h = h_dropped (hw_hub w)" "h_subs h = (h_subs (hw_hub w))[i := (h_subs (hw_hub w) ! i)\<lparr>sb_closed := True\<rparr>]"
    by (simp_all add: h_def end_sub_def)
  have "topics_ok (hw_journal w) h" using assms by (simp add: hub_ok_def topics_ok_def h)
  moreover have "links_ok h"
    by (rule links_update [OF _ h(1,6)]) (use assms h in \<open>simp_all add: hub_ok_def\<close>)
  moreover have "\<not> open_sub h i" using i by (simp add: h)
  ultimately have l: "topics_ok (hw_journal w) h' \<and> links_ok h' \<and> h_seq h' = h_seq h \<and> h_epoch h' = h_epoch h \<and> h_subs h' = h_subs h"
    if "h' = leave_topics now i (sb_topics (h_subs (hw_hub w) ! i)) h" for h'
    using leave_ok that by blast
  have u: "Unsubscribe now i (hw_hub w) = leave_topics now i (sb_topics (h_subs (hw_hub w) ! i)) h"
    by (simp add: Unsubscribe_def end_leave h_def)
  have "client_ok (hw_journal w) (h_seq (hw_hub w)) (h_subs h ! j) (hw_clients w ! j)" if "j < length (hw_clients w)" for j
    using assms that i by (auto simp: hub_ok_def client_ok_def h nth_list_update)
  with l [OF u] assms True journal_ok_cong [of "Unsubscribe now i (hw_hub w)" "hw_hub w"] show ?thesis by (simp add: hub_ok_def h)
qed (use assms in simp)

lemma hub_ok_Position:
  assumes "hub_ok w"
  shows "hub_ok (hub_step w (OPosition now names))"
proof -
  let ?h = "hub_sweep now (hw_hub w)"
  have ok: "topics_ok (hw_journal w) (hw_hub w)" "journal_ok (hw_hub w) (hw_journal w)" "links_ok (hw_hub w)" using assms by (auto simp: hub_ok_def)
  from touch_ok [OF topics_ok_sweep [OF ok(1,2)] links_sweep [OF ok(1,3)], where now = now and names = names] assms
    journal_ok_cong [of "touch_topics now names ?h" "hw_hub w"]
  show ?thesis by (simp add: hub_ok_def Position_def Let_def)
qed

lemma hub_ok_Read:
  assumes "hub_ok w"
  shows "hub_ok (hub_step w (ORead i))"
proof (cases "i < length (hw_clients w) \<and> sb_ch (h_subs (hw_hub w) ! i) \<noteq> []")
  case True
  then obtain e es where e: "sb_ch (h_subs (hw_hub w) ! i) = e # es" by (meson neq_Nil_conv)
  define h where "h = (hw_hub w)\<lparr>h_subs := (h_subs (hw_hub w))[i := (h_subs (hw_hub w) ! i)\<lparr>sb_ch := es\<rparr>]\<rparr>"
  have i: "i < length (h_subs (hw_hub w))" using assms True by (simp add: hub_ok_def)
  have h: "h_topics h = h_topics (hw_hub w)" "h_seq h = h_seq (hw_hub w)" "h_epoch h = h_epoch (hw_hub w)" "h_keep h = h_keep (hw_hub w)"
    "h_dropped h = h_dropped (hw_hub w)" "h_subs h = (h_subs (hw_hub w))[i := (h_subs (hw_hub w) ! i)\<lparr>sb_ch := es\<rparr>]"
    by (simp_all add: h_def)
  have "links_ok h" by (rule links_update [OF _ h(1,6)]) (use assms h in \<open>simp_all add: hub_ok_def\<close>)
  moreover have "topics_ok (hw_journal w) h" using assms by (simp add: hub_ok_def topics_ok_def h)
  moreover have "client_ok (hw_journal w) (h_seq h) (h_subs h ! j)
      ((hw_clients w)[i := (hw_clients w ! i)\<lparr>cl_got := cl_got (hw_clients w ! i) @ [e]\<rparr>] ! j)" if "j < length (hw_clients w)" for j
  proof -
    have "client_ok (hw_journal w) (h_seq (hw_hub w)) (h_subs (hw_hub w) ! j) (hw_clients w ! j)" using assms that by (simp add: hub_ok_def)
    then show ?thesis using True i e by (cases "i = j") (auto simp: client_ok_def h)
  qed
  ultimately show ?thesis using assms True e i journal_ok_cong [of h "hw_hub w"] h
    by (simp add: hub_ok_def Let_def h_def [symmetric])
qed (use assms in \<open>auto split: list.split\<close>)

interpretation hub_runs: guarded hub_step hub_ok hub_op_ok
proof unfold_locales
  fix w op assume "hub_op_ok op" and "hub_ok w"
  then show "hub_ok (hub_step w op)"
    using hub_ok_Publish hub_ok_Subscribe hub_ok_Unsubscribe hub_ok_Position hub_ok_Read by (cases op) simp_all
qed

subsection \<open>Event IDs\<close>

lemma hub_id_inject [simp]: "hub_id h m = hub_id h n \<longleftrightarrow> m = n"
  by (simp add: hub_id_def)

lemma parse_hub_id: "CHR ''-'' \<notin> set (h_epoch h) \<Longrightarrow> parse_id h (hub_id h n) = (if n \<le> h_seq h then Some n else None)"
proof -
  assume "CHR ''-'' \<notin> set (h_epoch h)"
  then have "cut_byte (CHR ''-'') (h_epoch h @ CHR ''-'' # dec_nat n) = (h_epoch h, dec_nat n, True)" by (rule cut_byte_append)
  then show ?thesis using dec_nat_digits [of n] by (simp add: parse_id_def hub_id_def digits_def list_all_iff)
qed

definition new_world :: "string \<Rightarrow> hub_world" where
  "new_world epoch = \<lparr>hw_hub = NewHub epoch, hw_journal = [], hw_clients = []\<rparr>"

lemma hub_ok_new: "hub_ok (new_world epoch)"
  by (simp add: new_world_def NewHub_def hub_ok_def journal_ok_def topics_ok_def links_ok_def DefaultKeep_def of_topic_def)

text \<open>A client that names an event starts there, unless it is told to reload.\<close>

definition starts_ok :: "string \<Rightarrow> hub_world \<Rightarrow> bool" where
  "starts_ok epoch w \<longleftrightarrow> CHR ''-'' \<notin> set epoch \<and> h_epoch (hw_hub w) = epoch
     \<and> (\<forall>c \<in> set (hw_clients w). cl_names c \<noteq> [] \<and> \<not> su_stale (cl_sub c) \<longrightarrow> (\<forall>n. cl_last c = hub_id (NewHub epoch) n \<longrightarrow> cl_pos c = n))"

lemma leave_epoch: "h_epoch (leave_topics now i names h) = h_epoch h"
  by (induction names arbitrary: h) (auto split: option.split)

lemma touch_epoch: "h_epoch (touch_topics now names h) = h_epoch h"
  by (induction names arbitrary: h) auto

lemma Subscribe_start:
  assumes "distinct names" and "names \<noteq> []" and "Subscribe now lastID names h = (h', su)" and "\<not> su_stale su"
    and "CHR ''-'' \<notin> set (h_epoch h)" and "lastID = hub_id h n"
  shows "start_of h lastID su = n"
proof -
  obtain h3 missed stale where j: "join_topics now (length (h_subs h)) lastID (parse_id h lastID) names
      ((hub_sweep now h)\<lparr>h_subs := h_subs h @ [\<lparr>sb_ch = [], sb_closed = False, sb_topics = names\<rparr>]\<rparr>) [] False = (h3, missed, stale)"
    by (metis prod_cases3)
  have "\<not> stale" using assms(3,4) j by (auto simp: Subscribe_def Let_def)
  moreover have "lastID \<noteq> []" using assms(6) by (simp add: hub_id_def)
  moreover obtain m where "m \<in> set names" using assms(2) by (cases names) auto
  moreover have "stale \<longleftrightarrow> lastID \<noteq> [] \<and> (\<exists>m \<in> set names. case parse_id h lastID of None \<Rightarrow> True | Some n \<Rightarrow> n < tp_floor (get_topic
      ((hub_sweep now h)\<lparr>h_subs := h_subs h @ [\<lparr>sb_ch = [], sb_closed = False, sb_topics = names\<rparr>]\<rparr>) now m))"
    using join_topics_spec [OF j assms(1)] by blast
  ultimately have "parse_id h lastID \<noteq> None" by (cases "parse_id h lastID") auto
  then show ?thesis using parse_hub_id [OF assms(5), of n] assms(4,6) \<open>lastID \<noteq> []\<close> by (auto simp: start_of_def split: if_splits)
qed

lemma Subscribe_epoch: "distinct names \<Longrightarrow> Subscribe now lastID names h = (h', su) \<Longrightarrow> h_epoch h' = h_epoch h"
proof -
  assume d: "distinct names" and s: "Subscribe now lastID names h = (h', su)"
  obtain h3 missed stale where j: "join_topics now (length (h_subs h)) lastID (parse_id h lastID) names
      ((hub_sweep now h)\<lparr>h_subs := h_subs h @ [\<lparr>sb_ch = [], sb_closed = False, sb_topics = names\<rparr>]\<rparr>) [] False = (h3, missed, stale)"
    by (metis prod_cases3)
  then obtain T where "h3 = ((hub_sweep now h)\<lparr>h_subs := h_subs h @ [\<lparr>sb_ch = [], sb_closed = False, sb_topics = names\<rparr>]\<rparr>)\<lparr>h_topics := T\<rparr>"
    using join_topics_spec [OF j d] by blast
  with s j show ?thesis by (auto simp: Subscribe_def Let_def)
qed

lemma hub_id_epoch: "h_epoch h = epoch \<Longrightarrow> hub_id h n = hub_id (NewHub epoch) n"
  by (simp add: hub_id_def NewHub_def)

lemma Publish_epoch: "h_epoch (Publish now name ty data h) = h_epoch h"
  by (rule Publish_parts [of h now name ty data]) simp

interpretation starts: guarded hub_step "starts_ok epoch" hub_op_ok for epoch
proof unfold_locales
  fix w op assume ok: "hub_op_ok op" and w: "starts_ok epoch w"
  show "starts_ok epoch (hub_step w op)"
  proof (cases op)
    case (OPublish now name ty data)
    with w show ?thesis by (simp add: starts_ok_def Let_def Publish_epoch)
  next
    case (OSubscribe now lastID names)
    obtain h su where s: "Subscribe now lastID names (hw_hub w) = (h, su)" by fastforce
    have e: "h_epoch (hw_hub w) = epoch" "CHR ''-'' \<notin> set (h_epoch (hw_hub w))" using w by (auto simp: starts_ok_def)
    have "start_of (hw_hub w) lastID su = n" if "names \<noteq> []" "\<not> su_stale su" "lastID = hub_id (NewHub epoch) n" for n
      using Subscribe_start [OF _ that(1) s that(2) e(2)] ok OSubscribe that(3) hub_id_epoch [OF e(1)] by simp
    with OSubscribe ok w s Subscribe_epoch [OF _ s] show ?thesis by (auto simp: starts_ok_def)
  next
    case (OUnsubscribe now i)
    with w show ?thesis by (simp add: starts_ok_def Unsubscribe_def end_leave leave_epoch) (simp add: end_sub_def)
  next
    case (OPosition now names)
    with w show ?thesis by (simp add: starts_ok_def Position_def Let_def touch_epoch)
  next
    case (ORead i)
    have "x \<in> set (hw_clients w) \<or> (\<exists>c \<in> set (hw_clients w). \<exists>g. x = c\<lparr>cl_got := g\<rparr>)"
      if "x \<in> set ((hw_clients w)[i := (hw_clients w ! i)\<lparr>cl_got := g\<rparr>])" "i < length (hw_clients w)" for x g
      using that set_update_subset_insert [of "hw_clients w" i] nth_mem by blast
    with ORead w show ?thesis unfolding starts_ok_def
      by (auto simp: Let_def split: list.split) fastforce+
  qed
qed

lemma since_split:
  assumes "sorted_wrt (<) (map fst J)" and "(q, m, e) \<in> set J" and "m \<in> set names" and "p < q"
  shows "\<exists>A. since J names p = A @ e # since J names q"
proof -
  from assms(2) obtain J1 J2 where J: "J = J1 @ (q, m, e) # J2" by (meson split_list)
  with assms(1) have "\<forall>(x, _) \<in> set J1. x < q" "\<forall>(x, _) \<in> set J2. q < x" by (auto simp: sorted_wrt_append)
  then have "since J1 names q = []" "since J2 names q = since J2 names p"
    using assms(4) by (auto simp: since_def filter_empty_conv intro!: arg_cong [of _ _ "map _"] filter_cong)
  with assms(3,4) J show ?thesis by (auto simp: since_def)
qed

lemma since_distinct:
  assumes "journal_ok h J"
  shows "distinct (since J names n)"
proof -
  let ?K = "filter (\<lambda>(q, m, _). m \<in> set names \<and> n < q) J"
  have "distinct (map fst J)" using journal_sorted [OF assms] by (simp add: strict_sorted_iff)
  then have d: "distinct (map fst ?K)" by (rule distinct_map_filter)
  have "map ev_id (since J names n) = map (hub_id h) (map fst ?K)"
    using assms by (auto simp: since_def journal_ok_def)
  moreover have "distinct (map (hub_id h) (map fst ?K))" 
    by (rule distinct_map [THEN iffD2]) (use d in \<open>simp add: inj_on_def\<close>)
  ultimately show ?thesis by (metis distinct_map)
qed

lemma prefix_to_element:
  assumes "distinct L" and "prefix (xs @ [e]) L" and "L = A @ e # B"
  shows "xs = A"
proof -
  from assms(2) obtain C where "L = xs @ e # C" by (auto simp: prefix_def)
  with assms(1,3) show ?thesis by (metis append_Cons_eq_iff append_eq_append_conv_if distinct_append not_distinct_conv_prefix append_eq_append_conv2 Cons_eq_append_conv disjoint_insert(1) list.set(2) distinct.simps(2))
qed

lemma hub_ok_client:
  assumes "hub_ok w" and "i < length (hw_clients w)"
  obtains rest where "since (hw_journal w) (cl_names (hw_clients w ! i)) (cl_pos (hw_clients w ! i)) =
      su_missed (cl_sub (hw_clients w ! i)) @ cl_got (hw_clients w ! i) @ sb_ch (h_subs (hw_hub w) ! i) @ rest"
    "\<not> sb_closed (h_subs (hw_hub w) ! i) \<Longrightarrow> rest = []"
proof -
  have "client_ok (hw_journal w) (h_seq (hw_hub w)) (h_subs (hw_hub w) ! i) (hw_clients w ! i)"
    using assms by (simp add: hub_ok_def)
  then show thesis using that unfolding client_ok_def by metis
qed

subsection \<open>A client that reads, leaves and comes back\<close>

definition ex_hub_ops :: "hub_op list" where
  "ex_hub_ops = [OSubscribe 0 [] [''s''], OPublish 1 ''s'' ''m'' ''1'', OPublish 2 ''s'' ''m'' ''2'', ORead 0, OUnsubscribe 3 0,
     OPublish 4 ''s'' ''m'' ''3'', OPublish 5 ''t'' ''m'' ''4'', OSubscribe 6 ''e-1'' [''s'']]"

abbreviation ex_hub :: hub_world where
  "ex_hub \<equiv> foldl hub_step (new_world ''e'') ex_hub_ops"

lemma ex_hub_clients:
  "map (\<lambda>c. map ev_data (su_missed (cl_sub c) @ cl_got c)) (hw_clients ex_hub) = [[''1''], [''2'', ''3'']]"
  "map cl_last (hw_clients ex_hub) = [[], ''e-1'']" "map cl_names (hw_clients ex_hub) = [[''s''], [''s'']]"
  "map (su_stale \<circ> cl_sub) (hw_clients ex_hub) = [False, False]"
  "su_missed (cl_sub (hw_clients ex_hub ! 0)) @ cl_got (hw_clients ex_hub ! 0) = [\<lparr>ev_id = ''e-1'', ev_type = ''m'', ev_data = ''1''\<rparr>]"
  "map ev_data (since (hw_journal ex_hub) [''s''] 0) = [''1'', ''2'', ''3'']" "cl_pos (hw_clients ex_hub ! 0) = 0"
  by code_simp+

section \<open>Properties\<close>

text \<open>C16: The hub implements the journal of its events: whatever is published, subscribed, left, rendered and read, in any
  order and at any times, what a client was sent at its start, what it read and what waits in its channel are, in order and
  each once, the events of its topics after the one it started from; all of them as long as its channel is open, a first part
  of them once it was dropped for being slow or left. No event is lost or sent twice on the way.\<close>

theorem hub_implements_journal:
  assumes "list_all hub_op_ok ops" and "i < length (hw_clients (foldl hub_step (new_world epoch) ops))"
  shows "let w = foldl hub_step (new_world epoch) ops; c = hw_clients w ! i; s = h_subs (hw_hub w) ! i;
             sent = su_missed (cl_sub c) @ cl_got c @ sb_ch s
         in prefix sent (since (hw_journal w) (cl_names c) (cl_pos c))
            \<and> (\<not> sb_closed s \<longrightarrow> sent = since (hw_journal w) (cl_names c) (cl_pos c))"
proof -
  have "hub_ok (foldl hub_step (new_world epoch) ops)" by (rule hub_runs.run_guarded [OF assms(1) hub_ok_new])
  then show ?thesis by (rule hub_ok_client [OF _ assms(2)]) (auto simp: Let_def)
qed

theorem hub_implements_journal_witness:
  "let c = hw_clients ex_hub ! 1; s = h_subs (hw_hub ex_hub) ! 1; sent = su_missed (cl_sub c) @ cl_got c @ sb_ch s
   in prefix sent (since (hw_journal ex_hub) (cl_names c) (cl_pos c))
      \<and> (\<not> sb_closed s \<longrightarrow> sent = since (hw_journal ex_hub) (cl_names c) (cl_pos c))"
proof -
  have "list_all hub_op_ok ex_hub_ops" by code_simp
  moreover have "1 < length (hw_clients ex_hub)" using arg_cong [OF ex_hub_clients(2), of length] by simp
  ultimately show ?thesis using hub_implements_journal [of ex_hub_ops 1 "''e''"] by (simp add: Let_def)
qed

text \<open>C17: A client that comes back with the ID of the last event it got, and is not told to reload, goes on exactly where it
  was: what its two streams gave it, one after the other, is a first part of the events of its topics after its start,
  with none missing, none twice, in the order they were published.\<close>

theorem reconnection_misses_nothing:
  assumes "list_all hub_op_ok ops" and "CHR ''-'' \<notin> set epoch"
  defines "w \<equiv> foldl hub_step (new_world epoch) ops"
  assumes "i < length (hw_clients w)" and "k < length (hw_clients w)"
  defines "c \<equiv> hw_clients w ! i" and "c' \<equiv> hw_clients w ! k"
  assumes "cl_names c' = cl_names c" and "cl_names c \<noteq> []" and "\<not> su_stale (cl_sub c')"
    and "su_missed (cl_sub c) @ cl_got c = xs @ [e]" and "cl_last c' = ev_id e"
  shows "prefix ((su_missed (cl_sub c) @ cl_got c) @ su_missed (cl_sub c') @ cl_got c')
           (since (hw_journal w) (cl_names c) (cl_pos c))"
proof -
  let ?J = "hw_journal w" and ?N = "cl_names c"
  have ok: "hub_ok w" unfolding w_def by (rule hub_runs.run_guarded [OF assms(1) hub_ok_new])
  have "starts_ok epoch (new_world epoch)" using assms(2) by (simp add: starts_ok_def new_world_def NewHub_def)
  then have st: "starts_ok epoch w" unfolding w_def by (rule starts.run_guarded [OF assms(1)])
  have J: "journal_ok (hw_hub w) ?J" using ok by (simp add: hub_ok_def)
  have pre: "prefix (xs @ [e]) (since ?J ?N (cl_pos c))"
    by (rule hub_ok_client [OF ok assms(4)]) (simp add: c_def [symmetric] assms(11) [symmetric])
  then have "e \<in> set (since ?J ?N (cl_pos c))" using set_mono_prefix by fastforce
  then obtain q m where q: "(q, m, e) \<in> set ?J" "m \<in> set ?N" "cl_pos c < q" by (auto simp: since_def)
  then have "ev_id e = hub_id (hw_hub w) q" using J by (auto simp: journal_ok_def)
  moreover have "c' \<in> set (hw_clients w)" using assms(5) by (simp add: c'_def)
  ultimately have pos: "cl_pos c' = q"
    using st assms(8-10,12) hub_id_epoch [of "hw_hub w" epoch] by (auto simp: starts_ok_def)
  obtain A where A: "since ?J ?N (cl_pos c) = A @ e # since ?J ?N q" using since_split [OF journal_sorted [OF J] q] by blast
  have "xs = A" by (rule prefix_to_element [OF since_distinct [OF J] pre A])
  moreover have "prefix (su_missed (cl_sub c') @ cl_got c') (since ?J ?N q)"
    by (rule hub_ok_client [OF ok assms(5)]) (simp add: c'_def [symmetric] assms(8) pos)
  ultimately show ?thesis using A assms(11) by simp
qed

theorem reconnection_misses_nothing_witness:
  "prefix ((su_missed (cl_sub (hw_clients ex_hub ! 0)) @ cl_got (hw_clients ex_hub ! 0))
       @ su_missed (cl_sub (hw_clients ex_hub ! 1)) @ cl_got (hw_clients ex_hub ! 1)) (since (hw_journal ex_hub) [''s''] 0)
   \<and> map (\<lambda>c. map ev_data (su_missed (cl_sub c) @ cl_got c)) (hw_clients ex_hub) = [[''1''], [''2'', ''3'']]"
proof -
  have len: "length (hw_clients ex_hub) = 2" using arg_cong [OF ex_hub_clients(2), of length] by simp
  have nth: "f (hw_clients ex_hub ! 0) = map f (hw_clients ex_hub) ! 0" "f (hw_clients ex_hub ! 1) = map f (hw_clients ex_hub) ! 1" for f :: "client \<Rightarrow> 'a"
    using len by (simp_all)
  have c0: "cl_names (hw_clients ex_hub ! 0) = [''s'']" using nth(1) [of cl_names] ex_hub_clients(3) by simp
  have c1: "cl_names (hw_clients ex_hub ! 1) = [''s'']" "cl_last (hw_clients ex_hub ! 1) = ''e-1''" "\<not> su_stale (cl_sub (hw_clients ex_hub ! 1))"
    using nth(2) [of cl_names] nth(2) [of cl_last] nth(2) [of "su_stale \<circ> cl_sub"] ex_hub_clients(2-4) by simp_all
  have "list_all hub_op_ok ex_hub_ops" by code_simp
  from reconnection_misses_nothing [of ex_hub_ops "''e''" 0 1 "[]" "\<lparr>ev_id = ''e-1'', ev_type = ''m'', ev_data = ''1''\<rparr>", OF this] len c0 c1 ex_hub_clients
  show ?thesis by simp
qed

end
