(* ===== verification/Convert.thy ===== *)
theory Convert
  imports AgentTools
begin

section \<open>What a model reads of a conversation\<close>

text \<open>
  \<open>conversation/convert.go\<close>: the stored messages, in the order of \<open>ConvOrder\<close>, as the model of one agent reads them. Its
  own messages keep their tool blocks; another agent's turn, a background task's end and the messages of people are text.
  Go's \<open>time.Format\<close> of a UTC time is written out (\<open>utc_minute\<close>), on the proleptic Gregorian calendar.
\<close>

record view =
  v_self :: string
  v_user :: string
  v_agents :: "string \<rightharpoonup> label"
  v_private :: "(string \<Rightarrow> bool) option"

record chat_message =
  cm_role :: role
  cm_content :: json
  cm_calls :: "tool_call list"
  cm_result :: "tool_result option"

abbreviation nl :: string where "nl \<equiv> [CHR 0x0A]"

definition maxOtherToolInputBytes :: nat where "maxOtherToolInputBytes = 500"
definition maxOtherToolResultBytes :: nat where "maxOtherToolResultBytes = 1500"

definition other :: "view \<Rightarrow> message \<Rightarrow> bool" where
  "other v m = (m_role m = RoleAssistant \<and> m_agent m \<noteq> [] \<and> m_agent m \<noteq> v_self v)"

definition label_of :: "view \<Rightarrow> message \<Rightarrow> string" where
  "label_of v m =
     (case v_agents v (m_agent m) of
        Some a \<Rightarrow> AgentLabel (lb_name a) (lb_mention a)
      | None \<Rightarrow> AgentLabel (cmp_or (m_author m) (m_agent m)) [])"

definition agentLabel :: "view \<Rightarrow> string \<Rightarrow> string" where
  "agentLabel v i = (case v_agents v i of Some a \<Rightarrow> AgentLabel (lb_name a) (lb_mention a) | None \<Rightarrow> AgentLabel i [])"

definition privateInput :: "view \<Rightarrow> string \<Rightarrow> bool" where
  "privateInput v toolName = (case v_private v of None \<Rightarrow> False | Some p \<Rightarrow> p toolName)"

definition forAnotherUser :: "view \<Rightarrow> message \<Rightarrow> bool" where
  "forAnotherUser v m = (m_role m = RoleAssistant \<and> \<not> other v m \<and> m_user m \<noteq> [] \<and> m_user m \<noteq> v_user v)"

text \<open>\<open>messageText\<close>: a JSON string, or the raw content for anything else.\<close>

fun messageText :: "json \<Rightarrow> string" where
  "messageText JAbsent = []"
| "messageText JNull = []"
| "messageText (JStr s) = s"
| "messageText (JOther raw) = raw"

definition Clip :: "string \<Rightarrow> nat \<Rightarrow> string" where
  "Clip s n = (if length s \<le> n then s else take (back_up s n) s @ ellipsis)"

subsection \<open>Text for the model\<close>

definition otherTurn :: "view \<Rightarrow> message \<Rightarrow> string" where
  "otherTurn v m =
     (let who = label_of v m;
          words = (if messageText (m_content m) \<noteq> [] then [''['' @ who @ ''] '' @ messageText (m_content m)] else []);
          calls = map (\<lambda>tc. ''['' @ who @ '' called '' @ tc_name tc @ '' ''
                    @ Clip (cmp_or (DisplayInput (privateInput v (tc_name tc)) (tc_input tc)) [CHR 0x7B, CHR 0x7D]) maxOtherToolInputBytes @ '']'') (m_calls m)
      in join nl (words @ calls))"

text \<open>A call another agent made: its tool and that agent's label.\<close>

type_synonym other_call = "string \<times> string"

definition otherResult :: "other_call \<Rightarrow> tool_result \<Rightarrow> bool \<Rightarrow> string" where
  "otherResult call r private =
     ''['' @ (if tr_error r then ''error from'' else ''result of'') @ '' '' @ fst call @ '', called by '' @ snd call @ ''] ''
     @ Clip (DisplayResult private (tr_content r)) maxOtherToolResultBytes"

text \<open>The civil date of a day, from 1970-01-01, and a time in UTC to the minute.\<close>

definition civil :: "int \<Rightarrow> int \<times> int \<times> int" where
  "civil days =
     (let z = days + 719468; era = z div 146097; doe = z mod 146097;
          yoe = (doe - doe div 1460 + doe div 36524 - doe div 146096) div 365;
          doy = doe - (365 * yoe + yoe div 4 - yoe div 100);
          mp = (5 * doy + 2) div 153;
          month = (if mp < 10 then mp + 3 else mp - 9)
      in (yoe + era * 400 + (if month \<le> 2 then 1 else 0), month, doy - (153 * mp + 2) div 5 + 1))"

definition pad :: "nat \<Rightarrow> int \<Rightarrow> string" where
  "pad n i = (let s = dec_int i in replicate (n - length s) (CHR ''0'') @ s)"

definition utc_minute :: "time \<Rightarrow> string" where
  "utc_minute t =
     (let secs = t div 1000000000; (y, m, d) = civil (secs div 86400); s = secs mod 86400
      in pad 4 y @ ''-'' @ pad 2 m @ ''-'' @ pad 2 d @ '' '' @ pad 2 (s div 3600) @ '':'' @ pad 2 (s mod 3600 div 60) @ '' UTC'')"

text \<open>\<open>d.Round(time.Minute)\<close>, in minutes.\<close>

definition rounded_minutes :: "duration \<Rightarrow> int" where
  "rounded_minutes d = (if 2 * (d mod 60000000000) < 60000000000 then d div 60000000000 else d div 60000000000 + 1)"

definition taskOutcome :: "task_ref \<Rightarrow> string" where
  "taskOutcome t =
     (let after = (case (ref_started t, ref_ended t) of
                     (Some s, Some e) \<Rightarrow>
                       if s < e then
                         if e - s < 60000000000 then '' after '' @ dec_int ((e - s) div 1000000000) @ '' s''
                         else '' after '' @ dec_int (rounded_minutes (e - s)) @ '' min''
                       else []
                   | _ \<Rightarrow> [])
      in case ref_state t of
           BackgroundFailed \<Rightarrow> ''failed'' @ after
         | BackgroundCancelled \<Rightarrow> ''cancelled by '' @ cmp_or (ref_cancelled_by t) ''a member'' @ after @ '': it was not finished''
         | _ \<Rightarrow> ''done'' @ after)"

definition empty_ref :: task_ref where
  "empty_ref = \<lparr>ref_id = [], ref_tool = [], ref_summary = [], ref_turn = [], ref_call = [], ref_state = BackgroundDone,
     ref_requested_by = [], ref_started = None, ref_ended = None, ref_cancelled_by = [], ref_follow_ups = [], ref_file = None\<rparr>"

definition taskResult :: "view \<Rightarrow> message \<Rightarrow> string" where
  "taskResult v m =
     (let t = (case m_task m of None \<Rightarrow> empty_ref | Some t \<Rightarrow> t);
          mine = (m_agent m = [] \<or> m_agent m = v_self v);
          who = (if mine then ''you'' else agentLabel v (m_agent m));
          body = (if mine then messageText (m_content m) else Clip (messageText (m_content m)) maxOtherToolResultBytes)
      in ''[Task result: '' @ cmp_or (ref_tool t) ''a tool''
         @ (if ref_summary t \<noteq> [] then '' ('' @ ref_summary t @ '')'' else [])
         @ '', a background task '' @ who @ '' started''
         @ (if ref_requested_by t \<noteq> [] then '' for '' @ ref_requested_by t else [])
         @ (case ref_started t of None \<Rightarrow> [] | Some s \<Rightarrow> '' at '' @ utc_minute s)
         @ '', '' @ taskOutcome t @ ''. Not a message from a person.]''
         @ (if mine \<and> ref_follow_ups t \<noteq> []
            then nl @ ''Instructions to apply now, attached while it ran:''
                 @ concat (map (\<lambda>f. nl @ ''- '' @ (if fu_user_name f \<noteq> [] then ''('' @ fu_user_name f @ '') '' else []) @ fu_text f)
                     (ref_follow_ups t))
            else [])
         @ (if body \<noteq> [] then nl @ body else [])
         @ (case ref_file t of
              Some f \<Rightarrow> if mine then nl @ ''[The whole result ('' @ dec_int (tf_size f) @ '' bytes) is the file '' @ tf_name f @ '' (id ''
                                    @ tf_id f @ ''), published in this session: above is its start.]'' else []
            | None \<Rightarrow> []))"

definition plainUserText :: "chat_message \<Rightarrow> string option" where
  "plainUserText cm =
     (if cm_role cm \<noteq> RoleUser \<or> cm_result cm \<noteq> None \<or> cm_calls cm \<noteq> [] then None else json_text (cm_content cm))"

definition user_message :: "string \<Rightarrow> chat_message" where
  "user_message s = \<lparr>cm_role = RoleUser, cm_content = json_marshal s, cm_calls = [], cm_result = None\<rparr>"

definition appendUserText :: "chat_message list \<Rightarrow> string \<Rightarrow> chat_message list" where
  "appendUserText result s =
     (if s = [] then result
      else case (if result = [] then None else plainUserText (last result)) of
             Some prev \<Rightarrow> butlast result @ [user_message (prev @ nl @ nl @ s)]
           | None \<Rightarrow> result @ [user_message s])"

definition asForkContext :: "json \<Rightarrow> json" where
  "asForkContext content =
     (case json_text content of
        None \<Rightarrow> content
      | Some s \<Rightarrow> json_marshal (''[Context carried over from an earlier conversation this one was forked from. A summary, not a ''
     @ ''message from the user.]'' @ [CHR 0x0A, CHR 0x0A] @ s))"

definition asForkReport :: "json \<Rightarrow> message \<Rightarrow> json" where
  "asForkReport content m =
     (case json_text content of
        None \<Rightarrow> content
      | Some s \<Rightarrow>
          let title = (case m_fork m of None \<Rightarrow> ''untitled'' | Some f \<Rightarrow> if fr_title f \<noteq> [] then fr_title f else ''untitled'')
          in json_marshal (''[Report from fork '' @ [CHR 0xC2, CHR 0xAB] @ '' '' @ title @ '' '' @ [CHR 0xC2, CHR 0xBB] @ '' by '' @ cmp_or (m_author m) ''a member''
               @ ''. A summary of the work done in that forked conversation, posted here for the record; not a ''
     @ ''request to you.]'' @ [CHR 0x0A, CHR 0x0A] @ s))"

definition withAuthor :: "json \<Rightarrow> string \<Rightarrow> json" where
  "withAuthor content author =
     (case json_text content of
        None \<Rightarrow> content
      | Some s \<Rightarrow> if s = [] then content else json_marshal (''['' @ author @ ''] '' @ s))"

subsection \<open>Convert\<close>

text \<open>The maps of its first pass: the calls of others (the last one under an ID), those hidden, and those made.\<close>

definition other_calls :: "view \<Rightarrow> message list \<Rightarrow> (string \<times> other_call) list" where
  "other_calls v ms = concat (map (\<lambda>m. if other v m then map (\<lambda>tc. (tc_id tc, (tc_name tc, label_of v m))) (m_calls m) else []) ms)"

definition others :: "view \<Rightarrow> message list \<Rightarrow> string \<rightharpoonup> other_call" where
  "others v ms = map_of (rev (other_calls v ms))"

definition hidden :: "view \<Rightarrow> message list \<Rightarrow> string \<Rightarrow> bool" where
  "hidden v ms i = list_ex (\<lambda>m. forAnotherUser v m \<and> list_ex (\<lambda>tc. tc_id tc = i \<and> privateInput v (tc_name tc)) (m_calls m)) ms"

definition called :: "message list \<Rightarrow> string \<Rightarrow> bool" where
  "called ms i = list_ex (\<lambda>m. list_ex (\<lambda>tc. tc_id tc = i) (m_calls m)) ms"

text \<open>A message kept with its blocks.\<close>

definition own_message :: "view \<Rightarrow> message list \<Rightarrow> message \<Rightarrow> chat_message" where
  "own_message v ms m =
     \<lparr>cm_role = m_role m,
      cm_content = (if m_kind m = KindForkSummary then asForkContext (m_content m)
                    else if m_kind m = KindForkReport then asForkReport (m_content m) m
                    else if m_role m = RoleUser \<and> m_author m \<noteq> [] then withAuthor (m_content m) (m_author m)
                    else m_content m),
      cm_calls = map (\<lambda>tc. tc\<lparr>tc_input := DisplayInput (hidden v ms (tc_id tc)) (tc_input tc)\<rparr>) (m_calls m),
      cm_result = map_option (\<lambda>r. r\<lparr>tr_content := DisplayResult (hidden v ms (tr_call r) \<or> \<not> called ms (tr_call r)) (tr_content r)\<rparr>) (m_result m)\<rparr>"

text \<open>The text of a message that is read as text, if it is.\<close>

definition as_text :: "view \<Rightarrow> message list \<Rightarrow> message \<Rightarrow> string option" where
  "as_text v ms m =
     (if m_kind m = KindTaskResult then Some (taskResult v m)
      else if other v m then Some (otherTurn v m)
      else case m_result m of
             Some r \<Rightarrow> (case others v ms (tr_call r) of Some call \<Rightarrow> Some (otherResult call r (privateInput v (fst call))) | None \<Rightarrow> None)
           | None \<Rightarrow> None)"

definition convert_step :: "view \<Rightarrow> message list \<Rightarrow> chat_message list \<Rightarrow> message \<Rightarrow> chat_message list" where
  "convert_step v ms result m =
     (if m_kind m = KindTurnEnd then result
      else case as_text v ms m of
             Some s \<Rightarrow> appendUserText result s
           | None \<Rightarrow>
               let cm = own_message v ms m
               in case plainUserText cm of Some s \<Rightarrow> appendUserText result s | None \<Rightarrow> result @ [cm])"

definition Convert :: "message list \<Rightarrow> view \<Rightarrow> chat_message list" where
  "Convert ms v = foldl (convert_step v ms) [] ms"

subsection \<open>The messages built\<close>

lemma plain_user_message [simp]: "plainUserText (user_message s) = Some (to_valid s)"
  by (simp add: plainUserText_def user_message_def json_marshal_def)

definition blocks :: "chat_message list \<Rightarrow> chat_message list" where
  "blocks out = filter (\<lambda>cm. plainUserText cm = None) out"

text \<open>No text is empty, and no text follows another.\<close>

definition texts_ok :: "chat_message list \<Rightarrow> bool" where
  "texts_ok out \<longleftrightarrow> successively (\<lambda>a b. plainUserText a = None \<or> plainUserText b = None) out \<and> (\<forall>cm \<in> set out. plainUserText cm \<noteq> Some [])"

lemma appendUserText_cases:
  obtains "s = []" "appendUserText out s = out"
  | "s \<noteq> []" "out = [] \<or> plainUserText (last out) = None" "appendUserText out s = out @ [user_message s]"
  | prev where "s \<noteq> []" "out \<noteq> []" "plainUserText (last out) = Some prev"
      "appendUserText out s = butlast out @ [user_message (prev @ nl @ nl @ s)]"
  by (cases "s = []"; cases "out = []"; cases "plainUserText (last out)") (auto simp: appendUserText_def)

lemma blocks_appendUserText [simp]: "blocks (appendUserText out s) = blocks out"
proof (cases rule: appendUserText_cases [of s out])
  case (3 prev)
  have "blocks out = blocks (butlast out @ [last out])" using 3(2) by simp
  also have "\<dots> = blocks (butlast out)" using 3(3) by (simp add: blocks_def)
  finally show ?thesis using 3(4) by (simp add: blocks_def)
qed (simp_all add: blocks_def)

lemma texts_ok_snoc: "texts_ok (out @ [cm]) \<longleftrightarrow> texts_ok out \<and> plainUserText cm \<noteq> Some []
    \<and> (out = [] \<or> plainUserText (last out) = None \<or> plainUserText cm = None)"
  by (auto simp: texts_ok_def successively_append_iff)

lemma texts_ok_appendUserText [simp]: "texts_ok out \<Longrightarrow> texts_ok (appendUserText out s)"
proof (cases rule: appendUserText_cases [of s out])
  case (3 prev)
  assume "texts_ok out"
  then have "texts_ok (butlast out @ [last out])" using 3(2) by simp
  from this [unfolded texts_ok_snoc] 3(3) have "texts_ok (butlast out)" "butlast out = [] \<or> plainUserText (last (butlast out)) = None"
    by auto
  then show ?thesis unfolding 3(4) texts_ok_snoc by auto
qed (auto simp: texts_ok_snoc)

definition kept_whole :: "view \<Rightarrow> message list \<Rightarrow> message \<Rightarrow> bool" where
  "kept_whole v ms m \<longleftrightarrow> m_kind m \<noteq> KindTurnEnd \<and> as_text v ms m = None \<and> plainUserText (own_message v ms m) = None"

lemma blocks_step: "blocks (convert_step v ms out m) = blocks out @ (if kept_whole v ms m then [own_message v ms m] else [])"
  by (auto simp: convert_step_def kept_whole_def Let_def blocks_def [of "out @ _"] split: option.split) (simp_all add: blocks_def)

lemma texts_ok_step: "texts_ok out \<Longrightarrow> texts_ok (convert_step v ms out m)"
  by (auto simp: convert_step_def Let_def texts_ok_snoc split: option.split)

lemma convert_fold:
  "texts_ok out \<Longrightarrow> texts_ok (foldl (convert_step v ms) out xs)
     \<and> blocks (foldl (convert_step v ms) out xs) = blocks out @ map (own_message v ms) (filter (kept_whole v ms) xs)"
proof (induction xs arbitrary: out)
  case (Cons m xs)
  from Cons.IH [OF texts_ok_step [OF Cons.prems]] show ?case by (simp add: blocks_step)
qed simp

subsection \<open>What is private to others\<close>

definition private_call :: "view \<Rightarrow> message \<Rightarrow> tool_call \<Rightarrow> bool" where
  "private_call v m tc = (privateInput v (tc_name tc) \<and> (other v m \<or> forAnotherUser v m))"

definition private_result :: "view \<Rightarrow> message list \<Rightarrow> tool_result \<Rightarrow> bool" where
  "private_result v ms r =
     (\<not> called ms (tr_call r) \<or> list_ex (\<lambda>m. list_ex (\<lambda>tc. tc_id tc = tr_call r \<and> private_call v m tc) (m_calls m)) ms)"

text \<open>The conversation without the input of these calls and the content of their results.\<close>

definition redact_message :: "view \<Rightarrow> message list \<Rightarrow> message \<Rightarrow> message" where
  "redact_message v ms m =
     m\<lparr>m_calls := map (\<lambda>tc. if private_call v m tc then tc\<lparr>tc_input := []\<rparr> else tc) (m_calls m),
       m_result := map_option (\<lambda>r. if private_result v ms r then r\<lparr>tr_content := []\<rparr> else r) (m_result m)\<rparr>"

definition redact :: "view \<Rightarrow> message list \<Rightarrow> message list" where
  "redact v ms = map (redact_message v ms) ms"

definition call_ids :: "message list \<Rightarrow> string list" where
  "call_ids ms = map tc_id (concat (map m_calls ms))"

lemma redact_fields [simp]:
  "m_role (redact_message v ms m) = m_role m" "m_agent (redact_message v ms m) = m_agent m" "m_user (redact_message v ms m) = m_user m"
  "m_author (redact_message v ms m) = m_author m" "m_kind (redact_message v ms m) = m_kind m" "m_task (redact_message v ms m) = m_task m"
  "m_content (redact_message v ms m) = m_content m" "m_fork (redact_message v ms m) = m_fork m"
  by (simp_all add: redact_message_def)

lemma redact_message_simps [simp]:
  "other v (redact_message v ms m) = other v m" "label_of v (redact_message v ms m) = label_of v m"
  "taskResult v (redact_message v ms m) = taskResult v m" "asForkReport c (redact_message v ms m) = asForkReport c m"
  unfolding other_def label_of_def taskResult_def asForkReport_def redact_fields by (rule refl)+

lemma redact_user [simp]: "forAnotherUser v (redact_message v ms m) = forAnotherUser v m"
  by (simp add: forAnotherUser_def)

lemma list_ex_mapped: "list_ex P (map f xs) = list_ex (\<lambda>x. P (f x)) xs"
  by (induction xs) auto

lemma redact_maps [simp]: "others v (redact v ms) = others v ms" "hidden v (redact v ms) = hidden v ms" "called (redact v ms) = called ms"
proof -
  have ex: "list_ex (\<lambda>tc. P (tc_id tc) (tc_name tc)) (m_calls (redact_message v ms m)) = list_ex (\<lambda>tc. P (tc_id tc) (tc_name tc)) (m_calls m)" for P m
    by (simp add: redact_message_def list_ex_mapped if_distrib [of tc_id] if_distrib [of tc_name] cong: if_cong)
  have mp: "map (\<lambda>tc. (tc_id tc, tc_name tc, x)) (m_calls (redact_message v ms m)) = map (\<lambda>tc. (tc_id tc, tc_name tc, x)) (m_calls m)" for x m
    by (simp add: redact_message_def)
  show "others v (redact v ms) = others v ms"
    by (simp add: others_def other_calls_def redact_def comp_def mp cong: map_cong if_cong)
  show "hidden v (redact v ms) = hidden v ms"
    using ex [of "\<lambda>i n. i = _ \<and> privateInput v n"] by (simp add: hidden_def redact_def fun_eq_iff list_ex_mapped)
  show "called (redact v ms) = called ms"
    using ex [of "\<lambda>i n. i = _"] by (simp add: called_def redact_def fun_eq_iff list_ex_mapped)
qed

lemma call_ids_unique:
  assumes "distinct (call_ids ms)" and "m \<in> set ms" "tc \<in> set (m_calls m)" and "m' \<in> set ms" "tc' \<in> set (m_calls m')" and "tc_id tc = tc_id tc'"
  shows "tc = tc'"
proof -
  have "distinct (map tc_id (concat (map m_calls ms)))" using assms(1) by (simp add: call_ids_def)
  then have "inj_on tc_id (set (concat (map m_calls ms)))" by (simp only: distinct_map)
  then show ?thesis using assms(2-6) by (auto dest: inj_onD)
qed

lemma others_Some:
  assumes "distinct (call_ids ms)" and "others v ms i = Some call"
  obtains m tc where "m \<in> set ms" "tc \<in> set (m_calls m)" "tc_id tc = i" "tc_name tc = fst call" "other v m"
proof -
  from assms(2) have "(i, call) \<in> set (other_calls v ms)" unfolding others_def by (metis map_of_SomeD set_rev)
  then show thesis using that by (auto simp: other_calls_def split: if_splits)
qed

lemma others_None: "others v ms i = None \<Longrightarrow> m \<in> set ms \<Longrightarrow> tc \<in> set (m_calls m) \<Longrightarrow> tc_id tc = i \<Longrightarrow> \<not> other v m"
  by (force simp: others_def map_of_eq_None_iff other_calls_def)

lemma redact_otherTurn: "otherTurn v (redact_message v ms m) = otherTurn v m" if "other v m"
proof -
  have "map (\<lambda>tc. ''['' @ w @ '' called '' @ tc_name tc @ '' '' @ Clip (cmp_or (DisplayInput (privateInput v (tc_name tc)) (tc_input tc)) z) n @ '']'')
        (m_calls (redact_message v ms m)) =
      map (\<lambda>tc. ''['' @ w @ '' called '' @ tc_name tc @ '' '' @ Clip (cmp_or (DisplayInput (privateInput v (tc_name tc)) (tc_input tc)) z) n @ '']'')
        (m_calls m)" for w z n
    using that by (simp add: redact_message_def private_call_def DisplayInput_def)
  then show ?thesis by (simp only: otherTurn_def redact_message_simps redact_fields)
qed

lemma redact_as_text:
  assumes "distinct (call_ids ms)" and "m \<in> set ms"
  shows "as_text v ms (redact_message v ms m) = as_text v ms m"
proof (cases "m_kind m = KindTaskResult \<or> other v m \<or> m_result m = None")
  case True
  then show ?thesis using redact_otherTurn by (auto simp: as_text_def) (auto simp: redact_message_def)
next
  case False
  then obtain r where r: "m_result m = Some r" by auto
  let ?r = "if private_result v ms r then r\<lparr>tr_content := []\<rparr> else r"
  have R: "m_result (redact_message v ms m) = Some ?r" by (simp add: redact_message_def r)
  show ?thesis
  proof (cases "others v ms (tr_call r)")
    case None
    with False r R show ?thesis by (simp add: as_text_def)
  next
    case (Some call)
    from others_Some [OF assms(1) Some] obtain m0 tc0 where c: "m0 \<in> set ms" "tc0 \<in> set (m_calls m0)" "tc_id tc0 = tr_call r"
      "tc_name tc0 = fst call" "other v m0" by blast
    have "privateInput v (fst call)" if "private_result v ms r"
    proof -
      have "called ms (tr_call r)" using c by (auto simp: called_def list_ex_iff)
      with that obtain m1 tc1 where d: "m1 \<in> set ms" "tc1 \<in> set (m_calls m1)" "tc_id tc1 = tr_call r" "private_call v m1 tc1"
        by (auto simp: private_result_def list_ex_iff)
      have "tc1 = tc0" by (rule call_ids_unique [OF assms(1) d(1,2) c(1,2)]) (use d c in simp)
      with d(4) c(4) show ?thesis by (simp add: private_call_def)
    qed
    then have "otherResult call ?r (privateInput v (fst call)) = otherResult call r (privateInput v (fst call))"
      by (simp add: otherResult_def DisplayResult_def)
    with False r R Some show ?thesis by (cases "private_result v ms r") (simp_all add: as_text_def)
  qed
qed

lemma redact_own_message:
  assumes "m \<in> set ms" and "as_text v ms m = None"
  shows "own_message v ms (redact_message v ms m) = own_message v ms m"
proof -
  have o: "\<not> other v m" using assms(2) by (auto simp: as_text_def split: if_splits)
  have "hidden v ms (tc_id tc)" if "tc \<in> set (m_calls m)" "private_call v m tc" for tc
    using that assms(1) o by (auto simp: hidden_def private_call_def list_ex_iff)
  then have calls: "map (\<lambda>tc. tc\<lparr>tc_input := DisplayInput (hidden v ms (tc_id tc)) (tc_input tc)\<rparr>) (m_calls (redact_message v ms m)) =
      map (\<lambda>tc. tc\<lparr>tc_input := DisplayInput (hidden v ms (tc_id tc)) (tc_input tc)\<rparr>) (m_calls m)"
    by (simp add: redact_message_def DisplayInput_def)
  have "hidden v ms (tr_call r) \<or> \<not> called ms (tr_call r)" if r: "m_result m = Some r" "private_result v ms r" for r
  proof -
    have "others v ms (tr_call r) = None" using assms(2) r(1) by (auto simp: as_text_def split: if_splits option.splits)
    then show ?thesis using r(2) others_None [of v ms "tr_call r"]
      by (auto simp: private_result_def private_call_def hidden_def list_ex_iff)
  qed
  then have "map_option (\<lambda>r. r\<lparr>tr_content := DisplayResult (hidden v ms (tr_call r) \<or> \<not> called ms (tr_call r)) (tr_content r)\<rparr>)
        (m_result (redact_message v ms m)) =
      map_option (\<lambda>r. r\<lparr>tr_content := DisplayResult (hidden v ms (tr_call r) \<or> \<not> called ms (tr_call r)) (tr_content r)\<rparr>) (m_result m)"
    by (cases "m_result m") (auto simp: redact_message_def DisplayResult_def)
  with calls show ?thesis by (simp only: own_message_def redact_fields redact_message_simps)
qed

lemma own_message_maps: "own_message v (redact v ms) = own_message v ms" "as_text v (redact v ms) = as_text v ms"
  by (rule ext, simp only: own_message_def as_text_def redact_maps)+

subsection \<open>An answer to Bob after one to Alice\<close>

definition ex_view :: view where
  "ex_view = \<lparr>v_self = ''jarvis'', v_user = ''bob'', v_agents = Map.empty, v_private = Some (\<lambda>n. n = ''memory'')\<rparr>"

definition ex_memory :: "string \<Rightarrow> message list" where
  "ex_memory secret =
     [(empty_message RoleAssistant)\<lparr>m_agent := ''jarvis'', m_user := ''alice'',
        m_calls := [\<lparr>tc_id = ''c1'', tc_name = ''memory'', tc_input = secret\<rparr>]\<rparr>,
      (empty_message RoleTool)\<lparr>m_result := Some \<lparr>tr_call = ''c1'', tr_content = secret, tr_error = False\<rparr>\<rparr>]"

section \<open>Properties\<close>

text \<open>C14: What another agent's private calls were given and returned, what the agent's own private calls for another user
  were, and a result whose call is nowhere, are not in what its model reads: the model reads the same of the conversation
  from which these inputs and these results were erased. What an agent saved of one member's memory does not reach its answer
  to another.\<close>

theorem private_calls_not_read:
  assumes "distinct (call_ids ms)"
  shows "Convert (redact v ms) v = Convert ms v"
proof -
  have "convert_step v (redact v ms) out (redact_message v ms m) = convert_step v ms out m" if "m \<in> set ms" for out m
    using redact_as_text [OF assms that, of v] redact_own_message [OF that, of v]
    by (cases "as_text v ms m") (simp_all add: convert_step_def own_message_maps Let_def)
  then have "foldl (\<lambda>out m. convert_step v (redact v ms) out (redact_message v ms m)) [] ms = foldl (convert_step v ms) [] ms"
    by (intro foldl_cong) auto
  then show ?thesis by (simp add: Convert_def redact_def [of v ms] foldl_map)
qed

theorem private_calls_not_read_witness:
  "redact ex_view (ex_memory ''rosebud'') = ex_memory [] \<and> Convert (ex_memory ''rosebud'') ex_view = Convert (ex_memory []) ex_view"
proof -
  have r: "redact ex_view (ex_memory ''rosebud'') = ex_memory []" by code_simp
  have "distinct (call_ids (ex_memory ''rosebud''))" by code_simp
  from private_calls_not_read [OF this, of ex_view] r show ?thesis by simp
qed



end
