(* ===== verification/Prompt.thy ===== *)
theory Prompt
  imports AgentLoop Convert
begin

section \<open>One call to the model\<close>

text \<open>
  The request of one call (\<open>activity/llm.go\<close>) from its references: the conversation (\<open>AgentLoop.conversation\<close>, then
  \<open>Convert\<close>), the tools of the catalog, the prompt (\<open>activity/prompt.go\<close>, \<open>activity/skill.go\<close>), and the call itself. The
  JSON text of a request is an argument (\<open>lw_encode\<close>), of which only the length is read. The flags of the prompt's cache are
  on one tool and one message at most: the request holds their index.
\<close>

record skill =
  sk_name :: string
  sk_description :: string
  sk_content :: string
  sk_runs :: bool

subsection \<open>The agent's prompt\<close>

definition promptIntro :: string where
  "promptIntro =
     ''You are a helpful AI assistant with access to tools. You MUST use your tools proactively to ''
     @ ''accomplish the user'' @ [CHR 0x27] @ ''s goals '' @ [CHR 0xE2, CHR 0x80, CHR 0x94]
     @ '' do not just describe what you could do, actually do it.'' @ [CHR 0x0A, CHR 0x0A]"

text \<open>A rule of \<open>promptRules\<close>: its tools (\<open>None\<close>: always shown) and its text, before and after the names.\<close>

type_synonym prompt_rule = "string list option \<times> string \<times> string"

definition promptRules :: "prompt_rule list" where
  "promptRules =
    [(Some [''web_search'', ''web_fetch''],
      ''When the user asks for information you don'' @ [CHR 0x27] @ ''t have, look it up with '',
      ''.''),
     (Some [''read_file'', ''write_file'', ''edit_file'', ''list_directory'', ''grep'', ''glob''],
      ''When the user asks you to work with files, use '',
      ''.''),
     (Some [''exec''],
      ''When the user asks you to run a command, use '',
      ''.''),
     (Some [AgentToolPrefix @ ''*''],
      ''When a task requires specialized expertise, delegate it to the agent suited for it: '',
      ''. The agent does not see this conversation, so give it the full context.''),
     (None,
      ''Always prefer action over explanation. If you can answer by using a tool, do it.'',
      []),
     (None,
      ''Only use the tools you are given. If a task needs a tool you don'' @ [CHR 0x27]
     @ ''t have, say so instead of pretending.'',
      []),
     (Some [''write_file'', ''edit_file''],
      ''NEVER write a file as a way to deliver your answer. Respond directly in the conversation. Only use '',
      '' when the user explicitly asks you to create or modify a file.''),
     (Some [''save_user_memory''],
      ''Use '',
      '' to remember important facts about the user (role, preferences, expertise, projects) that would be ''
     @ ''useful in future conversations. Each call replaces the full memory, so include everything. Only ''
     @ ''save when you learn something genuinely new and useful.'')]"

definition has_wildcard :: "string \<Rightarrow> bool" where
  "has_wildcard t = list_ex (\<lambda>c. c \<in> set ''*?['') t"

definition rule_names :: "string list \<Rightarrow> string list \<Rightarrow> string list" where
  "rule_names allowed ts =
     concat (map (\<lambda>t. if \<not> has_wildcard t then (if t \<in> set allowed then [t] else [])
                      else sort (filter (\<lambda>name. path_Match t name = Some True) (remdups allowed))) ts)"

definition rule_line :: "string list \<Rightarrow> prompt_rule \<Rightarrow> string" where
  "rule_line allowed r =
     (case r of (ts, before, after) \<Rightarrow>
        case ts of
          None \<Rightarrow> ''- '' @ before @ after @ nl
        | Some ts \<Rightarrow>
            let names = rule_names allowed ts
            in if names = [] then [] else ''- '' @ before @ join '', '' names @ after @ nl)"

definition buildBehaviors :: "string list \<Rightarrow> string" where
  "buildBehaviors allowed = promptIntro @ ''Key behaviors:'' @ nl @ concat (map (rule_line allowed) promptRules) @ nl"

definition skills_by_name :: "skill list \<Rightarrow> string \<rightharpoonup> skill" where
  "skills_by_name skills = map_of (rev (map (\<lambda>s. (sk_name s, s)) skills))"

definition matchSkills :: "(string \<rightharpoonup> skill) \<Rightarrow> string list \<Rightarrow> skill list" where
  "matchSkills byName names =
     concat (map (\<lambda>name. case byName name of Some s \<Rightarrow> if sk_runs s then [] else [s] | None \<Rightarrow> []) names)"

definition runSkillNames :: "(string \<rightharpoonup> skill) \<Rightarrow> string list \<Rightarrow> string list" where
  "runSkillNames byName names = filter (\<lambda>name. case byName name of Some s \<Rightarrow> sk_runs s | None \<Rightarrow> False) names"

text \<open>\<open>RunSkills\<close>: the skills found and the names missing.\<close>

definition RunSkills :: "(string \<rightharpoonup> skill) \<Rightarrow> string list \<Rightarrow> skill list \<times> string list" where
  "RunSkills byName names =
     (let ns = rev (remdups (rev names)); found = (\<lambda>name. case byName name of Some s \<Rightarrow> sk_runs s | None \<Rightarrow> False)
      in (map (\<lambda>name. the (byName name)) (filter found ns), filter (\<lambda>name. \<not> found name) ns))"

definition conversationNote :: string where
  "conversationNote =
     ''Several people and several AI agents may write in a conversation. A person'' @ [CHR 0x27]
     @ ''s message starts with their name in brackets: [Alice]. Another agent'' @ [CHR 0x27]
     @ ''s turn reaches you as text in a user message, starting with [agent Name (@mention)], its tool ''
     @ ''calls and their results included: it is that agent'' @ [CHR 0x27]
     @ ''s work, not yours and not a person'' @ [CHR 0x27]
     @ ''s. Your own messages carry no prefix: never write one.'' @ [CHR 0x0A, CHR 0x0A]"

definition empty_agent :: agent_entry where
  "empty_agent = \<lparr>a_id = [], a_name = [], a_mention = [], a_description = [], a_skills = [], a_tools = [], a_llm_on_machine = []\<rparr>"

definition identitySection :: "agent_entry \<Rightarrow> string" where
  "identitySection self =
     ''## Identity'' @ nl @ nl
     @ (if a_name self \<noteq> [] \<and> a_mention self \<noteq> []
        then ''Your name is '' @ a_name self @ ''. In a conversation, people address you by writing @'' @ a_mention self @ ''. '' else [])
     @ conversationNote"

definition skill_section :: "skill \<Rightarrow> string" where
  "skill_section s =
     ''### '' @ sk_name s @ nl
     @ (if sk_description s \<noteq> [] then sk_description s @ nl @ nl else [])
     @ (if sk_content s \<noteq> [] then sk_content s @ nl @ nl else [])"

definition buildSystemPrompt :: "skill list \<Rightarrow> string list \<Rightarrow> string" where
  "buildSystemPrompt skills allowed =
     buildBehaviors allowed @ (if skills \<noteq> [] then ''## Skills'' @ nl @ nl @ concat (map skill_section skills) else [])"

text \<open>The loop of \<open>AgentPrompt\<close> keeps the last entry of that ID.\<close>

definition AgentPrompt :: "catalog \<Rightarrow> (string \<rightharpoonup> skill) \<Rightarrow> string \<Rightarrow> string list \<Rightarrow> string" where
  "AgentPrompt c byName agentID tools =
     (let self = foldl (\<lambda>self e. if a_id e = agentID then e else self) empty_agent (c_agents c)
      in identitySection self @ buildSystemPrompt (matchSkills byName (a_skills self)) tools)"

text \<open>\<open>LoadSkillsForAgent\<close>.\<close>

definition LoadSkillsForAgent :: "catalog \<Rightarrow> (string \<rightharpoonup> skill) \<Rightarrow> string \<Rightarrow> (catalog_error, string \<times> string \<times> string list) result" where
  "LoadSkillsForAgent c byName agentID =
     (case CheckAgent c agentID of
        Some err \<Rightarrow> Inl err
      | None \<Rightarrow> Inr (foldl (\<lambda>(name, onMachine, runs) e.
            if a_id e \<noteq> agentID then (name, onMachine, runs)
            else (if a_name e \<noteq> [] then a_name e else name, a_llm_on_machine e, runSkillNames byName (a_skills e)))
          (agentID, [], []) (c_agents c)))"

definition userMemorySection :: "string \<Rightarrow> string \<Rightarrow> string" where
  "userMemorySection userName memory =
     (let who = (if userName \<noteq> [] then userName @ '', the author of the latest message'' else ''this user'')
      in nl @ ''## User Memory'' @ nl @ nl @ ''The following is what you remember about '' @ who
         @ '' from previous conversations. Use it to personalize your responses. It is private to them: do not reveal it to other participants.'' @ nl @ nl
         @ memory @ nl @ nl)"

definition closedSection :: "string \<Rightarrow> string list \<Rightarrow> string" where
  "closedSection userName closed =
     (if closed = [] then []
      else nl @ ''Some of your tools are not open to '' @ (if userName = [] then ''this user'' else userName) @ '': '' @ join '', '' (sort closed)
           @ ''. If asked for what they do, say an admin can give access.'' @ nl)"

definition task_line :: "bg_task \<Rightarrow> string" where
  "task_line t =
     ''- '' @ t_id t @ '': '' @ t_tool t
     @ (if t_summary t \<noteq> [] then '' ('' @ t_summary t @ '')'' else [])
     @ (if t_user_name t \<noteq> [] then '', for '' @ t_user_name t else [])
     @ '', since '' @ utc_minute (t_started t)
     @ (if t_follow_ups t \<noteq> [] then '', '' @ dec_nat (length (t_follow_ups t)) @ '' instruction(s) attached'' else []) @ nl"

definition TasksSection :: "bg_task list \<Rightarrow> bool \<Rightarrow> bool \<Rightarrow> string" where
  "TasksSection running_tasks backgrounds followUps =
     (if \<not> backgrounds \<and> running_tasks = [] then []
      else nl @ ''## Background tasks'' @ nl @ nl
        @ (if backgrounds then
             ''Some of your tools take a `background` field: the call then runs as a background task, your turn ''
     @ ''goes on without its result, and when it ends a message brings you the result in a new turn. By ''
     @ ''default, wait for the result. Run a call in the background when the work is long and the user may ''
     @ ''want something else from you meanwhile, or when they ask for it ('' @ [CHR 0x22]
     @ ''in the background'' @ [CHR 0x22] @ '', '' @ [CHR 0x22] @ ''tell me when it'' @ [CHR 0x27] @ ''s done''
     @ [CHR 0x22] @ ''); then tell them it runs.''
             @ (if followUps then '' When the user says what to do once a task of yours is done, attach it to the task with ''
     @ ''when_task_done.'' else []) @ nl
           else [])
        @ (if running_tasks \<noteq> [] then
             [CHR 0x0A]
     @ ''Your background tasks running now. Never start one of them again; a request that depends on one ''
     @ ''waits for its end: say so''
             @ (if followUps then '', and attach what to do then with when_task_done'' else []) @ ''.'' @ nl
             @ concat (map task_line running_tasks)
           else []))"

subsection \<open>The request\<close>

record chat_request =
  cr_model :: string
  cr_system :: string
  cr_messages :: "chat_message list"
  cr_tools :: "tool_definition list"
  cr_tool_break :: "nat option"
  cr_message_break :: "nat option"
  cr_max_tokens :: int
  cr_cache_system :: bool

record llm_worker =
  lw_catalog :: catalog
  lw_skills :: "string \<rightharpoonup> skill"
  lw_max_context :: int
  lw_tasks :: bool
  lw_encode :: "chat_request \<Rightarrow> string option"

text \<open>What the call reads of the store: its messages (or why they cannot be read), a memory, its version and content, and
  the running tasks of a participant.\<close>

record llm_store =
  ls_table :: "(string, msg_table) result"
  ls_memory :: "string \<Rightarrow> (int \<times> string) option"
  ls_running :: "string \<Rightarrow> string \<Rightarrow> bg_task list option"

definition DefaultMaxContextBytes :: int where "DefaultMaxContextBytes = 2000000"
definition maxResponseTokens :: int where "maxResponseTokens = 16384"

definition withdrawnDescription :: string where
  "withdrawnDescription = ''Withdrawn: this tool is no longer available. Do not call it.''"
definition notOpenDescription :: string where
  "notOpenDescription = ''Not open in this turn. Do not call it.''"

text \<open>The names called and not offered, each once.\<close>

fun not_offered :: "string list \<Rightarrow> string list \<Rightarrow> string list \<Rightarrow> string list" where
  "not_offered offered seen [] = []"
| "not_offered offered seen (name # names) =
     (if name \<notin> set seen \<and> name \<notin> set offered then name # not_offered offered (name # seen) names
      else not_offered offered (name # seen) names)"

definition called_names :: "chat_message list \<Rightarrow> string list" where
  "called_names chat = concat (map (\<lambda>m. map tc_name (cm_calls m)) chat)"

definition withdrawnTools :: "catalog \<Rightarrow> string list \<Rightarrow> string list \<Rightarrow> chat_message list \<Rightarrow> tool_definition list" where
  "withdrawnTools c offered missing chat =
     (let names = sort (not_offered offered [] (called_names chat));
          (_, unknown, _) = ToolDefinitions c names False
      in map (\<lambda>name. \<lparr>td_name = name,
                td_description = PublishedText (if name \<in> set missing \<or> name \<in> set unknown then withdrawnDescription else notOpenDescription),
                td_schema = Some (JVObj [(''type'', JVStr ''object'')])\<rparr>) names)"

definition tasksSection :: "llm_worker \<Rightarrow> llm_store \<Rightarrow> turn_history \<Rightarrow> string list \<Rightarrow> bool \<Rightarrow> string" where
  "tasksSection a s h tools backgrounds =
     (let listed = (if \<not> lw_tasks a then [] else case ls_running s (th_session h) (TurnParticipant (th_turn h)) of None \<Rightarrow> [] | Some ts \<Rightarrow> ts)
      in TasksSection (filter (\<lambda>t. t_turn_key t \<noteq> th_turn h) listed) backgrounds (''when_task_done'' \<in> set tools))"

text \<open>\<open>systemPrompt\<close>: the prompt, and the memory's version it holds, or that it could not be read.\<close>

definition systemPrompt :: "llm_worker \<Rightarrow> llm_store \<Rightarrow> llm_turn_request \<Rightarrow> string list \<Rightarrow> bool \<Rightarrow> string \<times> int option \<times> bool" where
  "systemPrompt a s req tools backgrounds =
     (let p = lr_prompt req;
          base = (if pr_override p = [] then AgentPrompt (lw_catalog a) (lw_skills a) (lr_agent req) tools else pr_override p)
                 @ closedSection (pr_user_name p) (pr_closed p);
          (memory, version, unread) =
            (if pr_memory_of p = [] then ([], None, False)
             else case ls_memory s (pr_memory_of p) of
                    None \<Rightarrow> ([], None, True)
                  | Some (v, content) \<Rightarrow> (if content \<noteq> [] then userMemorySection (pr_user_name p) content else [], Some v, False));
          ts = (case lr_history req of None \<Rightarrow> [] | Some h \<Rightarrow> tasksSection a s h tools backgrounds)
      in (base @ memory @ ts @ pr_part_note p, version, unread))"

datatype request_error = NotReady | ConversationUnread string | BadRequest

definition buildRequest :: "llm_worker \<Rightarrow> llm_store \<Rightarrow> llm_turn_request \<Rightarrow> (request_error, chat_request \<times> int option \<times> bool) result" where
  "buildRequest a s req =
     (if \<not> Ready (lw_catalog a) then Inl NotReady
      else case (case (lr_history req, ls_table s) of
                   (None, _) \<Rightarrow> Inr (lr_messages req)
                 | (Some _, Inl err) \<Rightarrow> Inl (if lr_messages req \<noteq> [] then BadRequest else ConversationUnread err)
                 | (Some _, Inr T) \<Rightarrow> (case conversation T req of None \<Rightarrow> Inl BadRequest | Some ms \<Rightarrow> Inr ms)) of
             Inl err \<Rightarrow> Inl err
           | Inr messages \<Rightarrow>
               let c = lw_catalog a;
                   chat = Convert messages \<lparr>v_self = lr_agent req, v_user = lr_user req, v_agents = AgentLabels c, v_private = Some (PrivateInput c)\<rparr>;
                   (defs, missing, backgrounds) = ToolDefinitions c (lr_tools req) (lr_history req \<noteq> None);
                   offered = map td_name defs;
                   tools = defs @ withdrawnTools c offered missing chat;
                   (system, version, unread) = systemPrompt a s req offered backgrounds
               in Inr (\<lparr>cr_model = lr_model req, cr_system = system, cr_messages = chat, cr_tools = tools,
                        cr_tool_break = (if tools \<noteq> [] then Some (length tools - 1) else None),
                        cr_message_break = (if 2 \<le> length chat then Some (length chat - 2) else None),
                        cr_max_tokens = maxResponseTokens, cr_cache_system = True\<rparr>, version, unread))"

definition maxContextBytes :: "llm_worker \<Rightarrow> int" where
  "maxContextBytes a = (if 0 < lw_max_context a then lw_max_context a else DefaultMaxContextBytes)"

text \<open>\<open>requestSize\<close>: a request that cannot be encoded is past any limit (\<open>None\<close>).\<close>

definition requestSize :: "llm_worker \<Rightarrow> chat_request \<Rightarrow> int option" where
  "requestSize a r = map_option (\<lambda>b. int (length b)) (lw_encode a r)"

text \<open>What the provider answers, and what the activity makes of it: an error the workflow may retry or not, at once or after
  a delay.\<close>

datatype provider_error = ProviderTooLong string | ProviderPermanent string | ProviderRetryAfter string duration | ProviderOther string

datatype activity_error = NonRetryable string string | RetryIn string string duration | Retryable string

text \<open>\<open>CallLLM\<close>: the request sent to the provider, if any, and the outcome.\<close>

definition CallLLM :: "llm_worker \<Rightarrow> llm_store \<Rightarrow> (chat_request \<Rightarrow> (provider_error, llm_response) result) \<Rightarrow> llm_turn_request
    \<Rightarrow> chat_request option \<times> (activity_error, llm_response) result" where
  "CallLLM a s chat req =
     (case buildRequest a s req of
        Inl BadRequest \<Rightarrow> (None, Inl (NonRetryable ''BadLLMRequest'' ''a call gives its conversation inline or by reference, not both''))
      | Inl (ConversationUnread err) \<Rightarrow> (None, Inl (Retryable (''load conversation: '' @ err)))
      | Inl NotReady \<Rightarrow> (None, Inl (Retryable (''this worker'' @ [CHR 0x27] @ ''s catalog has not read its agents and access rules yet'')))
      | Inr (request, version, unread) \<Rightarrow>
          if (case requestSize a request of None \<Rightarrow> True | Some n \<Rightarrow> maxContextBytes a < n)
          then (None, Inl (NonRetryable ErrTypeContextTooLong ContextTooLongMessage))
          else (Some request,
                case chat request of
                  Inr resp \<Rightarrow> Inr (resp\<lparr>rp_memory_version := version, rp_memory_unread := unread\<rparr>)
                | Inl (ProviderTooLong _) \<Rightarrow> Inl (NonRetryable ErrTypeContextTooLong ContextTooLongMessage)
                | Inl (ProviderPermanent err) \<Rightarrow> Inl (NonRetryable ErrTypePermanentAPI err)
                | Inl (ProviderRetryAfter err delay) \<Rightarrow> Inl (RetryIn ErrTypeRetryAfter err delay)
                | Inl (ProviderOther err) \<Rightarrow> Inl (Retryable err)))"

subsection \<open>The tools of a request\<close>

lemma definition_of_name: "definition_of c name = Some (d, b) \<Longrightarrow> td_name d = name"
  by (auto simp: definition_of_def publishedDefinition_def agentDefinition_def AgentToolName_def find_tool_def Let_def
      cut_prefix_Some_iff find_Some_iff split: option.splits if_splits)

lemma ToolDefinitions_names:
  "ToolDefinitions c names bg = (defs, missing, bgs) \<Longrightarrow> map td_name defs = filter (\<lambda>n. definition_of c n \<noteq> None) names"
  by (induction c names bg arbitrary: defs missing bgs rule: ToolDefinitions.induct)
    (auto split: prod.splits option.splits if_splits dest: definition_of_name)

lemma set_not_offered: "set (not_offered offered seen names) = {n \<in> set names. n \<notin> set offered \<and> n \<notin> set seen}"
  by (induction offered seen names rule: not_offered.induct) auto

lemma distinct_not_offered: "distinct (not_offered offered seen names)"
  by (induction offered seen names rule: not_offered.induct) (auto simp: set_not_offered)

lemma withdrawn_names: "map td_name (withdrawnTools c offered missing chat) = sort (not_offered offered [] (called_names chat))"
  by (simp add: withdrawnTools_def Let_def comp_def split: prod.split)

lemma buildRequest_Inr:
  assumes "buildRequest a s req = Inr (r, version, unread)"
  obtains messages defs missing backgrounds where
    "case lr_history req of None \<Rightarrow> messages = lr_messages req
       | Some _ \<Rightarrow> (\<exists>T. ls_table s = Inr T \<and> conversation T req = Some messages)"
    "cr_messages r = Convert messages \<lparr>v_self = lr_agent req, v_user = lr_user req, v_agents = AgentLabels (lw_catalog a),
       v_private = Some (PrivateInput (lw_catalog a))\<rparr>"
    "ToolDefinitions (lw_catalog a) (lr_tools req) (lr_history req \<noteq> None) = (defs, missing, backgrounds)"
    "cr_tools r = defs @ withdrawnTools (lw_catalog a) (map td_name defs) missing (cr_messages r)"
proof -
  have "Ready (lw_catalog a)" using assms by (auto simp: buildRequest_def split: if_splits)
  obtain messages where m: "(case (lr_history req, ls_table s) of
                   (None, _) \<Rightarrow> Inr (lr_messages req)
                 | (Some _, Inl err) \<Rightarrow> Inl (if lr_messages req \<noteq> [] then BadRequest else ConversationUnread err)
                 | (Some _, Inr T) \<Rightarrow> (case conversation T req of None \<Rightarrow> Inl BadRequest | Some ms \<Rightarrow> Inr ms)) = Inr messages"
    using assms \<open>Ready (lw_catalog a)\<close> unfolding buildRequest_def by (auto split: sum.splits)
  have "case lr_history req of None \<Rightarrow> messages = lr_messages req | Some _ \<Rightarrow> (\<exists>T. ls_table s = Inr T \<and> conversation T req = Some messages)"
    using m by (auto split: option.splits sum.splits if_splits)
  moreover obtain defs missing backgrounds where
    "ToolDefinitions (lw_catalog a) (lr_tools req) (lr_history req \<noteq> None) = (defs, missing, backgrounds)" by (metis prod_cases3)
  ultimately show thesis using that assms \<open>Ready (lw_catalog a)\<close> m by (auto simp: buildRequest_def Let_def split: prod.splits)
qed

subsection \<open>A call of an agent whose tool is gone\<close>

definition ex_worker :: llm_worker where
  "ex_worker = \<lparr>lw_catalog = small_catalog, lw_skills = Map.empty, lw_max_context = 0, lw_tasks = False, lw_encode = (\<lambda>_. Some [])\<rparr>"

definition ex_store :: llm_store where
  "ex_store = \<lparr>ls_table = Inl [], ls_memory = (\<lambda>_. None), ls_running = (\<lambda>_ _. None)\<rparr>"

definition ex_request :: llm_turn_request where
  "ex_request = \<lparr>lr_model = [], lr_agent = ''jarvis'', lr_user = ''alice'', lr_tools = [],
     lr_prompt = \<lparr>pr_override = ''p'', pr_memory_of = [], pr_user_name = [], pr_part_note = [], pr_closed = []\<rparr>,
     lr_messages = [(empty_message RoleAssistant)\<lparr>m_calls := [\<lparr>tc_id = ''c'', tc_name = ''gone'', tc_input = ''{}''\<rparr>]\<rparr>],
     lr_history = None\<rparr>"

lemma ex_call: "\<exists>r. CallLLM ex_worker ex_store (\<lambda>_. Inr empty_response) ex_request = (Some r, Inr empty_response)"
proof -
  have "Ready small_catalog" by code_simp
  then show ?thesis
    by (simp add: CallLLM_def buildRequest_def Let_def ex_worker_def ex_request_def requestSize_def maxContextBytes_def
        DefaultMaxContextBytes_def systemPrompt_def empty_response_def)
qed

section \<open>Properties\<close>

text \<open>C13: A request sent to the model is one it accepts: under the limit, as JSON; every tool the conversation calls has a
  definition, those the turn may dispatch theirs, as the catalog has them, any other one a stub, once, that says not to call
  it; and its messages are the conversation the turn is to read, converted for its agent and its user.\<close>

theorem request_sent_is_sound:
  assumes "CallLLM a s chat req = (Some r, out)"
  shows "(\<exists>b. lw_encode a r = Some b \<and> int (length b) \<le> maxContextBytes a)
    \<and> (\<forall>cm \<in> set (cr_messages r). \<forall>tc \<in> set (cm_calls cm). tc_name tc \<in> td_name ` set (cr_tools r))
    \<and> (\<exists>defs stubs. cr_tools r = defs @ stubs
         \<and> map td_name defs = filter (\<lambda>n. definition_of (lw_catalog a) n \<noteq> None) (lr_tools req)
         \<and> distinct (map td_name stubs) \<and> set (map td_name stubs) = set (called_names (cr_messages r)) - set (map td_name defs))
    \<and> (\<exists>messages. cr_messages r = Convert messages \<lparr>v_self = lr_agent req, v_user = lr_user req, v_agents = AgentLabels (lw_catalog a),
           v_private = Some (PrivateInput (lw_catalog a))\<rparr>
         \<and> (case lr_history req of None \<Rightarrow> messages = lr_messages req
            | Some _ \<Rightarrow> (\<exists>T. ls_table s = Inr T \<and> conversation T req = Some messages)))"
proof -
  from assms obtain version unread where b: "buildRequest a s req = Inr (r, version, unread)" and size: "\<exists>b. lw_encode a r = Some b \<and> int (length b) \<le> maxContextBytes a"
    by (auto simp: CallLLM_def requestSize_def not_less split: sum.splits request_error.splits prod.splits if_splits option.splits)
  from b obtain messages defs missing backgrounds where m: "case lr_history req of None \<Rightarrow> messages = lr_messages req
       | Some _ \<Rightarrow> (\<exists>T. ls_table s = Inr T \<and> conversation T req = Some messages)"
    and c: "cr_messages r = Convert messages \<lparr>v_self = lr_agent req, v_user = lr_user req, v_agents = AgentLabels (lw_catalog a),
       v_private = Some (PrivateInput (lw_catalog a))\<rparr>"
    and d: "ToolDefinitions (lw_catalog a) (lr_tools req) (lr_history req \<noteq> None) = (defs, missing, backgrounds)"
    and t: "cr_tools r = defs @ withdrawnTools (lw_catalog a) (map td_name defs) missing (cr_messages r)" by (rule buildRequest_Inr)
  let ?stubs = "withdrawnTools (lw_catalog a) (map td_name defs) missing (cr_messages r)"
  have stubs: "distinct (map td_name ?stubs)" "set (map td_name ?stubs) = set (called_names (cr_messages r)) - set (map td_name defs)"
    unfolding withdrawn_names by (auto simp: distinct_not_offered set_not_offered)
  have "tc_name tc \<in> td_name ` set (cr_tools r)" if "cm \<in> set (cr_messages r)" "tc \<in> set (cm_calls cm)" for cm tc
  proof -
    have "tc_name tc \<in> set (called_names (cr_messages r))" using that by (auto simp: called_names_def)
    then have "tc_name tc \<in> set (map td_name defs) \<union> set (map td_name ?stubs)" using stubs(2) by blast
    then show ?thesis unfolding t by (simp add: image_Un)
  qed
  with size m c t stubs ToolDefinitions_names [OF d] show ?thesis by blast
qed

theorem request_sent_is_sound_witness:
  "\<exists>r. fst (CallLLM ex_worker ex_store (\<lambda>_. Inr empty_response) ex_request) = Some r
     \<and> (\<forall>cm \<in> set (cr_messages r). \<forall>tc \<in> set (cm_calls cm). tc_name tc \<in> td_name ` set (cr_tools r))"
proof -
  from ex_call obtain r where r: "CallLLM ex_worker ex_store (\<lambda>_. Inr empty_response) ex_request = (Some r, Inr empty_response)" by blast
  from request_sent_is_sound [OF r] r show ?thesis by auto
qed

end
