(* ===== verification/Gateway.thy ===== *)
theory Gateway
  imports Directives Keys
begin

section \<open>The machines' gateway: \<open>gateway/conn.go\<close>, \<open>gateway/gateway.go\<close>, \<open>gateway/llm.go\<close>\<close>

text \<open>
  The server's side of the machines: it holds their connections, hands them their directives, heartbeats
  for them, and completes their activities with their results. The gateway runs many goroutines; here each
  is cut where it calls the database or Temporal, and a step of the model runs one piece: what goes on in
  between is any interleaving of the steps. Temporal and the machines are the environment: a step takes
  what they answer. A step records in \<open>gw_trace\<close> what it wrote to a machine, the calls it made to Temporal,
  the connections it closed, and what it told the users. A write that fails ends its connection, which
  \<open>GDrop\<close> does at any moment. The rate limiter (\<open>golang.org/x/time\<close>) answers \<open>allow\<close>.
\<close>

subsection \<open>State\<close>

record attached =
  at_token :: "string option"
  at_progress :: string
  at_cancel_sent :: bool
  at_d :: directive
  at_note :: "time option"

text \<open>What a connection still has to do of its \<open>reconcilePlan\<close>.\<close>

datatype todo = Attach directive | TellCancel string | TellAck string | Send directive | Lose directive

record conn =
  cn_id :: string
  cn_m :: machine_row
  cn_presented :: string
  cn_addr :: string
  cn_hello :: wire
  cn_token_hash :: string
  cn_ready :: bool
  cn_claude_code :: string
  cn_llm :: string
  cn_directives :: "(string \<times> attached) list"
  cn_aside :: "time option"
  cn_todo :: "todo list"
  cn_beating :: "string list"

text \<open>What the gateway says to a machine. An error is its code.\<close>

datatype outgoing =
    WelcomeMsg string string | RotateMsg string | DirectiveMsg string string string time
  | CancelMsg string string | AckMsg string | ErrorMsg string

record published =
  pf_id :: string
  pf_name :: string
  pf_type :: string
  pf_size :: int
  pf_sha :: string

record machine_result =
  mr_output :: raw_output
  mr_progress :: string
  mr_files :: "published list"

record prompt_memory =
  pm_version :: "int option"
  pm_unread :: bool

datatype failure_detail = RunDetail machine_result | LLMDetail llm_failure

text \<open>What an activity is completed with: a result, or an error a workflow reads (its words, its type).\<close>

datatype outcome =
    RunResult machine_result
  | LLMAnswer llm_answer prompt_memory
  | CanceledError "machine_result option"
  | ApplicationError string string "failure_detail option"
  | RetryLater string string duration llm_failure

datatype tanswer = TOk | TNotFound | TInvalid | TOther
datatype beat_answer = BeatOk | BeatCanceled | BeatNotFound | BeatOther

datatype gw_event =
    Wrote string outgoing
  | Closed string int
  | CalledComplete "string option" outcome tanswer
  | CalledHeartbeat "string option" string
  | Alerted string
  | Noted string string string string string

text \<open>
  A result being completed: by the connection that read it (\<open>jb_conn\<close>), or by the sweep (\<open>None\<close>). The stages are
  those of \<open>conn.result\<close> and \<open>finish\<close>.
\<close>

datatype stage = Reading | Saving directive | Completing directive | Closing directive directive_state

record job =
  jb_id :: string
  jb_conn :: "string option"
  jb_machine :: string
  jb_msg :: wire
  jb_size :: nat
  jb_stage :: stage

record gateway =
  gw_id :: string
  gw_db :: mdb
  gw_opening :: "string \<rightharpoonup> machine_row \<times> string \<times> string"
  gw_conns :: "string \<rightharpoonup> conn"
  gw_claimed :: "string list"
  gw_slots :: nat
  gw_jobs :: "job list"
  gw_dup :: "string \<rightharpoonup> time"
  gw_notice :: bool
  gw_note_every :: duration
  gw_trace :: "gw_event list"

text \<open>
  What is not the gateway's: the words of a refused answer, what \<open>json.Unmarshal\<close> gives of an llm directive's
  input as an \<open>LLMInput\<close>, a string quoted (\<open>%q\<close>), and the hash of a token (SHA-256).
\<close>

record gw_env =
  ge_words :: "bad_answer \<Rightarrow> string"
  ge_input :: "string \<Rightarrow> prompt_memory option"
  ge_quote :: "string \<Rightarrow> string"
  ge_hash :: "string \<Rightarrow> string"

definition CloseRevoked :: int where "CloseRevoked = 4001"
definition CloseDuplicate :: int where "CloseDuplicate = 4002"
definition CloseProtocol :: int where "CloseProtocol = 4003"
definition ClosePolicy :: int where "ClosePolicy = 4008"
definition StatusInternalError :: int where "StatusInternalError = 1011"

definition completeTries :: nat where "completeTries = 5"
definition maxResultRetries :: nat where "maxResultRetries = 8"
definition duplicateAlertEvery :: duration where "duplicateAlertEvery = 3600 * 1000000000"
definition defaultNoteEvery :: duration where "defaultNoteEvery = 5 * 1000000000"
definition asideEvery :: duration where "asideEvery = 60 * 1000000000"

definition emit :: "gw_event \<Rightarrow> gateway \<Rightarrow> gateway" where
  "emit e g = g\<lparr>gw_trace := gw_trace g @ [e]\<rparr>"

definition put_conn :: "string \<Rightarrow> conn \<Rightarrow> gateway \<Rightarrow> gateway" where
  "put_conn mid c g = g\<lparr>gw_conns := (gw_conns g)(mid \<mapsto> c)\<rparr>"

text \<open>A goroutine keeps its connection: what it does to one no longer registered is seen by nobody.\<close>

definition on_conn :: "string \<Rightarrow> string \<Rightarrow> (conn \<Rightarrow> conn) \<Rightarrow> gateway \<Rightarrow> gateway" where
  "on_conn mid cid f g =
     (case gw_conns g mid of None \<Rightarrow> g | Some c \<Rightarrow> if cn_id c = cid then put_conn mid (f c) g else g)"

subsection \<open>The turn's line: \<open>kindLabel\<close>, \<open>note\<close>, \<open>clearNote\<close>\<close>

definition kindLabel :: "string \<Rightarrow> string" where
  "kindLabel kind =
     (if kind = ''analyze_repo'' then ''Analyse''
      else if kind = ''implement_feature'' then (''Impl'' @ [CHR 0xC3, CHR 0xA9] @ ''mentation'')
      else (''T'' @ [CHR 0xC3, CHR 0xA2] @ ''che '' @ [CHR 0xC2, CHR 0xAB] @ '' '') @ kind @ ('' '' @ [CHR 0xC2, CHR 0xBB]))"

definition note_gw :: "directive \<Rightarrow> string \<Rightarrow> string \<Rightarrow> gateway \<Rightarrow> gateway" where
  "note_gw d name progress g =
     (if \<not> gw_notice g \<or> d_session d = [] \<or> d_kind d = llmKind then g
      else emit (Noted (d_session d) (d_participant d) (coalesce (TaskOfWorkflow (d_workflow d))) (d_agent d)
             (kindLabel (d_kind d) @ ('' sur la machine '' @ [CHR 0xC2, CHR 0xAB] @ '' '') @ name @ ('' '' @ [CHR 0xC2, CHR 0xBB]) @ (if progress = [] then [] else ('' '' @ [CHR 0xE2, CHR 0x80, CHR 0x94] @ '' '') @ Cut progress 200))) g)"

definition clear_note_gw :: "directive \<Rightarrow> gateway \<Rightarrow> gateway" where
  "clear_note_gw d g =
     (if gw_notice g \<and> d_session d \<noteq> [] \<and> d_kind d \<noteq> llmKind
      then emit (Noted (d_session d) (d_participant d) (coalesce (TaskOfWorkflow (d_workflow d))) (d_agent d) []) g else g)"

subsection \<open>What a connection carries\<close>

definition attach :: "directive \<Rightarrow> conn \<Rightarrow> conn" where
  "attach d c =
     (if map_of (cn_directives c) (d_id d) \<noteq> None then c
      else c\<lparr>cn_directives := (d_id d, \<lparr>at_token = d_token d, at_progress = [], at_cancel_sent = False, at_d = d, at_note = None\<rparr>)
              # cn_directives c\<rparr>)"

definition carries :: "conn \<Rightarrow> string \<Rightarrow> bool" where
  "carries c did = (map_of (cn_directives c) did \<noteq> None)"

definition detach :: "string \<Rightarrow> conn \<Rightarrow> conn" where
  "detach did c = c\<lparr>cn_directives := filter (\<lambda>(k, a). k \<noteq> did) (cn_directives c)\<rparr>"

definition set_attached :: "string \<Rightarrow> (attached \<Rightarrow> attached) \<Rightarrow> conn \<Rightarrow> conn" where
  "set_attached did f c = c\<lparr>cn_directives := map (\<lambda>(k, a). (k, if k = did then f a else a)) (cn_directives c)\<rparr>"

text \<open>\<open>claim\<close>, \<open>release\<close>, \<open>completing\<close>.\<close>

definition completing :: "gateway \<Rightarrow> string \<Rightarrow> bool" where
  "completing g did = (did \<in> set (gw_claimed g))"

definition claim :: "string \<Rightarrow> gateway \<Rightarrow> gateway" where
  "claim did g = g\<lparr>gw_claimed := did # gw_claimed g\<rparr>"

definition release :: "string \<Rightarrow> gateway \<Rightarrow> gateway" where
  "release did g = g\<lparr>gw_claimed := removeAll did (gw_claimed g)\<rparr>"

subsection \<open>Temporal: \<open>complete\<close>\<close>

definition final_answer :: "tanswer \<Rightarrow> bool" where
  "final_answer a = (a = TOk \<or> a = TNotFound \<or> a = TInvalid)"

text \<open>The answers of the calls made: \<open>answers i\<close> is what try \<open>i\<close> gets, and whether its context ends in the wait after it.\<close>

fun complete_tries :: "nat \<Rightarrow> nat \<Rightarrow> (nat \<Rightarrow> tanswer \<times> bool) \<Rightarrow> tanswer list" where
  "complete_tries 0 i answers = []"
| "complete_tries (Suc n) i answers =
     (let (a, gone) = answers i
      in if final_answer a \<or> n = 0 \<or> gone then [a] else a # complete_tries n (Suc i) answers)"

definition complete :: "nat \<Rightarrow> (nat \<Rightarrow> tanswer \<times> bool) \<Rightarrow> string option \<Rightarrow> outcome \<Rightarrow> gateway \<Rightarrow> gateway \<times> tanswer" where
  "complete tries answers token what g =
     (let got = complete_tries tries 0 answers
      in (foldl (\<lambda>g a. emit (CalledComplete token what a) g) g got, if got = [] then TOk else last got))"

subsection \<open>What a result makes of its activity\<close>

definition or_words :: "string \<Rightarrow> string \<Rightarrow> string" where
  "or_words msg words = (if msg = [] then words else msg)"

definition completion :: "wire \<Rightarrow> published list \<Rightarrow> outcome" where
  "completion m files =
     (let res = \<lparr>mr_output = w_output m, mr_progress = w_text m, mr_files = files\<rparr>
      in if w_status m = StatusOK then RunResult res
         else if w_status m = StatusCanceled then CanceledError (Some res)
         else if w_status m = StatusStopping
           then ApplicationError ''the machine stopped (agent connect ended) during the directive'' ''MachineStopping'' (Some (RunDetail res))
         else if w_status m = StatusRefused
           then ApplicationError (or_words (w_error m) ''the machine refused the directive'') ''DirectiveRefused'' (Some (RunDetail res))
         else ApplicationError (or_words (w_error m) ''the directive failed on the machine'') ''DirectiveFailed'' (Some (RunDetail res)))"

definition closedState :: "string \<Rightarrow> directive_state" where
  "closedState status =
     (if status = StatusOK then DirectiveCompleted
      else if status = StatusCanceled then DirectiveCanceled
      else if status = StatusStopping then DirectiveStopping
      else if status = StatusRefused then DirectiveRefused
      else DirectiveFailed)"

definition LLMFailRetryAfter :: string where "LLMFailRetryAfter = ''retry_after''"
definition LLMFailContextTooLong :: string where "LLMFailContextTooLong = ''context_too_long''"
definition LLMFailPermanent :: string where "LLMFailPermanent = ''permanent''"
definition LLMFailCredentials :: string where "LLMFailCredentials = ''credentials''"
definition LLMFailBadResult :: string where "LLMFailBadResult = ''bad_result''"

definition empty_wire :: wire where
  "empty_wire = \<lparr>w_type = [], w_protocol = 0, w_agent_version = [], w_os = [], w_caps = [], w_max = 0, w_running = [],
     w_finished = [], w_claude_code = [], w_max_llm = 0, w_llm_provider = [], w_llm_model = [], w_llm = [], w_id = [], w_text = [],
     w_status = [], w_output = empty_output, w_error = [], w_code = []\<rparr>"

text \<open>The JSON of an \<open>LLMFailure\<close> of that type, \<open>{"type":"..."}\<close>.\<close>

definition failure_output :: "string \<Rightarrow> raw_output" where
  "failure_output t = \<lparr>ro_len = length t + 11, ro_valid = True,
     ro_answer = Some \<lparr>an_content = [], an_calls = [], an_stop = [], an_model = [], an_usage = None\<rparr>,
     ro_failure = Some \<lparr>lf_type = t, lf_retry_ms = 0\<rparr>\<rparr>"

definition refuse :: "wire \<Rightarrow> string \<Rightarrow> wire" where
  "refuse m why = empty_wire\<lparr>w_type := TypeResult, w_id := w_id m, w_status := StatusError,
     w_output := failure_output LLMFailBadResult, w_error := Cut ((''the machine'' @ [CHR 0x27] @ ''s answer was refused: '') @ why) MaxErrorBytes\<rparr>"

definition checkLLMResult :: "gw_env \<Rightarrow> wire \<Rightarrow> wire" where
  "checkLLMResult env m =
     (if w_status m = StatusOK then
        (case CheckLLMOutput (w_output m) of Inl e \<Rightarrow> refuse m (ge_words env e) | Inr _ \<Rightarrow> m)
      else if w_status m = StatusError then
        (if MaxMessageBytes < ro_len (w_output m) then refuse m ''failure too large''
         else if 0 < ro_len (w_output m) \<and> ro_failure (w_output m) = None then refuse m ''failure unreadable''
         else m)
      else if MaxMessageBytes < ro_len (w_output m) then m\<lparr>w_output := empty_output\<rparr>
      else m)"

definition llmCompletion :: "gw_env \<Rightarrow> directive \<Rightarrow> wire \<Rightarrow> outcome" where
  "llmCompletion env d m =
     (if w_status m = StatusOK then
        (case ro_answer (w_output m) of
           None \<Rightarrow> ApplicationError (''the machine'' @ [CHR 0x27] @ ''s answer is unreadable'') ''MachineBadResult'' None
         | Some resp \<Rightarrow>
             LLMAnswer resp (case ge_input env (d_input d) of None \<Rightarrow> \<lparr>pm_version = None, pm_unread = True\<rparr> | Some pm \<Rightarrow> pm))
      else if w_status m = StatusCanceled then CanceledError None
      else if w_status m = StatusStopping
        then ApplicationError ''the machine stopped (agent connect ended) during the call'' ''MachineStopping'' None
      else if w_status m = StatusRefused then
        ApplicationError (or_words (w_error m) ''the machine refused the call'')
          (if w_code m = ''busy'' then ''MachineBusy'' else ''DirectiveRefused'') None
      else
        (let msg = or_words (w_error m) ''the call to the model failed on the machine'';
             f = (case ro_failure (w_output m) of None \<Rightarrow> \<lparr>lf_type = [], lf_retry_ms = 0\<rparr> | Some f \<Rightarrow> f)
         in if lf_type f = LLMFailRetryAfter then RetryLater msg ''RetryAfterError'' (lf_retry_ms f * 1000000) f
            else if lf_type f = LLMFailContextTooLong then ApplicationError msg ''ContextTooLong'' (Some (LLMDetail f))
            else if lf_type f = LLMFailPermanent \<or> lf_type f = LLMFailCredentials
              then ApplicationError msg ''PermanentAPIError'' (Some (LLMDetail f))
            else if lf_type f = LLMFailBadResult then ApplicationError msg ''MachineBadResult'' (Some (LLMDetail f))
            else ApplicationError msg ''DirectiveFailed'' (Some (LLMDetail f))))"

subsection \<open>A machine is back: \<open>reconcile\<close>\<close>

record reconcile_plan =
  p_attach :: "directive list"
  p_send :: "directive list"
  p_lost :: "directive list"
  p_cancel :: "string list"
  p_ack :: "string list"

fun plan_open :: "string \<Rightarrow> string list \<Rightarrow> directive list \<Rightarrow> reconcile_plan \<Rightarrow> reconcile_plan" where
  "plan_open connID listed [] p = p"
| "plan_open connID listed (d # ds) p = plan_open connID listed ds
     (if d_state d \<noteq> DirectiveRunning then p
      else if d_kind d = llmKind then
        (if d_id d \<in> set listed then p\<lparr>p_attach := p_attach p @ [d]\<rparr>
         else if d_sent_conn d \<noteq> [] \<and> d_sent_conn d \<noteq> connID then p\<lparr>p_lost := p_lost p @ [d]\<rparr>
         else p)
      else if d_id d \<in> set listed then p\<lparr>p_attach := p_attach p @ [d]\<rparr>
      else if d_sent_conn d = [] then p\<lparr>p_send := p_send p @ [d]\<rparr>
      else if d_sent_conn d \<noteq> connID then p\<lparr>p_lost := p_lost p @ [d]\<rparr>
      else p)"

definition isOpen :: "directive list \<Rightarrow> string \<Rightarrow> bool" where
  "isOpen opened did = list_ex (\<lambda>d. d_state d = DirectiveRunning \<and> d_id d = did) opened"

definition reconcile :: "directive list \<Rightarrow> string list \<Rightarrow> string list \<Rightarrow> string \<Rightarrow> reconcile_plan" where
  "reconcile opened running finished connID =
     (plan_open connID (running @ finished) opened \<lparr>p_attach = [], p_send = [], p_lost = [], p_cancel = [], p_ack = []\<rparr>)
       \<lparr>p_cancel := filter (\<lambda>i. \<not> isOpen opened i) running, p_ack := filter (\<lambda>i. \<not> isOpen opened i) finished\<rparr>"

definition todos :: "reconcile_plan \<Rightarrow> todo list" where
  "todos p = map Attach (p_attach p) @ map TellCancel (p_cancel p) @ map TellAck (p_ack p)
     @ map Send (p_send p) @ map Lose (p_lost p)"

subsection \<open>Handing a directive over\<close>

text \<open>\<open>conn.send\<close>; \<open>dbok\<close>: the database answers.\<close>

definition send :: "conn \<Rightarrow> directive \<Rightarrow> bool \<Rightarrow> gateway \<Rightarrow> gateway" where
  "send c d dbok g =
     (if \<not> dbok then g
      else let (db', sent) = MarkDirectiveSent (gw_db g) (d_id d) (cn_id c); g1 = g\<lparr>gw_db := db'\<rparr>
        in if \<not> sent then g1
           else note_gw d (m_name (cn_m c)) [] (emit (Wrote (cn_id c) (DirectiveMsg (d_id d) (d_kind d) (d_input d) (d_deadline d)))
             (on_conn (m_id (cn_m c)) (cn_id c) (attach d) g1)))"

definition close_db :: "string \<Rightarrow> directive_state \<Rightarrow> string \<Rightarrow> time \<Rightarrow> bool \<Rightarrow> gateway \<Rightarrow> gateway" where
  "close_db did st errText now dbok g =
     (if dbok then g\<lparr>gw_db := fst (CloseDirective (gw_db g) did st errText now)\<rparr> else g)"

definition lose :: "gw_env \<Rightarrow> conn \<Rightarrow> directive \<Rightarrow> bool \<Rightarrow> time \<Rightarrow> (nat \<Rightarrow> tanswer \<times> bool) \<Rightarrow> gateway \<Rightarrow> gateway" where
  "lose env c d dbok now answers g =
     (if \<not> dbok then g
      else let (db', closed) = CloseDirective (gw_db g) (d_id d) DirectiveLost ''unknown to its machine'' now; g1 = g\<lparr>gw_db := db'\<rparr>
        in if \<not> closed then g1
           else fst (complete completeTries answers (d_token d)
             (ApplicationError
                (if d_kind d = llmKind
                 then ''machine '' @ ge_quote env (m_name (cn_m c)) @ '' no longer knows the call to its model (it restarted during it)''
                 else ''machine '' @ ge_quote env (m_name (cn_m c)) @ '' lost the directive (it restarted during it); nothing was done twice'')
                ''DirectiveLost'' None)
             (clear_note_gw d g1)))"

datatype gw_error = UnknownDirective | DirectiveOver | MachineUnreachable | MachineUnknown | DBAway

definition Deliver :: "string \<Rightarrow> bool \<Rightarrow> bool \<Rightarrow> gateway \<Rightarrow> gateway \<times> gw_error option" where
  "Deliver did getok markok g =
     (if \<not> getok then (g, Some DBAway)
      else case GetDirective (gw_db g) did of None \<Rightarrow> (g, Some UnknownDirective)
      | Some d \<Rightarrow>
          if d_state d \<noteq> DirectiveRunning then (g, Some DirectiveOver)
          else if d_kind d = llmKind then (g, Some DirectiveOver)
          else case gw_conns g (d_machine d) of None \<Rightarrow> (g, None)
          | Some c \<Rightarrow> if cn_ready c then (send c d markok g, None) else (g, None))"

definition unreachable :: "directive \<Rightarrow> string \<Rightarrow> time \<Rightarrow> bool \<Rightarrow> gateway \<Rightarrow> gateway" where
  "unreachable d why now dbok g = close_db (d_id d) DirectiveFailed (''machine unreachable: '' @ why) now dbok g"

text \<open>
  \<open>sendLLM\<close>: the words of its error, \<open>None\<close> once the request is written. \<open>written\<close>: the write ends; \<open>why\<close>, the words of the
  database's error or of the write's.
\<close>

definition sendLLM :: "conn \<Rightarrow> directive \<Rightarrow> string \<Rightarrow> bool \<Rightarrow> bool \<Rightarrow> string \<Rightarrow> gateway \<Rightarrow> gateway \<times> string option" where
  "sendLLM c d request markok written why g =
     (if \<not> markok then (g, Some (''mark it sent: '' @ why))
      else let (db', sent) = MarkDirectiveSent (gw_db g) (d_id d) (cn_id c); g1 = g\<lparr>gw_db := db'\<rparr>
        in if \<not> sent then (g1, Some ''sent already, or over'')
           else let g2 = emit (Wrote (cn_id c) (DirectiveMsg (d_id d) (d_kind d) request (d_deadline d))) g1
             in if \<not> written then (g2, Some (''write: '' @ why))
                else (on_conn (m_id (cn_m c)) (cn_id c) (\<lambda>c. (attach d c)\<lparr>cn_beating := d_id d # cn_beating c\<rparr>) g2, None))"

definition DeliverLLM :: "string \<Rightarrow> string \<Rightarrow> bool \<Rightarrow> bool \<Rightarrow> bool \<Rightarrow> bool \<Rightarrow> string \<Rightarrow> time \<Rightarrow> gateway \<Rightarrow> gateway \<times> gw_error option" where
  "DeliverLLM did request getok markok written closeok why now g =
     (if \<not> getok then (g, Some DBAway)
      else case GetDirective (gw_db g) did of None \<Rightarrow> (g, Some UnknownDirective)
      | Some d \<Rightarrow>
          if d_state d \<noteq> DirectiveRunning \<or> d_kind d \<noteq> llmKind then (g, Some DirectiveOver)
          else case gw_conns g (d_machine d) of
            None \<Rightarrow> (unreachable d ''not connected'' now closeok g, Some MachineUnreachable)
          | Some c \<Rightarrow>
              if \<not> cn_ready c then (unreachable d ''not connected'' now closeok g, Some MachineUnreachable)
              else case sendLLM c d request markok written why g of
                (g1, None) \<Rightarrow> (g1, None)
              | (g1, Some e) \<Rightarrow> (unreachable d e now closeok g1, Some MachineUnreachable))"

subsection \<open>A result: \<open>result\<close> and \<open>finish\<close>\<close>

definition set_stage :: "string \<Rightarrow> stage \<Rightarrow> gateway \<Rightarrow> gateway" where
  "set_stage did st g = g\<lparr>gw_jobs := map (\<lambda>j. if jb_id j = did then j\<lparr>jb_stage := st\<rparr> else j) (gw_jobs g)\<rparr>"

text \<open>The goroutine ends: its claim is released, and the sweep's slot with it.\<close>

definition end_job :: "job \<Rightarrow> gateway \<Rightarrow> gateway" where
  "end_job j g =
     (let g1 = release (jb_id j) (g\<lparr>gw_jobs := filter (\<lambda>x. jb_id x \<noteq> jb_id j) (gw_jobs g)\<rparr>)
      in if jb_conn j = None then g1\<lparr>gw_slots := gw_slots g1 - 1\<rparr> else g1)"

text \<open>Detached from its connection, and acked: by the connection that read the result always, by the sweep when it is carried.\<close>

definition detach_ack :: "job \<Rightarrow> gateway \<Rightarrow> gateway" where
  "detach_ack j g =
     (case jb_conn j of
        Some cid \<Rightarrow> emit (Wrote cid (AckMsg (jb_id j))) (on_conn (jb_machine j) cid (detach (jb_id j)) g)
      | None \<Rightarrow>
          (case gw_conns g (jb_machine j) of None \<Rightarrow> g
           | Some c \<Rightarrow> if carries c (jb_id j)
               then emit (Wrote (cn_id c) (AckMsg (jb_id j))) (put_conn (jb_machine j) (detach (jb_id j) c) g) else g))"

definition close_conn_of :: "job \<Rightarrow> int \<Rightarrow> gateway \<Rightarrow> gateway" where
  "close_conn_of j code g = (case jb_conn j of None \<Rightarrow> g | Some cid \<Rightarrow> emit (Closed cid code) g)"

definition result_read :: "gw_env \<Rightarrow> job \<Rightarrow> bool \<Rightarrow> gateway \<Rightarrow> gateway" where
  "result_read env j dbok g =
     (if \<not> dbok then end_job j (close_conn_of j StatusInternalError g)
      else case GetDirective (gw_db g) (jb_id j) of
        None \<Rightarrow> end_job j (detach_ack j g)
      | Some d \<Rightarrow>
          if d_machine d \<noteq> jb_machine j \<or> d_state d \<noteq> DirectiveRunning then end_job j (detach_ack j g)
          else if d_kind d \<noteq> llmKind \<and> MaxMessageBytes < jb_size j then
            end_job j (close_conn_of j ClosePolicy
              (case jb_conn j of None \<Rightarrow> g | Some cid \<Rightarrow> emit (Wrote cid (ErrorMsg ''bad_message'')) g))
          else
            (let g1 = (if d_kind d = llmKind
                       then g\<lparr>gw_jobs := map (\<lambda>x. if jb_id x = jb_id j then x\<lparr>jb_msg := checkLLMResult env (jb_msg x)\<rparr> else x) (gw_jobs g)\<rparr>
                       else g)
             in set_stage (jb_id j) (Saving d) g1))"

definition result_save :: "job \<Rightarrow> directive \<Rightarrow> bool \<Rightarrow> gateway \<Rightarrow> gateway" where
  "result_save j d dbok g =
     (if \<not> dbok then end_job j (close_conn_of j StatusInternalError g)
      else case SaveDirectiveResult (gw_db g) (jb_id j) (Kept (jb_msg j)) of
        Inl e \<Rightarrow> if e = ErrDirectiveClosed then end_job j (detach_ack j g) else end_job j (close_conn_of j StatusInternalError g)
      | Inr db' \<Rightarrow> set_stage (jb_id j) (Completing d) (g\<lparr>gw_db := db'\<rparr>))"

definition tries_of :: "job \<Rightarrow> nat" where
  "tries_of j = (if jb_conn j = None then 1 else completeTries)"

definition outcome_of :: "gw_env \<Rightarrow> directive \<Rightarrow> wire \<Rightarrow> published list \<Rightarrow> outcome" where
  "outcome_of env d m files = (if d_kind d = llmKind then llmCompletion env d m else completion m files)"

text \<open>\<open>finish\<close> up to its last completion; \<open>files\<close> are what \<open>callFiles\<close> reads of the database.\<close>

definition finish :: "gw_env \<Rightarrow> job \<Rightarrow> directive \<Rightarrow> published list \<Rightarrow> (nat \<Rightarrow> tanswer \<times> bool) \<Rightarrow> (nat \<Rightarrow> tanswer \<times> bool) \<Rightarrow> gateway \<Rightarrow> gateway" where
  "finish env j d files answers again g =
     (let m = jb_msg j;
          (g1, a1) = complete (tries_of j) answers (d_token d) (outcome_of env d m files) g;
          (g2, a2) = (if a1 = TInvalid \<and> w_status m = StatusCanceled
                      then complete (tries_of j) again (d_token d)
                        (ApplicationError ''the directive was cancelled on the machine'' ''DirectiveFailed''
                           (Some (RunDetail \<lparr>mr_output = w_output m, mr_progress = w_text m, mr_files = []\<rparr>))) g1
                      else (g1, a1))
      in if a2 = TOk then set_stage (jb_id j) (Closing d (closedState (w_status m))) g2
         else if a2 = TNotFound then set_stage (jb_id j) (Closing d DirectiveGone) g2
         else end_job j g2)"

definition finish_close :: "job \<Rightarrow> directive \<Rightarrow> directive_state \<Rightarrow> bool \<Rightarrow> time \<Rightarrow> gateway \<Rightarrow> gateway" where
  "finish_close j d st dbok now g =
     end_job j (detach_ack j (close_db (d_id d) st (w_error (jb_msg j)) now dbok (clear_note_gw d g)))"

definition find_job :: "gateway \<Rightarrow> string \<Rightarrow> job option" where
  "find_job g did = find (\<lambda>j. jb_id j = did) (gw_jobs g)"

subsection \<open>The sweep: \<open>sweep\<close> and \<open>retryResults\<close>\<close>

definition retry_one :: "gateway \<Rightarrow> directive \<Rightarrow> gateway" where
  "retry_one g d =
     (if completing g (d_id d) then g
      else case d_result d of
        Some (Kept m) \<Rightarrow>
          if w_id m \<noteq> d_id d then g
          else if gw_slots g < maxResultRetries then
            (claim (d_id d) g)\<lparr>gw_slots := gw_slots g + 1,
               gw_jobs := gw_jobs g @ [\<lparr>jb_id = d_id d, jb_conn = None, jb_machine = d_machine d, jb_msg = m, jb_size = 0,
                                        jb_stage = Completing d\<rparr>]\<rparr>
          else g
      | _ \<Rightarrow> g)"

definition retryResults :: "bool \<Rightarrow> gateway \<Rightarrow> gateway" where
  "retryResults dbok g = (if dbok then foldl retry_one g (PendingDirectiveResults (gw_db g)) else g)"

text \<open>The state a directive is closed in, as its machine is told.\<close>

fun state_name :: "directive_state \<Rightarrow> string" where
  "state_name DirectiveReserved = ''reserved''"
| "state_name DirectiveRunning = ''running''"
| "state_name DirectiveCompleted = ''completed''"
| "state_name DirectiveFailed = ''failed''"
| "state_name DirectiveCanceled = ''canceled''"
| "state_name DirectiveStopping = ''machine_stopping''"
| "state_name DirectiveRefused = ''refused''"
| "state_name DirectiveLost = ''lost''"
| "state_name DirectiveRevoked = ''revoked''"
| "state_name DirectiveOrphaned = ''orphaned''"
| "state_name DirectiveExpired = ''expired''"
| "state_name DirectiveGone = ''gone''"

definition drop_swept :: "gateway \<Rightarrow> directive \<Rightarrow> gateway" where
  "drop_swept g d =
     (let g1 = clear_note_gw d g
      in case gw_conns g1 (d_machine d) of None \<Rightarrow> g1
         | Some c \<Rightarrow> if carries c (d_id d)
             then emit (Wrote (cn_id c) (CancelMsg (d_id d) (state_name (d_state d)))) (put_conn (d_machine d) (detach (d_id d) c) g1)
             else g1)"

definition sweep_gw :: "time \<Rightarrow> time \<Rightarrow> time \<Rightarrow> bool \<Rightarrow> bool \<Rightarrow> bool \<Rightarrow> gateway \<Rightarrow> gateway" where
  "sweep_gw at at2 now sweepok enrollok pendok g =
     (let g1 = (if sweepok then let (db', sw) = SweepDirectives (gw_db g) at now in foldl drop_swept (g\<lparr>gw_db := db'\<rparr>) sw else g);
          g2 = (if enrollok then g1\<lparr>gw_db := DeleteExpiredEnrollments (gw_db g1) at2\<rparr> else g1)
      in retryResults pendok g2)"

subsection \<open>Heartbeats\<close>

definition clearAside :: "string \<Rightarrow> conn \<Rightarrow> time \<Rightarrow> bool \<Rightarrow> gateway \<Rightarrow> gateway" where
  "clearAside mid c now dbok g =
     (if (case cn_aside c of None \<Rightarrow> True | Some t \<Rightarrow> now - t \<ge> asideEvery)
      then let g1 = put_conn mid (c\<lparr>cn_aside := Some now\<rparr>) g
           in if dbok then g1\<lparr>gw_db := ClearMachineAside (gw_db g1) mid\<rparr> else g1
      else g)"

text \<open>\<open>heartbeats\<close>: the machine answered its ping. One heartbeat at a time is then under way for each directive it carries, but the ones being completed.\<close>

definition tick :: "string \<Rightarrow> conn \<Rightarrow> time \<Rightarrow> bool \<Rightarrow> gateway \<Rightarrow> gateway" where
  "tick mid c now dbok g = (if dbok then g\<lparr>gw_db := TouchMachines (gw_db g) [m_id (cn_m c)] now\<rparr> else g)"

definition beat_start :: "string \<Rightarrow> conn \<Rightarrow> string \<Rightarrow> gateway \<Rightarrow> gateway" where
  "beat_start mid c did g =
     (case map_of (cn_directives c) did of None \<Rightarrow> g
      | Some a \<Rightarrow> if completing g did then g
          else emit (CalledHeartbeat (at_token a) (at_progress a)) (put_conn mid (c\<lparr>cn_beating := did # cn_beating c\<rparr>) g))"

definition heartbeat :: "string \<Rightarrow> conn \<Rightarrow> string \<Rightarrow> beat_answer \<Rightarrow> bool \<Rightarrow> time \<Rightarrow> gateway \<Rightarrow> gateway" where
  "heartbeat mid c0 did ans dbok now g =
     (if did \<notin> set (cn_beating c0) then g
      else let c = c0\<lparr>cn_beating := remove1 did (cn_beating c0)\<rparr>; g0 = put_conn mid c g in
        case ans of
          BeatOk \<Rightarrow> clearAside mid c now dbok g0
        | BeatCanceled \<Rightarrow>
            (case map_of (cn_directives c) did of None \<Rightarrow> g0
             | Some a \<Rightarrow> if at_cancel_sent a then g0
                 else emit (Wrote (cn_id c) (CancelMsg did ''cancel requested''))
                   (put_conn mid (set_attached did (\<lambda>a. a\<lparr>at_cancel_sent := True\<rparr>) c) g0))
        | BeatNotFound \<Rightarrow>
            (case map_of (cn_directives c) did of None \<Rightarrow> g0
             | Some a \<Rightarrow> close_db did DirectiveGone ''its activity no longer exists'' now dbok
                 (emit (Wrote (cn_id c) (CancelMsg did ''gone'')) (clear_note_gw (at_d a) (put_conn mid (detach did c) g0))))
        | BeatOther \<Rightarrow> g0)"

subsection \<open>Revocation\<close>

definition ReasonByOwner :: string where
  "ReasonByOwner = ''r'' @ [CHR 0xC3, CHR 0xA9] @ ''voqu'' @ [CHR 0xC3, CHR 0xA9] @ ''e par son propri'' @ [CHR 0xC3, CHR 0xA9] @ ''taire''"

definition ReasonTokenReused :: string where
  "ReasonTokenReused = ''jeton remplac'' @ [CHR 0xC3, CHR 0xA9] @ '' pr'' @ [CHR 0xC3, CHR 0xA9] @ ''sent'' @ [CHR 0xC3, CHR 0xA9] @ '' '' @ [CHR 0xC3, CHR 0xA0] @ '' nouveau : une copie existe''"

definition revoke_one :: "gw_env \<Rightarrow> machine_row \<Rightarrow> string \<Rightarrow> (string \<Rightarrow> nat \<Rightarrow> tanswer \<times> bool) \<Rightarrow> gateway \<Rightarrow> directive \<Rightarrow> gateway" where
  "revoke_one env m reason answers g d =
     (let g1 = clear_note_gw d g;
          g2 = (case gw_conns g1 (m_id m) of None \<Rightarrow> g1
                | Some c \<Rightarrow> emit (Wrote (cn_id c) (CancelMsg (d_id d) ''machine revoked'')) (put_conn (m_id m) (detach (d_id d) c) g1))
      in if coalesce (d_token d) = [] then g2
         else fst (complete completeTries (answers (d_id d)) (d_token d)
           (ApplicationError (''machine '' @ ge_quote env (m_name m) @ '' was revoked ('' @ reason @ '') during the directive'') ''MachineRevoked'' None) g2))"

definition revoke :: "gw_env \<Rightarrow> machine_row \<Rightarrow> string \<Rightarrow> bool \<Rightarrow> time \<Rightarrow> (string \<Rightarrow> nat \<Rightarrow> tanswer \<times> bool) \<Rightarrow> gateway \<Rightarrow> gateway \<times> gw_error option" where
  "revoke env m reason dbok now answers g =
     (if \<not> dbok then (g, Some DBAway)
      else case RevokeMachine (gw_db g) (m_id m) reason now of
        Inl e \<Rightarrow> (g, Some MachineUnknown)
      | Inr (db', closed) \<Rightarrow>
          let g1 = foldl (revoke_one env m reason answers) (g\<lparr>gw_db := db'\<rparr>) closed;
              g2 = (case gw_conns g1 (m_id m) of None \<Rightarrow> g1 | Some c \<Rightarrow> emit (Closed (cn_id c) CloseRevoked) g1)
          in (emit (Alerted (m_user m)) g2, None))"

definition Revoke :: "gw_env \<Rightarrow> string \<Rightarrow> string \<Rightarrow> bool \<Rightarrow> bool \<Rightarrow> time \<Rightarrow> (string \<Rightarrow> nat \<Rightarrow> tanswer \<times> bool) \<Rightarrow> gateway \<Rightarrow> gateway \<times> gw_error option" where
  "Revoke env userID machineID getok dbok now answers g =
     (if \<not> getok then (g, Some DBAway)
      else case GetMachine (gw_db g) machineID of None \<Rightarrow> (g, Some MachineUnknown)
      | Some m \<Rightarrow> if m_user m \<noteq> userID then (g, Some MachineUnknown) else revoke env m ReasonByOwner dbok now answers g)"

subsection \<open>A connection's life\<close>

text \<open>\<open>unregister\<close>.\<close>

definition unregister :: "string \<Rightarrow> string \<Rightarrow> bool \<Rightarrow> gateway \<Rightarrow> gateway" where
  "unregister mid cid dbok g =
     (let g1 = (case gw_conns g mid of None \<Rightarrow> g
                | Some c \<Rightarrow> if cn_id c = cid then g\<lparr>gw_conns := (gw_conns g)(mid := None)\<rparr> else g)
      in if dbok then g1\<lparr>gw_db := MachineDisconnected (gw_db g1) mid (gw_id g1)\<rparr> else g1)"

text \<open>\<open>ServeConnect\<close>, up to the accepted WebSocket: \<open>None\<close> when the request is answered 401 or 500.\<close>

definition ServeConnect :: "gw_env \<Rightarrow> string \<Rightarrow> string \<Rightarrow> string \<Rightarrow> bool \<Rightarrow> bool \<Rightarrow> time \<Rightarrow> (string \<Rightarrow> nat \<Rightarrow> tanswer \<times> bool) \<Rightarrow> gateway \<Rightarrow> gateway" where
  "ServeConnect env cid token addr tokok revok now answers g =
     (if token = [] \<or> \<not> tokok then g
      else case MachineByToken (gw_db g) (ge_hash env token) of
        (Some m, TokenRetired) \<Rightarrow> if m_revoked m = None then fst (revoke env m ReasonTokenReused revok now answers g) else g
      | (Some m, TokenCurrent) \<Rightarrow> g\<lparr>gw_opening := (gw_opening g)(cid \<mapsto> (m, ge_hash env token, addr))\<rparr>
      | (Some m, TokenPending) \<Rightarrow> g\<lparr>gw_opening := (gw_opening g)(cid \<mapsto> (m, ge_hash env token, addr))\<rparr>
      | _ \<Rightarrow> g)"

definition firstDuplicate :: "string \<Rightarrow> time \<Rightarrow> gateway \<Rightarrow> gateway \<times> bool" where
  "firstDuplicate machineID now g =
     (if (case gw_dup g machineID of None \<Rightarrow> False | Some t \<Rightarrow> now - t < duplicateAlertEvery) then (g, False)
      else (g\<lparr>gw_dup := (\<lambda>i. case ((gw_dup g)(machineID \<mapsto> now)) i of None \<Rightarrow> None
                             | Some t \<Rightarrow> if now - t \<ge> duplicateAlertEvery then None else Some t)\<rparr>, True))"

definition new_conn :: "string \<Rightarrow> machine_row \<Rightarrow> string \<Rightarrow> string \<Rightarrow> wire \<Rightarrow> conn" where
  "new_conn cid m presented addr hello =
     \<lparr>cn_id = cid, cn_m = m, cn_presented = presented, cn_addr = addr, cn_hello = hello, cn_token_hash = [], cn_ready = False,
      cn_claude_code = [], cn_llm = [], cn_directives = [], cn_aside = None, cn_todo = [], cn_beating = []\<rparr>"

text \<open>
  \<open>register\<close>: \<open>pinged\<close>, the older connection answers its ping; \<open>raced\<close>, another took its place, or the gateway
  stops, before this one does.
\<close>

definition register :: "conn \<Rightarrow> bool \<Rightarrow> bool \<Rightarrow> bool \<Rightarrow> time \<Rightarrow> gateway \<Rightarrow> gateway \<times> bool" where
  "register c pinged raced dbok now g =
     (let mid = m_id (cn_m c) in
      case gw_conns g mid of
        None \<Rightarrow> (put_conn mid c g, True)
      | Some old \<Rightarrow>
          if pinged then
            (let g1 = emit (Closed (cn_id c) CloseDuplicate) (emit (Closed (cn_id old) CloseDuplicate)
                        (emit (Wrote (cn_id c) (ErrorMsg ''duplicate_connection'')) g));
                 (g2, first) = firstDuplicate mid now g1
             in (if first then emit (Alerted (m_user (cn_m c))) g2 else g2, False))
          else let g1 = unregister mid (cn_id old) dbok g
               in if raced then (g1, False) else (put_conn mid c g1, True))"

text \<open>\<open>serve\<close>, first half: the hello is read, and the connection registered. \<open>None\<close>: no message, or no JSON.\<close>

definition serve_hello :: "string \<Rightarrow> wire option \<Rightarrow> nat \<Rightarrow> bool \<Rightarrow> bool \<Rightarrow> bool \<Rightarrow> time \<Rightarrow> gateway \<Rightarrow> gateway" where
  "serve_hello cid msg bytes pinged raced dbok now g =
     (case gw_opening g cid of None \<Rightarrow> g
      | Some (m, presented, addr) \<Rightarrow>
          let g0 = g\<lparr>gw_opening := (gw_opening g)(cid := None)\<rparr>;
              bad = emit (Closed cid ClosePolicy) (emit (Wrote cid (ErrorMsg ''bad_message'')) g0)
          in case msg of None \<Rightarrow> bad
             | Some hello \<Rightarrow>
                 if readLimitFor hello < bytes \<or> w_type hello \<noteq> TypeHello then bad
                 else case CheckFromMachine hello of Inl _ \<Rightarrow> bad
                 | Inr h \<Rightarrow>
                     if w_protocol h < MinProtocol
                     then emit (Closed cid CloseProtocol) (emit (Wrote cid (ErrorMsg ''protocol_too_old'')) g0)
                     else fst (register (new_conn cid m presented addr h) pinged raced dbok now g0))"

definition refuseOrRetry :: "conn \<Rightarrow> db_error option \<Rightarrow> gateway \<Rightarrow> gateway" where
  "refuseOrRetry c e g =
     (if e = Some ErrTokenRefused \<or> e = Some ErrMachineNotFound
      then emit (Closed (cn_id c) CloseRevoked) (emit (Wrote (cn_id c) (ErrorMsg ''revoked'')) g)
      else emit (Closed (cn_id c) StatusInternalError) g)"

definition hello_info :: "wire \<Rightarrow> machine_info" where
  "hello_info h = \<lparr>i_name = [], i_os = w_os h, i_caps = w_caps h, i_max = w_max h, i_version = w_agent_version h,
     i_claude = w_claude_code h, i_max_llm = w_max_llm h, i_llm_provider = w_llm_provider h, i_llm_model = w_llm_model h,
     i_llm_state = w_llm h\<rparr>"

text \<open>A database call that may fail otherwise than its model (\<open>None\<close>).\<close>

definition may_fail :: "bool \<Rightarrow> (db_error, 'a) result \<Rightarrow> (db_error option, 'a) result" where
  "may_fail ok r = (if \<not> ok then Inl None else case r of Inl e \<Rightarrow> Inl (Some e) | Inr x \<Rightarrow> Inr x)"

text \<open>
  \<open>serve\<close>, second half: the token rotates, the connection is recorded, the machine welcomed; from then on \<open>Deliver\<close>
  may send to it. What the hello makes of its directives is left in \<open>cn_todo\<close>.
\<close>

definition serve_welcome :: "gw_env \<Rightarrow> string \<Rightarrow> conn \<Rightarrow> string \<Rightarrow> bool \<Rightarrow> bool \<Rightarrow> bool \<Rightarrow> bool \<Rightarrow> time \<Rightarrow> gateway \<Rightarrow> gateway" where
  "serve_welcome env mid c nextToken rotok connok openok disok now g =
     (case may_fail rotok (RotateMachineToken (gw_db g) mid (cn_presented c) (ge_hash env nextToken)) of
        Inl e \<Rightarrow> unregister mid (cn_id c) disok (refuseOrRetry c e g)
      | Inr db1 \<Rightarrow>
          (case may_fail connok (MachineConnected db1 mid (gw_id g) (cn_addr c) (hello_info (cn_hello c)) now) of
             Inl e \<Rightarrow> unregister mid (cn_id c) disok (refuseOrRetry c e (g\<lparr>gw_db := db1\<rparr>))
           | Inr (db2, prevAddr) \<Rightarrow>
               let g1 = g\<lparr>gw_db := db2\<rparr>;
                   g2 = (if prevAddr \<noteq> [] \<and> cn_addr c \<noteq> [] \<and> prevAddr \<noteq> cn_addr c then emit (Alerted (m_user (cn_m c))) g1 else g1);
                   g3 = emit (Wrote (cn_id c) (RotateMsg nextToken)) (emit (Wrote (cn_id c) (WelcomeMsg mid (m_name (cn_m c)))) g2);
                   plan = (if openok then reconcile (OpenDirectives db2 mid) (w_running (cn_hello c)) (w_finished (cn_hello c)) (cn_id c)
                           else reconcile [] [] [] [])
               in put_conn mid (c\<lparr>cn_token_hash := ge_hash env nextToken, cn_claude_code := w_claude_code (cn_hello c),
                                  cn_llm := w_llm (cn_hello c), cn_ready := True, cn_todo := todos plan\<rparr>) g3))"

definition do_todo :: "gw_env \<Rightarrow> string \<Rightarrow> conn \<Rightarrow> bool \<Rightarrow> time \<Rightarrow> (nat \<Rightarrow> tanswer \<times> bool) \<Rightarrow> gateway \<Rightarrow> gateway" where
  "do_todo env mid c dbok now answers g =
     (case cn_todo c of [] \<Rightarrow> g
      | t # ts \<Rightarrow>
          let c1 = c\<lparr>cn_todo := ts\<rparr>; g1 = put_conn mid c1 g in
          case t of
            Attach d \<Rightarrow> put_conn mid (attach d c1) g1
          | TellCancel i \<Rightarrow> emit (Wrote (cn_id c) (CancelMsg i ''closed'')) g1
          | TellAck i \<Rightarrow> emit (Wrote (cn_id c) (AckMsg i)) g1
          | Send d \<Rightarrow> send c1 d dbok g1
          | Lose d \<Rightarrow> lose env c1 d dbok now answers g1)"

subsection \<open>The messages of a connected machine: \<open>readLoop\<close>\<close>

definition progress_msg :: "string \<Rightarrow> conn \<Rightarrow> string \<Rightarrow> string \<Rightarrow> time \<Rightarrow> gateway \<Rightarrow> gateway" where
  "progress_msg mid c did words now g =
     (case map_of (cn_directives c) did of None \<Rightarrow> g
      | Some a \<Rightarrow>
          let every = (if gw_note_every g \<le> 0 then defaultNoteEvery else gw_note_every g);
              shown = (case at_note a of None \<Rightarrow> True | Some t \<Rightarrow> now - t \<ge> every);
              g1 = put_conn mid (set_attached did (\<lambda>a. a\<lparr>at_progress := words, at_note := (if shown then Some now else at_note a)\<rparr>) c) g
          in if shown then note_gw (at_d a) (m_name (cn_m c)) words g1 else g1)"

definition status_msg :: "string \<Rightarrow> conn \<Rightarrow> wire \<Rightarrow> bool \<Rightarrow> gateway \<Rightarrow> gateway" where
  "status_msg mid c m dbok g =
     (case may_fail dbok (UpdateMachineStatus (gw_db g) mid (w_caps m) (w_claude_code m) (w_llm m)) of
        Inl _ \<Rightarrow> g
      | Inr db' \<Rightarrow>
          let g1 = g\<lparr>gw_db := db'\<rparr>;
              user = m_user (cn_m c);
              g2 = (if cn_llm c = LLMStateOK \<and> w_llm m = LLMStateRefused then emit (Alerted user) g1 else g1);
              was = cn_claude_code c;
              g3 = put_conn mid (c\<lparr>cn_llm := w_llm m, cn_claude_code := w_claude_code m\<rparr>) g2
          in if was = ''ok'' \<and> w_claude_code m = ''logged_out'' then emit (Alerted user) g3
             else if was = ''logged_out'' \<and> w_claude_code m = ''ok'' then emit (Alerted user) g3
             else g3)"

text \<open>One message read: \<open>None\<close>, one that is no JSON. A connection it ends is unregistered.\<close>

definition read_message :: "string \<Rightarrow> conn \<Rightarrow> wire option \<Rightarrow> nat \<Rightarrow> bool \<Rightarrow> bool \<Rightarrow> bool \<Rightarrow> time \<Rightarrow> gateway \<Rightarrow> gateway" where
  "read_message mid c msg bytes allow dbok disok now g =
     (let bad = (\<lambda>g. unregister mid (cn_id c) disok (emit (Closed (cn_id c) ClosePolicy) (emit (Wrote (cn_id c) (ErrorMsg ''bad_message'')) g)))
      in case msg of None \<Rightarrow> bad g
         | Some m \<Rightarrow>
             if readLimitFor m < bytes then bad g
             else if \<not> allow then unregister mid (cn_id c) disok (emit (Closed (cn_id c) ClosePolicy) g)
             else case CheckFromMachine m of Inl _ \<Rightarrow> bad g
             | Inr m' \<Rightarrow>
                 if w_type m' = TypeRotated then
                   (case may_fail dbok (ConfirmMachineToken (gw_db g) mid (cn_token_hash c)) of Inl _ \<Rightarrow> g | Inr db' \<Rightarrow> g\<lparr>gw_db := db'\<rparr>)
                 else if w_type m' = TypeProgress then progress_msg mid c (w_id m') (w_text m') now g
                 else if w_type m' = TypeCapabilities then status_msg mid c m' dbok g
                 else if w_type m' = TypeResult then
                   (if completing g (w_id m') then g
                    else (claim (w_id m') g)\<lparr>gw_jobs := gw_jobs g @ [\<lparr>jb_id = w_id m', jb_conn = Some (cn_id c), jb_machine = mid,
                            jb_msg = m', jb_size = bytes, jb_stage = Reading\<rparr>]\<rparr>)
                 else bad g)"

subsection \<open>The steps\<close>

datatype gw_op =
    GWorker directive_op
  | GConnect string string string bool bool time "string \<Rightarrow> nat \<Rightarrow> tanswer \<times> bool"
  | GHello string "wire option" nat bool bool bool time
  | GWelcome string string bool bool bool bool time
  | GTodo string bool time "nat \<Rightarrow> tanswer \<times> bool"
  | GMessage string "wire option" nat bool bool bool time
  | GTick string time bool
  | GBeat string string
  | GBeatAnswer string string beat_answer bool time
  | GDeliver string bool bool
  | GDeliverLLM string string bool bool bool bool string time
  | GRead string bool
  | GSave string bool
  | GFinish string "published list" "nat \<Rightarrow> tanswer \<times> bool" "nat \<Rightarrow> tanswer \<times> bool"
  | GClose string bool time
  | GSweep time time time bool bool bool
  | GRevoke string string bool bool time "string \<Rightarrow> nat \<Rightarrow> tanswer \<times> bool"
  | GDrop string bool

definition with_conn :: "string \<Rightarrow> (conn \<Rightarrow> gateway) \<Rightarrow> gateway \<Rightarrow> gateway" where
  "with_conn mid f g = (case gw_conns g mid of None \<Rightarrow> g | Some c \<Rightarrow> f c)"

definition with_job :: "string \<Rightarrow> (job \<Rightarrow> gateway) \<Rightarrow> gateway \<Rightarrow> gateway" where
  "with_job did f g = (case find_job g did of None \<Rightarrow> g | Some j \<Rightarrow> f j)"

text \<open>A connection is welcomed once; it reads and pings once its plan is done.\<close>

definition serving :: "conn \<Rightarrow> bool" where
  "serving c = (cn_ready c \<and> cn_todo c = [])"

fun gw_step :: "gw_env \<Rightarrow> gateway \<Rightarrow> gw_op \<Rightarrow> gateway" where
  "gw_step env g (GWorker op) = g\<lparr>gw_db := directive_step (gw_db g) op\<rparr>"
| "gw_step env g (GConnect cid token addr tokok revok now answers) = ServeConnect env cid token addr tokok revok now answers g"
| "gw_step env g (GHello cid msg bytes pinged raced dbok now) = serve_hello cid msg bytes pinged raced dbok now g"
| "gw_step env g (GWelcome mid nextToken rotok connok openok disok now) =
     with_conn mid (\<lambda>c. if cn_ready c then g else serve_welcome env mid c nextToken rotok connok openok disok now g) g"
| "gw_step env g (GTodo mid dbok now answers) = with_conn mid (\<lambda>c. do_todo env mid c dbok now answers g) g"
| "gw_step env g (GMessage mid msg bytes allow dbok disok now) =
     with_conn mid (\<lambda>c. if serving c then read_message mid c msg bytes allow dbok disok now g else g) g"
| "gw_step env g (GTick mid now dbok) = with_conn mid (\<lambda>c. if serving c then tick mid c now dbok g else g) g"
| "gw_step env g (GBeat mid did) = with_conn mid (\<lambda>c. if serving c then beat_start mid c did g else g) g"
| "gw_step env g (GBeatAnswer mid did ans dbok now) = with_conn mid (\<lambda>c. heartbeat mid c did ans dbok now g) g"
| "gw_step env g (GDeliver did getok markok) = fst (Deliver did getok markok g)"
| "gw_step env g (GDeliverLLM did request getok markok written closeok why now) =
     fst (DeliverLLM did request getok markok written closeok why now g)"
| "gw_step env g (GRead did dbok) = with_job did (\<lambda>j. case jb_stage j of Reading \<Rightarrow> result_read env j dbok g | _ \<Rightarrow> g) g"
| "gw_step env g (GSave did dbok) = with_job did (\<lambda>j. case jb_stage j of Saving d \<Rightarrow> result_save j d dbok g | _ \<Rightarrow> g) g"
| "gw_step env g (GFinish did files answers again) =
     with_job did (\<lambda>j. case jb_stage j of Completing d \<Rightarrow> finish env j d files answers again g | _ \<Rightarrow> g) g"
| "gw_step env g (GClose did dbok now) =
     with_job did (\<lambda>j. case jb_stage j of Closing d st \<Rightarrow> finish_close j d st dbok now g | _ \<Rightarrow> g) g"
| "gw_step env g (GSweep at at2 now sweepok enrollok pendok) = sweep_gw at at2 now sweepok enrollok pendok g"
| "gw_step env g (GRevoke userID mid getok dbok now answers) = fst (Revoke env userID mid getok dbok now answers g)"
| "gw_step env g (GDrop mid disok) = with_conn mid (\<lambda>c. unregister mid (cn_id c) disok g) g"

text \<open>
  The workers reserve, start and close directives, never mark one sent nor keep a result; a connection has a name
  (\<open>c-\<close> and a UUID).
\<close>

fun gw_op_ok :: "gw_op \<Rightarrow> bool" where
  "gw_op_ok (GWorker op) = (case op of DSent _ _ \<Rightarrow> False | DResult _ _ \<Rightarrow> False | DSweep _ _ \<Rightarrow> False
      | DClose _ st _ _ \<Rightarrow> st \<noteq> DirectiveReserved \<and> st \<noteq> DirectiveRunning | _ \<Rightarrow> True)"
| "gw_op_ok (GConnect cid _ _ _ _ _ _) = (cid \<noteq> [])"
| "gw_op_ok _ = True"

text \<open>\<open>Start\<close>: no connection is held; the directives' IDs are the key of their table.\<close>

definition started :: "gateway \<Rightarrow> bool" where
  "started g \<longleftrightarrow> gw_opening g = Map.empty \<and> gw_conns g = Map.empty \<and> gw_claimed g = [] \<and> gw_slots g = 0 \<and> gw_jobs g = []
     \<and> gw_trace g = [] \<and> distinct (map d_id (directives (gw_db g)))"

inductive reached :: "gw_env \<Rightarrow> gateway \<Rightarrow> bool" for env where
  reached_start: "started g \<Longrightarrow> reached env g"
| reached_step: "reached env g \<Longrightarrow> gw_op_ok op \<Longrightarrow> reached env (gw_step env g op)"

end
