(* ===== verification/GatewayRuns.thy ===== *)
theory GatewayRuns
  imports Gateway
begin

section \<open>Runs of the gateway: its invariant and what it promises\<close>

text \<open>
  Any interleaving of the steps of \<open>Gateway\<close>: what a step keeps of the directives' rows (\<open>evolves\<close>), the invariant of
  the gateway (\<open>gw_inv\<close>: the directives handed over, the results under way), kept by every step, and the properties that
  follow. A step that hands nothing over and ends no result is quiet (\<open>gw_quiet\<close>); most of the handlers are made of quiet pieces.
\<close>

subsection \<open>What a step keeps of the rows\<close>

definition ids_ok :: "mdb \<Rightarrow> bool" where
  "ids_ok db = distinct (map d_id (directives db))"

definition row_follows :: "directive \<Rightarrow> directive \<Rightarrow> bool" where
  "row_follows d d' \<longleftrightarrow> d_id d' = d_id d \<and> d_machine d' = d_machine d \<and> (d_sent_conn d \<noteq> [] \<longrightarrow> d_sent_conn d' = d_sent_conn d)
     \<and> (d_state d \<noteq> DirectiveReserved \<longrightarrow> d_token d' = d_token d \<and> d_state d' \<noteq> DirectiveReserved)"

definition evolves :: "mdb \<Rightarrow> mdb \<Rightarrow> bool" where
  "evolves db db' \<longleftrightarrow> (ids_ok db \<longrightarrow> ids_ok db') \<and> (\<forall>d \<in> set (directives db). \<exists>d' \<in> set (directives db'). row_follows d d')"

lemma row_follows_refl [simp, intro]: "row_follows d d"
  by (simp add: row_follows_def)

lemma row_follows_trans: "row_follows a b \<Longrightarrow> row_follows b c \<Longrightarrow> row_follows a c"
  by (auto simp: row_follows_def)

lemma evolves_refl [simp, intro]: "evolves db db"
  by (auto simp: evolves_def)

lemma evolves_trans: "evolves a b \<Longrightarrow> evolves b c \<Longrightarrow> evolves a c"
  unfolding evolves_def by (meson row_follows_trans)

lemma evolves_same: "directives db' = directives db \<Longrightarrow> evolves db db'"
  by (auto simp: evolves_def ids_ok_def)

lemma evolves_update:
  assumes "\<And>d. P d \<Longrightarrow> row_follows d (f d)"
  shows "evolves db (update_directives P f db)"
proof -
  let ?f = "\<lambda>d. if P d then f d else d"
  have k: "row_follows d (?f d)" for d using assms by simp
  then have "d_id (?f d) = d_id d" for d by (simp add: row_follows_def)
  then have "map d_id (map ?f (directives db)) = map d_id (directives db)" by simp
  then have "ids_ok (update_directives P f db) = ids_ok db" by (simp only: ids_ok_def update_directives_simps)
  moreover have "\<exists>d' \<in> set (directives (update_directives P f db)). row_follows d d'" if "d \<in> set (directives db)" for d
    using k [of d] that unfolding update_directives_simps set_map by blast
  ultimately show ?thesis by (simp add: evolves_def)
qed

lemma evolves_insert: "insert_directive db d = Inr db' \<Longrightarrow> evolves db db'"
  by (fastforce simp: insert_directive_def evolves_def ids_ok_def list_ex_iff split: if_splits)

lemma evolves_mark: "evolves db (fst (MarkDirectiveSent db did cid))"
  unfolding MarkDirectiveSent_def Let_def fst_conv by (rule evolves_update) (auto simp: row_follows_def)

lemma evolves_close: "st \<noteq> DirectiveReserved \<Longrightarrow> evolves db (fst (CloseDirective db did st e now))"
  unfolding CloseDirective_def Let_def fst_conv by (rule evolves_update) (auto simp: row_follows_def)

lemma evolves_sweep: "evolves db (fst (SweepDirectives db at now))"
  unfolding SweepDirectives_def fst_conv by (rule evolves_update) (auto simp: row_follows_def sweep_one_def swept_def)

lemma evolves_save: "SaveDirectiveResult db did r = Inr db' \<Longrightarrow> evolves db db'"
  unfolding SaveDirectiveResult_def Let_def
  by (auto simp: row_follows_def split: if_splits intro!: evolves_update)

lemma evolves_worker: "gw_op_ok (GWorker op) \<Longrightarrow> evolves db (directive_step db op)"
proof (cases op)
  case (DPick req now)
  then show ?thesis
    by (cases "PickMachine db req now") (auto elim!: pick_form intro: evolves_insert)
next
  case (DCreateLLM req now)
  then show ?thesis
    by (cases "CreateLLMDirective db req now") (auto dest!: create_llm_form intro: evolves_insert)
next
  case (DStart did token act deadline now)
  then show ?thesis
    by (auto simp: StartDirective_def Let_def row_follows_def split: option.splits intro!: evolves_update)
qed (auto intro: evolves_close)

lemma machine_ops_directives [simp]:
  "directives (update_machines P f db) = directives db"
  "directives (retireTokens db mid hs) = directives db"
  "directives (MachineDisconnected db mid gid) = directives db"
  "directives (TouchMachines db ids now) = directives db"
  "directives (ClearMachineAside db mid) = directives db"
  "directives (DeleteExpiredEnrollments db now) = directives db"
  by (simp_all add: update_machines_def retireTokens_def MachineDisconnected_def TouchMachines_def ClearMachineAside_def
      DeleteExpiredEnrollments_def)

lemma rotate_directives: "RotateMachineToken db mid p n = Inr db' \<Longrightarrow> directives db' = directives db"
  by (auto simp: RotateMachineToken_def split: option.splits prod.splits if_splits)

lemma confirm_directives: "ConfirmMachineToken db mid h = Inr db' \<Longrightarrow> directives db' = directives db"
  by (auto simp: ConfirmMachineToken_def split: option.splits prod.splits if_splits)

lemma connected_directives: "MachineConnected db mid gid addr i now = Inr (db', p) \<Longrightarrow> directives db' = directives db"
  by (auto simp: MachineConnected_def split: option.splits)

lemma status_directives: "UpdateMachineStatus db mid c cc l = Inr db' \<Longrightarrow> directives db' = directives db"
  by (auto simp: UpdateMachineStatus_def affectedOne_def split: if_splits)

lemma evolves_revoke: "RevokeMachine db mid reason now = Inr (db', ds) \<Longrightarrow> evolves db db'"
proof -
  assume "RevokeMachine db mid reason now = Inr (db', ds)"
  then have "db' = db \<or> directives db' = directives (update_directives (\<lambda>d. d_machine d = mid \<and> is_open d)
      (\<lambda>d. d\<lparr>d_state := DirectiveRevoked, d_closed := Some now, d_error := reason\<rparr>) db)"
    by (auto simp: RevokeMachine_def Let_def split: option.splits if_splits)
  then show ?thesis
  proof
    let ?P = "\<lambda>d. d_machine d = mid \<and> is_open d"
    let ?f = "\<lambda>d. d\<lparr>d_state := DirectiveRevoked, d_closed := Some now, d_error := reason\<rparr>"
    have "evolves db (update_directives ?P ?f db)" by (rule evolves_update) (simp add: row_follows_def)
    then show "evolves db db'" if "directives db' = directives (update_directives ?P ?f db)"
      using evolves_trans evolves_same [OF that] by blast
  qed simp
qed

subsection \<open>The invariant\<close>

text \<open>The directives written to a machine, with the connection each went on.\<close>

fun sent_of :: "gw_event \<Rightarrow> (string \<times> string) list" where
  "sent_of (Wrote cid (DirectiveMsg did k i d)) = [(cid, did)]"
| "sent_of _ = []"

definition sends :: "gw_event list \<Rightarrow> (string \<times> string) list" where
  "sends tr = concat (map sent_of tr)"

text \<open>A message that acks a result: its machine forgets it.\<close>

fun is_ack :: "string \<Rightarrow> gw_event \<Rightarrow> bool" where
  "is_ack did (Wrote cid (AckMsg i)) = (i = did)"
| "is_ack did _ = False"

definition conns_ok :: "gateway \<Rightarrow> bool" where
  "conns_ok g \<longleftrightarrow> (\<forall>cid x. gw_opening g cid = Some x \<longrightarrow> cid \<noteq> [])
     \<and> (\<forall>mid c. gw_conns g mid = Some c \<longrightarrow> m_id (cn_m c) = mid \<and> cn_id c \<noteq> [])"

definition sends_ok :: "gateway \<Rightarrow> bool" where
  "sends_ok g \<longleftrightarrow> distinct (map snd (sends (gw_trace g)))
     \<and> (\<forall>(cid, did) \<in> set (sends (gw_trace g)). cid \<noteq> [] \<and> (\<exists>d \<in> set (directives (gw_db g)). d_id d = did \<and> d_sent_conn d = cid))"

text \<open>Temporal answered a completion for good: done, or its activity gone.\<close>

definition answered :: "gw_event list \<Rightarrow> string option \<Rightarrow> bool" where
  "answered tr token \<longleftrightarrow> (\<exists>what a. CalledComplete token what a \<in> set tr \<and> (a = TOk \<or> a = TNotFound))"

definition known :: "gateway \<Rightarrow> job \<Rightarrow> directive \<Rightarrow> bool" where
  "known g j d \<longleftrightarrow> d_id d = jb_id j \<and> d_machine d = jb_machine j \<and> d_state d = DirectiveRunning
     \<and> (\<exists>x \<in> set (directives (gw_db g)). row_follows d x)"

fun stage_ok :: "gateway \<Rightarrow> job \<Rightarrow> stage \<Rightarrow> bool" where
  "stage_ok g j Reading = True"
| "stage_ok g j (Saving d) = known g j d"
| "stage_ok g j (Completing d) = known g j d"
| "stage_ok g j (Closing d st) = (known g j d \<and> st \<noteq> DirectiveReserved \<and> st \<noteq> DirectiveRunning \<and> answered (gw_trace g) (d_token d))"

definition jobs_ok :: "gateway \<Rightarrow> bool" where
  "jobs_ok g \<longleftrightarrow> distinct (map jb_id (gw_jobs g)) \<and> set (gw_claimed g) = set (map jb_id (gw_jobs g))
     \<and> gw_slots g = length (filter (\<lambda>j. jb_conn j = None) (gw_jobs g)) \<and> gw_slots g \<le> maxResultRetries
     \<and> (\<forall>j \<in> set (gw_jobs g). stage_ok g j (jb_stage j))"

definition gw_inv :: "gateway \<Rightarrow> bool" where
  "gw_inv g \<longleftrightarrow> ids_ok (gw_db g) \<and> conns_ok g \<and> sends_ok g \<and> jobs_ok g"

text \<open>A quiet step hands nothing over and leaves the results under way as they are.\<close>

definition gw_quiet :: "gateway \<Rightarrow> gateway \<Rightarrow> bool" where
  "gw_quiet g g' \<longleftrightarrow> gw_jobs g' = gw_jobs g \<and> gw_claimed g' = gw_claimed g \<and> gw_slots g' = gw_slots g
     \<and> evolves (gw_db g) (gw_db g') \<and> sends (gw_trace g') = sends (gw_trace g) \<and> set (gw_trace g) \<subseteq> set (gw_trace g')
     \<and> (conns_ok g \<longrightarrow> conns_ok g')"

lemma sends_append [simp]: "sends (a @ b) = sends a @ sends b" "sends [] = []" "sends [e] = sent_of e"
  by (simp_all add: sends_def)

lemma gw_quiet_refl [simp, intro]: "gw_quiet g g"
  by (simp add: gw_quiet_def)

lemma gw_quiet_trans [trans]: "gw_quiet a b \<Longrightarrow> gw_quiet b c \<Longrightarrow> gw_quiet a c"
  unfolding gw_quiet_def using evolves_trans by auto

lemma known_evolves:
  assumes "known g j d" and "evolves (gw_db g) (gw_db g')" and "jb_id j' = jb_id j" and "jb_machine j' = jb_machine j"
  shows "known g' j' d"
proof -
  from assms(1) obtain x where "x \<in> set (directives (gw_db g))" "row_follows d x" by (auto simp: known_def)
  with assms(2) obtain y where "y \<in> set (directives (gw_db g'))" "row_follows d y"
    unfolding evolves_def by (meson row_follows_trans)
  with assms(1,3,4) show ?thesis by (auto simp: known_def)
qed

lemma stage_ok_evolves:
  assumes "stage_ok g j st" and "evolves (gw_db g) (gw_db g')" and "set (gw_trace g) \<subseteq> set (gw_trace g')"
    and "jb_id j' = jb_id j" and "jb_machine j' = jb_machine j"
  shows "stage_ok g' j' st"
  using assms known_evolves [OF _ assms(2,4,5)] by (cases st) (auto simp: answered_def)

lemma sends_ok_evolves:
  assumes "sends_ok g" and "evolves (gw_db g) (gw_db g')" and "sends (gw_trace g') = sends (gw_trace g)"
  shows "sends_ok g'"
proof -
  have "\<exists>y \<in> set (directives (gw_db g')). d_id y = did \<and> d_sent_conn y = cid"
    if "cid \<noteq> []" "x \<in> set (directives (gw_db g))" "d_id x = did" "d_sent_conn x = cid" for cid did x
    using assms(2) that unfolding evolves_def row_follows_def by metis
  with assms(1,3) show ?thesis unfolding sends_ok_def by fastforce
qed

lemma inv_quiet:
  assumes "gw_inv g" and "gw_quiet g g'"
  shows "gw_inv g'"
proof -
  from assms have ev: "evolves (gw_db g) (gw_db g')" and tr: "set (gw_trace g) \<subseteq> set (gw_trace g')"
    and same: "gw_jobs g' = gw_jobs g" "gw_claimed g' = gw_claimed g" "gw_slots g' = gw_slots g"
    by (auto simp: gw_quiet_def)
  have "stage_ok g' j (jb_stage j)" if "j \<in> set (gw_jobs g)" for j
    using assms(1) that stage_ok_evolves [OF _ ev tr] by (auto simp: gw_inv_def jobs_ok_def)
  then have "jobs_ok g'" using assms(1) same by (simp add: gw_inv_def jobs_ok_def)
  moreover have "sends_ok g'" using assms sends_ok_evolves [OF _ ev] by (simp add: gw_inv_def gw_quiet_def)
  moreover have "ids_ok (gw_db g')" "conns_ok g'" using assms by (auto simp: gw_inv_def gw_quiet_def evolves_def)
  ultimately show ?thesis by (simp add: gw_inv_def)
qed

subsubsection \<open>Quiet pieces\<close>

lemma emit_simps [simp]:
  "gw_db (emit e g) = gw_db g" "gw_jobs (emit e g) = gw_jobs g" "gw_claimed (emit e g) = gw_claimed g"
  "gw_slots (emit e g) = gw_slots g" "gw_conns (emit e g) = gw_conns g" "gw_opening (emit e g) = gw_opening g"
  "gw_trace (emit e g) = gw_trace g @ [e]" "gw_notice (emit e g) = gw_notice g" "gw_id (emit e g) = gw_id g"
  by (simp_all add: emit_def)

lemma conns_ok_more [simp]:
  "conns_ok (emit e g) = conns_ok g" "conns_ok (g\<lparr>gw_db := db\<rparr>) = conns_ok g" "conns_ok (g\<lparr>gw_jobs := js\<rparr>) = conns_ok g"
  "conns_ok (g\<lparr>gw_claimed := cs\<rparr>) = conns_ok g" "conns_ok (g\<lparr>gw_slots := n\<rparr>) = conns_ok g" "conns_ok (g\<lparr>gw_dup := dp\<rparr>) = conns_ok g"
  by (simp_all add: conns_ok_def)

lemma gw_quiet_emit: "sent_of e = [] \<Longrightarrow> gw_quiet g (emit e g)"
  by (auto simp: gw_quiet_def)

lemma gw_quiet_db: "evolves (gw_db g) db \<Longrightarrow> gw_quiet g (g\<lparr>gw_db := db\<rparr>)"
  by (simp add: gw_quiet_def)

lemma gw_quiet_put: "gw_conns g mid = Some c0 \<Longrightarrow> cn_id c = cn_id c0 \<Longrightarrow> cn_m c = cn_m c0 \<Longrightarrow> gw_quiet g (put_conn mid c g)"
  by (auto simp: gw_quiet_def put_conn_def conns_ok_def)

lemma gw_quiet_put_new: "m_id (cn_m c) = mid \<Longrightarrow> cn_id c \<noteq> [] \<Longrightarrow> gw_quiet g (put_conn mid c g)"
  by (auto simp: gw_quiet_def put_conn_def conns_ok_def)

lemma gw_quiet_note: "gw_quiet g (note_gw d n p g)"
  by (auto simp: note_gw_def intro: gw_quiet_emit)

lemma gw_quiet_clear: "gw_quiet g (clear_note_gw d g)"
  by (auto simp: clear_note_gw_def intro: gw_quiet_emit)

lemma gw_quiet_close_db: "st \<noteq> DirectiveReserved \<Longrightarrow> gw_quiet g (close_db did st e now ok g)"
  by (auto simp: close_db_def intro: gw_quiet_db evolves_close)

lemma gw_quiet_foldl: "(\<And>g x. x \<in> set xs \<Longrightarrow> gw_quiet g (f g x)) \<Longrightarrow> gw_quiet g (foldl f g xs)"
proof (induction xs arbitrary: g)
  case (Cons x xs)
  have "gw_quiet g (f g x)" using Cons.prems by simp
  also have "gw_quiet (f g x) (foldl f (f g x) xs)" using Cons by simp
  finally show ?case by simp
qed simp

lemma complete_form: "complete n answers token what g = (foldl (\<lambda>g a. emit (CalledComplete token what a) g) g (complete_tries n 0 answers),
     if complete_tries n 0 answers = [] then TOk else last (complete_tries n 0 answers))"
  by (simp add: complete_def Let_def)

lemma gw_quiet_complete: "gw_quiet g (fst (complete n answers token what g))"
  unfolding complete_form fst_conv by (rule gw_quiet_foldl) (simp add: gw_quiet_emit)

lemma attach_simps [simp]:
  "cn_id (attach d c) = cn_id c" "cn_m (attach d c) = cn_m c" "cn_todo (attach d c) = cn_todo c"
  "cn_id (detach i c) = cn_id c" "cn_m (detach i c) = cn_m c"
  "cn_id (set_attached i f c) = cn_id c" "cn_m (set_attached i f c) = cn_m c"
  by (simp_all add: attach_def detach_def set_attached_def)

lemma gw_quiet_on_conn: "(\<And>c. cn_id (f c) = cn_id c \<and> cn_m (f c) = cn_m c) \<Longrightarrow> gw_quiet g (on_conn mid cid f g)"
  by (auto simp: on_conn_def split: option.split intro: gw_quiet_put)

lemma gw_quiet_unregister: "gw_quiet g (unregister mid cid ok g)"
proof -
  let ?g1 = "case gw_conns g mid of None \<Rightarrow> g | Some c \<Rightarrow> if cn_id c = cid then g\<lparr>gw_conns := (gw_conns g)(mid := None)\<rparr> else g"
  have "gw_quiet g ?g1" by (auto simp: gw_quiet_def conns_ok_def split: option.split)
  also have "gw_quiet ?g1 (unregister mid cid ok g)"
    unfolding unregister_def Let_def by (auto intro!: gw_quiet_db evolves_same)
  finally show ?thesis .
qed

lemma gw_quiet_clearAside: "gw_conns g mid = Some c0 \<Longrightarrow> cn_id c = cn_id c0 \<Longrightarrow> cn_m c = cn_m c0 \<Longrightarrow> gw_quiet g (clearAside mid c now ok g)"
proof -
  assume a: "gw_conns g mid = Some c0" "cn_id c = cn_id c0" "cn_m c = cn_m c0"
  let ?g1 = "put_conn mid (c\<lparr>cn_aside := Some now\<rparr>) g"
  have "gw_quiet g ?g1" using a by (auto intro: gw_quiet_put)
  moreover have "gw_quiet ?g1 (?g1\<lparr>gw_db := ClearMachineAside (gw_db ?g1) mid\<rparr>)" by (rule gw_quiet_db) (rule evolves_same, simp)
  ultimately show ?thesis by (auto simp: clearAside_def Let_def intro: gw_quiet_trans)
qed

lemma put_conn_simps [simp]:
  "gw_conns (put_conn mid c g) mid = Some c" "gw_db (put_conn mid c g) = gw_db g" "gw_jobs (put_conn mid c g) = gw_jobs g"
  "gw_trace (put_conn mid c g) = gw_trace g" "gw_claimed (put_conn mid c g) = gw_claimed g" "gw_slots (put_conn mid c g) = gw_slots g"
  by (simp_all add: put_conn_def)

lemma clear_gw_conns [simp]: "gw_conns (clear_note_gw d g) = gw_conns g" "gw_conns (note_gw d n p g) = gw_conns g"
  by (simp_all add: clear_note_gw_def note_gw_def)

lemma gw_quiet_heartbeat:
  assumes "gw_conns g mid = Some c0"
  shows "gw_quiet g (heartbeat mid c0 did ans ok now g)"
proof (cases "did \<in> set (cn_beating c0)")
  case True
  define c where "c = c0\<lparr>cn_beating := remove1 did (cn_beating c0)\<rparr>"
  have [simp]: "cn_id c = cn_id c0" "cn_m c = cn_m c0" by (simp_all add: c_def)
  define g0 where "g0 = put_conn mid c g"
  have g0: "gw_quiet g g0" using assms by (auto simp: g0_def intro: gw_quiet_put)
  have [simp]: "gw_conns g0 mid = Some c" by (simp add: g0_def)
  have put: "gw_quiet g0 (put_conn mid x g0)" if "cn_id x = cn_id c0" "cn_m x = cn_m c0" for x
    using that by (intro gw_quiet_put [of g0 mid c]) auto
  have "gw_quiet g0 (heartbeat mid c0 did ans ok now g)"
  proof (cases ans)
    case BeatOk
    then show ?thesis using True gw_quiet_clearAside [of g0 mid c c now ok]
      unfolding heartbeat_def Let_def g0_def c_def by simp
  next
    case BeatCanceled
    then show ?thesis using True gw_quiet_trans [OF put gw_quiet_emit]
      unfolding heartbeat_def Let_def c_def [symmetric] g0_def [symmetric] by (auto split: option.split)
  next
    case BeatNotFound
    then show ?thesis
    proof (cases "map_of (cn_directives c) did")
      case (Some a)
      have "gw_quiet g0 (put_conn mid (detach did c) g0)" by (rule put) auto
      also note gw_quiet_clear [of _ "at_d a"]
      also note gw_quiet_emit [of "Wrote (cn_id c) (CancelMsg did ''gone'')"]
      also note gw_quiet_close_db [of DirectiveGone _ did "''its activity no longer exists''" now ok]
      finally show ?thesis using True Some BeatNotFound
        unfolding heartbeat_def Let_def c_def [symmetric] g0_def [symmetric] by simp
    qed (use True BeatNotFound in \<open>simp add: heartbeat_def Let_def c_def [symmetric] g0_def [symmetric]\<close>)
  next
    case BeatOther
    then show ?thesis using True unfolding heartbeat_def Let_def c_def [symmetric] g0_def [symmetric] by simp
  qed
  with g0 show ?thesis by (rule gw_quiet_trans)
qed (simp add: heartbeat_def)

lemma gw_quiet_drop_swept: "gw_quiet g (drop_swept g d)"
proof -
  have "gw_quiet g (clear_note_gw d g)" by (rule gw_quiet_clear)
  also have "gw_quiet (clear_note_gw d g) (drop_swept g d)"
    unfolding drop_swept_def Let_def
    by (auto split: option.split intro!: gw_quiet_trans [OF gw_quiet_put gw_quiet_emit])
  finally show ?thesis .
qed

lemma gw_quiet_revoke_one: "gw_quiet g (revoke_one env m reason answers g d)"
proof -
  define g2 where "g2 = (case gw_conns (clear_note_gw d g) (m_id m) of None \<Rightarrow> clear_note_gw d g
     | Some c \<Rightarrow> emit (Wrote (cn_id c) (CancelMsg (d_id d) ''machine revoked'')) (put_conn (m_id m) (detach (d_id d) c) (clear_note_gw d g)))"
  have "gw_quiet g (clear_note_gw d g)" by (rule gw_quiet_clear)
  also have "gw_quiet (clear_note_gw d g) g2"
    unfolding g2_def by (auto split: option.split intro!: gw_quiet_trans [OF gw_quiet_put gw_quiet_emit])
  also have "gw_quiet g2 (revoke_one env m reason answers g d)"
    unfolding revoke_one_def Let_def g2_def [symmetric] by (auto intro: gw_quiet_complete)
  finally show ?thesis .
qed

lemma gw_quiet_revoke: "gw_quiet g (fst (revoke env m reason ok now answers g))"
proof (cases "\<not> ok \<or> (\<exists>e. RevokeMachine (gw_db g) (m_id m) reason now = Inl e)")
  case False
  then obtain db' ds where r: "RevokeMachine (gw_db g) (m_id m) reason now = Inr (db', ds)" and ok: "ok"
    by (cases "RevokeMachine (gw_db g) (m_id m) reason now") auto
  define g1 where "g1 = foldl (revoke_one env m reason answers) (g\<lparr>gw_db := db'\<rparr>) ds"
  define g2 where "g2 = (case gw_conns g1 (m_id m) of None \<Rightarrow> g1 | Some c \<Rightarrow> emit (Closed (cn_id c) CloseRevoked) g1)"
  have "gw_quiet g (g\<lparr>gw_db := db'\<rparr>)" by (rule gw_quiet_db [OF evolves_revoke [OF r]])
  also have "gw_quiet (g\<lparr>gw_db := db'\<rparr>) g1" unfolding g1_def by (rule gw_quiet_foldl) (rule gw_quiet_revoke_one)
  also have "gw_quiet g1 g2" unfolding g2_def by (auto split: option.split intro: gw_quiet_emit)
  also have "gw_quiet g2 (emit (Alerted (m_user m)) g2)" by (rule gw_quiet_emit) simp
  finally have "gw_quiet g (emit (Alerted (m_user m)) g2)" .
  moreover have "fst (revoke env m reason ok now answers g) = emit (Alerted (m_user m)) g2"
    using ok r by (auto simp: revoke_def Let_def g1_def g2_def split: option.split)
  ultimately show ?thesis by simp
qed (auto simp: revoke_def split: sum.splits)

lemma gw_quiet_lose:
  shows "gw_quiet g (lose env c d ok now answers g)"
proof (cases ok)
  case True
  obtain db' closed where cl: "CloseDirective (gw_db g) (d_id d) DirectiveLost ''unknown to its machine'' now = (db', closed)" by fastforce
  have "gw_quiet g (g\<lparr>gw_db := db'\<rparr>)"
    using evolves_close [of DirectiveLost "gw_db g" "d_id d" "''unknown to its machine''" now] cl by (auto intro: gw_quiet_db)
  then show ?thesis using True
    unfolding lose_def cl Let_def by (auto intro: gw_quiet_trans [OF _ gw_quiet_trans [OF gw_quiet_clear gw_quiet_complete]])
qed (simp add: lose_def)

lemma gw_quiet_progress: "gw_conns g mid = Some c \<Longrightarrow> gw_quiet g (progress_msg mid c did t now g)"
  unfolding progress_msg_def Let_def
  by (auto split: option.split intro: gw_quiet_put gw_quiet_trans [OF gw_quiet_put gw_quiet_note])

lemma gw_quiet_status:
  assumes "gw_conns g mid = Some c"
  shows "gw_quiet g (status_msg mid c m ok g)"
proof (cases "may_fail ok (UpdateMachineStatus (gw_db g) mid (w_caps m) (w_claude_code m) (w_llm m))")
  case (Inr db')
  then have "directives db' = directives (gw_db g)"
    by (auto simp: may_fail_def split: if_splits sum.splits intro: status_directives)
  then have "gw_quiet g (g\<lparr>gw_db := db'\<rparr>)" by (auto intro: gw_quiet_db evolves_same)
  also define g2 where "g2 = (if cn_llm c = LLMStateOK \<and> w_llm m = LLMStateRefused then emit (Alerted (m_user (cn_m c))) (g\<lparr>gw_db := db'\<rparr>) else g\<lparr>gw_db := db'\<rparr>)"
  have "gw_quiet (g\<lparr>gw_db := db'\<rparr>) g2" by (auto simp: g2_def intro: gw_quiet_emit)
  also define g3 where "g3 = put_conn mid (c\<lparr>cn_llm := w_llm m, cn_claude_code := w_claude_code m\<rparr>) g2"
  have "gw_quiet g2 g3" using assms by (auto simp: g3_def g2_def intro!: gw_quiet_put)
  also have "gw_quiet g3 (status_msg mid c m ok g)"
    using Inr unfolding status_msg_def Let_def g3_def g2_def by (auto intro: gw_quiet_emit)
  finally show ?thesis .
qed (simp add: status_msg_def)

lemma gw_quiet_register:
  assumes "cn_id c \<noteq> []"
  shows "gw_quiet g (fst (register c pinged raced ok now g))"
proof (cases "gw_conns g (m_id (cn_m c))")
  case None
  then show ?thesis using assms by (auto simp: register_def Let_def intro: gw_quiet_put_new)
next
  case (Some old)
  show ?thesis
  proof (cases pinged)
    case True
    define g1 where "g1 = emit (Closed (cn_id c) CloseDuplicate) (emit (Closed (cn_id old) CloseDuplicate)
       (emit (Wrote (cn_id c) (ErrorMsg ''duplicate_connection'')) g))"
    obtain g2 first where f: "firstDuplicate (m_id (cn_m c)) now g1 = (g2, first)" by fastforce
    have "gw_quiet g g1" by (auto simp: g1_def gw_quiet_def sends_def)
    also have "gw_quiet g1 g2" using f by (auto simp: firstDuplicate_def gw_quiet_def split: if_splits)
    also have "gw_quiet g2 (fst (register c pinged raced ok now g))"
      using True Some f by (auto simp: register_def Let_def g1_def [symmetric] intro: gw_quiet_emit)
    finally show ?thesis .
  next
    case False
    have "gw_quiet g (unregister (m_id (cn_m c)) (cn_id old) ok g)" by (rule gw_quiet_unregister)
    then show ?thesis using False Some assms
      by (auto simp: register_def Let_def intro: gw_quiet_trans [OF _ gw_quiet_put_new])
  qed
qed

lemma opening_dropped: "conns_ok g \<Longrightarrow> conns_ok (g\<lparr>gw_opening := (gw_opening g)(cid := None)\<rparr>)"
  by (auto simp: conns_ok_def)

lemma gw_quiet_opening: "gw_quiet g (g\<lparr>gw_opening := (gw_opening g)(cid := None)\<rparr>)"
  by (simp add: gw_quiet_def opening_dropped)

lemma gw_quiet_emit2: "sent_of e = [] \<Longrightarrow> sent_of e' = [] \<Longrightarrow> gw_quiet g (emit e' (emit e g))"
  by (rule gw_quiet_trans [OF gw_quiet_emit gw_quiet_emit])

lemma inv_hello:
  assumes "gw_inv g"
  shows "gw_inv (serve_hello cid msg bytes pinged raced ok now g)"
proof (cases "gw_opening g cid")
  case (Some x)
  obtain m p a where x: "x = (m, p, a)" by (cases x)
  have cid: "cid \<noteq> []" using assms Some unfolding gw_inv_def conns_ok_def by blast
  let ?g0 = "g\<lparr>gw_opening := (gw_opening g)(cid := None)\<rparr>"
  have "gw_quiet ?g0 (serve_hello cid msg bytes pinged raced ok now g)"
    unfolding serve_hello_def Let_def Some x
    by (auto split: option.split sum.split intro!: gw_quiet_emit2 gw_quiet_register simp: cid new_conn_def)
  from gw_quiet_trans [OF gw_quiet_opening this] show ?thesis by (rule inv_quiet [OF assms])
qed (use assms in \<open>simp add: serve_hello_def\<close>)

lemma gw_quiet_refuse: "gw_quiet g (refuseOrRetry c e g)"
  by (auto simp: refuseOrRetry_def intro: gw_quiet_emit gw_quiet_emit2)

lemma gw_quiet_welcome:
  assumes "gw_conns g mid = Some c"
  shows "gw_quiet g (serve_welcome env mid c nt a b e d now g)"
proof (cases "may_fail a (RotateMachineToken (gw_db g) mid (cn_presented c) (ge_hash env nt))")
  case (Inl x)
  then show ?thesis by (simp add: serve_welcome_def gw_quiet_trans [OF gw_quiet_refuse gw_quiet_unregister])
next
  case (Inr db1)
  then have d1: "directives db1 = directives (gw_db g)"
    by (auto simp: may_fail_def split: if_splits sum.splits intro: rotate_directives)
  have q1: "gw_quiet g (g\<lparr>gw_db := db1\<rparr>)" using d1 by (auto intro: gw_quiet_db evolves_same)
  show ?thesis
  proof (cases "may_fail b (MachineConnected db1 mid (gw_id g) (cn_addr c) (hello_info (cn_hello c)) now)")
    case (Inl x)
    have "gw_quiet (g\<lparr>gw_db := db1\<rparr>) (serve_welcome env mid c nt a b e d now g)"
      unfolding serve_welcome_def Inr sum.case Inl by (simp add: gw_quiet_trans [OF gw_quiet_refuse gw_quiet_unregister])
    with q1 show ?thesis by (rule gw_quiet_trans)
  next
    case inr2: (Inr y)
    obtain db2 pa where y: "y = (db2, pa)" by (cases y)
    have "directives db2 = directives db1"
      using inr2 y by (auto simp: may_fail_def split: if_splits sum.splits intro: connected_directives)
    then have "gw_quiet g (g\<lparr>gw_db := db2\<rparr>)" using d1 by (auto intro: gw_quiet_db evolves_same)
    also define g2 where "g2 = (if pa \<noteq> [] \<and> cn_addr c \<noteq> [] \<and> pa \<noteq> cn_addr c then emit (Alerted (m_user (cn_m c))) (g\<lparr>gw_db := db2\<rparr>) else g\<lparr>gw_db := db2\<rparr>)"
    have "gw_quiet (g\<lparr>gw_db := db2\<rparr>) g2" by (auto simp: g2_def intro: gw_quiet_emit)
    also define g3 where "g3 = emit (Wrote (cn_id c) (RotateMsg nt)) (emit (Wrote (cn_id c) (WelcomeMsg mid (m_name (cn_m c)))) g2)"
    have "gw_quiet g2 g3" by (auto simp: g3_def intro: gw_quiet_emit2)
    also have "gw_quiet g3 (serve_welcome env mid c nt a b e d now g)"
      unfolding serve_welcome_def Inr inr2 y Let_def prod.case sum.case g3_def g2_def using assms by (auto intro!: gw_quiet_put)
    finally show ?thesis .
  qed
qed

subsubsection \<open>A directive handed over\<close>

lemma mark_sent:
  assumes "gw_inv g" and "MarkDirectiveSent (gw_db g) did cid = (db', True)"
  shows "did \<notin> snd ` set (sends (gw_trace g))" and "\<exists>d \<in> set (directives db'). d_id d = did \<and> d_sent_conn d = cid"
proof -
  let ?P = "\<lambda>d. d_id d = did \<and> d_sent_conn d = [] \<and> d_state d = DirectiveRunning"
  from assms(2) have "length (filter ?P (directives (gw_db g))) = 1" and db': "db' = update_directives ?P (\<lambda>d. d\<lparr>d_sent_conn := cid\<rparr>) (gw_db g)"
    by (auto simp: MarkDirectiveSent_def Let_def)
  then have "filter ?P (directives (gw_db g)) \<noteq> []" by auto
  then obtain d where d: "d \<in> set (directives (gw_db g))" "?P d" by (auto simp: filter_empty_conv)
  show "\<exists>d \<in> set (directives db'). d_id d = did \<and> d_sent_conn d = cid"
  proof
    show "d\<lparr>d_sent_conn := cid\<rparr> \<in> set (directives db')"
      using d unfolding db' update_directives_simps set_map by (intro image_eqI [of _ _ d]) simp_all
  qed (use d in simp)
  show "did \<notin> snd ` set (sends (gw_trace g))"
  proof
    assume "did \<in> snd ` set (sends (gw_trace g))"
    then obtain cid' x where x: "cid' \<noteq> []" "x \<in> set (directives (gw_db g))" "d_id x = did" "d_sent_conn x = cid'"
      using assms(1) unfolding gw_inv_def sends_ok_def by fastforce
    have "inj_on d_id (set (directives (gw_db g)))" using assms(1) by (simp add: gw_inv_def ids_ok_def distinct_map)
    from inj_onD [OF this, of x d] x d show False by simp
  qed
qed

lemma inv_emit_directive:
  assumes "gw_inv h" and "cid \<noteq> []" and "\<exists>d \<in> set (directives (gw_db h)). d_id d = did \<and> d_sent_conn d = cid"
    and "did \<notin> snd ` set (sends (gw_trace h))"
  shows "gw_inv (emit (Wrote cid (DirectiveMsg did k i t)) h)"
proof -
  let ?h = "emit (Wrote cid (DirectiveMsg did k i t)) h"
  have "stage_ok ?h j (jb_stage j)" if "j \<in> set (gw_jobs h)" for j
  proof (rule stage_ok_evolves [of h])
    show "stage_ok h j (jb_stage j)" using assms(1) that by (simp add: gw_inv_def jobs_ok_def)
  qed auto
  moreover have "sends_ok ?h"
    unfolding sends_ok_def
  proof (intro conjI ballI)
    show "distinct (map snd (sends (gw_trace ?h)))" using assms(1,4) by (simp add: gw_inv_def sends_ok_def)
    fix x assume "x \<in> set (sends (gw_trace ?h))"
    then have "x \<in> set (sends (gw_trace h)) \<or> x = (cid, did)" by auto
    then show "case x of (cid, did) \<Rightarrow> cid \<noteq> [] \<and> (\<exists>d \<in> set (directives (gw_db ?h)). d_id d = did \<and> d_sent_conn d = cid)"
      using assms(1-3) unfolding gw_inv_def sends_ok_def by auto
  qed
  ultimately show ?thesis using assms(1) by (simp add: gw_inv_def jobs_ok_def)
qed

lemma on_conn_simps [simp]:
  "gw_trace (on_conn mid cid f g) = gw_trace g" "gw_db (on_conn mid cid f g) = gw_db g"
  by (auto simp: on_conn_def split: option.split)

lemma inv_send:
  assumes "gw_inv g" and "cn_id c \<noteq> []"
  shows "gw_inv (send c d ok g)"
proof (cases ok)
  case True
  obtain db' sent where m: "MarkDirectiveSent (gw_db g) (d_id d) (cn_id c) = (db', sent)" by fastforce
  have q: "gw_quiet g (g\<lparr>gw_db := db'\<rparr>)" using evolves_mark [of "gw_db g" "d_id d" "cn_id c"] m by (auto intro: gw_quiet_db)
  show ?thesis
  proof (cases sent)
    case True
    let ?h = "on_conn (m_id (cn_m c)) (cn_id c) (attach d) (g\<lparr>gw_db := db'\<rparr>)"
    have "gw_quiet g ?h" by (rule gw_quiet_trans [OF q gw_quiet_on_conn]) simp
    then have "gw_inv ?h" by (rule inv_quiet [OF assms(1)])
    then have "gw_inv (emit (Wrote (cn_id c) (DirectiveMsg (d_id d) (d_kind d) (d_input d) (d_deadline d))) ?h)"
      using mark_sent [OF assms(1)] m True assms(2) by (intro inv_emit_directive) auto
    then show ?thesis using \<open>ok\<close> m True by (simp add: send_def inv_quiet [OF _ gw_quiet_note])
  qed (use \<open>ok\<close> m inv_quiet [OF assms(1) q] in \<open>simp add: send_def\<close>)
qed (use assms in \<open>simp add: send_def\<close>)

lemma inv_sendLLM:
  assumes "gw_inv g" and "cn_id c \<noteq> []"
  shows "gw_inv (fst (sendLLM c d request markok written why g))"
proof (cases markok)
  case True
  obtain db' sent where m: "MarkDirectiveSent (gw_db g) (d_id d) (cn_id c) = (db', sent)" by fastforce
  have q: "gw_quiet g (g\<lparr>gw_db := db'\<rparr>)" using evolves_mark [of "gw_db g" "d_id d" "cn_id c"] m by (auto intro: gw_quiet_db)
  note inv1 = inv_quiet [OF assms(1) q]
  show ?thesis
  proof (cases sent)
    case True
    then have "gw_inv (emit (Wrote (cn_id c) (DirectiveMsg (d_id d) (d_kind d) request (d_deadline d))) (g\<lparr>gw_db := db'\<rparr>))"
      using mark_sent [OF assms(1)] m assms(2) by (intro inv_emit_directive [OF inv1]) auto
    then show ?thesis using \<open>markok\<close> m True
      by (auto simp: sendLLM_def Let_def intro!: inv_quiet [OF _ gw_quiet_on_conn])
  qed (use \<open>markok\<close> m inv1 in \<open>simp add: sendLLM_def\<close>)
qed (use assms in \<open>simp add: sendLLM_def\<close>)

lemma inv_conn: "gw_inv g \<Longrightarrow> gw_conns g mid = Some c \<Longrightarrow> cn_id c \<noteq> [] \<and> m_id (cn_m c) = mid"
  by (simp add: gw_inv_def conns_ok_def)

lemma inv_deliver: "gw_inv g \<Longrightarrow> gw_inv (fst (Deliver did getok markok g))"
  by (auto simp: Deliver_def split: option.split intro!: inv_send dest: inv_conn)

lemma inv_unreachable: "gw_inv g \<Longrightarrow> gw_inv (unreachable d why now ok g)"
  unfolding unreachable_def by (erule inv_quiet) (simp add: gw_quiet_close_db)

lemma inv_deliverLLM:
  assumes "gw_inv g"
  shows "gw_inv (fst (DeliverLLM did request getok markok written closeok why now g))"
proof -
  have "gw_inv (fst (case sendLLM c d request markok written why g of
       (g1, None) \<Rightarrow> (g1, None) | (g1, Some e) \<Rightarrow> (unreachable d e now closeok g1, Some MachineUnreachable)))"
    if "gw_conns g mid = Some c" for c d mid
    using inv_sendLLM [OF assms, of c d request markok written why] inv_conn [OF assms that]
    by (auto split: prod.split option.split intro: inv_unreachable)
  then show ?thesis using assms by (auto simp: DeliverLLM_def split: option.split intro: inv_unreachable)
qed

lemma inv_emit: "gw_inv g \<Longrightarrow> sent_of e = [] \<Longrightarrow> gw_inv (emit e g)"
  by (rule inv_quiet [OF _ gw_quiet_emit])

lemma inv_todo:
  assumes "gw_inv g" and "gw_conns g mid = Some c"
  shows "gw_inv (do_todo env mid c ok now answers g)"
proof (cases "cn_todo c")
  case (Cons t ts)
  let ?c1 = "c\<lparr>cn_todo := ts\<rparr>" and ?g1 = "put_conn mid (c\<lparr>cn_todo := ts\<rparr>) g"
  have q: "gw_quiet g ?g1" using assms(2) by (auto intro: gw_quiet_put)
  note inv1 = inv_quiet [OF assms(1) q]
  show ?thesis
  proof (cases t)
    case (Send d)
    then show ?thesis using inv_send [OF inv1, of ?c1 d ok] inv_conn [OF assms] Cons by (simp add: do_todo_def Let_def)
  next
    case (Attach d)
    have "gw_quiet ?g1 (put_conn mid (attach d ?c1) ?g1)" by (intro gw_quiet_put [of _ _ ?c1]) auto
    then show ?thesis using Attach Cons inv_quiet [OF inv1] by (simp add: do_todo_def Let_def)
  qed (use Cons inv1 in \<open>simp_all add: do_todo_def Let_def inv_emit inv_quiet [OF inv1 gw_quiet_lose]\<close>)
qed (use assms in \<open>simp add: do_todo_def\<close>)

subsubsection \<open>The results under way\<close>

lemma find_job_in: "find_job g did = Some j \<Longrightarrow> j \<in> set (gw_jobs g) \<and> jb_id j = did"
  unfolding find_job_def by (drule find_Some_in)

lemma job_unique: "gw_inv g \<Longrightarrow> j \<in> set (gw_jobs g) \<Longrightarrow> x \<in> set (gw_jobs g) \<Longrightarrow> jb_id x = jb_id j \<Longrightarrow> x = j"
  unfolding gw_inv_def jobs_ok_def distinct_map by (meson inj_onD)

lemma inv_stage: "gw_inv g \<Longrightarrow> j \<in> set (gw_jobs g) \<Longrightarrow> stage_ok g j (jb_stage j)"
  by (simp add: gw_inv_def jobs_ok_def)

lemma stage_ok_same:
  "gw_db g' = gw_db g \<Longrightarrow> gw_trace g' = gw_trace g \<Longrightarrow> jb_id j' = jb_id j \<Longrightarrow> jb_machine j' = jb_machine j
     \<Longrightarrow> stage_ok g' j' st = stage_ok g j st"
  by (cases st) (simp_all add: known_def)

lemma count_removed:
  "distinct (map f xs) \<Longrightarrow> x \<in> set xs \<Longrightarrow>
     length (filter P xs) = length (filter P (filter (\<lambda>y. f y \<noteq> f x) xs)) + (if P x then 1 else 0)"
proof (induction xs)
  case (Cons y ys)
  show ?case
  proof (cases "x = y")
    case True
    have "filter (\<lambda>z. f z \<noteq> f x) ys = ys" using Cons.prems(1) True by (auto simp: filter_id_conv image_iff)
    then show ?thesis using True by simp
  next
    case False
    with Cons.prems have "x \<in> set ys" "f y \<noteq> f x" by (auto simp: image_iff)
    then show ?thesis using Cons by simp
  qed
qed simp

lemma inv_end_job:
  assumes "gw_inv g" and "j \<in> set (gw_jobs g)"
  shows "gw_inv (end_job j g)"
proof -
  let ?js = "filter (\<lambda>x. jb_id x \<noteq> jb_id j) (gw_jobs g)" and ?g = "end_job j g"
  have fields: "gw_db ?g = gw_db g" "gw_trace ?g = gw_trace g" "gw_jobs ?g = ?js"
    "gw_claimed ?g = removeAll (jb_id j) (gw_claimed g)"
    "gw_slots ?g = (if jb_conn j = None then gw_slots g - 1 else gw_slots g)" "conns_ok ?g = conns_ok g"
    by (simp_all add: end_job_def release_def Let_def conns_ok_def)
  from assms(1) have jobs: "distinct (map jb_id (gw_jobs g))" "set (gw_claimed g) = set (map jb_id (gw_jobs g))"
    "gw_slots g = length (filter (\<lambda>j. jb_conn j = None) (gw_jobs g))" "gw_slots g \<le> maxResultRetries"
    by (auto simp: gw_inv_def jobs_ok_def)
  have "gw_slots ?g = length (filter (\<lambda>j. jb_conn j = None) ?js)"
    using count_removed [OF jobs(1) assms(2), of "\<lambda>j. jb_conn j = None"] jobs(3) by (simp add: fields)
  moreover have "stage_ok ?g x (jb_stage x)" if "x \<in> set ?js" for x
    using inv_stage [OF assms(1), of x] that stage_ok_same [OF fields(1,2), of x x] by simp
  moreover have "distinct (map jb_id ?js)" using jobs(1) by (rule distinct_map_filter)
  moreover have "gw_slots ?g \<le> maxResultRetries" using jobs(4) by (simp add: fields le_diff_conv)
  moreover have "set (gw_claimed ?g) = set (map jb_id ?js)" using jobs(2) by (auto simp: fields)
  ultimately have "jobs_ok ?g" unfolding jobs_ok_def fields(3) by blast
  moreover have "sends_ok ?g" using assms(1) by (simp add: gw_inv_def sends_ok_def fields)
  ultimately show ?thesis using assms(1) by (simp add: gw_inv_def fields)
qed

lemma inv_jobs_update:
  assumes "gw_inv g" and "\<And>x. jb_id (f x) = jb_id x \<and> jb_conn (f x) = jb_conn x \<and> jb_machine (f x) = jb_machine x"
    and "\<And>x. x \<in> set (gw_jobs g) \<Longrightarrow> stage_ok g x (jb_stage (f x))"
  shows "gw_inv (g\<lparr>gw_jobs := map f (gw_jobs g)\<rparr>)"
proof -
  let ?g = "g\<lparr>gw_jobs := map f (gw_jobs g)\<rparr>"
  have ids: "map jb_id (map f (gw_jobs g)) = map jb_id (gw_jobs g)" using assms(2) by simp
  have cnt: "length (filter (\<lambda>j. jb_conn j = None) (map f xs)) = length (filter (\<lambda>j. jb_conn j = None) xs)" for xs
    using assms(2) by (induction xs) auto
  have "stage_ok ?g (f x) (jb_stage (f x))" if "x \<in> set (gw_jobs g)" for x
    using assms(2) [of x] assms(3) [OF that] stage_ok_same [of ?g g "f x" x "jb_stage (f x)"] by simp
  then have "jobs_ok ?g" using assms(1) ids cnt by (auto simp: gw_inv_def jobs_ok_def simp del: map_map)
  moreover have "sends_ok ?g" using assms(1) by (simp add: gw_inv_def sends_ok_def)
  ultimately show ?thesis using assms(1) by (simp add: gw_inv_def)
qed

lemma inv_set_stage:
  assumes "gw_inv g" and "j \<in> set (gw_jobs g)" and "jb_id j = did" and "stage_ok g j st"
  shows "gw_inv (set_stage did st g)"
  unfolding set_stage_def
proof (rule inv_jobs_update [OF assms(1)])
  fix x assume "x \<in> set (gw_jobs g)"
  then show "stage_ok g x (jb_stage (if jb_id x = did then x\<lparr>jb_stage := st\<rparr> else x))"
    using assms job_unique [OF assms(1,2), of x] inv_stage [OF assms(1), of x] by auto
qed auto

lemma conns_ok_claim [simp]: "conns_ok (claim i g) = conns_ok g"
  by (simp add: claim_def)

lemma inv_add_job:
  assumes "gw_inv g" and "jb_id j \<notin> set (gw_claimed g)" and "stage_ok g j (jb_stage j)"
    and "n = (if jb_conn j = None then gw_slots g + 1 else gw_slots g)" and "n \<le> maxResultRetries"
  shows "gw_inv ((claim (jb_id j) g)\<lparr>gw_slots := n, gw_jobs := gw_jobs g @ [j]\<rparr>)"
proof -
  let ?g = "(claim (jb_id j) g)\<lparr>gw_slots := n, gw_jobs := gw_jobs g @ [j]\<rparr>"
  have fields: "gw_db ?g = gw_db g" "gw_trace ?g = gw_trace g" "conns_ok ?g = conns_ok g" by (simp_all add: claim_def conns_ok_def)
  have "stage_ok ?g x (jb_stage x)" if "x \<in> set (gw_jobs g) \<or> x = j" for x
    using inv_stage [OF assms(1), of x] assms(3) that stage_ok_same [OF fields(1,2), of x x] by auto
  then have "jobs_ok ?g" using assms by (auto simp: gw_inv_def jobs_ok_def claim_def)
  moreover have "sends_ok ?g" using assms(1) by (simp add: gw_inv_def sends_ok_def fields)
  ultimately show ?thesis using assms(1) by (simp add: gw_inv_def fields)
qed

lemma gw_quiet_detach_ack: "gw_quiet g (detach_ack j g)"
  unfolding detach_ack_def
  by (auto split: option.split intro!: gw_quiet_trans [OF gw_quiet_on_conn gw_quiet_emit] gw_quiet_trans [OF gw_quiet_put gw_quiet_emit])

lemma gw_quiet_close_conn: "gw_quiet g (close_conn_of j code g)"
  by (auto simp: close_conn_of_def split: option.split intro: gw_quiet_emit)

lemma gw_quiet_jobs: "gw_quiet g g' \<Longrightarrow> gw_jobs g' = gw_jobs g"
  by (simp add: gw_quiet_def)

lemma inv_end_after:
  assumes "gw_inv g" and "j \<in> set (gw_jobs g)" and "gw_quiet g g'"
  shows "gw_inv (end_job j g')"
  using inv_end_job [OF inv_quiet [OF assms(1,3)]] assms(2) gw_quiet_jobs [OF assms(3)] by simp

lemma GetDirective_Some: "GetDirective db did = Some d \<Longrightarrow> d \<in> set (directives db) \<and> d_id d = did"
  unfolding GetDirective_def by (drule find_Some_in)

lemma inv_result_read:
  assumes "gw_inv g" and "j \<in> set (gw_jobs g)"
  shows "gw_inv (result_read env j ok g)"
proof -
  note ends = inv_end_after [OF assms]
  let ?f = "\<lambda>x. if jb_id x = jb_id j then x\<lparr>jb_msg := checkLLMResult env (jb_msg x)\<rparr> else x"
  have save: "gw_inv (set_stage (jb_id j) (Saving d) (if b then g\<lparr>gw_jobs := map ?f (gw_jobs g)\<rparr> else g))"
    if "GetDirective (gw_db g) (jb_id j) = Some d" "d_machine d = jb_machine j" "d_state d = DirectiveRunning" for d b
  proof -
    have k: "known g j d" using GetDirective_Some [OF that(1)] that(2,3) by (auto simp: known_def)
    have inv1: "gw_inv (g\<lparr>gw_jobs := map ?f (gw_jobs g)\<rparr>)"
      using inv_stage [OF assms(1)] by (intro inv_jobs_update [OF assms(1)]) auto
    show ?thesis
    proof (cases b)
      case True
      have "?f j \<in> set (gw_jobs (g\<lparr>gw_jobs := map ?f (gw_jobs g)\<rparr>))" using assms(2) by (auto simp: image_iff)
      moreover have "stage_ok (g\<lparr>gw_jobs := map ?f (gw_jobs g)\<rparr>) (?f j) (Saving d)" using k by (simp add: known_def)
      ultimately show ?thesis using inv_set_stage [OF inv1] True by simp
    qed (use k inv_set_stage [OF assms] in simp)
  qed
  have err: "gw_quiet g (close_conn_of j ClosePolicy (case jb_conn j of None \<Rightarrow> g | Some cid \<Rightarrow> emit (Wrote cid (ErrorMsg ''bad_message'')) g))"
    by (auto split: option.split intro!: gw_quiet_trans [OF _ gw_quiet_close_conn] gw_quiet_emit)
  show ?thesis
  proof (cases "ok \<and> GetDirective (gw_db g) (jb_id j) \<noteq> None")
    case True
    then obtain d where "ok" "GetDirective (gw_db g) (jb_id j) = Some d" by auto
    then show ?thesis
      unfolding result_read_def Let_def using ends [OF gw_quiet_detach_ack] ends [OF err] save [of d]
      by auto
  next
    case False
    then show ?thesis using ends [OF gw_quiet_detach_ack] ends [OF gw_quiet_close_conn] by (auto simp: result_read_def)
  qed
qed

lemma inv_result_save:
  assumes "gw_inv g" and "j \<in> set (gw_jobs g)" and "jb_stage j = Saving d"
  shows "gw_inv (result_save j d ok g)"
proof (cases "ok \<and> (\<exists>db'. SaveDirectiveResult (gw_db g) (jb_id j) (Kept (jb_msg j)) = Inr db')")
  case True
  then obtain db' where ok: "ok" and r: "SaveDirectiveResult (gw_db g) (jb_id j) (Kept (jb_msg j)) = Inr db'" by blast
  have q: "gw_quiet g (g\<lparr>gw_db := db'\<rparr>)" using evolves_save [OF r] by (rule gw_quiet_db)
  note inv1 = inv_quiet [OF assms(1) q]
  have "known (g\<lparr>gw_db := db'\<rparr>) j d"
    using inv_stage [OF inv1, of j] assms(2,3) by simp
  then have "gw_inv (set_stage (jb_id j) (Completing d) (g\<lparr>gw_db := db'\<rparr>))"
    using assms(2) by (intro inv_set_stage [OF inv1, of j]) auto
  then show ?thesis using ok r by (simp add: result_save_def)
next
  case False
  then show ?thesis using inv_end_after [OF assms(1,2) gw_quiet_detach_ack] inv_end_after [OF assms(1,2) gw_quiet_close_conn]
    by (auto simp: result_save_def split: sum.split)
qed

lemma complete_tries_ne: "complete_tries n i answers = [] \<longleftrightarrow> n = 0"
  by (cases n) (auto simp: Let_def split: prod.split)

lemma trace_foldl: "gw_trace (foldl (\<lambda>g a. emit (F a) g) g as) = gw_trace g @ map F as"
  by (induction as arbitrary: g) auto

lemma complete_answered:
  assumes "complete n answers token what g = (g', a)" and "0 < n"
  shows "CalledComplete token what a \<in> set (gw_trace g')"
proof -
  have "complete_tries n 0 answers \<noteq> []" using assms(2) by (simp add: complete_tries_ne)
  with assms(1) show ?thesis
    unfolding complete_form by (auto simp: trace_foldl)
qed

lemma complete_acks:
  assumes "complete n answers token what g = (g', a)"
  shows "filter (is_ack did) (gw_trace g') = filter (is_ack did) (gw_trace g)"
  using assms unfolding complete_form by (auto simp: trace_foldl filter_empty_conv)

lemma tries_pos [simp]: "0 < tries_of j"
  by (simp add: tries_of_def completeTries_def)

text \<open>The completion of a result: quiet, and its answer is in the trace.\<close>

lemma finish_form:
  obtains g2 a where "gw_quiet g g2" and "\<exists>what. CalledComplete (d_token d) what a \<in> set (gw_trace g2)"
    and "\<And>did. filter (is_ack did) (gw_trace g2) = filter (is_ack did) (gw_trace g)"
    and "finish env j d files answers again g =
      (if a = TOk then set_stage (jb_id j) (Closing d (closedState (w_status (jb_msg j)))) g2
       else if a = TNotFound then set_stage (jb_id j) (Closing d DirectiveGone) g2 else end_job j g2)"
proof -
  let ?what = "outcome_of env d (jb_msg j) files"
  let ?retry = "ApplicationError ''the directive was cancelled on the machine'' ''DirectiveFailed''
     (Some (RunDetail \<lparr>mr_output = w_output (jb_msg j), mr_progress = w_text (jb_msg j), mr_files = []\<rparr>))"
  obtain g1 a1 where c1: "complete (tries_of j) answers (d_token d) ?what g = (g1, a1)" by fastforce
  obtain g2 a2 where c2: "complete (tries_of j) again (d_token d) ?retry g1 = (g2, a2)" by fastforce
  have q1: "gw_quiet g g1" using gw_quiet_complete [of g "tries_of j" answers "d_token d" ?what] c1 by simp
  also have "gw_quiet g1 g2" using gw_quiet_complete [of g1 "tries_of j" again "d_token d" ?retry] c2 by simp
  finally have q2: "gw_quiet g g2" .
  show thesis
  proof (cases "a1 = TInvalid \<and> w_status (jb_msg j) = StatusCanceled")
    case True
    show thesis
    proof (rule that [OF q2])
      show "\<exists>what. CalledComplete (d_token d) what a2 \<in> set (gw_trace g2)" using complete_answered [OF c2] by auto
      show "filter (is_ack did) (gw_trace g2) = filter (is_ack did) (gw_trace g)" for did
        using complete_acks [OF c1] complete_acks [OF c2] by simp
      show "finish env j d files answers again g =
        (if a2 = TOk then set_stage (jb_id j) (Closing d (closedState (w_status (jb_msg j)))) g2
         else if a2 = TNotFound then set_stage (jb_id j) (Closing d DirectiveGone) g2 else end_job j g2)"
        unfolding finish_def Let_def c1 prod.case if_P [OF True] c2 ..
    qed
  next
    case False
    show thesis
    proof (rule that [OF q1])
      show "\<exists>what. CalledComplete (d_token d) what a1 \<in> set (gw_trace g1)" using complete_answered [OF c1] by auto
      show "filter (is_ack did) (gw_trace g1) = filter (is_ack did) (gw_trace g)" for did by (rule complete_acks [OF c1])
      show "finish env j d files answers again g =
        (if a1 = TOk then set_stage (jb_id j) (Closing d (closedState (w_status (jb_msg j)))) g1
         else if a1 = TNotFound then set_stage (jb_id j) (Closing d DirectiveGone) g1 else end_job j g1)"
        unfolding finish_def Let_def c1 prod.case if_not_P [OF False] ..
    qed
  qed
qed

lemma closedState_closed [simp]: "closedState s \<noteq> DirectiveReserved" "closedState s \<noteq> DirectiveRunning"
  by (simp_all add: closedState_def)

lemma inv_finish:
  assumes "gw_inv g" and "j \<in> set (gw_jobs g)" and "jb_stage j = Completing d"
  shows "gw_inv (finish env j d files answers again g)"
proof (rule finish_form)
  fix g2 a assume q: "gw_quiet g g2" and e: "\<exists>what. CalledComplete (d_token d) what a \<in> set (gw_trace g2)"
    and f: "finish env j d files answers again g =
      (if a = TOk then set_stage (jb_id j) (Closing d (closedState (w_status (jb_msg j)))) g2
       else if a = TNotFound then set_stage (jb_id j) (Closing d DirectiveGone) g2 else end_job j g2)"
  note inv2 = inv_quiet [OF assms(1) q]
  have j: "j \<in> set (gw_jobs g2)" using assms(2) gw_quiet_jobs [OF q] by simp
  have k: "known g2 j d" using inv_stage [OF inv2 j] assms(3) by simp
  have st: "gw_inv (set_stage (jb_id j) (Closing d s) g2)"
    if "a = TOk \<or> a = TNotFound" "s \<noteq> DirectiveReserved" "s \<noteq> DirectiveRunning" for s
    using k e that by (intro inv_set_stage [OF inv2 j refl]) (auto simp: answered_def)
  show ?thesis unfolding f using st inv_end_job [OF inv2 j] by simp
qed

lemma inv_finish_close:
  assumes "gw_inv g" and "j \<in> set (gw_jobs g)" and "jb_stage j = Closing d st"
  shows "gw_inv (finish_close j d st ok now g)"
proof -
  have "st \<noteq> DirectiveReserved" using inv_stage [OF assms(1,2)] assms(3) by simp
  then have "gw_quiet g (detach_ack j (close_db (d_id d) st (w_error (jb_msg j)) now ok (clear_note_gw d g)))"
    by (intro gw_quiet_trans [OF gw_quiet_clear gw_quiet_trans [OF gw_quiet_close_db gw_quiet_detach_ack]])
  then show ?thesis unfolding finish_close_def by (rule inv_end_after [OF assms(1,2)])
qed

lemma gw_quiet_same: "directives db = directives (gw_db g) \<Longrightarrow> gw_quiet g (g\<lparr>gw_db := db\<rparr>)"
  by (rule gw_quiet_db [OF evolves_same])

lemma set_pending:
  "set (PendingDirectiveResults db) = {d \<in> set (directives db). d_state d = DirectiveRunning \<and> d_result d \<noteq> None \<and> d_token d \<noteq> None}"
  by (simp add: PendingDirectiveResults_def)

lemma retry_db [simp]: "gw_db (retry_one g d) = gw_db g" "gw_trace (retry_one g d) = gw_trace g" "gw_conns (retry_one g d) = gw_conns g"
  by (auto simp: retry_one_def claim_def split: option.split kept_result.split)

lemma inv_retry_one:
  assumes "gw_inv g" and "d \<in> set (directives (gw_db g))" and "d_state d = DirectiveRunning"
  shows "gw_inv (retry_one g d)"
proof (cases "\<exists>m. \<not> completing g (d_id d) \<and> d_result d = Some (Kept m) \<and> w_id m = d_id d \<and> gw_slots g < maxResultRetries")
  case True
  then obtain m where c: "\<not> completing g (d_id d)" "d_result d = Some (Kept m)" "w_id m = d_id d" "gw_slots g < maxResultRetries" by blast
  let ?j = "\<lparr>jb_id = d_id d, jb_conn = None, jb_machine = d_machine d, jb_msg = m, jb_size = 0, jb_stage = Completing d\<rparr>"
  have "known g ?j d" using assms(2,3) by (auto simp: known_def)
  then have "gw_inv ((claim (jb_id ?j) g)\<lparr>gw_slots := gw_slots g + 1, gw_jobs := gw_jobs g @ [?j]\<rparr>)"
    using c by (intro inv_add_job [OF assms(1)]) (auto simp: completing_def)
  then show ?thesis using c by (simp add: retry_one_def)
next
  case False
  then have "retry_one g d = g" by (auto simp: retry_one_def split: option.split kept_result.split)
  then show ?thesis using assms(1) by simp
qed

lemma retry_all_db [simp]:
  "gw_db (foldl retry_one g ds) = gw_db g" "gw_trace (foldl retry_one g ds) = gw_trace g" "gw_conns (foldl retry_one g ds) = gw_conns g"
  by (induction ds arbitrary: g) simp_all

lemma inv_retry:
  "gw_inv g \<Longrightarrow> \<forall>d \<in> set ds. d \<in> set (directives (gw_db g)) \<and> d_state d = DirectiveRunning \<Longrightarrow> gw_inv (foldl retry_one g ds)"
proof (induction ds arbitrary: g)
  case (Cons d ds)
  then show ?case using inv_retry_one [of g d] by simp
qed simp

lemma inv_sweep:
  assumes "gw_inv g"
  shows "gw_inv (sweep_gw at at2 now a b e g)"
proof -
  define g1 where "g1 = (if a then let (db', sw) = SweepDirectives (gw_db g) at now in foldl drop_swept (g\<lparr>gw_db := db'\<rparr>) sw else g)"
  define g2 where "g2 = (if b then g1\<lparr>gw_db := DeleteExpiredEnrollments (gw_db g1) at2\<rparr> else g1)"
  obtain db' sw where sw: "SweepDirectives (gw_db g) at now = (db', sw)" by fastforce
  have "gw_quiet g (g\<lparr>gw_db := db'\<rparr>)" using evolves_sweep [of "gw_db g" at now] sw by (auto intro: gw_quiet_db)
  also have "gw_quiet (g\<lparr>gw_db := db'\<rparr>) (foldl drop_swept (g\<lparr>gw_db := db'\<rparr>) sw)" by (rule gw_quiet_foldl) (rule gw_quiet_drop_swept)
  finally have "gw_quiet g g1" using sw by (simp add: g1_def)
  also have "gw_quiet g1 g2" by (simp add: g2_def gw_quiet_same)
  finally have "gw_inv g2" by (rule inv_quiet [OF assms])
  then have "gw_inv (retryResults e g2)"
    by (auto simp: retryResults_def set_pending intro: inv_retry)
  then show ?thesis by (simp add: sweep_gw_def g1_def [symmetric] g2_def [symmetric] Let_def)
qed

lemma inv_message:
  assumes "gw_inv g" and "gw_conns g mid = Some c"
  shows "gw_inv (read_message mid c msg bytes allow ok dis now g)"
proof -
  have bad: "gw_inv (unregister mid (cn_id c) dis (emit (Closed (cn_id c) ClosePolicy) (emit (Wrote (cn_id c) (ErrorMsg ''bad_message'')) g)))"
    by (rule inv_quiet [OF assms(1) gw_quiet_trans [OF gw_quiet_emit2 gw_quiet_unregister]]) simp_all
  have limit: "gw_inv (unregister mid (cn_id c) dis (emit (Closed (cn_id c) ClosePolicy) g))"
    by (rule inv_quiet [OF assms(1) gw_quiet_trans [OF gw_quiet_emit gw_quiet_unregister]]) simp
  have conf: "gw_inv (g\<lparr>gw_db := db'\<rparr>)" if "may_fail ok (ConfirmMachineToken (gw_db g) mid h) = Inr db'" for db' h
  proof -
    from that have "directives db' = directives (gw_db g)"
      by (auto simp: may_fail_def split: if_splits sum.splits intro: confirm_directives)
    then show ?thesis by (intro inv_quiet [OF assms(1) gw_quiet_db] evolves_same)
  qed
  have job: "gw_inv ((claim (w_id m) g)\<lparr>gw_jobs := gw_jobs g @ [\<lparr>jb_id = w_id m, jb_conn = Some (cn_id c), jb_machine = mid,
      jb_msg = m, jb_size = bytes, jb_stage = Reading\<rparr>]\<rparr>)" if "\<not> completing g (w_id m)" for m
    using inv_add_job [OF assms(1), of "\<lparr>jb_id = w_id m, jb_conn = Some (cn_id c), jb_machine = mid,
      jb_msg = m, jb_size = bytes, jb_stage = Reading\<rparr>" "gw_slots g"] that assms(1)
    by (simp add: completing_def gw_inv_def jobs_ok_def claim_def)
  show ?thesis
    unfolding read_message_def Let_def
    using assms(1) bad limit conf job inv_quiet [OF assms(1) gw_quiet_progress [OF assms(2)]] inv_quiet [OF assms(1) gw_quiet_status [OF assms(2)]]
    by (simp split: option.split sum.split)
qed

lemma inv_connect:
  assumes "gw_inv g" and "cid \<noteq> []"
  shows "gw_inv (ServeConnect env cid token addr a b now answers g)"
proof -
  have "gw_quiet g (g\<lparr>gw_opening := (gw_opening g)(cid \<mapsto> x)\<rparr>)" for x
    using assms(2) by (auto simp: gw_quiet_def conns_ok_def)
  note op = inv_quiet [OF assms(1) this]
  note rev = inv_quiet [OF assms(1) gw_quiet_revoke]
  show ?thesis
    unfolding ServeConnect_def using assms(1) op rev by (simp split: prod.split option.split token_use.split)
qed

lemma inv_step:
  assumes "gw_inv g" and "gw_op_ok op"
  shows "gw_inv (gw_step env g op)"
proof (cases op)
  case (GWorker x)
  then show ?thesis using assms evolves_worker [of x "gw_db g"] by (auto intro: inv_quiet gw_quiet_db)
next
  case (GConnect cid token addr a b now answers)
  then show ?thesis using assms by (simp add: inv_connect)
next
  case (GTick mid now ok)
  have "gw_quiet g (tick mid c now ok g)" for c by (simp add: tick_def gw_quiet_same)
  then show ?thesis using GTick assms by (auto simp: with_conn_def split: option.split intro: inv_quiet)
next
  case (GBeat mid did)
  have "gw_quiet g (beat_start mid c did g)" if "gw_conns g mid = Some c" for c
    using that by (auto simp: beat_start_def split: option.split intro!: gw_quiet_trans [OF gw_quiet_put gw_quiet_emit])
  then show ?thesis using GBeat assms by (auto simp: with_conn_def split: option.split intro: inv_quiet)
next
  case (GRevoke u mid a b now answers)
  then show ?thesis using assms inv_quiet [OF assms(1) gw_quiet_revoke] by (auto simp: Revoke_def split: option.split)
next
  case (GDrop mid dis)
  then show ?thesis using assms inv_quiet [OF assms(1) gw_quiet_unregister] by (auto simp: with_conn_def split: option.split)
qed (use assms in \<open>auto simp: with_conn_def with_job_def inv_hello inv_todo inv_message inv_deliver inv_deliverLLM inv_sweep
    split: option.split stage.split dest!: find_job_in intro: inv_result_read inv_result_save inv_finish inv_finish_close
    inv_quiet gw_quiet_welcome gw_quiet_heartbeat\<close>)

interpretation gateway_runs: guarded "gw_step env" gw_inv gw_op_ok for env
  by unfold_locales (rule inv_step)

theorem reached_inv: "reached env g \<Longrightarrow> gw_inv g"
proof (induction rule: reached.induct)
  case (reached_start g)
  then show ?case by (simp add: started_def gw_inv_def ids_ok_def conns_ok_def sends_ok_def jobs_ok_def)
qed (rule inv_step)

subsection \<open>Properties\<close>

text \<open>A message that hands a directive to a machine.\<close>

fun hands :: "string \<Rightarrow> gw_event \<Rightarrow> bool" where
  "hands did (Wrote cid (DirectiveMsg i k x t)) = (i = did)"
| "hands did _ = False"

lemma hands_sent: "length (filter (hands did) tr) = length (filter (\<lambda>x. snd x = did) (sends tr))"
proof (induction tr)
  case (Cons e tr)
  have "length (filter (hands did) [e]) = length (filter (\<lambda>x. snd x = did) (sent_of e))"
  proof (cases e)
    case (Wrote cid m)
    then show ?thesis by (cases m) simp_all
  qed simp_all
  with Cons show ?case by (simp add: sends_def split: if_splits)
qed (simp add: sends_def)

lemma distinct_filter_one: "distinct (map f xs) \<Longrightarrow> length (filter (\<lambda>x. f x = k) xs) \<le> 1"
  by (induction xs) (auto simp: filter_empty_conv image_iff)

text \<open>C18: whatever the workers, the machines, Temporal and the database do, and however the goroutines of the
  gateway interleave, a directive is written to a machine at most once, and the connection it went on is the
  one its row records.
\<close>

theorem directive_sent_at_most_once:
  assumes "reached env g"
  shows "length (filter (hands did) (gw_trace g)) \<le> 1
    \<and> (\<forall>cid k x t. Wrote cid (DirectiveMsg did k x t) \<in> set (gw_trace g)
         \<longrightarrow> (\<exists>d \<in> set (directives (gw_db g)). d_id d = did \<and> d_sent_conn d = cid))"
proof -
  have ok: "sends_ok g" using reached_inv [OF assms] by (simp add: gw_inv_def)
  then have "length (filter (\<lambda>x. snd x = did) (sends (gw_trace g))) \<le> 1"
    unfolding sends_ok_def by (intro distinct_filter_one) simp
  moreover have "(cid, did) \<in> set (sends (gw_trace g))" if "Wrote cid (DirectiveMsg did k x t) \<in> set (gw_trace g)" for cid k x t
    using that by (force simp: sends_def)
  ultimately show ?thesis using ok unfolding hands_sent sends_ok_def by fastforce
qed

definition job_op :: "gw_op \<Rightarrow> string \<Rightarrow> bool" where
  "job_op op did = (case op of GRead i _ \<Rightarrow> i = did | GSave i _ \<Rightarrow> i = did | GFinish i _ _ _ \<Rightarrow> i = did | GClose i _ _ \<Rightarrow> i = did | _ \<Rightarrow> False)"

lemma end_job_simps [simp]:
  "gw_trace (end_job j g) = gw_trace g" "gw_db (end_job j g) = gw_db g" "gw_conns (end_job j g) = gw_conns g"
  "gw_trace (set_stage i st g) = gw_trace g" "gw_db (set_stage i st g) = gw_db g" "gw_conns (set_stage i st g) = gw_conns g"
  by (simp_all add: end_job_def release_def set_stage_def Let_def)

lemma close_conn_acks [simp]:
  "filter (is_ack did) (gw_trace (close_conn_of j code g)) = filter (is_ack did) (gw_trace g)" "gw_db (close_conn_of j code g) = gw_db g"
  by (auto simp: close_conn_of_def split: option.split)

lemma detach_ack_db [simp]: "gw_db (detach_ack j g) = gw_db g"
  by (auto simp: detach_ack_def split: option.split)

lemma row_unique: "ids_ok db \<Longrightarrow> x \<in> set (directives db) \<Longrightarrow> y \<in> set (directives db) \<Longrightarrow> d_id x = d_id y \<Longrightarrow> x = y"
  unfolding ids_ok_def distinct_map by (meson inj_onD)

lemma GetDirective_row:
  assumes "ids_ok db" and "d \<in> set (directives db)"
  shows "GetDirective db (d_id d) = Some d"
proof (cases "GetDirective db (d_id d)")
  case None
  then show ?thesis using assms(2) by (auto simp: GetDirective_def find_None_iff)
next
  case (Some x)
  then show ?thesis using GetDirective_Some [OF Some] row_unique [OF assms(1), of x d] assms(2) by simp
qed

lemma read_acks:
  assumes "ids_ok (gw_db g)" and "length (filter (is_ack did) (gw_trace g)) < length (filter (is_ack did) (gw_trace (result_read env j ok g)))"
    and "d \<in> set (directives (gw_db (result_read env j ok g)))" and "d_id d = jb_id j" and "d_machine d = jb_machine j"
  shows "d_state d \<noteq> DirectiveRunning"
proof
  assume run: "d_state d = DirectiveRunning"
  have db: "gw_db (result_read env j ok g) = gw_db g"
    by (auto simp: result_read_def Let_def split: option.split)
  then have "GetDirective (gw_db g) (jb_id j) = Some d" using GetDirective_row [of "gw_db g" d] assms(1,3,4) by simp
  with assms(2,5) run show False by (auto simp: result_read_def Let_def split: if_splits option.splits)
qed

lemma save_acks:
  assumes "length (filter (is_ack did) (gw_trace g)) < length (filter (is_ack did) (gw_trace (result_save j x ok g)))"
    and "d \<in> set (directives (gw_db (result_save j x ok g)))" and "d_id d = jb_id j"
  shows "d_state d \<noteq> DirectiveRunning"
proof -
  from assms(1) have "SaveDirectiveResult (gw_db g) (jb_id j) (Kept (jb_msg j)) = Inl ErrDirectiveClosed" and "ok"
    by (auto simp: result_save_def split: if_splits sum.splits)
  then show ?thesis using assms(2,3)
    by (auto simp: result_save_def SaveDirectiveResult_def Let_def list_ex_iff is_open_def split: if_splits)
qed

text \<open>C19: a machine forgets a result when it is acked, so a result is acked only once nothing waits for it: when a
  result's handling writes an ack for a directive, that directive is then no running directive of the machine, or Temporal
  has answered the completion of its activity (done, or the activity is gone).
\<close>

theorem result_acked_only_when_over:
  assumes "reached env g" and "find_job g did = Some j" and "job_op op did"
    and "length (filter (is_ack did) (gw_trace g)) < length (filter (is_ack did) (gw_trace (gw_step env g op)))"
    and "d \<in> set (directives (gw_db (gw_step env g op)))" and "d_id d = did" and "d_machine d = jb_machine j"
  shows "d_state d \<noteq> DirectiveRunning \<or> answered (gw_trace (gw_step env g op)) (d_token d)"
proof -
  note inv = reached_inv [OF assms(1)]
  have ids: "ids_ok (gw_db g)" using inv by (simp add: gw_inv_def)
  from find_job_in [OF assms(2)] have j: "j \<in> set (gw_jobs g)" "jb_id j = did" by auto
  from assms(3) consider ok where "op = GRead did ok" | ok where "op = GSave did ok"
    | files ans again where "op = GFinish did files ans again" | ok now where "op = GClose did ok now"
    by (auto simp: job_op_def split: gw_op.splits)
  then show ?thesis
  proof cases
    case 1
    then show ?thesis using assms(2,4-7) j read_acks [OF ids, of did env j ok d]
      by (cases "jb_stage j") (auto simp: with_job_def)
  next
    case 2
    then show ?thesis using assms(2,4-7) j save_acks [of did g j _ ok d]
      by (cases "jb_stage j") (auto simp: with_job_def)
  next
    case 3
    have "filter (is_ack did) (gw_trace (finish env j x files ans again g)) = filter (is_ack did) (gw_trace g)" for x
      by (rule finish_form [of g x env j files ans again]) auto
    then show ?thesis using assms(2,4) 3 by (cases "jb_stage j") (auto simp: with_job_def)
  next
    case 4
    with assms(2,4) obtain x st where st: "jb_stage j = Closing x st" by (cases "jb_stage j") (auto simp: with_job_def)
    let ?h = "detach_ack j (close_db (d_id x) st (w_error (jb_msg j)) now ok (clear_note_gw x g))"
    from inv_stage [OF inv j(1)] st have k: "known g j x" "st \<noteq> DirectiveReserved" "answered (gw_trace g) (d_token x)" by auto
    have q: "gw_quiet g ?h" using k(2) by (intro gw_quiet_trans [OF gw_quiet_clear gw_quiet_trans [OF gw_quiet_close_db gw_quiet_detach_ack]])
    have step: "gw_step env g op = end_job j ?h" using 4 st assms(2) by (simp add: with_job_def finish_close_def)
    have "known ?h j x" using known_evolves [OF k(1)] q by (simp add: gw_quiet_def)
    then obtain y where y: "y \<in> set (directives (gw_db ?h))" "row_follows x y" "d_state x = DirectiveRunning" "d_id x = did"
      using j(2) by (auto simp: known_def)
    have "ids_ok (gw_db ?h)" using inv_quiet [OF inv q] by (simp add: gw_inv_def)
    with y assms(5,6) have "y = d" unfolding step by (auto simp: row_follows_def intro: row_unique)
    then have "d_token d = d_token x" using y by (simp add: row_follows_def)
    moreover have "set (gw_trace g) \<subseteq> set (gw_trace ?h)" using q by (simp add: gw_quiet_def)
    ultimately show ?thesis using k(3) unfolding step by (auto simp: answered_def)
  qed
qed

definition retry_job :: "directive \<Rightarrow> wire \<Rightarrow> job" where
  "retry_job d m = \<lparr>jb_id = d_id d, jb_conn = None, jb_machine = d_machine d, jb_msg = m, jb_size = 0, jb_stage = Completing d\<rparr>"

lemma retry_other:
  assumes "d_id x \<noteq> i"
  shows "find_job (retry_one g x) i = find_job g i" "completing (retry_one g x) i = completing g i"
    "gw_slots (retry_one g x) \<le> gw_slots g + 1"
  using assms by (auto simp: retry_one_def find_job_def completing_def claim_def find_append split: option.split kept_result.split)

lemma retry_others: "i \<notin> d_id ` set ds \<Longrightarrow> find_job (foldl retry_one g ds) i = find_job g i"
  by (induction ds arbitrary: g) (auto simp: retry_other)

lemma retry_makes_job:
  assumes "distinct (map d_id ds)" and "d \<in> set ds" and "\<not> completing g (d_id d)" and "find_job g (d_id d) = None"
    and "d_result d = Some (Kept m)" and "w_id m = d_id d" and "gw_slots g + length ds \<le> maxResultRetries"
  shows "find_job (foldl retry_one g ds) (d_id d) = Some (retry_job d m)"
  using assms
proof (induction ds arbitrary: g)
  case (Cons x ds)
  show ?case
  proof (cases "x = d")
    case True
    have "find_job (retry_one g d) (d_id d) = Some (retry_job d m)"
      using Cons.prems(3-7) by (simp add: retry_one_def find_job_def retry_job_def find_append)
    moreover have "d_id d \<notin> d_id ` set ds" using Cons.prems(1) True by simp
    ultimately show ?thesis using True by (simp add: retry_others)
  next
    case False
    then have "d \<in> set ds" "d_id x \<noteq> d_id d" using Cons.prems(1,2) by (auto simp: image_iff)
    then show ?thesis using Cons.IH [of "retry_one g x"] Cons.prems retry_other [of x "d_id d" g] by simp
  qed
qed simp

lemma no_job: "gw_inv g \<Longrightarrow> \<not> completing g i \<Longrightarrow> find_job g i = None"
  by (auto simp: gw_inv_def jobs_ok_def completing_def find_job_def find_None_iff)

lemma pending_distinct: "ids_ok db \<Longrightarrow> distinct (map d_id (PendingDirectiveResults db))"
  by (auto simp: PendingDirectiveResults_def ids_ok_def distinct_map inj_on_def)

lemma complete_once:
  "fst (answers 0) = a \<Longrightarrow> final_answer a \<or> snd (answers 0) \<Longrightarrow> 0 < n \<Longrightarrow>
     complete n answers token what g = (emit (CalledComplete token what a) g, a)"
  by (cases "answers 0"; cases n) (auto simp: complete_form)

lemma close_row:
  assumes "d \<in> set (directives db)" and "is_open d"
  shows "\<exists>x \<in> set (directives (fst (CloseDirective db (d_id d) st e now))). d_id x = d_id d \<and> d_state x = st"
proof
  let ?x = "d\<lparr>d_state := st, d_error := e, d_closed := Some now\<rparr>"
  show "?x \<in> set (directives (fst (CloseDirective db (d_id d) st e now)))"
    unfolding CloseDirective_def Let_def fst_conv update_directives_simps set_map using assms by (intro image_eqI [of _ _ d]) simp_all
qed simp


text \<open>C21: what a machine's hello makes of its directives. With what the database holds open for it: a running directive it
  lists is carried on; of the ones it does not list, one never sent is sent (a call to the model never is), one sent on
  another connection is lost; what it runs that is not open here is cancelled, what it finished is acked. Nothing else:
  a hello brings no directive back to life, and names none that the database does not hold open.
\<close>

theorem reconcile_exactly:
  "reconcile opened running finished connID =
     (let listed = (\<lambda>d. d_id d \<in> set running \<union> set finished); live = (\<lambda>d. d_state d = DirectiveRunning)
      in \<lparr>p_attach = filter (\<lambda>d. live d \<and> listed d) opened,
          p_send = filter (\<lambda>d. live d \<and> \<not> listed d \<and> d_sent_conn d = [] \<and> d_kind d \<noteq> llmKind) opened,
          p_lost = filter (\<lambda>d. live d \<and> \<not> listed d \<and> d_sent_conn d \<notin> {[], connID}) opened,
          p_cancel = filter (\<lambda>i. i \<notin> d_id ` {d \<in> set opened. live d}) running,
          p_ack = filter (\<lambda>i. i \<notin> d_id ` {d \<in> set opened. live d}) finished\<rparr>)"
proof -
  have "plan_open connID listed ds p = p\<lparr>
      p_attach := p_attach p @ filter (\<lambda>d. d_state d = DirectiveRunning \<and> d_id d \<in> set listed) ds,
      p_send := p_send p @ filter (\<lambda>d. d_state d = DirectiveRunning \<and> d_id d \<notin> set listed \<and> d_sent_conn d = [] \<and> d_kind d \<noteq> llmKind) ds,
      p_lost := p_lost p @ filter (\<lambda>d. d_state d = DirectiveRunning \<and> d_id d \<notin> set listed \<and> d_sent_conn d \<notin> {[], connID}) ds\<rparr>" for listed ds p
    by (induction ds arbitrary: p) simp_all
  moreover have "isOpen opened = (\<lambda>i. i \<in> d_id ` {d \<in> set opened. d_state d = DirectiveRunning})"
    by (auto simp: isOpen_def list_ex_iff fun_eq_iff)
  ultimately show ?thesis by (simp add: reconcile_def Let_def)
qed

subsection \<open>Witnesses\<close>

lemma reached_run: "reached env g \<Longrightarrow> list_all gw_op_ok ops \<Longrightarrow> reached env (foldl (gw_step env) g ops)"
  by (induction ops arbitrary: g) (auto intro: reached_step)

text \<open>A laptop with one run started for it, which no connection was sent yet.\<close>

definition ex_run :: directive where
  "ex_run = \<lparr>d_id = ''d1'', d_machine = ''m1'', d_user = ''alice'', d_kind = ''echo'', d_input = ''in'', d_workflow = ''w'', d_run = ''r'',
     d_activity = ''a'', d_call_key = ''k'', d_token = Some ''t1'', d_state = DirectiveRunning, d_handoff_by = 90, d_deadline = 100,
     d_sent_conn = [], d_result = None, d_error = [], d_created = 1, d_started = Some 2, d_closed = None, d_session = [],
     d_participant = [], d_agent = [], d_turn_key = [], d_call_id = [], d_agent_id = []\<rparr>"

definition ex_gw :: gateway where
  "ex_gw = \<lparr>gw_id = ''gw'', gw_db = laptop_db\<lparr>directives := [ex_run]\<rparr>, gw_opening = Map.empty, gw_conns = Map.empty, gw_claimed = [],
     gw_slots = 0, gw_jobs = [], gw_dup = Map.empty, gw_notice = False, gw_note_every = 0, gw_trace = []\<rparr>"

definition ex_genv :: gw_env where
  "ex_genv = \<lparr>ge_words = (\<lambda>_. []), ge_input = (\<lambda>_. None), ge_quote = (\<lambda>s. s), ge_hash = (\<lambda>s. s)\<rparr>"

definition ex_hello :: wire where
  "ex_hello = empty_wire\<lparr>w_type := ''hello'', w_protocol := 5, w_max := 1\<rparr>"

definition ex_result :: wire where
  "ex_result = empty_wire\<lparr>w_type := ''result'', w_id := ''d1'', w_status := ''ok''\<rparr>"

text \<open>The machine connects and gets its run; its result is read and kept.\<close>

definition ex_connect :: "gw_op list" where
  "ex_connect = [GConnect ''c-1'' ''h0'' [] True True 3 (\<lambda>_ _. (TOk, False)), GHello ''c-1'' (Some ex_hello) 10 False False True 4,
     GWelcome ''m1'' ''h1'' True True True True 5, GTodo ''m1'' True 6 (\<lambda>_. (TOk, False))]"

definition ex_keep :: "gw_op list" where
  "ex_keep = ex_connect @ [GMessage ''m1'' (Some ex_result) 50 True True True 7, GRead ''d1'' True, GSave ''d1'' True]"

lemma ex_started: "started ex_gw"
  by (simp add: started_def ex_gw_def)

lemma ex_reached: "list_all gw_op_ok ops \<Longrightarrow> reached ex_genv (foldl (gw_step ex_genv) ex_gw ops)"
  by (rule reached_run [OF reached_start [OF ex_started]])

lemmas ex_row_defs = ex_gw_def laptop_db_def laptop_def new_machine_def laptop_info_def ex_run_def

lemma ex_checked: "CheckFromMachine ex_hello = Inr ex_hello" "CheckFromMachine ex_result = Inr ex_result"
  "readLimitFor ex_hello = 256 * 1024" "readLimitFor ex_result = 4 * 1024 * 1024"
  by (simp_all add: CheckFromMachine_def ex_hello_def ex_result_def empty_wire_def type_defs status_defs limit_defs Cut_def empty_output_def
      checkStatus_def idPattern_def lower_or_digit_def is_digit_def readLimitFor_def)

lemma ex_facts: "w_type ex_hello = TypeHello" "w_protocol ex_hello = 5" "m_id laptop = ''m1''"
  "gw_conns ex_gw = Map.empty" "gw_opening ex_gw = Map.empty" "gw_opening_update (\<lambda>_. Map.empty) ex_gw = ex_gw"
  by (simp_all add: ex_hello_def type_defs laptop_def new_machine_def ex_gw_def)

definition ex_conn :: conn where
  "ex_conn = \<lparr>cn_id = ''c-1'', cn_m = laptop, cn_presented = ''h0'', cn_addr = [], cn_hello = ex_hello, cn_token_hash = ''h1'', cn_ready = True,
     cn_claude_code = [], cn_llm = [], cn_directives = [], cn_aside = None, cn_todo = [Send ex_run], cn_beating = []\<rparr>"

lemma ex_step1: "gw_step ex_genv ex_gw (GConnect ''c-1'' ''h0'' [] True True 3 (\<lambda>_ _. (TOk, False)))
    = ex_gw\<lparr>gw_opening := [''c-1'' \<mapsto> (laptop, ''h0'', [])]\<rparr>"
  by (simp add: ServeConnect_def MachineByToken_def ex_genv_def ex_row_defs)

lemma ex_step2: "gw_step ex_genv (ex_gw\<lparr>gw_opening := [''c-1'' \<mapsto> (laptop, ''h0'', [])]\<rparr>) (GHello ''c-1'' (Some ex_hello) 10 False False True 4)
    = ex_gw\<lparr>gw_conns := [''m1'' \<mapsto> new_conn ''c-1'' laptop ''h0'' [] ex_hello]\<rparr>"
  using ex_facts by (simp add: serve_hello_def ex_checked register_def put_conn_def new_conn_def MinProtocol_def Let_def)

definition ex_db2 :: mdb where
  "ex_db2 = laptop_db\<lparr>machines := [laptop\<lparr>m_token := Some ''h1'', m_prev := Some ''h0'', m_connected_to := ''gw'', m_seen := Some 5, m_connected_at := Some 5\<rparr>],
     directives := [ex_run]\<rparr>"

lemma ex_step3: "gw_step ex_genv (ex_gw\<lparr>gw_conns := [''m1'' \<mapsto> new_conn ''c-1'' laptop ''h0'' [] ex_hello]\<rparr>) (GWelcome ''m1'' ''h1'' True True True True 5)
    = ex_gw\<lparr>gw_db := ex_db2, gw_conns := [''m1'' \<mapsto> ex_conn],
        gw_trace := [Wrote ''c-1'' (WelcomeMsg ''m1'' ''laptop''), Wrote ''c-1'' (RotateMsg ''h1'')]\<rparr>"
  by (simp add: with_conn_def serve_welcome_def new_conn_def may_fail_def RotateMachineToken_def find_live_def rotateTokens_def ex_genv_def
      MachineConnected_def update_machines_def retireTokens_def hello_info_def ex_hello_def empty_wire_def emit_def put_conn_def ex_conn_def
      ex_db2_def OpenDirectives_def is_open_def reconcile_def isOpen_def todos_def llmKind_def ex_row_defs coalesce_def nullif_def)

lemma ex_step4: "gw_step ex_genv (ex_gw\<lparr>gw_db := ex_db2, gw_conns := [''m1'' \<mapsto> ex_conn],
        gw_trace := [Wrote ''c-1'' (WelcomeMsg ''m1'' ''laptop''), Wrote ''c-1'' (RotateMsg ''h1'')]\<rparr>) (GTodo ''m1'' True 6 (\<lambda>_. (TOk, False)))
    = ex_gw\<lparr>gw_db := ex_db2\<lparr>directives := [ex_run\<lparr>d_sent_conn := ''c-1''\<rparr>]\<rparr>,
        gw_conns := [''m1'' \<mapsto> attach ex_run (ex_conn\<lparr>cn_todo := []\<rparr>)],
        gw_trace := [Wrote ''c-1'' (WelcomeMsg ''m1'' ''laptop''), Wrote ''c-1'' (RotateMsg ''h1''), Wrote ''c-1'' (DirectiveMsg ''d1'' ''echo'' ''in'' 100)]\<rparr>"
  by (simp add: with_conn_def do_todo_def ex_conn_def send_def MarkDirectiveSent_def update_directives_def ex_db2_def emit_def on_conn_def
      put_conn_def note_gw_def ex_row_defs)

text \<open>The states that follow: the run sent, its result under way at a stage, over what the database holds of the run.\<close>

definition ex_sent :: gateway where
  "ex_sent = ex_gw\<lparr>gw_db := ex_db2\<lparr>directives := [ex_run\<lparr>d_sent_conn := ''c-1''\<rparr>]\<rparr>,
        gw_conns := [''m1'' \<mapsto> attach ex_run (ex_conn\<lparr>cn_todo := []\<rparr>)],
        gw_trace := [Wrote ''c-1'' (WelcomeMsg ''m1'' ''laptop''), Wrote ''c-1'' (RotateMsg ''h1''), Wrote ''c-1'' (DirectiveMsg ''d1'' ''echo'' ''in'' 100)]\<rparr>"

definition ex_at :: "stage \<Rightarrow> directive \<Rightarrow> gateway" where
  "ex_at st d = ex_sent\<lparr>gw_db := ex_db2\<lparr>directives := [d]\<rparr>, gw_claimed := [''d1''],
     gw_jobs := [\<lparr>jb_id = ''d1'', jb_conn = Some ''c-1'', jb_machine = ''m1'', jb_msg = ex_result, jb_size = 50, jb_stage = st\<rparr>]\<rparr>"

abbreviation ex_run1 :: directive where "ex_run1 \<equiv> ex_run\<lparr>d_sent_conn := ''c-1''\<rparr>"
abbreviation ex_run2 :: directive where "ex_run2 \<equiv> ex_run\<lparr>d_sent_conn := ''c-1'', d_result := Some (Kept ex_result)\<rparr>"

lemma ex_sent_run: "foldl (gw_step ex_genv) ex_gw ex_connect = ex_sent"
  unfolding ex_connect_def foldl.simps ex_step1 ex_step2 ex_step3 ex_step4 ex_sent_def ..

lemma ex_sent_facts:
  "gw_conns ex_sent ''m1'' = Some (attach ex_run (ex_conn\<lparr>cn_todo := []\<rparr>))" "gw_claimed ex_sent = []" "gw_jobs ex_sent = []"
  "gw_db ex_sent = ex_db2\<lparr>directives := [ex_run1]\<rparr>" "gw_slots ex_sent = 0"
  "gw_trace ex_sent = [Wrote ''c-1'' (WelcomeMsg ''m1'' ''laptop''), Wrote ''c-1'' (RotateMsg ''h1''), Wrote ''c-1'' (DirectiveMsg ''d1'' ''echo'' ''in'' 100)]"
  "gw_notice ex_sent = False" "cn_ready ex_conn = True" "cn_id ex_conn = ''c-1''" "w_type ex_result = TypeResult" "w_id ex_result = ''d1''"
  "w_status ex_result = StatusOK" "w_error ex_result = []" "w_text ex_result = []" "w_output ex_result = empty_output"
  by (simp_all add: ex_sent_def ex_gw_def ex_conn_def ex_result_def empty_wire_def type_defs status_defs)

lemma ex_run_facts: "d_id ex_run = ''d1''" "d_machine ex_run = ''m1''" "d_kind ex_run = ''echo''" "d_state ex_run = DirectiveRunning"
  "d_token ex_run = Some ''t1''" "d_session ex_run = []" "is_open ex_run"
  by (simp_all add: ex_run_def is_open_def)

lemma ex_step5: "gw_step ex_genv ex_sent (GMessage ''m1'' (Some ex_result) 50 True True True 7) = ex_at Reading ex_run1"
  by (simp add: with_conn_def ex_sent_facts serving_def attach_def read_message_def ex_checked type_defs [symmetric])
     (simp add: type_defs ex_sent_facts completing_def claim_def ex_at_def)

lemma ex_step6: "gw_step ex_genv (ex_at Reading d) (GRead ''d1'' True) = ex_at (Saving d) d"
  if "d_id d = ''d1''" "d_machine d = ''m1''" "d_state d = DirectiveRunning" "d_kind d = ''echo''"
  using that by (simp add: with_job_def find_job_def ex_at_def result_read_def GetDirective_def llmKind_def limit_defs set_stage_def)

lemma ex_step7: "gw_step ex_genv (ex_at (Saving d) ex_run1) (GSave ''d1'' True) = ex_at (Completing d) ex_run2"
  by (simp add: with_job_def find_job_def ex_at_def result_save_def SaveDirectiveResult_def is_open_def update_directives_def set_stage_def ex_run_facts)

lemma ex_kept_run: "foldl (gw_step ex_genv) ex_gw ex_keep = ex_at (Completing ex_run1) ex_run2"
  using ex_step6 [of ex_run1] ex_step7 [of ex_run1]
  by (simp add: ex_keep_def ex_sent_run ex_step5 ex_run_facts del: gw_step.simps)

definition ex_outcome :: outcome where
  "ex_outcome = RunResult \<lparr>mr_output = empty_output, mr_progress = [], mr_files = []\<rparr>"

lemma ex_outcome_of: "d_kind d = ''echo'' \<Longrightarrow> outcome_of ex_genv d ex_result [] = ex_outcome"
  by (simp add: outcome_of_def llmKind_def completion_def ex_sent_facts ex_outcome_def)

definition ex_done :: gateway where
  "ex_done = (ex_at (Closing ex_run1 DirectiveCompleted) ex_run2)\<lparr>gw_trace := gw_trace ex_sent @ [CalledComplete (Some ''t1'') ex_outcome TOk]\<rparr>"

lemma ex_step8: "gw_step ex_genv (ex_at (Completing ex_run1) ex_run2) (GFinish ''d1'' [] (\<lambda>_. (TOk, False)) again) = ex_done"
proof -
  have "complete completeTries (\<lambda>_. (TOk, False)) token what g = (emit (CalledComplete token what TOk) g, TOk)" for token what g
    by (rule complete_once) (simp_all add: final_answer_def completeTries_def)
  then show ?thesis
    by (simp add: with_job_def find_job_def ex_at_def finish_def tries_of_def ex_run_facts ex_outcome_of ex_sent_facts set_stage_def
        emit_def ex_done_def closedState_def)
qed

definition ex_away :: gateway where
  "ex_away = ex_sent\<lparr>gw_db := ex_db2\<lparr>directives := [ex_run2]\<rparr>, gw_trace := gw_trace ex_sent @ [CalledComplete (Some ''t1'') ex_outcome TOther]\<rparr>"

lemma ex_step8_away: "gw_step ex_genv (ex_at (Completing ex_run1) ex_run2) (GFinish ''d1'' [] (\<lambda>_. (TOther, True)) again) = ex_away"
proof -
  have "complete completeTries (\<lambda>_. (TOther, True)) token what g = (emit (CalledComplete token what TOther) g, TOther)" for token what g
    by (rule complete_once) (simp_all add: completeTries_def)
  then show ?thesis
    by (simp add: with_job_def find_job_def ex_at_def finish_def tries_of_def ex_run_facts ex_outcome_of ex_sent_facts end_job_def release_def
        emit_def ex_away_def)
qed

lemma ex_ops_ok: "list_all gw_op_ok ex_connect" "list_all gw_op_ok ex_keep"
  by (simp_all add: ex_keep_def ex_connect_def)

theorem directive_sent_at_most_once_witness:
  "length (filter (hands ''d1'') (gw_trace ex_sent)) = 1
    \<and> (\<exists>d \<in> set (directives (gw_db ex_sent)). d_id d = ''d1'' \<and> d_sent_conn d = ''c-1'')"
proof -
  have "reached ex_genv ex_sent" using ex_reached [OF ex_ops_ok(1)] by (simp only: ex_sent_run)
  note p = directive_sent_at_most_once [OF this, of "''d1''"]
  have "Wrote ''c-1'' (DirectiveMsg ''d1'' ''echo'' ''in'' 100) \<in> set (gw_trace ex_sent)" by (simp add: ex_sent_facts)
  with p have "\<exists>d \<in> set (directives (gw_db ex_sent)). d_id d = ''d1'' \<and> d_sent_conn d = ''c-1''" by blast
  then show ?thesis by (simp add: ex_sent_facts)
qed

text \<open>The database fails at the close: the directive is still running in it, and its completion was answered.\<close>

theorem result_acked_only_when_over_witness:
  "ex_run2 \<in> set (directives (gw_db (gw_step ex_genv ex_done (GClose ''d1'' False 9)))) \<and> d_state ex_run2 = DirectiveRunning
    \<and> answered (gw_trace (gw_step ex_genv ex_done (GClose ''d1'' False 9))) (d_token ex_run2)"
proof -
  have "reached ex_genv (gw_step ex_genv (foldl (gw_step ex_genv) ex_gw ex_keep) (GFinish ''d1'' [] (\<lambda>_. (TOk, False)) (\<lambda>_. (TOk, False))))"
    by (rule reached_step [OF ex_reached [OF ex_ops_ok(2)]]) simp
  then have r: "reached ex_genv ex_done" by (simp only: ex_kept_run ex_step8)
  obtain j where j: "find_job ex_done ''d1'' = Some j" "jb_machine j = ''m1''" by (simp add: find_job_def ex_done_def ex_at_def)
  have row: "ex_run2 \<in> set (directives (gw_db (gw_step ex_genv ex_done (GClose ''d1'' False 9))))"
    by (simp add: with_job_def find_job_def ex_done_def ex_at_def finish_close_def close_db_def clear_note_gw_def ex_sent_facts)
  have ack: "length (filter (is_ack ''d1'') (gw_trace ex_done)) < length (filter (is_ack ''d1'') (gw_trace (gw_step ex_genv ex_done (GClose ''d1'' False 9))))"
    by (simp add: with_job_def find_job_def ex_done_def ex_at_def finish_close_def close_db_def clear_note_gw_def ex_sent_facts detach_ack_def)
  from result_acked_only_when_over [OF r j(1) _ ack row] j(2) row show ?thesis by (simp add: job_op_def ex_run_facts)
qed


subsection \<open>What is kept of a call to the model\<close>

text \<open>C22: whatever a machine answers for a call to the model, what the gateway keeps of it is one a turn can carry: an answer
  within the bounds, with distinct calls that have a name and an object for input, or a failure that can be read; an
  answer that is refused ends the call in an error of its own type (a bad result), never in an answer; and what is kept is
  kept again as it is, for the same directive.
\<close>

theorem llm_result_kept_is_sound:
  assumes "m' = checkLLMResult env m"
  shows "w_id m' = w_id m \<and> checkLLMResult env m' = m' \<and> ro_len (w_output m') \<le> MaxLLMOutputBytes
    \<and> (w_status m' = StatusOK \<longrightarrow> (\<exists>a. ro_answer (w_output m') = Some a \<and> answer_ok a
         \<and> (\<exists>pm. llmCompletion env d m' = LLMAnswer a pm)))
    \<and> (w_status m' = StatusError \<and> ro_len (w_output m') > 0 \<longrightarrow> (\<exists>f. ro_failure (w_output m') = Some f))
    \<and> (w_status m = StatusOK \<and> w_status m' \<noteq> StatusOK \<longrightarrow>
         (\<exists>f. llmCompletion env d m' = ApplicationError (w_error m') ''MachineBadResult'' (Some (LLMDetail f))))"
proof -
  have st: "StatusOK \<noteq> StatusError" by (simp add: status_defs)
  have r: "w_status (refuse m why) = StatusError" "ro_len (w_output (refuse m why)) = 21" "w_id (refuse m why) = w_id m"
    "ro_failure (w_output (refuse m why)) = Some \<lparr>lf_type = LLMFailBadResult, lf_retry_ms = 0\<rparr>"
    "w_error (refuse m why) \<noteq> []" for why
    by (simp_all add: refuse_def failure_output_def LLMFailBadResult_def Cut_def ellipsis_def)
  have rr: "checkLLMResult env (refuse m why) = refuse m why"
    "llmCompletion env d (refuse m why) = ApplicationError (w_error (refuse m why)) ''MachineBadResult'' (Some (LLMDetail \<lparr>lf_type = LLMFailBadResult, lf_retry_ms = 0\<rparr>))" for why
    using st r [of why]
    by (simp_all add: checkLLMResult_def llmCompletion_def Let_def or_words_def limit_defs status_defs LLMFailRetryAfter_def
        LLMFailContextTooLong_def LLMFailPermanent_def LLMFailCredentials_def LLMFailBadResult_def)
  have size: "MaxMessageBytes \<le> MaxLLMOutputBytes" "21 \<le> MaxLLMOutputBytes" "ro_len empty_output = 0"
    by (simp_all add: limit_defs empty_output_def)
  consider "w_status m = StatusOK" | "w_status m = StatusError" | "w_status m \<noteq> StatusOK" "w_status m \<noteq> StatusError" by blast
  then show ?thesis
  proof cases
    case 1
    then show ?thesis
    proof (cases "CheckLLMOutput (w_output m)")
      case (Inl e)
      then have "m' = refuse m (ge_words env e)" using 1 assms by (simp add: checkLLMResult_def)
      then show ?thesis using r rr st size(2) by auto
    next
      case (Inr a)
      then have "m' = m" using 1 assms by (simp add: checkLLMResult_def)
      then show ?thesis using 1 Inr assms st by (auto simp: CheckLLMOutput_iff llmCompletion_def)
    qed
  next
    case 2
    then show ?thesis using assms r rr st size by (auto simp: checkLLMResult_def)
  next
    case 3
    then show ?thesis using assms size by (auto simp: checkLLMResult_def)
  qed
qed

text \<open>Two calls under one ID: refused, and the turn sees a bad result.\<close>

definition ex_call :: wire_call where
  "ex_call = \<lparr>wc_id = ''x'', wc_name = ''t'', wc_input = Some (JVObj [])\<rparr>"

definition ex_twice :: wire where
  "ex_twice = empty_wire\<lparr>w_type := TypeResult, w_id := ''d1'', w_status := StatusOK, w_output := \<lparr>ro_len = 99, ro_valid = True,
     ro_answer = Some \<lparr>an_content = [], an_calls = [ex_call, ex_call], an_stop = ''tool_use'', an_model = [], an_usage = None\<rparr>, ro_failure = None\<rparr>\<rparr>"

theorem llm_result_kept_is_sound_witness:
  "w_status (checkLLMResult ex_genv ex_twice) = StatusError
    \<and> (\<exists>f. llmCompletion ex_genv ex_run (checkLLMResult ex_genv ex_twice) =
         ApplicationError (w_error (checkLLMResult ex_genv ex_twice)) ''MachineBadResult'' (Some (LLMDetail f)))"
proof -
  have ok: "w_status ex_twice = StatusOK" by (simp add: ex_twice_def)
  have "checkLLMResult ex_genv ex_twice = refuse ex_twice []"
    by (simp add: checkLLMResult_def ex_twice_def ex_call_def CheckLLMOutput_def jsonObject_def limit_defs ex_genv_def)
  then have err: "w_status (checkLLMResult ex_genv ex_twice) = StatusError" "StatusError \<noteq> StatusOK" by (simp_all add: refuse_def status_defs)
  with llm_result_kept_is_sound [OF refl, of ex_genv ex_twice ex_run] ok show ?thesis by simp
qed

end
