(* ===== verification/Turns.thy ===== *)
theory Turns
  imports Keys "HOL-Library.AList"
begin

section \<open>What the server knows of its participants\<close>

text \<open>
  \<open>session/turns.go\<close>: the server follows the participants of its sessions from the turn events that pass through its hub
  and from the messages it delivers: who works, on which turn, and which messages wait. It is held in memory, and what is a
  day old is dropped. A Go map is the list of its entries, one per key (\<open>turns_ok\<close>); the code's mutex makes each
  operation one step, so an operation is a function, of the time the clock reads in it. The zero \<open>time.Time\<close> is \<open>None\<close>: it
  is older than anything.

  The abstract tracker at the end keeps everything. \<open>queue_and_turn_as_told\<close> shows that the questions Deliver asks (how many
  messages wait, which one is answered) have the same answers on both.
\<close>

definition turnTrust :: duration where "turnTrust = 30 * 1000000000"

definition turnForget :: duration where "turnForget = 24 * 3600 * 1000000000"

record turn_event =
  te_agent :: string
  te_agent_name :: string
  te_turn :: string
  te_user :: string
  te_user_name :: string

definition no_event :: turn_event where
  "no_event = \<lparr>te_agent = [], te_agent_name = [], te_turn = [], te_user = [], te_user_name = []\<rparr>"

record participant_turns =
  w_working :: bool
  w_event :: turn_event
  w_at :: "time option"
  w_note :: string
  w_pending :: "(int \<times> time) list"

record task_note =
  tn_text :: string
  tn_at :: time

record turns =
  tu_m :: "(string \<times> (string \<times> participant_turns) list) list"
  tu_notes :: "(string \<times> (string \<times> task_note) list) list"

definition no_turns :: turns where
  "no_turns = \<lparr>tu_m = [], tu_notes = []\<rparr>"

text \<open>\<open>m[k]\<close> of a map of maps, the inner one empty when there is none.\<close>

definition inner :: "('k \<times> 'v list) list \<Rightarrow> 'k \<Rightarrow> 'v list" where
  "inner m k = (case map_of m k of Some ps \<Rightarrow> ps | None \<Rightarrow> [])"

text \<open>\<open>t.m[sessionID][participant]\<close>, \<open>None\<close> when nil.\<close>

definition known_of :: "turns \<Rightarrow> string \<Rightarrow> string \<Rightarrow> participant_turns option" where
  "known_of t sid p = map_of (inner (tu_m t) sid) p"

definition new_participant :: participant_turns where
  "new_participant = \<lparr>w_working = False, w_event = no_event, w_at = None, w_note = [], w_pending = []\<rparr>"

text \<open>\<open>participant\<close> returns the entry, created if need be; its client writes it back.\<close>

definition participant :: "turns \<Rightarrow> string \<Rightarrow> string \<Rightarrow> participant_turns" where
  "participant t sid p = (case known_of t sid p of Some w \<Rightarrow> w | None \<Rightarrow> new_participant)"

definition put_participant :: "turns \<Rightarrow> string \<Rightarrow> string \<Rightarrow> participant_turns \<Rightarrow> turns" where
  "put_participant t sid p w = t\<lparr>tu_m := AList.update sid (AList.update p w (inner (tu_m t) sid)) (tu_m t)\<rparr>"

definition forgotten :: "time \<Rightarrow> time \<Rightarrow> bool" where
  "forgotten now at = (turnForget \<le> now - at)"

definition prune_participant :: "time \<Rightarrow> participant_turns \<Rightarrow> participant_turns" where
  "prune_participant now w = w\<lparr>w_pending := filter (\<lambda>x. \<not> forgotten now (snd x)) (w_pending w)\<rparr>"

definition stale :: "time \<Rightarrow> participant_turns \<Rightarrow> bool" where
  "stale now w = (w_pending w = [] \<and> (case w_at w of None \<Rightarrow> True | Some at \<Rightarrow> forgotten now at))"

definition prune_session :: "time \<Rightarrow> (string \<times> participant_turns) list \<Rightarrow> (string \<times> participant_turns) list" where
  "prune_session now ps = filter (\<lambda>x. \<not> stale now (snd x)) (map (\<lambda>x. (fst x, prune_participant now (snd x))) ps)"

definition prune :: "time \<Rightarrow> turns \<Rightarrow> turns" where
  "prune now t = t\<lparr>tu_m := filter (\<lambda>x. snd x \<noteq> []) (map (\<lambda>x. (fst x, prune_session now (snd x))) (tu_m t))\<rparr>"

definition turn_anchor :: "string \<Rightarrow> int" where
  "turn_anchor turn = (case TurnAnchor turn of Some m \<Rightarrow> m | None \<Rightarrow> 0)"

definition event_participant :: "turn_event \<Rightarrow> string" where
  "event_participant e = cmp_or (TurnParticipant (te_turn e)) (te_agent e)"

definition told :: "time \<Rightarrow> bool \<Rightarrow> turn_event \<Rightarrow> participant_turns \<Rightarrow> participant_turns" where
  "told now started e w =
     (if started then \<lparr>w_working = True, w_event = e, w_at = Some now, w_note = [], w_pending = w_pending w\<rparr>
      else if \<not> w_working w \<or> te_turn (w_event w) = te_turn e
      then w\<lparr>w_working := False, w_event := e, w_at := Some now, w_note := []\<rparr> else w)"

definition set_turn :: "time \<Rightarrow> string \<Rightarrow> bool \<Rightarrow> turn_event \<Rightarrow> turns \<Rightarrow> turns" where
  "set_turn now sid started e t =
     (let t1 = prune now t; p = event_participant e; w = participant t1 sid p;
          w1 = w\<lparr>w_pending := AList.delete (turn_anchor (te_turn e)) (w_pending w)\<rparr>
      in put_participant t1 sid p (told now started e w1))"

definition expect :: "time \<Rightarrow> string \<Rightarrow> string \<Rightarrow> int \<Rightarrow> turns \<Rightarrow> turns" where
  "expect now sid p messageID t =
     (let t1 = prune now t; w = participant t1 sid p
      in put_participant t1 sid p (w\<lparr>w_pending := AList.update messageID now (w_pending w)\<rparr>))"

definition unexpect :: "string \<Rightarrow> string \<Rightarrow> int \<Rightarrow> turns \<Rightarrow> turns" where
  "unexpect sid p messageID t =
     (case known_of t sid p of None \<Rightarrow> t
      | Some w \<Rightarrow> put_participant t sid p (w\<lparr>w_pending := AList.delete messageID (w_pending w)\<rparr>))"

definition turns_queued :: "time \<Rightarrow> turns \<Rightarrow> string \<Rightarrow> string \<Rightarrow> nat" where
  "turns_queued now t sid p =
     (case known_of t sid p of None \<Rightarrow> 0
      | Some w \<Rightarrow> length (filter (\<lambda>x. \<not> forgotten now (snd x)) (w_pending w)))"

definition turns_current :: "time \<Rightarrow> turns \<Rightarrow> string \<Rightarrow> string \<Rightarrow> int" where
  "turns_current now t sid p =
     (case known_of t sid p of None \<Rightarrow> 0
      | Some w \<Rightarrow> if \<not> w_working w \<or> (case w_at w of None \<Rightarrow> True | Some at \<Rightarrow> forgotten now at) then 0
                  else turn_anchor (te_turn (w_event w)))"

definition setNote :: "string \<Rightarrow> string \<Rightarrow> string \<Rightarrow> turns \<Rightarrow> turns" where
  "setNote sid p msg t =
     (if map_of (tu_m t) sid = None then t
      else t\<lparr>tu_m := AList.update sid
               (map (\<lambda>(name, w). (name, if w_working w \<and> (p = [] \<or> name = p) then w\<lparr>w_note := msg\<rparr> else w))
                 (inner (tu_m t) sid)) (tu_m t)\<rparr>)"

definition forget :: "string \<Rightarrow> turns \<Rightarrow> turns" where
  "forget sid t = t\<lparr>tu_m := AList.delete sid (tu_m t), tu_notes := AList.delete sid (tu_notes t)\<rparr>"

definition prune_notes :: "time \<Rightarrow> (string \<times> (string \<times> task_note) list) list \<Rightarrow> (string \<times> (string \<times> task_note) list) list" where
  "prune_notes now ns =
     filter (\<lambda>x. snd x \<noteq> []) (map (\<lambda>x. (fst x, filter (\<lambda>y. \<not> forgotten now (tn_at (snd y))) (snd x))) ns)"

text \<open>Taking off a note leaves an empty inner map behind, as the code does, which the next call drops.\<close>

definition setTaskNote :: "time \<Rightarrow> string \<Rightarrow> string \<Rightarrow> string \<Rightarrow> turns \<Rightarrow> turns" where
  "setTaskNote now sid task msg t =
     (let ns = prune_notes now (tu_notes t)
      in if msg = []
         then t\<lparr>tu_notes := (if map_of ns sid = None then ns else AList.update sid (AList.delete task (inner ns sid)) ns)\<rparr>
         else t\<lparr>tu_notes := AList.update sid (AList.update task \<lparr>tn_text = msg, tn_at = now\<rparr> (inner ns sid)) ns\<rparr>)"

definition taskNote :: "turns \<Rightarrow> string \<Rightarrow> string \<Rightarrow> string" where
  "taskNote t sid task = (case map_of (inner (tu_notes t) sid) task of Some n \<Rightarrow> tn_text n | None \<Rightarrow> [])"

subsection \<open>Where the participants stand\<close>

record participant_view =
  pv_participant :: string
  pv_agent :: string
  pv_name :: string
  pv_working :: bool
  pv_turn :: string
  pv_user :: string
  pv_user_name :: string
  pv_since :: "time option"
  pv_note :: string
  pv_waiting :: bool
  pv_queued :: nat
  pv_known :: bool
  pv_gone :: bool

definition view_named :: "string \<Rightarrow> bool \<Rightarrow> bool \<Rightarrow> nat \<Rightarrow> participant_view" where
  "view_named name works known q =
     \<lparr>pv_participant = name, pv_agent = name, pv_name = [], pv_working = works, pv_turn = [], pv_user = [], pv_user_name = [],
      pv_since = None, pv_note = [], pv_waiting = False, pv_queued = q, pv_known = known, pv_gone = False\<rparr>"

definition trusted_at :: "time \<Rightarrow> participant_turns \<Rightarrow> bool" where
  "trusted_at now w = (case w_at w of None \<Rightarrow> False | Some at \<Rightarrow> now - at < turnTrust)"

definition works_now :: "time \<Rightarrow> string list \<Rightarrow> string \<Rightarrow> participant_turns \<Rightarrow> bool" where
  "works_now now running name w =
     (if trusted_at now w then w_working w else name \<in> set running \<and> (w_working w \<or> w_pending w \<noteq> []))"

definition view_of :: "time \<Rightarrow> string list \<Rightarrow> string \<times> participant_turns \<Rightarrow> participant_view" where
  "view_of now running x =
     (case x of (name, w) \<Rightarrow>
        let works = works_now now running name w;
            q = length (filter (\<lambda>y. \<not> forgotten now (snd y)
                    \<and> (trusted_at now w \<or> name \<in> set running \<or> now - snd y < turnTrust)) (w_pending w));
            v = view_named name works True q; e = w_event w
        in if works \<and> w_working w \<and> (case w_at w of None \<Rightarrow> False | Some at \<Rightarrow> \<not> forgotten now at)
           then v\<lparr>pv_agent := cmp_or (te_agent e) name, pv_name := te_agent_name e, pv_note := w_note w, pv_turn := te_turn e,
                  pv_user := te_user e, pv_user_name := te_user_name e, pv_since := w_at w\<rparr>
           else v)"

definition turns_snapshot :: "time \<Rightarrow> turns \<Rightarrow> string \<Rightarrow> string list \<Rightarrow> participant_view list" where
  "turns_snapshot now t sid running =
     (let known = inner (tu_m t) sid
      in sort_key pv_participant
           (map (view_of now running) known
            @ map (\<lambda>name. view_named name True False 0) (filter (\<lambda>name. map_of known name = None) running)))"

definition turns_working :: "time \<Rightarrow> turns \<Rightarrow> string \<Rightarrow> string list \<Rightarrow> participant_view list" where
  "turns_working now t sid running = filter pv_working (turns_snapshot now t sid running)"

definition turns_sessions :: "turns \<Rightarrow> string list" where
  "turns_sessions t = map fst (tu_m t)"

subsection \<open>Learning from the hub\<close>

text \<open>
  An event of the hub, by what \<open>Observe\<close> reads of it; \<open>None\<close> where its data is not readable. \<open>ObState\<close> is any other event of
  \<open>StateEvents\<close>, \<open>ObOther\<close> any other event.
\<close>

datatype observed =
    ObNotice "(string \<times> string \<times> string) option"
  | ObTaskResult "string option"
  | ObTurn bool "turn_event option"
  | ObState
  | ObOther

text \<open>The flag says whether the cached statuses are dropped and the members' trees rung.\<close>

definition Observe :: "time \<Rightarrow> (string \<Rightarrow> bool) \<Rightarrow> string \<Rightarrow> observed \<Rightarrow> turns \<Rightarrow> turns \<times> bool" where
  "Observe now isSessionTopic topic ev t =
     (if \<not> isSessionTopic topic then (t, False)
      else case ev of
        ObNotice None \<Rightarrow> (t, False)
      | ObNotice (Some (msg, p, task)) \<Rightarrow>
          (if task \<noteq> [] then setTaskNote now topic task msg t else setNote topic p msg t, False)
      | ObTaskResult r \<Rightarrow>
          (case r of Some task \<Rightarrow> if task \<noteq> [] then setTaskNote now topic task [] t else t | None \<Rightarrow> t, True)
      | ObTurn started None \<Rightarrow> (t, False)
      | ObTurn started (Some e) \<Rightarrow> (set_turn now topic started e t, True)
      | ObState \<Rightarrow> (t, True)
      | ObOther \<Rightarrow> (t, False))"

subsection \<open>One entry per key\<close>

definition keyed :: "('k \<times> 'v) list \<Rightarrow> bool" where
  "keyed xs = distinct (map fst xs)"

definition turns_ok :: "turns \<Rightarrow> bool" where
  "turns_ok t \<longleftrightarrow>
     keyed (tu_m t) \<and> (\<forall>x \<in> set (tu_m t). keyed (snd x) \<and> (\<forall>y \<in> set (snd x). keyed (w_pending (snd y))))"

lemma keyed_map [simp]: "(\<And>x. fst (f x) = fst x) \<Longrightarrow> keyed (map f xs) = keyed xs"
  by (simp add: keyed_def comp_def)

lemma keyed_filter [simp, intro]: "keyed xs \<Longrightarrow> keyed (filter P xs)"
  by (simp add: keyed_def distinct_map_filter)

lemma keyed_update [simp, intro]: "keyed xs \<Longrightarrow> keyed (AList.update k v xs)"
  by (simp add: keyed_def distinct_update)

lemma keyed_delete [simp, intro]: "keyed xs \<Longrightarrow> keyed (AList.delete k xs)"
  by (simp add: keyed_def AList.distinct_delete)

lemma keyed_Nil [simp]: "keyed []"
  by (simp add: keyed_def)

lemma keyed_Cons: "keyed (x # xs) \<longleftrightarrow> fst x \<notin> fst ` set xs \<and> keyed xs"
  by (simp add: keyed_def)

lemma map_of_filter_value:
  "keyed xs \<Longrightarrow> map_of (filter (\<lambda>x. P (snd x)) xs) k
     = (case map_of xs k of None \<Rightarrow> None | Some v \<Rightarrow> if P v then Some v else None)"
proof (induction xs)
  case (Cons x xs)
  then have "fst x = k \<Longrightarrow> map_of xs k = None" by (auto simp: keyed_Cons map_of_eq_None_iff)
  with Cons show ?case by (auto simp: keyed_Cons)
qed simp

lemma map_of_map_value: "map_of (map (\<lambda>x. (fst x, f (snd x))) xs) k = map_option f (map_of xs k)"
  by (induction xs) auto

lemma in_alist_update: "x \<in> set (AList.update k v xs) \<Longrightarrow> x = (k, v) \<or> x \<in> set xs"
  by (induction xs) (auto split: if_splits)

lemma turns_okD:
  assumes "turns_ok t"
  shows "keyed (inner (tu_m t) sid)" and "known_of t sid p = Some w \<Longrightarrow> keyed (w_pending w)"
proof -
  from assms show k: "keyed (inner (tu_m t) sid)"
    by (auto simp: turns_ok_def inner_def split: option.split dest!: map_of_SomeD)
  assume "known_of t sid p = Some w"
  then obtain ps where "map_of (tu_m t) sid = Some ps" "map_of ps p = Some w"
    by (auto simp: known_of_def inner_def split: option.splits)
  then have "(sid, ps) \<in> set (tu_m t)" "(p, w) \<in> set ps" by (auto dest: map_of_SomeD)
  with assms show "keyed (w_pending w)" by (force simp: turns_ok_def)
qed

lemma turns_ok_inner:
  assumes "turns_ok t" and "x \<in> set (inner (tu_m t) sid)"
  shows "keyed (w_pending (snd x))"
proof -
  from assms(2) obtain ps where "map_of (tu_m t) sid = Some ps" "x \<in> set ps"
    by (cases "map_of (tu_m t) sid") (auto simp: inner_def)
  then have "(sid, ps) \<in> set (tu_m t)" by (auto dest: map_of_SomeD)
  with assms(1) \<open>x \<in> set ps\<close> show ?thesis by (force simp: turns_ok_def)
qed

lemma turns_ok_participant: "turns_ok t \<Longrightarrow> keyed (w_pending (participant t sid p))"
  by (auto simp: participant_def new_participant_def split: option.split intro: turns_okD(2))

lemma turns_ok_put:
  assumes "turns_ok t" and "keyed (w_pending w)"
  shows "turns_ok (put_participant t sid p w)"
proof -
  have "keyed (snd x) \<and> (\<forall>y \<in> set (snd x). keyed (w_pending (snd y)))"
    if "x \<in> set (tu_m (put_participant t sid p w))" for x
  proof (cases "x \<in> set (tu_m t)")
    case True
    then show ?thesis using assms(1) by (auto simp: turns_ok_def)
  next
    case False
    with that have "snd x = AList.update p w (inner (tu_m t) sid)"
      by (auto simp: put_participant_def dest!: in_alist_update)
    then show ?thesis using assms turns_okD(1) [OF assms(1), of sid] turns_ok_inner [OF assms(1), of _ sid]
      by (auto dest!: in_alist_update)
  qed
  moreover have "keyed (tu_m (put_participant t sid p w))"
    using assms(1) by (auto simp: put_participant_def turns_ok_def)
  ultimately show ?thesis by (simp add: turns_ok_def)
qed

lemma turns_ok_prune: "turns_ok t \<Longrightarrow> turns_ok (prune now t)"
  by (fastforce simp: turns_ok_def prune_def prune_session_def prune_participant_def)

lemma keyed_told: "keyed (w_pending w) \<Longrightarrow> keyed (w_pending (told now started e w))"
  by (auto simp: told_def)

lemma turns_ok_set: "turns_ok t \<Longrightarrow> turns_ok (set_turn now sid started e t)"
  by (auto simp: set_turn_def Let_def intro!: turns_ok_put turns_ok_prune keyed_told turns_ok_participant)

lemma turns_ok_expect: "turns_ok t \<Longrightarrow> turns_ok (expect now sid p mid t)"
  by (auto simp: expect_def Let_def intro!: turns_ok_put turns_ok_prune turns_ok_participant)

lemma turns_ok_unexpect: "turns_ok t \<Longrightarrow> turns_ok (unexpect sid p mid t)"
  using turns_okD(2) [of t sid p] by (auto simp: unexpect_def intro!: turns_ok_put split: option.split)

lemma turns_ok_setNote:
  assumes "turns_ok t" shows "turns_ok (setNote sid p msg t)"
proof -
  have "x = (sid, map (\<lambda>(name, w). (name, if w_working w \<and> (p = [] \<or> name = p) then w\<lparr>w_note := msg\<rparr> else w)) (inner (tu_m t) sid))
      \<or> x \<in> set (tu_m t)" if "x \<in> set (tu_m (setNote sid p msg t))" for x
    using that by (auto simp: setNote_def split: if_splits dest: in_alist_update)
  moreover have "keyed (tu_m (setNote sid p msg t))" using assms by (auto simp: setNote_def turns_ok_def)
  ultimately show ?thesis using assms turns_okD(1) [OF assms, of sid] turns_ok_inner [OF assms, of _ sid]
    by (fastforce simp: turns_ok_def split_beta)
qed

lemma turns_ok_forget: "turns_ok t \<Longrightarrow> turns_ok (forget sid t)"
  by (fastforce simp: turns_ok_def forget_def AList.delete_eq)

lemma tu_m_setTaskNote [simp]: "tu_m (setTaskNote now sid task msg t) = tu_m t"
  by (simp add: setTaskNote_def Let_def)

lemma turns_ok_setTaskNote: "turns_ok t \<Longrightarrow> turns_ok (setTaskNote now sid task msg t)"
  by (simp add: turns_ok_def)

subsection \<open>What each operation does to a participant\<close>

lemma inner_update: "inner (AList.update k v m) k' = (if k' = k then v else inner m k')"
  by (simp add: inner_def AList.update_conv')

lemma known_of_put: "known_of (put_participant t sid p w) sid' p'
    = (if sid' = sid \<and> p' = p then Some w else known_of t sid' p')"
  by (auto simp: known_of_def put_participant_def inner_update AList.update_conv')

lemma inner_prune:
  assumes "keyed (tu_m t)"
  shows "inner (tu_m (prune now t)) sid = prune_session now (inner (tu_m t) sid)"
proof -
  let ?m = "map (\<lambda>x. (fst x, prune_session now (snd x))) (tu_m t)"
  have "keyed ?m" using assms by simp
  then have "map_of (filter (\<lambda>x. snd x \<noteq> []) ?m) sid
    = (case map_option (prune_session now) (map_of (tu_m t) sid) of None \<Rightarrow> None | Some v \<Rightarrow> if v \<noteq> [] then Some v else None)"
    by (simp only: map_of_filter_value [of _ "\<lambda>v. v \<noteq> []"] map_of_map_value)
  then show ?thesis
    by (cases "map_of (tu_m t) sid") (simp_all add: inner_def prune_def, simp add: prune_session_def)
qed

text \<open>A participant after \<open>prune\<close>: gone when nothing of it is recent.\<close>

lemma known_of_prune:
  assumes "turns_ok t"
  shows "known_of (prune now t) sid p
    = (case known_of t sid p of None \<Rightarrow> None
       | Some w \<Rightarrow> if stale now (prune_participant now w) then None else Some (prune_participant now w))"
proof -
  let ?ps = "map (\<lambda>x. (fst x, prune_participant now (snd x))) (inner (tu_m t) sid)"
  have "keyed ?ps" using turns_okD(1) [OF assms] by simp
  from map_of_filter_value [OF this, of "\<lambda>w. \<not> stale now w" p] assms
  show ?thesis
    by (simp add: known_of_def inner_prune turns_ok_def prune_session_def map_of_map_value split: option.split)
qed

lemma known_of_setNote:
  "\<exists>f. known_of (setNote sid p msg t) s q = map_option (\<lambda>w. w\<lparr>w_note := f w\<rparr>) (known_of t s q)"
proof (cases "s = sid \<and> map_of (tu_m t) sid \<noteq> None")
  case True
  let ?f = "\<lambda>w. if w_working w \<and> (p = [] \<or> q = p) then msg else w_note w"
  have "map_of (map (\<lambda>(name, w). (name, if w_working w \<and> (p = [] \<or> name = p) then w\<lparr>w_note := msg\<rparr> else w)) ps) q
    = map_option (\<lambda>w. w\<lparr>w_note := ?f w\<rparr>) (map_of ps q)" for ps :: "(string \<times> participant_turns) list"
    by (induction ps) auto
  with True have "known_of (setNote sid p msg t) s q = map_option (\<lambda>w. w\<lparr>w_note := ?f w\<rparr>) (known_of t s q)"
    by (auto simp: known_of_def setNote_def inner_update)
  then show ?thesis by (rule exI [of _ ?f])
next
  case False
  then have "known_of (setNote sid p msg t) s q = map_option (\<lambda>w. w\<lparr>w_note := w_note w\<rparr>) (known_of t s q)"
    by (auto simp: known_of_def setNote_def inner_update option.map_id0 option.map_ident)
  then show ?thesis by (intro exI [of _ w_note])
qed

lemma known_of_forget: "known_of (forget sid t) s q = (if s = sid then None else known_of t s q)"
  by (simp add: known_of_def forget_def inner_def AList.delete_conv')

subsection \<open>The tracker that keeps everything\<close>

text \<open>
  What Deliver and the pages ask of the tracker, with no forgetting: the messages waiting for a participant with when they
  were delivered, and the turn last started and not done, with when it started.
\<close>

record tracker =
  k_waits :: "string \<Rightarrow> string \<Rightarrow> int \<Rightarrow> time option"
  k_turn :: "string \<Rightarrow> string \<Rightarrow> (string \<times> time) option"

definition knows_nothing :: tracker where
  "knows_nothing = \<lparr>k_waits = (\<lambda>_ _ _. None), k_turn = (\<lambda>_ _. None)\<rparr>"

datatype turns_op =
    TSet string bool turn_event
  | TExpect string string int
  | TUnexpect string string int
  | TNote string string string
  | TTaskNote string string string
  | TForget string

fun turns_step :: "turns \<Rightarrow> time \<times> turns_op \<Rightarrow> turns" where
  "turns_step t (now, TSet sid started e) = set_turn now sid started e t"
| "turns_step t (now, TExpect sid p mid) = expect now sid p mid t"
| "turns_step t (now, TUnexpect sid p mid) = unexpect sid p mid t"
| "turns_step t (now, TNote sid p msg) = setNote sid p msg t"
| "turns_step t (now, TTaskNote sid task msg) = setTaskNote now sid task msg t"
| "turns_step t (now, TForget sid) = forget sid t"

definition waits_set :: "string \<Rightarrow> string \<Rightarrow> int \<Rightarrow> time option \<Rightarrow> tracker \<Rightarrow> tracker" where
  "waits_set sid p mid v k = k\<lparr>k_waits := (\<lambda>s q m. if s = sid \<and> q = p \<and> m = mid then v else k_waits k s q m)\<rparr>"

definition turn_set :: "string \<Rightarrow> string \<Rightarrow> (string \<times> time) option \<Rightarrow> tracker \<Rightarrow> tracker" where
  "turn_set sid p v k = k\<lparr>k_turn := (\<lambda>s q. if s = sid \<and> q = p then v else k_turn k s q)\<rparr>"

definition on_turn :: "string \<Rightarrow> (string \<times> time) option \<Rightarrow> bool" where
  "on_turn turn c = (case c of Some (turn', _) \<Rightarrow> turn' = turn | None \<Rightarrow> False)"

fun tracker_step :: "tracker \<Rightarrow> time \<times> turns_op \<Rightarrow> tracker" where
  "tracker_step k (now, TSet sid started e) =
     (let p = event_participant e; k1 = waits_set sid p (turn_anchor (te_turn e)) None k
      in if started then turn_set sid p (Some (te_turn e, now)) k1
         else if on_turn (te_turn e) (k_turn k sid p) then turn_set sid p None k1 else k1)"
| "tracker_step k (now, TExpect sid p mid) = waits_set sid p mid (Some now) k"
| "tracker_step k (now, TUnexpect sid p mid) = waits_set sid p mid None k"
| "tracker_step k (now, TForget sid) =
     k\<lparr>k_waits := (\<lambda>s. if s = sid then (\<lambda>_ _. None) else k_waits k s), k_turn := (\<lambda>s. if s = sid then (\<lambda>_. None) else k_turn k s)\<rparr>"
| "tracker_step k (now, _) = k"

text \<open>What is recent of it.\<close>

definition recent :: "time \<Rightarrow> time option \<Rightarrow> time option" where
  "recent now a = (case a of Some at \<Rightarrow> if forgotten now at then None else Some at | None \<Rightarrow> None)"

definition recent_turn :: "time \<Rightarrow> (string \<times> time) option \<Rightarrow> (string \<times> time) option" where
  "recent_turn now a = (case a of Some (turn, at) \<Rightarrow> if forgotten now at then None else Some (turn, at) | None \<Rightarrow> None)"

definition waiting_for :: "time \<Rightarrow> tracker \<Rightarrow> string \<Rightarrow> string \<Rightarrow> int set" where
  "waiting_for now k sid p = {mid. recent now (k_waits k sid p mid) \<noteq> None}"

definition answering :: "time \<Rightarrow> tracker \<Rightarrow> string \<Rightarrow> string \<Rightarrow> int" where
  "answering now k sid p = (case recent_turn now (k_turn k sid p) of Some (turn, _) \<Rightarrow> turn_anchor turn | None \<Rightarrow> 0)"

subsection \<open>Both give the same answers\<close>

definition waits_of :: "turns \<Rightarrow> string \<Rightarrow> string \<Rightarrow> int \<Rightarrow> time option" where
  "waits_of t sid p mid = (case known_of t sid p of Some w \<Rightarrow> map_of (w_pending w) mid | None \<Rightarrow> None)"

definition turn_known :: "participant_turns \<Rightarrow> (string \<times> time) option" where
  "turn_known w = (if w_working w then map_option (Pair (te_turn (w_event w))) (w_at w) else None)"

definition turn_of :: "turns \<Rightarrow> string \<Rightarrow> string \<Rightarrow> (string \<times> time) option" where
  "turn_of t sid p = (case known_of t sid p of Some w \<Rightarrow> turn_known w | None \<Rightarrow> None)"

definition simulates :: "time \<Rightarrow> turns \<Rightarrow> tracker \<Rightarrow> bool" where
  "simulates now t k \<longleftrightarrow> turns_ok t
     \<and> (\<forall>sid p mid. recent now (waits_of t sid p mid) = recent now (k_waits k sid p mid))
     \<and> (\<forall>sid p. recent_turn now (turn_of t sid p) = recent_turn now (k_turn k sid p))"

lemma forgotten_later: "now \<le> now' \<Longrightarrow> forgotten now at \<Longrightarrow> forgotten now' at"
  by (simp add: forgotten_def)

lemma recent_simps [simp]: "recent now None = None" "recent now (Some now) = Some now"
  "recent_turn now None = None" "recent_turn now (Some (x, now)) = Some (x, now)"
  by (auto simp: recent_def recent_turn_def forgotten_def turnForget_def)

lemma recent_later: "now \<le> now' \<Longrightarrow> recent now' (recent now a) = recent now' a"
  by (auto simp: recent_def dest: forgotten_later split: option.split)

lemma recent_turn_later: "now \<le> now' \<Longrightarrow> recent_turn now' (recent_turn now a) = recent_turn now' a"
  by (auto simp: recent_turn_def dest: forgotten_later split: option.split prod.split)

lemma simulates_later: "simulates now t k \<Longrightarrow> now \<le> now' \<Longrightarrow> simulates now' t k"
  using recent_later recent_turn_later unfolding simulates_def by metis

lemma recent_prune:
  assumes "turns_ok t"
  shows "recent now (waits_of (prune now t) sid p mid) = recent now (waits_of t sid p mid)"
    and "recent_turn now (turn_of (prune now t) sid p) = recent_turn now (turn_of t sid p)"
proof -
  have "recent now (waits_of (prune now t) sid p mid) = recent now (waits_of t sid p mid)
    \<and> recent_turn now (turn_of (prune now t) sid p) = recent_turn now (turn_of t sid p)"
  proof (cases "known_of t sid p")
    case None
    then show ?thesis by (simp add: waits_of_def turn_of_def known_of_prune [OF assms])
  next
    case (Some w)
    let ?w = "prune_participant now w"
    have m: "map_of (w_pending ?w) mid = recent now (map_of (w_pending w) mid)"
      using map_of_filter_value [OF turns_okD(2) [OF assms Some], of "\<lambda>at. \<not> forgotten now at"]
      by (simp add: prune_participant_def recent_def if_distrib split: option.split)
    moreover have "recent now (recent now a) = recent now a" for a by (simp add: recent_later)
    moreover have "turn_known ?w = turn_known w" by (simp add: prune_participant_def turn_known_def)
    moreover have "recent_turn now (turn_known w) = None" if "stale now ?w"
      using that by (auto simp: stale_def prune_participant_def turn_known_def recent_turn_def split: option.splits)
    ultimately show ?thesis using Some
      by (auto simp: waits_of_def turn_of_def known_of_prune [OF assms] stale_def)
  qed
  then show "recent now (waits_of (prune now t) sid p mid) = recent now (waits_of t sid p mid)"
    "recent_turn now (turn_of (prune now t) sid p) = recent_turn now (turn_of t sid p)" by auto
qed

lemma simulates_prune: "simulates now t k \<Longrightarrow> simulates now (prune now t) k"
  by (simp add: simulates_def recent_prune turns_ok_prune)

text \<open>Writing a participant back, when it agrees with the abstract one.\<close>

lemma simulates_put:
  assumes "simulates now t k" and "keyed (w_pending w)"
    and "\<forall>s q mid. (s, q) \<noteq> (sid, p) \<longrightarrow> k_waits k' s q mid = k_waits k s q mid"
    and "\<forall>s q. (s, q) \<noteq> (sid, p) \<longrightarrow> k_turn k' s q = k_turn k s q"
    and "\<forall>mid. recent now (map_of (w_pending w) mid) = recent now (k_waits k' sid p mid)"
    and "recent_turn now (turn_known w) = recent_turn now (k_turn k' sid p)"
  shows "simulates now (put_participant t sid p w) k'"
proof -
  have "recent now (waits_of (put_participant t sid p w) s q mid) = recent now (k_waits k' s q mid)" for s q mid
    using assms(1,3,5) by (cases "(s, q) = (sid, p)") (auto simp: simulates_def waits_of_def known_of_put)
  moreover have "recent_turn now (turn_of (put_participant t sid p w) s q) = recent_turn now (k_turn k' s q)" for s q
    using assms(1,4,6) by (cases "(s, q) = (sid, p)") (auto simp: simulates_def turn_of_def known_of_put)
  ultimately show ?thesis using assms(1,2) by (simp add: simulates_def turns_ok_put)
qed

lemma simulates_participant:
  assumes "simulates now t k"
  shows "keyed (w_pending (participant t sid p))"
    and "recent now (map_of (w_pending (participant t sid p)) mid) = recent now (k_waits k sid p mid)"
    and "recent_turn now (turn_known (participant t sid p)) = recent_turn now (k_turn k sid p)"
proof -
  from assms show "keyed (w_pending (participant t sid p))" by (auto simp: simulates_def intro: turns_ok_participant)
  have "map_of (w_pending (participant t sid p)) mid = waits_of t sid p mid"
    and "turn_known (participant t sid p) = turn_of t sid p"
    by (auto simp: participant_def new_participant_def waits_of_def turn_of_def turn_known_def split: option.split)
  with assms show "recent now (map_of (w_pending (participant t sid p)) mid) = recent now (k_waits k sid p mid)"
    "recent_turn now (turn_known (participant t sid p)) = recent_turn now (k_turn k sid p)"
    by (simp_all add: simulates_def)
qed

lemma simulates_told:
  assumes "recent_turn now (turn_known w) = recent_turn now c"
  shows "recent_turn now (turn_known (told now started e w))
    = recent_turn now (if started then Some (te_turn e, now) else if on_turn (te_turn e) c then None else c)"
proof (cases "\<not> started \<and> w_working w \<and> te_turn (w_event w) \<noteq> te_turn e")
  case True
  then have "told now started e w = w" by (simp add: told_def)
  moreover have "recent_turn now c = None \<or> \<not> on_turn (te_turn e) c"
    using True assms by (auto simp: on_turn_def recent_turn_def turn_known_def split: option.splits if_splits)
  ultimately show ?thesis using True assms by auto
next
  case False
  have "recent_turn now c = None" if "\<not> on_turn (te_turn e) c" "\<not> started"
    using False that assms by (auto simp: on_turn_def recent_turn_def turn_known_def split: option.splits if_splits)
  with False show ?thesis by (auto simp: told_def turn_known_def)
qed

lemma pending_told [simp]: "w_pending (told now started e w) = w_pending w"
  by (simp add: told_def)

lemma simulates_set:
  assumes "simulates now t k"
  shows "simulates now (set_turn now sid started e t) (tracker_step k (now, TSet sid started e))"
proof -
  note s = simulates_prune [OF assms]
  let ?p = "event_participant e" and ?a = "turn_anchor (te_turn e)"
  let ?w = "participant (prune now t) sid ?p"
  let ?w1 = "?w\<lparr>w_pending := AList.delete ?a (w_pending ?w)\<rparr>"
  note f = simulates_participant [OF s, of sid ?p]
  have tk: "turn_known ?w1 = turn_known ?w" by (simp add: turn_known_def)
  show ?thesis unfolding set_turn_def Let_def
    using f simulates_told [of now ?w1 "k_turn k sid ?p" started e]
    by (intro simulates_put [OF s])
      (auto simp: tk waits_set_def turn_set_def Let_def AList.delete_conv' split: if_splits)
qed

lemma simulates_expect:
  assumes "simulates now t k"
  shows "simulates now (expect now sid p mid t) (tracker_step k (now, TExpect sid p mid))"
proof -
  note s = simulates_prune [OF assms]
  show ?thesis unfolding expect_def Let_def
    using simulates_participant [OF s, of sid p]
    by (intro simulates_put [OF s]) (auto simp: waits_set_def turn_known_def AList.update_conv')
qed

lemma simulates_unexpect:
  assumes "simulates now t k"
  shows "simulates now (unexpect sid p mid t) (tracker_step k (now, TUnexpect sid p mid))"
proof (cases "known_of t sid p")
  case None
  then have "recent now (k_waits k sid p mid) = None"
    using simulates_participant(2) [OF assms, of sid p mid] by (simp add: participant_def new_participant_def)
  with assms None show ?thesis by (auto simp: unexpect_def simulates_def waits_set_def)
next
  case (Some w)
  then have "participant t sid p = w" by (simp add: participant_def)
  with simulates_participant [OF assms, of sid p] Some show ?thesis
    by (auto simp: unexpect_def waits_set_def turn_known_def AList.delete_conv' intro!: simulates_put [OF assms] split: if_splits)
qed

lemma simulates_same_known:
  assumes "simulates now t k" and "turns_ok t'"
    and "\<And>s q. \<exists>f. known_of t' s q = map_option (\<lambda>w. w\<lparr>w_note := f w\<rparr>) (known_of t s q)"
  shows "simulates now t' k"
proof -
  have "waits_of t' s q mid = waits_of t s q mid \<and> turn_of t' s q = turn_of t s q" for s q mid
    using assms(3) [of s q]
    by (cases "known_of t s q") (auto simp: waits_of_def turn_of_def turn_known_def)
  with assms(1,2) show ?thesis by (simp add: simulates_def)
qed

lemma simulates_setNote: "simulates now t k \<Longrightarrow> simulates now (setNote sid p msg t) k"
  by (rule simulates_same_known) (auto simp: simulates_def turns_ok_setNote known_of_setNote)

lemma simulates_setTaskNote: "simulates now t k \<Longrightarrow> simulates now (setTaskNote n sid task msg t) k"
proof (rule simulates_same_known)
  fix s q
  have "known_of (setTaskNote n sid task msg t) s q = map_option (\<lambda>w. w\<lparr>w_note := w_note w\<rparr>) (known_of t s q)"
    by (simp add: known_of_def option.map_ident)
  then show "\<exists>f. known_of (setTaskNote n sid task msg t) s q = map_option (\<lambda>w. w\<lparr>w_note := f w\<rparr>) (known_of t s q)"
    by (rule exI [of _ w_note])
qed (simp_all add: simulates_def turns_ok_setTaskNote)

lemma simulates_forget:
  "simulates now t k \<Longrightarrow> simulates now (forget sid t) (tracker_step k (now, TForget sid))"
  by (auto simp: simulates_def turns_ok_forget waits_of_def turn_of_def known_of_forget)

lemma simulates_step:
  assumes "simulates now t k"
  shows "simulates now (turns_step t (now, op)) (tracker_step k (now, op))"
  using assms simulates_set simulates_expect simulates_unexpect simulates_setNote simulates_setTaskNote simulates_forget
  by (cases op) auto

text \<open>
  An operation reads the clock. A client that runs operations in the order of their times relies on two laws: what holds
  between the two states at a time holds later, and every operation keeps it.
\<close>

locale timed_simulation =
  fixes step :: "'s \<Rightarrow> time \<times> 'op \<Rightarrow> 's"
    and spec :: "'k \<Rightarrow> time \<times> 'op \<Rightarrow> 'k"
    and rel :: "time \<Rightarrow> 's \<Rightarrow> 'k \<Rightarrow> bool"
  assumes later: "rel now s k \<Longrightarrow> now \<le> now' \<Longrightarrow> rel now' s k"
    and one_step: "rel now s k \<Longrightarrow> rel now (step s (now, op)) (spec k (now, op))"
begin

lemma run_simulated:
  assumes "rel t0 s k" and "sorted (t0 # map fst ops @ [now])"
  shows "rel now (foldl step s ops) (foldl spec k ops)"
  using assms
proof (induction ops arbitrary: t0 s k)
  case Nil
  then show ?case by (auto intro: later)
next
  case (Cons x ops)
  obtain t op where x: "x = (t, op)" by (cases x)
  with Cons.prems have "rel t s k" by (auto intro: later)
  then have "rel t (step s x) (spec k x)" using x one_step by simp
  with Cons.IH Cons.prems(2) x show ?case by simp
qed

end

interpretation told_of: timed_simulation turns_step tracker_step simulates
  by unfold_locales (fact simulates_later, rule simulates_step)

lemma simulates_nothing: "simulates now no_turns knows_nothing"
  by (simp add: simulates_def turns_ok_def no_turns_def knows_nothing_def waits_of_def turn_of_def known_of_def inner_def)

lemma simulates_answers:
  assumes "simulates now t k"
  shows "turns_queued now t sid p = card (waiting_for now k sid p)" and "finite (waiting_for now k sid p)"
    and "turns_current now t sid p = answering now k sid p"
proof -
  let ?w = "participant t sid p"
  let ?xs = "filter (\<lambda>x. \<not> forgotten now (snd x)) (w_pending ?w)"
  have k: "keyed ?xs" using simulates_participant(1) [OF assms] by auto
  have "waiting_for now k sid p = {mid. recent now (map_of (w_pending ?w) mid) \<noteq> None}"
    using simulates_participant(2) [OF assms] by (simp add: waiting_for_def)
  also have "\<dots> = {mid. map_of ?xs mid \<noteq> None}"
    using map_of_filter_value [OF simulates_participant(1) [OF assms], of "\<lambda>at. \<not> forgotten now at" sid p]
    by (auto simp: recent_def split: option.split)
  also have "\<dots> = fst ` set ?xs" by (auto simp: map_of_eq_None_iff)
  finally have w: "waiting_for now k sid p = fst ` set ?xs" .
  then show "finite (waiting_for now k sid p)" by simp
  have "card (fst ` set ?xs) = length ?xs"
    using distinct_card [OF k [unfolded keyed_def]] by (simp only: list.set_map length_map)
  with w show "turns_queued now t sid p = card (waiting_for now k sid p)"
    by (auto simp: turns_queued_def participant_def new_participant_def split: option.splits)
  have "recent_turn now (turn_known ?w) = recent_turn now (k_turn k sid p)" by (rule simulates_participant(3) [OF assms])
  then show "turns_current now t sid p = answering now k sid p"
    by (auto simp: turns_current_def answering_def participant_def new_participant_def turn_known_def recent_turn_def
        split: option.splits if_splits prod.splits)
qed

text \<open>C33: The server's record of its participants forgets what is a day old and drops entries on the way, in every operation
  but the reads. Whatever turn events, deliveries, notices and deleted sessions come, in the order of their times, the
  number of messages waiting for a participant and the message it answers are those of the record that keeps everything:
  the messages delivered less than a day ago and neither started, done nor withdrawn since; the message of the turn last
  started, less than a day ago, and not done since.\<close>

theorem queue_and_turn_as_told:
  assumes "sorted (map fst ops @ [now])"
  shows "turns_queued now (foldl turns_step no_turns ops) sid p
      = card (waiting_for now (foldl tracker_step knows_nothing ops) sid p)
    \<and> turns_current now (foldl turns_step no_turns ops) sid p
      = answering now (foldl tracker_step knows_nothing ops) sid p"
proof -
  obtain t0 where "sorted (t0 # map fst ops @ [now])"
    using assms by (cases "map fst ops @ [now]") (auto intro: that)
  from told_of.run_simulated [OF simulates_nothing this] show ?thesis using simulates_answers by blast
qed

text \<open>A message delivered, another one started and a third never seen started, a day later.\<close>

definition ex_ops :: "(time \<times> turns_op) list" where
  "ex_ops = [(0, TExpect ''s'' ''jarvis'' 7), (1, TExpect ''s'' ''jarvis'' 8),
     (2, TSet ''s'' True (no_event\<lparr>te_turn := TurnKey 7 ''jarvis''\<rparr>)), (3, TExpect ''s'' ''jarvis'' 9)]"

theorem queue_and_turn_as_told_witness:
  "turns_queued 4 (foldl turns_step no_turns ex_ops) ''s'' ''jarvis''
      = card (waiting_for 4 (foldl tracker_step knows_nothing ex_ops) ''s'' ''jarvis'')
    \<and> turns_current 4 (foldl turns_step no_turns ex_ops) ''s'' ''jarvis''
      = answering 4 (foldl tracker_step knows_nothing ex_ops) ''s'' ''jarvis''
    \<and> turns_queued 4 (foldl turns_step no_turns ex_ops) ''s'' ''jarvis'' = 2
    \<and> turns_current 4 (foldl turns_step no_turns ex_ops) ''s'' ''jarvis'' = 7"
proof -
  have "sorted (map fst ex_ops @ [4])" by (simp add: ex_ops_def)
  note t = queue_and_turn_as_told [OF this, of "''s''" "''jarvis''"]
  have k: "turn_anchor (TurnKey 7 ''jarvis'') = 7" "TurnParticipant (TurnKey 7 ''jarvis'') = ''jarvis''"
    using parseTurn_TurnKey [of 7 "''jarvis''"]
    by (simp_all add: turn_anchor_def TurnAnchor_def TurnParticipant_def participant_ok_def)
  have "known_of (foldl turns_step no_turns ex_ops) ''s'' ''jarvis''
    = Some \<lparr>w_working = True, w_event = no_event\<lparr>te_turn := TurnKey 7 ''jarvis''\<rparr>, w_at = Some 2, w_note = [],
        w_pending = [(8, 1), (9, 3)]\<rparr>"
    by (simp add: ex_ops_def no_turns_def k expect_def set_turn_def event_participant_def cmp_or_def prune_def prune_session_def
        prune_participant_def stale_def forgotten_def turnForget_def put_participant_def participant_def known_of_def inner_def
        new_participant_def told_def Let_def)
  with t k show ?thesis by (simp add: turns_queued_def turns_current_def forgotten_def turnForget_def)
qed

end
