(* ===== verification/StatusCache.thy ===== *)
theory StatusCache
  imports Turns
begin

section \<open>What the sessions are doing, as pages show it\<close>

text \<open>
  \<open>session/status.go\<close> and the rows of \<open>session/participants.go\<close>. The states of the sessions cost queries to Temporal, so they are
  kept a few seconds (\<open>statusCache\<close>), and dropped after each action that changes them. The first part is what a load reads and
  what is shown of it; the second is the cache, whose loads run beside the requests: its steps are the code under its mutex, in any
  interleaving. \<open>never_from_before\<close> shows that what a request is given was read after the last action before it.
\<close>

subsection \<open>What is shown\<close>

text \<open>\<open>NoStatus\<close> is the zero value, of a session no map has.\<close>

datatype status = NoStatus | StatusIdle | StatusWorking | StatusWaiting

definition rank :: "status \<Rightarrow> nat" where
  "rank s = (case s of StatusWaiting \<Rightarrow> 2 | StatusWorking \<Rightarrow> 1 | _ \<Rightarrow> 0)"

definition Stronger :: "status \<Rightarrow> status \<Rightarrow> status" where
  "Stronger s x = (if rank s < rank x then x else s)"

record visible =
  vs_statuses :: "string \<Rightarrow> status"
  vs_participants :: "(string \<times> string) list"
  vs_asking :: "(string \<times> string) list"
  vs_task_asking :: "(string \<times> string) list"

definition nothing_visible :: visible where
  "nothing_visible = \<lparr>vs_statuses = (\<lambda>_. NoStatus), vs_participants = [], vs_asking = [], vs_task_asking = []\<rparr>"

text \<open>A map of lists is the list of its pairs, in order.\<close>

definition listed_in :: "(string \<times> string) list \<Rightarrow> string \<Rightarrow> string list" where
  "listed_in xs sid = map snd (filter (\<lambda>x. fst x = sid) xs)"

definition runningIn :: "visible option \<Rightarrow> string \<Rightarrow> string list" where
  "runningIn v sid = (case v of None \<Rightarrow> [] | Some v \<Rightarrow> listed_in (vs_participants v) sid)"

definition askingIn :: "visible option \<Rightarrow> string \<Rightarrow> string list" where
  "askingIn v sid = (case v of None \<Rightarrow> [] | Some v \<Rightarrow> listed_in (vs_asking v) sid)"

definition taskAskingIn :: "visible option \<Rightarrow> string \<Rightarrow> string list" where
  "taskAskingIn v sid = (case v of None \<Rightarrow> [] | Some v \<Rightarrow> listed_in (vs_task_asking v) sid)"

definition sessionOf :: "(string \<Rightarrow> bool) \<Rightarrow> string \<Rightarrow> string" where
  "sessionOf isUUID i = (case SessionOf i of Some sid \<Rightarrow> if isUUID sid then sid else [] | None \<Rightarrow> [])"

definition see_participant :: "(string \<Rightarrow> bool) \<Rightarrow> visible \<Rightarrow> string \<Rightarrow> visible" where
  "see_participant isUUID v i =
     (let sid = sessionOf isUUID i
      in if sid = [] then v
         else case ParticipantOf i of None \<Rightarrow> v | Some ag \<Rightarrow> v\<lparr>vs_participants := vs_participants v @ [(sid, ag)]\<rparr>)"

definition stronger_at :: "string \<Rightarrow> status \<Rightarrow> visible \<Rightarrow> visible" where
  "stronger_at sid st v = v\<lparr>vs_statuses := (vs_statuses v)(sid := Stronger (vs_statuses v sid) st)\<rparr>"

definition see_fork :: "(string \<Rightarrow> bool) \<Rightarrow> visible \<Rightarrow> string \<Rightarrow> visible" where
  "see_fork isUUID v i = (let sid = trim_prefix ''fork-'' i in if isUUID sid then stronger_at sid StatusWorking v else v)"

definition add_once :: "'a \<Rightarrow> 'a list \<Rightarrow> 'a list" where
  "add_once x xs = (if x \<in> set xs then xs else xs @ [x])"

definition see_question :: "(string \<Rightarrow> bool) \<Rightarrow> visible \<Rightarrow> string \<Rightarrow> visible" where
  "see_question isUUID v i =
     (let sid = sessionOf isUUID i
      in if sid = [] then v
         else let v1 = stronger_at sid StatusWaiting v
              in case TaskOfWorkflow i of Some task \<Rightarrow> v1\<lparr>vs_task_asking := add_once (sid, task) (vs_task_asking v1)\<rparr>
                 | None \<Rightarrow> (case ParticipantOf i of None \<Rightarrow> v1
                           | Some ag \<Rightarrow> v1\<lparr>vs_asking := add_once (sid, ag) (vs_asking v1)\<rparr>))"

text \<open>A query that fails shows nothing of its workflows.\<close>

definition seen :: "(string, string list) result \<Rightarrow> string list" where
  "seen r = (case r of Inl _ \<Rightarrow> [] | Inr ids \<Rightarrow> ids)"

definition loadVisible :: "(string \<Rightarrow> bool) \<Rightarrow> (string, string list) result \<Rightarrow> (string, string list) result \<Rightarrow> (string, string list) result
    \<Rightarrow> visible" where
  "loadVisible isUUID participants forks questions =
     foldl (see_question isUUID)
       (foldl (see_fork isUUID) (foldl (see_participant isUUID) nothing_visible (seen participants)) (seen forks)) (seen questions)"

definition Statuses :: "time \<Rightarrow> turns \<Rightarrow> visible option \<Rightarrow> string \<Rightarrow> status" where
  "Statuses now t v =
     (let base = (case v of None \<Rightarrow> (\<lambda>_. NoStatus) | Some v \<Rightarrow> vs_statuses v);
          ids = turns_sessions t @ (case v of None \<Rightarrow> [] | Some v \<Rightarrow> map fst (vs_participants v))
      in foldl (\<lambda>m sid. if turns_working now t sid (runningIn v sid) \<noteq> [] then m(sid := Stronger (m sid) StatusWorking) else m) base ids)"

subsection \<open>The rows of the participants\<close>

record participant_state =
  ps_current :: "(string \<times> string \<times> string \<times> time) option"
  ps_queued :: nat

record queried_state =
  qs_state :: participant_state
  qs_ok :: bool
  qs_gone :: bool

definition unclear :: "participant_view \<Rightarrow> bool" where
  "unclear p = (\<not> (pv_known p \<and> (\<not> pv_working p \<or> pv_turn p \<noteq> [])))"

definition ask_state :: "queried_state \<Rightarrow> participant_view \<Rightarrow> participant_view" where
  "ask_state q p =
     (if qs_gone q then p\<lparr>pv_working := False, pv_queued := 0, pv_gone := \<not> pv_known p\<rparr>
      else if \<not> qs_ok q then p
      else let p1 = p\<lparr>pv_working := (ps_current (qs_state q) \<noteq> None), pv_queued := ps_queued (qs_state q)\<rparr>
           in case ps_current (qs_state q) of None \<Rightarrow> p1
              | Some (turn, u, name, since) \<Rightarrow> p1\<lparr>pv_turn := turn, pv_user := u, pv_user_name := name, pv_since := Some since\<rparr>)"

text \<open>Each row with its background tasks; a participant with tasks and nothing else has one, idle.\<close>

definition Participants :: "time \<Rightarrow> turns \<Rightarrow> visible option \<Rightarrow> (string \<Rightarrow> queried_state) \<Rightarrow> (string \<times> 'task list) list \<Rightarrow> string
    \<Rightarrow> (participant_view \<times> 'task list) list" where
  "Participants now t v query tasks sid =
     (let ps = map (\<lambda>p. if unclear p then ask_state (query (ParticipantWorkflowID sid (pv_participant p))) p else p)
                 (turns_snapshot now t sid (runningIn v sid));
          ps1 = filter (\<lambda>p. \<not> pv_gone p) ps;
          ps2 = map (\<lambda>p. p\<lparr>pv_waiting := (pv_working p \<and> pv_participant p \<in> set (askingIn v sid))\<rparr>) ps1;
          tasks_of = (\<lambda>name. case map_of tasks name of Some ts \<Rightarrow> ts | None \<Rightarrow> []);
          alone = filter (\<lambda>x. fst x \<notin> pv_participant ` set ps2) tasks
      in sort_key (pv_participant \<circ> fst)
           (map (\<lambda>p. (p, tasks_of (pv_participant p))) ps2 @ map (\<lambda>x. (view_named (fst x) False False 0, snd x)) alone))"

subsection \<open>Working sessions are shown so\<close>

lemma Statuses_fold:
  "foldl (\<lambda>m sid. if P sid then m(sid := Stronger (m sid) StatusWorking) else m) base ids sid
     = (if sid \<in> set ids \<and> P sid then Stronger (base sid) StatusWorking else base sid)"
proof (induction ids arbitrary: base)
  case (Cons i ids)
  have "Stronger (Stronger s StatusWorking) StatusWorking = Stronger s StatusWorking" for s
    by (simp add: Stronger_def rank_def split: status.split)
  with Cons show ?case by auto
qed simp

lemma snapshot_nothing: "inner (tu_m t) sid = [] \<Longrightarrow> turns_snapshot now t sid [] = []"
  by (simp add: turns_snapshot_def Let_def)

text \<open>A session's status is the stronger of what the queries tell of it and of its participants at work: it works as long as
  one of them does, as the events and the queries tell, whichever ended, and a question waiting is never hidden.\<close>

theorem status_of_every_participant:
  "Statuses now t v sid =
     (let base = (case v of None \<Rightarrow> NoStatus | Some v \<Rightarrow> vs_statuses v sid)
      in if list_ex pv_working (turns_snapshot now t sid (runningIn v sid)) then Stronger base StatusWorking else base)"
proof -
  let ?ids = "turns_sessions t @ (case v of None \<Rightarrow> [] | Some v \<Rightarrow> map fst (vs_participants v))"
  have none: "turns_snapshot now t sid (runningIn v sid) = []" if "sid \<notin> set ?ids"
  proof -
    from that have "map_of (tu_m t) sid = None" by (auto simp: turns_sessions_def map_of_eq_None_iff)
    moreover from that have "runningIn v sid = []" by (auto simp: runningIn_def listed_in_def filter_empty_conv split: option.splits)
    ultimately show ?thesis by (simp add: snapshot_nothing inner_def)
  qed
  have w: "turns_working now t i r \<noteq> [] \<longleftrightarrow> list_ex pv_working (turns_snapshot now t i r)" for i r
    by (auto simp: turns_working_def filter_empty_conv list_ex_iff)
  have "list_ex pv_working (turns_snapshot now t sid (runningIn v sid)) \<Longrightarrow> sid \<in> set ?ids" using none by force
  then show ?thesis unfolding Statuses_def Let_def Statuses_fold w by (auto split: option.split)
qed

subsection \<open>The cache\<close>

definition statusesTTL :: duration where "statusesTTL = 3 * 1000000000"

record workflow_state =
  wf_status :: nat
  wf_closed :: "time option"

text \<open>
  A value is kept with the step its reading began at (\<open>begun\<close>), which no code reads. A load is a goroutine that reads: it has the
  generation it started in and, where others wait for it, the channel it closes at its end.
\<close>

record load =
  ld_id :: string
  ld_gen :: nat
  ld_chan :: nat
  ld_at :: time
  ld_begun :: nat

record cache =
  c_at :: time
  c_value :: "(visible \<times> nat) option"
  c_loading :: "nat option"
  c_gen :: nat
  c_workflows :: "(string \<times> workflow_state \<times> time \<times> nat) list"
  c_states :: "(string \<times> queried_state \<times> time \<times> nat) list"
  c_state_loads :: "(string \<times> nat) list"

record cache_world =
  cw_cache :: cache
  cw_loads :: "load list"
  cw_reads :: "load list"
  cw_queries :: "load list"
  cw_clock :: nat
  cw_dropped :: nat

definition new_cache :: cache_world where
  "new_cache = \<lparr>cw_cache = \<lparr>c_at = 0, c_value = None, c_loading = None, c_gen = 0, c_workflows = [], c_states = [], c_state_loads = []\<rparr>,
     cw_loads = [], cw_reads = [], cw_queries = [], cw_clock = 1, cw_dropped = 0\<rparr>"

definition aged :: "time \<Rightarrow> time \<Rightarrow> bool" where
  "aged now at = (statusesTTL \<le> now - at)"

definition tick_cache :: "cache_world \<Rightarrow> cache_world" where
  "tick_cache w = w\<lparr>cw_clock := Suc (cw_clock w)\<rparr>"

text \<open>\<open>get\<close> under its mutex: a load is started when the value is old and none runs. It gives the value, old or not, if there is one.\<close>

definition get_locked :: "time \<Rightarrow> cache_world \<Rightarrow> cache_world" where
  "get_locked now w =
     (let c = cw_cache w
      in if c_value c \<noteq> None \<and> \<not> aged now (c_at c) then w
         else if c_loading c = None
         then w\<lparr>cw_cache := c\<lparr>c_loading := Some (cw_clock w)\<rparr>,
                cw_loads := cw_loads w @ [\<lparr>ld_id = [], ld_gen = c_gen c, ld_chan = cw_clock w, ld_at = now, ld_begun = cw_clock w\<rparr>]\<rparr>
         else w)"

definition refresh_end :: "load \<Rightarrow> time \<Rightarrow> visible \<Rightarrow> cache_world \<Rightarrow> cache_world" where
  "refresh_end l now v w =
     (let c = cw_cache w;
          c1 = (if c_gen c = ld_gen l then c\<lparr>c_value := Some (v, ld_begun l), c_at := now\<rparr> else c)
      in w\<lparr>cw_cache := (if c_loading c1 = Some (ld_chan l) then c1\<lparr>c_loading := None\<rparr> else c1), cw_loads := remove1 l (cw_loads w)\<rparr>)"

definition workflow_locked :: "string \<Rightarrow> time \<Rightarrow> cache_world \<Rightarrow> cache_world" where
  "workflow_locked i now w =
     (let c = cw_cache w
      in case map_of (c_workflows c) i of
           Some (_, at, _) \<Rightarrow> if \<not> aged now at then w
             else w\<lparr>cw_reads := cw_reads w @ [\<lparr>ld_id = i, ld_gen = c_gen c, ld_chan = 0, ld_at = now, ld_begun = cw_clock w\<rparr>]\<rparr>
         | None \<Rightarrow> w\<lparr>cw_reads := cw_reads w @ [\<lparr>ld_id = i, ld_gen = c_gen c, ld_chan = 0, ld_at = now, ld_begun = cw_clock w\<rparr>]\<rparr>)"

definition workflow_end :: "load \<Rightarrow> time \<Rightarrow> workflow_state \<Rightarrow> cache_world \<Rightarrow> cache_world" where
  "workflow_end l now s w =
     (let c = cw_cache w
      in w\<lparr>cw_cache := (if c_gen c = ld_gen l
               then c\<lparr>c_workflows := AList.update (ld_id l) (s, ld_at l, ld_begun l) (filter (\<lambda>x. \<not> aged now (fst (snd (snd x)))) (c_workflows c))\<rparr>
               else c), cw_reads := remove1 l (cw_reads w)\<rparr>)"

text \<open>\<open>participantState\<close>: one that is being read is waited for, the caller looks again.\<close>

definition state_locked :: "string \<Rightarrow> time \<Rightarrow> cache_world \<Rightarrow> cache_world" where
  "state_locked i now w =
     (let c = cw_cache w
      in if (case map_of (c_states c) i of Some (_, at, _) \<Rightarrow> \<not> aged now at | None \<Rightarrow> False) then w
         else if map_of (c_state_loads c) i \<noteq> None then w
         else w\<lparr>cw_cache := c\<lparr>c_state_loads := AList.update i (cw_clock w) (c_state_loads c)\<rparr>,
                cw_queries := cw_queries w @ [\<lparr>ld_id = i, ld_gen = c_gen c, ld_chan = cw_clock w, ld_at = now, ld_begun = cw_clock w\<rparr>]\<rparr>)"

definition state_end :: "load \<Rightarrow> time \<Rightarrow> queried_state \<Rightarrow> bool \<Rightarrow> cache_world \<Rightarrow> cache_world" where
  "state_end l now q alive w =
     (let c = cw_cache w;
          c1 = (if c_gen c = ld_gen l \<and> alive
                then c\<lparr>c_states := AList.update (ld_id l) (q, ld_at l, ld_begun l) (filter (\<lambda>x. \<not> aged now (fst (snd (snd x)))) (c_states c))\<rparr>
                else c)
      in w\<lparr>cw_cache := (if map_of (c_state_loads c1) (ld_id l) = Some (ld_chan l) then c1\<lparr>c_state_loads := AList.delete (ld_id l) (c_state_loads c1)\<rparr> else c1),
           cw_queries := remove1 l (cw_queries w)\<rparr>)"

definition invalidate :: "cache_world \<Rightarrow> cache_world" where
  "invalidate w =
     w\<lparr>cw_cache := (cw_cache w)\<lparr>c_value := None, c_workflows := [], c_states := [], c_state_loads := [],
          c_gen := Suc (c_gen (cw_cache w)), c_loading := None\<rparr>, cw_dropped := cw_clock w\<rparr>"

text \<open>The interleavings: any request, any end of what runs, any action.\<close>

inductive cache_step :: "cache_world \<Rightarrow> cache_world \<Rightarrow> bool" where
  get: "cache_step w (tick_cache (get_locked now w))"
| refresh: "l \<in> set (cw_loads w) \<Longrightarrow> cache_step w (tick_cache (refresh_end l now v w))"
| workflow: "cache_step w (tick_cache (workflow_locked i now w))"
| described: "l \<in> set (cw_reads w) \<Longrightarrow> cache_step w (tick_cache (workflow_end l now s w))"
| state: "cache_step w (tick_cache (state_locked i now w))"
| queried: "l \<in> set (cw_queries w) \<Longrightarrow> cache_step w (tick_cache (state_end l now q alive w))"
| action: "cache_step w (tick_cache (invalidate w))"

inductive cache_reached :: "cache_world \<Rightarrow> bool" where
  start: "cache_reached new_cache"
| step: "cache_reached w \<Longrightarrow> cache_step w w' \<Longrightarrow> cache_reached w'"

subsection \<open>Nothing from before an action\<close>

definition later_than :: "nat \<Rightarrow> (string \<times> 'v \<times> time \<times> nat) list \<Rightarrow> bool" where
  "later_than d xs = list_all (\<lambda>x. d < snd (snd (snd x))) xs"

text \<open>What runs in the generation of the cache began after the last action; it is the only load, and the only query of its participant.\<close>

definition load_ok :: "cache_world \<Rightarrow> load \<Rightarrow> bool" where
  "load_ok w l \<longleftrightarrow> ld_begun l < cw_clock w \<and> ld_gen l \<le> c_gen (cw_cache w)
     \<and> (ld_gen l = c_gen (cw_cache w) \<longrightarrow> cw_dropped w < ld_begun l)"

definition loads_ok :: "cache_world \<Rightarrow> bool" where
  "loads_ok w \<longleftrightarrow> (\<forall>l \<in> set (cw_loads w) \<union> set (cw_reads w) \<union> set (cw_queries w). load_ok w l) \<and> cw_dropped w < cw_clock w"

definition alone_ok :: "cache_world \<Rightarrow> bool" where
  "alone_ok w \<longleftrightarrow>
     distinct (map ld_chan (cw_loads w)) \<and> distinct (map ld_chan (cw_queries w))
     \<and> (\<forall>l \<in> set (cw_loads w) \<union> set (cw_queries w). ld_chan l < cw_clock w)
     \<and> (\<forall>l \<in> set (cw_loads w). ld_gen l = c_gen (cw_cache w) \<longrightarrow> c_loading (cw_cache w) = Some (ld_chan l))
     \<and> (\<forall>l \<in> set (cw_queries w). ld_gen l = c_gen (cw_cache w) \<longrightarrow> map_of (c_state_loads (cw_cache w)) (ld_id l) = Some (ld_chan l))"

definition kept_ok :: "cache_world \<Rightarrow> bool" where
  "kept_ok w \<longleftrightarrow> (\<forall>v b. c_value (cw_cache w) = Some (v, b) \<longrightarrow> cw_dropped w < b)
     \<and> later_than (cw_dropped w) (c_workflows (cw_cache w)) \<and> later_than (cw_dropped w) (c_states (cw_cache w))"

lemmas cache_defs = tick_cache_def get_locked_def refresh_end_def workflow_locked_def workflow_end_def state_locked_def state_end_def
  invalidate_def Let_def

lemma later_filter [simp, intro]: "later_than d xs \<Longrightarrow> later_than d (filter P xs)"
  by (simp add: later_than_def list_all_iff)

lemma later_update: "later_than d xs \<Longrightarrow> d < b \<Longrightarrow> later_than d (AList.update i (s, at, b) xs)"
  by (induction xs) (auto simp: later_than_def)

lemma later_Nil [simp]: "later_than d []"
  by (simp add: later_than_def)

lemma kept_step:
  assumes "cache_step w w'" and "loads_ok w" and "kept_ok w"
  shows "kept_ok w'"
  using assms(1)
proof (cases rule: cache_step.cases)
  case (refresh l now v)
  with assms(2) have "load_ok w l" by (auto simp: loads_ok_def)
  with refresh assms(3) show ?thesis by (auto simp: cache_defs kept_ok_def load_ok_def)
next
  case (described l now s)
  with assms(2) have "load_ok w l" by (auto simp: loads_ok_def)
  with described assms(3) show ?thesis by (auto simp: cache_defs kept_ok_def load_ok_def intro!: later_update)
next
  case (queried l now q alive)
  with assms(2) have "load_ok w l" by (auto simp: loads_ok_def)
  with queried assms(3) show ?thesis by (auto simp: cache_defs kept_ok_def load_ok_def intro!: later_update)
qed (use assms(3) in \<open>auto simp: cache_defs kept_ok_def split: option.splits\<close>)

text \<open>What a step does to what runs, and to the two clocks.\<close>

definition running_loads :: "cache_world \<Rightarrow> load set" where
  "running_loads w = set (cw_loads w) \<union> set (cw_reads w) \<union> set (cw_queries w)"

lemma remove1_in: "x \<in> set (remove1 l xs) \<Longrightarrow> x \<in> set xs"
  using set_remove1_subset by fast

lemma step_running:
  assumes "cache_step w w'" and "l \<in> running_loads w'"
  shows "l \<in> running_loads w \<or> ld_begun l = cw_clock w \<and> ld_gen l = c_gen (cw_cache w)
    \<and> cw_dropped w' = cw_dropped w \<and> c_gen (cw_cache w') = c_gen (cw_cache w)"
  using assms(1)
proof (cases rule: cache_step.cases)
  case (workflow i now)
  with assms(2) show ?thesis by (auto simp: cache_defs running_loads_def split: option.splits if_splits)
qed (use assms(2) in \<open>auto simp: cache_defs running_loads_def dest!: remove1_in split: if_splits\<close>)

lemma step_clocks:
  assumes "cache_step w w'"
  shows "cw_clock w' = Suc (cw_clock w)"
    and "c_gen (cw_cache w') = c_gen (cw_cache w) \<and> cw_dropped w' = cw_dropped w
       \<or> c_gen (cw_cache w') = Suc (c_gen (cw_cache w)) \<and> cw_dropped w' = cw_clock w"
  using assms by (cases rule: cache_step.cases; auto simp: cache_defs split: option.split)+

lemma loads_step:
  assumes "cache_step w w'" and "loads_ok w"
  shows "loads_ok w'"
proof -
  note c = step_clocks [OF assms(1)]
  have d: "cw_dropped w < cw_clock w" using assms(2) by (simp add: loads_ok_def)
  have "load_ok w' l" if "l \<in> running_loads w'" for l
    using step_running [OF assms(1) that]
  proof
    assume "l \<in> running_loads w"
    then have "load_ok w l" using assms(2) by (auto simp: loads_ok_def running_loads_def)
    with c show ?thesis by (auto simp: load_ok_def)
  next
    assume "ld_begun l = cw_clock w \<and> ld_gen l = c_gen (cw_cache w) \<and> cw_dropped w' = cw_dropped w \<and> c_gen (cw_cache w') = c_gen (cw_cache w)"
    with c d show ?thesis by (simp add: load_ok_def)
  qed
  moreover have "cw_dropped w' < cw_clock w'" using c d by auto
  ultimately show ?thesis by (simp add: loads_ok_def running_loads_def)
qed

lemma cache_inv: "cache_reached w \<Longrightarrow> loads_ok w \<and> kept_ok w"
proof (induction rule: cache_reached.induct)
  case start
  then show ?case by (simp add: new_cache_def loads_ok_def kept_ok_def)
next
  case (step w w')
  then show ?case using loads_step kept_step by blast
qed

text \<open>What a request finds in the cache: the states, old or not; a workflow's state and a participant's, while they are not old.\<close>

definition found_begun :: "time \<Rightarrow> cache \<Rightarrow> nat set" where
  "found_begun now c = snd ` set_option (c_value c)
     \<union> {b. \<exists>i s at. map_of (c_workflows c) i = Some (s, at, b) \<and> \<not> aged now at}
     \<union> {b. \<exists>i q at. map_of (c_states c) i = Some (q, at, b) \<and> \<not> aged now at}"

text \<open>C38: After an action, a request is never shown a state from before it: whatever loads and queries run beside, and end before or
  after it, each value a request finds in the cache comes from a reading that began after the last action.\<close>

theorem never_from_before:
  assumes "cache_reached w" and "b \<in> found_begun now (cw_cache w)"
  shows "cw_dropped w < b"
proof -
  from cache_inv [OF assms(1)] have k: "kept_ok w" by simp
  have l: "cw_dropped w < b" if "later_than (cw_dropped w) xs" "map_of xs i = Some (s, at, b)" for i and s :: "'x" and at b xs
    using that by (auto simp: later_than_def list_all_iff dest!: map_of_SomeD)
  from assms(2) k show ?thesis by (auto simp: found_begun_def kept_ok_def elim: l)
qed

subsection \<open>One load at a time\<close>

lemma distinct_chan_remove:
  assumes "distinct (map ld_chan xs)" and "l \<in> set xs"
  shows "distinct (map ld_chan (remove1 l xs))" and "x \<in> set (remove1 l xs) \<Longrightarrow> x \<in> set xs \<and> ld_chan x \<noteq> ld_chan l"
proof -
  from assms(1) have d: "distinct xs" by (simp add: distinct_map)
  have r: "set (remove1 l xs) = set xs - {l}" using d by simp
  show "distinct (map ld_chan (remove1 l xs))" using assms(1) d by (auto simp: distinct_map r intro: inj_on_diff)
  show "x \<in> set (remove1 l xs) \<Longrightarrow> x \<in> set xs \<and> ld_chan x \<noteq> ld_chan l"
    using assms unfolding r by (auto simp: distinct_map dest: inj_onD)
qed

lemma alone_step:
  assumes "cache_step w w'" and "loads_ok w" and "alone_ok w"
  shows "alone_ok w'"
  using assms(1)
proof (cases rule: cache_step.cases)
  case (get now)
  with assms(3) show ?thesis by (fastforce simp: cache_defs alone_ok_def less_Suc_eq)
next
  case (refresh l now v)
  from assms(3) refresh(2) have r: "distinct (map ld_chan (remove1 l (cw_loads w)))"
    "\<And>x. x \<in> set (remove1 l (cw_loads w)) \<Longrightarrow> x \<in> set (cw_loads w) \<and> ld_chan x \<noteq> ld_chan l"
    using distinct_chan_remove [of "cw_loads w" l] by (auto simp: alone_ok_def)
  have f: "cw_loads w' = remove1 l (cw_loads w)" "cw_queries w' = cw_queries w" "cw_clock w' = Suc (cw_clock w)"
    "c_gen (cw_cache w') = c_gen (cw_cache w)" "c_state_loads (cw_cache w') = c_state_loads (cw_cache w)"
    "c_loading (cw_cache w') = (if c_loading (cw_cache w) = Some (ld_chan l) then None else c_loading (cw_cache w))"
    unfolding refresh(1) by (simp_all add: cache_defs)
  have "c_loading (cw_cache w') = Some (ld_chan x)" if "x \<in> set (remove1 l (cw_loads w))" "ld_gen x = c_gen (cw_cache w)" for x
    using assms(3) r(2) [OF that(1)] that(2) f(6) by (auto simp: alone_ok_def)
  then show ?thesis using assms(3) r unfolding alone_ok_def f by (auto simp: less_Suc_eq)
next
  case (workflow i now)
  with assms(3) show ?thesis by (fastforce simp: cache_defs alone_ok_def less_Suc_eq split: option.split)
next
  case (described l now s)
  with assms(3) show ?thesis by (fastforce simp: cache_defs alone_ok_def less_Suc_eq)
next
  case (state i now)
  show ?thesis
  proof (cases "(case map_of (c_states (cw_cache w)) i of Some (_, at, _) \<Rightarrow> \<not> aged now at | None \<Rightarrow> False)
      \<or> map_of (c_state_loads (cw_cache w)) i \<noteq> None")
    case True
    then have "w' = tick_cache w" using state by (auto simp: state_locked_def Let_def)
    with assms(3) show ?thesis by (auto simp: tick_cache_def alone_ok_def less_Suc_eq)
  next
    case False
    then have "map_of (c_state_loads (cw_cache w)) i = None" and w': "w' = tick_cache (w\<lparr>cw_cache := (cw_cache w)\<lparr>c_state_loads := AList.update i (cw_clock w) (c_state_loads (cw_cache w))\<rparr>,
        cw_queries := cw_queries w @ [\<lparr>ld_id = i, ld_gen = c_gen (cw_cache w), ld_chan = cw_clock w, ld_at = now, ld_begun = cw_clock w\<rparr>]\<rparr>)"
      using state by (auto simp: state_locked_def Let_def)
    with assms(3) show ?thesis unfolding w' by (fastforce simp: tick_cache_def alone_ok_def less_Suc_eq AList.update_conv')
  qed
next
  case (queried l now q alive)
  from assms(3) queried(2) have r: "distinct (map ld_chan (remove1 l (cw_queries w)))"
    "\<And>x. x \<in> set (remove1 l (cw_queries w)) \<Longrightarrow> x \<in> set (cw_queries w) \<and> ld_chan x \<noteq> ld_chan l"
    using distinct_chan_remove [of "cw_queries w" l] by (auto simp: alone_ok_def)
  have f: "cw_loads w' = cw_loads w" "cw_queries w' = remove1 l (cw_queries w)" "cw_clock w' = Suc (cw_clock w)"
    "c_gen (cw_cache w') = c_gen (cw_cache w)" "c_loading (cw_cache w') = c_loading (cw_cache w)"
    "c_state_loads (cw_cache w') = (if map_of (c_state_loads (cw_cache w)) (ld_id l) = Some (ld_chan l)
       then AList.delete (ld_id l) (c_state_loads (cw_cache w)) else c_state_loads (cw_cache w))"
    unfolding queried(1) by (simp_all add: cache_defs)
  have "map_of (c_state_loads (cw_cache w')) (ld_id x) = Some (ld_chan x)"
    if "x \<in> set (remove1 l (cw_queries w))" "ld_gen x = c_gen (cw_cache w)" for x
    using assms(3) r(2) [OF that(1)] that(2) f(6) by (auto simp: alone_ok_def AList.delete_conv')
  then show ?thesis using assms(3) r f(1-5) by (auto simp: alone_ok_def less_Suc_eq)
next
  case action
  have "ld_gen l \<noteq> Suc (c_gen (cw_cache w))" if "l \<in> set (cw_loads w) \<union> set (cw_queries w)" for l
    using assms(2) that by (force simp: loads_ok_def load_ok_def)
  with action assms(3) show ?thesis by (auto simp: cache_defs alone_ok_def less_Suc_eq)
qed

lemma cache_alone: "cache_reached w \<Longrightarrow> alone_ok w"
proof (induction rule: cache_reached.induct)
  case start
  then show ?case by (simp add: new_cache_def alone_ok_def)
next
  case (step w w')
  with cache_inv alone_step show ?case by blast
qed

lemma at_most_one:
  assumes "distinct (map f xs)" and "\<And>x. x \<in> set xs \<Longrightarrow> P x \<Longrightarrow> f x = c"
  shows "length (filter P xs) \<le> 1"
proof -
  have "distinct (map f (filter P xs))" using assms(1) by (simp add: distinct_map_filter)
  then have "length (filter P xs) = card (f ` set (filter P xs))" by (metis distinct_card length_map list.set_map)
  also have "\<dots> \<le> card {c}" using assms(2) by (intro card_mono) auto
  finally show ?thesis by simp
qed

text \<open>One load of the sessions' states runs at a time, and one query of each participant's state, since the last action: requests
  share them, however many come.\<close>

theorem one_load_at_a_time:
  assumes "cache_reached w"
  shows "length (filter (\<lambda>l. ld_gen l = c_gen (cw_cache w)) (cw_loads w)) \<le> 1
    \<and> length (filter (\<lambda>l. ld_gen l = c_gen (cw_cache w) \<and> ld_id l = i) (cw_queries w)) \<le> 1"
proof -
  from cache_alone [OF assms] have a: "alone_ok w" .
  have "length (filter (\<lambda>l. ld_gen l = c_gen (cw_cache w)) (cw_loads w)) \<le> 1"
    using a at_most_one [of ld_chan "cw_loads w" _ "the (c_loading (cw_cache w))"] by (simp add: alone_ok_def)
  moreover have "length (filter (\<lambda>l. ld_gen l = c_gen (cw_cache w) \<and> ld_id l = i) (cw_queries w)) \<le> 1"
  proof (rule at_most_one [of ld_chan _ _ "the (map_of (c_state_loads (cw_cache w)) i)"])
    show "distinct (map ld_chan (cw_queries w))" using a by (simp add: alone_ok_def)
    show "ld_chan x = the (map_of (c_state_loads (cw_cache w)) i)"
      if "x \<in> set (cw_queries w)" "ld_gen x = c_gen (cw_cache w) \<and> ld_id x = i" for x
      using a that by (auto simp: alone_ok_def)
  qed
  ultimately show ?thesis by blast
qed

text \<open>Two requests and an action between: the load the first one started keeps nothing, the second one starts its own.\<close>

definition ex_cache :: cache_world where
  "ex_cache = tick_cache (get_locked 2 (tick_cache (invalidate (tick_cache (get_locked 1 new_cache)))))"

definition ex_late_load :: load where
  "ex_late_load = \<lparr>ld_id = [], ld_gen = 0, ld_chan = 1, ld_at = 1, ld_begun = 1\<rparr>"

definition ex_new_load :: load where
  "ex_new_load = \<lparr>ld_id = [], ld_gen = 1, ld_chan = 3, ld_at = 2, ld_begun = 3\<rparr>"

lemma ex_cache_reached: "cache_reached ex_cache" "cw_loads ex_cache = [ex_late_load, ex_new_load]"
proof -
  show "cache_reached ex_cache" unfolding ex_cache_def
    by (rule cache_reached.step [OF cache_reached.step [OF cache_reached.step [OF cache_reached.start
      cache_step.get] cache_step.action] cache_step.get])
  show "cw_loads ex_cache = [ex_late_load, ex_new_load]"
    by (simp add: ex_cache_def cache_defs new_cache_def ex_late_load_def ex_new_load_def)
qed

definition ex_cached :: cache_world where
  "ex_cached = tick_cache (refresh_end ex_new_load 4 nothing_visible (tick_cache (refresh_end ex_late_load 3 nothing_visible ex_cache)))"

lemma ex_cached_reached: "cache_reached ex_cached"
proof -
  have "cache_reached (tick_cache (refresh_end ex_late_load 3 nothing_visible ex_cache))"
    by (rule cache_reached.step [OF ex_cache_reached(1) cache_step.refresh]) (simp add: ex_cache_reached(2))
  moreover have "ex_new_load \<in> set (cw_loads (tick_cache (refresh_end ex_late_load 3 nothing_visible ex_cache)))"
    by (simp add: cache_defs ex_cache_reached(2))
  ultimately show ?thesis unfolding ex_cached_def using cache_reached.step cache_step.refresh by blast
qed

theorem never_from_before_witness: "3 \<in> found_begun 5 (cw_cache ex_cached) \<and> cw_dropped ex_cached < 3 \<and> cw_dropped ex_cached = 2"
proof -
  have f: "3 \<in> found_begun 5 (cw_cache ex_cached)"
    by (simp add: found_begun_def ex_cached_def ex_cache_def cache_defs new_cache_def ex_late_load_def ex_new_load_def)
  moreover have "cw_dropped ex_cached = 2" by (simp add: ex_cached_def ex_cache_def cache_defs new_cache_def)
  ultimately show ?thesis using never_from_before [OF ex_cached_reached f] by simp
qed

theorem one_load_at_a_time_witness:
  "length (filter (\<lambda>l. ld_gen l = c_gen (cw_cache ex_cache)) (cw_loads ex_cache)) \<le> 1 \<and> length (cw_loads ex_cache) = 2"
  using one_load_at_a_time [OF ex_cache_reached(1)] by (simp add: ex_cache_reached(2))

end
