(* ===== verification/SessionStore.thy ===== *)
theory SessionStore
  imports Messages Catalog "HOL-Library.Product_Lexorder"
begin

section \<open>Sessions, members, agents and memory in the store\<close>

text \<open>
  The sessions part of \<open>store/users.go\<close>, \<open>store/report.go\<close>, and the agents and memory of \<open>store/postgres.go\<close>. The database
  is a record of its tables; a transaction is one step, which leaves the database as it was when it fails. The constraints of
  the schema are in the operations: a primary key refused, the members of a session deleted with it, a fork that loses its
  link when its parent is deleted. The users a row refers to are not modelled, nor a session's files. \<open>NULL\<close> is the empty
  string or 0, as \<open>scanSession\<close> reads it.
\<close>

record session =
  se_id :: string
  se_creator :: string
  se_title :: string
  se_agent :: string
  se_channel :: string
  se_channel_id :: string
  se_created :: time
  se_mode :: string
  se_parent :: string
  se_forked_at :: int
  se_forked_by :: string
  se_purpose :: string
  se_summary :: int
  se_reported :: int
  se_report_id :: int
  se_reported_at :: "time option"

definition AgentModeAuto :: string where "AgentModeAuto = ''auto''"
definition AgentModeAlways :: string where "AgentModeAlways = ''always''"
definition AgentModeMention :: string where "AgentModeMention = ''mention''"

record member =
  mb_session :: string
  mb_user :: string
  mb_added_by :: string
  mb_added_at :: time

record agent_row =
  ar_agent :: agent_entry
  ar_revision :: int

record database =
  db_sessions :: "session list"
  db_members :: "member list"
  db_agents :: "agent_row list"
  db_memory :: "string \<times> string \<Rightarrow> (string \<times> int) option"
  db_msgs :: msg_table

definition empty_db :: database where
  "empty_db = \<lparr>db_sessions = [], db_members = [], db_agents = [], db_memory = Map.empty, db_msgs = empty_table\<rparr>"

datatype store_error =
    UniqueViolation | ForeignKeyViolation | SessionNotFound
  | ErrMentionTaken | ErrAgentExists | ErrAgentNotFound | ErrAgentConflict | ErrMemoryConflict
  | ErrForkGone | ErrReportParentGone | ErrReportNotForkMember | ErrReportNotParentMember | ErrReportStale

subsection \<open>Sessions and their members\<close>

definition GetSession_db :: "database \<Rightarrow> string \<Rightarrow> session option" where
  "GetSession_db d sid = find (\<lambda>s. se_id s = sid) (db_sessions d)"

definition CreateSession :: "time \<Rightarrow> session \<Rightarrow> database \<Rightarrow> (store_error, database) result" where
  "CreateSession now s d =
     (if GetSession_db d (se_id s) \<noteq> None then Inl UniqueViolation
      else if se_parent s \<noteq> [] \<and> GetSession_db d (se_parent s) = None then Inl ForeignKeyViolation
      else Inr (d\<lparr>db_sessions := db_sessions d @
                    [s\<lparr>se_created := now, se_mode := AgentModeAuto, se_summary := 0, se_reported := 0, se_report_id := 0,
                       se_reported_at := None\<rparr>],
                  db_members := db_members d @
                    [\<lparr>mb_session = se_id s, mb_user = se_creator s, mb_added_by = se_creator s, mb_added_at = now\<rparr>]\<rparr>))"

definition update_session :: "string \<Rightarrow> (session \<Rightarrow> session) \<Rightarrow> database \<Rightarrow> database" where
  "update_session sid f d = d\<lparr>db_sessions := map (\<lambda>s. if se_id s = sid then f s else s) (db_sessions d)\<rparr>"

text \<open>The row first, with its members, and the link of its forks; then its messages and its memory.\<close>

definition DeleteSession_db :: "string \<Rightarrow> database \<Rightarrow> database" where
  "DeleteSession_db sid d =
     d\<lparr>db_sessions := map (\<lambda>s. if se_parent s = sid then s\<lparr>se_parent := []\<rparr> else s) (filter (\<lambda>s. se_id s \<noteq> sid) (db_sessions d)),
       db_members := filter (\<lambda>m. mb_session m \<noteq> sid) (db_members d),
       db_msgs := DeleteMessagesBySession (db_msgs d) sid,
       db_memory := (db_memory d)((''session'', sid) := None)\<rparr>"

definition RenameSession :: "string \<Rightarrow> string \<Rightarrow> database \<Rightarrow> (store_error, database) result" where
  "RenameSession sid title d =
     (if GetSession_db d sid = None then Inl SessionNotFound else Inr (update_session sid (\<lambda>s. s\<lparr>se_title := title\<rparr>) d))"

definition UpdateSessionTitle :: "string \<Rightarrow> string \<Rightarrow> database \<Rightarrow> database" where
  "UpdateSessionTitle sid title d = update_session sid (\<lambda>s. if se_title s = [] then s\<lparr>se_title := title\<rparr> else s) d"

definition SetSessionAgentMode :: "string \<Rightarrow> string \<Rightarrow> database \<Rightarrow> (store_error, database) result" where
  "SetSessionAgentMode sid mode d =
     (if GetSession_db d sid = None then Inl SessionNotFound else Inr (update_session sid (\<lambda>s. s\<lparr>se_mode := mode\<rparr>) d))"

definition IsSessionMember :: "database \<Rightarrow> string \<Rightarrow> string \<Rightarrow> bool" where
  "IsSessionMember d sid userID = list_ex (\<lambda>m. mb_session m = sid \<and> mb_user m = userID) (db_members d)"

definition ListSessionMembers :: "database \<Rightarrow> string \<Rightarrow> member list" where
  "ListSessionMembers d sid = sort_key mb_added_at (filter (\<lambda>m. mb_session m = sid) (db_members d))"

definition SessionMembership :: "database \<Rightarrow> string \<Rightarrow> string \<Rightarrow> nat \<times> bool" where
  "SessionMembership d sid userID =
     (length (filter (\<lambda>m. mb_session m = sid) (db_members d)), IsSessionMember d sid userID)"

definition AddSessionMember :: "time \<Rightarrow> string \<Rightarrow> string \<Rightarrow> string \<Rightarrow> database \<Rightarrow> (store_error, database) result" where
  "AddSessionMember now sid userID addedBy d =
     (if IsSessionMember d sid userID then Inr d
      else if GetSession_db d sid = None then Inl ForeignKeyViolation
      else Inr (d\<lparr>db_members := db_members d @
             [\<lparr>mb_session = sid, mb_user = userID, mb_added_by = addedBy, mb_added_at = now\<rparr>]\<rparr>))"

definition RemoveSessionMember :: "string \<Rightarrow> string \<Rightarrow> database \<Rightarrow> database" where
  "RemoveSessionMember sid userID d =
     d\<lparr>db_members := filter (\<lambda>m. \<not> (mb_session m = sid \<and> mb_user m = userID)) (db_members d)\<rparr>"

definition sessions_of :: "database \<Rightarrow> string \<Rightarrow> session list" where
  "sessions_of d userID = filter (\<lambda>s. IsSessionMember d (se_id s) userID) (db_sessions d)"

text \<open>Newest first; of sessions created at the same time PostgreSQL may give either.\<close>

definition ListSessionsByUser :: "database \<Rightarrow> string \<Rightarrow> session list" where
  "ListSessionsByUser d userID = sort_key (\<lambda>s. - se_created s) (sessions_of d userID)"

definition GetActiveSessionByChannel :: "database \<Rightarrow> string \<Rightarrow> string \<Rightarrow> string \<Rightarrow> session option" where
  "GetActiveSessionByChannel d userID channel channelID =
     (case filter (\<lambda>s. se_channel s = channel \<and> se_channel_id s = channelID) (ListSessionsByUser d userID) of
        [] \<Rightarrow> None | s # _ \<Rightarrow> Some s)"

definition ListForks :: "database \<Rightarrow> string \<Rightarrow> string \<Rightarrow> session list" where
  "ListForks d sid userID =
     sort_key (\<lambda>s. (se_forked_at s, se_created s)) (filter (\<lambda>s. se_parent s = sid) (sessions_of d userID))"

subsection \<open>A fork's summary and its reports\<close>

definition AppendForkSummary :: "string \<Rightarrow> message \<Rightarrow> database \<Rightarrow> (store_error, database \<times> int) result" where
  "AppendForkSummary forkID msg d =
     (case GetSession_db d forkID of None \<Rightarrow> Inl ErrForkGone
      | Some _ \<Rightarrow> (case AppendMessage (db_msgs d) forkID ForkSummaryKey msg of (T, mid) \<Rightarrow>
          Inr (update_session forkID (\<lambda>s. s\<lparr>se_summary := mid\<rparr>) (d\<lparr>db_msgs := T\<rparr>), mid)))"

record fork_report =
  rp_fork :: string
  rp_parent :: string
  rp_reporter :: string
  rp_from :: int
  rp_upto :: int
  rp_message :: message

definition AppendForkReport :: "time \<Rightarrow> fork_report \<Rightarrow> database \<Rightarrow> (store_error, database \<times> int) result" where
  "AppendForkReport now r d =
     (let key = ForkReportKey (rp_fork r) (rp_from r) (rp_upto r); parentGone = (GetSession_db d (rp_parent r) = None)
      in case GetSession_db d (rp_fork r) of None \<Rightarrow> Inl ErrForkGone
         | Some f \<Rightarrow>
             if parentGone \<or> se_parent f \<noteq> rp_parent r then Inl ErrReportParentGone
             else (case find_row (db_msgs d) (rp_parent r, key) of
                 Some row \<Rightarrow> Inr (d, r_id row)
               | None \<Rightarrow>
                   if se_reported f \<noteq> rp_from r then Inl ErrReportStale
                   else if \<not> IsSessionMember d (rp_fork r) (rp_reporter r) then Inl ErrReportNotForkMember
                   else if \<not> IsSessionMember d (rp_parent r) (rp_reporter r) then Inl ErrReportNotParentMember
                   else (case AppendMessage (db_msgs d) (rp_parent r) key (rp_message r) of (T, mid) \<Rightarrow>
                     Inr (update_session (rp_fork r)
                            (\<lambda>s. s\<lparr>se_reported := rp_upto r, se_report_id := mid, se_reported_at := Some now\<rparr>)
                            (d\<lparr>db_msgs := T\<rparr>), mid))))"

subsection \<open>Agents\<close>

text \<open>
  \<open>lower\<close> and \<open>strings.ToLower\<close> on the letters of ASCII: an agent's ID and its mention hold no others (\<open>agentIDPattern\<close>,
  \<open>MentionPattern\<close> of \<open>config/config.go\<close>).
\<close>

definition lower_char :: "char \<Rightarrow> char" where
  "lower_char c = (let n = of_char c :: nat in if 65 \<le> n \<and> n \<le> 90 then char_of (n + 32) else c)"

definition to_lower :: "string \<Rightarrow> string" where
  "to_lower s = map lower_char s"

definition MentionName :: "agent_entry \<Rightarrow> string" where
  "MentionName a = (if a_mention a \<noteq> [] then a_mention a else a_id a)"

definition LLMOn :: "agent_entry \<Rightarrow> string" where
  "LLMOn a = (if a_llm_on_machine a = [] then ''never'' else a_llm_on_machine a)"

definition GetAgent :: "database \<Rightarrow> string \<Rightarrow> agent_entry option" where
  "GetAgent d agentID = map_option ar_agent (find (\<lambda>r. a_id (ar_agent r) = agentID) (db_agents d))"

definition ListAgents :: "database \<Rightarrow> agent_entry list" where
  "ListAgents d = sort_key a_id (map ar_agent (db_agents d))"

text \<open>The check of \<open>writeAgent\<close>, and the index \<open>idx_agents_mention\<close> over the other rows.\<close>

definition names_clash :: "agent_entry \<Rightarrow> database \<Rightarrow> bool" where
  "names_clash a d =
     list_ex (\<lambda>r. let b = ar_agent r in a_id b \<noteq> a_id a
        \<and> ((a_mention a \<noteq> [] \<and> to_lower (a_id b) = to_lower (a_mention a))
           \<or> (a_mention b \<noteq> [] \<and> to_lower (a_mention b) = to_lower (a_id a)))) (db_agents d)"

definition mention_indexed :: "agent_entry \<Rightarrow> database \<Rightarrow> bool" where
  "mention_indexed a d =
     (a_mention a \<noteq> [] \<and> list_ex (\<lambda>r. let b = ar_agent r in
        a_id b \<noteq> a_id a \<and> a_mention b \<noteq> [] \<and> to_lower (a_mention b) = to_lower (a_mention a)) (db_agents d))"

definition stored_agent :: "agent_entry \<Rightarrow> agent_entry" where
  "stored_agent a = a\<lparr>a_llm_on_machine := LLMOn a\<rparr>"

definition InsertAgentIfAbsent :: "agent_entry \<Rightarrow> database \<Rightarrow> (store_error, database \<times> bool) result" where
  "InsertAgentIfAbsent a d =
     (if names_clash a d then Inl ErrMentionTaken
      else if GetAgent d (a_id a) \<noteq> None then Inr (d, False)
      else if mention_indexed a d then Inl ErrMentionTaken
      else Inr (d\<lparr>db_agents := db_agents d @ [\<lparr>ar_agent = stored_agent a, ar_revision = 1\<rparr>]\<rparr>, True))"

definition CreateAgent :: "agent_entry \<Rightarrow> database \<Rightarrow> (store_error, database) result" where
  "CreateAgent a d =
     (case InsertAgentIfAbsent a d of Inl e \<Rightarrow> Inl e
      | Inr (d', inserted) \<Rightarrow> if \<not> inserted then Inl ErrAgentExists else Inr d')"

definition UpdateAgent :: "agent_entry \<Rightarrow> int \<Rightarrow> database \<Rightarrow> (store_error, database \<times> int) result" where
  "UpdateAgent a expected d =
     (if names_clash a d then Inl ErrMentionTaken
      else if list_ex (\<lambda>r. a_id (ar_agent r) = a_id a \<and> ar_revision r = expected) (db_agents d)
      then (if mention_indexed a d then Inl ErrMentionTaken
            else Inr (d\<lparr>db_agents := map (\<lambda>r. if a_id (ar_agent r) = a_id a \<and> ar_revision r = expected
                     then \<lparr>ar_agent = stored_agent a, ar_revision = ar_revision r + 1\<rparr> else r) (db_agents d)\<rparr>, expected + 1))
      else if GetAgent d (a_id a) = None then Inl ErrAgentNotFound else Inl ErrAgentConflict)"

definition DeleteAgent :: "string \<Rightarrow> database \<Rightarrow> (store_error, database) result" where
  "DeleteAgent agentID d =
     (if GetAgent d agentID = None then Inl ErrAgentNotFound
      else Inr (d\<lparr>db_agents := filter (\<lambda>r. a_id (ar_agent r) \<noteq> agentID) (db_agents d)\<rparr>))"

definition CountSessionsByAgent :: "database \<Rightarrow> string \<Rightarrow> nat" where
  "CountSessionsByAgent d agentID = length (filter (\<lambda>s. se_agent s = agentID) (db_sessions d))"

subsection \<open>Memory\<close>

definition LoadMemory :: "database \<Rightarrow> string \<Rightarrow> string \<Rightarrow> string \<times> int" where
  "LoadMemory d scope scopeID = (case db_memory d (scope, scopeID) of None \<Rightarrow> ([], 0) | Some m \<Rightarrow> m)"

definition SaveMemory :: "string \<Rightarrow> string \<Rightarrow> string \<Rightarrow> int \<Rightarrow> database \<Rightarrow> (store_error, database \<times> int) result" where
  "SaveMemory scope scopeID content expected d =
     (let saved = (\<lambda>v. Inr (d\<lparr>db_memory := (db_memory d)((scope, scopeID) \<mapsto> (content, v))\<rparr>, v))
      in if expected = 0
         then (case db_memory d (scope, scopeID) of None \<Rightarrow> saved 1
               | Some (_, v) \<Rightarrow> if v = 0 then saved (v + 1) else Inl ErrMemoryConflict)
         else (case db_memory d (scope, scopeID) of None \<Rightarrow> Inl ErrMemoryConflict
               | Some (_, v) \<Rightarrow> if v = expected then saved (v + 1) else Inl ErrMemoryConflict))"

subsection \<open>The operations as one machine\<close>

datatype db_op =
    OpCreate time session
  | OpDelete string
  | OpRename string string
  | OpTitle string string
  | OpMode string string
  | OpAdd time string string string
  | OpRemove string string
  | OpMessage string string message
  | OpDeleteMessage string int
  | OpSummary string message
  | OpReport time fork_report
  | OpInsertAgent agent_entry
  | OpUpdateAgent agent_entry int
  | OpDeleteAgent string
  | OpMemory string string string int

definition kept :: "database \<Rightarrow> (store_error, database) result \<Rightarrow> database" where
  "kept d r = (case r of Inl _ \<Rightarrow> d | Inr d' \<Rightarrow> d')"

definition kept_fst :: "database \<Rightarrow> (store_error, database \<times> 'a) result \<Rightarrow> database" where
  "kept_fst d r = (case r of Inl _ \<Rightarrow> d | Inr x \<Rightarrow> fst x)"

fun db_step :: "database \<Rightarrow> db_op \<Rightarrow> database" where
  "db_step d (OpCreate now s) = kept d (CreateSession now s d)"
| "db_step d (OpDelete sid) = DeleteSession_db sid d"
| "db_step d (OpRename sid title) = kept d (RenameSession sid title d)"
| "db_step d (OpTitle sid title) = UpdateSessionTitle sid title d"
| "db_step d (OpMode sid mode) = kept d (SetSessionAgentMode sid mode d)"
| "db_step d (OpAdd now sid u by_user) = kept d (AddSessionMember now sid u by_user d)"
| "db_step d (OpRemove sid u) = RemoveSessionMember sid u d"
| "db_step d (OpMessage sid key m) = d\<lparr>db_msgs := fst (AppendMessage (db_msgs d) sid key m)\<rparr>"
| "db_step d (OpDeleteMessage sid mid) = d\<lparr>db_msgs := DeleteMessage (db_msgs d) sid mid\<rparr>"
| "db_step d (OpSummary sid m) = kept_fst d (AppendForkSummary sid m d)"
| "db_step d (OpReport now r) = kept_fst d (AppendForkReport now r d)"
| "db_step d (OpInsertAgent a) = kept_fst d (InsertAgentIfAbsent a d)"
| "db_step d (OpUpdateAgent a n) = kept_fst d (UpdateAgent a n d)"
| "db_step d (OpDeleteAgent i) = kept d (DeleteAgent i d)"
| "db_step d (OpMemory sc i c v) = kept_fst d (SaveMemory sc i c v d)"

text \<open>
  What the callers of the store keep to: a session's ID is a new UUID, and a session's ID never holds a colon; a message other
  than a report has another key, and only a user's notifications (\<open>notifications:<user>\<close>) are deleted one by one; a
  report covers messages after the last reported one (\<open>reportRange\<close>); an agent's ID is in lower case.
\<close>

definition names_session :: "string \<Rightarrow> bool" where
  "names_session sid = (CHR '':'' \<notin> set sid \<and> sid \<noteq> [])"

fun db_guard :: "db_op \<Rightarrow> bool" where
  "db_guard (OpCreate now s) = names_session (se_id s)"
| "db_guard (OpMessage sid key m) = (\<not> has_prefix ''report:'' key)"
| "db_guard (OpDeleteMessage sid mid) = (CHR '':'' \<in> set sid)"
| "db_guard (OpReport now r) = (0 \<le> rp_from r \<and> rp_from r < rp_upto r)"
| "db_guard (OpInsertAgent a) = (to_lower (a_id a) = a_id a)"
| "db_guard (OpUpdateAgent a n) = (to_lower (a_id a) = a_id a)"
| "db_guard _ = True"

text \<open>The states the store reaches, with the IDs of the sessions created so far: a new session has another one.\<close>

fun new_ids :: "db_op \<Rightarrow> string list" where
  "new_ids (OpCreate now s) = [se_id s]"
| "new_ids _ = []"

inductive reached_db :: "database \<Rightarrow> string list \<Rightarrow> bool" where
  start: "reached_db empty_db []"
| step: "reached_db d used \<Longrightarrow> db_guard op \<Longrightarrow> set (new_ids op) \<inter> set used = {} \<Longrightarrow> reached_db (db_step d op) (new_ids op @ used)"

subsection \<open>The invariant of the tables\<close>

definition sessions_ok :: "database \<Rightarrow> bool" where
  "sessions_ok d \<longleftrightarrow> distinct (map se_id (db_sessions d))
     \<and> (\<forall>s \<in> set (db_sessions d). names_session (se_id s) \<and> (se_parent s = [] \<or> se_parent s \<in> se_id ` set (db_sessions d)))"

definition members_ok :: "database \<Rightarrow> bool" where
  "members_ok d \<longleftrightarrow> distinct (map (\<lambda>m. (mb_session m, mb_user m)) (db_members d))
     \<and> (\<forall>m \<in> set (db_members d). mb_session m \<in> se_id ` set (db_sessions d))"

definition agents_ok :: "database \<Rightarrow> bool" where
  "agents_ok d \<longleftrightarrow> distinct (map (a_id \<circ> ar_agent) (db_agents d))
     \<and> (\<forall>a \<in> ar_agent ` set (db_agents d). to_lower (a_id a) = a_id a)
     \<and> (\<forall>a \<in> ar_agent ` set (db_agents d). \<forall>b \<in> ar_agent ` set (db_agents d).
           to_lower (MentionName a) = to_lower (MentionName b) \<longrightarrow> a_id a = a_id b)"

lemma GetSession_None: "GetSession_db d sid = None \<longleftrightarrow> sid \<notin> se_id ` set (db_sessions d)"
  by (auto simp: GetSession_db_def find_None_iff)

lemma GetSession_db_Some: "GetSession_db d sid = Some s \<Longrightarrow> s \<in> set (db_sessions d) \<and> se_id s = sid"
  by (auto simp: GetSession_db_def find_Some_iff)

lemma GetSession_in:
  "sessions_ok d \<Longrightarrow> s \<in> set (db_sessions d) \<Longrightarrow> GetSession_db d (se_id s) = Some s"
proof -
  assume ok: "sessions_ok d" and s: "s \<in> set (db_sessions d)"
  then obtain s' where "GetSession_db d (se_id s) = Some s'" using GetSession_None by blast
  with GetSession_db_Some [OF this] ok s show ?thesis by (auto simp: sessions_ok_def distinct_map dest: inj_onD)
qed

lemma IsSessionMember_iff: "IsSessionMember d sid u \<longleftrightarrow> (sid, u) \<in> (\<lambda>m. (mb_session m, mb_user m)) ` set (db_members d)"
  by (auto simp: IsSessionMember_def list_ex_iff)

lemmas result_defs = kept_def kept_fst_def

lemma map_se_id_update [simp]: "(\<And>s. se_id (f s) = se_id s) \<Longrightarrow> map se_id (db_sessions (update_session sid f d)) = map se_id (db_sessions d)"
  by (simp add: update_session_def comp_def if_distrib)

lemma se_ids_update: "(\<And>s. se_id (f s) = se_id s) \<Longrightarrow> se_id ` set (db_sessions (update_session sid f d)) = se_id ` set (db_sessions d)"
  using map_se_id_update [of f sid d] by (metis list.set_map)

lemma update_session_fields [simp]:
  "db_members (update_session sid f d) = db_members d" "db_agents (update_session sid f d) = db_agents d"
  "db_memory (update_session sid f d) = db_memory d" "db_msgs (update_session sid f d) = db_msgs d"
  by (simp_all add: update_session_def)

lemma sessions_ok_update:
  assumes "sessions_ok d" and "\<And>s. se_id (f s) = se_id s" and "\<And>s. se_parent (f s) = se_parent s"
  shows "sessions_ok (update_session sid f d)"
proof -
  have "names_session (se_id x) \<and> (se_parent x = [] \<or> se_parent x \<in> se_id ` set (db_sessions d))"
    if "x \<in> set (db_sessions (update_session sid f d))" for x
  proof -
    from that obtain s where "s \<in> set (db_sessions d)" "se_id x = se_id s" "se_parent x = se_parent s"
      by (auto simp: update_session_def assms(2,3) split: if_splits)
    with assms(1) show ?thesis by (simp add: sessions_ok_def)
  qed
  with assms show ?thesis using se_ids_update [of f sid d] by (simp add: sessions_ok_def)
qed

lemma ok_other [simp]:
  "sessions_ok (d\<lparr>db_members := x\<rparr>) = sessions_ok d" "sessions_ok (d\<lparr>db_agents := y\<rparr>) = sessions_ok d"
  "sessions_ok (d\<lparr>db_memory := m\<rparr>) = sessions_ok d" "sessions_ok (d\<lparr>db_msgs := t\<rparr>) = sessions_ok d"
  "members_ok (d\<lparr>db_agents := y\<rparr>) = members_ok d" "members_ok (d\<lparr>db_memory := m\<rparr>) = members_ok d"
  "members_ok (d\<lparr>db_msgs := t\<rparr>) = members_ok d"
  "agents_ok (d\<lparr>db_members := x\<rparr>) = agents_ok d" "agents_ok (d\<lparr>db_sessions := z\<rparr>) = agents_ok d"
  "agents_ok (d\<lparr>db_memory := m\<rparr>) = agents_ok d" "agents_ok (d\<lparr>db_msgs := t\<rparr>) = agents_ok d"
  "agents_ok (update_session sid f d) = agents_ok d"
  by (simp_all add: sessions_ok_def members_ok_def agents_ok_def)

lemma members_ok_update: "(\<And>s. se_id (f s) = se_id s) \<Longrightarrow> members_ok (update_session sid f d) = members_ok d"
  by (simp add: members_ok_def se_ids_update)

lemma deleted_ids: "map se_id (db_sessions (DeleteSession_db sid d)) = filter (\<lambda>i. i \<noteq> sid) (map se_id (db_sessions d))"
proof -
  have "se_id (if se_parent s = sid then s\<lparr>se_parent := []\<rparr> else s) = se_id s" for s :: session by simp
  then show ?thesis by (simp add: DeleteSession_db_def comp_def filter_map)
qed

lemma deleted_id_set: "se_id ` set (db_sessions (DeleteSession_db sid d)) = se_id ` set (db_sessions d) - {sid}"
  using arg_cong [OF deleted_ids, of set sid d] by auto

lemma sessions_ok_delete:
  assumes "sessions_ok d"
  shows "sessions_ok (DeleteSession_db sid d)"
proof -
  have "names_session (se_id x) \<and> (se_parent x = [] \<or> se_parent x \<in> se_id ` set (db_sessions d) - {sid})"
    if "x \<in> set (db_sessions (DeleteSession_db sid d))" for x
    using that assms by (auto simp: DeleteSession_db_def sessions_ok_def)
  moreover have "distinct (map se_id (db_sessions (DeleteSession_db sid d)))"
    unfolding deleted_ids using assms by (simp add: sessions_ok_def)
  ultimately show ?thesis unfolding sessions_ok_def deleted_id_set by blast
qed

lemma sessions_ok_step:
  assumes "sessions_ok d" and "db_guard op"
  shows "sessions_ok (db_step d op)"
proof (cases op)
  case (OpCreate now s)
  with assms show ?thesis
    by (auto simp: result_defs CreateSession_def sessions_ok_def GetSession_None split: sum.splits if_splits)
next
  case (OpDelete sid)
  with assms show ?thesis by (simp add: sessions_ok_delete)
qed (use assms in \<open>auto simp: result_defs RenameSession_def UpdateSessionTitle_def SetSessionAgentMode_def AddSessionMember_def
    RemoveSessionMember_def AppendForkSummary_def AppendForkReport_def Let_def InsertAgentIfAbsent_def UpdateAgent_def DeleteAgent_def
    SaveMemory_def split: sum.splits prod.splits option.splits intro!: sessions_ok_update\<close>)

lemma members_ok_add:
  assumes "members_ok d" and "\<not> IsSessionMember d (mb_session m) (mb_user m)" and "mb_session m \<in> S"
    and "se_id ` set (db_sessions d) \<subseteq> S" and "se_id ` set (db_sessions d') = S" and "db_members d' = db_members d @ [m]"
  shows "members_ok d'"
  using assms by (auto simp: members_ok_def IsSessionMember_iff)

lemma members_ok_step:
  assumes "members_ok d" and "db_guard op"
  shows "members_ok (db_step d op)"
proof (cases op)
  case (OpCreate now s)
  then show ?thesis
  proof (cases "CreateSession now s d")
    case (Inr d')
    then have new: "GetSession_db d (se_id s) = None" by (auto simp: CreateSession_def split: if_splits)
    have "\<not> IsSessionMember d (se_id s) (se_creator s)"
    proof
      assume "IsSessionMember d (se_id s) (se_creator s)"
      then obtain m where "m \<in> set (db_members d)" "mb_session m = se_id s" by (auto simp: IsSessionMember_def list_ex_iff)
      with assms(1) have "se_id s \<in> se_id ` set (db_sessions d)" by (metis members_ok_def)
      with new show False by (simp add: GetSession_None)
    qed
    with OpCreate Inr assms(1) show ?thesis
      by (auto simp: result_defs CreateSession_def members_ok_def IsSessionMember_iff split: if_splits)
  qed (use assms OpCreate in \<open>simp add: result_defs\<close>)
next
  case (OpDelete sid)
  with assms show ?thesis using deleted_id_set [of sid d]
    by (auto simp: members_ok_def distinct_map_filter DeleteSession_db_def)
next
  case (OpAdd now sid u b)
  with assms show ?thesis
    by (auto simp: result_defs AddSessionMember_def GetSession_None IsSessionMember_iff members_ok_def split: sum.splits if_splits)
next
  case (OpRemove sid u)
  with assms show ?thesis by (auto simp: RemoveSessionMember_def members_ok_def distinct_map_filter)
qed (use assms in \<open>auto simp: result_defs RenameSession_def UpdateSessionTitle_def SetSessionAgentMode_def
    AppendForkSummary_def AppendForkReport_def Let_def InsertAgentIfAbsent_def UpdateAgent_def DeleteAgent_def
    SaveMemory_def members_ok_update split: sum.splits prod.splits option.splits\<close>)

lemma MentionName_stored [simp]: "MentionName (stored_agent a) = MentionName a" "a_id (stored_agent a) = a_id a"
  by (simp_all add: stored_agent_def MentionName_def)

text \<open>A name checked by \<open>writeAgent\<close> and by the index calls no other agent.\<close>

lemma name_free:
  assumes "agents_ok d" and "\<not> names_clash a d" and "\<not> mention_indexed a d" and "to_lower (a_id a) = a_id a"
    and "b \<in> ar_agent ` set (db_agents d)" and "to_lower (MentionName a) = to_lower (MentionName b)"
  shows "a_id b = a_id a"
proof (rule ccontr)
  assume ne: "a_id b \<noteq> a_id a"
  with assms(2,5) have "a_mention a \<noteq> [] \<longrightarrow> to_lower (a_id b) \<noteq> to_lower (a_mention a)"
    "a_mention b \<noteq> [] \<longrightarrow> to_lower (a_mention b) \<noteq> to_lower (a_id a)"
    by (auto simp: names_clash_def list_ex_iff Let_def)
  moreover from ne assms(3,5) have "a_mention a \<noteq> [] \<longrightarrow> a_mention b \<noteq> [] \<longrightarrow> to_lower (a_mention b) \<noteq> to_lower (a_mention a)"
    by (auto simp: mention_indexed_def list_ex_iff Let_def)
  moreover from assms(1,5) have "to_lower (a_id b) = a_id b" by (auto simp: agents_ok_def)
  ultimately show False using assms(4,6) ne by (auto simp: MentionName_def split: if_splits)
qed

lemma GetAgent_None: "GetAgent d i = None \<longleftrightarrow> i \<notin> a_id ` ar_agent ` set (db_agents d)"
  by (auto simp: GetAgent_def find_None_iff)

lemma agents_ok_names:
  "agents_ok d \<Longrightarrow> a \<in> ar_agent ` set (db_agents d) \<Longrightarrow> b \<in> ar_agent ` set (db_agents d)
     \<Longrightarrow> to_lower (MentionName a) = to_lower (MentionName b) \<Longrightarrow> a_id a = a_id b"
  unfolding agents_ok_def by blast

lemma agents_ok_ids:
  "agents_ok d \<Longrightarrow> distinct (map (a_id \<circ> ar_agent) (db_agents d))"
  "agents_ok d \<Longrightarrow> r \<in> set (db_agents d) \<Longrightarrow> to_lower (a_id (ar_agent r)) = a_id (ar_agent r)"
  unfolding agents_ok_def by blast+

lemma agents_okI:
  assumes "distinct (map (a_id \<circ> ar_agent) (db_agents d))"
    and "\<And>r. r \<in> set (db_agents d) \<Longrightarrow> to_lower (a_id (ar_agent r)) = a_id (ar_agent r)"
    and "\<And>r r'. r \<in> set (db_agents d) \<Longrightarrow> r' \<in> set (db_agents d)
      \<Longrightarrow> to_lower (MentionName (ar_agent r)) = to_lower (MentionName (ar_agent r')) \<Longrightarrow> a_id (ar_agent r) = a_id (ar_agent r')"
  shows "agents_ok d"
  unfolding agents_ok_def using assms by blast

lemma agents_ok_add:
  assumes ok: "agents_ok d"
    and free: "\<And>b. b \<in> ar_agent ` set (db_agents d) \<Longrightarrow> to_lower (MentionName a) = to_lower (MentionName b) \<Longrightarrow> a_id b = a_id a"
    and "to_lower (a_id a) = a_id a" and "a_id a \<notin> a_id ` ar_agent ` set (db_agents d)"
  shows "agents_ok (d\<lparr>db_agents := db_agents d @ [\<lparr>ar_agent = stored_agent a, ar_revision = v\<rparr>]\<rparr>)"
proof (rule agents_okI)
  let ?d = "d\<lparr>db_agents := db_agents d @ [\<lparr>ar_agent = stored_agent a, ar_revision = v\<rparr>]\<rparr>"
  from agents_ok_ids(1) [OF ok] assms(4) show "distinct (map (a_id \<circ> ar_agent) (db_agents ?d))" by auto
  show "to_lower (a_id (ar_agent r)) = a_id (ar_agent r)" if "r \<in> set (db_agents ?d)" for r
    using that agents_ok_ids(2) [OF ok] assms(3) by auto
  show "a_id (ar_agent r) = a_id (ar_agent r')"
    if "r \<in> set (db_agents ?d)" "r' \<in> set (db_agents ?d)"
      "to_lower (MentionName (ar_agent r)) = to_lower (MentionName (ar_agent r'))" for r r'
  proof -
    have new: "ar_agent x = stored_agent a" if "x \<in> set (db_agents ?d)" "x \<notin> set (db_agents d)" for x using that by auto
    show ?thesis
    proof (cases "r \<in> set (db_agents d)"; cases "r' \<in> set (db_agents d)")
      assume "r \<in> set (db_agents d)" "r' \<in> set (db_agents d)"
      then show ?thesis by (intro agents_ok_names [OF ok _ _ that(3)]) auto
    next
      assume r: "r \<in> set (db_agents d)" and "r' \<notin> set (db_agents d)"
      with new that have n: "ar_agent r' = stored_agent a" by blast
      then show ?thesis using free [of "ar_agent r"] r that(3) by simp
    next
      assume "r \<notin> set (db_agents d)" and r': "r' \<in> set (db_agents d)"
      with new that have n: "ar_agent r = stored_agent a" by blast
      then show ?thesis using free [of "ar_agent r'"] r' that(3) by simp
    next
      assume "r \<notin> set (db_agents d)" "r' \<notin> set (db_agents d)"
      with new that show ?thesis by metis
    qed
  qed
qed

lemma agents_ok_replace:
  assumes ok: "agents_ok d"
    and free: "\<And>b. b \<in> ar_agent ` set (db_agents d) \<Longrightarrow> to_lower (MentionName a) = to_lower (MentionName b) \<Longrightarrow> a_id b = a_id a"
    and f: "\<And>r. f r = (if P r then \<lparr>ar_agent = stored_agent a, ar_revision = g r\<rparr> else r)"
    and P: "\<And>r. P r \<Longrightarrow> a_id (ar_agent r) = a_id a"
  shows "agents_ok (d\<lparr>db_agents := map f (db_agents d)\<rparr>)"
proof (rule agents_okI)
  let ?d = "d\<lparr>db_agents := map f (db_agents d)\<rparr>"
  have ids: "a_id (ar_agent (f r)) = a_id (ar_agent r)" for r by (simp add: f P)
  with agents_ok_ids(1) [OF ok] show "distinct (map (a_id \<circ> ar_agent) (db_agents ?d))" by (simp add: comp_def)
  show "to_lower (a_id (ar_agent r)) = a_id (ar_agent r)" if "r \<in> set (db_agents ?d)" for r
    using that agents_ok_ids(2) [OF ok] ids by auto
  have names: "a_id (ar_agent (f r)) = a_id (ar_agent (f r'))"
    if "r \<in> set (db_agents d)" "r' \<in> set (db_agents d)"
      "to_lower (MentionName (ar_agent (f r))) = to_lower (MentionName (ar_agent (f r')))" for r r'
  proof (cases "P r"; cases "P r'")
    assume "\<not> P r" "\<not> P r'"
    with that show ?thesis unfolding f by (simp) (intro agents_ok_names [OF ok]; simp)
  next
    assume p: "\<not> P r" "P r'"
    then have "a_id (ar_agent r) = a_id a" using that free [of "ar_agent r"] by (simp add: f)
    with p show ?thesis by (simp add: f)
  next
    assume p: "P r" "\<not> P r'"
    then have "a_id (ar_agent r') = a_id a" using that free [of "ar_agent r'"] by (simp add: f)
    with p show ?thesis by (simp add: f)
  qed (simp add: f)
  show "a_id (ar_agent r) = a_id (ar_agent r')"
    if "r \<in> set (db_agents ?d)" "r' \<in> set (db_agents ?d)"
      "to_lower (MentionName (ar_agent r)) = to_lower (MentionName (ar_agent r'))" for r r'
    using that names by auto
qed

lemma agents_ok_step:
  assumes "agents_ok d" and "db_guard op"
  shows "agents_ok (db_step d op)"
proof (cases op)
  case (OpInsertAgent a)
  show ?thesis
  proof (cases "names_clash a d \<or> GetAgent d (a_id a) \<noteq> None \<or> mention_indexed a d")
    case True
    with OpInsertAgent assms show ?thesis by (auto simp: result_defs InsertAgentIfAbsent_def)
  next
    case False
    then have "db_step d op = d\<lparr>db_agents := db_agents d @ [\<lparr>ar_agent = stored_agent a, ar_revision = 1\<rparr>]\<rparr>"
      using OpInsertAgent by (simp add: result_defs InsertAgentIfAbsent_def)
    moreover have "a_id b = a_id a" if "b \<in> ar_agent ` set (db_agents d)" "to_lower (MentionName a) = to_lower (MentionName b)" for b
      using name_free [OF assms(1) _ _ _ that] False OpInsertAgent assms(2) by simp
    moreover have "to_lower (a_id a) = a_id a" "a_id a \<notin> a_id ` ar_agent ` set (db_agents d)"
      using False OpInsertAgent assms(2) by (simp_all add: GetAgent_None)
    ultimately show ?thesis using agents_ok_add [OF assms(1), of a 1] by metis
  qed
next
  case (OpUpdateAgent a n)
  show ?thesis
  proof (cases "names_clash a d \<or> mention_indexed a d
      \<or> \<not> list_ex (\<lambda>r. a_id (ar_agent r) = a_id a \<and> ar_revision r = n) (db_agents d)")
    case True
    with OpUpdateAgent assms show ?thesis by (auto simp: result_defs UpdateAgent_def)
  next
    case False
    let ?f = "\<lambda>r. if a_id (ar_agent r) = a_id a \<and> ar_revision r = n
        then \<lparr>ar_agent = stored_agent a, ar_revision = ar_revision r + 1\<rparr> else r"
    have free: "a_id b = a_id a" if "b \<in> ar_agent ` set (db_agents d)" "to_lower (MentionName a) = to_lower (MentionName b)" for b
      using name_free [OF assms(1) _ _ _ that] False OpUpdateAgent assms(2) by simp
    from agents_ok_replace [OF assms(1) free, of ?f "\<lambda>r. a_id (ar_agent r) = a_id a \<and> ar_revision r = n" "\<lambda>r. ar_revision r + 1"]
    have "agents_ok (d\<lparr>db_agents := map ?f (db_agents d)\<rparr>)" by blast
    with False OpUpdateAgent show ?thesis by (simp add: result_defs UpdateAgent_def)
  qed
next
  case (OpDeleteAgent i)
  have "agents_ok (d\<lparr>db_agents := filter (\<lambda>r. a_id (ar_agent r) \<noteq> i) (db_agents d)\<rparr>)"
  proof (rule agents_okI)
    fix r r'
    assume "r \<in> set (db_agents (d\<lparr>db_agents := filter (\<lambda>r. a_id (ar_agent r) \<noteq> i) (db_agents d)\<rparr>))"
      "r' \<in> set (db_agents (d\<lparr>db_agents := filter (\<lambda>r. a_id (ar_agent r) \<noteq> i) (db_agents d)\<rparr>))"
      and e: "to_lower (MentionName (ar_agent r)) = to_lower (MentionName (ar_agent r'))"
    then have "r \<in> set (db_agents d)" "r' \<in> set (db_agents d)" by simp_all
    with e show "a_id (ar_agent r) = a_id (ar_agent r')" by (intro agents_ok_names [OF assms(1)]) simp_all
  qed (use agents_ok_ids [OF assms(1)] in \<open>simp_all add: distinct_map_filter\<close>)
  with assms(1) OpDeleteAgent show ?thesis by (simp add: result_defs DeleteAgent_def)
qed (use assms in \<open>auto simp: result_defs CreateSession_def DeleteSession_db_def RenameSession_def UpdateSessionTitle_def
    SetSessionAgentMode_def AddSessionMember_def RemoveSessionMember_def AppendForkSummary_def AppendForkReport_def Let_def
    SaveMemory_def split: sum.splits prod.splits option.splits\<close>)

subsection \<open>The reports of a fork\<close>

definition report_row :: "string \<Rightarrow> int \<Rightarrow> int \<Rightarrow> msg_row \<Rightarrow> bool" where
  "report_row f a b r \<longleftrightarrow> r_key r = ForkReportKey f a b"

lemma split_unique: "c \<notin> set xs \<Longrightarrow> c \<notin> set xs' \<Longrightarrow> xs @ c # ys = xs' @ c # ys' \<longleftrightarrow> xs = xs' \<and> ys = ys'"
proof (induction xs arbitrary: xs')
  case Nil
  then show ?case by (cases xs') auto
next
  case (Cons x xs)
  then show ?case by (cases xs') auto
qed

lemma minus_dec_int: "0 \<le> a \<Longrightarrow> CHR ''-'' \<notin> set (dec_int a)"
  by (simp add: dec_int_nonneg not_digit_dec_nat is_digit_def)

text \<open>A report's key tells the fork and the messages it covers.\<close>

lemma ForkReportKey_inject:
  assumes "names_session f" and "names_session f'" and "0 \<le> a" and "0 \<le> a'"
  shows "ForkReportKey f a b = ForkReportKey f' a' b' \<longleftrightarrow> f = f' \<and> a = a' \<and> b = b'"
proof -
  have "f @ CHR '':'' # (dec_int a @ CHR ''-'' # dec_int b) = f' @ CHR '':'' # (dec_int a' @ CHR ''-'' # dec_int b')
    \<longleftrightarrow> f = f' \<and> a = a' \<and> b = b'"
    using assms by (simp add: split_unique minus_dec_int names_session_def)
  then show ?thesis by (simp add: ForkReportKey_def)
qed

definition reports_ok :: "database \<Rightarrow> string list \<Rightarrow> bool" where
  "reports_ok d used \<longleftrightarrow> table_ok (db_msgs d) \<and> se_id ` set (db_sessions d) \<subseteq> set used
     \<and> (\<forall>r \<in> set (rows (db_msgs d)). has_prefix ''report:'' (r_key r) \<longrightarrow>
          (\<exists>f a b. report_row f a b r \<and> names_session f \<and> f \<in> set used \<and> 0 \<le> a \<and> a < b))
     \<and> (\<forall>s \<in> set (db_sessions d). 0 \<le> se_reported s)"

text \<open>No report goes past the last reported message, and two reports of one fork cover different messages.\<close>

definition within :: "database \<Rightarrow> bool" where
  "within d \<longleftrightarrow> (\<forall>s \<in> set (db_sessions d). \<forall>r \<in> set (rows (db_msgs d)). \<forall>a b.
     0 \<le> a \<longrightarrow> report_row (se_id s) a b r \<longrightarrow> b \<le> se_reported s)"

definition apart :: "database \<Rightarrow> bool" where
  "apart d \<longleftrightarrow> (\<forall>f a b a' b'. \<forall>r \<in> set (rows (db_msgs d)). \<forall>r' \<in> set (rows (db_msgs d)).
     names_session f \<longrightarrow> 0 \<le> a \<longrightarrow> 0 \<le> a' \<longrightarrow> report_row f a b r \<longrightarrow> report_row f a' b' r' \<longrightarrow> r \<noteq> r' \<longrightarrow> b \<le> a' \<or> b' \<le> a)"

text \<open>Every message up to the last reported one is covered by a report in the parent, while there is one.\<close>

definition covered :: "database \<Rightarrow> bool" where
  "covered d \<longleftrightarrow> (\<forall>s \<in> set (db_sessions d). se_parent s \<noteq> [] \<longrightarrow> (\<forall>m. 0 < m \<longrightarrow> m \<le> se_reported s \<longrightarrow>
     (\<exists>r \<in> set (rows (db_msgs d)). r_session r = se_parent s \<and> (\<exists>a b. report_row (se_id s) a b r \<and> 0 \<le> a \<and> a < m \<and> m \<le> b))))"

lemma prefix_ForkReportKey [simp]: "has_prefix ''report:'' (ForkReportKey f a b)"
  by (simp add: ForkReportKey_def has_prefix_def)

text \<open>An operation that leaves the reports as they are: no report is added, those of the sessions left stay with their parent.\<close>

definition keeps_reports :: "database \<Rightarrow> database \<Rightarrow> bool" where
  "keeps_reports d d' \<longleftrightarrow>
     {r \<in> set (rows (db_msgs d')). has_prefix ''report:'' (r_key r)} \<subseteq> set (rows (db_msgs d))
     \<and> (\<forall>s' \<in> set (db_sessions d'). \<exists>s \<in> set (db_sessions d). se_id s' = se_id s \<and> se_reported s' = se_reported s
          \<and> (se_parent s' = [] \<or> se_parent s' = se_parent s
               \<and> (\<forall>r \<in> set (rows (db_msgs d)). r_session r = se_parent s \<longrightarrow> has_prefix ''report:'' (r_key r) \<longrightarrow> r \<in> set (rows (db_msgs d')))))"

lemma keeps_within: "keeps_reports d d' \<Longrightarrow> within d \<Longrightarrow> within d'"
  unfolding keeps_reports_def within_def report_row_def
proof (intro ballI allI impI, elim conjE)
  fix s' r a b
  assume sub: "{r \<in> set (rows (db_msgs d')). has_prefix ''report:'' (r_key r)} \<subseteq> set (rows (db_msgs d))"
    and k: "\<forall>s' \<in> set (db_sessions d'). \<exists>s \<in> set (db_sessions d). se_id s' = se_id s \<and> se_reported s' = se_reported s
          \<and> (se_parent s' = [] \<or> se_parent s' = se_parent s
               \<and> (\<forall>r \<in> set (rows (db_msgs d)). r_session r = se_parent s \<longrightarrow> has_prefix ''report:'' (r_key r) \<longrightarrow> r \<in> set (rows (db_msgs d'))))"
    and w: "\<forall>s \<in> set (db_sessions d). \<forall>r \<in> set (rows (db_msgs d)). \<forall>a b.
      0 \<le> a \<longrightarrow> r_key r = ForkReportKey (se_id s) a b \<longrightarrow> b \<le> se_reported s"
    and s': "s' \<in> set (db_sessions d')" and r: "r \<in> set (rows (db_msgs d'))" "0 \<le> a" "r_key r = ForkReportKey (se_id s') a b"
  from sub r have "r \<in> set (rows (db_msgs d))" by auto
  moreover from k s' obtain s where "s \<in> set (db_sessions d)" "se_id s' = se_id s" "se_reported s' = se_reported s" by blast
  ultimately show "b \<le> se_reported s'" using w r by metis
qed

lemma keeps_apart: "keeps_reports d d' \<Longrightarrow> apart d \<Longrightarrow> apart d'"
proof -
  assume k: "keeps_reports d d'" and a: "apart d"
  have "r \<in> set (rows (db_msgs d))" if "r \<in> set (rows (db_msgs d'))" "report_row f x y r" for r f x y
    using that k by (auto simp: keeps_reports_def report_row_def)
  with a show "apart d'" unfolding apart_def by blast
qed

lemma keeps_covered: "keeps_reports d d' \<Longrightarrow> covered d \<Longrightarrow> covered d'"
proof -
  assume k: "keeps_reports d d'" and c: "covered d"
  have "\<exists>r \<in> set (rows (db_msgs d')). r_session r = se_parent s' \<and> (\<exists>a b. report_row (se_id s') a b r \<and> 0 \<le> a \<and> a < m \<and> m \<le> b)"
    if s': "s' \<in> set (db_sessions d')" "se_parent s' \<noteq> []" and m: "0 < m" "m \<le> se_reported s'" for s' m
  proof -
    from k s' obtain s where s: "s \<in> set (db_sessions d)" "se_id s' = se_id s" "se_reported s' = se_reported s" "se_parent s' = se_parent s"
      and keep: "\<And>r. r \<in> set (rows (db_msgs d)) \<Longrightarrow> r_session r = se_parent s \<Longrightarrow> has_prefix ''report:'' (r_key r) \<Longrightarrow> r \<in> set (rows (db_msgs d'))"
      unfolding keeps_reports_def by blast
    from c s m s'(2) obtain r a b where "r \<in> set (rows (db_msgs d))" "r_session r = se_parent s" "report_row (se_id s) a b r" "0 \<le> a" "a < m" "m \<le> b"
      unfolding covered_def by metis
    moreover from this keep have "r \<in> set (rows (db_msgs d'))" by (simp add: report_row_def)
    ultimately show ?thesis using s by auto
  qed
  then show "covered d'" by (simp add: covered_def)
qed

lemma keeps_reports_ok:
  assumes "keeps_reports d d'" and "table_ok (db_msgs d')" and "reports_ok d used"
  shows "reports_ok d' used"
proof -
  have "\<exists>f a b. report_row f a b r \<and> names_session f \<and> f \<in> set used \<and> 0 \<le> a \<and> a < b"
    if "r \<in> set (rows (db_msgs d'))" "has_prefix ''report:'' (r_key r)" for r
    using that assms(1,3) unfolding keeps_reports_def reports_ok_def by blast
  moreover have "se_id s \<in> set used \<and> 0 \<le> se_reported s" if s': "s \<in> set (db_sessions d')" for s
  proof -
    from assms(1) s' obtain x where "x \<in> set (db_sessions d)" "se_id s = se_id x" "se_reported s = se_reported x"
      unfolding keeps_reports_def by blast
    with assms(3) show ?thesis by (auto simp: reports_ok_def)
  qed
  ultimately show ?thesis using assms(2) unfolding reports_ok_def by blast
qed

definition db_inv :: "database \<Rightarrow> string list \<Rightarrow> bool" where
  "db_inv d used \<longleftrightarrow> sessions_ok d \<and> members_ok d \<and> agents_ok d \<and> reports_ok d used \<and> within d \<and> apart d \<and> covered d"

definition same_reports :: "database \<Rightarrow> database \<Rightarrow> bool" where
  "same_reports d d' \<longleftrightarrow> rows (db_msgs d') = rows (db_msgs d)
     \<and> (\<forall>s' \<in> set (db_sessions d'). \<exists>s \<in> set (db_sessions d). se_id s' = se_id s \<and> se_reported s' = se_reported s \<and> se_parent s' = se_parent s)"

lemma same_keeps: "same_reports d d' \<Longrightarrow> keeps_reports d d'"
  by (fastforce simp: same_reports_def keeps_reports_def)

lemma same_reports_update:
  assumes "\<And>s. se_id (f s) = se_id s" "\<And>s. se_reported (f s) = se_reported s" "\<And>s. se_parent (f s) = se_parent s"
  shows "same_reports d (update_session sid f d)"
  by (auto simp: same_reports_def update_session_def assms)

lemma same_reports_refl [simp]: "same_reports d d"
  by (auto simp: same_reports_def)

lemma same_reports_other [simp]:
  "same_reports d (d\<lparr>db_members := x\<rparr>)" "same_reports d (d\<lparr>db_agents := y\<rparr>)" "same_reports d (d\<lparr>db_memory := m\<rparr>)"
  by (auto simp: same_reports_def)

lemma rows_insert:
  "set (rows (insert_row T sid key m)) =
     (if find_row T (sid, key) = None then insert \<lparr>r_session = sid, r_id = next_id T, r_key = key, r_data = m\<rparr> (set (rows T)) else set (rows T))"
  by (auto simp: insert_row_def split: option.split)

lemma keeps_insert: "\<not> has_prefix ''report:'' key \<Longrightarrow> keeps_reports d (d\<lparr>db_msgs := insert_row (db_msgs d) sid key m\<rparr>)"
  by (auto simp: keeps_reports_def rows_insert)

lemma keeps_summary: "Inr x = AppendForkSummary sid m d \<Longrightarrow> keeps_reports d (fst x) \<and> db_msgs (fst x) = insert_row (db_msgs d) sid ForkSummaryKey m"
  by (auto simp: AppendForkSummary_def AppendMessage_def keeps_reports_def rows_insert update_session_def
      ForkSummaryKey_def has_prefix_def split: option.splits)

lemma keeps_delete: "keeps_reports d (DeleteSession_db sid d)"
  by (auto simp: keeps_reports_def DeleteSession_db_def DeleteMessagesBySession_def)

lemma keeps_delete_message:
  assumes "sessions_ok d" and "CHR '':'' \<in> set sid"
  shows "keeps_reports d (d\<lparr>db_msgs := DeleteMessage (db_msgs d) sid mid\<rparr>)"
proof -
  have "se_parent s = [] \<or> se_parent s \<noteq> sid" if s: "s \<in> set (db_sessions d)" for s
  proof (cases "se_parent s = []")
    case False
    with assms(1) s have "se_parent s \<in> se_id ` set (db_sessions d)" by (metis sessions_ok_def)
    with assms(1) have "names_session (se_parent s)" by (auto simp: sessions_ok_def)
    with assms(2) show ?thesis by (auto simp: names_session_def)
  qed simp
  then show ?thesis by (fastforce simp: keeps_reports_def DeleteMessage_def)
qed

lemma table_ok_delete [intro]:
  "table_ok T \<Longrightarrow> table_ok (DeleteMessage T sid mid)" "table_ok T \<Longrightarrow> table_ok (DeleteMessagesBySession T sid)"
  by (simp_all add: DeleteMessage_def DeleteMessagesBySession_def table_ok_filter)

text \<open>The operations that touch neither a message nor a session's reports.\<close>

fun quiet_op :: "db_op \<Rightarrow> bool" where
  "quiet_op (OpCreate _ _) = False"
| "quiet_op (OpReport _ _) = False"
| "quiet_op (OpDelete _) = False"
| "quiet_op (OpMessage _ _ _) = False"
| "quiet_op (OpDeleteMessage _ _) = False"
| "quiet_op (OpSummary _ _) = False"
| "quiet_op _ = True"

lemma same_step: "quiet_op op \<Longrightarrow> same_reports d (db_step d op) \<and> db_msgs (db_step d op) = db_msgs d"
  by (cases op) (auto simp: result_defs RenameSession_def UpdateSessionTitle_def SetSessionAgentMode_def
      AddSessionMember_def RemoveSessionMember_def InsertAgentIfAbsent_def UpdateAgent_def DeleteAgent_def SaveMemory_def Let_def
      split: sum.splits option.splits intro!: same_reports_update)

text \<open>Every operation but the creation of a session and a report.\<close>

lemma keeps_step:
  assumes "sessions_ok d" and "table_ok (db_msgs d)" and "db_guard op"
    and "\<And>now s. op \<noteq> OpCreate now s" and "\<And>now r. op \<noteq> OpReport now r"
  shows "keeps_reports d (db_step d op) \<and> table_ok (db_msgs (db_step d op))"
proof -
  have same: ?thesis if "quiet_op op"
    using same_step [OF that] assms(2) same_keeps by simp
  show ?thesis
  proof (cases op)
    case (OpDelete sid)
    with assms show ?thesis using keeps_delete by (auto simp: DeleteSession_db_def)
  next
    case (OpMessage sid key m)
    with assms show ?thesis using keeps_insert by (auto simp: AppendMessage_def)
  next
    case (OpDeleteMessage sid mid)
    with assms show ?thesis using keeps_delete_message by auto
  next
    case (OpSummary sid m)
    with assms(2) show ?thesis using keeps_summary [of _ sid m d] same_keeps [OF same_reports_refl [of d]]
      by (cases "AppendForkSummary sid m d") (auto simp: result_defs)
  qed (use assms(4,5) same in auto)
qed

lemma reports_ok_more: "reports_ok d used \<Longrightarrow> reports_ok d (i # used)"
  unfolding reports_ok_def by (metis list.set_intros(2) set_subset_Cons subset_trans)

text \<open>A session created: no report is its own, for its ID is new.\<close>

lemma db_inv_create:
  assumes "db_inv d used" and "names_session (se_id s)" and "se_id s \<notin> set used"
  shows "reports_ok (db_step d (OpCreate now s)) (se_id s # used) \<and> within (db_step d (OpCreate now s))
    \<and> apart (db_step d (OpCreate now s)) \<and> covered (db_step d (OpCreate now s))"
proof (cases "CreateSession now s d")
  case (Inl e)
  with assms show ?thesis by (auto simp: db_inv_def result_defs intro: reports_ok_more)
next
  case (Inr d')
  then obtain s' where d': "db_msgs d' = db_msgs d" "set (db_sessions d') = insert s' (set (db_sessions d))"
    and s': "se_id s' = se_id s" "se_reported s' = 0" by (auto simp: CreateSession_def split: if_splits)
  have none: "\<not> report_row (se_id s) a b r" if r: "r \<in> set (rows (db_msgs d))" and "0 \<le> a" for r a b
  proof
    assume rr: "report_row (se_id s) a b r"
    then have "has_prefix ''report:'' (r_key r)" by (simp add: report_row_def)
    with assms(1) r obtain f x y where "report_row f x y r" "names_session f" "f \<in> set used" "0 \<le> x"
      unfolding db_inv_def reports_ok_def by blast
    with rr assms(2,3) \<open>0 \<le> a\<close> show False by (auto simp: report_row_def ForkReportKey_inject)
  qed
  have "within d'" using assms(1) d' s' none by (auto simp: db_inv_def within_def)
  moreover have "apart d'" using assms(1) d' by (simp add: db_inv_def apart_def)
  moreover have "covered d'" using assms(1) d' s' by (auto simp: db_inv_def covered_def)
  moreover have "reports_ok d' (se_id s # used)"
    using reports_ok_more [of d used "se_id s"] assms(1) d' s' by (simp add: db_inv_def reports_ok_def)
  ultimately show ?thesis using Inr by (simp add: result_defs)
qed

text \<open>A report posted: it starts where the last one stopped.\<close>

lemma AppendForkReport_cases:
  assumes "AppendForkReport now r d = Inr (d', mid)"
  obtains "d' = d"
  | f where "GetSession_db d (rp_fork r) = Some f" "se_parent f = rp_parent r" "se_reported f = rp_from r"
    "find_row (db_msgs d) (rp_parent r, ForkReportKey (rp_fork r) (rp_from r) (rp_upto r)) = None"
    "db_msgs d' = insert_row (db_msgs d) (rp_parent r) (ForkReportKey (rp_fork r) (rp_from r) (rp_upto r)) (rp_message r)"
    "db_sessions d' = map (\<lambda>s. if se_id s = rp_fork r
       then s\<lparr>se_reported := rp_upto r, se_report_id := mid, se_reported_at := Some now\<rparr> else s) (db_sessions d)"
  using assms by (auto simp: AppendForkReport_def Let_def AppendMessage_def update_session_def split: option.splits if_splits)

lemma report_posted:
  assumes "db_inv d used" and "0 \<le> rp_from r" and "AppendForkReport now r d = Inr (d', mid)" and "d' \<noteq> d"
  obtains f new where "f \<in> set (db_sessions d)" and "se_id f = rp_fork r" and "se_parent f = rp_parent r"
    and "names_session (rp_fork r)"
    and "set (rows (db_msgs d')) = insert new (set (rows (db_msgs d)))" and "r_session new = rp_parent r"
    and "r_key new = ForkReportKey (rp_fork r) (rp_from r) (rp_upto r)" and "table_ok (db_msgs d')"
    and "\<And>g a b. names_session g \<Longrightarrow> 0 \<le> a \<Longrightarrow> report_row g a b new \<longleftrightarrow> g = rp_fork r \<and> a = rp_from r \<and> b = rp_upto r"
    and "\<And>row a b. row \<in> set (rows (db_msgs d)) \<Longrightarrow> report_row (rp_fork r) a b row \<Longrightarrow> 0 \<le> a \<Longrightarrow> b \<le> rp_from r"
    and "\<And>s'. s' \<in> set (db_sessions d') \<Longrightarrow> \<exists>s \<in> set (db_sessions d). se_id s' = se_id s \<and> se_parent s' = se_parent s
          \<and> se_reported s' = (if se_id s = rp_fork r then rp_upto r else se_reported s) \<and> names_session (se_id s)
          \<and> (se_id s = rp_fork r \<longrightarrow> s = f \<and> se_reported s = rp_from r)"
  using assms(3)
proof (cases rule: AppendForkReport_cases)
  case 1
  with assms(4) show ?thesis by simp
next
  case (2 f)
  let ?K = "ForkReportKey (rp_fork r) (rp_from r) (rp_upto r)"
  let ?new = "\<lparr>r_session = rp_parent r, r_id = next_id (db_msgs d), r_key = ?K, r_data = rp_message r\<rparr>"
  note inv = assms(1) [unfolded db_inv_def]
  from GetSession_db_Some [OF 2(1)] have f: "f \<in> set (db_sessions d)" "se_id f = rp_fork r" by auto
  have names: "names_session (se_id s)" if "s \<in> set (db_sessions d)" for s using inv that by (simp add: sessions_ok_def)
  have fork: "names_session (rp_fork r)" using names f by metis
  have only: "s = f" if "s \<in> set (db_sessions d)" "se_id s = rp_fork r" for s
    using inv f that GetSession_in by (metis option.inject)
  show ?thesis
  proof (rule that [OF f 2(2) fork])
    show "set (rows (db_msgs d')) = insert ?new (set (rows (db_msgs d)))" using 2(4,5) by (simp add: rows_insert)
    show "table_ok (db_msgs d')" using inv 2(5) by (auto simp: reports_ok_def)
    show "report_row g a b ?new \<longleftrightarrow> g = rp_fork r \<and> a = rp_from r \<and> b = rp_upto r" if "names_session g" "0 \<le> a" for g a b
      using ForkReportKey_inject [OF fork that(1) assms(2) that(2)] by (auto simp: report_row_def)
    show "b \<le> rp_from r" if "row \<in> set (rows (db_msgs d))" "report_row (rp_fork r) a b row" "0 \<le> a" for row a b
      using inv that f 2(3) unfolding within_def by metis
    show "\<exists>s \<in> set (db_sessions d). se_id s' = se_id s \<and> se_parent s' = se_parent s
        \<and> se_reported s' = (if se_id s = rp_fork r then rp_upto r else se_reported s) \<and> names_session (se_id s)
        \<and> (se_id s = rp_fork r \<longrightarrow> s = f \<and> se_reported s = rp_from r)" if s': "s' \<in> set (db_sessions d')" for s'
      using s' only names 2(3,6) by (auto split: if_splits)
  qed simp_all
qed

lemma apart_add:
  assumes "apart d" and R: "set (rows (db_msgs d')) = insert new (set (rows (db_msgs d)))"
    and row: "\<And>g a b. names_session g \<Longrightarrow> 0 \<le> a \<Longrightarrow> report_row g a b new \<longleftrightarrow> g = fork \<and> a = lo \<and> b = hi"
    and old: "\<And>x a b. x \<in> set (rows (db_msgs d)) \<Longrightarrow> report_row fork a b x \<Longrightarrow> 0 \<le> a \<Longrightarrow> b \<le> lo"
  shows "apart d'"
  unfolding apart_def
proof (intro ballI allI impI)
  fix f a b a' b' r r'
  assume r: "r \<in> set (rows (db_msgs d'))" "r' \<in> set (rows (db_msgs d'))" "r \<noteq> r'"
    and f: "names_session f" "0 \<le> a" "0 \<le> a'" and k: "report_row f a b r" "report_row f a' b' r'"
  consider "r \<in> set (rows (db_msgs d))" "r' \<in> set (rows (db_msgs d))" | "r = new" "r' \<in> set (rows (db_msgs d))"
    | "r' = new" "r \<in> set (rows (db_msgs d))" using r R by auto
  then show "b \<le> a' \<or> b' \<le> a"
  proof cases
    case 1
    with assms(1) f k r(3) show ?thesis unfolding apart_def by blast
  next
    case 2
    with row [OF f(1,2), of b] k have "f = fork" "a = lo" by auto
    with old [OF 2(2), of a' b'] k f show ?thesis by simp
  next
    case 3
    with row [OF f(1,3), of b'] k have "f = fork" "a' = lo" by auto
    with old [OF 3(2), of a b] k f show ?thesis by simp
  qed
qed

lemma within_add:
  assumes w: "within d" and R: "set (rows (db_msgs d')) = insert new (set (rows (db_msgs d)))"
    and row: "\<And>g a b. names_session g \<Longrightarrow> 0 \<le> a \<Longrightarrow> report_row g a b new \<longleftrightarrow> g = fork \<and> a = lo \<and> b = hi"
    and old: "\<And>x a b. x \<in> set (rows (db_msgs d)) \<Longrightarrow> report_row fork a b x \<Longrightarrow> 0 \<le> a \<Longrightarrow> b \<le> lo" and "lo < hi"
    and S: "\<And>s'. s' \<in> set (db_sessions d') \<Longrightarrow> \<exists>s \<in> set (db_sessions d). se_id s' = se_id s
          \<and> se_reported s' = (if se_id s = fork then hi else se_reported s) \<and> names_session (se_id s)"
  shows "within d'"
  unfolding within_def
proof (intro ballI allI impI)
  fix s' r a b
  assume s': "s' \<in> set (db_sessions d')" and r: "r \<in> set (rows (db_msgs d'))" and k: "0 \<le> a" "report_row (se_id s') a b r"
  from S [OF s'] obtain s where s: "s \<in> set (db_sessions d)" "se_id s' = se_id s"
    "se_reported s' = (if se_id s = fork then hi else se_reported s)" "names_session (se_id s)" by blast
  show "b \<le> se_reported s'"
  proof (cases "r = new")
    case True
    with row [OF s(4) k(1), of b] k s show ?thesis by simp
  next
    case False
    with r R have x: "r \<in> set (rows (db_msgs d))" by simp
    with w s k have "se_id s \<noteq> fork \<Longrightarrow> b \<le> se_reported s" unfolding within_def by metis
    with old [OF x, of a b] s k \<open>lo < hi\<close> show ?thesis by (cases "se_id s = fork") auto
  qed
qed

lemma db_inv_report:
  assumes "db_inv d used" and "0 \<le> rp_from r" and "rp_from r < rp_upto r" and "AppendForkReport now r d = Inr (d', mid)"
  shows "reports_ok d' used \<and> within d' \<and> apart d' \<and> covered d'"
proof (cases "d' = d")
  case True
  with assms(1) show ?thesis by (simp add: db_inv_def)
next
  case False
  note inv = assms(1) [unfolded db_inv_def]
  from assms(1,2,4) False obtain f new where f: "f \<in> set (db_sessions d)" "se_id f = rp_fork r" "se_parent f = rp_parent r"
    and fork: "names_session (rp_fork r)"
    and R: "set (rows (db_msgs d')) = insert new (set (rows (db_msgs d)))" and new: "r_session new = rp_parent r"
    and key: "r_key new = ForkReportKey (rp_fork r) (rp_from r) (rp_upto r)" and T: "table_ok (db_msgs d')"
    and row: "\<And>g a b. names_session g \<Longrightarrow> 0 \<le> a \<Longrightarrow> report_row g a b new \<longleftrightarrow> g = rp_fork r \<and> a = rp_from r \<and> b = rp_upto r"
    and old: "\<And>row a b. row \<in> set (rows (db_msgs d)) \<Longrightarrow> report_row (rp_fork r) a b row \<Longrightarrow> 0 \<le> a \<Longrightarrow> b \<le> rp_from r"
    and S: "\<And>s'. s' \<in> set (db_sessions d') \<Longrightarrow> \<exists>s \<in> set (db_sessions d). se_id s' = se_id s \<and> se_parent s' = se_parent s
          \<and> se_reported s' = (if se_id s = rp_fork r then rp_upto r else se_reported s) \<and> names_session (se_id s)
          \<and> (se_id s = rp_fork r \<longrightarrow> s = f \<and> se_reported s = rp_from r)"
    by (rule report_posted) blast
  have "within d'"
  proof (rule within_add [OF _ R row old assms(3)])
    show "within d" using inv by simp
    fix s' assume "s' \<in> set (db_sessions d')"
    from S [OF this] show "\<exists>s \<in> set (db_sessions d). se_id s' = se_id s
        \<and> se_reported s' = (if se_id s = rp_fork r then rp_upto r else se_reported s) \<and> names_session (se_id s)" by blast
  qed
  moreover have "apart d'"
  proof (rule apart_add [OF _ R])
    show "apart d" using inv by simp
  qed (fact row, fact old)
  moreover have "\<exists>x \<in> set (rows (db_msgs d')). r_session x = se_parent s' \<and> (\<exists>a b. report_row (se_id s') a b x \<and> 0 \<le> a \<and> a < m \<and> m \<le> b)"
    if s': "s' \<in> set (db_sessions d')" "se_parent s' \<noteq> []" "0 < m" "m \<le> se_reported s'" for s' m
  proof -
    from S [OF s'(1)] obtain s where s: "s \<in> set (db_sessions d)" "se_id s' = se_id s" "se_parent s' = se_parent s"
      "se_reported s' = (if se_id s = rp_fork r then rp_upto r else se_reported s)"
      "se_id s = rp_fork r \<longrightarrow> s = f \<and> se_reported s = rp_from r" by blast
    show ?thesis
    proof (cases "m \<le> se_reported s")
      case True
      with inv s s' obtain x a b where "x \<in> set (rows (db_msgs d))" "r_session x = se_parent s" "report_row (se_id s) a b x" "0 \<le> a" "a < m" "m \<le> b"
        unfolding covered_def by metis
      then show ?thesis using s R by auto
    next
      case False
      with s s' have "se_id s = rp_fork r" "rp_from r < m" "m \<le> rp_upto r" "se_parent s = rp_parent r" using f by (auto split: if_splits)
      moreover have "report_row (rp_fork r) (rp_from r) (rp_upto r) new" using row fork assms(2) by simp
      ultimately show ?thesis using s R new assms(2) by (intro bexI [of _ new]) auto
    qed
  qed
  moreover have "reports_ok d' used"
  proof -
    have ids: "se_id s' \<in> set used \<and> 0 \<le> se_reported s'" if "s' \<in> set (db_sessions d')" for s'
      using S [OF that] inv assms(2,3) unfolding reports_ok_def by (auto split: if_splits)
    have "rp_fork r \<in> set used" using f inv unfolding reports_ok_def by (metis image_eqI subsetD)
    then have "\<exists>g a b. report_row g a b new \<and> names_session g \<and> g \<in> set used \<and> 0 \<le> a \<and> a < b"
      using fork assms(2,3) row [OF fork assms(2), of "rp_upto r"] by blast
    moreover have "\<exists>g a b. report_row g a b x \<and> names_session g \<and> g \<in> set used \<and> 0 \<le> a \<and> a < b"
      if "x \<in> set (rows (db_msgs d))" "has_prefix ''report:'' (r_key x)" for x
      using inv that unfolding reports_ok_def by blast
    ultimately have "\<forall>x \<in> set (rows (db_msgs d')). has_prefix ''report:'' (r_key x) \<longrightarrow>
        (\<exists>g a b. report_row g a b x \<and> names_session g \<and> g \<in> set used \<and> 0 \<le> a \<and> a < b)" unfolding R by blast
    with T ids show ?thesis unfolding reports_ok_def by blast
  qed
  ultimately show ?thesis by (simp add: covered_def)
qed

text \<open>The invariant holds in every state the store reaches.\<close>

lemma db_inv_step:
  assumes "db_inv d used" and "db_guard op" and "set (new_ids op) \<inter> set used = {}"
  shows "db_inv (db_step d op) (new_ids op @ used)"
proof -
  note inv = assms(1) [unfolded db_inv_def]
  have "reports_ok (db_step d op) (new_ids op @ used) \<and> within (db_step d op) \<and> apart (db_step d op) \<and> covered (db_step d op)"
  proof (cases "(\<exists>now s. op = OpCreate now s) \<or> (\<exists>now r. op = OpReport now r)")
    case False
    then have k: "keeps_reports d (db_step d op)" "table_ok (db_msgs (db_step d op))"
      using keeps_step [of d op] inv assms(2) by (auto simp: reports_ok_def)
    from False have "new_ids op = []" by (cases op) auto
    with k inv show ?thesis using keeps_reports_ok [OF k] keeps_within [OF k(1)] keeps_apart [OF k(1)] keeps_covered [OF k(1)] by simp
  next
    case True
    then show ?thesis
    proof (elim disjE exE)
      fix now s assume "op = OpCreate now s"
      with db_inv_create [OF assms(1), of s now] assms(2,3) show ?thesis by simp
    next
      fix now r assume op: "op = OpReport now r"
      show ?thesis
      proof (cases "AppendForkReport now r d")
        case (Inl e)
        with op inv show ?thesis by (simp add: result_defs)
      next
        case (Inr x)
        with op db_inv_report [OF assms(1), of r now "fst x" "snd x"] assms(2) show ?thesis by (simp add: result_defs)
      qed
    qed
  qed
  with inv assms(2) show ?thesis
    by (simp add: db_inv_def sessions_ok_step members_ok_step agents_ok_step)
qed

lemma db_inv_empty: "db_inv empty_db []"
  by (simp add: db_inv_def empty_db_def sessions_ok_def members_ok_def agents_ok_def reports_ok_def within_def apart_def covered_def
      table_ok_empty) (simp add: empty_table_def)

lemma reached_db_inv: "reached_db d used \<Longrightarrow> db_inv d used"
  by (induction rule: reached_db.induct) (auto intro: db_inv_empty db_inv_step)

text \<open>Runs of operations as lists.\<close>

fun run_ok :: "string list \<Rightarrow> db_op list \<Rightarrow> bool" where
  "run_ok used [] = True"
| "run_ok used (op # ops) = (db_guard op \<and> list_all (\<lambda>i. i \<notin> set used) (new_ids op) \<and> run_ok (new_ids op @ used) ops)"

lemma run_reached: "reached_db d used \<Longrightarrow> run_ok used ops \<Longrightarrow> \<exists>used'. reached_db (foldl db_step d ops) used'"
proof (induction ops arbitrary: d used)
  case (Cons op ops)
  then have "reached_db (db_step d op) (new_ids op @ used)" by (intro reached_db.step) (auto simp: list_all_iff)
  with Cons show ?case by simp
qed auto

text \<open>A parent, a fork of it, two reports, the second one posted twice and one come too late; two agents, a third refused.\<close>

definition ex_session :: "string \<Rightarrow> string \<Rightarrow> session" where
  "ex_session i p = \<lparr>se_id = i, se_creator = ''u1'', se_title = [], se_agent = ''jarvis'', se_channel = ''web'', se_channel_id = [],
     se_created = 0, se_mode = [], se_parent = p, se_forked_at = 1, se_forked_by = ''u1'', se_purpose = [], se_summary = 0,
     se_reported = 0, se_report_id = 0, se_reported_at = None\<rparr>"

definition ex_report :: "int \<Rightarrow> int \<Rightarrow> fork_report" where
  "ex_report a b = \<lparr>rp_fork = ''f'', rp_parent = ''p'', rp_reporter = ''u1'', rp_from = a, rp_upto = b, rp_message = empty_message RoleUser\<rparr>"

definition ex_agent :: "string \<Rightarrow> string \<Rightarrow> agent_entry" where
  "ex_agent i m = \<lparr>a_id = i, a_name = i, a_mention = m, a_description = [], a_skills = [], a_tools = [], a_llm_on_machine = []\<rparr>"

definition ex_store_run :: "db_op list" where
  "ex_store_run = [OpCreate 1 (ex_session ''p'' []), OpCreate 2 (ex_session ''f'' ''p''), OpReport 3 (ex_report 0 3),
     OpReport 4 (ex_report 3 5), OpReport 5 (ex_report 3 5), OpReport 6 (ex_report 0 9),
     OpInsertAgent (ex_agent ''jarvis'' []), OpInsertAgent (ex_agent ''bob'' ''Robert''), OpInsertAgent (ex_agent ''eve'' ''JARVIS'')]"

lemma ex_store_run_reached: "\<exists>used. reached_db (foldl db_step empty_db ex_store_run) used"
  by (rule run_reached [OF reached_db.start]) code_simp

definition covers :: "string \<Rightarrow> int \<Rightarrow> msg_row \<Rightarrow> bool" where
  "covers f m r \<longleftrightarrow> (\<exists>a b. report_row f a b r \<and> 0 \<le> a \<and> a < m \<and> m \<le> b)"



text \<open>In every state the store reaches, a name calls at most one agent: two agents of the table never answer to the same
  mention, an agent without one answering to its ID, case aside, whatever agents are created, changed and deleted.\<close>

theorem names_call_one_agent:
  assumes "reached_db d used" and "a \<in> set (ListAgents d)" and "b \<in> set (ListAgents d)"
    and "to_lower (MentionName a) = to_lower (MentionName b)"
  shows "a = b"
proof -
  from reached_db_inv [OF assms(1)] have ok: "agents_ok d" by (simp add: db_inv_def)
  from assms(2,3) have ab: "a \<in> ar_agent ` set (db_agents d)" "b \<in> ar_agent ` set (db_agents d)" by (simp_all add: ListAgents_def)
  with agents_ok_names [OF ok _ _ assms(4)] have "a_id a = a_id b" by blast
  moreover have "distinct (map a_id (map ar_agent (db_agents d)))" using agents_ok_ids(1) [OF ok] by simp
  ultimately show ?thesis using ab by (metis distinct_map inj_onD list.set_map)
qed

theorem names_call_one_agent_witness:
  "map a_id (ListAgents (foldl db_step empty_db ex_store_run)) = [''bob'', ''jarvis'']
    \<and> to_lower (MentionName (ex_agent ''bob'' ''Robert'')) = to_lower ''ROBERT''
    \<and> (\<exists>a \<in> set (ListAgents (foldl db_step empty_db ex_store_run)). to_lower (MentionName a) = ''robert''
         \<and> {b \<in> set (ListAgents (foldl db_step empty_db ex_store_run)). to_lower (MentionName b) = ''robert''} = {a})"
proof -
  obtain used where u: "reached_db (foldl db_step empty_db ex_store_run) used" using ex_store_run_reached by blast
  have "list_ex (\<lambda>a. to_lower (MentionName a) = ''robert'') (ListAgents (foldl db_step empty_db ex_store_run))" by code_simp
  then obtain a where a: "a \<in> set (ListAgents (foldl db_step empty_db ex_store_run))" "to_lower (MentionName a) = ''robert''"
    by (auto simp: list_ex_iff)
  moreover from a names_call_one_agent [OF u] have "{b \<in> set (ListAgents (foldl db_step empty_db ex_store_run)). to_lower (MentionName b) = ''robert''} = {a}"
    by auto
  moreover have "map a_id (ListAgents (foldl db_step empty_db ex_store_run)) = [''bob'', ''jarvis'']" by code_simp
  moreover have "to_lower (MentionName (ex_agent ''bob'' ''Robert'')) = to_lower ''ROBERT''" by code_simp
  ultimately show ?thesis by blast
qed

end
