(* ===== verification/Delivery.thy ===== *)
theory Delivery
  imports Turns SessionStore Participant Convert Background
begin

section \<open>Delivering a member's message\<close>

text \<open>
  \<open>session/messages.go\<close>, \<open>session/access.go\<close>, the agents of \<open>session/ops.go\<close> and the stops of \<open>session/participants.go\<close>: which
  agents a message calls, who of them is open to its author, the message stored and handed to the first agent's participant,
  and who may stop a turn. The service's state is its store, its tracker of turns (\<open>Turns\<close>), the access rules it read last,
  and what it sent: the signals to the participants and the events of the hub. A call is one step over that state; what the
  outside answers in it (an error of the store or of Temporal, the clock, a new UUID) is the record \<open>answers\<close>. What the code
  starts in the background (the title) is done in the step.
\<close>

subsection \<open>Mentions\<close>

definition word_char :: "char \<Rightarrow> bool" where
  "word_char c = (let n = of_char c :: nat in (48 \<le> n \<and> n \<le> 57) \<or> (65 \<le> n \<and> n \<le> 90) \<or> (97 \<le> n \<and> n \<le> 122) \<or> n = 95)"

definition name_char :: "char \<Rightarrow> bool" where
  "name_char c = (word_char c \<or> c = CHR ''-'')"

text \<open>A character an @ may follow: \<open>[^\w@.]\<close>. The bytes of a character outside ASCII are such, and no name character.\<close>

definition before_at :: "char \<Rightarrow> bool" where
  "before_at c = (\<not> word_char c \<and> c \<noteq> CHR ''@'' \<and> c \<noteq> CHR ''.'')"

text \<open>
  The matches of \<open>(?:^|[^\w@.])@([\w-]+)\<close>, left to right: the flag says whether an @ here starts one. Right after a match it
  does not: the character before was taken by that match.
\<close>

function mentions :: "bool \<Rightarrow> string \<Rightarrow> string list" where
  "mentions ok [] = []"
| "mentions ok (c # cs) =
     (if ok \<and> c = CHR ''@'' \<and> takeWhile name_char cs \<noteq> []
      then takeWhile name_char cs # mentions False (dropWhile name_char cs)
      else mentions (before_at c) cs)"
  by pat_completeness auto
termination
  by (relation "measure (length \<circ> snd)") (auto simp: le_imp_less_Suc length_dropWhile_le)

definition maxAgentsPerMessage :: nat where "maxAgentsPerMessage = 3"

definition MaxQueued :: nat where "MaxQueued = 5"

definition add_mention :: "(string \<rightharpoonup> agent_entry) \<Rightarrow> agent_entry \<Rightarrow> (string \<rightharpoonup> agent_entry)" where
  "add_mention m a =
     (let key = to_lower (MentionName a)
      in case m key of Some prev \<Rightarrow> if a_mention prev \<noteq> [] \<and> a_mention a = [] then m else m(key \<mapsto> a)
         | None \<Rightarrow> m(key \<mapsto> a))"

definition addressed_agent_of :: "agent_entry \<Rightarrow> addressed_agent" where
  "addressed_agent_of a = \<lparr>aa_id = a_id a, aa_name = cmp_or (a_name a) (a_id a), aa_mention = MentionName a\<rparr>"

fun call_each :: "(string \<rightharpoonup> agent_entry) \<Rightarrow> nat \<Rightarrow> string list \<Rightarrow> string list
    \<Rightarrow> addressed_agent list \<Rightarrow> string list \<Rightarrow> addressed_agent list \<times> string list" where
  "call_each m limit seen [] cs dropped = (cs, dropped)"
| "call_each m limit seen (name # names) cs dropped =
     (case m (to_lower name) of None \<Rightarrow> call_each m limit seen names cs dropped
      | Some a \<Rightarrow>
          if a_id a \<in> set seen then call_each m limit seen names cs dropped
          else if length cs = limit then call_each m limit (a_id a # seen) names cs (dropped @ [MentionName a])
          else call_each m limit (a_id a # seen) names (cs @ [addressed_agent_of a]) dropped)"

definition mentionedAgents :: "string \<Rightarrow> agent_entry list \<Rightarrow> nat \<Rightarrow> addressed_agent list \<times> string list" where
  "mentionedAgents msg agents limit = call_each (foldl add_mention Map.empty agents) limit [] (mentions True msg) [] []"

definition answered_by_mode :: "string \<Rightarrow> nat \<Rightarrow> addressed_agent list \<Rightarrow> bool" where
  "answered_by_mode mode members mentioned =
     (if mentioned \<noteq> [] then True
      else if mode = AgentModeAlways then True
      else if mode = AgentModeMention then False
      else members \<le> 1)"

definition addressed :: "string \<Rightarrow> agent_entry list \<Rightarrow> addressed_agent" where
  "addressed agentID agents =
     (case find (\<lambda>a. a_id a = agentID) agents of Some a \<Rightarrow> addressed_agent_of a
      | None \<Rightarrow> \<lparr>aa_id = agentID, aa_name = agentID, aa_mention = agentID\<rparr>)"

definition maxQuotedMessageBytes :: nat where "maxQuotedMessageBytes = 200"

definition Quote :: "string \<Rightarrow> string" where
  "Quote msg = Clip (join '' '' (words [] (split_runes msg))) maxQuotedMessageBytes"

subsection \<open>Titles\<close>

definition maxTitleRunes :: nat where "maxTitleRunes = 80"

definition trimmed_runes :: "string \<Rightarrow> string list" where
  "trimmed_runes s = rev (dropWhile rune_is_space (rev (dropWhile rune_is_space (split_runes s))))"

text \<open>A title cut goes through \<open>[]rune\<close>, which makes valid UTF-8 of it.\<close>

definition titleFrom :: "string \<Rightarrow> string" where
  "titleFrom msg =
     (let rs = trimmed_runes msg
      in if maxTitleRunes < length rs then concat (map to_valid (take maxTitleRunes rs)) @ ''...'' else concat rs)"

subsection \<open>The service\<close>

record access_cache =
  ac_at :: "time option"
  ac_snap :: snapshot

record shown_message =
  um_session :: string
  um_content :: string
  um_user :: string
  um_author :: string
  um_called :: bool
  um_agents :: "string list"
  um_behind :: "(string \<times> int) list"
  um_refused :: "string list"

record signal =
  sg_workflow :: string
  sg_input :: pinput
  sg_message :: pmsg

record service =
  sv_db :: database
  sv_turns :: turns
  sv_rules :: access_cache
  sv_signals :: "signal list"
  sv_events :: "shown_message list"
  sv_gen :: nat

definition no_rules :: access_cache where
  "no_rules = \<lparr>ac_at = None, ac_snap = \<lparr>sn_rules = [], sn_users = Map.empty\<rparr>\<rparr>"

definition new_service :: "database \<Rightarrow> service" where
  "new_service d = \<lparr>sv_db = d, sv_turns = no_turns, sv_rules = no_rules, sv_signals = [], sv_events = [], sv_gen = 0\<rparr>"

text \<open>
  What the calls a delivery makes are answered: the time of its reads, the time of its write to the tracker, the error of each call of the store and
  of Temporal (\<open>None\<close>: it is done), whether the fork's summary is being written, and the UUID of the message.
\<close>

record answers =
  an_now :: time
  an_then :: time
  an_running :: bool
  an_members :: "string option"
  an_agents :: "string option"
  an_get :: "string option"
  an_agents_again :: "string option"
  an_agents_last :: "string option"
  an_snapshot :: "(string, snapshot) result"
  an_append :: "string option"
  an_signal :: "string option"
  an_uuid :: string

record author =
  au_id :: string
  au_name :: string

definition accessTTL :: duration where "accessTTL = 3 * 1000000000"

definition accessRetry :: duration where "accessRetry = 1000000000"

definition access_rules :: "time \<Rightarrow> (string, snapshot) result \<Rightarrow> access_cache \<Rightarrow> access_cache" where
  "access_rules now read c =
     (if (case ac_at c of None \<Rightarrow> False | Some at \<Rightarrow> now - at < accessTTL) then c
      else case read of Inl _ \<Rightarrow> c\<lparr>ac_at := Some (now + (accessRetry - accessTTL))\<rparr>
           | Inr snap \<Rightarrow> \<lparr>ac_at = Some now, ac_snap = snap\<rparr>)"

datatype deliver_error =
    ErrEmptyMessage | ErrSummaryPending | ErrQueueFull | NoAgents | UnknownAgent
  | ReadFailed string | StoreFailed string | SendFailed string

text \<open>\<open>resolveAgentID\<close>, from what \<open>GetAgent\<close> and \<open>ListAgents\<close> answer.\<close>

definition resolve_default :: "string \<Rightarrow> string option \<Rightarrow> agent_entry list \<Rightarrow> (deliver_error, string) result" where
  "resolve_default dflt err agents =
     (case err of Some e \<Rightarrow> Inl (ReadFailed e)
      | None \<Rightarrow> if list_ex (\<lambda>a. a_id a = dflt) agents then Inr dflt
                else case agents of a # _ \<Rightarrow> Inr (a_id a) | [] \<Rightarrow> Inl NoAgents)"

definition resolveAgentID :: "string \<Rightarrow> string option \<Rightarrow> string option \<Rightarrow> database \<Rightarrow> string \<Rightarrow> (deliver_error, string) result" where
  "resolveAgentID dflt get_err list_err d requested =
     (if requested \<noteq> []
      then (case get_err of Some e \<Rightarrow> Inl (ReadFailed e)
            | None \<Rightarrow> (case GetAgent d requested of None \<Rightarrow> Inl UnknownAgent | Some a \<Rightarrow> Inr (a_id a)))
      else resolve_default dflt list_err (ListAgents d))"

definition agentOrDefault :: "string \<Rightarrow> answers \<Rightarrow> database \<Rightarrow> string \<Rightarrow> (deliver_error, string) result" where
  "agentOrDefault dflt an d agentID =
     (case resolveAgentID dflt (an_get an) (an_agents_again an) d agentID of Inr i \<Rightarrow> Inr i
      | Inl _ \<Rightarrow> resolveAgentID dflt None (an_agents_last an) d [])"

definition openTo :: "snapshot \<Rightarrow> string \<Rightarrow> addressed_agent list \<Rightarrow> addressed_agent list \<times> addressed_agent list" where
  "openTo snap userID who =
     (filter (\<lambda>a. SnapshotAllowed snap userID (Agent (aa_id a))) who,
      filter (\<lambda>a. \<not> SnapshotAllowed snap userID (Agent (aa_id a))) who)"

datatype summary_state = SummaryReady | SummaryPending | SummaryFailed

definition ForkSummaryState :: "session \<Rightarrow> bool \<Rightarrow> summary_state" where
  "ForkSummaryState s running_now =
     (if se_summary s \<noteq> 0 then SummaryReady else if running_now then SummaryPending else SummaryFailed)"

definition publishUserMessage ::
  "time \<Rightarrow> string \<Rightarrow> string \<Rightarrow> author \<Rightarrow> addressed_agent list \<Rightarrow> addressed_agent list \<Rightarrow> service \<Rightarrow> service" where
  "publishUserMessage now sid msg au who refused sv =
     sv\<lparr>sv_events := sv_events sv @
       [\<lparr>um_session = sid, um_content = msg, um_user = au_id au, um_author = au_name au, um_called = (who \<noteq> []),
         um_agents = map (\<lambda>a. cmp_or (aa_name a) (aa_id a)) who,
         um_behind = filter (\<lambda>x. snd x \<noteq> 0) (map (\<lambda>a. (aa_id a, turns_current now (sv_turns sv) sid (aa_id a))) who),
         um_refused = map (\<lambda>a. cmp_or (aa_mention a) (aa_id a)) refused\<rparr>]\<rparr>"

text \<open>\<open>deliver\<close>: counted in the participant's queue, then sent; taken out again when it could not be.\<close>

definition deliver :: "answers \<Rightarrow> session \<Rightarrow> string \<Rightarrow> pmsg \<Rightarrow> service \<Rightarrow> service \<times> deliver_error option" where
  "deliver an sess agentID m sv =
     (let sid = se_id sess; t1 = expect (an_then an) sid agentID (pm_id m) (sv_turns sv)
      in case an_signal an of
           Some e \<Rightarrow> (sv\<lparr>sv_turns := unexpect sid agentID (pm_id m) t1\<rparr>, Some (SendFailed e))
         | None \<Rightarrow> (sv\<lparr>sv_turns := t1, sv_signals := sv_signals sv @
               [\<lparr>sg_workflow = ParticipantWorkflowID sid agentID,
                 sg_input = \<lparr>pi_session = sid, pi_agent = agentID, pi_channel = se_channel sess, pi_channel_id = se_channel_id sess, pi_inbox = []\<rparr>,
                 sg_message = m\<rparr>]\<rparr>, None))"

definition ChannelWeb :: string where "ChannelWeb = ''web''"

definition participant_message ::
  "string \<Rightarrow> session \<Rightarrow> string \<Rightarrow> author \<Rightarrow> string \<Rightarrow> int \<Rightarrow> addressed_agent list \<Rightarrow> pmsg" where
  "participant_message dflt sess sessionAgent au msg mid who =
     \<lparr>pm_id = mid, pm_user = au_id au, pm_user_name = au_name au, pm_next = tl who, pm_earlier = [],
      pm_sign = (1 < length who \<or> aa_id (hd who) \<noteq> sessionAgent
                 \<or> (se_channel sess \<noteq> ChannelWeb \<and> se_title sess = [] \<and> aa_id (hd who) \<noteq> dflt)),
      pm_channel = se_channel sess, pm_channel_id = se_channel_id sess,
      pm_part = (if 1 < length who then Some \<lparr>pt_agents = who, pt_quote = Quote msg\<rparr> else None)\<rparr>"

record delivery =
  dl_called :: bool
  dl_refused :: "addressed_agent list"

text \<open>From the storing of the message on.\<close>

definition post_message ::
  "string \<Rightarrow> answers \<Rightarrow> session \<Rightarrow> author \<Rightarrow> string \<Rightarrow> string \<Rightarrow> addressed_agent list \<Rightarrow> addressed_agent list \<Rightarrow> service
    \<Rightarrow> service \<times> (deliver_error, delivery) result" where
  "post_message dflt an sess au msg sessionAgent who refused sv =
     (case an_append an of Some e \<Rightarrow> (sv, Inl (StoreFailed e))
      | None \<Rightarrow>
          let sid = se_id sess;
              stored = (empty_message RoleUser)\<lparr>m_content := json_marshal msg, m_user := au_id au, m_author := au_name au\<rparr>;
              (T, mid) = AppendMessage (db_msgs (sv_db sv)) sid (HumanMessageKey (an_uuid an)) stored;
              sv1 = sv\<lparr>sv_db := UpdateSessionTitle sid (titleFrom msg) ((sv_db sv)\<lparr>db_msgs := T\<rparr>)\<rparr>;
              sv2 = publishUserMessage (an_now an) sid msg au who refused sv1
          in if who = [] then (sv2, Inr \<lparr>dl_called = False, dl_refused = refused\<rparr>)
             else case deliver an sess (aa_id (hd who)) (participant_message dflt sess sessionAgent au msg mid who) sv2 of
                 (sv3, Some e) \<Rightarrow> (sv3\<lparr>sv_gen := Suc (sv_gen sv3)\<rparr>, Inl e)
               | (sv3, None) \<Rightarrow> (sv3\<lparr>sv_gen := Suc (sv_gen sv3)\<rparr>, Inr \<lparr>dl_called = True, dl_refused = refused\<rparr>))"

definition DeliverMessage ::
  "string \<Rightarrow> answers \<Rightarrow> session \<Rightarrow> author \<Rightarrow> string \<Rightarrow> service \<Rightarrow> service \<times> (deliver_error, delivery) result" where
  "DeliverMessage dflt an sess au msg sv =
     (if blank msg then (sv, Inl ErrEmptyMessage)
      else if se_forked_at sess \<noteq> 0 \<and> ForkSummaryState sess (an_running an) = SummaryPending then (sv, Inl ErrSummaryPending)
      else case an_members an of Some e \<Rightarrow> (sv, Inl (ReadFailed e))
      | None \<Rightarrow> (case an_agents an of Some e \<Rightarrow> (sv, Inl (ReadFailed e))
      | None \<Rightarrow>
          let members = length (ListSessionMembers (sv_db sv) (se_id sess)); agents = ListAgents (sv_db sv);
              mentioned = fst (mentionedAgents msg agents maxAgentsPerMessage)
          in if \<not> answered_by_mode (se_mode sess) members mentioned then post_message dflt an sess au msg [] [] [] sv
             else case agentOrDefault dflt an (sv_db sv) (se_agent sess) of Inl e \<Rightarrow> (sv, Inl e)
               | Inr sessionAgent \<Rightarrow>
                   let rules = access_rules (an_now an) (an_snapshot an) (sv_rules sv); sv1 = sv\<lparr>sv_rules := rules\<rparr>;
                       (who, refused) = openTo (ac_snap rules) (au_id au)
                          (if mentioned = [] then [addressed sessionAgent agents] else mentioned)
                   in if who \<noteq> [] \<and> MaxQueued \<le> turns_queued (an_now an) (sv_turns sv1) (se_id sess) (aa_id (hd who))
                      then (sv1, Inl ErrQueueFull)
                      else post_message dflt an sess au msg sessionAgent who refused sv1))"

subsection \<open>Stopping a turn\<close>

definition MayClear :: "string \<Rightarrow> string \<Rightarrow> bool" where
  "MayClear createdBy userID = (userID \<noteq> [] \<and> createdBy = userID)"

definition participantID :: "(string \<Rightarrow> bool) \<Rightarrow> string \<Rightarrow> string \<Rightarrow> string option" where
  "participantID isUUID sid p =
     (if p = [] \<or> CHR '':'' \<in> set p \<or> \<not> isUUID sid then None else Some (ParticipantWorkflowID sid p))"

text \<open>What a participant's state query and a signal to it answer.\<close>

datatype query_answer = QueryGone | QueryFailed string | QueryState "current_message option"

datatype signal_answer = SignalSent | SignalGone | SignalFailed string

datatype turn_stop_error = ErrNothingToStop | ErrTurnOver | ErrStopNotAllowed | ErrClearNotAllowed | StopReadFailed string | StopSendFailed string

text \<open>A stop sent, as \<open>(workflow, key)\<close>; the empty key stops whichever turn runs.\<close>

definition signal_stop :: "signal_answer \<Rightarrow> turn_stop_error \<Rightarrow> string \<Rightarrow> string \<Rightarrow> (string \<times> string) list \<times> turn_stop_error option" where
  "signal_stop ans over_err workflowID key =
     (case ans of SignalSent \<Rightarrow> ([(workflowID, key)], None) | SignalGone \<Rightarrow> ([], Some over_err) | SignalFailed e \<Rightarrow> ([], Some (StopSendFailed e)))"

definition StopTurn ::
  "(string \<Rightarrow> bool) \<Rightarrow> query_answer \<Rightarrow> signal_answer \<Rightarrow> session \<Rightarrow> string \<Rightarrow> string \<Rightarrow> string
    \<Rightarrow> (string \<times> string) list \<times> turn_stop_error option" where
  "StopTurn isUUID q ans sess p turn me =
     (case participantID isUUID (se_id sess) p of None \<Rightarrow> ([], Some ErrNothingToStop)
      | Some workflowID \<Rightarrow>
          let over_err = (if turn \<noteq> [] then ErrTurnOver else ErrNothingToStop)
          in if turn \<noteq> [] \<or> se_creator sess \<noteq> me
             then (case q of QueryGone \<Rightarrow> ([], Some over_err) | QueryFailed e \<Rightarrow> ([], Some (StopReadFailed e))
                   | QueryState None \<Rightarrow> ([], Some over_err)
                   | QueryState (Some c) \<Rightarrow>
                       if turn \<noteq> [] \<and> cm_turn c \<noteq> turn then ([], Some ErrTurnOver)
                       else if \<not> MayStop (se_creator sess) (cm_user c) me then ([], Some ErrStopNotAllowed)
                       else signal_stop ans over_err workflowID (cm_turn c))
             else signal_stop ans over_err workflowID turn)"

definition ClearParticipant ::
  "(string \<Rightarrow> bool) \<Rightarrow> signal_answer \<Rightarrow> session \<Rightarrow> string \<Rightarrow> string \<Rightarrow> string list \<times> turn_stop_error option" where
  "ClearParticipant isUUID ans sess p me =
     (if \<not> MayClear (se_creator sess) me then ([], Some ErrClearNotAllowed)
      else case participantID isUUID (se_id sess) p of None \<Rightarrow> ([], Some ErrNothingToStop)
        | Some workflowID \<Rightarrow> (case ans of SignalSent \<Rightarrow> ([workflowID], None) | SignalGone \<Rightarrow> ([], Some ErrNothingToStop)
                             | SignalFailed e \<Rightarrow> ([], Some (StopSendFailed e))))"

text \<open>\<open>Cancel\<close>: the participants found, each with its state and the answer to its signal.\<close>

datatype stop_choice = StopNamed string | StopLeft | StopOthers

definition cancel_choice :: "session \<Rightarrow> string \<Rightarrow> query_answer \<Rightarrow> stop_choice" where
  "cancel_choice sess me q =
     (case q of QueryGone \<Rightarrow> StopLeft | QueryState None \<Rightarrow> StopLeft
      | QueryFailed _ \<Rightarrow> if MayClear (se_creator sess) me then StopNamed [] else StopOthers
      | QueryState (Some c) \<Rightarrow> if MayStop (se_creator sess) (cm_user c) me then StopNamed (cm_turn c) else StopOthers)"

fun cancel_each :: "session \<Rightarrow> string \<Rightarrow> (string \<times> query_answer \<times> signal_answer) list
    \<Rightarrow> (string \<times> string) list \<times> string list \<times> nat" where
  "cancel_each sess me [] = ([], [], 0)"
| "cancel_each sess me ((workflowID, q, ans) # ps) =
     (case cancel_each sess me ps of (sent, errs, foreign) \<Rightarrow>
        (case cancel_choice sess me q of StopLeft \<Rightarrow> (sent, errs, foreign) | StopOthers \<Rightarrow> (sent, errs, Suc foreign)
         | StopNamed key \<Rightarrow> (case ans of SignalSent \<Rightarrow> ((workflowID, key) # sent, errs, foreign) | SignalGone \<Rightarrow> (sent, errs, foreign)
                            | SignalFailed e \<Rightarrow> (sent, e # errs, foreign))))"

definition Cancel :: "(string, (string \<times> query_answer \<times> signal_answer) list) result \<Rightarrow> session \<Rightarrow> string
    \<Rightarrow> (string \<times> string) list \<times> turn_stop_error option" where
  "Cancel found sess me =
     (case found of Inl e \<Rightarrow> ([], Some (StopReadFailed e))
      | Inr ps \<Rightarrow> (case cancel_each sess me ps of (sent, errs, foreign) \<Rightarrow>
          (sent, if sent \<noteq> [] then None else if errs \<noteq> [] then Some (StopSendFailed (join [CHR 0x0A] errs))
                 else if 0 < foreign then Some ErrStopNotAllowed else Some ErrNothingToStop)))"

subsection \<open>Who a message calls\<close>

lemma name_char_at [simp]: "\<not> name_char (CHR ''@'')" "\<not> before_at (CHR ''@'')"
  by (simp_all add: name_char_def word_char_def before_at_def)

text \<open>A name after an @ is found, where no match before it can reach the character the @ follows.\<close>

lemma mentions_name:
  assumes "name \<noteq> []" and "list_all name_char name" and "post = [] \<or> \<not> name_char (hd post)"
  shows "(if pre = [] then ok else before_at (last pre) \<and> \<not> name_char (last pre))
    \<Longrightarrow> name \<in> set (mentions ok (pre @ CHR ''@'' # name @ post))"
proof (induction "length pre" arbitrary: ok pre rule: less_induct)
  case less
  have here: "takeWhile name_char (name @ post) = name"
    using assms by (cases post) (auto simp: list_all_iff takeWhile_append2)
  show ?case
  proof (cases pre)
    case Nil
    with less.prems here assms(1) show ?thesis by simp
  next
    case (Cons c cs)
    let ?rest = "cs @ CHR ''@'' # name @ post"
    have last: "cs \<noteq> [] \<Longrightarrow> before_at (last cs) \<and> \<not> name_char (last cs)" using less.prems Cons by (auto split: if_splits)
    have tw: "takeWhile name_char ?rest = takeWhile name_char cs" by (simp add: takeWhile_tail)
    show ?thesis
    proof (cases "ok \<and> c = CHR ''@'' \<and> takeWhile name_char ?rest \<noteq> []")
      case True
      then have cs: "cs \<noteq> []" using tw by auto
      with last have ne: "\<not> list_all name_char cs" by (auto simp: list_all_iff dest: last_in_set)
      then obtain x where "x \<in> set cs" "\<not> name_char x" by (auto simp: list_all_iff)
      then have dw: "dropWhile name_char ?rest = dropWhile name_char cs @ CHR ''@'' # name @ post" by (rule dropWhile_append1)
      have dn: "dropWhile name_char cs \<noteq> []" using ne by (auto simp: list_all_iff)
      then have "last (dropWhile name_char cs) = last cs"
        by (metis append_is_Nil_conv last_append takeWhile_dropWhile_id)
      moreover have "length (dropWhile name_char cs) < length pre" using Cons length_dropWhile_le [of name_char cs] by simp
      ultimately have "name \<in> set (mentions False (dropWhile name_char cs @ CHR ''@'' # name @ post))"
        using less.hyps [of "dropWhile name_char cs" False] last [OF cs] dn by simp
      with True Cons dw show ?thesis by simp
    next
      case False
      have "if cs = [] then before_at c else before_at (last cs) \<and> \<not> name_char (last cs)"
        using less.prems Cons last by (auto split: if_splits)
      with less.hyps [of cs "before_at c"] Cons have "name \<in> set (mentions (before_at c) ?rest)" by simp
      with False Cons show ?thesis by auto
    qed
  qed
qed

lemma add_mention_other: "to_lower (MentionName a) \<noteq> key \<Longrightarrow> add_mention m a key = m key"
  by (auto simp: add_mention_def Let_def split: option.split)

lemma add_mention_here: "\<exists>b. add_mention m a (to_lower (MentionName a)) = Some b \<and> (b = a \<or> m (to_lower (MentionName a)) = Some b)"
  by (auto simp: add_mention_def Let_def split: option.split)

text \<open>What the map of mentions holds under a key is an agent of that name; every agent's name has one.\<close>

lemma by_mention:
  "(\<And>key b. m key = Some b \<Longrightarrow> b \<in> A \<and> to_lower (MentionName b) = key) \<Longrightarrow> set agents \<subseteq> A
    \<Longrightarrow> foldl add_mention m agents key = Some b \<Longrightarrow> b \<in> A \<and> to_lower (MentionName b) = key"
proof (induction agents arbitrary: m)
  case (Cons a agents)
  have "b \<in> A \<and> to_lower (MentionName b) = key" if "add_mention m a key = Some b" for key b
    using that Cons.prems(1,2) add_mention_other [of a key m] add_mention_here [of m a]
    by (cases "to_lower (MentionName a) = key") auto
  with Cons.IH [of "add_mention m a"] Cons.prems(2,3) show ?case by simp
qed auto

lemma by_mention_keeps: "m key = Some b \<Longrightarrow> foldl add_mention m agents key \<noteq> None"
proof (induction agents arbitrary: m b)
  case (Cons a agents)
  have "\<exists>b. add_mention m a key = Some b"
    using Cons.prems add_mention_other [of a key m] add_mention_here [of m a] by (cases "to_lower (MentionName a) = key") auto
  with Cons.IH show ?case by auto
qed simp

lemma by_mention_found: "a \<in> set agents \<Longrightarrow> foldl add_mention m agents (to_lower (MentionName a)) \<noteq> None"
proof (induction agents arbitrary: m)
  case (Cons x agents)
  show ?case
  proof (cases "x = a")
    case True
    with add_mention_here [of m a] by_mention_keeps show ?thesis by fastforce
  next
    case False
    with Cons show ?thesis by simp
  qed
qed simp

lemma call_each_sound:
  assumes "call_each m limit seen names cs dropped = (cs', dropped')"
    and "length cs \<le> limit" and "distinct (map aa_id cs)" and "aa_id ` set cs \<subseteq> set seen"
  shows "length cs' \<le> limit \<and> distinct (map aa_id cs')
    \<and> (\<forall>c \<in> set cs'. c \<in> set cs \<or> (\<exists>name \<in> set names. \<exists>a. m (to_lower name) = Some a \<and> c = addressed_agent_of a))"
  using assms
proof (induction m limit seen names cs dropped rule: call_each.induct)
  case (2 m limit seen name names cs dropped)
  show ?case
  proof (cases "m (to_lower name)")
    case None
    with 2 show ?thesis by auto
  next
    case (Some a)
    consider "a_id a \<in> set seen" | "a_id a \<notin> set seen" "length cs = limit" | "a_id a \<notin> set seen" "length cs \<noteq> limit" by blast
    then show ?thesis
    proof cases
      case 1
      with 2(2) 2(5-) Some show ?thesis by auto
    next
      case 2
      with "2.IH"(3) "2.prems" Some show ?thesis by fastforce
    next
      case 3
      have d: "distinct (map aa_id (cs @ [addressed_agent_of a]))" "aa_id ` set (cs @ [addressed_agent_of a]) \<subseteq> set (a_id a # seen)"
        using "2.prems" 3 by (auto simp: addressed_agent_of_def)
      have "call_each m limit (a_id a # seen) names (cs @ [addressed_agent_of a]) dropped = (cs', dropped')"
        using 3 "2.prems"(1) Some by simp
      from "2.IH"(4) [OF Some 3 this _ d] "2.prems"(2) 3 Some show ?thesis by fastforce
    qed
  qed
qed simp

lemma call_each_mono:
  "call_each m limit seen names cs dropped = (cs', dropped') \<Longrightarrow> set cs \<subseteq> set cs' \<and> set dropped \<subseteq> set dropped'"
proof (induction m limit seen names cs dropped rule: call_each.induct)
  case (2 m limit seen name names cs dropped)
  then show ?case by (auto split: option.splits if_splits)
qed simp

text \<open>An agent a name calls is called or dropped, unless it was seen.\<close>

lemma call_each_complete:
  assumes "call_each m limit seen names cs dropped = (cs', dropped')" and "name \<in> set names" and "m (to_lower name) = Some a"
  shows "a_id a \<in> set seen \<or> a_id a \<in> aa_id ` set cs'
    \<or> (\<exists>b. a_id b = a_id a \<and> MentionName b \<in> set dropped' \<and> (\<exists>n. m (to_lower n) = Some b))"
  using assms
proof (induction m limit seen names cs dropped rule: call_each.induct)
  case (2 m limit seen n names cs dropped)
  show ?case
  proof (cases "m (to_lower n)")
    case None
    with 2 show ?thesis by auto
  next
    case (Some b)
    consider "a_id b \<in> set seen" | "a_id b \<notin> set seen" "length cs = limit" | "a_id b \<notin> set seen" "length cs \<noteq> limit" by blast
    then show ?thesis
    proof cases
      case 1
      with 2(2) 2(5-) Some show ?thesis by auto
    next
      case c: 2
      with "2.prems"(1) Some have e: "call_each m limit (a_id b # seen) names cs (dropped @ [MentionName b]) = (cs', dropped')" by simp
      with call_each_mono [OF e] have "MentionName b \<in> set dropped'" by simp
      with "2.IH"(3) [OF Some c e] "2.prems"(2,3) Some show ?thesis by (cases "a_id a = a_id b") auto
    next
      case c: 3
      with "2.prems"(1) Some have e: "call_each m limit (a_id b # seen) names (cs @ [addressed_agent_of b]) dropped = (cs', dropped')" by simp
      with call_each_mono [OF e] have "a_id b \<in> aa_id ` set cs'" by (force simp: addressed_agent_of_def)
      with "2.IH"(4) [OF Some c e] "2.prems"(2,3) Some show ?thesis by (cases "a_id a = a_id b") auto
    qed
  qed
qed simp

lemma mentionedAgents_sound:
  assumes "mentionedAgents msg agents limit = (cs, dropped)"
  shows "length cs \<le> limit \<and> distinct (map aa_id cs)
    \<and> (\<forall>c \<in> set cs. \<exists>name \<in> set (mentions True msg). \<exists>a \<in> set agents. to_lower (MentionName a) = to_lower name \<and> c = addressed_agent_of a)"
  using call_each_sound [OF assms [unfolded mentionedAgents_def]] by_mention [of Map.empty "set agents" agents] by fastforce



subsection \<open>What a delivery does\<close>

text \<open>The agents a delivery ends up with, when it comes to storing its message.\<close>

definition callable :: "string \<Rightarrow> answers \<Rightarrow> session \<Rightarrow> author \<Rightarrow> string \<Rightarrow> service \<Rightarrow> string \<Rightarrow> addressed_agent list \<Rightarrow> addressed_agent list \<Rightarrow> bool" where
  "callable dflt an sess au msg sv sessionAgent who refused \<longleftrightarrow>
     (let mentioned = fst (mentionedAgents msg (ListAgents (sv_db sv)) maxAgentsPerMessage);
          snap = ac_snap (access_rules (an_now an) (an_snapshot an) (sv_rules sv))
      in agentOrDefault dflt an (sv_db sv) (se_agent sess) = Inr sessionAgent
         \<and> (who, refused) = openTo snap (au_id au) (if mentioned = [] then [addressed sessionAgent (ListAgents (sv_db sv))] else mentioned)
         \<and> (who \<noteq> [] \<longrightarrow> turns_queued (an_now an) (sv_turns sv) (se_id sess) (aa_id (hd who)) < MaxQueued))"

lemma agentOrDefault_error: "agentOrDefault dflt an d i \<noteq> Inl (SendFailed x)"
  by (auto simp: agentOrDefault_def resolveAgentID_def resolve_default_def split: option.splits list.splits sum.splits)

lemma DeliverMessage_cases:
  obtains (refused) r e where "DeliverMessage dflt an sess au msg sv = (sv\<lparr>sv_rules := r\<rparr>, Inl e)" "\<nexists>x. e = SendFailed x"
  | (nobody) "DeliverMessage dflt an sess au msg sv = post_message dflt an sess au msg [] [] [] sv"
  | (posted) sa who no where "callable dflt an sess au msg sv sa who no"
      "DeliverMessage dflt an sess au msg sv
         = post_message dflt an sess au msg sa who no (sv\<lparr>sv_rules := access_rules (an_now an) (an_snapshot an) (sv_rules sv)\<rparr>)"
proof -
  let ?D = "DeliverMessage dflt an sess au msg sv" and ?as = "ListAgents (sv_db sv)"
  let ?m = "fst (mentionedAgents msg ?as maxAgentsPerMessage)" and ?r = "access_rules (an_now an) (an_snapshot an) (sv_rules sv)"
  have same: "sv\<lparr>sv_rules := sv_rules sv\<rparr> = sv" by simp
  show thesis
  proof (cases "blank msg \<or> (se_forked_at sess \<noteq> 0 \<and> ForkSummaryState sess (an_running an) = SummaryPending)
      \<or> an_members an \<noteq> None \<or> an_agents an \<noteq> None")
    case True
    then have "\<exists>e. ?D = (sv, Inl e) \<and> (\<nexists>x. e = SendFailed x)"
      by (cases "an_members an"; cases "an_agents an") (auto simp: DeliverMessage_def)
    then obtain e where "?D = (sv, Inl e)" "\<nexists>x. e = SendFailed x" by blast
    with same refused [of "sv_rules sv" e] show thesis by simp
  next
    case False
    show thesis
    proof (cases "answered_by_mode (se_mode sess) (length (ListSessionMembers (sv_db sv) (se_id sess))) ?m")
      case no: False
      with False have "?D = post_message dflt an sess au msg [] [] [] sv" by (auto simp: DeliverMessage_def Let_def)
      then show thesis by (rule nobody)
    next
      case yes: True
      show thesis
      proof (cases "agentOrDefault dflt an (sv_db sv) (se_agent sess)")
        case (Inl e)
        with False yes have "?D = (sv, Inl e)" by (auto simp: DeliverMessage_def Let_def)
        with same refused [of "sv_rules sv" e] Inl agentOrDefault_error show thesis by metis
      next
        case (Inr sa)
        obtain who no where w: "openTo (ac_snap ?r) (au_id au) (if ?m = [] then [addressed sa ?as] else ?m) = (who, no)"
          by (cases "openTo (ac_snap ?r) (au_id au) (if ?m = [] then [addressed sa ?as] else ?m)")
        then have D: "?D = (if who \<noteq> [] \<and> MaxQueued \<le> turns_queued (an_now an) (sv_turns sv) (se_id sess) (aa_id (hd who))
            then (sv\<lparr>sv_rules := ?r\<rparr>, Inl ErrQueueFull) else post_message dflt an sess au msg sa who no (sv\<lparr>sv_rules := ?r\<rparr>))"
          using False yes Inr by (auto simp: DeliverMessage_def Let_def)
        show thesis
        proof (cases "who \<noteq> [] \<and> MaxQueued \<le> turns_queued (an_now an) (sv_turns sv) (se_id sess) (aa_id (hd who))")
          case True
          with D refused [of ?r ErrQueueFull] show thesis by simp
        next
          case False
          with D Inr w posted [of sa who no] show thesis by (auto simp: callable_def Let_def)
        qed
      qed
    qed
  qed
qed

lemma post_message_error:
  assumes "post_message dflt an sess au msg sa who no sv = (sv', Inl e)" and "\<nexists>x. e = SendFailed x"
  shows "sv' = sv"
  using assms by (auto simp: post_message_def deliver_def AppendMessage_def Let_def split: option.splits if_splits)

text \<open>A delivery refused, for whatever reason but a signal Temporal did not take, writes nothing: no message, no title, no
  event, nothing in the tracker, no signal. Only the access rules the server holds may have been read again.\<close>

theorem refused_delivery_writes_nothing:
  assumes "DeliverMessage dflt an sess au msg sv = (sv', Inl e)" and "\<nexists>x. e = SendFailed x"
  shows "sv' = sv\<lparr>sv_rules := sv_rules sv'\<rparr>"
proof (cases rule: DeliverMessage_cases [of dflt an sess au msg sv])
  case (refused r e')
  with assms show ?thesis by auto
next
  case nobody
  with assms post_message_error show ?thesis by fastforce
next
  case (posted sa who no)
  with assms post_message_error [of dflt an sess au msg sa who no] have "sv' = sv\<lparr>sv_rules := access_rules (an_now an) (an_snapshot an) (sv_rules sv)\<rparr>"
    by metis
  then show ?thesis by simp
qed

lemma addressed_id [simp]: "aa_id (addressed agentID agents) = agentID"
  by (auto simp: addressed_def addressed_agent_of_def find_Some_iff split: option.split)

text \<open>The message a delivery stores and hands over.\<close>

lemma post_message_called:
  assumes "post_message dflt an sess au msg sa who no sv = (sv', Inr r)" and "dl_called r"
  shows "who \<noteq> []" and "dl_refused r = no"
    and "\<exists>mid. sv_signals sv' = sv_signals sv @ [\<lparr>sg_workflow = ParticipantWorkflowID (se_id sess) (aa_id (hd who)),
        sg_input = \<lparr>pi_session = se_id sess, pi_agent = aa_id (hd who), pi_channel = se_channel sess, pi_channel_id = se_channel_id sess, pi_inbox = []\<rparr>,
        sg_message = participant_message dflt sess sa au msg mid who\<rparr>]
      \<and> (\<exists>row. find_row (db_msgs (sv_db sv')) (se_id sess, HumanMessageKey (an_uuid an)) = Some row \<and> r_id row = mid)"
    and "sv_rules sv' = sv_rules sv"
  using assms
  by (auto simp: post_message_def deliver_def publishUserMessage_def UpdateSessionTitle_def AppendMessage_def Let_def find_row_insert
      split: option.splits if_splits)


subsection \<open>The queue of a participant\<close>

text \<open>The server over time: deliveries, events of its hub, sessions deleted.\<close>

datatype server_op =
    SDeliver answers session author string
  | SObserve time string observed
  | SDeleted time string

fun server_step :: "(string \<Rightarrow> bool) \<Rightarrow> string \<Rightarrow> service \<Rightarrow> server_op \<Rightarrow> service" where
  "server_step isSession dflt sv (SDeliver an sess au msg) = fst (DeliverMessage dflt an sess au msg sv)"
| "server_step isSession dflt sv (SObserve now topic ev) =
     (case Observe now isSession topic ev (sv_turns sv) of (t, changed) \<Rightarrow>
        sv\<lparr>sv_turns := t, sv_gen := (if changed then Suc (sv_gen sv) else sv_gen sv)\<rparr>)"
| "server_step isSession dflt sv (SDeleted now sid) = sv\<lparr>sv_turns := forget sid (sv_turns sv), sv_gen := Suc (sv_gen sv)\<rparr>"

fun op_times :: "server_op \<Rightarrow> time list" where
  "op_times (SDeliver an sess au msg) = [an_now an, an_then an]"
| "op_times (SObserve now topic ev) = [now]"
| "op_times (SDeleted now sid) = [now]"

definition short_queues :: "time \<Rightarrow> turns \<Rightarrow> bool" where
  "short_queues now t \<longleftrightarrow> (\<exists>k. simulates now t k \<and> (\<forall>sid p. card (waiting_for now k sid p) \<le> MaxQueued))"

lemma waiting_later: "now \<le> now' \<Longrightarrow> waiting_for now' k sid p \<subseteq> waiting_for now k sid p"
  using forgotten_later [of now now'] by (auto simp: waiting_for_def recent_def split: option.splits if_splits)

text \<open>No operation of the tracker but \<open>expect\<close> makes a queue longer.\<close>

lemma waiting_step:
  "waiting_for now (tracker_step k (now, op)) sid p
     \<subseteq> (case op of TExpect s q mid \<Rightarrow> if s = sid \<and> q = p then insert mid (waiting_for now k sid p) else waiting_for now k sid p
        | _ \<Rightarrow> waiting_for now k sid p)"
  by (cases op) (auto simp: waiting_for_def Let_def waits_set_def turn_set_def split: if_splits)

lemma short_later: "short_queues now t \<Longrightarrow> now \<le> now' \<Longrightarrow> short_queues now' t"
proof -
  assume "short_queues now t" and le: "now \<le> now'"
  then obtain k where k: "simulates now t k" "\<And>sid p. card (waiting_for now k sid p) \<le> MaxQueued" by (auto simp: short_queues_def)
  have "card (waiting_for now' k sid p) \<le> MaxQueued" for sid p
    using card_mono [OF simulates_answers(2) [OF k(1)] waiting_later [OF le]] k(2) [of sid p] by (rule le_trans)
  with simulates_later [OF k(1) le] show ?thesis by (auto simp: short_queues_def)
qed

lemma short_step:
  assumes "short_queues now t" and "\<And>s q mid. op \<noteq> TExpect s q mid"
  shows "short_queues now (turns_step t (now, op))"
proof -
  from assms(1) obtain k where k: "simulates now t k" "\<And>sid p. card (waiting_for now k sid p) \<le> MaxQueued" by (auto simp: short_queues_def)
  have "waiting_for now (tracker_step k (now, op)) sid p \<subseteq> waiting_for now k sid p" for sid p
    using waiting_step [of now k op sid p] assms(2) by (cases op) auto
  then have "card (waiting_for now (tracker_step k (now, op)) sid p) \<le> MaxQueued" for sid p
    using card_mono [OF simulates_answers(2) [OF k(1)], of _ sid p] k(2) [of sid p] by (meson le_trans)
  with simulates_step [OF k(1), of op] show ?thesis by (auto simp: short_queues_def)
qed

lemma short_Observe: "short_queues now t \<Longrightarrow> short_queues now (fst (Observe now isSession topic ev t))"
  using short_step [of now t "TNote topic _ _"] short_step [of now t "TTaskNote topic _ _"] short_step [of now t "TSet topic _ _"]
  by (auto simp: Observe_def split: observed.split option.split)

text \<open>A delivery: the queue checked at one time, the message counted a moment later.\<close>

lemma short_deliver:
  assumes "short_queues now t" and "turns_queued now t sid p < MaxQueued" and "now \<le> then_at"
  shows "short_queues then_at (expect then_at sid p mid t)" and "short_queues then_at (unexpect sid p mid (expect then_at sid p mid t))"
proof -
  from assms(1) obtain k where k: "simulates now t k" "\<And>s q. card (waiting_for now k s q) \<le> MaxQueued" by (auto simp: short_queues_def)
  let ?k = "tracker_step k (then_at, TExpect sid p mid)"
  have sub: "waiting_for then_at ?k s q \<subseteq> (if s = sid \<and> q = p then insert mid (waiting_for now k s q) else waiting_for now k s q)" for s q
    using waiting_step [of then_at k "TExpect sid p mid" s q] waiting_later [OF assms(3), of k s q] by (auto split: if_splits)
  have fin: "finite (waiting_for now k s q)" for s q using simulates_answers(2) [OF k(1)] .
  have "card (waiting_for now k sid p) < MaxQueued" using assms(2) simulates_answers(1) [OF k(1)] by simp
  then have "card (insert mid (waiting_for now k sid p)) \<le> MaxQueued" using fin [of sid p] by (simp add: card_insert_if)
  then have "card (waiting_for then_at ?k s q) \<le> MaxQueued" for s q
    using card_mono [OF _ sub, of s q] fin [of s q] k(2) [of s q] by (cases "s = sid \<and> q = p") (auto intro: le_trans)
  moreover have "simulates then_at (expect then_at sid p mid t) ?k" using simulates_step [OF simulates_later [OF k(1) assms(3)], of "TExpect sid p mid"] by simp
  ultimately show e: "short_queues then_at (expect then_at sid p mid t)" by (auto simp: short_queues_def)
  show "short_queues then_at (unexpect sid p mid (expect then_at sid p mid t))" using short_step [OF e, of "TUnexpect sid p mid"] by simp
qed

lemma post_message_turns:
  assumes "post_message dflt an sess au msg sa who no sv = (sv', r)"
  shows "sv_turns sv' = sv_turns sv \<or> who \<noteq> [] \<and> (\<exists>mid. sv_turns sv' = expect (an_then an) (se_id sess) (aa_id (hd who)) mid (sv_turns sv)
     \<or> sv_turns sv' = unexpect (se_id sess) (aa_id (hd who)) mid (expect (an_then an) (se_id sess) (aa_id (hd who)) mid (sv_turns sv)))"
  using assms by (auto simp: post_message_def deliver_def AppendMessage_def publishUserMessage_def Let_def split: option.splits if_splits)

lemma short_DeliverMessage:
  assumes "short_queues (an_now an) (sv_turns sv)" and "an_now an \<le> an_then an"
  shows "short_queues (an_then an) (sv_turns (fst (DeliverMessage dflt an sess au msg sv)))"
proof (cases rule: DeliverMessage_cases [of dflt an sess au msg sv])
  case (refused r e)
  with short_later [OF assms] show ?thesis by simp
next
  case nobody
  with post_message_turns [of dflt an sess au msg "[]" "[]" "[]" sv] short_later [OF assms] show ?thesis by (metis prod.collapse)
next
  case (posted sa who no)
  let ?sv = "sv\<lparr>sv_rules := access_rules (an_now an) (an_snapshot an) (sv_rules sv)\<rparr>"
  let ?sv' = "fst (DeliverMessage dflt an sess au msg sv)"
  have "post_message dflt an sess au msg sa who no ?sv = (?sv', snd (DeliverMessage dflt an sess au msg sv))" using posted(2) by simp
  from post_message_turns [OF this] consider "sv_turns ?sv' = sv_turns sv"
    | mid where "who \<noteq> []" "sv_turns ?sv' = expect (an_then an) (se_id sess) (aa_id (hd who)) mid (sv_turns sv)"
    | mid where "who \<noteq> []" "sv_turns ?sv' = unexpect (se_id sess) (aa_id (hd who)) mid (expect (an_then an) (se_id sess) (aa_id (hd who)) mid (sv_turns sv))"
    by auto
  then show ?thesis
  proof cases
    case 1
    with short_later [OF assms] show ?thesis by simp
  next
    case 2
    with posted(1) have "turns_queued (an_now an) (sv_turns sv) (se_id sess) (aa_id (hd who)) < MaxQueued" by (simp add: callable_def Let_def)
    with short_deliver(1) [OF assms(1) this assms(2)] 2 show ?thesis by simp
  next
    case 3
    with posted(1) have "turns_queued (an_now an) (sv_turns sv) (se_id sess) (aa_id (hd who)) < MaxQueued" by (simp add: callable_def Let_def)
    with short_deliver(2) [OF assms(1) this assms(2)] 3 show ?thesis by simp
  qed
qed

lemma short_server:
  "short_queues t0 (sv_turns sv) \<Longrightarrow> sorted (t0 # concat (map op_times ops) @ [now])
    \<Longrightarrow> short_queues now (sv_turns (foldl (server_step isSession dflt) sv ops))"
proof (induction ops arbitrary: t0 sv)
  case Nil
  then show ?case by (auto intro: short_later)
next
  case (Cons op ops)
  have le: "t0 \<le> hd (op_times op)" using Cons.prems(2) by (cases op) auto
  have "short_queues (last (op_times op)) (sv_turns (server_step isSession dflt sv op))"
  proof (cases op)
    case (SDeliver an sess au msg)
    with Cons.prems short_DeliverMessage [OF short_later [OF Cons.prems(1), of "an_now an"]] show ?thesis by auto
  next
    case (SObserve n topic ev)
    with short_Observe [OF short_later [OF Cons.prems(1), of n], of isSession topic ev] le show ?thesis
      by (cases "Observe n isSession topic ev (sv_turns sv)") auto
  next
    case (SDeleted n sid)
    with short_step [OF short_later [OF Cons.prems(1), of n], of "TForget sid"] le show ?thesis by simp
  qed
  moreover have "sorted (last (op_times op) # concat (map op_times ops) @ [now])" using Cons.prems(2) by (cases op) auto
  ultimately show ?case using Cons.IH by simp
qed


text \<open>Five messages for an agent that starts none, and a sixth.\<close>

definition ex_answers :: "time \<Rightarrow> string \<Rightarrow> answers" where
  "ex_answers now i = \<lparr>an_now = now, an_then = now, an_running = False, an_members = None, an_agents = None, an_get = None,
     an_agents_again = None, an_agents_last = None, an_snapshot = Inr \<lparr>sn_rules = [], sn_users = Map.empty\<rparr>, an_append = None,
     an_signal = None, an_uuid = i\<rparr>"

definition ex_author :: author where
  "ex_author = \<lparr>au_id = ''u1'', au_name = ''Ann''\<rparr>"

definition ex_deliveries :: "server_op list" where
  "ex_deliveries = map (\<lambda>n. SDeliver (ex_answers (int n) (dec_nat n)) (ex_session ''p'' []) ex_author ''hello'') [1, 2, 3, 4, 5, 6]"


text \<open>A message for two agents in a session with an agent, both open.\<close>

definition ex_service :: service where
  "ex_service = new_service (foldl db_step empty_db ex_store_run)"

lemma ex_delivered:
  "\<exists>sv' r. DeliverMessage ''jarvis'' (ex_answers 1 ''m1'') (ex_session ''p'' []) ex_author ''@robert and @jarvis'' ex_service = (sv', Inr r)
     \<and> dl_called r"
proof -
  let ?an = "ex_answers 1 ''m1''" and ?msg = "''@robert and @jarvis''" and ?d = "sv_db ex_service"
  let ?snap = "\<lparr>sn_rules = [], sn_users = Map.empty\<rparr>"
  let ?who = "[addressed_agent_of (ex_agent ''bob'' ''Robert''), addressed_agent_of (ex_agent ''jarvis'' [])]"
  have m: "fst (mentionedAgents ?msg (ListAgents ?d) maxAgentsPerMessage) = ?who" by code_simp
  have b: "\<not> blank ?msg" by code_simp
  have s: "ForkSummaryState (ex_session ''p'' []) (an_running ?an) = SummaryFailed" by code_simp
  have n: "an_members ?an = None" "an_agents ?an = None" "an_append ?an = None" "an_signal ?an = None" by (simp_all add: ex_answers_def)
  have g: "agentOrDefault ''jarvis'' ?an ?d (se_agent (ex_session ''p'' [])) = Inr ''jarvis''" by code_simp
  have r: "ac_snap (access_rules (an_now ?an) (an_snapshot ?an) (sv_rules ex_service)) = ?snap"
    by (simp add: access_rules_def ex_service_def new_service_def no_rules_def ex_answers_def)
  have o: "openTo ?snap ''u1'' ?who = (?who, [])"
    by (simp add: openTo_def SnapshotAllowed_def SnapshotUser_def Allowed_Some)
  have q: "turns_queued (an_now ?an) (sv_turns ex_service) (se_id (ex_session ''p'' [])) i = 0" for i
    by (simp add: turns_queued_def known_of_def inner_def ex_service_def new_service_def no_turns_def)
  have u: "au_id ex_author = ''u1''" by (simp add: ex_author_def)
  have "DeliverMessage ''jarvis'' ?an (ex_session ''p'' []) ex_author ?msg ex_service
    = post_message ''jarvis'' ?an (ex_session ''p'' []) ex_author ?msg ''jarvis'' ?who []
        (ex_service\<lparr>sv_rules := access_rules (an_now ?an) (an_snapshot ?an) (sv_rules ex_service)\<rparr>)"
    unfolding DeliverMessage_def Let_def m by (simp add: answered_by_mode_def MaxQueued_def b s g r o q u n)
  then show ?thesis by (simp add: post_message_def deliver_def AppendMessage_def Let_def n)
qed


theorem refused_delivery_writes_nothing_witness:
  "sv_db (fst (DeliverMessage ''jarvis'' (ex_answers 1 ''m1'') (ex_session ''p'' []) ex_author ''  '' ex_service)) = sv_db ex_service"
proof -
  let ?D = "DeliverMessage ''jarvis'' (ex_answers 1 ''m1'') (ex_session ''p'' []) ex_author ''  '' ex_service"
  have "blank ''  ''" by code_simp
  then have "?D = (fst ?D, Inl ErrEmptyMessage)" by (simp add: DeliverMessage_def)
  from arg_cong [OF refused_delivery_writes_nothing [OF this], of sv_db] show ?thesis by simp
qed

subsection \<open>Who stops a turn\<close>

lemma cancel_each_sent:
  "(w, key) \<in> set (fst (cancel_each sess me ps)) \<Longrightarrow> \<exists>q ans. (w, q, ans) \<in> set ps \<and> cancel_choice sess me q = StopNamed key"
  by (induction sess me ps rule: cancel_each.induct)
    (auto split: prod.splits stop_choice.splits signal_answer.splits)


definition ex_current :: "string \<Rightarrow> string \<Rightarrow> current_message" where
  "ex_current turn u = \<lparr>cm_id = 7, cm_turn = turn, cm_user = u, cm_user_name = u\<rparr>"

definition ex_found :: "(string \<times> query_answer \<times> signal_answer) list" where
  "ex_found = [(''p:p:jarvis'', QueryState (Some (ex_current ''m7.jarvis'' ''u2'')), SignalSent),
     (''p:p:bob'', QueryState (Some (ex_current ''m8.bob'' ''u3'')), SignalSent)]"


end
