(* ===== verification/Transcript.thy ===== *)
theory Transcript
  imports ConvOrder Delivery
begin

section \<open>What a fork's summary and its reports are written from\<close>

text \<open>
  \<open>activity/fork.go\<close> and \<open>activity/report.go\<close>: the transcript of a conversation, the request a model is given to summarize it for a
  fork or to report on a fork, and the posting of what it wrote. The model itself is an argument (\<open>chat\<close>). A transcript goes to
  other users than those of the conversation: what a private tool was given or gave stays out of it, whatever it is; and the purpose
  of a fork, a member's words, stays inside its quote.
\<close>

definition maxSummaryTranscriptBytes :: nat where "maxSummaryTranscriptBytes = 300000"
definition maxSummaryToolInputBytes :: nat where "maxSummaryToolInputBytes = 300"
definition maxSummaryToolResultBytes :: nat where "maxSummaryToolResultBytes = 600"
definition maxSummaryTaskResultBytes :: nat where "maxSummaryTaskResultBytes = 4000"

fun decodeText :: "json \<Rightarrow> string" where
  "decodeText JAbsent = []"
| "decodeText JNull = []"
| "decodeText (JStr s) = s"
| "decodeText (JOther raw) = raw"

definition clip :: "string \<Rightarrow> nat \<Rightarrow> string" where
  "clip s n = (if length s \<le> n then s else take (back_up s n) s @ ellipsis)"

definition Transcribed :: "message \<Rightarrow> bool" where
  "Transcribed m =
     (if m_kind m = KindForkSummary \<or> m_kind m = KindForkReport \<or> m_kind m = KindTaskResult then True
      else if m_kind m \<noteq> KindNone then False
      else if m_role m = RoleUser then True
      else if m_role m = RoleAssistant then decodeText (m_content m) \<noteq> [] \<or> m_calls m \<noteq> []
      else m_result m \<noteq> None)"

definition Reportable :: "message \<Rightarrow> bool" where
  "Reportable m = (m_kind m \<noteq> KindForkSummary \<and> Transcribed m)"

definition eol :: string where "eol = [CHR 0x0A]"

definition opening_quote :: string where "opening_quote = [CHR 0xC2, CHR 0xAB]"
definition closing_quote :: string where "closing_quote = [CHR 0xC2, CHR 0xBB]"

text \<open>A background task's end; a message without a task shows the zero one.\<close>

definition task_label :: "message \<Rightarrow> string" where
  "task_label m =
     (let tool_name = (case m_task m of Some t \<Rightarrow> cmp_or (ref_tool t) ''a tool'' | None \<Rightarrow> ''a tool'');
          summ = (case m_task m of Some t \<Rightarrow> if ref_summary t \<noteq> [] then '' ('' @ ref_summary t @ '')'' else [] | None \<Rightarrow> []);
          of_agent = (if m_agent m \<noteq> [] then '' of agent '' @ m_agent m else []);
          for_user = (case m_task m of Some t \<Rightarrow> if ref_requested_by t \<noteq> [] then '', for '' @ ref_requested_by t else [] | None \<Rightarrow> []);
          st = (case m_task m of None \<Rightarrow> []
                | Some t \<Rightarrow> (case ref_state t of BackgroundFailed \<Rightarrow> '', failed''
                            | BackgroundCancelled \<Rightarrow> '', cancelled by '' @ cmp_or (ref_cancelled_by t) ''a member'' | _ \<Rightarrow> []))
      in ''[Result of the background task '' @ tool_name @ summ @ of_agent @ for_user @ st @ '']'')"

definition taskTranscript :: "message \<Rightarrow> string \<Rightarrow> string" where
  "taskTranscript m msg = (if msg = [] then task_label m else task_label m @ eol @ clip msg maxSummaryTaskResultBytes)"

definition transcriptEntry :: "message \<Rightarrow> (string \<Rightarrow> bool) \<Rightarrow> bool \<Rightarrow> string" where
  "transcriptEntry m isPrivate privateResult =
     (let msg = decodeText (m_content m);
          who = ''Assistant'' @ (if m_author m \<noteq> [] then '' ('' @ m_author m @ '')'' else [])
      in if \<not> Transcribed m then []
         else if m_kind m = KindForkSummary then ''[Summary of an earlier conversation this one continued]'' @ eol @ msg
         else if m_kind m = KindForkReport
         then ''[Report from fork '' @ opening_quote @ '' ''
              @ (case m_fork m of Some f \<Rightarrow> if fr_title f \<noteq> [] then fr_title f else ''untitled'' | None \<Rightarrow> ''untitled'')
              @ '' '' @ closing_quote @ '', posted by '' @ cmp_or (m_author m) ''a member'' @ '']'' @ eol @ msg
         else if m_kind m = KindTaskResult then taskTranscript m msg
         else if m_role m = RoleUser \<and> m_author m \<noteq> [] then ''User ('' @ m_author m @ ''): '' @ msg
         else if m_role m = RoleUser then ''User: '' @ msg
         else if m_role m = RoleAssistant
         then join eol ((if msg \<noteq> [] then [who @ '': '' @ msg] else [])
                @ map (\<lambda>tc. who @ '' called '' @ tc_name tc @ '' '' @ clip (DisplayInput (isPrivate (tc_name tc)) (tc_input tc)) maxSummaryToolInputBytes)
                    (m_calls m))
         else case m_result m of None \<Rightarrow> []
           | Some r \<Rightarrow> (if tr_error r then ''Tool error'' else ''Tool result'') @ '': ''
                       @ clip (DisplayResult privateResult (tr_content r)) maxSummaryToolResultBytes)"

text \<open>The tool of each call, by its ID; the last one seen when an ID comes twice.\<close>

definition toolCalls :: "msg_row list \<Rightarrow> (string \<rightharpoonup> string)" where
  "toolCalls ms = foldl (\<lambda>m tc. m(tc_id tc \<mapsto> tc_name tc)) Map.empty (concat (map (m_calls \<circ> r_data) ms))"

definition is_private :: "(string \<Rightarrow> bool) option \<Rightarrow> string \<Rightarrow> bool" where
  "is_private private name = (case private of None \<Rightarrow> True | Some p \<Rightarrow> p name)"

definition private_result :: "(string \<rightharpoonup> string) \<Rightarrow> (string \<Rightarrow> bool) option \<Rightarrow> message \<Rightarrow> bool" where
  "private_result calls private m =
     (case m_result m of None \<Rightarrow> False
      | Some r \<Rightarrow> (case calls (tr_call r) of None \<Rightarrow> True | Some name \<Rightarrow> is_private private name))"

definition entries_of :: "msg_row list \<Rightarrow> (string \<rightharpoonup> string) \<Rightarrow> (string \<Rightarrow> bool) option \<Rightarrow> string list" where
  "entries_of ms calls private =
     filter (\<lambda>e. e \<noteq> []) (map (\<lambda>r. transcriptEntry (r_data r) (is_private private) (private_result calls private (r_data r))) ms)"

text \<open>The entries that fit, from the last one back.\<close>

fun fit :: "nat \<Rightarrow> string list \<Rightarrow> string list" where
  "fit used [] = []"
| "fit used (e # es) = (if used + length e + 2 \<le> maxSummaryTranscriptBytes then e # fit (used + length e + 2) es else [])"

definition omitted_note :: string where
  "omitted_note = ''[The beginning of the conversation is omitted: too long.]''"

definition buildTranscript :: "msg_row list \<Rightarrow> (string \<rightharpoonup> string) \<Rightarrow> (string \<Rightarrow> bool) option \<Rightarrow> string \<times> bool" where
  "buildTranscript ms calls private =
     (let es = entries_of ms calls private; kept_es = rev (fit 0 (rev es)); truncated = (length kept_es < length es)
      in (join (eol @ eol) ((if truncated then [omitted_note] else []) @ kept_es), truncated))"

subsection \<open>A fork's purpose in its quote\<close>

definition is_white :: "char \<Rightarrow> bool" where
  "is_white c = (c \<in> {CHR 0x20, CHR 0x09, CHR 0x0A, CHR 0x0C, CHR 0x0D})"

text \<open>
  \<open>(?i)<\s*/?\s*goal\b[^>]*>\<close> after its \<open><\<close>: what is left past the name, when the name is there and ends.
\<close>

fun strip_goal :: "string \<Rightarrow> string option" where
  "strip_goal (a # b # c # d # r) =
     (if lower_char a = CHR ''g'' \<and> lower_char b = CHR ''o'' \<and> lower_char c = CHR ''a'' \<and> lower_char d = CHR ''l''
         \<and> (r = [] \<or> \<not> word_char (hd r)) then Some r else None)"
| "strip_goal _ = None"

definition after_slash :: "string \<Rightarrow> string" where
  "after_slash s = (case s of [] \<Rightarrow> [] | c # cs \<Rightarrow> if c = CHR ''/'' then dropWhile is_white cs else c # cs)"

definition tag_name :: "string \<Rightarrow> string option" where
  "tag_name s = strip_goal (after_slash (dropWhile is_white s))"

text \<open>What follows the tag \<open>s\<close> starts with, when it starts with one.\<close>

definition after_tag :: "string \<Rightarrow> string option" where
  "after_tag s =
     (case s of [] \<Rightarrow> None
      | c # cs \<Rightarrow> if c \<noteq> CHR ''<'' then None
        else case tag_name cs of None \<Rightarrow> None
          | Some r \<Rightarrow> if CHR ''>'' \<in> set r then Some (tl (dropWhile (\<lambda>c. c \<noteq> CHR ''>'') r)) else None)"

lemma strip_goal_length: "strip_goal s = Some r \<Longrightarrow> length r \<le> length s"
  by (induction s rule: strip_goal.induct) (auto split: if_splits)

lemma after_slash_length: "length (after_slash s) \<le> length s"
proof (cases s)
  case (Cons c cs)
  then show ?thesis using length_dropWhile_le [of is_white cs] by (auto simp: after_slash_def)
qed (simp add: after_slash_def)

lemma after_tag_length: "after_tag s = Some r \<Longrightarrow> length r < length s"
proof -
  assume a: "after_tag s = Some r"
  then obtain cs x where x: "s = CHR ''<'' # cs" "tag_name cs = Some x" "r = tl (dropWhile (\<lambda>c. c \<noteq> CHR ''>'') x)"
    by (auto simp: after_tag_def split: list.splits if_splits option.splits)
  have "length r \<le> length x" using x(3) length_dropWhile_le [of "\<lambda>c. c \<noteq> CHR ''>''" x] by simp
  also have "\<dots> \<le> length cs"
    using strip_goal_length [OF x(2) [unfolded tag_name_def]] after_slash_length [of "dropWhile is_white cs"] length_dropWhile_le [of is_white cs] by linarith
  finally show ?thesis using x(1) by simp
qed

text \<open>\<open>ReplaceAllString\<close> with \<open>(goal)\<close>.\<close>

function defuse :: "string \<Rightarrow> string" where
  "defuse s = (case after_tag s of Some r \<Rightarrow> ''(goal)'' @ defuse r | None \<Rightarrow> (case s of [] \<Rightarrow> [] | c # cs \<Rightarrow> c # defuse cs))"
  by pat_completeness auto
termination
  by (relation "measure length") (auto dest: after_tag_length)

declare defuse.simps [simp del]

definition quoteGoal :: "string \<Rightarrow> string" where
  "quoteGoal purpose = ''<goal>'' @ eol @ defuse purpose @ eol @ ''</goal>''"

subsection \<open>Summaries and reports\<close>

text \<open>The prompts a system prompt is made of, in order.\<close>

datatype prompt = SummaryPrompt | SummaryPurposePrompt | ReportPrompt | ReportPurposePrompt | ReportLaterPrompt

datatype summary_error = MessageNotFound | NothingToReport | PermanentAPIError string | LLMFailed string | EmptySummary

datatype llm_answer = Answered string | Refused string | Unavailable string

definition summarize :: "(prompt list \<Rightarrow> string \<Rightarrow> llm_answer) \<Rightarrow> prompt list \<Rightarrow> string \<Rightarrow> (summary_error, string) result" where
  "summarize chat system request =
     (case chat system request of Refused e \<Rightarrow> Inl (PermanentAPIError e) | Unavailable e \<Rightarrow> Inl (LLMFailed e)
      | Answered content \<Rightarrow> (let s = concat (trimmed_runes content) in if s = [] then Inl EmptySummary else Inr s))"

definition last_is :: "msg_row list \<Rightarrow> int \<Rightarrow> bool" where
  "last_is ms up_to = (ms \<noteq> [] \<and> r_id (last ms) = up_to)"

definition summary_request :: "msg_row list \<Rightarrow> (string \<Rightarrow> bool) option \<Rightarrow> string \<Rightarrow> string" where
  "summary_request ms private purpose =
     (let req = ''Conversation to summarize:'' @ eol @ eol @ fst (buildTranscript (Order ms) (toolCalls ms) private)
      in if purpose \<noteq> [] then quoteGoal purpose @ eol @ eol @ req else req)"

definition SummarizeConversation ::
  "(prompt list \<Rightarrow> string \<Rightarrow> llm_answer) \<Rightarrow> msg_table \<Rightarrow> string \<Rightarrow> int \<Rightarrow> string \<Rightarrow> (string \<Rightarrow> bool) option
    \<Rightarrow> (summary_error, string \<times> bool) result" where
  "SummarizeConversation chat T sid up_to purpose private =
     (let ms = LoadMessagesUpTo T sid up_to
      in if \<not> last_is ms up_to then Inl MessageNotFound
         else case summarize chat (SummaryPrompt # (if purpose \<noteq> [] then [SummaryPurposePrompt] else [])) (summary_request ms private purpose) of
             Inl e \<Rightarrow> Inl e
           | Inr s \<Rightarrow> Inr (s, snd (buildTranscript (Order ms) (toolCalls ms) private)))"

definition reported_part :: "msg_row list \<Rightarrow> int \<Rightarrow> msg_row list" where
  "reported_part ms after_id = filter (\<lambda>r. m_kind (r_data r) \<noteq> KindForkSummary \<and> after_id < r_id r) ms"

definition brief_of :: "msg_row list \<Rightarrow> string" where
  "brief_of ms = (case filter (\<lambda>r. m_kind (r_data r) = KindForkSummary) ms of [] \<Rightarrow> [] | rs \<Rightarrow> decodeText (m_content (r_data (last rs))))"

definition report_request :: "msg_row list \<Rightarrow> int \<Rightarrow> string \<Rightarrow> (string \<Rightarrow> bool) option \<Rightarrow> string" where
  "report_request ms after_id purpose private =
     (if purpose \<noteq> [] then quoteGoal purpose @ eol @ eol else [])
     @ (if brief_of ms \<noteq> []
        then ''What the parent conversation had established when the fork started (the brief it started from):'' @ eol @ eol @ brief_of ms @ eol @ eol
        else [])
     @ ''Conversation to report on:'' @ eol @ eol @ fst (buildTranscript (Order (reported_part ms after_id)) (toolCalls ms) private)"

definition SummarizeForkReport ::
  "(prompt list \<Rightarrow> string \<Rightarrow> llm_answer) \<Rightarrow> msg_table \<Rightarrow> string \<Rightarrow> int \<Rightarrow> int \<Rightarrow> string \<Rightarrow> (string \<Rightarrow> bool) option
    \<Rightarrow> (summary_error, string \<times> bool) result" where
  "SummarizeForkReport chat T sid after_id up_to purpose private =
     (let ms = LoadMessagesUpTo T sid up_to; part = reported_part ms after_id
      in if \<not> last_is ms up_to then Inl MessageNotFound
         else if \<not> list_ex (\<lambda>r. Reportable (r_data r)) part then Inl NothingToReport
         else case summarize chat (ReportPrompt # (if purpose \<noteq> [] then [ReportPurposePrompt] else [])
                     @ (if 0 < after_id then [ReportLaterPrompt] else [])) (report_request ms after_id purpose private) of
             Inl e \<Rightarrow> Inl e
           | Inr s \<Rightarrow> Inr (s, snd (buildTranscript (Order part) (toolCalls ms) private)))"

text \<open>Posting what the model wrote.\<close>

definition PostForkSummary :: "string \<Rightarrow> string \<Rightarrow> database \<Rightarrow> (store_error, database \<times> int) result" where
  "PostForkSummary forkID summ d =
     AppendForkSummary forkID ((empty_message RoleUser)\<lparr>m_kind := KindForkSummary, m_content := json_marshal summ\<rparr>) d"

definition report_message :: "string \<Rightarrow> string \<Rightarrow> int \<Rightarrow> string \<Rightarrow> string \<Rightarrow> string \<Rightarrow> message" where
  "report_message forkID title up_to reporterID reporterName report =
     (empty_message RoleUser)\<lparr>m_kind := KindForkReport, m_content := json_marshal report, m_user := reporterID, m_author := reporterName,
       m_fork := Some \<lparr>fr_session = forkID, fr_title = title, fr_upto = up_to\<rparr>\<rparr>"

definition reportRefusal :: "store_error \<Rightarrow> string" where
  "reportRefusal e =
     (case e of ErrForkGone \<Rightarrow> ''ForkGone'' | ErrReportParentGone \<Rightarrow> ''ParentGone'' | ErrReportNotForkMember \<Rightarrow> ''NotForkMember''
      | ErrReportNotParentMember \<Rightarrow> ''NotParentMember'' | ErrReportStale \<Rightarrow> ''ReportStale'' | _ \<Rightarrow> [])"

definition PostForkReport :: "time \<Rightarrow> fork_report \<Rightarrow> string \<Rightarrow> string \<Rightarrow> string \<Rightarrow> database \<Rightarrow> (store_error, database \<times> int) result" where
  "PostForkReport now r title reporterName report d =
     AppendForkReport now (r\<lparr>rp_message := report_message (rp_fork r) title (rp_upto r) (rp_reporter r) reporterName report\<rparr>) d"

subsection \<open>No tag is left in a quote\<close>

lemma after_tag_Nil [simp]: "after_tag [] = None"
  by (simp add: after_tag_def)

lemma strip_goal_Some:
  "strip_goal s = Some r \<Longrightarrow> \<exists>a b c d. s = a # b # c # d # r \<and> lower_char a = CHR ''g'' \<and> lower_char b = CHR ''o''
     \<and> lower_char c = CHR ''a'' \<and> lower_char d = CHR ''l''"
  by (induction s rule: strip_goal.induct) (auto split: if_splits)

lemma defuse_Nil [simp]: "defuse [] = []"
  by (subst defuse.simps) simp

lemma after_tag_other: "c \<noteq> CHR ''<'' \<Longrightarrow> after_tag (c # cs) = None"
  by (simp add: after_tag_def)

lemma defuse_other: "c \<noteq> CHR ''<'' \<Longrightarrow> defuse (c # cs) = c # defuse cs"
  by (subst defuse.simps) (simp add: after_tag_other)

text \<open>What a text starts with once defused: its own first character, or the parenthesis of a tag.\<close>

lemma defuse_hd: "s \<noteq> [] \<Longrightarrow> \<exists>r. defuse s = hd s # r \<or> hd s = CHR ''<'' \<and> defuse s = CHR 0x28 # r"
proof -
  assume "s \<noteq> []"
  then obtain c cs where s: "s = c # cs" by (cases s) auto
  show ?thesis
  proof (cases "after_tag s")
    case None
    then have "defuse s = c # defuse cs" using s by (subst defuse.simps) simp
    then show ?thesis using s by auto
  next
    case (Some r)
    then have "c = CHR ''<''" using s after_tag_other by fastforce
    moreover have "defuse s = ''(goal)'' @ defuse r" using Some by (subst defuse.simps) simp
    ultimately show ?thesis using s by simp
  qed
qed

lemma white_chars: "is_white c \<Longrightarrow> c \<noteq> CHR ''<''" "\<not> is_white (CHR 0x28)" "\<not> is_white (CHR ''<'')" "\<not> is_white (CHR ''/'')"
  by (auto simp: is_white_def)

lemma skip_defuse: "dropWhile is_white (defuse s) = defuse (dropWhile is_white s)"
proof (induction s)
  case (Cons c cs)
  show ?case
  proof (cases "is_white c")
    case True
    with Cons white_chars(1) show ?thesis by (simp add: defuse_other)
  next
    case False
    with defuse_hd [of "c # cs"] white_chars(2) show ?thesis by auto
  qed
qed simp

lemma after_slash_defuse: "after_slash (defuse s) = defuse (after_slash s)"
proof (cases s)
  case (Cons c cs)
  show ?thesis
  proof (cases "c = CHR ''/''")
    case True
    with Cons show ?thesis by (simp add: defuse_other after_slash_def skip_defuse)
  next
    case False
    with defuse_hd [of s] Cons obtain x r where "defuse s = x # r" "x \<noteq> CHR ''/''" by auto
    with False Cons show ?thesis by (simp add: after_slash_def)
  qed
qed (simp add: after_slash_def)

lemma lower_char_goal:
  "lower_char c \<in> {CHR ''g'', CHR ''o'', CHR ''a'', CHR ''l''} \<Longrightarrow> c \<noteq> CHR ''<'' \<and> c \<noteq> CHR 0x28"
  by (auto simp: lower_char_def)

lemma defuse_Cons: "defuse s = c # t \<Longrightarrow> c \<noteq> CHR ''<'' \<Longrightarrow> c \<noteq> CHR 0x28 \<Longrightarrow> \<exists>s'. s = c # s' \<and> t = defuse s'"
  using defuse_hd [of s] by (cases s) (auto simp: defuse_other)

text \<open>The name of a tag is read the same in a text and in the text defused.\<close>

lemma word_hd_defuse: "(defuse s = [] \<or> \<not> word_char (hd (defuse s))) \<longleftrightarrow> (s = [] \<or> \<not> word_char (hd s))"
proof (cases "s = []")
  case False
  have "\<not> word_char (CHR ''<'')" "\<not> word_char (CHR 0x28)" by (simp_all add: word_char_def)
  with defuse_hd [OF False] False show ?thesis by auto
qed simp

lemma strip_goal_named:
  assumes "lower_char a = CHR ''g''" "lower_char b = CHR ''o''" "lower_char c = CHR ''a''" "lower_char d = CHR ''l''"
  shows "strip_goal (defuse (a # b # c # d # r)) = map_option defuse (strip_goal (a # b # c # d # r))"
proof -
  have "a \<noteq> CHR ''<''" "b \<noteq> CHR ''<''" "c \<noteq> CHR ''<''" "d \<noteq> CHR ''<''" using assms lower_char_goal by auto
  then have "defuse (a # b # c # d # r) = a # b # c # d # defuse r" by (simp add: defuse_other)
  with assms word_hd_defuse [of r] show ?thesis by simp
qed

lemma strip_goal_defuse: "strip_goal (defuse s) = map_option defuse (strip_goal s)"
proof (cases "strip_goal (defuse s)")
  case None
  show ?thesis
  proof (cases "strip_goal s")
    case (Some r)
    from strip_goal_Some [OF this] strip_goal_named show ?thesis by blast
  qed (use None in simp)
next
  case (Some x)
  from strip_goal_Some [OF this] obtain a b c d where d: "defuse s = a # b # c # d # x" and n: "lower_char a = CHR ''g''" "lower_char b = CHR ''o''"
    "lower_char c = CHR ''a''" "lower_char d = CHR ''l''" by blast
  from n lower_char_goal have "a \<notin> {CHR ''<'', CHR 0x28}" "b \<notin> {CHR ''<'', CHR 0x28}" "c \<notin> {CHR ''<'', CHR 0x28}" "d \<notin> {CHR ''<'', CHR 0x28}" by auto
  with d defuse_Cons obtain r where "s = a # b # c # d # r" by (metis insertCI)
  with strip_goal_named [OF n] show ?thesis by simp
qed

lemma tag_name_defuse: "tag_name (defuse s) = map_option defuse (tag_name s)"
  by (simp add: tag_name_def skip_defuse after_slash_defuse strip_goal_defuse)

lemma set_after_slash: "set (after_slash s) \<subseteq> set s"
  by (cases s) (auto simp: after_slash_def dest: set_dropWhileD)

lemma after_tag_needs_end: "CHR ''>'' \<notin> set s \<Longrightarrow> after_tag s = None"
proof (rule ccontr)
  assume n: "CHR ''>'' \<notin> set s" and "after_tag s \<noteq> None"
  then obtain cs x where x: "s = CHR ''<'' # cs" "tag_name cs = Some x" "CHR ''>'' \<in> set x"
    by (auto simp: after_tag_def split: list.splits if_splits option.splits)
  have "set x \<subseteq> set (after_slash (dropWhile is_white cs))"
    using strip_goal_Some [OF x(2) [unfolded tag_name_def]] by auto
  also have "\<dots> \<subseteq> set (dropWhile is_white cs)" by (rule set_after_slash)
  also have "\<dots> \<subseteq> set cs" by (auto dest: set_dropWhileD)
  finally show False using n x by auto
qed

lemma defuse_no_end: "CHR ''>'' \<notin> set s \<Longrightarrow> defuse s = s"
proof (induction s)
  case (Cons c cs)
  then have "after_tag (c # cs) = None" by (intro after_tag_needs_end) simp
  with Cons show ?case by (subst defuse.simps) simp
qed simp

text \<open>A character kept starts no tag in what follows it, once defused.\<close>

lemma kept_starts_none: "after_tag (c # cs) = None \<Longrightarrow> after_tag (c # defuse cs) = None"
proof (cases "c = CHR ''<''")
  case True
  assume a: "after_tag (c # cs) = None"
  show ?thesis
  proof (cases "tag_name cs")
    case None
    then show ?thesis using True by (simp add: after_tag_def tag_name_defuse)
  next
    case (Some r)
    with a True have "CHR ''>'' \<notin> set r" by (auto simp: after_tag_def split: if_splits)
    with Some True show ?thesis by (simp add: after_tag_def tag_name_defuse defuse_no_end)
  qed
qed (simp add: after_tag_def)


subsection \<open>What a transcript leaves out\<close>

text \<open>A message with what a private tool was given, and what it gave, wiped out: \<open>p\<close> tells the private tools, all of them when
  it is not there; what answers no known call is wiped out too.\<close>

definition hidden_tool :: "(string \<Rightarrow> bool) option \<Rightarrow> string \<Rightarrow> bool" where
  "hidden_tool private name \<longleftrightarrow> private = None \<or> (\<exists>p. private = Some p \<and> p name)"

definition hidden_call :: "(string \<rightharpoonup> string) \<Rightarrow> (string \<Rightarrow> bool) option \<Rightarrow> string \<Rightarrow> bool" where
  "hidden_call calls private i \<longleftrightarrow> i \<notin> dom calls \<or> hidden_tool private (the (calls i))"

definition wipe :: "(string \<rightharpoonup> string) \<Rightarrow> (string \<Rightarrow> bool) option \<Rightarrow> msg_row \<Rightarrow> msg_row" where
  "wipe calls private r =
     r\<lparr>r_data := (r_data r)\<lparr>
        m_calls := map (\<lambda>tc. if hidden_tool private (tc_name tc) then tc\<lparr>tc_input := []\<rparr> else tc) (m_calls (r_data r)),
        m_result := map_option (\<lambda>x. if hidden_call calls private (tr_call x) then x\<lparr>tr_content := []\<rparr> else x) (m_result (r_data r))\<rparr>\<rparr>"

lemma is_private_hidden: "is_private private name = hidden_tool private name"
  by (auto simp: is_private_def hidden_tool_def split: option.split)

lemma private_result_hidden: "m_result m = Some x \<Longrightarrow> private_result calls private m = hidden_call calls private (tr_call x)"
  by (auto simp: private_result_def hidden_call_def is_private_hidden split: option.split)

lemma wipe_fields:
  "m_kind (r_data (wipe calls private r)) = m_kind (r_data r)" "m_role (r_data (wipe calls private r)) = m_role (r_data r)"
  "m_content (r_data (wipe calls private r)) = m_content (r_data r)" "m_author (r_data (wipe calls private r)) = m_author (r_data r)"
  "m_fork (r_data (wipe calls private r)) = m_fork (r_data r)" "m_task (r_data (wipe calls private r)) = m_task (r_data r)"
  "m_agent (r_data (wipe calls private r)) = m_agent (r_data r)" "r_id (wipe calls private r) = r_id r" "r_key (wipe calls private r) = r_key r"
  by (simp_all add: wipe_def)

lemma wipe_shown:
  "Transcribed (r_data (wipe calls private r)) = Transcribed (r_data r)"
  "private_result calls private (r_data (wipe calls private r)) = private_result calls private (r_data r)"
  by (simp_all add: Transcribed_def private_result_def wipe_def split: option.split)

lemma entry_wipe:
  "transcriptEntry (r_data (wipe calls private r)) (is_private private) (private_result calls private (r_data r))
     = transcriptEntry (r_data r) (is_private private) (private_result calls private (r_data r))"
proof -
  let ?show = "\<lambda>who tc. who @ '' called '' @ tc_name tc @ '' '' @ clip (DisplayInput (is_private private (tc_name tc)) (tc_input tc)) maxSummaryToolInputBytes"
  have calls: "map (?show who) (m_calls (r_data (wipe calls private r))) = map (?show who) (m_calls (r_data r))" for who
    by (simp add: wipe_def DisplayInput_def comp_def is_private_hidden)
  have task: "taskTranscript (r_data (wipe calls private r)) x = taskTranscript (r_data r) x" for x
    by (simp add: taskTranscript_def task_label_def wipe_fields)
  have result: "(case m_result (r_data (wipe calls private r)) of None \<Rightarrow> []
      | Some x \<Rightarrow> (if tr_error x then ''Tool error'' else ''Tool result'') @ '': ''
          @ clip (DisplayResult (private_result calls private (r_data r)) (tr_content x)) maxSummaryToolResultBytes)
    = (case m_result (r_data r) of None \<Rightarrow> []
      | Some x \<Rightarrow> (if tr_error x then ''Tool error'' else ''Tool result'') @ '': ''
          @ clip (DisplayResult (private_result calls private (r_data r)) (tr_content x)) maxSummaryToolResultBytes)"
    by (auto simp: wipe_def DisplayResult_def private_result_hidden split: option.split)
  show ?thesis unfolding transcriptEntry_def Let_def wipe_fields wipe_shown task calls result ..
qed

text \<open>C39: What a private tool is given and gives never shows in a transcript, nor what was given to a tool when nothing tells which are
  private, nor the result of a call that is not known: the transcript of a conversation is that of the conversation with all of it
  wiped out, so it tells nothing of it.\<close>

theorem transcript_hides_private:
  "buildTranscript (map (wipe calls private) ms) calls private = buildTranscript ms calls private"
proof -
  have "entries_of (map (wipe calls private) ms) calls private = entries_of ms calls private"
    by (simp add: entries_of_def comp_def wipe_shown entry_wipe)
  then show ?thesis by (simp add: buildTranscript_def)
qed

subsection \<open>How long a transcript is\<close>

lemma fit_size: "used \<le> maxSummaryTranscriptBytes \<Longrightarrow> used + sum_list (map (\<lambda>e. length e + 2) (fit used es)) \<le> maxSummaryTranscriptBytes"
  by (induction used es rule: fit.induct) auto

lemma join_size: "length (join sep es) + (if es = [] then 0 else length sep) = sum_list (map (\<lambda>e. length e + length sep) es)"
proof (induction es)
  case (Cons e es)
  then show ?case by (cases es) auto
qed simp

lemma fit_prefix: "\<exists>rest. es = fit used es @ rest"
proof (induction used es rule: fit.induct)
  case (2 used e es)
  then show ?case by auto
qed simp

lemma fit_more: "fit used es \<noteq> es \<Longrightarrow> \<exists>e rest. es = fit used es @ e # rest \<and> maxSummaryTranscriptBytes < used + sum_list (map (\<lambda>e. length e + 2) (fit used es @ [e]))"
proof (induction used es rule: fit.induct)
  case (2 used e es)
  then show ?case by (cases "used + length e + 2 \<le> maxSummaryTranscriptBytes") (auto simp: add.assoc)
qed simp

text \<open>A transcript holds the last entries of the conversation, whole and in order, as many as fit in \<open>maxSummaryTranscriptBytes\<close>, and
  says so when it leaves some out: it is cut only when one more would not fit, and is never longer than that limit and its note.\<close>

theorem transcript_is_bounded:
  assumes "buildTranscript ms calls private = (t, truncated)"
  shows "length t \<le> maxSummaryTranscriptBytes + length omitted_note
    \<and> (\<exists>left shown. entries_of ms calls private = left @ shown \<and> (truncated \<longleftrightarrow> left \<noteq> [])
         \<and> t = join (eol @ eol) ((if truncated then [omitted_note] else []) @ shown)
         \<and> (left \<noteq> [] \<longrightarrow> maxSummaryTranscriptBytes < sum_list (map (\<lambda>e. length e + 2) (last left # shown))))"
proof -
  let ?es = "entries_of ms calls private" and ?f = "fit 0 (rev (entries_of ms calls private))"
  obtain rest where rest: "rev ?es = ?f @ rest" using fit_prefix by blast
  then have es: "?es = rev rest @ rev ?f" by (metis rev_append rev_rev_ident)
  have len: "length ?es = length rest + length ?f" using es by (metis length_append length_rev)
  have t: "t = join (eol @ eol) ((if truncated then [omitted_note] else []) @ rev ?f)" "truncated \<longleftrightarrow> rest \<noteq> []"
    using assms len by (auto simp: buildTranscript_def Let_def)
  have "sum_list (map (\<lambda>e. length e + 2) (rev ?f)) \<le> maxSummaryTranscriptBytes"
    using fit_size [of 0 "rev ?es"] by (simp add: rev_map [symmetric] sum_list_rev)
  moreover have "length (join (eol @ eol) (rev ?f)) \<le> sum_list (map (\<lambda>e. length e + 2) (rev ?f))"
    using join_size [of "eol @ eol" "rev ?f"] by (simp add: eol_def)
  moreover have "length (join (eol @ eol) (omitted_note # rev ?f)) + 2 = length omitted_note + 2 + sum_list (map (\<lambda>e. length e + 2) (rev ?f))"
    using join_size [of "eol @ eol" "omitted_note # rev ?f"] by (simp add: eol_def)
  ultimately have bound: "length t \<le> maxSummaryTranscriptBytes + length omitted_note"
    unfolding t(1) by (cases truncated) simp_all
  have "maxSummaryTranscriptBytes < sum_list (map (\<lambda>e. length e + 2) (last (rev rest) # rev ?f))" if "rest \<noteq> []"
  proof -
    from that rest have "?f \<noteq> rev ?es" by auto
    from fit_more [OF this] obtain e r where e: "rev ?es = ?f @ e # r"
      "maxSummaryTranscriptBytes < sum_list (map (\<lambda>e. length e + 2) (?f @ [e]))" by auto
    have "rest = e # r" using e(1) rest by (metis same_append_eq)
    with e(2) show ?thesis by (simp add: rev_map [symmetric] sum_list_rev last_rev)
  qed
  with bound t es show ?thesis by (intro conjI exI [of _ "rev rest"] exI [of _ "rev ?f"]) auto
qed

text \<open>A user's message and a call of a private tool.\<close>

definition ex_rows :: "msg_row list" where
  "ex_rows = [\<lparr>r_session = ''s'', r_id = 1, r_key = ''msg:a'', r_data = (empty_message RoleUser)\<lparr>m_content := JStr ''hi'', m_author := ''Ann''\<rparr>\<rparr>,
     \<lparr>r_session = ''s'', r_id = 2, r_key = ''m1.jarvis:0'', r_data = (empty_message RoleAssistant)\<lparr>m_content := JNull,
        m_calls := [\<lparr>tc_id = ''c1'', tc_name = ''save_memory'', tc_input = ''secret''\<rparr>]\<rparr>\<rparr>]"

lemma ex_entries: "entries_of ex_rows (toolCalls ex_rows) None
    = [''User (Ann): hi'', ''Assistant called save_memory '' @ clip hiddenInput maxSummaryToolInputBytes]"
  by (simp add: entries_of_def ex_rows_def transcriptEntry_def Transcribed_def empty_message_def is_private_def private_result_def DisplayInput_def)

theorem transcript_is_bounded_witness:
  "\<exists>t truncated. buildTranscript ex_rows (toolCalls ex_rows) None = (t, truncated)
     \<and> length t \<le> maxSummaryTranscriptBytes + length omitted_note
     \<and> length (entries_of ex_rows (toolCalls ex_rows) None) = 2"
proof -
  obtain t truncated where b: "buildTranscript ex_rows (toolCalls ex_rows) None = (t, truncated)" by fastforce
  from transcript_is_bounded [OF b] b ex_entries show ?thesis by simp
qed

end
