(* ===== verification/Spec2Isabelle.thy ===== *)
theory Spec2Isabelle
  imports ConvOrder Catalog Throttle Directives Tasks Participant AgentRun Background Hub Convert Prompt GatewayRuns
    StatusCache Transcript
begin

text \<open>
  temporal-agent is a platform of agents in Go, on Temporal and PostgreSQL. Members write in a session; each agent of it is
  a participant, a workflow that answers its messages in order, one turn at a time (\<open>workflow/participant.go\<close>). A turn is
  a run of \<open>AgentWorkflow\<close> (\<open>workflow/agent.go\<close>): a loop that reads the conversation, asks a model, runs the tools it
  calls, and stores the transcript under keys of the turn. The model runs on the server, or on a machine of the user
  (\<open>workflow/agent_llm.go\<close>). A tool call may be a sub-agent, another \<open>AgentWorkflow\<close>, or a background task, whose result
  is posted in the session and wakes the participant (\<open>workflow/background.go\<close>). What a user may call is decided by rules
  (\<open>access/\<close>) over the tools the workers publish (\<open>activity/catalog.go\<close>). A user's machines hold tokens and run directives
  under caps (\<open>store/machine.go\<close>); each keeps a WebSocket to the gateway (\<open>gateway/\<close>), which hands directives over and takes
  results. The requests of the members go through a service (\<open>session/\<close>), which finds the agents a message calls, delivers it to
  the first one's participant, stops turns, tracks what the participants do, and forks a session, whose summary and reports
  are written by a model (\<open>activity/fork.go\<close>, \<open>activity/report.go\<close>).

  \<^bold>\<open>The theories\<close>, in the order they rest on one another.

  \<^item> \<open>Prelude\<close>: decimal numerals, UTF-8 as Go's \<open>unicode/utf8\<close> reads it, sorted lists, and the interfaces the components
    share: the locales \<open>guarded\<close> (steps that keep an invariant under a guard), \<open>machine\<close> (under none) and \<open>first_writer\<close> (what
    is found under a key, once there, stays).
  \<^item> \<open>Keys\<close>: \<open>TurnKey\<close>, \<open>TurnOf\<close>, \<open>TurnEndKey\<close>, \<open>TaskOfWorkflow\<close> and the workflow IDs of \<open>store/message.go\<close> and
    \<open>store/background_task.go\<close>: round trips, and keys of different writers never mistaken, but for one.
  \<^item> \<open>Messages\<close>: the table \<open>messages\<close>, \<open>AppendMessage\<close> (a row under a key is never replaced), turn ends,
    \<open>LoadConversation\<close> and \<open>TurnReads\<close>. \<open>ConvOrder\<close>: \<open>conversation/order.go\<close>, turns placed whole after the message they answer.
    \<open>Convert\<close>: \<open>conversation/convert.go\<close>, the conversation as one agent's model reads it.
  \<^item> \<open>Glob\<close>, \<open>Access\<close>: globs and rules. \<open>Json\<close>, \<open>Catalog\<close>: the tools offered to a turn, the lookup of a published tool.
  \<^item> \<open>Throttle\<close>: \<open>auth/throttle.go\<close>, failed logins and the client's address behind proxies.
  \<^item> \<open>Machines\<close>, \<open>Directives\<close>: the rows of \<open>store/machine.go\<close> and \<open>store/machine_llm.go\<close>; tokens rotated, confirmed and
    retired; a machine reserved for a directive under its caps, and the directive's life.
  \<^item> \<open>Tasks\<close>: the rows of background tasks and the activities on them. \<open>Background\<close>: the task's workflow, its stop and the
    sweep that catches up with what was left undone.
  \<^item> \<open>Participant\<close>: \<open>ParticipantWorkflow\<close> and its channels.
  \<^item> \<open>Protocol\<close>: the messages of machines and what is let in (\<open>machine/protocol.go\<close>, \<open>machine/llm.go\<close>). \<open>Gateway\<close>: the goroutines of
    \<open>gateway/\<close> as steps on the connections, the rows and Temporal. \<open>GatewayRuns\<close>: what holds of every interleaving of them.
  \<^item> \<open>SessionStore\<close>: sessions, members, forks, agents and memory in the store, and what every sequence of its operations keeps.
    \<open>Turns\<close>: what the server learns of the participants (\<open>session/turns.go\<close>), as an implementation of a record that forgets
    nothing (the locale \<open>timed_simulation\<close>). \<open>Delivery\<close>: a message delivered and a turn stopped (\<open>session/messages.go\<close>,
    \<open>session/participants.go\<close>). \<open>StatusCache\<close>: the statuses shown and their cache, its requests, loads and invalidations as
    interleaved steps (\<open>session/status.go\<close>). \<open>Transcript\<close>: what a fork's summary and report are written from, and their posting.
  \<^item> \<open>Hub\<close>: \<open>sse/hub.go\<close>, the live events of the pages, as an implementation of a journal.
  \<^item> \<open>LLMRoute\<close>: the model of a turn, on a machine or on the server. \<open>AgentTools\<close>: the call context, delegation,
    children and results of tools. \<open>Prompt\<close>: the prompt and the request of
    one call to the model (\<open>activity/llm.go\<close>, \<open>prompt.go\<close>, \<open>skill.go\<close>). \<open>AgentLoop\<close>: \<open>AgentWorkflow\<close> itself. \<open>AgentRun\<close>: what holds of its runs.

  \<^bold>\<open>State.\<close> A table is a list of records in the order of its insertions, with the constraints of the schema as an
  invariant (\<open>table_ok\<close>, \<open>tasks_ok\<close>, \<open>dirs_ok\<close>); a statement of SQL is a function on it, a transaction is one step. Errors
  are values of a sum. A Go string is the list of its bytes. Times are integers, in nanoseconds.

  \<^bold>\<open>Time and the others.\<close> A workflow runs over a schedule, a function of a clock: each call it waits for is a tick, which
  says what came meanwhile (signals, messages, rows written by the others), and what the call answered, an error or a lost
  answer included. Theorems hold for every schedule, or for those a hypothesis names.

  \<^bold>\<open>Bounds.\<close> \<open>ParticipantWorkflow\<close> is given a number of rounds; \<open>participant_ends\<close> shows how many are enough once nothing
  more is delivered. \<open>react_loop\<close> is bounded by the code itself (\<open>maxReActIterations\<close>), as are the attempts of an activity
  (\<open>storeStepAttempts\<close>, \<open>relayAttempts\<close>, \<open>machineLLMAttempts\<close>): the recursion is on these numbers and needs no fuel.

  \<^bold>\<open>What the lemmas show.\<close> Invariants of each table, kept by every operation; first writers win (messages, turn ends, ends
  of tasks, directives); a participant answers each message once, in order, and ends; a turn's transcript is stored whole
  and read whole; a run dispatches only what the rules leave to its user; a machine that is required is never passed over
  for the server; a task is put aside only once its participant knows; a directive is handed to a machine once and its result
  never lost; a message reaches the agents it names that are open to its author, within the bound of a queue; a member
  stops only what they may; each message of a fork is reported once; what is private stays out of what others' models read.
  Each property is numbered.

  \<^bold>\<open>Not modelled.\<close> The JSON text of a value beyond the members the code reads or writes (a codec, an argument of the
  agent loop), the model's answers and the tools' results (inputs of the schedule), HTTP, HTML, WebSocket framing and processes
  (\<open>web/\<close>, \<open>cmd/\<close>, \<open>telegram/\<close>, \<open>provider/\<close>, \<open>machine/connect/\<close>, \<open>claudecode/\<close>, \<open>subproc/\<close>, \<open>tool/\<close>), which have little logic apart from
  the library they call; of the gateway, the enrolment routes (\<open>enroll.go\<close>) and the published files (\<open>files.go\<close>);
  the accounts' rows and cookies; and the retries inside one activity but for the posting of a result and the delivery of
  a message.
\<close>

end
